(* ===== verification/Yotos_Base.thy ===== *)
theory Yotos_Base
  imports Main "HOL-Library.Word"
begin

text \<open>
  The ground every component stands on: the machine types of the i686 target, the
  byte-addressed memory of the kernel with its little-endian 32-bit and 16-bit accesses, byte
  strings as C sees them, and the one helper of \<^verbatim>\<open>include/utils.h\<close>. The lemmas are the read-over-write
  laws that the heap, the file system and the loader proofs share; they are collected in
  \<open>mem_simps\<close>. The collections \<open>frame_simps\<close> and \<open>inv_intros\<close> are filled by the components: the
  fields an operation leaves alone, and the preservation of the invariants.
\<close>

unbundle bit_operations_syntax

section \<open>Types\<close>

type_synonym u8 = "8 word"
type_synonym u16 = "16 word"
type_synonym u32 = "32 word"
type_synonym u64 = "64 word"

text \<open>Memory is the flat 32-bit space; pointers are its addresses and wrap around.\<close>

type_synonym mem = "u32 \<Rightarrow> u8"

named_theorems mem_simps
named_theorems frame_simps
named_theorems inv_intros

section \<open>Little-endian accesses\<close>

definition rd16 :: "mem \<Rightarrow> u32 \<Rightarrow> u16" where
  "rd16 m a = ucast (m a) OR push_bit 8 (ucast (m (a + 1)))"

definition wr16 :: "mem \<Rightarrow> u32 \<Rightarrow> u16 \<Rightarrow> mem" where
  "wr16 m a v = m(a := ucast v, a + 1 := ucast (drop_bit 8 v))"

definition rd32 :: "mem \<Rightarrow> u32 \<Rightarrow> u32" where
  "rd32 m a = ucast (m a) OR push_bit 8 (ucast (m (a + 1)))
     OR push_bit 16 (ucast (m (a + 2))) OR push_bit 24 (ucast (m (a + 3)))"

definition wr32 :: "mem \<Rightarrow> u32 \<Rightarrow> u32 \<Rightarrow> mem" where
  "wr32 m a v = m(a := ucast v, a + 1 := ucast (drop_bit 8 v),
     a + 2 := ucast (drop_bit 16 v), a + 3 := ucast (drop_bit 24 v))"

definition rd64 :: "mem \<Rightarrow> u32 \<Rightarrow> u64" where
  "rd64 m a = ucast (rd32 m a) OR push_bit 32 (ucast (rd32 m (a + 4)))"

text \<open>\<open>memset\<close> of \<^verbatim>\<open>klibc/string.c\<close>: \<open>while (size--) *pointer++ = value;\<close>.\<close>

fun memset :: "mem \<Rightarrow> u32 \<Rightarrow> u8 \<Rightarrow> nat \<Rightarrow> mem" where
  "memset m pointer value 0 = m"
| "memset m pointer value (Suc n) = memset (m(pointer := value)) (pointer + 1) value n"

text \<open>\<open>align_up\<close> of \<^verbatim>\<open>include/utils.h\<close>.\<close>

definition align_up :: "u32 \<Rightarrow> u32 \<Rightarrow> u32" where
  "align_up value alignment = (value + alignment - 1) AND NOT (alignment - 1)"

section \<open>Ranges of addresses\<close>

text \<open>
  \<open>range32 a n\<close> is the set of the \<open>n\<close> addresses from \<open>a\<close> up, without wrap-around where
  \<open>unat a + n\<close> is at most \<open>2 ^ 32\<close>.
\<close>

definition range32 :: "u32 \<Rightarrow> nat \<Rightarrow> u32 set" where
  "range32 a n = {x. unat a \<le> unat x \<and> unat x < unat a + n}"

lemma range32_iff: "x \<in> range32 a n \<longleftrightarrow> unat a \<le> unat x \<and> unat x < unat a + n"
  by (simp add: range32_def)

lemma unat_plus_le: "unat a + k < 2 ^ 32 \<Longrightarrow> unat (a + of_nat k) = unat a + k" for a :: u32
  by (simp add: unat_word_ariths take_bit_eq_mod unat_of_nat)

lemma unat_plus_numeral:
  "unat a + numeral k < 4294967296 \<Longrightarrow> unat (a + numeral k) = unat a + numeral k" for a :: u32
  using unat_plus_le [of a "numeral k"] by simp

lemma unat_plus_one: "unat a + 1 < 4294967296 \<Longrightarrow> unat (a + 1) = unat a + 1" for a :: u32
  using unat_plus_le [of a 1] by simp

lemma u32_eq_iff: "a = b \<longleftrightarrow> unat a = unat b" for a b :: u32
  by (simp add: word_unat_eq_iff)

lemma unat_lt_2p32 [simp]: "unat a < 4294967296" for a :: u32
  using unsigned_less [of a] by simp

lemma unat_le_2p32 [simp]: "unat a \<le> 4294967295" for a :: u32
  using unat_lt_2p32 [of a] by linarith

lemma unat_u16_lt [simp]: "unat c < 65536" for c :: u16
  using unsigned_less [of c] by simp

lemma unat_u16_le [simp]: "unat c \<le> 65535" for c :: u16
  using unat_u16_lt [of c] by linarith

lemma unat_u8_lt [simp]: "unat c < 256" for c :: u8
  using unsigned_less [of c] by simp

lemma unat_u8_le [simp]: "unat c \<le> 255" for c :: u8
  using unat_u8_lt [of c] by linarith

lemma unat_ucast_u16 [simp]: "unat (ucast c :: u32) = unat c" for c :: u16
  using unat_u16_lt [of c] by (simp add: unsigned_ucast_eq take_bit_eq_mod del: unat_u16_lt)

lemma unat_ucast_u8 [simp]: "unat (ucast c :: u32) = unat c" for c :: u8
  using unat_u8_lt [of c] by (simp add: unsigned_ucast_eq take_bit_eq_mod del: unat_u8_lt)

lemma unat_and_mask: "unat (a AND mask n) = unat a mod 2 ^ n" for a :: u32
  unfolding take_bit_eq_mask [symmetric] by (simp only: unsigned_take_bit_eq) (simp add: take_bit_eq_mod)

lemma unat_add_u32: "unat a + unat b < 4294967296 \<Longrightarrow> unat (a + b) = unat a + unat b" for a b :: u32
  by (simp add: unat_word_ariths take_bit_eq_mod)

lemma unat_mult_u32: "unat a * unat b < 4294967296 \<Longrightarrow> unat (a * b) = unat a * unat b" for a b :: u32
  by (simp add: unat_word_ariths take_bit_eq_mod)

section \<open>Read over write\<close>

lemma rd32_wr32_same [mem_simps]: "rd32 (wr32 m a v) a = v"
proof -
  have [simp]: "a + 1 \<noteq> a" "a + 2 \<noteq> a" "a + 3 \<noteq> a" "a + 2 \<noteq> a + 1" "a + 3 \<noteq> a + 1" "a + 3 \<noteq> a + 2"
    by simp_all
  have "rd32 (wr32 m a v) a = (ucast (ucast v :: u8) :: u32)
      OR push_bit 8 (ucast (ucast (drop_bit 8 v) :: u8))
      OR push_bit 16 (ucast (ucast (drop_bit 16 v) :: u8))
      OR push_bit 24 (ucast (ucast (drop_bit 24 v) :: u8))"
    by (simp add: rd32_def wr32_def)
  also have "\<dots> = v"
  proof (rule bit_word_eqI)
    fix n assume n: "n < LENGTH(32)"
    consider "n < 8" | "8 \<le> n" "n < 16" | "16 \<le> n" "n < 24" | "24 \<le> n" by linarith
    then show "bit ((ucast (ucast v :: u8) :: u32) OR push_bit 8 (ucast (ucast (drop_bit 8 v) :: u8))
      OR push_bit 16 (ucast (ucast (drop_bit 16 v) :: u8))
      OR push_bit 24 (ucast (ucast (drop_bit 24 v) :: u8))) n = bit v n"
      using n by cases (auto simp add: bit_simps)
  qed
  finally show ?thesis .
qed

lemma rd16_wr16_same [mem_simps]: "rd16 (wr16 m a v) a = v"
proof -
  have "rd16 (wr16 m a v) a = (ucast (ucast v :: u8) :: u16)
      OR push_bit 8 (ucast (ucast (drop_bit 8 v) :: u8))"
    by (simp add: rd16_def wr16_def)
  also have "\<dots> = v"
    by (rule bit_word_eqI) (auto simp add: bit_simps not_less)
  finally show ?thesis .
qed

lemma rd32_cong:
  assumes "m a = m' a" "m (a + 1) = m' (a + 1)" "m (a + 2) = m' (a + 2)" "m (a + 3) = m' (a + 3)"
  shows "rd32 m a = rd32 m' a"
  using assms by (simp add: rd32_def)

lemma range32_offsets:
  assumes "unat a + 4 \<le> 4294967296"
  shows "a \<in> range32 a 4" "a + 1 \<in> range32 a 4" "a + 2 \<in> range32 a 4" "a + 3 \<in> range32 a 4"
  using assms by (auto simp: range32_iff unat_plus_numeral unat_plus_one)

lemma rd32_outside:
  assumes "\<And>x. x \<in> range32 a 4 \<Longrightarrow> m x = m' x" "unat a + 4 \<le> 4294967296"
  shows "rd32 m a = rd32 m' a"
  using assms range32_offsets [of a] by (intro rd32_cong) auto

lemma wr32_outside:
  assumes "x \<notin> range32 a 4" "unat a + 4 \<le> 4294967296"
  shows "wr32 m a v x = m x"
  using assms range32_offsets [of a] by (auto simp: wr32_def)

text \<open>Two words of memory that do not overlap: the ranges are apart and neither wraps.\<close>

definition apart32 :: "u32 \<Rightarrow> u32 \<Rightarrow> bool" where
  "apart32 a b \<longleftrightarrow> (unat a + 4 \<le> unat b \<or> unat b + 4 \<le> unat a)
     \<and> unat a + 4 \<le> 4294967296 \<and> unat b + 4 \<le> 4294967296"

lemma rd32_wr32_apart [mem_simps]: "apart32 a b \<Longrightarrow> rd32 (wr32 m a v) b = rd32 m b"
  by (intro rd32_outside wr32_outside) (auto simp: apart32_def range32_iff)

lemma rd32_upd_apart [mem_simps]:
  assumes "unat x < unat b \<or> unat b + 4 \<le> unat x" "unat b + 4 \<le> 4294967296"
  shows "rd32 (m(x := v)) b = rd32 m b"
  using assms by (intro rd32_outside) (auto simp: range32_iff)

lemma wr32_apart_byte [mem_simps]:
  assumes "unat x < unat a \<or> unat a + 4 \<le> unat x" "unat a + 4 \<le> 4294967296"
  shows "wr32 m a v x = m x"
  using assms by (intro wr32_outside) (auto simp: range32_iff)

lemma memset_outside:
  "unat p + n \<le> 4294967296 \<Longrightarrow> x \<notin> range32 p n \<Longrightarrow> memset m p v n x = m x"
proof (induction n arbitrary: m p)
  case 0
  then show ?case by simp
next
  case (Suc n)
  show ?case
  proof (cases "n = 0")
    case True
    with Suc.prems show ?thesis by (auto simp: range32_iff)
  next
    case False
    with Suc.prems have p1: "unat (p + 1) = unat p + 1"
      by (intro unat_plus_one) simp
    with Suc.prems have "memset (m(p := v)) (p + 1) v n x = (m(p := v)) x"
      by (intro Suc.IH) (auto simp: range32_iff)
    moreover have "x \<noteq> p" using Suc.prems by (auto simp: range32_iff)
    ultimately show ?thesis by simp
  qed
qed

lemma memset_inside:
  "unat p + n \<le> 4294967296 \<Longrightarrow> x \<in> range32 p n \<Longrightarrow> memset m p v n x = v"
proof (induction n arbitrary: m p)
  case 0
  then show ?case by (auto simp: range32_iff)
next
  case (Suc n)
  show ?case
  proof (cases "n = 0")
    case True
    with Suc.prems show ?thesis by (simp add: range32_iff u32_eq_iff)
  next
    case False
    with Suc.prems have p1: "unat (p + 1) = unat p + 1"
      by (intro unat_plus_one) simp
    show ?thesis
    proof (cases "x = p")
      case True
      with Suc.prems p1 have "memset (m(p := v)) (p + 1) v n x = (m(p := v)) x"
        by (intro memset_outside) (auto simp: range32_iff)
      with True show ?thesis by simp
    next
      case False
      then have "unat x \<noteq> unat p" by (simp add: u32_eq_iff)
      with Suc.prems p1 show ?thesis
        by (simp, intro Suc.IH) (auto simp: range32_iff)
    qed
  qed
qed

section \<open>Byte strings\<close>

type_synonym bytes = "u8 list"

text \<open>The bytes of a C string literal, without its terminating NUL.\<close>

definition str :: "string \<Rightarrow> bytes" where
  "str s = map of_char s"

text \<open>
  A \<open>char *\<close> is modelled by the bytes from the pointer to the end of the object, and a NUL follows
  them: reading at the length gives the terminator. A list with a zero inside is a buffer
  whose string ends before the buffer does.
\<close>

definition cget :: "bytes \<Rightarrow> nat \<Rightarrow> u8" where
  "cget s i = (if i < length s then s ! i else 0)"

text \<open>\<open>cstr s\<close> is the string a buffer holds: everything before the first NUL.\<close>

definition cstr :: "bytes \<Rightarrow> bytes" where
  "cstr s = takeWhile (\<lambda>c. c \<noteq> 0) s"

text \<open>\<open>char\<close> is signed on this target; \<open>schar\<close> is its integer promotion.\<close>

definition schar :: "u8 \<Rightarrow> int" where
  "schar c = sint c"

lemma cget_lt [simp]: "i < length s \<Longrightarrow> cget s i = s ! i"
  by (simp add: cget_def)

lemma cget_nonzero_lt: "cget s i \<noteq> 0 \<Longrightarrow> i < length s"
  by (simp add: cget_def split: if_splits)

lemma cget_Cons_0 [simp]: "cget (c # s) 0 = c"
  by (simp add: cget_def)

lemma cget_Cons_Suc [simp]: "cget (c # s) (Suc i) = cget s i"
  by (simp add: cget_def)

lemma cget_Nil [simp]: "cget [] i = 0"
  by (simp add: cget_def)

lemma cget_append: "cget (s @ t) i = (if i < length s then s ! i else cget t (i - length s))"
  by (auto simp: cget_def nth_append)

lemma cget_cstr: "i < length (cstr s) \<Longrightarrow> cget s i = cstr s ! i"
  by (simp add: cstr_def cget_def takeWhile_nth) (meson length_takeWhile_le order_less_le_trans)

lemma cget_cstr_nonzero: "i < length (cstr s) \<Longrightarrow> cget s i \<noteq> 0"
  using nth_mem [of i "cstr s"] set_takeWhileD [of "cget s i" "\<lambda>c. c \<noteq> 0" s]
  by (simp add: cget_cstr) (simp add: cstr_def)

lemma cget_cstr_end: "cget s (length (cstr s)) = 0"
proof (cases "length (cstr s) < length s")
  case True
  then show ?thesis
    using nth_length_takeWhile [of "\<lambda>c. c \<noteq> 0" s] by (simp add: cget_def cstr_def)
qed (simp add: cget_def)

lemma cstr_no_zero [simp]: "0 \<notin> set (cstr s)"
  by (auto simp: cstr_def dest: set_takeWhileD)

lemma cstr_id: "0 \<notin> set s \<Longrightarrow> cstr s = s"
  by (auto simp: cstr_def)

lemma cstr_length_le: "length (cstr s) \<le> length s"
  by (simp add: cstr_def length_takeWhile_le)

lemma cstr_Nil [simp]: "cstr [] = []"
  by (simp add: cstr_def)

lemma cstr_Cons: "cstr (c # s) = (if c = 0 then [] else c # cstr s)"
  by (simp add: cstr_def)

lemma cstr_append_zero: "0 \<notin> set s \<Longrightarrow> cstr (s @ 0 # t) = s"
  by (induction s) (auto simp: cstr_def)

end
