(* ===== verification/Fat16_Disk.thy ===== *)
theory Fat16_Disk
  imports Yotos_Base "HOL-Library.Monad_Syntax"
begin

text \<open>
  The lower half of \<^verbatim>\<open>fs/fat16.c\<close>: the layout \<open>fat16_init\<close> reads from the boot sector, the file
  allocation table, and the clusters of the data area. A drive is a map from sector numbers to the
  bytes of a sector; the driver passes 28 bits of a sector number on. Buffers are maps from
  indices to bytes.
\<close>

section \<open>Sectors\<close>

type_synonym sector = "nat \<Rightarrow> u8"

text \<open>The fields of the boot sector that the code reads.\<close>

record fat16_bpb =
  bytes_per_sector :: u16
  sectors_per_cluster :: u8
  reserved_sectors :: u16
  fat_count :: u8
  root_entry_count :: u16
  fat_size_16 :: u16

text \<open>The static variables of the module, and the drive behind it.\<close>

record fat =
  drive :: "u32 \<Rightarrow> sector"
  bpb :: fat16_bpb
  fat_lba :: u32
  root_dir_lba :: u32
  root_dir_sectors :: u32
  data_lba :: u32
  mounted :: bool

definition lba28 :: "u32 \<Rightarrow> u32" where
  "lba28 lba = lba AND 0x0FFFFFFF"

definition read_sector :: "u32 \<Rightarrow> fat \<Rightarrow> sector" where
  "read_sector lba st = drive st (lba28 lba)"

definition write_sector :: "u32 \<Rightarrow> sector \<Rightarrow> fat \<Rightarrow> fat" where
  "write_sector lba buf st = st\<lparr>drive := (drive st)(lba28 lba := buf)\<rparr>"

text \<open>16-bit and 32-bit fields of a buffer.\<close>

definition le16 :: "sector \<Rightarrow> nat \<Rightarrow> u16" where
  "le16 b i = ucast (b i) OR push_bit 8 (ucast (b (i + 1)))"

definition set_le16 :: "nat \<Rightarrow> u16 \<Rightarrow> sector \<Rightarrow> sector" where
  "set_le16 i v b = b(i := ucast v, i + 1 := ucast (drop_bit 8 v))"

definition le32 :: "sector \<Rightarrow> nat \<Rightarrow> u32" where
  "le32 b i = ucast (le16 b i) OR push_bit 16 (ucast (le16 b (i + 2)))"

definition set_le32 :: "nat \<Rightarrow> u32 \<Rightarrow> sector \<Rightarrow> sector" where
  "set_le32 i v b = set_le16 (i + 2) (ucast (drop_bit 16 v)) (set_le16 i (ucast v) b)"

section \<open>Mounting\<close>

definition bpb_of :: "sector \<Rightarrow> fat16_bpb" where
  "bpb_of b = \<lparr>bytes_per_sector = le16 b 0x0B, sectors_per_cluster = b 0x0D,
     reserved_sectors = le16 b 0x0E, fat_count = b 0x10, root_entry_count = le16 b 0x11,
     fat_size_16 = le16 b 0x16\<rparr>"

text \<open>\<open>fat16_init\<close> returns 0 or -1; its messages are printed by its caller in the start-up theory.\<close>

definition fat16_init :: "fat \<Rightarrow> int \<times> fat" where
  "fat16_init st =
     (let sec = read_sector 0 st in
      if sec 510 \<noteq> 0x55 \<or> sec 511 \<noteq> 0xAA then (-1, st)
      else (let st = st\<lparr>bpb := bpb_of sec\<rparr> in
        if bytes_per_sector (bpb st) \<noteq> 512 then (-1, st)
        else if fat_size_16 (bpb st) = 0 then (-1, st)
        else (let st = st\<lparr>fat_lba := ucast (reserved_sectors (bpb st))\<rparr>;
                  st = st\<lparr>root_dir_lba := fat_lba st + ucast (fat_count (bpb st)) * ucast (fat_size_16 (bpb st))\<rparr>;
                  st = st\<lparr>root_dir_sectors := (ucast (root_entry_count (bpb st)) * 32 + 511) div 512\<rparr>;
                  st = st\<lparr>data_lba := root_dir_lba st + root_dir_sectors st\<rparr>;
                  st = st\<lparr>mounted := True\<rparr>
              in (0, st))))"

section \<open>The file allocation table\<close>

definition FAT16_CLUSTER_EOF_LO :: u16 where
  "FAT16_CLUSTER_EOF_LO = 0xFFF8"

definition fat_entry :: "u16 \<Rightarrow> fat \<Rightarrow> u16" where
  "fat_entry cluster st =
     (let byte_off = ucast cluster * 2;
          fat_sector = fat_lba st + byte_off div 512;
          within_sect = byte_off mod 512 :: u32
      in le16 (read_sector fat_sector st) (unat within_sect))"

definition fat_set_entry :: "u16 \<Rightarrow> u16 \<Rightarrow> fat \<Rightarrow> fat" where
  "fat_set_entry cluster val st =
     (let byte_off = ucast cluster * 2;
          fat_sector = fat_lba st + byte_off div 512;
          within_sect = byte_off mod 512 :: u32;
          st = write_sector fat_sector (set_le16 (unat within_sect) val (read_sector fat_sector st)) st
      in if fat_count (bpb st) > 1
         then (let fat2_sector = fat_lba st + ucast (fat_size_16 (bpb st)) + byte_off div 512
               in write_sector fat2_sector (set_le16 (unat within_sect) val (read_sector fat2_sector st)) st)
         else st)"

text \<open>The inner loop of \<open>fat_alloc_cluster\<close> over the entries \<open>is\<close> of sector \<open>s\<close> of the table.\<close>

fun free_entry :: "sector \<Rightarrow> u32 \<Rightarrow> nat list \<Rightarrow> u32 option" where
  "free_entry buf s [] = None"
| "free_entry buf s (i # is) =
     (let cluster = s * 256 + of_nat i in
      if cluster < 2 then free_entry buf s is
      else if le16 buf (2 * i) = 0 then Some cluster
      else free_entry buf s is)"

fun alloc_scan :: "u32 \<Rightarrow> nat \<Rightarrow> fat \<Rightarrow> u32 option" where
  "alloc_scan s 0 st = None"
| "alloc_scan s (Suc n) st =
     (case free_entry (read_sector (fat_lba st + s) st) s [0..<256] of
        Some cluster \<Rightarrow> Some cluster
      | None \<Rightarrow> alloc_scan (s + 1) n st)"

definition fat_alloc_cluster :: "fat \<Rightarrow> u16 \<times> fat" where
  "fat_alloc_cluster st =
     (case alloc_scan 0 (unat (fat_size_16 (bpb st))) st of
        Some cluster \<Rightarrow> (ucast cluster, fat_set_entry (ucast cluster) 0xFFFF st)
      | None \<Rightarrow> (0, st))"

partial_function (option) fat_free_chain :: "u16 \<Rightarrow> fat \<Rightarrow> fat option" where
  "fat_free_chain cluster st =
     (if cluster \<ge> 2 \<and> cluster < FAT16_CLUSTER_EOF_LO
      then fat_free_chain (fat_entry cluster st) (fat_set_entry cluster 0 st)
      else Some st)"

section \<open>Clusters\<close>

definition cluster_lba :: "u16 \<Rightarrow> fat \<Rightarrow> u32" where
  "cluster_lba cluster st = data_lba st + (ucast cluster - 2) * ucast (sectors_per_cluster (bpb st))"

text \<open>Sectors \<open>i\<close> to \<open>i + n - 1\<close> of the run at \<open>lba\<close>, each at its place in the buffer.\<close>

fun read_sectors :: "u32 \<Rightarrow> nat \<Rightarrow> nat \<Rightarrow> fat \<Rightarrow> sector \<Rightarrow> sector" where
  "read_sectors lba i 0 st buf = buf"
| "read_sectors lba i (Suc n) st buf = read_sectors lba (i + 1) n st
     (\<lambda>k. if i * 512 \<le> k \<and> k < i * 512 + 512 then read_sector (lba + of_nat i) st (k - i * 512) else buf k)"

definition read_cluster :: "u16 \<Rightarrow> fat \<Rightarrow> sector \<Rightarrow> sector" where
  "read_cluster cluster st buf =
     read_sectors (cluster_lba cluster st) 0 (unat (sectors_per_cluster (bpb st))) st buf"

fun write_sectors :: "u32 \<Rightarrow> nat \<Rightarrow> nat \<Rightarrow> sector \<Rightarrow> fat \<Rightarrow> fat" where
  "write_sectors lba i 0 buf st = st"
| "write_sectors lba i (Suc n) buf st =
     write_sectors lba (i + 1) n buf (write_sector (lba + of_nat i) (\<lambda>k. buf (i * 512 + k)) st)"


section \<open>Fields of a buffer\<close>

lemma le16_set_same [simp]: "le16 (set_le16 i v b) i = v"
  by (rule bit_word_eqI) (auto simp: le16_def set_le16_def bit_simps)

lemma le16_set_other: "i + 2 \<le> j \<or> j + 2 \<le> i \<Longrightarrow> le16 (set_le16 i v b) j = le16 b j"
  by (auto simp: le16_def set_le16_def)

lemma le16_cong: "b i = b' i \<Longrightarrow> b (i + 1) = b' (i + 1) \<Longrightarrow> le16 b i = le16 b' i"
  by (simp add: le16_def)

lemma set_le16_other: "k \<noteq> i \<Longrightarrow> k \<noteq> i + 1 \<Longrightarrow> set_le16 i v b k = b k"
  by (simp add: set_le16_def)

lemma le32_set_same [simp]: "le32 (set_le32 i v b) i = v"
proof -
  have "le32 (set_le32 i v b) i = ucast (ucast v :: u16) OR push_bit 16 (ucast (ucast (drop_bit 16 v) :: u16))"
    by (simp add: le32_def set_le32_def le16_set_other)
  also have "\<dots> = v" by (rule bit_word_eqI) (auto simp: bit_simps)
  finally show ?thesis .
qed

lemma set_le32_other: "k < i \<or> i + 4 \<le> k \<Longrightarrow> set_le32 i v b k = b k"
  by (auto simp: set_le32_def set_le16_def)

section \<open>The layout\<close>

lemma lba28_id: "unat lba < 2 ^ 28 \<Longrightarrow> lba28 lba = lba"
proof -
  assume l: "unat lba < 2 ^ 28"
  have m: "(0x0FFFFFFF :: u32) = mask 28" by (simp add: mask_eq_exp_minus_1)
  show ?thesis unfolding lba28_def u32_eq_iff m unat_and_mask using l by simp
qed

text \<open>
  What a mounted volume looks like: the constants \<open>fat16_init\<close> computes, at least one table, and no
  wrap-around in them.
\<close>

definition layout :: "fat \<Rightarrow> bool" where
  "layout st \<longleftrightarrow> mounted st \<and> 0 < unat (fat_size_16 (bpb st)) \<and> 0 < unat (fat_count (bpb st))
     \<and> unat (fat_lba st) = unat (reserved_sectors (bpb st))
     \<and> unat (root_dir_lba st) = unat (fat_lba st) + unat (fat_count (bpb st)) * unat (fat_size_16 (bpb st))
     \<and> unat (root_dir_sectors st) = (unat (root_entry_count (bpb st)) * 32 + 511) div 512
     \<and> unat (data_lba st) = unat (root_dir_lba st) + unat (root_dir_sectors st)"

text \<open>Clusters whose entry lies in the table.\<close>

definition in_table :: "fat \<Rightarrow> u16 \<Rightarrow> bool" where
  "in_table st c \<longleftrightarrow> unat c < 256 * unat (fat_size_16 (bpb st))"

lemma root_sectors_le: "(unat c * 32 + 511) div 512 \<le> 4096" for c :: u16
proof -
  have "(unat c * 32 + 511) div 512 \<le> (65535 * 32 + 511) div 512"
    using unat_u16_le [of c] by (intro div_le_mono add_mono mult_le_mono) simp_all
  then show ?thesis by simp
qed

lemma layout_bounds:
  assumes "layout st"
  shows "unat (fat_lba st) \<le> 65535" "unat (root_dir_lba st) \<le> 65535 + 255 * 65535"
    "unat (root_dir_sectors st) \<le> 4096" "unat (data_lba st) \<le> 256 * 65535 + 4096"
    "unat (fat_lba st) + unat (fat_size_16 (bpb st)) \<le> unat (root_dir_lba st)"
    "1 < fat_count (bpb st) \<Longrightarrow> unat (fat_lba st) + 2 * unat (fat_size_16 (bpb st)) \<le> unat (root_dir_lba st)"
proof -
  let ?c = "unat (fat_count (bpb st))" and ?s = "unat (fat_size_16 (bpb st))"
  have p: "?c * ?s \<le> 255 * 65535" by (rule mult_le_mono) simp_all
  note r = root_sectors_le [of "root_entry_count (bpb st)"]
  have q: "1 * ?s \<le> ?c * ?s" using assms by (intro mult_le_mono1) (simp add: layout_def)
  show f: "unat (fat_lba st) \<le> 65535" using assms by (simp add: layout_def)
  show d: "unat (root_dir_lba st) \<le> 65535 + 255 * 65535" using assms p f unfolding layout_def by linarith
  show "unat (data_lba st) \<le> 256 * 65535 + 4096" using assms r d unfolding layout_def by linarith
  show "unat (root_dir_sectors st) \<le> 4096" using assms r by (simp add: layout_def)
  show "unat (fat_lba st) + ?s \<le> unat (root_dir_lba st)" using assms q by (simp add: layout_def)
  assume "1 < fat_count (bpb st)"
  then have "2 \<le> ?c" by (simp add: word_less_nat_alt)
  then have "2 * ?s \<le> ?c * ?s" by (rule mult_le_mono1)
  then show "unat (fat_lba st) + 2 * ?s \<le> unat (root_dir_lba st)" using assms by (simp add: layout_def)
qed

lemma init_layout:
  assumes "fat16_init st = (0, st')" "0 < fat_count (bpb st')"
  shows "layout st'"
proof -
  define b where "b = bpb_of (read_sector 0 st)"
  have st': "st' = st\<lparr>bpb := b, fat_lba := ucast (reserved_sectors b),
      root_dir_lba := ucast (reserved_sectors b) + ucast (fat_count b) * ucast (fat_size_16 b),
      root_dir_sectors := (ucast (root_entry_count b) * 32 + 511) div 512,
      data_lba := ucast (reserved_sectors b) + ucast (fat_count b) * ucast (fat_size_16 b)
        + (ucast (root_entry_count b) * 32 + 511) div 512, mounted := True\<rparr>"
    and z: "fat_size_16 b \<noteq> 0"
    using assms(1) by (auto simp: fat16_init_def Let_def b_def split: if_splits)
  have c: "unat (fat_count b) \<le> 255" "unat (fat_size_16 b) \<le> 65535" by simp_all
  have m: "unat (ucast (fat_count b) * ucast (fat_size_16 b) :: u32) = unat (fat_count b) * unat (fat_size_16 b)"
    "unat (fat_count b) * unat (fat_size_16 b) \<le> 255 * 65535"
    using mult_le_mono [OF c] by (simp_all add: unat_mult_u32)
  have x: "unat (ucast (root_entry_count b) * 32 + 511 :: u32) = unat (root_entry_count b) * 32 + 511"
    using unat_u16_le [of "root_entry_count b"] by (simp add: unat_add_u32 unat_mult_u32 del: unat_u16_le)
  define R where "R = (ucast (root_entry_count b) * 32 + 511 :: u32) div 512"
  have r: "unat R = (unat (root_entry_count b) * 32 + 511) div 512" "unat R \<le> 4096"
    using x root_sectors_le [of "root_entry_count b"] by (simp_all add: R_def unat_div)
  define M where "M = (ucast (fat_count b) * ucast (fat_size_16 b) :: u32)"
  have l: "unat (reserved_sectors b) \<le> 65535" by simp
  have M: "unat M = unat (fat_count b) * unat (fat_size_16 b)" "unat M \<le> 255 * 65535" using m by (simp_all add: M_def)
  have l: "unat (ucast (reserved_sectors b) :: u32) \<le> 65535" by simp
  have 1: "unat (ucast (reserved_sectors b) + M) = unat (ucast (reserved_sectors b) :: u32) + unat M"
    using M l by (intro unat_add_u32) linarith
  have 2: "unat (ucast (reserved_sectors b) + M + R) = unat (ucast (reserved_sectors b) + M) + unat R"
    using 1 M l r(2) by (intro unat_add_u32) linarith
  have "0 < unat (fat_count b)" using assms(2) by (simp add: st' word_less_nat_alt)
  moreover have "0 < unat (fat_size_16 b)" using z by (simp add: unat_gt_0)
  ultimately show ?thesis using 1 2 r M by (simp add: layout_def st' R_def [symmetric] M_def [symmetric])
qed


section \<open>Entries of the table\<close>

text \<open>The sector and the offset of an entry.\<close>

definition fat_sector :: "u16 \<Rightarrow> fat \<Rightarrow> u32" where
  "fat_sector c st = fat_lba st + (ucast c * 2) div 512"

definition fat_within :: "u16 \<Rightarrow> nat" where
  "fat_within c = 2 * (unat c mod 256)"

lemma fat_offset: "unat ((ucast c * 2 :: u32) div 512) = unat c div 256" "unat ((ucast c * 2 :: u32) mod 512) = fat_within c"
proof -
  have u: "unat (ucast c * 2 :: u32) = unat c * 2" using unat_u16_lt [of c] by (simp add: unat_mult_u32 del: unat_u16_lt)
  have "unat c * 2 div (256 * 2) = unat c div 256" by (rule div_mult_mult2) simp
  then show "unat ((ucast c * 2 :: u32) div 512) = unat c div 256" by (simp add: unat_div u)
  have "unat c * 2 mod (256 * 2) = unat c mod 256 * 2" by (simp only: mult_mod_right mult.commute)
  then show "unat ((ucast c * 2 :: u32) mod 512) = fat_within c" by (simp add: unat_mod u fat_within_def)
qed

lemma fat_within_eq_iff: "unat c div 256 = unat d div 256 \<Longrightarrow> fat_within c = fat_within d \<longleftrightarrow> c = d"
  by (metis div_mult_mod_eq fat_within_def mult_cancel_left word_unat_eq_iff zero_neq_numeral)

lemma fat_within_apart: "fat_within c \<noteq> fat_within d \<Longrightarrow> fat_within c + 2 \<le> fat_within d \<or> fat_within d + 2 \<le> fat_within c"
  by (auto simp: fat_within_def)

lemma fat_within_lt: "fat_within c < 511"
  by (simp add: fat_within_def)

lemma unat_fat_sector:
  assumes "layout st"
  shows "unat (fat_sector c st) = unat (fat_lba st) + unat c div 256" "unat (fat_sector c st) < 2 ^ 28"
    "unat (fat_sector c st + ucast (fat_size_16 (bpb st))) = unat (fat_lba st) + unat c div 256 + unat (fat_size_16 (bpb st))"
    "unat (fat_sector c st + ucast (fat_size_16 (bpb st))) < 2 ^ 28"
proof -
  have b: "unat c div 256 \<le> 255" using less_mult_imp_div_less [of "unat c" 256 256] by simp
  have l: "unat (fat_lba st) \<le> 65535" by (rule layout_bounds [OF assms])
  have "unat (fat_sector c st) = unat (fat_lba st) + unat ((ucast c * 2 :: u32) div 512)"
    unfolding fat_sector_def using b l fat_offset(1) [of c] by (intro unat_add_u32) linarith
  then show 1: "unat (fat_sector c st) = unat (fat_lba st) + unat c div 256" by (simp add: fat_offset)
  then show "unat (fat_sector c st) < 2 ^ 28" using b l by simp
  have s: "unat (ucast (fat_size_16 (bpb st)) :: u32) \<le> 65535" by simp
  have "unat (fat_sector c st + ucast (fat_size_16 (bpb st))) =
      unat (fat_sector c st) + unat (ucast (fat_size_16 (bpb st)) :: u32)"
    using 1 b l s by (intro unat_add_u32) linarith
  then show 2: "unat (fat_sector c st + ucast (fat_size_16 (bpb st))) = unat (fat_lba st) + unat c div 256 + unat (fat_size_16 (bpb st))"
    using 1 by simp
  show "unat (fat_sector c st + ucast (fat_size_16 (bpb st))) < 2 ^ 28"
  proof -
    have "(2 :: nat) ^ 28 = 268435456" by simp
    then show ?thesis unfolding 2 using b l s unfolding unat_ucast_u16 by linarith
  qed
qed

lemma fat_entry_alt: "layout st \<Longrightarrow> fat_entry c st = le16 (drive st (fat_sector c st)) (fat_within c)"
  using lba28_id [OF unat_fat_sector(2)]
  by (simp add: fat_entry_def read_sector_def fat_sector_def [symmetric] fat_offset Let_def)

text \<open>What \<open>fat_set_entry\<close> does to the drive.\<close>

lemma fat_set_entry_alt:
  assumes "layout st"
  shows "fat_set_entry c v st = st\<lparr>drive := (let d = (drive st)(fat_sector c st :=
        set_le16 (fat_within c) v (drive st (fat_sector c st)));
      f2 = fat_sector c st + ucast (fat_size_16 (bpb st))
    in if fat_count (bpb st) > 1 then d(f2 := set_le16 (fat_within c) v (d f2)) else d)\<rparr>"
proof -
  have e: "fat_lba st + ucast (fat_size_16 (bpb st)) + ucast c * 2 div 512 = fat_sector c st + ucast (fat_size_16 (bpb st))"
    by (simp add: fat_sector_def)
  show ?thesis
    using lba28_id [OF unat_fat_sector(2) [OF assms, of c]] lba28_id [OF unat_fat_sector(4) [OF assms, of c]]
    by (simp add: fat_set_entry_def read_sector_def write_sector_def fat_offset Let_def e fat_sector_def [symmetric])
qed

lemma set_entry_frame [frame_simps]:
  "bpb (fat_set_entry c v st) = bpb st" "fat_lba (fat_set_entry c v st) = fat_lba st"
  "root_dir_lba (fat_set_entry c v st) = root_dir_lba st" "root_dir_sectors (fat_set_entry c v st) = root_dir_sectors st"
  "data_lba (fat_set_entry c v st) = data_lba st" "mounted (fat_set_entry c v st) = mounted st"
  by (simp_all add: fat_set_entry_def write_sector_def Let_def)

lemma set_entry_layout [inv_intros]: "layout st \<Longrightarrow> layout (fat_set_entry c v st)"
  by (simp add: layout_def frame_simps)

lemma set_entry_in_table [simp]: "in_table (fat_set_entry c v st) d = in_table st d"
  by (simp add: in_table_def frame_simps)

lemma in_table_div: "in_table st c \<Longrightarrow> unat c div 256 < unat (fat_size_16 (bpb st))"
  unfolding in_table_def by (rule less_mult_imp_div_less) (simp add: mult.commute)

lemma fat_entry_set:
  assumes "layout st" "in_table st c" "in_table st d"
  shows "fat_entry d (fat_set_entry c v st) = (if d = c then v else fat_entry d st)"
proof -
  have s: "fat_sector d (fat_set_entry c v st) = fat_sector d st" by (simp add: fat_sector_def frame_simps)
  have "unat (fat_sector d st) < unat (fat_sector c st + ucast (fat_size_16 (bpb st)))"
    using in_table_div [OF assms(3)] unat_fat_sector [OF assms(1)] by simp
  then have n: "fat_sector d st \<noteq> fat_sector c st + ucast (fat_size_16 (bpb st))" by auto
  have e: "fat_sector d st = fat_sector c st \<longleftrightarrow> unat d div 256 = unat c div 256"
    by (simp add: u32_eq_iff unat_fat_sector [OF assms(1)])
  have "drive (fat_set_entry c v st) (fat_sector d st) = (if fat_sector d st = fat_sector c st
      then set_le16 (fat_within c) v (drive st (fat_sector c st)) else drive st (fat_sector d st))"
    using n assms(1) by (auto simp: fat_set_entry_alt Let_def layout_def u32_eq_iff)
  then show ?thesis
    using e fat_within_eq_iff [of d c] fat_within_apart [of c d]
    by (auto simp: fat_entry_alt [OF assms(1)] fat_entry_alt [OF set_entry_layout [OF assms(1)]] s le16_set_other)
qed

text \<open>Sectors outside the tables are not touched, and both copies of the table stay equal.\<close>

lemma set_entry_read:
  assumes "layout st" "in_table st c" "unat (lba28 lba) < unat (fat_lba st) \<or> unat (root_dir_lba st) \<le> unat (lba28 lba)"
  shows "read_sector lba (fat_set_entry c v st) = read_sector lba st"
proof -
  have "unat (fat_sector c st) < unat (root_dir_lba st)" "unat (fat_lba st) \<le> unat (fat_sector c st)"
    using layout_bounds(5) [OF assms(1)] in_table_div [OF assms(2)] unat_fat_sector [OF assms(1)] by simp_all
  then have a: "lba28 lba \<noteq> fat_sector c st" using assms(3) by auto
  have "lba28 lba \<noteq> fat_sector c st + ucast (fat_size_16 (bpb st))" if "1 < fat_count (bpb st)"
  proof -
    have "unat (fat_sector c st + ucast (fat_size_16 (bpb st))) < unat (root_dir_lba st)"
      "unat (fat_lba st) \<le> unat (fat_sector c st + ucast (fat_size_16 (bpb st)))"
      using layout_bounds(6) [OF assms(1) that] in_table_div [OF assms(2)] unat_fat_sector [OF assms(1)] by simp_all
    then show ?thesis using assms(3) by auto
  qed
  then show ?thesis using a by (simp add: read_sector_def fat_set_entry_alt assms Let_def)
qed


section \<open>Chains of clusters\<close>

text \<open>The clusters the code visits from \<open>c\<close> along the entries \<open>e\<close>, up to the end-of-chain mark.\<close>

fun chain :: "(u16 \<Rightarrow> u16) \<Rightarrow> u16 \<Rightarrow> u16 list \<Rightarrow> bool" where
  "chain e c [] \<longleftrightarrow> FAT16_CLUSTER_EOF_LO \<le> c"
| "chain e c (x # xs) \<longleftrightarrow> c = x \<and> 2 \<le> x \<and> x < FAT16_CLUSTER_EOF_LO \<and> chain e (e x) xs"

lemma chain_member: "chain e c cs \<Longrightarrow> x \<in> set cs \<Longrightarrow> 2 \<le> x \<and> x < FAT16_CLUSTER_EOF_LO"
  by (induction cs arbitrary: c) auto

lemma chain_unique: "chain e c cs \<Longrightarrow> chain e c ds \<Longrightarrow> cs = ds"
proof (induction cs arbitrary: c ds)
  case Nil
  then show ?case by (cases ds) auto
next
  case (Cons x xs)
  then show ?case by (cases ds) auto
qed

lemma chain_drop: "chain e c cs \<Longrightarrow> i < length cs \<Longrightarrow> chain e (cs ! i) (drop i cs)"
proof (induction cs arbitrary: c i)
  case (Cons x xs)
  then show ?case by (cases i) auto
qed simp

lemma chain_distinct:
  assumes "chain e c cs"
  shows "distinct cs"
  unfolding distinct_conv_nth
proof (intro allI impI notI)
  fix i j assume ij: "i < length cs" "j < length cs" "i \<noteq> j" and "cs ! i = cs ! j"
  then have "drop i cs = drop j cs" using chain_drop [OF assms] chain_unique by metis
  then have "length cs - i = length cs - j" by (metis length_drop)
  then show False using ij by simp
qed

lemma chain_step: "chain e c cs \<Longrightarrow> Suc i < length cs \<Longrightarrow> e (cs ! i) = cs ! Suc i"
proof (induction cs arbitrary: c i)
  case (Cons x xs)
  then show ?case by (cases i; cases xs) auto
qed simp

lemma chain_last: "chain e c cs \<Longrightarrow> cs \<noteq> [] \<Longrightarrow> FAT16_CLUSTER_EOF_LO \<le> e (last cs)"
proof (induction cs arbitrary: c)
  case (Cons x xs)
  then show ?case by (cases xs) auto
qed simp

lemma chain_hd: "chain e c cs \<Longrightarrow> cs \<noteq> [] \<Longrightarrow> c = cs ! 0"
  by (cases cs) auto

lemma chain_cong: "(\<And>x. x \<in> set cs \<Longrightarrow> e x = e' x) \<Longrightarrow> chain e c cs \<longleftrightarrow> chain e' c cs"
  by (induction cs arbitrary: c) auto

lemma chain_entry_used: "chain e c cs \<Longrightarrow> x \<in> set cs \<Longrightarrow> e x \<noteq> 0"
proof (induction cs arbitrary: c)
  case (Cons y ys)
  then show ?case by (cases ys) (auto simp: FAT16_CLUSTER_EOF_LO_def word_le_nat_alt)
qed simp

text \<open>Linking a new last cluster.\<close>

lemma chain_snoc:
  assumes "chain e c cs" "cs \<noteq> []" "2 \<le> n" "n < FAT16_CLUSTER_EOF_LO"
    "\<And>x. x \<in> set cs \<Longrightarrow> x \<noteq> last cs \<Longrightarrow> e' x = e x" "e' (last cs) = n" "FAT16_CLUSTER_EOF_LO \<le> e' n"
  shows "chain e' c (cs @ [n])"
proof -
  have "distinct cs" using assms(1) by (rule chain_distinct)
  then show ?thesis using assms
  proof (induction cs arbitrary: c)
    case (Cons x xs)
    show ?case
    proof (cases "xs = []")
      case True
      then show ?thesis using Cons.prems by simp
    next
      case False
      then have "x \<noteq> last xs" using Cons.prems(1) last_in_set [of xs] by auto
      then have "e' x = e x" using Cons.prems(6) [of x] False by simp
      moreover have "chain e' (e x) (xs @ [n])" using Cons.prems False by (intro Cons.IH) auto
      ultimately show ?thesis using Cons.prems by simp
    qed
  qed simp
qed

text \<open>
  What the allocation routines rely on: setting a valid entry changes that entry and no other. \<open>ok\<close> is the
  invariant of the state, \<open>valid\<close> says which clusters have an entry.
\<close>

locale fat_table =
  fixes entry :: "u16 \<Rightarrow> 's \<Rightarrow> u16" and set_entry :: "u16 \<Rightarrow> u16 \<Rightarrow> 's \<Rightarrow> 's"
    and ok :: "'s \<Rightarrow> bool" and valid :: "'s \<Rightarrow> u16 \<Rightarrow> bool"
  assumes ok_set: "ok s \<Longrightarrow> ok (set_entry c v s)"
    and valid_set: "valid (set_entry c v s) d \<longleftrightarrow> valid s d"
    and entry_set: "ok s \<Longrightarrow> valid s c \<Longrightarrow> valid s d \<Longrightarrow>
      entry d (set_entry c v s) = (if d = c then v else entry d s)"
begin

lemma chain_set_other:
  assumes "ok s" "valid s x" "\<forall>y \<in> set cs. valid s y" "x \<notin> set cs"
  shows "chain (\<lambda>y. entry y (set_entry x v s)) c cs \<longleftrightarrow> chain (\<lambda>y. entry y s) c cs"
  by (rule chain_cong) (use assms in \<open>auto simp: entry_set\<close>)

text \<open>An allocated cluster \<open>n\<close> is marked as an end of chain, then linked behind the last cluster.\<close>

lemma chain_extend:
  assumes "ok s" "chain (\<lambda>y. entry y s) c cs" "cs \<noteq> []" "\<forall>y \<in> set cs. valid s y"
    "valid s n" "entry n s = 0" "2 \<le> n" "n < FAT16_CLUSTER_EOF_LO"
  shows "chain (\<lambda>y. entry y (set_entry (last cs) n (set_entry n 0xFFFF s))) c (cs @ [n])"
proof -
  have n: "n \<notin> set cs" using chain_entry_used [OF assms(2)] assms(6) by auto
  have l: "valid s (last cs)" "last cs \<noteq> n" using assms(3,4) n by auto
  show ?thesis
    by (rule chain_snoc [OF assms(2,3,7,8)])
      (use assms n l in \<open>auto simp: entry_set valid_set ok_set FAT16_CLUSTER_EOF_LO_def\<close>)
qed

text \<open>Clearing the entries of a chain from its head on.\<close>

fun clear :: "u16 list \<Rightarrow> 's \<Rightarrow> 's" where
  "clear [] s = s"
| "clear (x # xs) s = clear xs (set_entry x 0 s)"

lemma clear_entry:
  "ok s \<Longrightarrow> \<forall>y \<in> set cs. valid s y \<Longrightarrow> valid s d \<Longrightarrow>
    entry d (clear cs s) = (if d \<in> set cs then 0 else entry d s)"
proof (induction cs arbitrary: s)
  case (Cons x xs)
  then show ?case by (auto simp: ok_set valid_set entry_set)
qed simp

lemma clear_ok: "ok s \<Longrightarrow> ok (clear cs s)"
  by (induction cs arbitrary: s) (auto simp: ok_set)

end

interpretation ft: fat_table fat_entry fat_set_entry layout in_table
  by unfold_locales (simp_all add: set_entry_layout fat_entry_set)

section \<open>Releasing a chain\<close>

lemma free_chain_clear:
  assumes "layout st" "chain (\<lambda>y. fat_entry y st) c cs" "\<forall>y \<in> set cs. in_table st y"
  shows "fat_free_chain c st = Some (ft.clear cs st)"
  using assms
proof (induction cs arbitrary: c st)
  case Nil
  then show ?case by (simp add: fat_free_chain.simps [of c] not_less [symmetric])
next
  case (Cons x xs)
  have "distinct (x # xs)" using Cons.prems(2) by (rule chain_distinct)
  then have "chain (\<lambda>y. fat_entry y (fat_set_entry x 0 st)) (fat_entry x st) xs"
    using Cons.prems by (subst ft.chain_set_other) auto
  then have "fat_free_chain (fat_entry x st) (fat_set_entry x 0 st) = Some (ft.clear xs (fat_set_entry x 0 st))"
    using Cons.prems by (intro Cons.IH) (simp_all add: set_entry_layout)
  then show ?case using Cons.prems by (simp add: fat_free_chain.simps [of x])
qed

text \<open>
  On any table the loop ends: every round but the last clears an entry that was not zero.
\<close>

definition used_entries :: "fat \<Rightarrow> u16 set" where
  "used_entries st = {c. in_table st c \<and> fat_entry c st \<noteq> 0}"

lemma free_chain_ends:
  assumes "layout st" "in_table st c \<or> c < 2 \<or> FAT16_CLUSTER_EOF_LO \<le> c"
    "\<And>d. in_table st d \<Longrightarrow> in_table st (fat_entry d st) \<or> FAT16_CLUSTER_EOF_LO \<le> fat_entry d st"
  shows "\<exists>st'. fat_free_chain c st = Some st'"
  using assms
proof (induction "card (used_entries st)" arbitrary: c st rule: less_induct)
  case less
  show ?case
  proof (cases "2 \<le> c \<and> c < FAT16_CLUSTER_EOF_LO")
    case False
    then show ?thesis by (subst fat_free_chain.simps) auto
  next
    case True
    then have c: "in_table st c" using less.prems(2) by auto
    define st' where "st' = fat_set_entry c 0 st"
    have e: "fat_entry d st' = (if d = c then 0 else fat_entry d st)" if "in_table st d" for d
      using less.prems(1) c that by (simp add: st'_def fat_entry_set)
    have l: "layout st'" using less.prems(1) by (simp add: st'_def set_entry_layout)
    have it: "in_table st' d = in_table st d" for d by (simp add: st'_def)
    have z: "in_table st 0" using less.prems(1) by (simp add: in_table_def layout_def)
    show ?thesis
    proof (cases "fat_entry c st = 0")
      case True
      then show ?thesis using \<open>2 \<le> c \<and> _\<close> by (simp add: fat_free_chain.simps [of c] fat_free_chain.simps [of 0])
    next
      case False
      have "used_entries st' = used_entries st - {c}" using e by (auto simp: used_entries_def it split: if_splits)
      moreover have "c \<in> used_entries st" using c False by (simp add: used_entries_def)
      ultimately have "card (used_entries st') < card (used_entries st)"
        by (metis card_Diff1_less finite_code)
      moreover have "in_table st' (fat_entry c st) \<or> fat_entry c st < 2 \<or> FAT16_CLUSTER_EOF_LO \<le> fat_entry c st"
        using less.prems(3) [OF c] it by blast
      moreover have "in_table st' (fat_entry d st') \<or> FAT16_CLUSTER_EOF_LO \<le> fat_entry d st'" if "in_table st' d" for d
        using that less.prems(3) [of d] e [of d] it z by auto
      ultimately obtain s where "fat_free_chain (fat_entry c st) st' = Some s"
        using less.hyps [of st' "fat_entry c st"] l by blast
      then show ?thesis using True by (simp add: fat_free_chain.simps [of c] st'_def)
    qed
  qed
qed


section \<open>Finding a free cluster\<close>

definition free_at :: "fat \<Rightarrow> nat \<Rightarrow> bool" where
  "free_at st k \<longleftrightarrow> 2 \<le> k \<and> fat_entry (of_nat k) st = 0"

lemma unat_of_nat_u16: "k < 65536 \<Longrightarrow> unat (of_nat k :: u16) = k"
  by (simp add: unat_of_nat take_bit_eq_mod)

lemma unat_of_nat_u32: "k < 4294967296 \<Longrightarrow> unat (of_nat k :: u32) = k"
  by (simp add: unat_of_nat take_bit_eq_mod)

lemma sector_entry:
  assumes "layout st" "256 * s + i < 65536" "i < 256"
  shows "le16 (read_sector (fat_lba st + of_nat s) st) (2 * i) = fat_entry (of_nat (256 * s + i)) st"
proof -
  define c :: u16 where "c = of_nat (256 * s + i)"
  have c: "unat c = 256 * s + i" unfolding c_def using assms(2) by (rule unat_of_nat_u16)
  have d: "unat c div 256 = s" "fat_within c = 2 * i" using assms(3) by (simp_all add: c fat_within_def)
  have l: "unat (fat_lba st) \<le> 65535" by (rule layout_bounds [OF assms(1)])
  have s: "unat (of_nat s :: u32) = s" using assms(2) by (intro unat_of_nat_u32) simp
  have "unat (fat_lba st + of_nat s) = unat (fat_lba st) + s"
    using l s assms(2) by (subst unat_add_u32) simp_all
  then have "fat_sector c st = fat_lba st + of_nat s" using d unat_fat_sector(1) [OF assms(1), of c] by (simp add: u32_eq_iff)
  then show ?thesis
    using fat_entry_alt [OF assms(1), of c] lba28_id [OF unat_fat_sector(2) [OF assms(1), of c]] d
    by (simp add: read_sector_def c_def)
qed

lemma find_append: "find P (xs @ ys) = (case find P xs of None \<Rightarrow> find P ys | Some x \<Rightarrow> Some x)"
  by (induction xs) auto

lemma free_entry_find:
  assumes "layout st" "256 * s + 255 < 65536"
  shows "set is \<subseteq> {..<256} \<Longrightarrow> free_entry (read_sector (fat_lba st + of_nat s) st) (of_nat s) is =
    map_option of_nat (find (free_at st) (map (\<lambda>i. 256 * s + i) is))"
proof (induction "is")
  case (Cons i "is")
  have i: "256 * s + i < 65536" "i < 256" using assms(2) Cons.prems by auto
  have n: "of_nat s * 256 + of_nat i = (of_nat (256 * s + i) :: u32)" by simp
  have "(of_nat (256 * s + i) :: u32) < 2 \<longleftrightarrow> 256 * s + i < 2"
    using i unat_of_nat_u32 [of "256 * s + i"] by (simp add: word_less_nat_alt)
  then show ?case using Cons sector_entry [OF assms(1) i]
    unfolding free_entry.simps Let_def n by (auto simp: free_at_def simp del: of_nat_add of_nat_mult)
qed simp

lemma alloc_scan_find:
  assumes "layout st"
  shows "256 * (s + n) \<le> 65536 \<Longrightarrow>
    alloc_scan (of_nat s) n st = map_option of_nat (find (free_at st) [256 * s..<256 * (s + n)])"
proof (induction n arbitrary: s)
  case (Suc n)
  have u: "[256 * s..<256 * (s + Suc n)] = map (\<lambda>i. 256 * s + i) [0..<256] @ [256 * Suc s..<256 * (Suc s + n)]"
  proof -
    have "map (\<lambda>i. 256 * s + i) [0..<256] = [256 * s..<256 * s + 256]"
      using map_add_upt [of "256 * s" 256] by (simp add: add.commute)
    moreover have "[256 * s..<256 * (s + Suc n)] = [256 * s..<256 * s + 256] @ [256 * s + 256..<256 * (s + Suc n)]"
      using upt_add_eq_append [of "256 * s" "256 * s + 256" "256 * n"] by (simp add: algebra_simps)
    ultimately show ?thesis by (simp add: algebra_simps)
  qed
  have f: "free_entry (read_sector (fat_lba st + of_nat s) st) (of_nat s) [0..<256] =
      map_option of_nat (find (free_at st) (map (\<lambda>i. 256 * s + i) [0..<256]))"
    using Suc.prems by (intro free_entry_find [OF assms]) auto
  have r: "alloc_scan (of_nat s + 1) n st = map_option of_nat (find (free_at st) [256 * Suc s..<256 * (Suc s + n)])"
    using Suc.IH [of "Suc s"] Suc.prems by (simp add: add.commute)
  show ?case unfolding alloc_scan.simps f r u find_append
    by (simp split: option.splits)
qed simp

lemma alloc_cluster_find:
  assumes "layout st" "unat (fat_size_16 (bpb st)) \<le> 256"
  shows "fat_alloc_cluster st = (case find (free_at st) [0..<256 * unat (fat_size_16 (bpb st))] of
      None \<Rightarrow> (0, st) | Some k \<Rightarrow> (of_nat k, fat_set_entry (of_nat k) 0xFFFF st))"
proof -
  have "alloc_scan 0 (unat (fat_size_16 (bpb st))) st =
      map_option of_nat (find (free_at st) [0..<256 * unat (fat_size_16 (bpb st))])"
    using alloc_scan_find [OF assms(1), of 0 "unat (fat_size_16 (bpb st))"] assms(2) by simp
  moreover have "ucast (of_nat k :: u32) = (of_nat k :: u16)" for k
    by (rule bit_word_eqI) (simp add: bit_simps)
  ultimately show ?thesis by (simp add: fat_alloc_cluster_def split: option.splits)
qed

text \<open>What a caller gets from \<open>fat_alloc_cluster\<close>.\<close>

lemma alloc_cluster_cases:
  assumes "layout st" "unat (fat_size_16 (bpb st)) \<le> 256"
  obtains (full) "fat_alloc_cluster st = (0, st)"
      "\<And>c. in_table st c \<Longrightarrow> 2 \<le> c \<Longrightarrow> fat_entry c st \<noteq> 0"
  | (found) c where "fat_alloc_cluster st = (c, fat_set_entry c 0xFFFF st)" "in_table st c" "2 \<le> c"
      "fat_entry c st = 0" "\<And>d. 2 \<le> d \<Longrightarrow> d < c \<Longrightarrow> fat_entry d st \<noteq> 0"
proof (cases "find (free_at st) [0..<256 * unat (fat_size_16 (bpb st))]")
  case None
  show ?thesis
  proof (rule full)
    show "fat_alloc_cluster st = (0, st)" using alloc_cluster_find [OF assms] None by simp
    show "fat_entry c st \<noteq> 0" if "in_table st c" "2 \<le> c" for c
      using None that by (auto simp: find_None_iff free_at_def in_table_def word_le_nat_alt dest: bspec [of _ _ "unat c"])
  qed
next
  case (Some k)
  then obtain i where i: "i < 256 * unat (fat_size_16 (bpb st))" "k = i" "free_at st k" "\<forall>j < i. \<not> free_at st j"
    by (auto simp: find_Some_iff)
  have k: "unat (of_nat k :: u16) = k" using i(1,2) assms(2) by (intro unat_of_nat_u16) simp
  show ?thesis
  proof (rule found [of "of_nat k"])
    show "fat_alloc_cluster st = (of_nat k, fat_set_entry (of_nat k) 0xFFFF st)"
      using alloc_cluster_find [OF assms] Some by simp
    show "in_table st (of_nat k)" using i k by (simp add: in_table_def)
    show "2 \<le> (of_nat k :: u16)" using i(3) k by (simp add: word_le_nat_alt free_at_def)
    show "fat_entry (of_nat k) st = 0" using i(3) by (simp add: free_at_def)
    show "fat_entry d st \<noteq> 0" if "2 \<le> d" "d < of_nat k" for d
      using that i(2,4) k by (auto simp: word_le_nat_alt word_less_nat_alt free_at_def dest: spec [of _ "unat d"])
  qed
qed


section \<open>The sectors of a cluster\<close>

abbreviation spc :: "fat \<Rightarrow> nat" where
  "spc st \<equiv> unat (sectors_per_cluster (bpb st))"

lemma unat_cluster_lba:
  assumes "layout st" "2 \<le> c"
  shows "unat (cluster_lba c st) = unat (data_lba st) + (unat c - 2) * spc st"
    "unat (cluster_lba c st) + spc st < 2 ^ 28"
proof -
  have c: "2 \<le> unat c" using assms(2) by (simp add: word_le_nat_alt)
  have u: "unat (ucast c - 2 :: u32) = unat c - 2" using c by (simp add: unat_sub_if' word_le_nat_alt)
  have "unat c - 2 \<le> 65533" using unat_u16_le [of c] by linarith
  then have k: "(unat c - 2) * spc st \<le> 65533 * 255" by (intro mult_le_mono) simp_all
  have m: "unat ((ucast c - 2) * ucast (sectors_per_cluster (bpb st)) :: u32) = (unat c - 2) * spc st"
    using k u by (subst unat_mult_u32) simp_all
  have d: "unat (data_lba st) \<le> 256 * 65535 + 4096" by (rule layout_bounds [OF assms(1)])
  show 1: "unat (cluster_lba c st) = unat (data_lba st) + (unat c - 2) * spc st"
    unfolding cluster_lba_def using m k d by (subst unat_add_u32) simp_all
  have "spc st \<le> 255" "(2 :: nat) ^ 28 = 268435456" by simp_all
  then show "unat (cluster_lba c st) + spc st < 2 ^ 28" unfolding 1 using k d by linarith
qed

text \<open>The sectors of different clusters are different, and none is below the data area.\<close>

lemma cluster_sector:
  assumes "layout st" "2 \<le> c" "i < spc st"
  shows "unat (cluster_lba c st + of_nat i) = unat (data_lba st) + (unat c - 2) * spc st + i"
    "lba28 (cluster_lba c st + of_nat i) = cluster_lba c st + of_nat i"
proof -
  have "i < 4294967296" using assms(3) unat_u8_le [of "sectors_per_cluster (bpb st)"] by linarith
  then have "unat (of_nat i :: u32) = i" by (rule unat_of_nat_u32)
  moreover have "unat (cluster_lba c st) + i < 4294967296"
    using unat_cluster_lba(2) [OF assms(1,2)] assms(3) by simp
  ultimately show "unat (cluster_lba c st + of_nat i) = unat (data_lba st) + (unat c - 2) * spc st + i"
    using unat_cluster_lba(1) [OF assms(1,2)] by (subst unat_add_u32) simp_all
  then show "lba28 (cluster_lba c st + of_nat i) = cluster_lba c st + of_nat i"
    using unat_cluster_lba [OF assms(1,2)] assms(3) by (intro lba28_id) simp
qed

lemma cluster_sector_inj:
  assumes "layout st" "2 \<le> c" "i < spc st" "2 \<le> d" "j < spc st"
  shows "cluster_lba c st + of_nat i = cluster_lba d st + of_nat j \<longleftrightarrow> c = d \<and> i = j"
proof
  assume "cluster_lba c st + of_nat i = cluster_lba d st + of_nat j"
  then have e: "(unat c - 2) * spc st + i = (unat d - 2) * spc st + j"
    using cluster_sector(1) [OF assms(1,2,3)] cluster_sector(1) [OF assms(1,4,5)] by simp
  then have "((unat c - 2) * spc st + i) div spc st = ((unat d - 2) * spc st + j) div spc st" by simp
  then have "unat c - 2 = unat d - 2" using assms(3,5) by simp
  moreover have "2 \<le> unat c" "2 \<le> unat d" using assms by (simp_all add: word_le_nat_alt)
  ultimately have "unat c = unat d" by simp
  then show "c = d \<and> i = j" using e by (simp add: word_unat_eq_iff)
qed simp

lemma read_sectors_spec:
  "read_sectors lba i n st buf k = (if i * 512 \<le> k \<and> k < (i + n) * 512
     then read_sector (lba + of_nat (k div 512)) st (k mod 512) else buf k)"
proof (induction n arbitrary: i buf)
  case (Suc n)
  consider "k < i * 512" | "i * 512 \<le> k" "k < i * 512 + 512" | "i * 512 + 512 \<le> k" by linarith
  then show ?case
  proof cases
    case 2
    then have "k div 512 = i" by (intro div_nat_eqI) auto
    moreover from this have "k - i * 512 = k mod 512" by (simp add: modulo_nat_def mult.commute)
    ultimately show ?thesis using 2 Suc by simp
  qed (simp_all add: Suc)
qed auto

lemma read_cluster_spec: "read_cluster c st buf k =
    (if k < 512 * spc st then read_sector (cluster_lba c st + of_nat (k div 512)) st (k mod 512) else buf k)"
  by (simp add: read_cluster_def read_sectors_spec mult.commute)

lemma write_sectors_frame [frame_simps]:
  "bpb (write_sectors lba i n buf st) = bpb st" "fat_lba (write_sectors lba i n buf st) = fat_lba st"
  "root_dir_lba (write_sectors lba i n buf st) = root_dir_lba st"
  "root_dir_sectors (write_sectors lba i n buf st) = root_dir_sectors st"
  "data_lba (write_sectors lba i n buf st) = data_lba st" "mounted (write_sectors lba i n buf st) = mounted st"
  by (induction n arbitrary: i st) (simp_all add: write_sector_def)

lemma write_sectors_drive:
  "unat lba + (i + n) \<le> 2 ^ 28 \<Longrightarrow> drive (write_sectors lba i n buf st) a =
    (if unat lba + i \<le> unat a \<and> unat a < unat lba + (i + n)
     then (\<lambda>k. buf ((unat a - unat lba) * 512 + k)) else drive st a)"
proof (induction n arbitrary: i st)
  case (Suc n)
  have i: "unat (of_nat i :: u32) = i" using Suc.prems by (intro unat_of_nat_u32) simp
  have u: "unat (lba + of_nat i) = unat lba + i"
    using Suc.prems i by (subst unat_add_u32) simp_all
  then have l: "lba28 (lba + of_nat i) = lba + of_nat i" using Suc.prems by (intro lba28_id) simp
  define st1 where "st1 = write_sector (lba + of_nat i) (\<lambda>k. buf (i * 512 + k)) st"
  have "drive (write_sectors lba i (Suc n) buf st) a = drive (write_sectors lba (i + 1) n buf st1) a"
    by (simp add: st1_def)
  also have "\<dots> = (if unat lba + (i + 1) \<le> unat a \<and> unat a < unat lba + (i + 1 + n)
     then (\<lambda>k. buf ((unat a - unat lba) * 512 + k)) else drive st1 a)"
    using Suc.prems by (intro Suc.IH) simp
  also have "\<dots> = (if unat lba + i \<le> unat a \<and> unat a < unat lba + (i + Suc n)
     then (\<lambda>k. buf ((unat a - unat lba) * 512 + k)) else drive st a)"
  proof (cases "unat a = unat lba + i")
    case True
    then have "a = lba + of_nat i" using u by (simp add: u32_eq_iff)
    then show ?thesis using True u by (simp add: st1_def write_sector_def l)
  next
    case False
    then have "a \<noteq> lba + of_nat i" using u by auto
    then have "drive st1 a = drive st a" by (simp add: st1_def write_sector_def l)
    then show ?thesis using False by auto
  qed
  finally show ?case .
qed auto

lemma write_sectors_layout [inv_intros]: "layout st \<Longrightarrow> layout (write_sectors lba i n buf st)"
  by (simp add: layout_def frame_simps)

end
