(* ===== verification/Klibc_String.thy ===== *)
theory Klibc_String
  imports Yotos_Base
begin

text \<open>
  The string routines of \<^verbatim>\<open>klibc/string.c\<close>. A \<open>const char *\<close> argument is a byte list followed by its
  terminator (\<open>cget\<close>), an output buffer is the list of its bytes, and the loops are recursions on
  the running index. Each routine is proved equal to its mathematical reading on
  \<open>cstr\<close>, the string a buffer holds; \<open>memset\<close> is in the base theory with the memory it writes.
\<close>

section \<open>The routines\<close>

function strlen_from :: "bytes \<Rightarrow> nat \<Rightarrow> nat" where
  "strlen_from s len = (if cget s len \<noteq> 0 then strlen_from s (len + 1) else len)"
  by pat_completeness auto
termination
  by (relation "measure (\<lambda>(s, len). length s - len)") (auto dest: cget_nonzero_lt)

definition strlen :: "bytes \<Rightarrow> nat" where
  "strlen s = strlen_from s 0"

text \<open>\<open>strcmp\<close> and \<open>strcasecmp\<close> return an \<open>int\<close>; \<open>i\<close> counts the increments of both pointers.\<close>

function strcmp_from :: "bytes \<Rightarrow> bytes \<Rightarrow> nat \<Rightarrow> int" where
  "strcmp_from s1 s2 i =
     (if cget s1 i \<noteq> 0 \<and> cget s1 i = cget s2 i then strcmp_from s1 s2 (i + 1)
      else schar (cget s1 i) - schar (cget s2 i))"
  by pat_completeness auto
termination
  by (relation "measure (\<lambda>(s1, s2, i). length s1 - i)") (auto dest: cget_nonzero_lt)

definition strcmp :: "bytes \<Rightarrow> bytes \<Rightarrow> int" where
  "strcmp s1 s2 = strcmp_from s1 s2 0"

text \<open>The copying loop of \<open>strlcpy\<close>, then the loop that runs to the end of the source.\<close>

function strlcpy_copy :: "bytes \<Rightarrow> bytes \<Rightarrow> nat \<Rightarrow> nat \<Rightarrow> bytes \<times> nat" where
  "strlcpy_copy dst src sz i =
     (if i < sz - 1 \<and> cget src i \<noteq> 0 then strlcpy_copy (dst[i := cget src i]) src sz (i + 1)
      else (dst, i))"
  by pat_completeness auto
termination
  by (relation "measure (\<lambda>(dst, src, sz, i). sz - i)") auto

definition strlcpy :: "bytes \<Rightarrow> bytes \<Rightarrow> nat \<Rightarrow> bytes \<times> nat" where
  "strlcpy dst src sz =
     (let (dst1, i) = (if sz > 0
                       then (let (d, i) = strlcpy_copy dst src sz 0 in (d[i := 0], i))
                       else (dst, 0))
      in (dst1, strlen_from src i))"

text \<open>\<open>char ca = (*a >= 'a' && *a <= 'z') ? *a - 32 : *a;\<close>\<close>

definition fold_case :: "u8 \<Rightarrow> u8" where
  "fold_case c = (if schar c \<ge> 97 \<and> schar c \<le> 122 then c - 32 else c)"

function strcasecmp_from :: "bytes \<Rightarrow> bytes \<Rightarrow> nat \<Rightarrow> int" where
  "strcasecmp_from a b i =
     (if cget a i \<noteq> 0 \<and> cget b i \<noteq> 0 then
        (let ca = fold_case (cget a i); cb = fold_case (cget b i) in
         if ca \<noteq> cb then uint ca - uint cb else strcasecmp_from a b (i + 1))
      else uint (cget a i) - uint (cget b i))"
  by pat_completeness auto
termination
  by (relation "measure (\<lambda>(a, b, i). length a - i)") (auto dest: cget_nonzero_lt)

definition strcasecmp :: "bytes \<Rightarrow> bytes \<Rightarrow> int" where
  "strcasecmp a b = strcasecmp_from a b 0"

declare strlen_from.simps [simp del] strcmp_from.simps [simp del]
  strlcpy_copy.simps [simp del] strcasecmp_from.simps [simp del]

section \<open>\<open>strlen\<close>\<close>

lemma strlen_from_cstr: "i \<le> length (cstr s) \<Longrightarrow> strlen_from s i = length (cstr s)"
proof (induction s i rule: strlen_from.induct)
  case (1 s i)
  show ?case
  proof (cases "i < length (cstr s)")
    case True
    with 1 show ?thesis by (subst strlen_from.simps) (simp add: cget_cstr_nonzero)
  next
    case False
    with 1 have "i = length (cstr s)" by simp
    then show ?thesis by (subst strlen_from.simps) (simp add: cget_cstr_end)
  qed
qed

lemma strlen_cstr: "strlen s = length (cstr s)"
  by (simp add: strlen_def strlen_from_cstr)

section \<open>\<open>strcmp\<close>\<close>

lemma schar_eq_iff: "schar a = schar b \<longleftrightarrow> a = b"
  by (metis schar_def signed_word_eqI)

lemma schar_0 [simp]: "schar 0 = 0"
  by (simp add: schar_def)

lemma schar_eq_0_iff [simp]: "schar c = 0 \<longleftrightarrow> c = 0"
  using schar_eq_iff [of c 0] by simp

lemma schar_alt: "schar c = (if uint c < 128 then uint c else uint c - 256)"
proof -
  have s: "schar c = (uint c + 128) mod 256 - 128"
    using int_word_sint [of "uint c", where 'a = 8] by (simp add: schar_def)
  have b: "0 \<le> uint c" "uint c < 256" using uint_lt2p [of c] by simp_all
  show ?thesis
  proof (cases "uint c < 128")
    case True
    then have "(uint c + 128) mod 256 = uint c + 128" using b by (intro mod_pos_pos_trivial) auto
    then show ?thesis using s True by simp
  next
    case False
    have "(uint c + 128) mod 256 = (uint c - 128 + 256) mod 256" by (simp add: algebra_simps)
    also have "\<dots> = (uint c - 128) mod 256" by (rule mod_add_self2)
    also have "\<dots> = uint c - 128" using b False by (intro mod_pos_pos_trivial) auto
    finally show ?thesis using s False by simp
  qed
qed

lemma schar_lower: "97 \<le> schar c \<and> schar c \<le> 122 \<longleftrightarrow> 0x61 \<le> c \<and> c \<le> 0x7A"
proof -
  have "0x61 \<le> c \<longleftrightarrow> 97 \<le> uint c" "c \<le> 0x7A \<longleftrightarrow> uint c \<le> 122" by (simp_all add: word_le_def)
  moreover have "uint c < 256" using uint_lt2p [of c] by simp
  ultimately show ?thesis unfolding schar_alt by simp
qed

lemma strcmp_from_Suc: "strcmp_from (a # s) (b # t) (Suc i) = strcmp_from s t i"
proof (induction s t i rule: strcmp_from.induct)
  case (1 s t i)
  show ?case
    using "1.IH"
    by (simp add: strcmp_from.simps [of "a # s" "b # t" "Suc i"] strcmp_from.simps [of s t i])
qed

lemma strcmp_Cons:
  "strcmp (a # s) (b # t) = (if a \<noteq> 0 \<and> a = b then strcmp s t else schar a - schar b)"
  by (simp add: strcmp_def strcmp_from.simps [of "a # s" "b # t" 0] strcmp_from_Suc)

lemma strcmp_Nil: "strcmp [] t = - schar (cget t 0)"
  by (simp add: strcmp_def strcmp_from.simps [of "[]" t 0])

lemma strcmp_Nil2: "strcmp s [] = schar (cget s 0)"
  by (auto simp add: strcmp_def strcmp_from.simps [of s "[]" 0])

lemmas strcmp_list = strcmp_Cons strcmp_Nil strcmp_Nil2

lemma strcmp_eq_0_iff: "strcmp s t = 0 \<longleftrightarrow> cstr s = cstr t"
proof (induction s arbitrary: t)
  case Nil
  show ?case by (cases t) (simp_all add: strcmp_list cstr_Cons)
next
  case (Cons a s)
  show ?case
    by (cases t) (auto simp add: strcmp_list cstr_Cons Cons.IH schar_eq_iff)
qed

lemma strcmp_antisym: "strcmp t s = - strcmp s t"
proof (induction s arbitrary: t)
  case Nil
  show ?case by (simp add: strcmp_list)
next
  case (Cons a s)
  show ?case by (cases t) (auto simp add: strcmp_list Cons.IH)
qed

section \<open>\<open>strlcpy\<close>\<close>

lemma strlcpy_copy_spec:
  assumes "0 < sz" "sz \<le> length dst" "i \<le> min (sz - 1) (length (cstr src))"
    "take i dst = take i (cstr src)"
  shows "strlcpy_copy dst src sz i =
    (take (min (sz - 1) (length (cstr src))) (cstr src)
      @ drop (min (sz - 1) (length (cstr src))) dst, min (sz - 1) (length (cstr src)))"
  using assms
proof (induction dst src sz i rule: strlcpy_copy.induct)
  case (1 dst src sz i)
  let ?n = "min (sz - 1) (length (cstr src))"
  show ?case
  proof (cases "i < ?n")
    case True
    then have c: "cget src i = cstr src ! i" "cget src i \<noteq> 0"
      using cget_cstr [of i src] cget_cstr_nonzero [of i src] by auto
    have "strlcpy_copy dst src sz i = strlcpy_copy (dst[i := cget src i]) src sz (i + 1)"
      using True c by (subst strlcpy_copy.simps) simp
    also have "\<dots> = (take ?n (cstr src) @ drop ?n (dst[i := cget src i]), ?n)"
    proof (rule "1.IH")
      have "i < length dst" using "1.prems" True by linarith
      then show "take (i + 1) (dst[i := cget src i]) = take (i + 1) (cstr src)"
        using "1.prems" True c by (simp add: take_Suc_conv_app_nth)
    qed (use True c "1.prems" in simp_all)
    also have "drop ?n (dst[i := cget src i]) = drop ?n dst" using True by simp
    finally show ?thesis .
  next
    case False
    with "1.prems" have i: "i = ?n" by linarith
    then have stop: "\<not> (i < sz - 1 \<and> cget src i \<noteq> 0)"
      using cget_cstr_end [of src] by (auto simp: min_def split: if_splits)
    have "strlcpy_copy dst src sz i = (dst, i)"
      using stop by (subst strlcpy_copy.simps) (rule if_not_P)
    moreover have "dst = take i (cstr src) @ drop i dst"
      using "1.prems" by (metis append_take_drop_id)
    ultimately show ?thesis using i by simp
  qed
qed

text \<open>
  The result of a copy into a buffer of \<open>sz\<close> bytes: the source cut to \<open>sz - 1\<close> bytes, its NUL,
  and the rest of the buffer untouched. The value is the length of the source string.
\<close>

lemma strlcpy_spec:
  assumes "0 < sz" "sz \<le> length dst"
  shows "strlcpy dst src sz =
    (let n = min (sz - 1) (length (cstr src))
     in (take n (cstr src) @ 0 # drop (Suc n) dst, length (cstr src)))"
proof -
  let ?n = "min (sz - 1) (length (cstr src))"
  have n: "?n < length dst" using assms by auto
  have "strlcpy_copy dst src sz 0 = (take ?n (cstr src) @ drop ?n dst, ?n)"
    using assms by (intro strlcpy_copy_spec) simp_all
  moreover have "(take ?n (cstr src) @ drop ?n dst)[?n := 0]
      = take ?n (cstr src) @ 0 # drop (Suc ?n) dst"
    using n by (simp add: list_update_append Cons_nth_drop_Suc [symmetric])
  moreover have "strlen_from src ?n = length (cstr src)"
    by (rule strlen_from_cstr) simp
  ultimately show ?thesis
    using assms by (simp add: strlcpy_def Let_def)
qed

lemma strlcpy_length: "length (fst (strlcpy dst src sz)) = length dst"
  if "sz \<le> length dst"
proof (cases "sz = 0")
  case True
  then show ?thesis by (simp add: strlcpy_def)
next
  case False
  with that show ?thesis by (simp add: strlcpy_spec Let_def)
qed

lemma strlcpy_cstr:
  assumes "0 < sz" "sz \<le> length dst"
  shows "cstr (fst (strlcpy dst src sz)) = take (sz - 1) (cstr src)"
proof -
  let ?n = "min (sz - 1) (length (cstr src))"
  have "0 \<notin> set (take ?n (cstr src))" using cstr_no_zero [of src] by (meson in_set_takeD)
  then show ?thesis
    using assms by (simp add: strlcpy_spec Let_def cstr_append_zero min_def)
qed

section \<open>\<open>strcasecmp\<close>\<close>

lemma strcasecmp_from_Suc: "strcasecmp_from (a # s) (b # t) (Suc i) = strcasecmp_from s t i"
proof (induction s t i rule: strcasecmp_from.induct)
  case (1 s t i)
  show ?case
    using "1.IH"
    by (simp add: strcasecmp_from.simps [of "a # s" "b # t" "Suc i"]
        strcasecmp_from.simps [of s t i] Let_def)
qed

lemma strcasecmp_Cons:
  "strcasecmp (a # s) (b # t) =
    (if a \<noteq> 0 \<and> b \<noteq> 0 then
       (if fold_case a \<noteq> fold_case b then uint (fold_case a) - uint (fold_case b)
        else strcasecmp s t)
     else uint a - uint b)"
  by (simp add: strcasecmp_def strcasecmp_from.simps [of "a # s" "b # t" 0] strcasecmp_from_Suc
      Let_def)

lemma strcasecmp_Nil: "strcasecmp [] t = - uint (cget t 0)"
  by (simp add: strcasecmp_def strcasecmp_from.simps [of "[]" t 0])

lemma strcasecmp_Nil2: "strcasecmp s [] = uint (cget s 0)"
  by (simp add: strcasecmp_def strcasecmp_from.simps [of s "[]" 0])

lemmas strcasecmp_list = strcasecmp_Cons strcasecmp_Nil strcasecmp_Nil2

lemma fold_case_eq_0 [simp]: "fold_case c = 0 \<longleftrightarrow> c = 0"
proof
  assume "fold_case c = 0"
  then show "c = 0"
    by (auto simp: fold_case_def schar_def split: if_splits)
qed (simp add: fold_case_def)

lemma strcasecmp_eq_0_iff:
  "strcasecmp s t = 0 \<longleftrightarrow> map fold_case (cstr s) = map fold_case (cstr t)"
proof (induction s arbitrary: t)
  case Nil
  show ?case by (cases t) (auto simp add: strcasecmp_list cstr_Cons unsigned_eq_0_iff)
next
  case (Cons a s)
  show ?case
    by (cases t) (auto simp add: strcasecmp_list cstr_Cons Cons.IH unsigned_eq_0_iff
        dest: unsigned_word_eqI)
qed

end
