(* ===== verification/Fat16_Dir.thy ===== *)
theory Fat16_Dir
  imports Fat16_Disk Klibc_String
begin

text \<open>
  The directory layer of \<^verbatim>\<open>fs/fat16.c\<close>: 8.3 names, the 32-byte entries of a directory sector, the
  sectors of the root directory and of subdirectories, and the searches through them.
\<close>

section \<open>Directory entries\<close>

record fat16_direntry =
  de_name :: bytes
  de_ext :: bytes
  de_attributes :: u8
  de_first_cluster :: u16
  de_file_size :: u32

definition FAT16_ATTR_VOLUME_ID :: u8 where "FAT16_ATTR_VOLUME_ID = 0x08"
definition FAT16_ATTR_DIRECTORY :: u8 where "FAT16_ATTR_DIRECTORY = 0x10"
definition FAT16_ATTR_ARCHIVE :: u8 where "FAT16_ATTR_ARCHIVE = 0x20"
definition FAT16_ATTR_LFN :: u8 where "FAT16_ATTR_LFN = 0x0F"

text \<open>Entry \<open>i\<close> of the 16 in a sector, at its offsets in the packed struct.\<close>

definition direntry_at :: "sector \<Rightarrow> nat \<Rightarrow> fat16_direntry" where
  "direntry_at b i = \<lparr>de_name = map (\<lambda>k. b (32 * i + k)) [0..<8],
     de_ext = map (\<lambda>k. b (32 * i + 8 + k)) [0..<3], de_attributes = b (32 * i + 0x0B),
     de_first_cluster = le16 b (32 * i + 0x1A), de_file_size = le32 b (32 * i + 0x1C)\<rparr>"

text \<open>All 32 bytes of the entry are written; the reserved bytes and the times are 0.\<close>

definition put_direntry :: "nat \<Rightarrow> fat16_direntry \<Rightarrow> sector \<Rightarrow> sector" where
  "put_direntry i e b =
     set_le32 (32 * i + 0x1C) (de_file_size e) (set_le16 (32 * i + 0x1A) (de_first_cluster e)
       (\<lambda>k. if 32 * i \<le> k \<and> k < 32 * i + 8 then de_name e ! (k - 32 * i)
            else if 32 * i + 8 \<le> k \<and> k < 32 * i + 11 then de_ext e ! (k - (32 * i + 8))
            else if k = 32 * i + 0x0B then de_attributes e
            else if 32 * i + 0x0C \<le> k \<and> k < 32 * i + 0x1A then 0
            else b k))"

section \<open>8.3 names\<close>

text \<open>The length of the first \<open>n\<close> bytes of a field without the spaces at the end.\<close>

fun trimmed :: "bytes \<Rightarrow> nat \<Rightarrow> nat" where
  "trimmed f 0 = 0"
| "trimmed f (Suc n) = (if f ! n = 0x20 then trimmed f n else Suc n)"

definition format_83 :: "fat16_direntry \<Rightarrow> bytes" where
  "format_83 e =
     (let dst = take (trimmed (de_name e) 8) (de_name e)
      in if de_ext e ! 0 \<noteq> 0x20
         then dst @ 0x2E # take (trimmed (de_ext e) 3) (de_ext e)
         else dst)"

text \<open>The first dot among the first \<open>len\<close> characters.\<close>

fun find_dot :: "bytes \<Rightarrow> nat list \<Rightarrow> nat option" where
  "find_dot name [] = None"
| "find_dot name (i # is) = (if cget name i = 0x2E then Some i else find_dot name is)"

definition upper_83 :: "u8 \<Rightarrow> u8" where
  "upper_83 c = (if 0x61 \<le> c \<and> c \<le> 0x7A then c - 32 else c)"

definition format_name_83 :: "bytes \<Rightarrow> (bytes \<times> bytes) option" where
  "format_name_83 name =
     (let len = strlen_from name 0;
          dot = find_dot name [0..<len];
          name_len = (case dot of Some d \<Rightarrow> d | None \<Rightarrow> len);
          ext_len = (case dot of Some d \<Rightarrow> len - d - 1 | None \<Rightarrow> 0)
      in if name_len = 0 \<or> name_len > 8 then None
         else if ext_len > 3 then None
         else Some (map (\<lambda>i. if i < name_len then upper_83 (cget name i) else 0x20) [0..<8],
                    map (\<lambda>i. if i < ext_len then upper_83 (cget name (name_len + 1 + i)) else 0x20) [0..<3]))"

definition name_match :: "fat16_direntry \<Rightarrow> bytes \<Rightarrow> bool" where
  "name_match e name = (strcasecmp (format_83 e) name = 0)"

text \<open>1: skip, 2: end of the directory, 0: a valid entry.\<close>

definition skip_entry :: "fat16_direntry \<Rightarrow> nat" where
  "skip_entry e =
     (if de_name e ! 0 = 0 then 2
      else if de_name e ! 0 = 0xE5 then 1
      else if de_attributes e = FAT16_ATTR_LFN then 1
      else 0)"

section \<open>The sectors of a directory\<close>

text \<open>Following \<open>n\<close> links from \<open>cluster\<close>; \<open>None\<close> when the chain ends before.\<close>

fun skip_clusters :: "nat \<Rightarrow> u16 \<Rightarrow> fat \<Rightarrow> u16 option" where
  "skip_clusters 0 cluster st = Some cluster"
| "skip_clusters (Suc n) cluster st =
     (if cluster < 2 \<or> cluster \<ge> FAT16_CLUSTER_EOF_LO then None
      else skip_clusters n (fat_entry cluster st) st)"

text \<open>
  0 past the end of the directory. With 0 sectors per cluster the division traps: \<open>None\<close>.
\<close>

definition dir_sector_lba :: "u32 \<Rightarrow> u32 \<Rightarrow> fat \<Rightarrow> u32 option" where
  "dir_sector_lba inode n st =
     (if inode = 0 then Some (if n \<ge> root_dir_sectors st then 0 else root_dir_lba st + n)
      else (let spc = ucast (sectors_per_cluster (bpb st)) in
        if spc = 0 then None
        else (let cluster_idx = n div spc; sect_in_cl = n mod spc in
          case skip_clusters (unat cluster_idx) (ucast inode) st of
            None \<Rightarrow> Some 0
          | Some cluster \<Rightarrow>
              if cluster < 2 \<or> cluster \<ge> FAT16_CLUSTER_EOF_LO then Some 0
              else Some (data_lba st + (ucast cluster - 2) * spc + sect_in_cl))))"

section \<open>Searching and writing entries\<close>

datatype 'a scan = Stop | Found 'a | More

text \<open>The free slot of a sector: an entry never used or deleted.\<close>

fun free_slot :: "sector \<Rightarrow> nat list \<Rightarrow> nat option" where
  "free_slot b [] = None"
| "free_slot b (i # is) =
     (let first = b (32 * i) in if first = 0 \<or> first = 0xE5 then Some i else free_slot b is)"

partial_function (option) write_dir_from :: "u32 \<Rightarrow> fat16_direntry \<Rightarrow> u32 \<Rightarrow> fat \<Rightarrow> (bool \<times> fat) option" where
  "write_dir_from inode e s st =
     do { lba \<leftarrow> dir_sector_lba inode s st;
          if lba = 0 then Some (False, st)
          else (let sector = read_sector lba st in
            case free_slot sector [0..<16] of
              Some i \<Rightarrow> Some (True, write_sector lba (put_direntry i e sector) st)
            | None \<Rightarrow> write_dir_from inode e (s + 1) st) }"

definition fat16_write_dir_entry :: "u32 \<Rightarrow> bytes \<Rightarrow> u16 \<Rightarrow> u32 \<Rightarrow> u8 \<Rightarrow> fat \<Rightarrow> (bool \<times> fat) option" where
  "fat16_write_dir_entry inode name first_cluster file_size attributes st =
     (case format_name_83 name of
        None \<Rightarrow> Some (False, st)
      | Some (name83, ext83) \<Rightarrow>
          write_dir_from inode \<lparr>de_name = name83, de_ext = ext83, de_attributes = attributes,
            de_first_cluster = first_cluster, de_file_size = file_size\<rparr> 0 st)"

text \<open>The search of \<open>fat16_vfs_finddir\<close> within a sector, then over the sectors.\<close>

fun find_in_sector :: "sector \<Rightarrow> bytes \<Rightarrow> nat list \<Rightarrow> (nat \<times> fat16_direntry) scan" where
  "find_in_sector b name [] = More"
| "find_in_sector b name (i # is) =
     (let e = direntry_at b i; sk = skip_entry e in
      if sk = 2 then Stop
      else if sk = 1 then find_in_sector b name is
      else if de_attributes e AND FAT16_ATTR_VOLUME_ID \<noteq> 0 then find_in_sector b name is
      else if name_match e name then Found (i, e)
      else find_in_sector b name is)"

partial_function (option) find_from ::
    "u32 \<Rightarrow> bytes \<Rightarrow> u32 \<Rightarrow> fat \<Rightarrow> (u32 \<times> nat \<times> fat16_direntry) option option" where
  "find_from inode name s st =
     do { lba \<leftarrow> dir_sector_lba inode s st;
          if lba = 0 then Some None
          else (case find_in_sector (read_sector lba st) name [0..<16] of
                  Stop \<Rightarrow> Some None
                | Found (i, e) \<Rightarrow> Some (Some (lba, i, e))
                | More \<Rightarrow> find_from inode name (s + 1) st) }"

text \<open>The search of \<open>fat16_vfs_readdir\<close>: \<open>valid\<close> counts the entries seen.\<close>

fun nth_in_sector :: "sector \<Rightarrow> u32 \<Rightarrow> u32 \<Rightarrow> nat list \<Rightarrow> fat16_direntry scan \<times> u32" where
  "nth_in_sector b index valid [] = (More, valid)"
| "nth_in_sector b index valid (i # is) =
     (let e = direntry_at b i; sk = skip_entry e in
      if sk = 2 then (Stop, valid)
      else if sk = 1 then nth_in_sector b index valid is
      else if de_attributes e AND FAT16_ATTR_VOLUME_ID \<noteq> 0 then nth_in_sector b index valid is
      else if de_name e ! 0 = 0x2E then nth_in_sector b index valid is
      else if valid = index then (Found e, valid)
      else nth_in_sector b index (valid + 1) is)"

partial_function (option) readdir_from ::
    "u32 \<Rightarrow> u32 \<Rightarrow> u32 \<Rightarrow> u32 \<Rightarrow> fat \<Rightarrow> fat16_direntry option option" where
  "readdir_from inode index valid s st =
     do { lba \<leftarrow> dir_sector_lba inode s st;
          if lba = 0 then Some None
          else (case nth_in_sector (read_sector lba st) index valid [0..<16] of
                  (Stop, _) \<Rightarrow> Some None
                | (Found e, _) \<Rightarrow> Some (Some e)
                | (More, valid) \<Rightarrow> readdir_from inode index valid (s + 1) st) }"


section \<open>Names\<close>

lemma upper_fold: "upper_83 c = fold_case c"
  by (simp only: upper_83_def fold_case_def schar_lower)

lemma upper_keeps:
  "upper_83 c = 0 \<longleftrightarrow> c = 0" "upper_83 c = 0x20 \<longleftrightarrow> c = 0x20" "upper_83 (upper_83 c) = upper_83 c"
proof -
  have u: "unat (c - 32) = unat c - 32" if "97 \<le> unat c" using that by (simp add: unat_sub_if' word_le_nat_alt)
  show "upper_83 c = 0 \<longleftrightarrow> c = 0" by (simp add: upper_fold)
  show "upper_83 c = 0x20 \<longleftrightarrow> c = 0x20" "upper_83 (upper_83 c) = upper_83 c"
    using u by (auto simp: upper_83_def word_le_nat_alt word_unat_eq_iff)
qed

lemma trimmed_full: "0 < n \<Longrightarrow> f ! (n - 1) \<noteq> 0x20 \<Longrightarrow> trimmed f n = n"
  by (cases n) auto

lemma trimmed_pad:
  assumes "\<And>k. n \<le> k \<Longrightarrow> k < m \<Longrightarrow> f ! k = 0x20" "0 < n" "n \<le> m" "f ! (n - 1) \<noteq> 0x20"
  shows "trimmed f m = n"
  using assms(1,3)
proof (induction m)
  case (Suc m)
  show ?case
  proof (cases "n \<le> m")
    case True
    then show ?thesis using Suc by simp
  next
    case False
    then have "n = Suc m" using Suc.prems by simp
    then show ?thesis using assms(4) by simp
  qed
qed (use assms in simp)

text \<open>A padded field, without its padding, is the upper-case name it was made from.\<close>

lemma padded_field:
  assumes "b \<noteq> []" "length b \<le> m" "last b \<noteq> 0x20"
    "f = map (\<lambda>i. if i < length b then upper_83 (b ! i) else 0x20) [0..<m]"
  shows "take (trimmed f m) f = map upper_83 b"
proof -
  have "trimmed f m = length b"
  proof (rule trimmed_pad)
    have "length b - 1 < m" using assms(1,2) by (cases b) auto
    then show "f ! (length b - 1) \<noteq> 0x20"
      using assms by (simp add: last_conv_nth upper_keeps)
  qed (use assms in auto)
  then show ?thesis using assms(2,4) by (intro nth_equalityI) auto
qed

lemma find_dot_none: "\<forall>i \<in> set is. cget name i \<noteq> 0x2E \<Longrightarrow> find_dot name is = None"
  by (induction "is") auto

lemma find_dot_append: "find_dot name (is @ js) = (case find_dot name is of None \<Rightarrow> find_dot name js | Some i \<Rightarrow> Some i)"
  by (induction "is") auto

text \<open>
  Names the 8.3 fields hold without loss: a base of 1 to 8 characters and an extension of at most
  3, neither beginning or ending where a space would be lost.
\<close>

definition plain_83 :: "bytes \<Rightarrow> bytes \<Rightarrow> bool" where
  "plain_83 b x \<longleftrightarrow> b \<noteq> [] \<and> length b \<le> 8 \<and> 0 \<notin> set b \<and> 0x2E \<notin> set b \<and> last b \<noteq> 0x20
     \<and> length x \<le> 3 \<and> 0 \<notin> set x \<and> (x \<noteq> [] \<longrightarrow> hd x \<noteq> 0x20 \<and> last x \<noteq> 0x20)"

definition join_83 :: "bytes \<Rightarrow> bytes \<Rightarrow> bytes" where
  "join_83 b x = b @ (if x = [] then [] else 0x2E # x)"

lemma join_83_cstr: "plain_83 b x \<Longrightarrow> cstr (join_83 b x) = join_83 b x"
  by (rule cstr_id) (auto simp: plain_83_def join_83_def)

lemma format_name_plain:
  assumes "plain_83 b x"
  shows "format_name_83 (join_83 b x) =
    Some (map (\<lambda>i. if i < length b then upper_83 (b ! i) else 0x20) [0..<8],
          map (\<lambda>i. if i < length x then upper_83 (x ! i) else 0x20) [0..<3])"
proof -
  have len: "strlen_from (join_83 b x) 0 = length (join_83 b x)"
    using strlen_cstr [of "join_83 b x"] join_83_cstr [OF assms] by (simp add: strlen_def)
  have nb: "cget (join_83 b x) i = b ! i" if "i < length b" for i
    using that by (simp add: join_83_def cget_def nth_append)
  have d0: "find_dot (join_83 b x) [0..<length b] = None"
    using assms nb nth_mem by (intro find_dot_none) (fastforce simp: plain_83_def)
  show ?thesis
  proof (cases "x = []")
    case True
    then have j: "join_83 b x = b" by (simp add: join_83_def)
    have m: "map (\<lambda>i. if i < length b then upper_83 (cget b i) else 0x20) [0..<8] =
        map (\<lambda>i. if i < length b then upper_83 (b ! i) else 0x20) [0..<8]"
      by (intro map_cong) auto
    show ?thesis using assms True len d0 m unfolding j format_name_83_def plain_83_def by simp
  next
    case False
    then have j: "join_83 b x = b @ 0x2E # x" by (simp add: join_83_def)
    have l: "length (join_83 b x) = length b + Suc (length x)" by (simp add: j)
    have "[0..<length (join_83 b x)] = [0..<length b] @ length b # [Suc (length b)..<length (join_83 b x)]"
      unfolding l using upt_add_eq_append [of 0 "length b" "Suc (length x)"]
        upt_conv_Cons [of "length b" "length b + Suc (length x)"] by (simp only: le0 less_add_same_cancel1 zero_less_Suc simp_thms)
    moreover have "cget (join_83 b x) (length b) = 0x2E" by (simp add: j cget_def nth_append)
    ultimately have d: "find_dot (join_83 b x) [0..<length (join_83 b x)] = Some (length b)"
      using d0 by (simp add: find_dot_append)
    have nx: "cget (join_83 b x) (length b + 1 + i) = x ! i" if "i < length x" for i
      using that by (simp add: j cget_def nth_append)
    have "map (\<lambda>i. if i < length b then upper_83 (cget (join_83 b x) i) else 0x20) [0..<8] =
        map (\<lambda>i. if i < length b then upper_83 (b ! i) else 0x20) [0..<8]"
      using nb by (intro map_cong) auto
    moreover have "map (\<lambda>i. if i < length x then upper_83 (cget (join_83 b x) (length b + 1 + i)) else 0x20) [0..<3] =
        map (\<lambda>i. if i < length x then upper_83 (x ! i) else 0x20) [0..<3]"
      using nx by (intro map_cong) auto
    moreover have "length b \<noteq> 0" "length b \<le> 8" "length x \<le> 3" using assms by (auto simp: plain_83_def)
    ultimately show ?thesis
      unfolding format_name_83_def len d Let_def option.case unfolding l by simp
  qed
qed

lemma format_83_plain:
  assumes "plain_83 b x" "format_name_83 (join_83 b x) = Some (n, f)" "de_name e = n" "de_ext e = f"
  shows "format_83 e = map upper_83 (join_83 b x)"
proof -
  have n: "de_name e = map (\<lambda>i. if i < length b then upper_83 (b ! i) else 0x20) [0..<8]"
    and f: "de_ext e = map (\<lambda>i. if i < length x then upper_83 (x ! i) else 0x20) [0..<3]"
    using assms format_name_plain [OF assms(1)] by auto
  have b: "take (trimmed (de_name e) 8) (de_name e) = map upper_83 b"
    using assms(1) by (intro padded_field [OF _ _ _ n]) (auto simp: plain_83_def)
  show ?thesis
  proof (cases "x = []")
    case True
    then have "de_ext e ! 0 = 0x20" by (simp add: f)
    then show ?thesis using b True by (simp add: format_83_def join_83_def)
  next
    case False
    then have "de_ext e ! 0 \<noteq> 0x20" using assms(1) by (auto simp: f plain_83_def upper_keeps hd_conv_nth)
    moreover have "take (trimmed (de_ext e) 3) (de_ext e) = map upper_83 x"
      using assms(1) False by (intro padded_field [OF _ _ _ f]) (auto simp: plain_83_def)
    ultimately show ?thesis using b False by (simp add: format_83_def join_83_def upper_83_def)
  qed
qed

lemma name_match_plain:
  assumes "plain_83 b x" "format_name_83 (join_83 b x) = Some (n, f)" "de_name e = n" "de_ext e = f"
  shows "name_match e (join_83 b x)"
proof -
  have "0 \<notin> set (map upper_83 (join_83 b x))"
    using join_83_cstr [OF assms(1)] cstr_no_zero [of "join_83 b x"] by (auto simp: upper_keeps)
  then have "cstr (format_83 e) = map upper_83 (join_83 b x)"
    using format_83_plain [OF assms] cstr_id by simp
  then show ?thesis
    by (simp add: name_match_def strcasecmp_eq_0_iff join_83_cstr [OF assms(1)] upper_fold [symmetric] upper_keeps)
qed


section \<open>Entries\<close>

lemma put_direntry_byte: "put_direntry i e b k =
    (if 32 * i + 0x1C \<le> k \<and> k < 32 * i + 32 then set_le32 (32 * i + 0x1C) (de_file_size e) b k
     else if 32 * i + 0x1A \<le> k \<and> k < 32 * i + 0x1C then set_le16 (32 * i + 0x1A) (de_first_cluster e) b k
     else if 32 * i \<le> k \<and> k < 32 * i + 8 then de_name e ! (k - 32 * i)
     else if 32 * i + 8 \<le> k \<and> k < 32 * i + 11 then de_ext e ! (k - (32 * i + 8))
     else if k = 32 * i + 0x0B then de_attributes e
     else if 32 * i + 0x0C \<le> k \<and> k < 32 * i + 0x1A then 0
     else b k)"
  by (auto simp: put_direntry_def set_le32_def set_le16_def)

lemma direntry_put_same:
  assumes "length (de_name e) = 8" "length (de_ext e) = 3"
  shows "direntry_at (put_direntry i e b) i = e"
proof -
  have "map (\<lambda>k. put_direntry i e b (32 * i + k)) [0..<8] = de_name e"
    using assms by (intro nth_equalityI) (auto simp: put_direntry_byte)
  moreover have "map (\<lambda>k. put_direntry i e b (32 * i + 8 + k)) [0..<3] = de_ext e"
    using assms by (intro nth_equalityI) (auto simp: put_direntry_byte)
  moreover have "le16 (put_direntry i e b) (32 * i + 0x1A) = de_first_cluster e"
    by (simp add: put_direntry_def set_le32_def le16_set_other)
  moreover have "le32 (put_direntry i e b) (32 * i + 0x1C) = de_file_size e"
    by (simp add: put_direntry_def)
  ultimately show ?thesis by (simp add: direntry_at_def put_direntry_byte)
qed

lemma direntry_put_other:
  assumes "i \<noteq> j"
  shows "direntry_at (put_direntry i e b) j = direntry_at b j"
proof -
  have o: "put_direntry i e b (32 * j + k) = b (32 * j + k)" if "k < 32" for k
    using assms that by (auto simp: put_direntry_byte)
  have "put_direntry i e b k = b k" if "32 * j \<le> k" "k < 32 * j + 32" for k
    using o [of "k - 32 * j"] that by simp
  then show ?thesis by (simp add: direntry_at_def le32_def le16_def)
qed

lemma direntry_lengths [simp]: "length (de_name (direntry_at b i)) = 8" "length (de_ext (direntry_at b i)) = 3"
  by (simp_all add: direntry_at_def)

lemma direntry_first: "de_name (direntry_at b i) ! 0 = b (32 * i)"
  by (simp add: direntry_at_def)

section \<open>A directory as a list of slots\<close>

text \<open>The sectors of a directory: from 0 on, until the code gets 0.\<close>

definition dir_sectors :: "fat \<Rightarrow> u32 \<Rightarrow> u32 list \<Rightarrow> bool" where
  "dir_sectors st inode lbas \<longleftrightarrow> length lbas < 4294967296
     \<and> (\<forall>k < length lbas. dir_sector_lba inode (of_nat k) st = Some (lbas ! k) \<and> lbas ! k \<noteq> 0)
     \<and> dir_sector_lba inode (of_nat (length lbas)) st = Some 0"

definition sector_slots :: "fat \<Rightarrow> u32 \<Rightarrow> (u32 \<times> nat \<times> fat16_direntry) list" where
  "sector_slots st lba = map (\<lambda>i. (lba, i, direntry_at (read_sector lba st) i)) [0..<16]"

definition slots :: "fat \<Rightarrow> u32 list \<Rightarrow> (u32 \<times> nat \<times> fat16_direntry) list" where
  "slots st lbas = concat (map (sector_slots st) lbas)"

text \<open>The entries a search sees: before the end mark, not skipped, no volume label.\<close>

definition visible :: "fat16_direntry \<Rightarrow> bool" where
  "visible e \<longleftrightarrow> skip_entry e = 0 \<and> de_attributes e AND FAT16_ATTR_VOLUME_ID = 0"

definition live :: "(u32 \<times> nat \<times> fat16_direntry) list \<Rightarrow> (u32 \<times> nat \<times> fat16_direntry) list" where
  "live xs = filter (\<lambda>(lba, i, e). visible e) (takeWhile (\<lambda>(lba, i, e). skip_entry e \<noteq> 2) xs)"

lemma live_Nil [simp]: "live [] = []"
  by (simp add: live_def)

lemma live_Cons: "live ((lba, i, e) # xs) = (if skip_entry e = 2 then []
    else if visible e then (lba, i, e) # live xs else live xs)"
  by (simp add: live_def)

lemma live_append: "live (xs @ ys) = (if \<exists>(lba, i, e) \<in> set xs. skip_entry e = 2 then live xs else live xs @ live ys)"
  by (induction xs) (auto simp: live_Cons split: prod.splits)

lemma find_in_sector_slots:
  "find_in_sector b name is =
    (let xs = map (\<lambda>i. (lba, i, direntry_at b i)) is in
     case find (\<lambda>(lba, i, e). name_match e name) (live xs) of
       Some (lba, i, e) \<Rightarrow> Found (i, e)
     | None \<Rightarrow> if \<exists>(lba, i, e) \<in> set xs. skip_entry e = 2 then Stop else More)"
proof (induction "is")
  case (Cons i "is")
  have "skip_entry (direntry_at b i) \<in> {0, 1, 2}" by (simp add: skip_entry_def)
  then show ?case using Cons by (auto simp: live_Cons visible_def Let_def split: option.splits)
qed simp

text \<open>The search from sector \<open>k\<close> on.\<close>

lemma find_from_slots:
  assumes "dir_sectors st inode lbas"
  shows "k + length ls = length lbas \<Longrightarrow> ls = drop k lbas \<Longrightarrow>
    find_from inode name (of_nat k) st = Some (find (\<lambda>(lba, i, e). name_match e name) (live (slots st ls)))"
proof (induction ls arbitrary: k)
  case Nil
  then show ?case using assms by (simp add: find_from.simps dir_sectors_def slots_def)
next
  case (Cons l ls)
  have l: "k < length lbas" "lbas ! k = l"
    using Cons.prems(1) nth_via_drop [OF Cons.prems(2) [symmetric]] by simp_all
  then have d: "dir_sector_lba inode (of_nat k) st = Some l" "l \<noteq> 0" using assms by (auto simp: dir_sectors_def)
  have IH: "find_from inode name (of_nat (k + 1)) st = Some (find (\<lambda>(lba, i, e). name_match e name) (live (slots st ls)))"
  proof (rule Cons.IH)
    show "k + 1 + length ls = length lbas" using Cons.prems(1) by simp
    show "ls = drop (k + 1) lbas" using arg_cong [OF Cons.prems(2), of tl] by (simp add: drop_Suc drop_tl)
  qed
  have sl: "slots st (l # ls) = sector_slots st l @ slots st ls" by (simp add: slots_def)
  have L: "a = l" if "find (\<lambda>(lba, i, e). name_match e name) (live (sector_slots st l)) = Some (a, b, c)" for a b c
    using that nth_mem by (fastforce simp: find_Some_iff live_def sector_slots_def dest!: set_takeWhileD)
  show ?case
    unfolding sl live_append find_from.simps [of inode name "of_nat k"] d(1)
    using d(2) IH find_in_sector_slots [of "read_sector l st" name "[0..<16]" l]
    by (auto simp: sector_slots_def [symmetric] Let_def add.commute find_append dest: L split: option.splits)
qed

lemma find_slots:
  "dir_sectors st inode lbas \<Longrightarrow> find_from inode name 0 st =
    Some (find (\<lambda>(lba, i, e). name_match e name) (live (slots st lbas)))"
  using find_from_slots [of st inode lbas 0 lbas] by simp

text \<open>The entries \<open>readdir\<close> lists: the visible ones but the dot entries.\<close>

definition listed :: "(u32 \<times> nat \<times> fat16_direntry) list \<Rightarrow> fat16_direntry list" where
  "listed xs = filter (\<lambda>e. de_name e ! 0 \<noteq> 0x2E) (map (\<lambda>(lba, i, e). e) (live xs))"

lemma listed_append: "listed (xs @ ys) = (if \<exists>(lba, i, e) \<in> set xs. skip_entry e = 2 then listed xs else listed xs @ listed ys)"
  by (simp add: listed_def live_append)

lemma listed_Cons: "listed ((lba, i, e) # xs) = (if skip_entry e = 2 then []
    else if visible e \<and> de_name e ! 0 \<noteq> 0x2E then e # listed xs else listed xs)"
  by (simp add: listed_def live_Cons)

lemma nth_in_sector_slots:
  "xs = map (\<lambda>i. (lba, i, direntry_at b i)) is \<Longrightarrow>
    v \<le> unat index \<Longrightarrow> v + length is < 4294967296 \<Longrightarrow>
    nth_in_sector b index (of_nat v) is =
      (if unat index - v < length (listed xs) then (Found (listed xs ! (unat index - v)), index)
       else (if \<exists>(lba, i, e) \<in> set xs. skip_entry e = 2 then Stop else More, of_nat (v + length (listed xs))))"
proof (induction "is" arbitrary: v xs)
  case (Cons i "is")
  define ys where "ys = map (\<lambda>i. (lba, i, direntry_at b i)) is"
  have xs: "xs = (lba, i, direntry_at b i) # ys" using Cons.prems(1) by (simp add: ys_def)
  have IH: "nth_in_sector b index (of_nat w) is =
      (if unat index - w < length (listed ys) then (Found (listed ys ! (unat index - w)), index)
       else (if \<exists>(lba, i, e) \<in> set ys. skip_entry e = 2 then Stop else More, of_nat (w + length (listed ys))))"
    if "w \<le> unat index" "w \<le> v + 1" for w
    using that Cons.prems ys_def by (intro Cons.IH) auto
  have sk: "skip_entry (direntry_at b i) \<in> {0, 1, 2}" by (simp add: skip_entry_def)
  have v: "of_nat v = index \<longleftrightarrow> v = unat index"
    using Cons.prems(2,3) unat_of_nat_u32 [of v] by (auto simp: u32_eq_iff)
  show ?case
  proof (cases "skip_entry (direntry_at b i) \<noteq> 2 \<and> visible (direntry_at b i) \<and> de_name (direntry_at b i) ! 0 \<noteq> 0x2E")
    case False
    then show ?thesis using sk IH [of v] Cons.prems(2)
      by (auto simp: xs listed_Cons visible_def Let_def)
  next
    case True
    then have l: "listed xs = direntry_at b i # listed ys" by (simp add: xs listed_Cons)
    show ?thesis
    proof (cases "v = unat index")
      case eq: True
      then show ?thesis using True v l by (simp add: visible_def Let_def)
    next
      case False
      then have w: "v + 1 \<le> unat index" using Cons.prems(2) by simp
      have "nth_in_sector b index (of_nat v) (i # is) = nth_in_sector b index (of_nat (v + 1)) is"
        using True False v by (simp add: visible_def Let_def add.commute)
      also have "\<dots> = (if unat index - v < length (listed xs) then (Found (listed xs ! (unat index - v)), index)
       else (if \<exists>(lba, i, e) \<in> set xs. skip_entry e = 2 then Stop else More, of_nat (v + length (listed xs))))"
        using IH [OF w] True w l unfolding l xs by (auto simp: nth_Cons' Suc_diff_Suc split: if_splits)
      finally show ?thesis .
    qed
  qed
qed (simp add: listed_def)


lemma readdir_from_slots:
  assumes "dir_sectors st inode lbas" "16 * length lbas < 4294967296"
  shows "k + length ls = length lbas \<Longrightarrow> ls = drop k lbas \<Longrightarrow> v \<le> unat index \<Longrightarrow> v \<le> 16 * k \<Longrightarrow>
    readdir_from inode index (of_nat v) (of_nat k) st =
      Some (if unat index - v < length (listed (slots st ls)) then Some (listed (slots st ls) ! (unat index - v)) else None)"
proof (induction ls arbitrary: k v)
  case Nil
  then show ?case using assms by (simp add: readdir_from.simps dir_sectors_def slots_def listed_def)
next
  case (Cons l ls)
  have l: "k < length lbas" "lbas ! k = l"
    using Cons.prems(1) nth_via_drop [OF Cons.prems(2) [symmetric]] by simp_all
  then have d: "dir_sector_lba inode (of_nat k) st = Some l" "l \<noteq> 0" using assms by (auto simp: dir_sectors_def)
  define L where "L = listed (sector_slots st l)"
  have len: "length L \<le> 16"
    unfolding L_def listed_def live_def sector_slots_def
    by (rule order_trans [OF length_filter_le], simp, rule order_trans [OF length_filter_le],
        rule order_trans [OF length_takeWhile_le]) simp
  have IH: "readdir_from inode index (of_nat (v + length L)) (of_nat (k + 1)) st =
      Some (if unat index - (v + length L) < length (listed (slots st ls))
            then Some (listed (slots st ls) ! (unat index - (v + length L))) else None)"
    if "v + length L \<le> unat index"
  proof (rule Cons.IH)
    show "k + 1 + length ls = length lbas" using Cons.prems(1) by simp
    show "ls = drop (k + 1) lbas" using arg_cong [OF Cons.prems(2), of tl] by (simp add: drop_Suc drop_tl)
    show "v + length L \<le> 16 * (k + 1)" using Cons.prems(4) len by simp
  qed (rule that)
  have n: "nth_in_sector (read_sector l st) index (of_nat v) [0..<16] =
      (if unat index - v < length L then (Found (L ! (unat index - v)), index)
       else (if \<exists>(lba, i, e) \<in> set (sector_slots st l). skip_entry e = 2 then Stop else More, of_nat (v + length L)))"
    unfolding L_def
  proof (rule nth_in_sector_slots [where lba = l])
    show "v + length [0..<16] < 4294967296" using Cons.prems(4) l(1) assms(2) by simp
  qed (use Cons.prems(3) in \<open>simp_all add: sector_slots_def\<close>)
  have sl: "listed (slots st (l # ls)) = (if \<exists>(lba, i, e) \<in> set (sector_slots st l). skip_entry e = 2 then L
      else L @ listed (slots st ls))" by (simp add: slots_def listed_append L_def)
  show ?case
  proof (cases "unat index - v < length L")
    case True
    then show ?thesis unfolding readdir_from.simps [of inode index "of_nat v" "of_nat k"] d(1) sl
      using d(2) n by (simp add: nth_append)
  next
    case False
    then have w: "v + length L \<le> unat index" using Cons.prems(3) by simp
    have "unat index - v - length L = unat index - (v + length L)" by simp
    then show ?thesis unfolding readdir_from.simps [of inode index "of_nat v" "of_nat k"] d(1) sl
      using d(2) n False IH [OF w] w by (auto simp: nth_append add.commute)
  qed
qed

lemma readdir_slots:
  assumes "dir_sectors st inode lbas" "16 * length lbas < 4294967296"
  shows "readdir_from inode index 0 0 st =
    Some (if unat index < length (listed (slots st lbas)) then Some (listed (slots st lbas) ! unat index) else None)"
  using readdir_from_slots [OF assms, of 0 lbas 0 index] by simp

section \<open>Writing an entry\<close>

definition free_entry_slot :: "fat16_direntry \<Rightarrow> bool" where
  "free_entry_slot e \<longleftrightarrow> de_name e ! 0 = 0 \<or> de_name e ! 0 = 0xE5"

lemma free_slot_find: "free_slot b is = find (\<lambda>i. free_entry_slot (direntry_at b i)) is"
  by (induction "is") (simp_all add: free_entry_slot_def direntry_first Let_def)

lemma find_map: "find P (map f xs) = map_option f (find (\<lambda>x. P (f x)) xs)"
  by (induction xs) auto

text \<open>The first free slot of the list, with the sector it is in.\<close>

lemma write_dir_slots:
  assumes "dir_sectors st inode lbas"
  shows "k + length ls = length lbas \<Longrightarrow> ls = drop k lbas \<Longrightarrow>
    write_dir_from inode e (of_nat k) st =
      (case find (\<lambda>(lba, i, d). free_entry_slot d) (slots st ls) of
         None \<Rightarrow> Some (False, st)
       | Some (lba, i, d) \<Rightarrow> Some (True, write_sector lba (put_direntry i e (read_sector lba st)) st))"
proof (induction ls arbitrary: k)
  case Nil
  then show ?case using assms by (simp add: write_dir_from.simps dir_sectors_def slots_def)
next
  case (Cons l ls)
  have l: "k < length lbas" "lbas ! k = l"
    using Cons.prems(1) nth_via_drop [OF Cons.prems(2) [symmetric]] by simp_all
  then have d: "dir_sector_lba inode (of_nat k) st = Some l" "l \<noteq> 0" using assms by (auto simp: dir_sectors_def)
  have IH: "write_dir_from inode e (of_nat (k + 1)) st =
      (case find (\<lambda>(lba, i, d). free_entry_slot d) (slots st ls) of
         None \<Rightarrow> Some (False, st)
       | Some (lba, i, d) \<Rightarrow> Some (True, write_sector lba (put_direntry i e (read_sector lba st)) st))"
  proof (rule Cons.IH)
    show "k + 1 + length ls = length lbas" using Cons.prems(1) by simp
    show "ls = drop (k + 1) lbas" using arg_cong [OF Cons.prems(2), of tl] by (simp add: drop_Suc drop_tl)
  qed
  have f: "find (\<lambda>(lba, i, d). free_entry_slot d) (sector_slots st l) =
      map_option (\<lambda>i. (l, i, direntry_at (read_sector l st) i)) (free_slot (read_sector l st) [0..<16])"
    by (simp add: sector_slots_def free_slot_find find_map)
  have sl: "slots st (l # ls) = sector_slots st l @ slots st ls" by (simp add: slots_def)
  show ?case
    unfolding sl find_append f write_dir_from.simps [of inode e "of_nat k"] d(1)
    using d(2) IH by (auto simp: add.commute split: option.splits)
qed


lemma write_dir_spec:
  "dir_sectors st inode lbas \<Longrightarrow> write_dir_from inode e 0 st =
    (case find (\<lambda>(lba, i, d). free_entry_slot d) (slots st lbas) of
       None \<Rightarrow> Some (False, st)
     | Some (lba, i, d) \<Rightarrow> Some (True, write_sector lba (put_direntry i e (read_sector lba st)) st))"
  using write_dir_slots [of st inode lbas 0 lbas] by simp

text \<open>The slot list after the write: one slot has the new entry.\<close>

lemma slots_split:
  assumes "find (\<lambda>(lba, i, d). free_entry_slot d) (slots st lbas) = Some (lba, i, d)"
  obtains xs ys where "slots st lbas = xs @ (lba, i, d) # ys" "\<forall>(l, j, c) \<in> set xs. \<not> free_entry_slot c"
    "lba \<in> set lbas" "i < 16" "d = direntry_at (read_sector lba st) i"
proof -
  from assms obtain n where n: "n < length (slots st lbas)" "slots st lbas ! n = (lba, i, d)"
    "\<forall>m < n. \<not> (case slots st lbas ! m of (lba, i, d) \<Rightarrow> free_entry_slot d)"
    by (auto simp: find_Some_iff)
  have "(lba, i, d) \<in> set (slots st lbas)" using n(1,2) by (metis nth_mem)
  then have m: "lba \<in> set lbas" "i < 16" "d = direntry_at (read_sector lba st) i"
    by (auto simp: slots_def sector_slots_def)
  have "slots st lbas = take n (slots st lbas) @ (lba, i, d) # drop (Suc n) (slots st lbas)"
    using n(1,2) by (metis id_take_nth_drop)
  moreover have "\<forall>(l, j, c) \<in> set (take n (slots st lbas)). \<not> free_entry_slot c"
    using n(3) by (auto simp: set_conv_nth)
  ultimately show ?thesis using that m by blast
qed

definition lbas_ok :: "u32 list \<Rightarrow> bool" where
  "lbas_ok lbas \<longleftrightarrow> distinct lbas \<and> (\<forall>l \<in> set lbas. lba28 l = l)"

lemma slot_keys: "lbas_ok lbas \<Longrightarrow> distinct (map (\<lambda>(l, i, d). (l, i)) (slots st lbas))"
proof (induction lbas)
  case (Cons l ls)
  have "map (\<lambda>(l, i, d). (l, i)) (slots st (l # ls)) = map (Pair l) [0..<16] @ map (\<lambda>(l, i, d). (l, i)) (slots st ls)"
    by (simp add: slots_def sector_slots_def)
  moreover have "distinct (map (Pair l) [0..<16])" by (simp add: distinct_map inj_on_def)
  moreover have "set (map (Pair l) [0..<16]) \<inter> set (map (\<lambda>(l, i, d). (l, i)) (slots st ls)) = {}"
    using Cons.prems by (auto simp: slots_def sector_slots_def lbas_ok_def)
  ultimately show ?case using Cons by (simp add: lbas_ok_def)
qed (simp add: slots_def)

lemma slots_map: "slots st lbas = map (\<lambda>(l, i). (l, i, direntry_at (read_sector l st) i)) (List.product lbas [0..<16])"
  by (induction lbas) (simp_all add: slots_def sector_slots_def)

lemma slots_write:
  assumes "lbas_ok lbas" "lba \<in> set lbas" "i < 16" "length (de_name e) = 8" "length (de_ext e) = 3"
    and sl: "slots st lbas = xs @ (lba, i, d) # ys"
  shows "slots (write_sector lba (put_direntry i e (read_sector lba st)) st) lbas = xs @ (lba, i, e) # ys"
proof -
  define st' where "st' = write_sector lba (put_direntry i e (read_sector lba st)) st"
  have l: "lba28 lba = lba" using assms(1,2) by (simp add: lbas_ok_def)
  have r: "read_sector k st' = (if k = lba then put_direntry i e (read_sector lba st) else read_sector k st)"
    if "k \<in> set lbas" for k
    using that assms(1) l by (auto simp: st'_def read_sector_def write_sector_def lbas_ok_def)
  have e: "direntry_at (read_sector k st') j = (if k = lba \<and> j = i then e else direntry_at (read_sector k st) j)"
    if "k \<in> set lbas" for k j
    using r [OF that] direntry_put_same [OF assms(4,5)] direntry_put_other by auto
  have u: "slots st' lbas = map (\<lambda>(k, j, c). (k, j, if k = lba \<and> j = i then e else c)) (slots st lbas)"
    unfolding slots_map using e by (auto simp: set_product)
  have dk: "distinct (map (\<lambda>(l, i, d). (l, i)) (xs @ (lba, i, d) # ys))"
    using slot_keys [OF assms(1), of st] sl by simp
  have k: "map (\<lambda>(k, j, c). (k, j, if k = lba \<and> j = i then e else c)) zs = zs"
    if "(lba, i) \<notin> set (map (\<lambda>(l, i, d). (l, i)) zs)" for zs :: "(u32 \<times> nat \<times> fat16_direntry) list"
    using that by (intro map_idI) (auto split: prod.splits, force)
  have "(lba, i) \<notin> set (map (\<lambda>(l, i, d). (l, i)) xs)" "(lba, i) \<notin> set (map (\<lambda>(l, i, d). (l, i)) ys)"
    using dk by auto
  note this [THEN k]
  then show ?thesis unfolding st'_def [symmetric] u sl by simp
qed


section \<open>The root directory and subdirectories\<close>

definition cluster_sectors :: "fat \<Rightarrow> u16 \<Rightarrow> u32 list" where
  "cluster_sectors st c = map (\<lambda>i. cluster_lba c st + of_nat i) [0..<spc st]"

definition directory :: "fat \<Rightarrow> u32 \<Rightarrow> u32 list \<Rightarrow> bool" where
  "directory st inode lbas \<longleftrightarrow>
     (if inode = 0 then lbas = map (\<lambda>k. root_dir_lba st + of_nat k) [0..<unat (root_dir_sectors st)]
      else \<exists>cs. cs \<noteq> [] \<and> chain (\<lambda>c. fat_entry c st) (ucast inode) cs \<and> (\<forall>c \<in> set cs. in_table st c)
             \<and> lbas = concat (map (cluster_sectors st) cs))"

lemma skip_clusters_chain:
  "chain (\<lambda>c. fat_entry c st) c cs \<Longrightarrow> n < length cs \<Longrightarrow> skip_clusters n c st = Some (cs ! n)"
proof (induction n arbitrary: c cs)
  case 0
  then show ?case by (cases cs) auto
next
  case (Suc n)
  then obtain x xs where cs: "cs = x # xs" by (cases cs) auto
  then have "skip_clusters n (fat_entry x st) st = Some (xs ! n)" using Suc by (intro Suc.IH) auto
  then show ?case using Suc.prems cs by (auto simp: not_less [symmetric])
qed

lemma skip_clusters_end:
  "chain (\<lambda>c. fat_entry c st) c cs \<Longrightarrow> n = length cs \<Longrightarrow>
    \<exists>d. skip_clusters n c st = Some d \<and> FAT16_CLUSTER_EOF_LO \<le> d"
proof (induction cs arbitrary: c n)
  case (Cons x xs)
  then show ?case by (auto simp: not_less [symmetric])
qed auto

lemma nth_concat_uniform:
  "(\<And>x. x \<in> set xs \<Longrightarrow> length (f x) = m) \<Longrightarrow> 0 < m \<Longrightarrow> k < m * length xs \<Longrightarrow>
    concat (map f xs) ! k = f (xs ! (k div m)) ! (k mod m)"
proof (induction xs arbitrary: k)
  case (Cons x xs)
  show ?case
  proof (cases "k < m")
    case True
    then show ?thesis using Cons.prems(1) [of x] by (simp add: nth_append)
  next
    case False
    then have "concat (map f xs) ! (k - m) = f (xs ! ((k - m) div m)) ! ((k - m) mod m)"
      using Cons by (intro Cons.IH) auto
    moreover have "k div m = Suc ((k - m) div m)" "k mod m = (k - m) mod m"
      using False Cons.prems(2) by (simp_all add: le_div_geq le_mod_geq)
    ultimately show ?thesis using False Cons.prems(1) [of x] by (simp add: nth_append)
  qed
qed simp

lemma length_concat_uniform:
  "(\<And>x. x \<in> set xs \<Longrightarrow> length (f x) = m) \<Longrightarrow> length (concat (map f xs)) = m * length xs"
  by (induction xs) auto

lemma root_sectors:
  assumes "layout st" "lbas = map (\<lambda>k. root_dir_lba st + of_nat k) [0..<unat (root_dir_sectors st)]"
  shows "dir_sectors st 0 lbas" "lbas_ok lbas" "\<forall>l \<in> set lbas. unat (root_dir_lba st) \<le> unat l"
proof -
  have b: "unat (root_dir_lba st) \<le> 65535 + 255 * 65535" "unat (root_dir_sectors st) \<le> 4096"
    by (rule layout_bounds [OF assms(1)])+
  have n: "unat (of_nat k :: u32) = k" if "k \<le> 4096" for k using that by (intro unat_of_nat_u32) simp
  have u: "unat (root_dir_lba st + of_nat k) = unat (root_dir_lba st) + k" if "k \<le> 4096" for k
    using n [OF that] b(1) that by (subst unat_add_u32) simp_all
  have f: "0 < unat (fat_lba st) + unat (fat_size_16 (bpb st))" "unat (fat_lba st) + unat (fat_size_16 (bpb st)) \<le> unat (root_dir_lba st)"
    using assms(1) layout_bounds(5) [OF assms(1)] by (simp_all add: layout_def)
  show "dir_sectors st 0 lbas" unfolding dir_sectors_def
  proof (intro conjI allI impI)
    show "length lbas < 4294967296" using b(2) assms(2) by simp
    fix k assume k: "k < length lbas"
    then have k': "k \<le> 4096" "k < unat (root_dir_sectors st)" using b(2) assms(2) by simp_all
    show "dir_sector_lba 0 (of_nat k) st = Some (lbas ! k)"
      using k' n [OF k'(1)] assms(2) by (simp add: dir_sector_lba_def word_le_nat_alt)
    have "0 < unat (root_dir_lba st)" using f by linarith
    then have "unat (root_dir_lba st + of_nat k) \<noteq> 0" using u [OF k'(1)] by simp
    then show "lbas ! k \<noteq> 0" using k' assms(2) by auto
  next
    show "dir_sector_lba 0 (of_nat (length lbas)) st = Some 0" using assms(2) by (simp add: dir_sector_lba_def)
  qed
  have "inj_on (\<lambda>k. root_dir_lba st + of_nat k :: u32) {0..<unat (root_dir_sectors st)}"
  proof (rule inj_onI)
    fix i j assume ij: "i \<in> {0..<unat (root_dir_sectors st)}" "j \<in> {0..<unat (root_dir_sectors st)}"
      and e: "root_dir_lba st + of_nat i = root_dir_lba st + of_nat j"
    have "i \<le> 4096" "j \<le> 4096" using ij b(2) by (simp_all only: atLeastLessThan_iff) linarith+
    then have "unat (root_dir_lba st) + i = unat (root_dir_lba st) + j" using u [of i] u [of j] e by metis
    then show "i = j" by (rule add_left_imp_eq)
  qed
  moreover have "lba28 (root_dir_lba st + of_nat k) = root_dir_lba st + of_nat k" if "k < unat (root_dir_sectors st)" for k
  proof (rule lba28_id)
    have "unat (root_dir_lba st + of_nat k) = unat (root_dir_lba st) + k" using that b(2) by (intro u) linarith
    moreover have "(2 :: nat) ^ 28 = 268435456" by simp
    ultimately show "unat (root_dir_lba st + of_nat k) < 2 ^ 28" using that b by linarith
  qed
  ultimately show "lbas_ok lbas" using assms(2) by (auto simp: lbas_ok_def distinct_map)
  show "\<forall>l \<in> set lbas. unat (root_dir_lba st) \<le> unat l" using u b(2) assms(2) by auto
qed

lemma chain_length_le: "chain e c cs \<Longrightarrow> length cs \<le> 65536"
proof -
  assume "chain e c cs"
  then have "length cs = card (set cs)" using chain_distinct distinct_card by metis
  also have "\<dots> \<le> card (UNIV :: u16 set)" by (rule card_mono) simp_all
  finally show ?thesis by (simp add: card_word)
qed

lemma subdir_sectors:
  assumes l: "layout st" and p: "0 < spc st" and i: "inode \<noteq> 0" and cs: "cs \<noteq> []"
    "chain (\<lambda>c. fat_entry c st) (ucast inode) cs" and lbas: "lbas = concat (map (cluster_sectors st) cs)"
  shows "dir_sectors st inode lbas" "lbas_ok lbas" "\<forall>l \<in> set lbas. unat (data_lba st) \<le> unat l"
proof -
  have m: "2 \<le> c" if "c \<in> set cs" for c using chain_member [OF cs(2) that] by blast
  have len: "length lbas = spc st * length cs"
    unfolding lbas by (rule length_concat_uniform) (simp add: cluster_sectors_def)
  have s: "unat (ucast (sectors_per_cluster (bpb st)) :: u32) = spc st" "spc st \<le> 255" by simp_all
  have "spc st * length cs \<le> 255 * 65536" using s(2) chain_length_le [OF cs(2)] by (intro mult_le_mono) simp_all
  then have ll: "length lbas \<le> 255 * 65536" by (simp add: len)
  have n: "unat (of_nat k :: u32) = k" if "k \<le> length lbas" for k using that ll by (intro unat_of_nat_u32) simp
  have dv: "unat (of_nat k div ucast (sectors_per_cluster (bpb st)) :: u32) = k div spc st"
    "of_nat k mod ucast (sectors_per_cluster (bpb st)) = (of_nat (k mod spc st) :: u32)" if "k \<le> length lbas" for k
  proof -
    show "unat (of_nat k div ucast (sectors_per_cluster (bpb st)) :: u32) = k div spc st" by (simp add: unat_div n [OF that])
    have "k mod spc st \<le> length lbas" using that by (meson le_trans mod_less_eq_dividend)
    then show "of_nat k mod ucast (sectors_per_cluster (bpb st)) = (of_nat (k mod spc st) :: u32)"
      by (simp add: u32_eq_iff unat_mod n [OF that] n)
  qed
  have z: "ucast (sectors_per_cluster (bpb st)) \<noteq> (0 :: u32)" using p by (auto simp: u32_eq_iff)
  have nth: "lbas ! k = cluster_lba (cs ! (k div spc st)) st + of_nat (k mod spc st)" "k div spc st < length cs" if "k < length lbas" for k
  proof -
    show "k div spc st < length cs" using that len by (intro less_mult_imp_div_less) (simp add: mult.commute)
    show "lbas ! k = cluster_lba (cs ! (k div spc st)) st + of_nat (k mod spc st)"
      unfolding lbas using that len p
      by (subst nth_concat_uniform [where m = "spc st"]) (simp_all add: cluster_sectors_def)
  qed
  have sect: "unat (lbas ! k) = unat (data_lba st) + (unat (cs ! (k div spc st)) - 2) * spc st + k mod spc st"
    "lba28 (lbas ! k) = lbas ! k" if "k < length lbas" for k
    using nth [OF that] m cluster_sector [OF l, of "cs ! (k div spc st)" "k mod spc st"] p by simp_all
  show ge: "\<forall>l \<in> set lbas. unat (data_lba st) \<le> unat l" using sect(1) by (auto simp: in_set_conv_nth)
  have d0: "0 < unat (data_lba st)" using l layout_bounds(5) [OF l] by (simp add: layout_def)
  show "dir_sectors st inode lbas" unfolding dir_sectors_def
  proof (intro conjI allI impI)
    show "length lbas < 4294967296" using ll by simp
    fix k assume k: "k < length lbas"
    note nk = nth [OF k]
    have c: "\<not> cs ! (k div spc st) < 2" "\<not> FAT16_CLUSTER_EOF_LO \<le> cs ! (k div spc st)"
      using chain_member [OF cs(2)] nk(2) by (simp_all add: not_less not_le)
    show "dir_sector_lba inode (of_nat k) st = Some (lbas ! k)"
      using i z dv [of k] k skip_clusters_chain [OF cs(2) nk(2)] c nk(1)
      by (simp add: dir_sector_lba_def cluster_lba_def)
    show "lbas ! k \<noteq> 0" using ge d0 k nth_mem by fastforce
  next
    obtain d where d: "skip_clusters (length cs) (ucast inode) st = Some d" "FAT16_CLUSTER_EOF_LO \<le> d"
      using skip_clusters_end [OF cs(2) refl] by blast
    then show "dir_sector_lba inode (of_nat (length lbas)) st = Some 0"
      using i z dv [of "length lbas"] p by (simp add: dir_sector_lba_def len)
  qed
  have "distinct lbas" unfolding distinct_conv_nth
  proof (intro allI impI notI)
    fix a b assume ab: "a < length lbas" "b < length lbas" "a \<noteq> b" "lbas ! a = lbas ! b"
    then have "cs ! (a div spc st) = cs ! (b div spc st) \<and> a mod spc st = b mod spc st"
      using nth [OF ab(1)] nth [OF ab(2)] m p
      by (simp add: cluster_sector_inj [OF l])
    moreover have "distinct cs" using cs(2) by (rule chain_distinct)
    ultimately have "a div spc st = b div spc st \<and> a mod spc st = b mod spc st"
      using nth(2) [OF ab(1)] nth(2) [OF ab(2)] by (simp add: nth_eq_iff_index_eq)
    then show False using ab(3) by (metis div_mult_mod_eq)
  qed
  then show "lbas_ok lbas" using sect(2) by (auto simp: lbas_ok_def in_set_conv_nth)
qed

lemma directory_sectors:
  assumes "layout st" "0 < spc st" "directory st inode lbas"
  shows "dir_sectors st inode lbas" "lbas_ok lbas" "\<forall>l \<in> set lbas. unat (root_dir_lba st) \<le> unat l"
proof -
  have ge: "unat (root_dir_lba st) \<le> unat (data_lba st)" using assms(1) by (simp add: layout_def)
  show "dir_sectors st inode lbas" "lbas_ok lbas" "\<forall>l \<in> set lbas. unat (root_dir_lba st) \<le> unat l"
    using assms(3) root_sectors [OF assms(1)] subdir_sectors [OF assms(1,2), of inode] ge
    by (auto simp: directory_def split: if_splits) (meson le_trans)+
qed

text \<open>A write beyond the tables changes no entry, hence no directory's sectors.\<close>

lemma write_entry_other:
  assumes "layout st" "in_table st c" "unat (root_dir_lba st) \<le> unat (lba28 lba)"
  shows "fat_entry c (write_sector lba b st) = fat_entry c st"
proof -
  have "unat (fat_sector c st) < unat (root_dir_lba st)"
    using layout_bounds(5) [OF assms(1)] in_table_div [OF assms(2)] unat_fat_sector(1) [OF assms(1), of c] by simp
  then have "fat_sector c st \<noteq> lba28 lba" using assms(3) by auto
  moreover have "layout (write_sector lba b st)" using assms(1) by (simp add: layout_def write_sector_def)
  ultimately show ?thesis using assms(1) by (simp add: fat_entry_alt) (simp add: write_sector_def fat_sector_def)
qed

lemma write_sector_frame [frame_simps]:
  "bpb (write_sector l b st) = bpb st" "fat_lba (write_sector l b st) = fat_lba st"
  "root_dir_lba (write_sector l b st) = root_dir_lba st" "root_dir_sectors (write_sector l b st) = root_dir_sectors st"
  "data_lba (write_sector l b st) = data_lba st" "mounted (write_sector l b st) = mounted st"
  by (simp_all add: write_sector_def)

lemma write_sector_layout [inv_intros]: "layout st \<Longrightarrow> layout (write_sector l b st)"
  by (simp add: layout_def frame_simps)

lemma directory_write:
  assumes "layout st" "directory st inode lbas" "unat (root_dir_lba st) \<le> unat (lba28 lba)"
  shows "directory (write_sector lba b st) inode lbas"
proof (cases "inode = 0")
  case True
  then show ?thesis using assms(2) by (simp add: directory_def frame_simps)
next
  case False
  then obtain cs where cs: "cs \<noteq> []" "chain (\<lambda>c. fat_entry c st) (ucast inode) cs" "\<forall>c \<in> set cs. in_table st c"
    "lbas = concat (map (cluster_sectors st) cs)" using assms(2) by (auto simp: directory_def)
  have "chain (\<lambda>c. fat_entry c (write_sector lba b st)) (ucast inode) cs"
    using cs(2,3) write_entry_other [OF assms(1) _ assms(3)] by (subst chain_cong) auto
  moreover have "cluster_sectors (write_sector lba b st) = cluster_sectors st"
    by (simp add: fun_eq_iff cluster_sectors_def cluster_lba_def frame_simps)
  ultimately show ?thesis using False cs by (auto simp: directory_def in_table_def frame_simps)
qed


section \<open>A new entry is found again\<close>

text \<open>Directories as formatted: behind an end mark there are only end marks.\<close>

definition ended :: "(u32 \<times> nat \<times> fat16_direntry) list \<Rightarrow> bool" where
  "ended xs \<longleftrightarrow> (\<forall>c \<in> set (dropWhile (\<lambda>(l, i, e). skip_entry e \<noteq> 2) xs). skip_entry (snd (snd c)) = 2)"

lemma not_free_no_end: "\<not> free_entry_slot c \<Longrightarrow> skip_entry c \<noteq> 2"
  by (simp add: free_entry_slot_def skip_entry_def)

lemma live_prefix:
  assumes "\<forall>(l, j, c) \<in> set xs. \<not> free_entry_slot c"
  shows "live (xs @ ys) = live xs @ live ys"
proof -
  have "\<not> (\<exists>(l, i, c) \<in> set xs. skip_entry c = 2)" using assms not_free_no_end by fast
  then show ?thesis by (simp add: live_append)
qed

lemma free_not_live: "free_entry_slot d \<Longrightarrow> live ((l, i, d) # ys) = (if de_name d ! 0 = 0 then [] else live ys)"
  by (auto simp: live_Cons visible_def skip_entry_def free_entry_slot_def)

lemma ended_live_Nil:
  assumes "ended (xs @ (l, i, d) # ys)" "\<forall>(l, j, c) \<in> set xs. \<not> free_entry_slot c" "de_name d ! 0 = 0"
  shows "live ys = []"
proof -
  have "\<forall>c \<in> set xs. (case c of (l, i, e) \<Rightarrow> skip_entry e \<noteq> 2)" using assms(2) not_free_no_end by fast
  then have "dropWhile (\<lambda>(l, i, e). skip_entry e \<noteq> 2) (xs @ (l, i, d) # ys) = (l, i, d) # ys"
    using assms(3) by (subst dropWhile_append2) (auto simp: skip_entry_def)
  then have "\<forall>c \<in> set ys. skip_entry (snd (snd c)) = 2" using assms(1) by (simp add: ended_def)
  then show ?thesis by (cases ys) (auto simp: live_Cons)
qed

lemma find_None_append: "find P xs = None \<Longrightarrow> find P (xs @ ys) = find P ys"
  by (simp add: find_append)

lemma write_dir_entry_find:
  assumes st: "layout st" "0 < spc st" "directory st inode lbas"
    and nm: "plain_83 b x" "hd b \<noteq> 0xE5"
    and at: "attr \<noteq> FAT16_ATTR_LFN" "attr AND FAT16_ATTR_VOLUME_ID = 0"
    and free: "find (\<lambda>(lba, i, d). free_entry_slot d) (slots st lbas) = Some (lba, i, d)"
  obtains e st' where
    "fat16_write_dir_entry inode (join_83 b x) fc sz attr st = Some (True, st')"
    "st' = write_sector lba (put_direntry i e (read_sector lba st)) st"
    "de_attributes e = attr" "de_first_cluster e = fc" "de_file_size e = sz" "format_83 e = map upper_83 (join_83 b x)"
    "directory st' inode lbas" "layout st'" "lba \<in> set lbas" "i < 16"
    "find_from inode (join_83 b x) 0 st = Some None \<Longrightarrow> find_from inode (join_83 b x) 0 st' = Some (Some (lba, i, e))"
    "\<And>n. ended (slots st lbas) \<Longrightarrow> \<not> name_match e n \<Longrightarrow> find_from inode n 0 st' = find_from inode n 0 st"
proof -
  note ds = directory_sectors [OF st]
  obtain n f where nf: "format_name_83 (join_83 b x) = Some (n, f)" using format_name_plain [OF nm(1)] by blast
  have nfe: "n = map (\<lambda>i. if i < length b then upper_83 (b ! i) else 0x20) [0..<8]"
    "f = map (\<lambda>i. if i < length x then upper_83 (x ! i) else 0x20) [0..<3]"
    using nf format_name_plain [OF nm(1)] by simp_all
  define e where "e = \<lparr>de_name = n, de_ext = f, de_attributes = attr, de_first_cluster = fc, de_file_size = sz\<rparr>"
  define st' where "st' = write_sector lba (put_direntry i e (read_sector lba st)) st"
  have len: "length (de_name e) = 8" "length (de_ext e) = 3" by (simp_all add: e_def nfe)
  obtain xs ys where sl: "slots st lbas = xs @ (lba, i, d) # ys" "\<forall>(l, j, c) \<in> set xs. \<not> free_entry_slot c"
    "lba \<in> set lbas" "i < 16" by (rule slots_split [OF free])
  have fd: "free_entry_slot d" using free by (auto simp: find_Some_iff)
  have l28: "lba28 lba = lba" using ds(2) sl(3) by (simp add: lbas_ok_def)
  have dir': "directory st' inode lbas" unfolding st'_def
    using ds(3) sl(3) l28 by (intro directory_write [OF st(1,3)]) auto
  have lay': "layout st'" unfolding st'_def using st(1) by (rule write_sector_layout)
  have sl': "slots st' lbas = xs @ (lba, i, e) # ys" unfolding st'_def
    by (rule slots_write [OF ds(2) sl(3,4) len sl(1)])
  have spc': "0 < spc st'" using st(2) by (simp add: st'_def frame_simps)
  have b0: "b \<noteq> []" "hd b \<noteq> 0" using nm(1) hd_in_set [of b] by (auto simp: plain_83_def simp del: hd_in_set)
  have e0: "de_name e ! 0 = upper_83 (hd b)" using b0 by (simp add: e_def nfe hd_conv_nth)
  moreover have "upper_83 (hd b) \<noteq> 0xE5"
  proof
    assume "upper_83 (hd b) = 0xE5"
    then show False using nm(2) by (auto simp: upper_83_def word_le_nat_alt word_unat_eq_iff unat_sub_if' split: if_splits)
  qed
  ultimately have vis: "skip_entry e = 0" "visible e"
    using b0(2) at by (simp_all add: skip_entry_def visible_def upper_keeps) (simp_all add: e_def)
  have match: "name_match e (join_83 b x)" by (rule name_match_plain [OF nm(1) nf]) (simp_all add: e_def)
  have find_st: "find_from inode m 0 st = Some (find (\<lambda>(lba, i, e). name_match e m) (live (slots st lbas)))" for m
    by (rule find_slots [OF ds(1)])
  have find_st': "find_from inode m 0 st' = Some (find (\<lambda>(lba, i, e). name_match e m) (live (slots st' lbas)))" for m
    by (rule find_slots) (rule directory_sectors [OF lay' spc' dir'])
  have live': "live (slots st' lbas) = live xs @ (lba, i, e) # live ys"
    unfolding sl' live_prefix [OF sl(2)] using vis by (simp add: live_Cons)
  have live_st: "live (slots st lbas) = live xs @ (if de_name d ! 0 = 0 then [] else live ys)"
    unfolding sl(1) live_prefix [OF sl(2)] free_not_live [OF fd] by simp
  show ?thesis
  proof (rule that [of st' e])
    show "fat16_write_dir_entry inode (join_83 b x) fc sz attr st = Some (True, st')"
      using write_dir_spec [OF ds(1), of e] free by (simp add: fat16_write_dir_entry_def nf e_def [symmetric] st'_def)
    show "st' = write_sector lba (put_direntry i e (read_sector lba st)) st" by (rule st'_def)
    show "de_attributes e = attr" "de_first_cluster e = fc" "de_file_size e = sz" by (simp_all add: e_def)
    show "format_83 e = map upper_83 (join_83 b x)" by (rule format_83_plain [OF nm(1) nf]) (simp_all add: e_def)
    show "directory st' inode lbas" "layout st'" "lba \<in> set lbas" "i < 16" by fact+
    show "find_from inode (join_83 b x) 0 st' = Some (Some (lba, i, e))"
      if "find_from inode (join_83 b x) 0 st = Some None"
    proof -
      have "find (\<lambda>(lba, i, e). name_match e (join_83 b x)) (live xs) = None"
        using that unfolding find_st live_st by (simp add: find_append split: option.splits)
      then show ?thesis unfolding find_st' live' using match by (simp add: find_append)
    qed
    show "find_from inode m 0 st' = find_from inode m 0 st" if "ended (slots st lbas)" "\<not> name_match e m" for m
    proof -
      have "live ys = []" if "de_name d ! 0 = 0"
        using ended_live_Nil [OF _ sl(2) that] \<open>ended (slots st lbas)\<close> unfolding sl(1) by blast
      then show ?thesis unfolding find_st find_st' live' live_st
        using that(2) by (simp add: find_append split: option.splits)
    qed
  qed
qed

end
