(* ===== verification/Kheap.thy ===== *)
theory Kheap
  imports Yotos_Base
begin

text \<open>
  The kernel heap, \<^verbatim>\<open>kernel/kheap.c\<close>: a doubly linked list of blocks, each a 16-byte
  \<open>block_header_t\<close> in front of its payload, laid end to end over the heap. The operations are modelled on the byte
  memory itself, in the order the code reads and writes it, so that headers, payloads and
  stray pointers alias exactly as they do in C. The reading is a list of blocks (size, free or not): \<open>seg\<close> says
  that memory holds such a list. \<open>kmalloc\<close> refines first fit with splitting on the list and \<open>kfree\<close>
  refines release with coalescing. The locale \<open>header_store\<close> is the contract of the
  header fields: what a header reads after a field of another header, or its own, was written.
\<close>

section \<open>Headers\<close>

record block_header =
  bh_size :: u32
  bh_is_free :: u8
  bh_next :: u32
  bh_prev :: u32

text \<open>Layout of the struct: 4 bytes, 1 byte and 3 of padding, two pointers; 16 bytes in all.\<close>

definition sizeof_block_header :: u32 where
  "sizeof_block_header = 16"

definition KHEAP_FIXED_SIZE :: u32 where
  "KHEAP_FIXED_SIZE = 1024 * 1024"

definition hdr :: "mem \<Rightarrow> u32 \<Rightarrow> block_header" where
  "hdr m a = \<lparr>bh_size = rd32 m a, bh_is_free = m (a + 4), bh_next = rd32 m (a + 8),
     bh_prev = rd32 m (a + 12)\<rparr>"

definition set_size :: "u32 \<Rightarrow> u32 \<Rightarrow> mem \<Rightarrow> mem" where
  "set_size a v m = wr32 m a v"

definition set_is_free :: "u32 \<Rightarrow> u8 \<Rightarrow> mem \<Rightarrow> mem" where
  "set_is_free a v m = m(a + 4 := v)"

definition set_next :: "u32 \<Rightarrow> u32 \<Rightarrow> mem \<Rightarrow> mem" where
  "set_next a v m = wr32 m (a + 8) v"

definition set_prev :: "u32 \<Rightarrow> u32 \<Rightarrow> mem \<Rightarrow> mem" where
  "set_prev a v m = wr32 m (a + 12) v"

section \<open>The operations\<close>

record kheap =
  heap_start_ptr :: u32
  kmem :: mem

text \<open>The tail of \<open>kheap_init\<close>: one free block over the whole heap.\<close>

definition kheap_first_block :: "u32 \<Rightarrow> mem \<Rightarrow> mem" where
  "kheap_first_block heap_start m =
     set_prev heap_start 0 (set_next heap_start 0 (set_is_free heap_start 1
       (set_size heap_start (KHEAP_FIXED_SIZE - sizeof_block_header) m)))"

text \<open>The body of the loop of \<open>kmalloc\<close> once a block fits: split it if there is room, take it.\<close>

definition kmalloc_take :: "u32 \<Rightarrow> u32 \<Rightarrow> mem \<Rightarrow> mem" where
  "kmalloc_take current sz m =
     (let m = (if bh_size (hdr m current) \<ge> sz + sizeof_block_header + 1 then
                 (let new_block = current + sizeof_block_header + sz;
                      m = set_size new_block (bh_size (hdr m current) - sz - sizeof_block_header) m;
                      m = set_is_free new_block 1 m;
                      m = set_next new_block (bh_next (hdr m current)) m;
                      m = set_prev new_block current m;
                      m = (if bh_next (hdr m current) \<noteq> 0
                           then set_prev (bh_next (hdr m current)) new_block m else m);
                      m = set_next current new_block m
                  in set_size current sz m)
               else m)
      in set_is_free current 0 m)"

text \<open>The search; a corrupt list may be circular, so the loop is partial.\<close>

partial_function (option) kmalloc_from :: "u32 \<Rightarrow> u32 \<Rightarrow> mem \<Rightarrow> (u32 \<times> mem) option" where
  "kmalloc_from current sz m =
     (if current = 0 then Some (0, m)
      else if bh_is_free (hdr m current) \<noteq> 0 \<and> bh_size (hdr m current) \<ge> sz
      then Some (current + sizeof_block_header, kmalloc_take current sz m)
      else kmalloc_from (bh_next (hdr m current)) sz m)"

definition kmalloc :: "u32 \<Rightarrow> kheap \<Rightarrow> (u32 \<times> kheap) option" where
  "kmalloc sz k = map_option (\<lambda>(p, m). (p, k\<lparr>kmem := m\<rparr>)) (kmalloc_from (heap_start_ptr k) sz (kmem k))"

text \<open>Step 2 of \<open>kfree\<close>: coalesce with the next block.\<close>

definition kfree_next :: "u32 \<Rightarrow> mem \<Rightarrow> mem" where
  "kfree_next header m =
     (if bh_next (hdr m header) \<noteq> 0 \<and> bh_is_free (hdr m (bh_next (hdr m header))) \<noteq> 0 then
        (let m = set_size header (bh_size (hdr m header)
                   + (sizeof_block_header + bh_size (hdr m (bh_next (hdr m header))))) m;
             m = set_next header (bh_next (hdr m (bh_next (hdr m header)))) m
         in if bh_next (hdr m header) \<noteq> 0 then set_prev (bh_next (hdr m header)) header m else m)
      else m)"

text \<open>Step 3: coalesce with the previous block.\<close>

definition kfree_prev :: "u32 \<Rightarrow> mem \<Rightarrow> mem" where
  "kfree_prev header m =
     (if bh_prev (hdr m header) \<noteq> 0 \<and> bh_is_free (hdr m (bh_prev (hdr m header))) \<noteq> 0 then
        (let m = set_size (bh_prev (hdr m header)) (bh_size (hdr m (bh_prev (hdr m header)))
                   + (sizeof_block_header + bh_size (hdr m header))) m;
             m = set_next (bh_prev (hdr m header)) (bh_next (hdr m header)) m
         in if bh_next (hdr m header) \<noteq> 0
            then set_prev (bh_next (hdr m header)) (bh_prev (hdr m header)) m else m)
      else m)"

definition kfree :: "u32 \<Rightarrow> kheap \<Rightarrow> kheap" where
  "kfree ptr k =
     (if ptr = 0 then k
      else (let header = ptr - sizeof_block_header;
                m = set_is_free header 1 (kmem k);
                m = kfree_next header m;
                m = kfree_prev header m
            in k\<lparr>kmem := m\<rparr>))"

definition kcalloc :: "u32 \<Rightarrow> kheap \<Rightarrow> (u32 \<times> kheap) option" where
  "kcalloc sz k =
     (case kmalloc sz k of
        None \<Rightarrow> None
      | Some (ptr, k) \<Rightarrow>
          Some (ptr, if ptr \<noteq> 0 then k\<lparr>kmem := memset (kmem k) ptr 0 (unat sz)\<rparr> else k))"

section \<open>The contract of the header fields\<close>

text \<open>Two headers are the same one or do not overlap, and neither wraps around.\<close>

definition hsep :: "u32 \<Rightarrow> u32 \<Rightarrow> bool" where
  "hsep a b \<longleftrightarrow> unat a + 16 \<le> 4294967296 \<and> unat b + 16 \<le> 4294967296
     \<and> (a = b \<or> unat a + 16 \<le> unat b \<or> unat b + 16 \<le> unat a)"

locale header_store =
  fixes get :: "'m \<Rightarrow> u32 \<Rightarrow> block_header"
    and put_size :: "u32 \<Rightarrow> u32 \<Rightarrow> 'm \<Rightarrow> 'm" and put_is_free :: "u32 \<Rightarrow> u8 \<Rightarrow> 'm \<Rightarrow> 'm"
    and put_next :: "u32 \<Rightarrow> u32 \<Rightarrow> 'm \<Rightarrow> 'm" and put_prev :: "u32 \<Rightarrow> u32 \<Rightarrow> 'm \<Rightarrow> 'm"
  assumes get_put_size: "hsep a b \<Longrightarrow>
      get (put_size a v m) b = (if a = b then (get m b)\<lparr>bh_size := v\<rparr> else get m b)"
    and get_put_is_free: "hsep a b \<Longrightarrow>
      get (put_is_free a w m) b = (if a = b then (get m b)\<lparr>bh_is_free := w\<rparr> else get m b)"
    and get_put_next: "hsep a b \<Longrightarrow>
      get (put_next a v m) b = (if a = b then (get m b)\<lparr>bh_next := v\<rparr> else get m b)"
    and get_put_prev: "hsep a b \<Longrightarrow>
      get (put_prev a v m) b = (if a = b then (get m b)\<lparr>bh_prev := v\<rparr> else get m b)"
begin

lemmas get_put = get_put_size get_put_is_free get_put_next get_put_prev

text \<open>
  The client's view of a merge: \<open>x\<close> absorbs the block \<open>y\<close> that follows it, and the block after
  \<open>y\<close>, if any, points back to \<open>x\<close>.
\<close>

lemma absorb_view:
  fixes v :: u32
  assumes "hsep x b" "hsep x x" "hsep x y" "x \<noteq> y" "z = bh_next (get m y)"
    "z \<noteq> 0 \<longrightarrow> hsep z b \<and> hsep z x \<and> z \<noteq> x"
  defines "m' \<equiv> put_next x z (put_size x v m)"
  shows "get (if z \<noteq> 0 then put_prev z x m' else m') b =
    (if b = x then (get m x)\<lparr>bh_size := v, bh_next := z\<rparr>
     else if b = z \<and> z \<noteq> 0 then (get m b)\<lparr>bh_prev := x\<rparr> else get m b)"
  using assms by (auto simp: get_put)

end

lemma hsep_refl: "hsep a a \<longleftrightarrow> unat a + 16 \<le> 4294967296"
  by (simp add: hsep_def)

lemma hsep_sym: "hsep a b \<Longrightarrow> hsep b a"
  by (auto simp: hsep_def)

lemma hdr_offsets:
  fixes a :: u32
  assumes "unat a + 16 \<le> 4294967296"
  shows "unat (a + 4) = unat a + 4" "unat (a + 8) = unat a + 8" "unat (a + 12) = unat a + 12"
  using assms by (simp_all add: unat_plus_numeral)

lemma hsep_apart:
  assumes "hsep a b"
  shows "apart32 a (b + 8)" "apart32 a (b + 12)" "apart32 (a + 8) b" "apart32 (a + 12) b"
    "apart32 (a + 8) (b + 12)" "apart32 (a + 12) (b + 8)"
    "a \<noteq> b \<Longrightarrow> apart32 a b" "a \<noteq> b \<Longrightarrow> apart32 (a + 8) (b + 8)" "a \<noteq> b \<Longrightarrow> apart32 (a + 12) (b + 12)"
  using assms hdr_offsets [of a] hdr_offsets [of b]
  by (auto simp: hsep_def apart32_def u32_eq_iff)

lemma hsep_byte:
  assumes "hsep a b"
  shows "unat (a + 4) < unat b \<or> unat b + 4 \<le> unat (a + 4)"
    "unat (a + 4) < unat (b + 8) \<or> unat (b + 8) + 4 \<le> unat (a + 4)"
    "unat (a + 4) < unat (b + 12) \<or> unat (b + 12) + 4 \<le> unat (a + 4)"
    "unat b + 4 \<le> 4294967296" "unat (b + 8) + 4 \<le> 4294967296" "unat (b + 12) + 4 \<le> 4294967296"
  using assms hdr_offsets [of a] hdr_offsets [of b] by (auto simp: hsep_def)

interpretation kh: header_store hdr set_size set_is_free set_next set_prev
proof
  fix a b v :: u32 and w :: u8 and m :: mem
  assume h: "hsep a b"
  note ap = hsep_apart [OF h] and ba = hsep_byte [OF h] and ab = hsep_byte [OF hsep_sym [OF h]]
  show "hdr (set_size a v m) b = (if a = b then (hdr m b)\<lparr>bh_size := v\<rparr> else hdr m b)"
    using ap ab by (auto simp: hdr_def set_size_def mem_simps)
  show "hdr (set_is_free a w m) b = (if a = b then (hdr m b)\<lparr>bh_is_free := w\<rparr> else hdr m b)"
    using ba by (auto simp: hdr_def set_is_free_def mem_simps)
  show "hdr (set_next a v m) b = (if a = b then (hdr m b)\<lparr>bh_next := v\<rparr> else hdr m b)"
    using ap ab by (auto simp: hdr_def set_next_def mem_simps)
  show "hdr (set_prev a v m) b = (if a = b then (hdr m b)\<lparr>bh_prev := v\<rparr> else hdr m b)"
    using ap ab by (auto simp: hdr_def set_prev_def mem_simps)
qed

section \<open>Blocks in memory\<close>

text \<open>
  The abstract heap: the blocks from the lowest address up, each its payload size and whether it is free.
  \<open>extent bs\<close> is the number of bytes they take, headers included.
\<close>

type_synonym blocks = "(u32 \<times> bool) list"

fun extent :: "blocks \<Rightarrow> nat" where
  "extent [] = 0"
| "extent ((s, f) # bs) = 16 + unat s + extent bs"

fun end_addr :: "u32 \<Rightarrow> blocks \<Rightarrow> u32" where
  "end_addr a [] = a"
| "end_addr a ((s, f) # bs) = end_addr (a + 16 + s) bs"

fun addrs :: "u32 \<Rightarrow> blocks \<Rightarrow> u32 list" where
  "addrs a [] = []"
| "addrs a ((s, f) # bs) = a # addrs (a + 16 + s) bs"

fun last_addr :: "u32 \<Rightarrow> u32 \<Rightarrow> blocks \<Rightarrow> u32" where
  "last_addr p a [] = p"
| "last_addr p a ((s, f) # bs) = last_addr a (a + 16 + s) bs"

text \<open>
  \<open>seg h p a bs q\<close>: the headers \<open>h\<close> from address \<open>a\<close> describe the blocks \<open>bs\<close>; the first one points back to
  \<open>p\<close> and the last one forward to \<open>q\<close>.
\<close>

fun seg :: "(u32 \<Rightarrow> block_header) \<Rightarrow> u32 \<Rightarrow> u32 \<Rightarrow> blocks \<Rightarrow> u32 \<Rightarrow> bool" where
  "seg h p a [] q = True"
| "seg h p a ((s, f) # bs) q =
     (bh_size (h a) = s \<and> (bh_is_free (h a) \<noteq> 0) = f \<and> bh_prev (h a) = p
      \<and> bh_next (h a) = (if bs = [] then q else a + 16 + s)
      \<and> seg h a (a + 16 + s) bs q)"

definition fits :: "u32 \<Rightarrow> blocks \<Rightarrow> bool" where
  "fits a bs \<longleftrightarrow> unat a + extent bs \<le> 4294967295"

lemma extent_append [simp]: "extent (xs @ ys) = extent xs + extent ys"
  by (induction xs rule: extent.induct) auto

lemma end_addr_append [simp]: "end_addr a (xs @ ys) = end_addr (end_addr a xs) ys"
  by (induction a xs rule: end_addr.induct) auto

lemma addrs_append [simp]: "addrs a (xs @ ys) = addrs a xs @ addrs (end_addr a xs) ys"
  by (induction a xs rule: addrs.induct) auto

lemma last_addr_append [simp]: "last_addr p a (xs @ ys) = last_addr (last_addr p a xs) (end_addr a xs) ys"
  by (induction p a xs rule: last_addr.induct) auto

lemma seg_append:
  "seg h p a (xs @ ys) q \<longleftrightarrow>
    seg h p a xs (if ys = [] then q else end_addr a xs) \<and> seg h (last_addr p a xs) (end_addr a xs) ys q"
  by (induction h p a xs q rule: seg.induct) auto

lemma seg_cong:
  "(\<And>x. x \<in> set (addrs a bs) \<Longrightarrow> h x = h' x) \<Longrightarrow> seg h p a bs q = seg h' p a bs q"
  by (induction h p a bs q rule: seg.induct) auto

lemma block_end:
  fixes a s :: u32
  assumes "unat a + 16 + unat s \<le> 4294967295"
  shows "unat (a + 16 + s) = unat a + 16 + unat s"
  using assms by (simp add: unat_word_ariths take_bit_eq_mod)

lemma fits_end_addr:
  "fits a (xs @ ys) \<Longrightarrow> ys \<noteq> [] \<Longrightarrow> unat (end_addr a xs) = unat a + extent xs"
proof (induction a xs rule: end_addr.induct)
  case (1 a)
  then show ?case by simp
next
  case (2 a s f bs)
  obtain t g zs where ys: "ys = (t, g) # zs" using 2(3) by (cases ys) auto
  have e: "unat (a + 16 + s) = unat a + 16 + unat s"
    using 2(2) ys by (intro block_end) (simp add: fits_def)
  with 2 show ?case by (simp add: fits_def)
qed

lemma addrs_bounds:
  "fits a bs \<Longrightarrow> x \<in> set (addrs a bs) \<Longrightarrow> unat a \<le> unat x \<and> unat x + 16 \<le> unat a + extent bs"
proof (induction a bs rule: addrs.induct)
  case (1 a)
  then show ?case by simp
next
  case (2 a s f bs)
  show ?case
  proof (cases "bs = []")
    case True
    with 2 show ?thesis by simp
  next
    case False
    have e: "unat (a + 16 + s) = unat a + 16 + unat s"
      using fits_end_addr [of a "[(s, f)]" bs] 2(2) False by simp
    with 2 show ?thesis by (auto simp: fits_def)
  qed
qed

lemma fits_append_left: "fits a (xs @ ys) \<Longrightarrow> fits a xs"
  by (simp add: fits_def)

lemma fits_append_right: "fits a (xs @ ys) \<Longrightarrow> ys \<noteq> [] \<Longrightarrow> fits (end_addr a xs) ys"
  using fits_end_addr [of a xs ys] by (simp add: fits_def)

text \<open>The headers of a list that fits are pairwise apart.\<close>

lemma addrs_hsep:
  "fits a bs \<Longrightarrow> x \<in> set (addrs a bs) \<Longrightarrow> y \<in> set (addrs a bs) \<Longrightarrow> hsep x y"
proof (induction a bs arbitrary: x y rule: addrs.induct)
  case (1 a)
  then show ?case by simp
next
  case (2 a s f bs)
  show ?case
  proof (cases "bs = []")
    case True
    with 2 show ?thesis by (simp add: hsep_def fits_def)
  next
    case False
    have e: "unat (a + 16 + s) = unat a + 16 + unat s"
      using fits_end_addr [of a "[(s, f)]" bs] 2(2) False by simp
    have f: "fits (a + 16 + s) bs" using fits_append_right [of a "[(s, f)]" bs] 2(2) False by simp
    have tl: "unat a + 16 \<le> unat z \<and> unat z + 16 \<le> 4294967296"
      if "z \<in> set (addrs (a + 16 + s) bs)" for z
      using addrs_bounds [OF f that] e f by (simp add: fits_def)
    have a: "unat a + 16 \<le> 4294967296" using 2(2) by (simp add: fits_def)
    from 2(3,4) show ?thesis
      using 2(1) [OF f] tl a by (auto simp: hsep_def)
  qed
qed

lemma addrs_distinct: "fits a bs \<Longrightarrow> distinct (addrs a bs)"
proof (induction a bs rule: addrs.induct)
  case (1 a)
  then show ?case by simp
next
  case (2 a s f bs)
  show ?case
  proof (cases "bs = []")
    case False
    have e: "unat (a + 16 + s) = unat a + 16 + unat s"
      using fits_end_addr [of a "[(s, f)]" bs] 2(2) False by simp
    have f: "fits (a + 16 + s) bs" using fits_append_right [of a "[(s, f)]" bs] 2(2) False by simp
    have "a \<notin> set (addrs (a + 16 + s) bs)"
      using addrs_bounds [OF f, of a] e by auto
    with 2(1) [OF f] show ?thesis by simp
  qed simp
qed

section \<open>Allocation on blocks and in memory\<close>

text \<open>First fit: the first free block that is large enough, split when a byte of payload remains.\<close>

definition split_block :: "u32 \<Rightarrow> u32 \<Rightarrow> blocks" where
  "split_block sz s = (if unat sz + 17 \<le> unat s then [(sz, False), (s - sz - 16, True)] else [(s, False)])"

fun alloc_blocks :: "u32 \<Rightarrow> u32 \<Rightarrow> blocks \<Rightarrow> u32 \<times> blocks" where
  "alloc_blocks sz a [] = (0, [])"
| "alloc_blocks sz a ((s, f) # bs) =
     (if f \<and> sz \<le> s then (a + 16, split_block sz s @ bs)
      else (let (r, bs') = alloc_blocks sz (a + 16 + s) bs in (r, (s, f) # bs')))"

text \<open>The payload bytes that belong to callers.\<close>

fun used_bytes :: "u32 \<Rightarrow> blocks \<Rightarrow> u32 set" where
  "used_bytes a [] = {}"
| "used_bytes a ((s, f) # bs) = (if f then {} else range32 (a + 16) (unat s)) \<union> used_bytes (a + 16 + s) bs"

lemma used_bytes_append: "used_bytes a (xs @ ys) = used_bytes a xs \<union> used_bytes (end_addr a xs) ys"
  by (induction a xs rule: used_bytes.induct) auto

lemma used_bytes_bounds:
  "fits a bs \<Longrightarrow> x \<in> used_bytes a bs \<Longrightarrow> unat a + 16 \<le> unat x \<and> unat x < unat a + extent bs"
proof (induction a bs rule: used_bytes.induct)
  case (1 a)
  then show ?case by simp
next
  case (2 a s f bs)
  show ?case
  proof (cases "x \<in> used_bytes (a + 16 + s) bs")
    case True
    then have ne: "bs \<noteq> []" by auto
    have e: "unat (a + 16 + s) = unat a + 16 + unat s"
      using fits_end_addr [of a "[(s, f)]" bs] 2(2) ne by simp
    have f: "fits (a + 16 + s) bs" using fits_append_right [of a "[(s, f)]" bs] 2(2) ne by simp
    from 2(1) [OF f True] e show ?thesis by simp
  next
    case False
    with 2(3) have x: "x \<in> range32 (a + 16) (unat s)" by (auto split: if_splits)
    show ?thesis
    proof (cases "unat s = 0")
      case True
      with x show ?thesis by (auto simp: range32_iff)
    next
      case False
      with 2(2) have "unat (a + 16) = unat a + 16" by (intro unat_plus_numeral) (simp add: fits_def)
      with x show ?thesis by (auto simp: range32_iff)
    qed
  qed
qed

lemma used_bytes_no_header:
  "fits a bs \<Longrightarrow> x \<in> used_bytes a bs \<Longrightarrow> y \<in> set (addrs a bs) \<Longrightarrow> x \<notin> range32 y 16"
proof (induction a bs rule: used_bytes.induct)
  case (1 a)
  then show ?case by simp
next
  case (2 a s f bs)
  have own: "unat a + 16 \<le> unat x" using used_bytes_bounds [OF 2(2,3)] by simp
  show ?case
  proof (cases "bs = []")
    case True
    with 2 own show ?thesis by (auto simp: range32_iff)
  next
    case False
    have e: "unat (a + 16 + s) = unat a + 16 + unat s"
      using fits_end_addr [of a "[(s, f)]" bs] 2(2) False by simp
    have f: "fits (a + 16 + s) bs" using fits_append_right [of a "[(s, f)]" bs] 2(2) False by simp
    have c: "unat (a + 16) = unat a + 16" using 2(2) False
      by (intro unat_plus_numeral) (cases bs, auto simp: fits_def)
    consider "y = a" | "y \<in> set (addrs (a + 16 + s) bs)" "x \<in> used_bytes (a + 16 + s) bs"
      | "y \<in> set (addrs (a + 16 + s) bs)" "x \<in> range32 (a + 16) (unat s)"
      using 2(3,4) by (auto split: if_splits)
    then show ?thesis
    proof cases
      case 1
      with own show ?thesis by (simp add: range32_iff)
    next
      case 2
      with "2.IH" f show ?thesis by blast
    next
      case 3
      with addrs_bounds [OF f 3(1)] e c show ?thesis by (auto simp: range32_iff)
    qed
  qed
qed

lemma set_outside:
  fixes a x :: u32
  assumes "x \<notin> range32 a 16" "unat a + 16 \<le> 4294967296"
  shows "set_size a v m x = m x" "set_is_free a w m x = m x" "set_next a v m x = m x"
    "set_prev a v m x = m x"
  using assms hdr_offsets [of a]
  by (auto simp: set_size_def set_is_free_def set_next_def set_prev_def range32_iff
      intro!: wr32_outside)

text \<open>What the headers read after the block at \<open>c\<close> was taken.\<close>

lemma kmalloc_take_split_view:
  fixes c n sz :: u32
  assumes S: "\<And>x y. x \<in> S \<Longrightarrow> y \<in> S \<Longrightarrow> hsep x y"
    and mem: "c \<in> S" "n \<in> S" "b \<in> S" "bh_next (hdr m c) = 0 \<or> bh_next (hdr m c) \<in> S"
    and n: "n = c + 16 + sz" "n \<noteq> c" "bh_next (hdr m c) \<noteq> c" "bh_next (hdr m c) \<noteq> n" "0 \<notin> S"
    and room: "sz + 17 \<le> bh_size (hdr m c)"
  shows "hdr (kmalloc_take c sz m) b =
    (if b = c then (hdr m c)\<lparr>bh_size := sz, bh_next := n, bh_is_free := 0\<rparr>
     else if b = n then \<lparr>bh_size = bh_size (hdr m c) - sz - 16, bh_is_free = 1,
       bh_next = bh_next (hdr m c), bh_prev = c\<rparr>
     else if b = bh_next (hdr m c) then (hdr m b)\<lparr>bh_prev := n\<rparr> else hdr m b)"
proof -
  have r: "sz + sizeof_block_header + 1 \<le> bh_size (hdr m c)"
    using room by (simp add: sizeof_block_header_def add.assoc)
  have n': "c + sizeof_block_header + sz = n" using n(1) by (simp add: sizeof_block_header_def)
  have b0: "b \<noteq> 0" using mem n by auto
  show ?thesis
  proof (cases "bh_next (hdr m c) = 0")
    case True
    then show ?thesis
      using r n mem b0 S by (simp add: kmalloc_take_def Let_def n' kh.get_put sizeof_block_header_def)
  next
    case False
    with mem have "bh_next (hdr m c) \<in> S" by simp
    then show ?thesis
      using r n mem b0 S False
      by (simp add: kmalloc_take_def Let_def n' kh.get_put sizeof_block_header_def)
  qed
qed

lemma kmalloc_take_whole_view:
  assumes "hsep c b" "\<not> sz + 17 \<le> bh_size (hdr m c)"
  shows "hdr (kmalloc_take c sz m) b = (if b = c then (hdr m c)\<lparr>bh_is_free := 0\<rparr> else hdr m b)"
  using assms by (auto simp: kmalloc_take_def Let_def kh.get_put sizeof_block_header_def add.assoc)

lemma kmalloc_take_outside:
  fixes c n sz :: u32
  assumes S: "\<And>x y. x \<in> S \<Longrightarrow> y \<in> S \<Longrightarrow> hsep x y"
    and mem: "c \<in> S" "n \<in> S" "bh_next (hdr m c) = 0 \<or> bh_next (hdr m c) \<in> S"
    and n: "n = c + 16 + sz" "n \<noteq> c"
    and x: "\<And>y. y \<in> S \<Longrightarrow> x \<notin> range32 y 16"
  shows "kmalloc_take c sz m x = m x"
proof -
  have n': "c + sizeof_block_header + sz = n" using n(1) by (simp add: sizeof_block_header_def)
  have o: "y \<in> S \<Longrightarrow> set_size y v m' x = m' x" "y \<in> S \<Longrightarrow> set_is_free y w m' x = m' x"
    "y \<in> S \<Longrightarrow> set_next y v m' x = m' x" "y \<in> S \<Longrightarrow> set_prev y v m' x = m' x" for y v w m'
    using set_outside [of x y] x [of y] S [of y y] by (auto simp: hsep_refl)
  show ?thesis
  proof (cases "bh_next (hdr m c) = 0")
    case True
    then show ?thesis
      using n mem S by (simp add: kmalloc_take_def Let_def n' kh.get_put o)
  next
    case False
    with mem have "bh_next (hdr m c) \<in> S" by simp
    then show ?thesis
      using n mem S False by (simp add: kmalloc_take_def Let_def n' kh.get_put o)
  qed
qed

lemma kmalloc_take_outside_whole:
  assumes "\<not> sz + 17 \<le> bh_size (hdr m c)" "x \<notin> range32 c 16" "unat c + 16 \<le> 4294967296"
  shows "kmalloc_take c sz m x = m x"
  using assms by (simp add: kmalloc_take_def Let_def sizeof_block_header_def add.assoc set_outside)

text \<open>A heap whose list starts at \<open>a\<close>: it fits, starts above 0 and is not larger than half the space.\<close>

definition heap_at :: "mem \<Rightarrow> u32 \<Rightarrow> blocks \<Rightarrow> bool" where
  "heap_at m a bs \<longleftrightarrow> bs \<noteq> [] \<and> a \<noteq> 0 \<and> fits a bs \<and> extent bs < 2147483648 \<and> seg (hdr m) 0 a bs 0"

lemma room_iff:
  fixes sz s :: u32
  assumes "unat s < 2147483648" "sz \<le> s"
  shows "sz + 17 \<le> s \<longleftrightarrow> unat sz + 17 \<le> unat s"
proof -
  have "unat sz \<le> unat s" using assms(2) by (simp add: word_le_nat_alt)
  then have "unat (sz + 17) = unat sz + 17" using assms(1) by (intro unat_plus_numeral) simp
  then show ?thesis by (simp add: word_le_nat_alt)
qed

lemma split_block_extent:
  fixes sz s :: u32
  assumes "sz \<le> s"
  shows "extent (split_block sz s) = 16 + unat s" "split_block sz s \<noteq> []"
proof -
  show "extent (split_block sz s) = 16 + unat s"
  proof (cases "unat sz + 17 \<le> unat s")
    case True
    then have "unat (s - sz - 16) = unat s - unat sz - 16"
      by (simp add: unat_sub word_le_nat_alt)
    with True show ?thesis by (simp add: split_block_def)
  qed (simp add: split_block_def)
qed (simp add: split_block_def)

lemma split_block_end: "end_addr a (split_block sz s) = a + 16 + s"
  by (simp add: split_block_def)

lemma addrs_nonzero: "a \<noteq> 0 \<Longrightarrow> fits a bs \<Longrightarrow> 0 \<notin> set (addrs a bs)"
  using addrs_bounds [of a bs 0] by (auto simp: u32_eq_iff)

lemma heap_next:
  assumes "seg h p a (pre @ (s, f) # post) 0"
  shows "bh_next (h (end_addr a pre)) = (if post = [] then 0 else end_addr a pre + 16 + s)"
    "bh_size (h (end_addr a pre)) = s" "(bh_is_free (h (end_addr a pre)) \<noteq> 0) = f"
    "bh_prev (h (end_addr a pre)) = last_addr p a pre"
  using assms by (auto simp: seg_append)

lemma seg_head_prev:
  "(\<And>x. x \<in> set (addrs a bs) \<Longrightarrow> h' x = (if x = a then (h x)\<lparr>bh_prev := p'\<rparr> else h x)) \<Longrightarrow>
    fits a bs \<Longrightarrow> seg h p a bs q \<Longrightarrow> seg h' p' a bs q"
proof (cases bs)
  case (Cons b bs')
  assume v: "\<And>x. x \<in> set (addrs a bs) \<Longrightarrow> h' x = (if x = a then (h x)\<lparr>bh_prev := p'\<rparr> else h x)"
    and fit: "fits a bs" and seg: "seg h p a bs q"
  obtain s f where b: "b = (s, f)" by (cases b)
  have "h' x = h x" if "x \<in> set (addrs (a + 16 + s) bs')" for x
    using v [of x] that addrs_distinct [OF fit] Cons b by auto
  then have "seg h' a (a + 16 + s) bs' q = seg h a (a + 16 + s) bs' q" by (rule seg_cong)
  with v [of a] seg Cons b show ?thesis by simp
qed simp

lemma kmalloc_take_split:
  assumes heap: "heap_at m a (pre @ (s, True) # post)" and sz: "sz \<le> s" and room: "unat sz + 17 \<le> unat s"
  defines "c \<equiv> end_addr a pre" and "bs' \<equiv> pre @ (sz, False) # (s - sz - 16, True) # post"
  shows "heap_at (kmalloc_take c sz m) a bs'"
    and "x \<in> used_bytes a (pre @ (s, True) # post) \<Longrightarrow> kmalloc_take c sz m x = m x"
proof -
  let ?z = "bh_next (hdr m c)" and ?m = "kmalloc_take c sz m"
  define n where "n = c + 16 + sz"
  define e where "e = c + 16 + s"
  from heap have a: "a \<noteq> 0" and fit: "fits a (pre @ (s, True) # post)"
    and ext: "extent (pre @ (s, True) # post) < 2147483648"
    and seg: "seg (hdr m) 0 a (pre @ (s, True) # post) 0" by (auto simp: heap_at_def)
  have sp: "split_block sz s = [(sz, False), (s - sz - 16, True)]" using room by (simp add: split_block_def)
  have ext': "extent bs' = extent (pre @ (s, True) # post)"
    using split_block_extent(1) [OF sz] by (simp add: bs'_def sp)
  have fit': "fits a bs'" using fit ext' by (simp only: fits_def)
  have ne: "n + 16 + (s - sz - 16) = e" by (simp add: n_def e_def)
  have ad: "addrs a bs' = addrs a pre @ c # n # addrs e post"
    unfolding bs'_def addrs_append addrs.simps c_def [symmetric] n_def [symmetric] ne by (rule refl)
  have dist: "distinct (addrs a pre @ c # n # addrs e post)"
    using addrs_distinct [OF fit'] unfolding ad .
  have S: "x \<in> set (addrs a bs') \<Longrightarrow> y \<in> set (addrs a bs') \<Longrightarrow> hsep x y" for x y
    by (rule addrs_hsep [OF fit'])
  have seg': "seg (hdr m) 0 a pre c" "seg (hdr m) c e post 0"
    and z: "?z = (if post = [] then 0 else e)" "bh_size (hdr m c) = s"
      "bh_prev (hdr m c) = last_addr 0 a pre"
    using seg heap_next [OF seg] by (auto simp: seg_append c_def e_def)
  have zin: "?z = 0 \<or> ?z \<in> set (addrs e post)"
    using z(1) by (cases post) auto
  have nz: "0 \<notin> set (addrs a bs')" by (rule addrs_nonzero [OF a fit'])
  have room': "sz + 17 \<le> bh_size (hdr m c)"
    using room_iff [OF _ sz] room ext z(2) by simp
  have cin: "c \<in> set (addrs a bs')" "n \<in> set (addrs a bs')"
    "?z = 0 \<or> ?z \<in> set (addrs a bs')" "n \<noteq> c" "?z \<noteq> c" "?z \<noteq> n"
    using dist zin nz unfolding ad by auto
  have view: "hdr ?m b =
    (if b = c then (hdr m c)\<lparr>bh_size := sz, bh_next := n, bh_is_free := 0\<rparr>
     else if b = n then \<lparr>bh_size = bh_size (hdr m c) - sz - 16, bh_is_free = 1, bh_next = ?z, bh_prev = c\<rparr>
     else if b = ?z then (hdr m b)\<lparr>bh_prev := n\<rparr> else hdr m b)"
    if "b \<in> set (addrs a bs')" for b
    using kmalloc_take_split_view [of "set (addrs a bs')", OF S cin(1,2) that cin(3) n_def cin(4,5,6) nz room']
    by blast
  have pre: "seg (hdr ?m) 0 a pre c"
  proof -
    have "hdr ?m b = hdr m b" if b: "b \<in> set (addrs a pre)" for b
    proof -
      have "b \<in> set (addrs a bs')" "b \<noteq> c" "b \<noteq> n" "b \<noteq> ?z"
        using b dist zin nz unfolding ad by auto
      then show ?thesis using view [of b] by simp
    qed
    then have "seg (hdr ?m) 0 a pre c = seg (hdr m) 0 a pre c" by (rule seg_cong)
    with seg' show ?thesis by simp
  qed
  have post: "seg (hdr ?m) n e post 0"
  proof (rule seg_head_prev [OF _ _ seg'(2)])
    show "fits e post"
    proof (cases "post = []")
      case True
      then show ?thesis using unat_lt_2p32 [of e] by (simp add: fits_def less_imp_le)
    next
      case False
      then show ?thesis
        using fits_append_right [of a "pre @ [(s, True)]" post] fit by (simp add: c_def e_def)
    qed
    show "hdr ?m b = (if b = e then (hdr m b)\<lparr>bh_prev := n\<rparr> else hdr m b)"
      if b: "b \<in> set (addrs e post)" for b
    proof -
      have "b \<in> set (addrs a bs')" "b \<noteq> c" "b \<noteq> n" "post \<noteq> []"
        using b dist unfolding ad by auto
      then show ?thesis using view [of b] z(1) by simp
    qed
  qed
  have "seg (hdr ?m) (last_addr 0 a pre) c ((sz, False) # (s - sz - 16, True) # post) 0"
    unfolding seg.simps n_def [symmetric] ne
    using post view [OF cin(1)] view [OF cin(2)] cin(4) z by simp
  with pre have "seg (hdr ?m) 0 a bs' 0" by (simp add: bs'_def seg_append c_def)
  with a fit' ext ext' show "heap_at ?m a bs'"
    by (simp add: heap_at_def) (simp add: bs'_def)
  assume x: "x \<in> used_bytes a (pre @ (s, True) # post)"
  have "x \<notin> range32 y 16" if y: "y \<in> set (addrs a bs')" for y
  proof (rule used_bytes_no_header [OF fit' _ y])
    from x show "x \<in> used_bytes a bs'"
      unfolding bs'_def used_bytes_append used_bytes.simps c_def [symmetric] n_def [symmetric] ne
        e_def by auto
  qed
  then show "?m x = m x"
    using kmalloc_take_outside [of "set (addrs a bs')", OF S cin(1,2,3) n_def cin(4)] by blast
qed

lemma kmalloc_take_whole:
  assumes heap: "heap_at m a (pre @ (s, True) # post)" and sz: "sz \<le> s" and room: "\<not> unat sz + 17 \<le> unat s"
  defines "c \<equiv> end_addr a pre" and "bs' \<equiv> pre @ (s, False) # post"
  shows "heap_at (kmalloc_take c sz m) a bs'"
    and "x \<in> used_bytes a (pre @ (s, True) # post) \<Longrightarrow> kmalloc_take c sz m x = m x"
proof -
  let ?m = "kmalloc_take c sz m" and ?bs = "pre @ (s, True) # post"
  from heap have a: "a \<noteq> 0" and fit: "fits a ?bs" and ext: "extent ?bs < 2147483648"
    and seg: "seg (hdr m) 0 a ?bs 0" by (auto simp: heap_at_def)
  have ad: "addrs a ?bs = addrs a pre @ c # addrs (c + 16 + s) post" by (simp add: c_def)
  have dist: "distinct (addrs a pre @ c # addrs (c + 16 + s) post)"
    using addrs_distinct [OF fit] unfolding ad .
  have cin: "c \<in> set (addrs a ?bs)" unfolding ad by simp
  have sep: "hsep c b" if "b \<in> set (addrs a ?bs)" for b
    using addrs_hsep [OF fit cin that] .
  have room': "\<not> sz + 17 \<le> bh_size (hdr m c)"
    using room_iff [OF _ sz] room ext heap_next(2) [OF seg] by (simp add: c_def)
  have view: "hdr ?m b = (if b = c then (hdr m c)\<lparr>bh_is_free := 0\<rparr> else hdr m b)"
    if "b \<in> set (addrs a ?bs)" for b
    using kmalloc_take_whole_view [OF sep [OF that] room'] .
  have "seg (hdr ?m) 0 a pre c"
  proof -
    have "hdr ?m b = hdr m b" if b: "b \<in> set (addrs a pre)" for b
      using view [of b] b dist unfolding ad by auto
    then have "seg (hdr ?m) 0 a pre c = seg (hdr m) 0 a pre c" by (rule seg_cong)
    with seg show ?thesis by (simp add: seg_append c_def)
  qed
  moreover have "seg (hdr ?m) c (c + 16 + s) post 0"
  proof -
    have "hdr ?m b = hdr m b" if b: "b \<in> set (addrs (c + 16 + s) post)" for b
      using view [of b] b dist unfolding ad by auto
    then have "seg (hdr ?m) c (c + 16 + s) post 0 = seg (hdr m) c (c + 16 + s) post 0" by (rule seg_cong)
    with seg show ?thesis by (simp add: seg_append c_def)
  qed
  ultimately have "seg (hdr ?m) 0 a bs' 0"
    using view [OF cin] seg by (auto simp: bs'_def seg_append c_def)
  with a fit ext show "heap_at ?m a bs'" by (simp add: heap_at_def bs'_def fits_def)
  assume x: "x \<in> used_bytes a ?bs"
  have "x \<notin> range32 c 16" by (rule used_bytes_no_header [OF fit x cin])
  then show "?m x = m x"
    using kmalloc_take_outside_whole [OF room'] sep [OF cin] by (simp add: hsep_refl)
qed

text \<open>The search from any block of the list refines \<open>alloc_blocks\<close> on the rest of it.\<close>

lemma kmalloc_from_refines:
  assumes "heap_at m a (pre @ bs)"
  shows "\<exists>m'. kmalloc_from (if bs = [] then 0 else end_addr a pre) sz m
        = Some (fst (alloc_blocks sz (end_addr a pre) bs), m')
      \<and> heap_at m' a (pre @ snd (alloc_blocks sz (end_addr a pre) bs))
      \<and> (\<forall>x \<in> used_bytes a (pre @ bs). m' x = m x)"
  using assms
proof (induction bs arbitrary: pre)
  case Nil
  then show ?case by (simp add: kmalloc_from.simps)
next
  case (Cons b bs)
  obtain s f where b: "b = (s, f)" by (cases b)
  let ?c = "end_addr a pre"
  from Cons.prems b have seg: "seg (hdr m) 0 a (pre @ (s, f) # bs) 0"
    and a: "a \<noteq> 0" and fit: "fits a (pre @ (s, f) # bs)" by (auto simp: heap_at_def)
  note hn = heap_next [OF seg]
  have c0: "?c \<noteq> 0" using addrs_nonzero [OF a fit] by auto
  show ?case
  proof (cases "f \<and> sz \<le> s")
    case True
    then have run: "kmalloc_from ?c sz m = Some (?c + 16, kmalloc_take ?c sz m)"
      using hn c0 by (subst kmalloc_from.simps) (simp add: sizeof_block_header_def)
    have heap: "heap_at m a (pre @ (s, True) # bs)" using Cons.prems b True by simp
    show ?thesis
    proof (cases "unat sz + 17 \<le> unat s")
      case room: True
      with kmalloc_take_split [OF heap _ room] True run b show ?thesis
        by (simp add: split_block_def)
    next
      case room: False
      with kmalloc_take_whole [OF heap _ room] True run b show ?thesis
        by (simp add: split_block_def)
    qed
  next
    case False
    then have step: "kmalloc_from ?c sz m = kmalloc_from (bh_next (hdr m ?c)) sz m"
      using hn c0 by (subst kmalloc_from.simps) auto
    have "heap_at m a ((pre @ [b]) @ bs)" using Cons.prems by simp
    from Cons.IH [OF this] show ?thesis
      using step hn(1) False b by (auto simp: Let_def split: prod.splits)
  qed
qed

section \<open>Release on blocks and in memory\<close>

text \<open>
  Releasing the block between \<open>pre\<close> and \<open>post\<close>: it absorbs a free successor, then a free
  predecessor absorbs it.
\<close>

fun merge_next :: "u32 \<Rightarrow> blocks \<Rightarrow> u32 \<times> blocks" where
  "merge_next s ((t, True) # post) = (s + 16 + t, post)"
| "merge_next s post = (s, post)"

definition free_blocks :: "blocks \<Rightarrow> u32 \<Rightarrow> blocks \<Rightarrow> blocks" where
  "free_blocks pre s post =
     (let (s1, post1) = merge_next s post
      in if pre \<noteq> [] \<and> snd (last pre)
         then butlast pre @ (fst (last pre) + 16 + s1, True) # post1
         else pre @ (s1, True) # post1)"

text \<open>The memory writes of a merge: \<open>x\<close> absorbs \<open>y\<close>.\<close>

definition merge_mem :: "u32 \<Rightarrow> u32 \<Rightarrow> mem \<Rightarrow> mem" where
  "merge_mem x y m =
     (let z = bh_next (hdr m y);
          m' = set_next x z (set_size x (bh_size (hdr m x) + (16 + bh_size (hdr m y))) m)
      in if z \<noteq> 0 then set_prev z x m' else m')"

lemma merge_refines:
  assumes heap: "heap_at m a (pre @ (s, f) # (t, g) # post)"
  defines "x \<equiv> end_addr a pre" and "bs' \<equiv> pre @ (s + 16 + t, f) # post"
  shows "heap_at (merge_mem x (x + 16 + s) m) a bs'"
    and "w \<in> used_bytes a (pre @ (s, f) # (t, g) # post) \<Longrightarrow> merge_mem x (x + 16 + s) m w = m w"
proof -
  define y where "y = x + 16 + s"
  define e where "e = y + 16 + t"
  let ?bs = "pre @ (s, f) # (t, g) # post" and ?z = "bh_next (hdr m y)" and ?m = "merge_mem x y m"
  from heap have a: "a \<noteq> 0" and fit: "fits a ?bs" and ext: "extent ?bs < 2147483648"
    and seg: "seg (hdr m) 0 a ?bs 0" by (auto simp: heap_at_def)
  have ad: "addrs a ?bs = addrs a pre @ x # y # addrs e post" by (simp add: x_def y_def e_def)
  have dist: "distinct (addrs a pre @ x # y # addrs e post)"
    using addrs_distinct [OF fit] unfolding ad .
  have S: "b \<in> set (addrs a ?bs) \<Longrightarrow> c \<in> set (addrs a ?bs) \<Longrightarrow> hsep b c" for b c
    by (rule addrs_hsep [OF fit])
  have seg': "seg (hdr m) 0 a pre x" "seg (hdr m) y e post 0"
    and hx: "bh_size (hdr m x) = s" "(bh_is_free (hdr m x) \<noteq> 0) = f" "bh_prev (hdr m x) = last_addr 0 a pre"
    and hy: "bh_size (hdr m y) = t" "?z = (if post = [] then 0 else e)"
    using seg by (auto simp: seg_append x_def y_def e_def)
  have zin: "?z = 0 \<or> ?z \<in> set (addrs e post)" using hy(2) by (cases post) auto
  have nz: "0 \<notin> set (addrs a ?bs)" by (rule addrs_nonzero [OF a fit])
  have cin: "x \<in> set (addrs a ?bs)" "y \<in> set (addrs a ?bs)" "?z = 0 \<or> ?z \<in> set (addrs a ?bs)"
    "x \<noteq> y" "?z \<noteq> x" "?z \<noteq> y"
    using dist zin nz unfolding ad by auto
  have view: "hdr ?m b = (if b = x then (hdr m x)\<lparr>bh_size := s + (16 + t), bh_next := ?z\<rparr>
      else if b = ?z \<and> ?z \<noteq> 0 then (hdr m b)\<lparr>bh_prev := x\<rparr> else hdr m b)"
    if b: "b \<in> set (addrs a ?bs)" for b
    unfolding merge_mem_def Let_def hx hy(1)
    by (rule kh.absorb_view [of x b y ?z]) (use S b cin in auto)
  have pre: "seg (hdr ?m) 0 a pre x"
  proof -
    have "hdr ?m b = hdr m b" if b: "b \<in> set (addrs a pre)" for b
    proof -
      have "b \<in> set (addrs a ?bs)" "b \<noteq> x" "b \<noteq> ?z" using b dist zin nz unfolding ad by auto
      then show ?thesis using view [of b] by simp
    qed
    then have "seg (hdr ?m) 0 a pre x = seg (hdr m) 0 a pre x" by (rule seg_cong)
    with seg' show ?thesis by simp
  qed
  have post: "seg (hdr ?m) x e post 0"
  proof (rule seg_head_prev [OF _ _ seg'(2)])
    show "fits e post"
    proof (cases "post = []")
      case True
      then show ?thesis using unat_lt_2p32 [of e] by (simp add: fits_def less_imp_le)
    next
      case False
      then show ?thesis
        using fits_append_right [of a "pre @ [(s, f), (t, g)]" post] fit
        by (simp add: x_def y_def e_def)
    qed
    show "hdr ?m b = (if b = e then (hdr m b)\<lparr>bh_prev := x\<rparr> else hdr m b)"
      if b: "b \<in> set (addrs e post)" for b
    proof -
      have "b \<in> set (addrs a ?bs)" "b \<noteq> x" "post \<noteq> []" "b \<noteq> 0"
        using b dist nz unfolding ad by auto
      then show ?thesis using view [of b] hy(2) by simp
    qed
  qed
  have xe: "x + 16 + (s + 16 + t) = e" by (simp add: y_def e_def)
  have "seg (hdr ?m) (last_addr 0 a pre) x ((s + 16 + t, f) # post) 0"
    unfolding seg.simps xe using post view [OF cin(1)] hx hy(2) by (simp add: add.assoc)
  with pre have seg2: "seg (hdr ?m) 0 a bs' 0" by (simp add: bs'_def seg_append x_def)
  have "unat (s + 16 + t) = unat s + 16 + unat t"
    using ext by (simp add: unat_word_ariths take_bit_eq_mod)
  then have ext': "extent bs' = extent ?bs" by (simp add: bs'_def)
  then have "fits a bs'" using fit by (simp only: fits_def)
  with a ext ext' seg2 show "heap_at (merge_mem x (x + 16 + s) m) a bs'"
    by (simp add: heap_at_def y_def) (simp add: bs'_def)
  assume w: "w \<in> used_bytes a ?bs"
  have "w \<notin> range32 b 16" if "b \<in> set (addrs a ?bs)" for b
    by (rule used_bytes_no_header [OF fit w that])
  then have o: "b \<in> set (addrs a ?bs) \<Longrightarrow> set_size b v m' w = m' w \<and> set_next b v m' w = m' w
      \<and> set_prev b v m' w = m' w" for b v m'
    using set_outside [of w b] S [of b b] by (auto simp: hsep_refl)
  have "set_size x v m' w = m' w" "set_next x v m' w = m' w"
    "?z \<noteq> 0 \<Longrightarrow> set_prev ?z v m' w = m' w" for v m'
    using o cin(1,3) by blast+
  then have "?m w = m w" by (simp add: merge_mem_def Let_def)
  then show "merge_mem x (x + 16 + s) m w = m w" by (simp add: y_def)
qed

lemma kfree_next_merge:
  assumes heap: "heap_at m a (pre @ (s, f) # post)"
  defines "x \<equiv> end_addr a pre"
  shows "kfree_next x m =
    (if post \<noteq> [] \<and> snd (hd post) then merge_mem x (x + 16 + s) m else m)"
proof -
  from heap have a: "a \<noteq> 0" and fit: "fits a (pre @ (s, f) # post)"
    and seg: "seg (hdr m) 0 a (pre @ (s, f) # post) 0" by (auto simp: heap_at_def)
  note hn = heap_next [OF seg, folded x_def]
  show ?thesis
  proof (cases post)
    case Nil
    then show ?thesis using hn by (simp add: kfree_next_def)
  next
    case (Cons b post')
    obtain t g where b: "b = (t, g)" by (cases b)
    define y where "y = x + 16 + s"
    define e where "e = y + 16 + t"
    let ?bs = "pre @ (s, f) # (t, g) # post'" and ?z = "bh_next (hdr m y)"
    have ad: "addrs a ?bs = addrs a pre @ x # y # addrs e post'" by (simp add: x_def y_def e_def)
    have fit: "fits a ?bs" using fit Cons b by simp
    have dist: "distinct (addrs a pre @ x # y # addrs e post')"
      using addrs_distinct [OF fit] unfolding ad .
    have S: "b \<in> set (addrs a ?bs) \<Longrightarrow> c \<in> set (addrs a ?bs) \<Longrightarrow> hsep b c" for b c
      by (rule addrs_hsep [OF fit])
    have hy: "(bh_is_free (hdr m y) \<noteq> 0) = g" "?z = (if post' = [] then 0 else e)"
      using seg Cons b by (auto simp: seg_append x_def y_def e_def)
    have zin: "?z = 0 \<or> ?z \<in> set (addrs e post')" using hy(2) by (cases post') auto
    have nz: "0 \<notin> set (addrs a ?bs)" by (rule addrs_nonzero [OF a fit])
    have cin: "x \<in> set (addrs a ?bs)" "y \<in> set (addrs a ?bs)" "?z = 0 \<or> ?z \<in> set (addrs a ?bs)"
      "x \<noteq> y" "?z \<noteq> x" "?z \<noteq> y" "y \<noteq> 0"
      using dist zin nz unfolding ad by auto
    have nx: "bh_next (hdr m x) = y" using hn(1) Cons by (simp add: y_def)
    show ?thesis
    proof (cases g)
      case False
      then show ?thesis using hy(1) nx Cons b by (simp add: kfree_next_def)
    next
      case True
      have "kfree_next x m = merge_mem x y m"
        using True hy(1) nx cin S
        by (simp add: kfree_next_def merge_mem_def Let_def kh.get_put sizeof_block_header_def)
      then show ?thesis using True Cons b by (simp add: y_def)
    qed
  qed
qed

lemma kfree_prev_merge:
  assumes heap: "heap_at m a (pre @ (s, f) # post)"
  defines "x \<equiv> end_addr a pre"
  shows "kfree_prev x m =
    (if pre \<noteq> [] \<and> snd (last pre) then merge_mem (end_addr a (butlast pre)) x m else m)"
proof (cases pre rule: rev_cases)
  case Nil
  with heap show ?thesis by (simp add: kfree_prev_def heap_at_def x_def)
next
  case (snoc pre' b)
  obtain t g where b: "b = (t, g)" by (cases b)
  from heap snoc b have a: "a \<noteq> 0" and fit: "fits a (pre' @ (t, g) # (s, f) # post)"
    and seg: "seg (hdr m) 0 a (pre' @ (t, g) # (s, f) # post) 0" by (auto simp: heap_at_def)
  define p where "p = end_addr a pre'"
  define e where "e = x + 16 + s"
  let ?bs = "pre' @ (t, g) # (s, f) # post" and ?z = "bh_next (hdr m x)"
  have xp: "x = p + 16 + t" by (simp add: x_def p_def snoc b)
  have ad: "addrs a ?bs = addrs a pre' @ p # x # addrs e post" by (simp add: xp p_def e_def)
  have dist: "distinct (addrs a pre' @ p # x # addrs e post)"
    using addrs_distinct [OF fit] unfolding ad .
  have S: "b \<in> set (addrs a ?bs) \<Longrightarrow> c \<in> set (addrs a ?bs) \<Longrightarrow> hsep b c" for b c
    by (rule addrs_hsep [OF fit])
  have hp: "(bh_is_free (hdr m p) \<noteq> 0) = g" "bh_prev (hdr m x) = p" "?z = (if post = [] then 0 else e)"
    using seg by (auto simp: seg_append xp p_def e_def)
  have zin: "?z = 0 \<or> ?z \<in> set (addrs e post)" using hp(3) by (cases post) auto
  have nz: "0 \<notin> set (addrs a ?bs)" by (rule addrs_nonzero [OF a fit])
  have cin: "p \<in> set (addrs a ?bs)" "x \<in> set (addrs a ?bs)" "?z = 0 \<or> ?z \<in> set (addrs a ?bs)"
    "p \<noteq> x" "?z \<noteq> p" "?z \<noteq> x" "p \<noteq> 0"
    using dist zin nz unfolding ad by auto
  show ?thesis
  proof (cases g)
    case False
    then show ?thesis using hp snoc b by (simp add: kfree_prev_def)
  next
    case True
    have "kfree_prev x m = merge_mem p x m"
      using True hp(1,2) cin S
      by (simp add: kfree_prev_def merge_mem_def Let_def kh.get_put sizeof_block_header_def)
    then show ?thesis using True snoc b by (simp add: p_def)
  qed
qed

text \<open>The first step of \<open>kfree\<close>: the header is marked free.\<close>

lemma mark_free:
  assumes heap: "heap_at m a (pre @ (s, f) # post)" and w0: "w \<noteq> 0"
  defines "x \<equiv> end_addr a pre"
  shows "heap_at (set_is_free x w m) a (pre @ (s, True) # post)"
    and "y \<in> used_bytes a (pre @ (s, f) # post) \<Longrightarrow> set_is_free x w m y = m y"
proof -
  let ?bs = "pre @ (s, f) # post" and ?m = "set_is_free x w m"
  from heap have a: "a \<noteq> 0" and fit: "fits a ?bs" and ext: "extent ?bs < 2147483648"
    and seg: "seg (hdr m) 0 a ?bs 0" by (auto simp: heap_at_def)
  have ad: "addrs a ?bs = addrs a pre @ x # addrs (x + 16 + s) post" by (simp add: x_def)
  have dist: "distinct (addrs a pre @ x # addrs (x + 16 + s) post)"
    using addrs_distinct [OF fit] unfolding ad .
  have xin: "x \<in> set (addrs a ?bs)" unfolding ad by simp
  have sep: "hsep x b" if "b \<in> set (addrs a ?bs)" for b using addrs_hsep [OF fit xin that] .
  have view: "hdr ?m b = (if b = x then (hdr m x)\<lparr>bh_is_free := w\<rparr> else hdr m b)"
    if "b \<in> set (addrs a ?bs)" for b
    using kh.get_put_is_free [OF sep [OF that]] by auto
  have same: "hdr ?m b = hdr m b" if "b \<in> set (addrs a pre) \<union> set (addrs (x + 16 + s) post)" for b
    using view [of b] that dist unfolding ad by auto
  have "seg (hdr ?m) 0 a pre x = seg (hdr m) 0 a pre x"
    "seg (hdr ?m) x (x + 16 + s) post 0 = seg (hdr m) x (x + 16 + s) post 0"
    using same by (auto intro!: seg_cong)
  then have "seg (hdr ?m) 0 a (pre @ (s, True) # post) 0"
    using seg view [OF xin] w0 by (auto simp: seg_append x_def)
  with a fit ext show "heap_at ?m a (pre @ (s, True) # post)" by (simp add: heap_at_def fits_def)
  assume "y \<in> used_bytes a ?bs"
  then have "y \<notin> range32 x 16" by (rule used_bytes_no_header [OF fit _ xin])
  then show "?m y = m y" using set_outside(2) sep [OF xin] by (simp add: hsep_refl)
qed

lemma merge_next_cases:
  obtains (merge) t post' where "post = (t, True) # post'" "merge_next s post = (s + 16 + t, post')"
  | (keep) "post = [] \<or> \<not> snd (hd post)" "merge_next s post = (s, post)"
  by (cases "(s, post)" rule: merge_next.cases) auto

lemma kfree_refines:
  assumes heap: "heap_at (kmem k) a (pre @ (s, f) # post)"
  shows "heap_at (kmem (kfree (end_addr a pre + 16) k)) a (free_blocks pre s post)"
    and "y \<in> used_bytes a (pre @ (s, True) # post) \<Longrightarrow>
      kmem (kfree (end_addr a pre + 16) k) y = kmem k y"
proof -
  define x where "x = end_addr a pre"
  define m1 where "m1 = set_is_free x 1 (kmem k)"
  define m2 where "m2 = kfree_next x m1"
  obtain s1 post1 where mn: "merge_next s post = (s1, post1)" by fastforce
  from heap have fit: "fits a (pre @ (s, f) # post)" by (simp add: heap_at_def)
  have h1: "heap_at m1 a (pre @ (s, True) # post)"
    unfolding m1_def x_def by (rule mark_free(1) [OF heap]) simp
  have x16: "unat x + 16 \<le> 4294967296"
    using addrs_bounds [OF fit, of x] fit by (auto simp: x_def fits_def)
  have x0: "x + 16 \<noteq> 0"
  proof -
    have "unat (x + 16) = unat x + 16"
      using addrs_bounds [OF fit, of x] fit by (intro unat_plus_numeral) (auto simp: x_def fits_def)
    then show ?thesis by (metis add_is_0 unat_0 zero_neq_numeral)
  qed
  have h2: "heap_at m2 a (pre @ (s1, True) # post1)"
    and u2: "y \<in> used_bytes a (pre @ (s, True) # post) \<Longrightarrow> m2 y = m1 y \<and>
      y \<in> used_bytes a (pre @ (s1, True) # post1)" for y
  proof -
    have *: "heap_at m2 a (pre @ (s1, True) # post1) \<and> (y \<in> used_bytes a (pre @ (s, True) # post) \<longrightarrow>
      m2 y = m1 y \<and> y \<in> used_bytes a (pre @ (s1, True) # post1))" for y
    proof (cases rule: merge_next_cases [of post s])
      case (merge t post')
      then have e: "s1 = s + 16 + t" "post1 = post'" using mn by auto
      have "m2 = merge_mem x (x + 16 + s) m1"
        unfolding m2_def x_def using kfree_next_merge [OF h1] merge(1) by simp
      with merge_refines [OF h1 [unfolded merge(1)]] e merge(1) show ?thesis
        by (auto simp: x_def used_bytes_append add.assoc)
    next
      case keep
      then have "m2 = m1" "s1 = s" "post1 = post"
        using mn kfree_next_merge [OF h1] by (auto simp: m2_def x_def)
      with h1 show ?thesis by simp
    qed
    then show "heap_at m2 a (pre @ (s1, True) # post1)"
      "y \<in> used_bytes a (pre @ (s, True) # post) \<Longrightarrow> m2 y = m1 y \<and>
        y \<in> used_bytes a (pre @ (s1, True) # post1)" for y by blast+
  qed
  have kf: "kmem (kfree (x + 16) k) = kfree_prev x m2"
    using x0 by (simp add: kfree_def Let_def sizeof_block_header_def m1_def m2_def)
  show "heap_at (kmem (kfree (end_addr a pre + 16) k)) a (free_blocks pre s post)"
  proof (cases "pre \<noteq> [] \<and> snd (last pre)")
    case True
    then obtain pre' t where pre: "pre = pre' @ [(t, True)]" by (cases pre rule: rev_cases) auto
    have "kfree_prev x m2 = merge_mem (end_addr a pre') (end_addr a pre' + 16 + t) m2"
      using kfree_prev_merge [OF h2] True pre by (simp add: x_def)
    then show ?thesis
      using merge_refines(1) [of m2 a pre' t True s1 True post1] h2 kf mn pre
      by (simp add: free_blocks_def x_def)
  next
    case False
    then have "kfree_prev x m2 = m2" using kfree_prev_merge [OF h2] by (auto simp: x_def)
    then show ?thesis using h2 kf mn False by (auto simp: free_blocks_def x_def)
  qed
  assume y: "y \<in> used_bytes a (pre @ (s, True) # post)"
  then have "y \<in> used_bytes a (pre @ (s, f) # post)" by (auto simp: used_bytes_append)
  then have m1y: "m1 y = kmem k y" unfolding m1_def x_def by (intro mark_free(2) [OF heap]) auto
  note m2y = u2 [OF y]
  have "kfree_prev x m2 y = m2 y"
  proof (cases "pre \<noteq> [] \<and> snd (last pre)")
    case True
    then obtain pre' t where pre: "pre = pre' @ [(t, True)]" by (cases pre rule: rev_cases) auto
    have "kfree_prev x m2 = merge_mem (end_addr a pre') (end_addr a pre' + 16 + t) m2"
      using kfree_prev_merge [OF h2] True pre by (simp add: x_def)
    then show ?thesis
      using merge_refines(2) [of m2 a pre' t True s1 True post1 y] h2 m2y pre by simp
  next
    case False
    then show ?thesis using kfree_prev_merge [OF h2] by (auto simp: x_def)
  qed
  then show "kmem (kfree (end_addr a pre + 16) k) y = kmem k y"
    using kf m1y m2y by (simp add: x_def)
qed

section \<open>The block lists the operations produce\<close>

lemma alloc_blocks_cases:
  obtains (taken) pre s post where "bs = pre @ (s, True) # post" "sz \<le> s"
      "\<forall>(t, g) \<in> set pre. \<not> (g \<and> sz \<le> t)"
      "alloc_blocks sz a bs = (end_addr a pre + 16, pre @ split_block sz s @ post)"
  | (none) "\<forall>(t, g) \<in> set bs. \<not> (g \<and> sz \<le> t)" "alloc_blocks sz a bs = (0, bs)"
proof (induction sz a bs arbitrary: thesis rule: alloc_blocks.induct)
  case (1 sz a)
  then show ?case by simp
next
  case (2 sz a s f bs)
  show ?case
  proof (cases "f \<and> sz \<le> s")
    case True
    then show ?thesis using 2(2) [of "[]" s bs] by simp
  next
    case False
    show ?thesis
    proof (rule 2(1) [OF False])
      fix pre t post
      assume "bs = pre @ (t, True) # post" "sz \<le> t" "\<forall>(t, g) \<in> set pre. \<not> (g \<and> sz \<le> t)"
        "alloc_blocks sz (a + 16 + s) bs = (end_addr (a + 16 + s) pre + 16, pre @ split_block sz t @ post)"
      then show ?thesis using 2(2) [of "(s, f) # pre" t post] False by (simp add: Let_def)
    next
      assume "\<forall>(t, g) \<in> set bs. \<not> (g \<and> sz \<le> t)" "alloc_blocks sz (a + 16 + s) bs = (0, bs)"
      then show ?thesis using 2(3) False by (simp add: Let_def)
    qed
  qed
qed

text \<open>No two free blocks are neighbours.\<close>

fun coalesced :: "blocks \<Rightarrow> bool" where
  "coalesced ((s, f) # (t, g) # bs) = (\<not> (f \<and> g) \<and> coalesced ((t, g) # bs))"
| "coalesced bs = True"

lemma coalesced_Cons: "coalesced (b # bs) \<longleftrightarrow> (bs = [] \<or> \<not> (snd b \<and> snd (hd bs))) \<and> coalesced bs"
  by (cases b; cases bs) auto

lemma coalesced_append:
  "coalesced (xs @ ys) \<longleftrightarrow>
    coalesced xs \<and> coalesced ys \<and> (xs = [] \<or> ys = [] \<or> \<not> (snd (last xs) \<and> snd (hd ys)))"
proof (induction xs)
  case (Cons x xs)
  then show ?case by (cases xs; cases ys) (auto simp: coalesced_Cons)
qed simp

lemma split_block_coalesced:
  "coalesced (split_block sz s)" "\<not> snd (hd (split_block sz s))" "split_block sz s \<noteq> []"
  by (auto simp: split_block_def)

lemma alloc_blocks_coalesced:
  assumes "coalesced bs"
  shows "coalesced (snd (alloc_blocks sz a bs))"
proof (cases rule: alloc_blocks_cases [of bs sz a])
  case (taken pre s post)
  with assms have "coalesced pre" "coalesced post" "post = [] \<or> \<not> snd (hd post)"
    by (auto simp: coalesced_append coalesced_Cons)
  then show ?thesis
    using taken split_block_coalesced [of sz s] by (auto simp: coalesced_append)
next
  case none
  with assms show ?thesis by simp
qed

lemma merge_next_coalesced:
  assumes "coalesced post" "merge_next s post = (s1, post1)"
  shows "coalesced post1 \<and> (post1 = [] \<or> \<not> snd (hd post1))"
proof (cases rule: merge_next_cases [of post s])
  case (merge t post')
  with assms show ?thesis by (auto simp: coalesced_Cons)
next
  case keep
  with assms show ?thesis by auto
qed

lemma free_blocks_coalesced:
  assumes "coalesced (pre @ (s, f) # post)"
  shows "coalesced (free_blocks pre s post)"
proof -
  obtain s1 post1 where mn: "merge_next s post = (s1, post1)" by fastforce
  from assms have c: "coalesced pre" "coalesced post" by (auto simp: coalesced_append coalesced_Cons)
  note p1 = merge_next_coalesced [OF c(2) mn]
  show ?thesis
  proof (cases "pre \<noteq> [] \<and> snd (last pre)")
    case True
    then obtain pre' t where pre: "pre = pre' @ [(t, True)]" by (cases pre rule: rev_cases) auto
    with c(1) have "coalesced pre'" "pre' = [] \<or> \<not> snd (last pre')" by (auto simp: coalesced_append)
    with p1 pre mn show ?thesis by (auto simp: free_blocks_def coalesced_append coalesced_Cons)
  next
    case False
    with c p1 mn show ?thesis by (auto simp: free_blocks_def coalesced_append coalesced_Cons)
  qed
qed

text \<open>Releasing the block just taken gives back the list before.\<close>

lemma free_after_alloc_split:
  assumes "coalesced (pre @ (s, True) # post)" "sz \<le> s"
    "split_block sz s = (t, False) # rest"
  shows "free_blocks pre t (rest @ post) = pre @ (s, True) # post"
proof -
  from assms(1) have "post = [] \<or> \<not> snd (hd post)" "pre = [] \<or> \<not> snd (last pre)"
    by (auto simp: coalesced_append coalesced_Cons)
  moreover have "merge_next s post = (s, post)" if "post = [] \<or> \<not> snd (hd post)"
    using that by (cases "(s, post)" rule: merge_next.cases) auto
  ultimately show ?thesis
    using assms(2,3) by (auto simp: split_block_def free_blocks_def Let_def split: if_splits)
qed

lemma heap_at_upd:
  assumes "heap_at m a bs" "x \<in> used_bytes a bs"
  shows "heap_at (m(x := v)) a bs"
proof -
  from assms have fit: "fits a bs" by (simp add: heap_at_def)
  have "hdr (m(x := v)) b = hdr m b" if b: "b \<in> set (addrs a bs)" for b
  proof -
    have o: "x \<notin> range32 b 16" by (rule used_bytes_no_header [OF fit assms(2) b])
    have "hsep b b" by (rule addrs_hsep [OF fit b b])
    then have b16: "unat b + 16 \<le> 4294967296" by (simp add: hsep_refl)
    then have "unat x < unat b \<or> unat b + 16 \<le> unat x" using o by (auto simp: range32_iff)
    then show ?thesis
      using hdr_offsets [OF b16] b16 by (auto simp: hdr_def mem_simps u32_eq_iff)
  qed
  then have "seg (hdr (m(x := v))) 0 a bs 0 = seg (hdr m) 0 a bs 0" by (rule seg_cong)
  with assms(1) show ?thesis by (simp add: heap_at_def)
qed

lemma heap_at_memset:
  "heap_at m a bs \<Longrightarrow> unat p + n \<le> 4294967296 \<Longrightarrow> range32 p n \<subseteq> used_bytes a bs \<Longrightarrow>
    heap_at (memset m p v n) a bs"
proof (induction n arbitrary: m p)
  case (Suc n)
  have p: "p \<in> used_bytes a bs" using Suc.prems(3) by (auto simp: range32_iff)
  have "range32 (p + 1) n \<subseteq> used_bytes a bs \<and> unat (p + 1) + n \<le> 4294967296" if "n \<noteq> 0"
  proof -
    have "unat (p + 1) = unat p + 1" using Suc.prems(2) that by (intro unat_plus_one) simp
    with Suc.prems show ?thesis by (auto simp: range32_iff)
  qed
  note tail = this
  have upd: "heap_at (m(p := v)) a bs" by (rule heap_at_upd [OF Suc.prems(1) p])
  show ?case
  proof (cases "n = 0")
    case True
    show ?thesis unfolding True memset.simps by (rule upd)
  next
    case False
    show ?thesis unfolding memset.simps by (rule Suc.IH [OF upd]) (use tail [OF False] in auto)
  qed
qed simp

lemma first_block_heap:
  assumes "heap_start \<noteq> 0" "unat heap_start + 1048576 \<le> 4294967295"
  shows "heap_at (kheap_first_block heap_start m) heap_start [(0xFFFF0, True)]"
proof -
  have "hsep heap_start heap_start" using assms(2) by (simp add: hsep_refl)
  then show ?thesis
    using assms by (simp add: heap_at_def fits_def kheap_first_block_def kh.get_put
        KHEAP_FIXED_SIZE_def sizeof_block_header_def)
qed

lemma payload_disjoint:
  assumes fit: "fits a (pre @ (s, True) # post)"
  shows "range32 (end_addr a pre + 16) (unat s) \<inter> used_bytes a (pre @ (s, True) # post) = {}"
proof -
  define c where "c = end_addr a pre"
  have c: "unat c = unat a + extent pre" using fits_end_addr [OF fit] by (simp add: c_def)
  with fit have c16: "unat (c + 16) = unat c + 16" by (intro unat_plus_numeral) (simp add: fits_def)
  have "x \<notin> used_bytes a pre" if "x \<in> range32 (c + 16) (unat s)" for x
    using used_bytes_bounds [OF fits_append_left [OF fit], of x] that c c16 by (auto simp: range32_iff)
  moreover have "x \<notin> used_bytes (c + 16 + s) post" if "x \<in> range32 (c + 16) (unat s)" for x
  proof (cases "post = []")
    case False
    have f: "fits (c + 16 + s) post" and e: "unat (c + 16 + s) = unat c + 16 + unat s"
      using fits_append_right [of a "pre @ [(s, True)]" post] False
        fits_end_addr [of a "pre @ [(s, True)]" post] fit c by (simp_all add: c_def)
    show ?thesis using used_bytes_bounds [OF f, of x] that e c16 by (auto simp: range32_iff)
  qed simp
  ultimately show ?thesis by (auto simp: used_bytes_append c_def)
qed

lemma used_bytes_split:
  "used_bytes c (split_block sz s) = range32 (c + 16) (if unat sz + 17 \<le> unat s then unat sz else unat s)"
  "end_addr c (split_block sz s) = c + 16 + s"
  by (simp_all add: split_block_def)

lemma range32_mono: "n \<le> n' \<Longrightarrow> range32 p n \<subseteq> range32 p n'"
  by (auto simp: range32_iff)

lemma kmalloc_on_blocks:
  assumes "heap_at (kmem k) (heap_start_ptr k) bs"
  shows "\<exists>k'. kmalloc sz k = Some (fst (alloc_blocks sz (heap_start_ptr k) bs), k')
    \<and> heap_start_ptr k' = heap_start_ptr k
    \<and> heap_at (kmem k') (heap_start_ptr k) (snd (alloc_blocks sz (heap_start_ptr k) bs))
    \<and> (\<forall>x \<in> used_bytes (heap_start_ptr k) bs. kmem k' x = kmem k x)"
proof -
  have "bs \<noteq> []" using assms by (simp add: heap_at_def)
  then show ?thesis
    using kmalloc_from_refines [of "kmem k" "heap_start_ptr k" "[]" bs sz] assms
    by (auto simp: kmalloc_def)
qed

lemma kmalloc_owned:
  assumes "heap_at (kmem k) (heap_start_ptr k) bs" "kmalloc sz k = Some (p, k')"
  shows "(p = 0 \<and> heap_at (kmem k') (heap_start_ptr k) bs \<and> (\<forall>(s, f) \<in> set bs. f \<longrightarrow> s < sz))
    \<or> (p \<noteq> 0 \<and> (\<exists>bs' n. heap_at (kmem k') (heap_start_ptr k) bs' \<and> extent bs' = extent bs
         \<and> unat sz \<le> n \<and> n \<le> unat sz + 16
         \<and> used_bytes (heap_start_ptr k) bs' = used_bytes (heap_start_ptr k) bs \<union> range32 p n
         \<and> range32 p n \<inter> used_bytes (heap_start_ptr k) bs = {} \<and> unat p + n \<le> 4294967296))"
proof -
  let ?a = "heap_start_ptr k"
  from kmalloc_on_blocks [OF assms(1), of sz] assms(2)
  have p: "p = fst (alloc_blocks sz ?a bs)" and h: "heap_at (kmem k') ?a (snd (alloc_blocks sz ?a bs))"
    by auto
  from assms(1) have a: "?a \<noteq> 0" and fit: "fits ?a bs" by (auto simp: heap_at_def)
  show ?thesis
  proof (cases rule: alloc_blocks_cases [of bs sz ?a])
    case none
    then show ?thesis using p h by (auto simp: not_le)
  next
    case (taken pre s post)
    let ?n = "if unat sz + 17 \<le> unat s then unat sz else unat s"
    have sz: "unat sz \<le> unat s" using taken(2) by (simp add: word_le_nat_alt)
    have u: "used_bytes ?a (pre @ split_block sz s @ post) = used_bytes ?a bs \<union> range32 p ?n"
      using taken p by (auto simp: used_bytes_append used_bytes_split)
    have "range32 p (unat s) \<inter> used_bytes ?a bs = {}"
      using payload_disjoint [of ?a pre s post] fit p taken by simp
    moreover have "range32 p ?n \<subseteq> range32 p (unat s)" using sz by (intro range32_mono) simp
    ultimately have "range32 p ?n \<inter> used_bytes ?a bs = {}" by blast
    moreover have "p \<noteq> 0"
    proof -
      have "unat (end_addr ?a pre + 16) = unat (end_addr ?a pre) + 16"
        using fit fits_end_addr [of ?a pre "(s, True) # post"] taken(1)
        by (intro unat_plus_numeral) (simp add: fits_def)
      then show ?thesis using p taken by (metis add_is_0 fst_conv unat_0 zero_neq_numeral)
    qed
    moreover have "extent (pre @ split_block sz s @ post) = extent bs"
      using taken split_block_extent [OF taken(2)] by simp
    moreover have "unat p + ?n \<le> 4294967296"
      using fit fits_end_addr [of ?a pre "(s, True) # post"] taken p sz
        unat_plus_numeral [of "end_addr ?a pre" "num.Bit0 (num.Bit0 (num.Bit0 (num.Bit0 num.One)))"]
      by (simp add: fits_def)
    ultimately show ?thesis using u h taken sz by (intro disjI2) (auto intro!: exI [of _ ?n])
  qed
qed

section \<open>A buffer taken and given back\<close>

lemma kfree_restores:
  assumes "heap_at (kmem k) (heap_start_ptr k) bs" "coalesced bs"
    and "kmalloc sz k = Some (p, k')" "p \<noteq> 0"
  shows "heap_at (kmem (kfree p k')) (heap_start_ptr k) bs"
proof -
  let ?a = "heap_start_ptr k"
  from kmalloc_on_blocks [OF assms(1), of sz] assms(3)
  have p: "p = fst (alloc_blocks sz ?a bs)" and h: "heap_at (kmem k') ?a (snd (alloc_blocks sz ?a bs))"
    and st: "heap_start_ptr k' = ?a" by auto
  show ?thesis
  proof (cases rule: alloc_blocks_cases [of bs sz ?a])
    case none
    with p assms(4) show ?thesis by simp
  next
    case (taken pre s post)
    have "\<exists>t rest. split_block sz s = (t, False) # rest" by (simp add: split_block_def)
    then obtain t rest where sp: "split_block sz s = (t, False) # rest" by blast
    have "heap_at (kmem k') ?a (pre @ (t, False) # rest @ post)" using h taken sp by simp
    from kfree_refines(1) [OF this] show ?thesis
      using free_after_alloc_split [of pre s post sz t rest] assms(2) taken sp p by simp
  qed
qed

text \<open>What the clients of the heap rely on: a well-formed heap without two free neighbours.\<close>

definition heap_has :: "kheap \<Rightarrow> blocks \<Rightarrow> bool" where
  "heap_has k bs \<longleftrightarrow> heap_at (kmem k) (heap_start_ptr k) bs \<and> coalesced bs"

lemma kfree_start: "heap_start_ptr (kfree p k) = heap_start_ptr k"
  by (simp add: kfree_def Let_def)

text \<open>Where a block is large enough, \<open>kmalloc\<close> succeeds, and releasing what it returned restores the heap.\<close>

lemma heap_has_buffer:
  assumes "heap_has k bs" "(t, True) \<in> set bs" "sz \<le> t"
  obtains p k' where "kmalloc sz k = Some (p, k')" "p \<noteq> 0" "heap_has (kfree p k') bs"
    "heap_has k' (snd (alloc_blocks sz (heap_start_ptr k) bs))" "p = fst (alloc_blocks sz (heap_start_ptr k) bs)"
proof -
  have h: "heap_at (kmem k) (heap_start_ptr k) bs" "coalesced bs" using assms(1) by (simp_all add: heap_has_def)
  obtain k' where k': "kmalloc sz k = Some (fst (alloc_blocks sz (heap_start_ptr k) bs), k')"
    "heap_start_ptr k' = heap_start_ptr k"
    "heap_at (kmem k') (heap_start_ptr k) (snd (alloc_blocks sz (heap_start_ptr k) bs))"
    using kmalloc_on_blocks [OF h(1), of sz] by blast
  have ne: "fst (alloc_blocks sz (heap_start_ptr k) bs) \<noteq> 0"
    using kmalloc_owned [OF h(1) k'(1)] assms(2,3) by (auto simp: not_less [symmetric])
  show ?thesis
  proof (rule that [OF k'(1) ne _ _ refl])
    show "heap_has (kfree (fst (alloc_blocks sz (heap_start_ptr k) bs)) k') bs"
      using kfree_restores [OF h k'(1) ne] h(2) k'(2) by (simp add: heap_has_def kfree_start)
    show "heap_has k' (snd (alloc_blocks sz (heap_start_ptr k) bs))"
      using k'(2,3) alloc_blocks_coalesced [OF h(2)] by (simp add: heap_has_def)
  qed
qed

section \<open>Properties\<close>

text \<open>
  C14. On a well-formed heap \<open>kmalloc\<close> always returns, does on memory what first fit with splitting does on
  the block list, keeps the heap well formed and leaves every byte its callers own as it was.
\<close>

theorem kmalloc_refines_first_fit:
  assumes "heap_at (kmem k) (heap_start_ptr k) bs"
  shows "\<exists>k'. kmalloc sz k = Some (fst (alloc_blocks sz (heap_start_ptr k) bs), k')
    \<and> heap_start_ptr k' = heap_start_ptr k
    \<and> heap_at (kmem k') (heap_start_ptr k) (snd (alloc_blocks sz (heap_start_ptr k) bs))
    \<and> (\<forall>x \<in> used_bytes (heap_start_ptr k) bs. kmem k' x = kmem k x)"
  using assms by (rule kmalloc_on_blocks)

definition kheap_demo :: kheap where
  "kheap_demo = \<lparr>heap_start_ptr = 0x300000, kmem = kheap_first_block 0x300000 (\<lambda>_. 0xAA)\<rparr>"

lemma kheap_demo_heap: "heap_at (kmem kheap_demo) (heap_start_ptr kheap_demo) [(0xFFFF0, True)]"
  using first_block_heap [of "0x300000" "\<lambda>_. 0xAA"] by (simp add: kheap_demo_def)

lemma kmalloc_refines_first_fit_witness:
  "\<exists>k'. kmalloc 100 kheap_demo = Some (0x300010, k')
    \<and> heap_at (kmem k') 0x300000 [(100, False), (0xFFF7C, True)]"
  using kmalloc_refines_first_fit [OF kheap_demo_heap, of 100]
  by (auto simp: split_block_def) (auto simp: kheap_demo_def)

text \<open>
  What \<open>kmalloc\<close> hands out is the caller's own: at least the bytes asked for, inside the heap, none of
  them in use before and all of them in use after. It hands out nothing exactly when no free block is large
  enough, and then the heap is unchanged.
\<close>

theorem kmalloc_exclusive:
  assumes "heap_at (kmem k) (heap_start_ptr k) bs" "kmalloc sz k = Some (p, k')"
  shows "(p = 0 \<and> heap_at (kmem k') (heap_start_ptr k) bs \<and> (\<forall>(s, f) \<in> set bs. f \<longrightarrow> s < sz))
    \<or> (p \<noteq> 0 \<and> (\<exists>bs' n. heap_at (kmem k') (heap_start_ptr k) bs' \<and> extent bs' = extent bs
         \<and> unat sz \<le> n \<and> n \<le> unat sz + 16
         \<and> used_bytes (heap_start_ptr k) bs' = used_bytes (heap_start_ptr k) bs \<union> range32 p n
         \<and> range32 p n \<inter> used_bytes (heap_start_ptr k) bs = {}))"
  using kmalloc_owned [OF assms] by blast

lemma kmalloc_exclusive_witness:
  "\<exists>k'. kmalloc 100 kheap_demo = Some (0x300010, k')
    \<and> (\<exists>bs' n. 100 \<le> n \<and> used_bytes 0x300000 bs' = range32 0x300010 n)"
proof -
  obtain k' where k': "kmalloc 100 kheap_demo = Some (0x300010, k')"
    using kmalloc_on_blocks [OF kheap_demo_heap, of 100] by (auto simp: kheap_demo_def)
  from kmalloc_exclusive [OF kheap_demo_heap k'] k' show ?thesis
    by (auto simp: kheap_demo_def)
qed

text \<open>
  C15. Releasing a block on a well-formed heap merges it with its free neighbours on both sides, keeps the heap
  well formed, and leaves the bytes of every other caller as they were.
\<close>

theorem kfree_coalesces:
  assumes "heap_at (kmem k) (heap_start_ptr k) (pre @ (s, False) # post)"
  shows "heap_at (kmem (kfree (end_addr (heap_start_ptr k) pre + 16) k)) (heap_start_ptr k) (free_blocks pre s post)
    \<and> (\<forall>x \<in> used_bytes (heap_start_ptr k) (pre @ (s, True) # post).
         kmem (kfree (end_addr (heap_start_ptr k) pre + 16) k) x = kmem k x)
    \<and> (coalesced (pre @ (s, False) # post) \<longrightarrow> coalesced (free_blocks pre s post))"
  using kfree_refines [OF assms] free_blocks_coalesced by blast

lemma kfree_coalesces_witness:
  "\<exists>k. heap_at (kmem k) 0x300000 [(100, False), (0xFFF7C, True)]
    \<and> heap_at (kmem (kfree 0x300010 k)) 0x300000 [(0xFFFF0, True)]"
proof -
  from kmalloc_on_blocks [OF kheap_demo_heap, of 100]
  obtain k :: kheap where "heap_start_ptr k = heap_start_ptr kheap_demo"
    "heap_at (kmem k) (heap_start_ptr kheap_demo) (snd (alloc_blocks 100 (heap_start_ptr kheap_demo) [(0xFFFF0, True)]))"
    by blast
  then have "heap_start_ptr k = 0x300000" "heap_at (kmem k) 0x300000 [(100, False), (0xFFF7C, True)]"
    by (simp_all add: split_block_def kheap_demo_def)
  with kfree_coalesces [of k "[]" 100 "[(0xFFF7C, True)]"] show ?thesis
    by (auto simp: free_blocks_def)
qed

text \<open>
  Round trip: on a coalesced heap, freeing what \<open>kmalloc\<close> just returned restores the block list, so a
  balanced use of the heap leaks nothing and does not fragment it.
\<close>

theorem kmalloc_kfree_roundtrip:
  assumes "heap_at (kmem k) (heap_start_ptr k) bs" "coalesced bs"
    and "kmalloc sz k = Some (p, k')" "p \<noteq> 0"
  shows "heap_at (kmem (kfree p k')) (heap_start_ptr k) bs"
  using assms by (rule kfree_restores)

lemma kmalloc_kfree_roundtrip_witness:
  "\<exists>k'. kmalloc 100 kheap_demo = Some (0x300010, k')
    \<and> heap_at (kmem (kfree 0x300010 k')) 0x300000 [(0xFFFF0, True)]"
proof -
  obtain k' where k': "kmalloc 100 kheap_demo = Some (0x300010, k')"
    using kmalloc_on_blocks [OF kheap_demo_heap, of 100] by (auto simp: kheap_demo_def)
  with kmalloc_kfree_roundtrip [OF kheap_demo_heap _ k'] show ?thesis by (simp add: kheap_demo_def)
qed

text \<open>
  Callers that write inside their own payload, byte by byte or by \<open>memset\<close>, never damage the heap; in particular
  \<open>kcalloc\<close> returns on a well-formed heap, with a well-formed heap and its bytes zeroed.
\<close>

theorem payload_writes_safe:
  assumes "heap_at (kmem k) (heap_start_ptr k) bs"
  shows "(x \<in> used_bytes (heap_start_ptr k) bs \<longrightarrow> heap_at ((kmem k)(x := v)) (heap_start_ptr k) bs)
    \<and> (\<exists>p k' bs'. kcalloc sz k = Some (p, k') \<and> heap_at (kmem k') (heap_start_ptr k) bs'
         \<and> (p \<noteq> 0 \<longrightarrow> range32 p (unat sz) \<subseteq> used_bytes (heap_start_ptr k) bs'
              \<and> (\<forall>y \<in> range32 p (unat sz). kmem k' y = 0)))"
proof (rule conjI)
  show "x \<in> used_bytes (heap_start_ptr k) bs \<longrightarrow> heap_at ((kmem k)(x := v)) (heap_start_ptr k) bs"
    using heap_at_upd [OF assms] by blast
next
  let ?a = "heap_start_ptr k"
  obtain p k1 where k1: "kmalloc sz k = Some (p, k1)"
    using kmalloc_on_blocks [OF assms, of sz] by blast
  then have st: "heap_start_ptr k1 = ?a" using kmalloc_on_blocks [OF assms, of sz] by auto
  from kmalloc_owned [OF assms k1]
  show "\<exists>p k' bs'. kcalloc sz k = Some (p, k') \<and> heap_at (kmem k') ?a bs'
         \<and> (p \<noteq> 0 \<longrightarrow> range32 p (unat sz) \<subseteq> used_bytes ?a bs'
              \<and> (\<forall>y \<in> range32 p (unat sz). kmem k' y = 0))"
  proof (elim disjE exE conjE)
    assume "p = 0" "heap_at (kmem k1) ?a bs"
    then show ?thesis using k1 by (auto simp: kcalloc_def)
  next
    fix bs' n
    assume *: "p \<noteq> 0" "heap_at (kmem k1) ?a bs'" "unat sz \<le> n"
      "used_bytes ?a bs' = used_bytes ?a bs \<union> range32 p n" "unat p + n \<le> 4294967296"
    let ?m = "memset (kmem k1) p 0 (unat sz)"
    have sub: "range32 p (unat sz) \<subseteq> used_bytes ?a bs'" using *(3,4) range32_mono [of "unat sz" n p] by blast
    have b: "unat p + unat sz \<le> 4294967296" using *(3,5) by simp
    have "heap_at ?m ?a bs'" by (rule heap_at_memset [OF *(2) b sub])
    moreover have "\<forall>y \<in> range32 p (unat sz). ?m y = 0" using memset_inside [OF b] by blast
    moreover have "kcalloc sz k = Some (p, k1\<lparr>kmem := ?m\<rparr>)" using k1 *(1) by (simp add: kcalloc_def)
    ultimately show ?thesis using sub by (intro exI [of _ p] exI [of _ "k1\<lparr>kmem := ?m\<rparr>"] exI [of _ bs']) simp
  qed
qed

lemma payload_writes_safe_witness:
  "\<exists>p k' bs'. kcalloc 64 kheap_demo = Some (p, k') \<and> heap_at (kmem k') 0x300000 bs'
     \<and> (p \<noteq> 0 \<longrightarrow> (\<forall>y \<in> range32 p 64. kmem k' y = 0))"
  using payload_writes_safe [OF kheap_demo_heap, of 0 0 64] by (auto simp: kheap_demo_def)

end
