(* ===== verification/Fat16.thy ===== *)
theory Fat16
  imports Fat16_Dir Kheap
begin

text \<open>
  The callbacks \<^verbatim>\<open>fs/fat16.c\<close> puts into its operation tables: reading and writing files, listing,
  finding, creating and closing. They allocate nodes and cluster buffers from the kernel heap;
  the nodes themselves are kept by address. A call that divides by 0 sectors per cluster,
  walks a corrupt heap or never ends has the value \<open>None\<close>.
\<close>

section \<open>Nodes\<close>

definition VFS_FILE :: u32 where "VFS_FILE = 0x01"
definition VFS_DIR :: u32 where "VFS_DIR = 0x02"

text \<open>The operation tables of the module, by name.\<close>

datatype ops_table = fat16_file_ops | fat16_dir_ops | fat16_root_ops

record vfs_node =
  vn_name :: bytes
  vn_flags :: u32
  vn_size :: u32
  vn_inode :: u32
  vn_ops :: ops_table
  vn_dir_lba :: u32
  vn_dir_index :: u32

definition sizeof_vfs_node :: u32 where
  "sizeof_vfs_node = 152"

record vfs_dirent =
  vd_name :: bytes
  vd_inode :: u32
  vd_flags :: u32

record fs =
  vol :: fat
  heap :: kheap
  nodes :: "u32 \<Rightarrow> vfs_node"
  fat16_dirent_buf :: vfs_dirent

definition fat16_root_node :: vfs_node where
  "fat16_root_node = \<lparr>vn_name = str ''fat16-root'', vn_flags = VFS_DIR, vn_size = 0, vn_inode = 0,
     vn_ops = fat16_root_ops, vn_dir_lba = 0, vn_dir_index = 0\<rparr>"

definition fs_kmalloc :: "u32 \<Rightarrow> fs \<Rightarrow> (u32 \<times> fs) option" where
  "fs_kmalloc sz s = map_option (\<lambda>(p, k). (p, s\<lparr>heap := k\<rparr>)) (kmalloc sz (heap s))"

definition fs_kfree :: "u32 \<Rightarrow> fs \<Rightarrow> fs" where
  "fs_kfree p s = s\<lparr>heap := kfree p (heap s)\<rparr>"

text \<open>A buffer fresh from \<open>kmalloc\<close> holds what the heap held there.\<close>

definition heap_buffer :: "u32 \<Rightarrow> fs \<Rightarrow> sector" where
  "heap_buffer p s = (\<lambda>i. kmem (heap s) (p + of_nat i))"

section \<open>Reading\<close>

text \<open>
  The reading loop: \<open>out\<close> is what has been stored in the caller's buffer, of length \<open>bytes_read\<close>.
\<close>

definition copy_bytes :: "sector \<Rightarrow> u32 \<Rightarrow> u32 \<Rightarrow> bytes" where
  "copy_bytes cbuf start n = map (\<lambda>i. cbuf (unat start + i)) [0..<unat n]"

partial_function (option) read_loop ::
    "u32 \<Rightarrow> u32 \<Rightarrow> u32 \<Rightarrow> bool \<Rightarrow> u16 \<Rightarrow> u32 \<Rightarrow> bytes \<Rightarrow> sector \<Rightarrow> fat \<Rightarrow> (u32 \<times> bytes) option" where
  "read_loop sz cluster_bytes inner_off first cluster bytes_read out cbuf st =
     (if bytes_read < sz \<and> cluster \<ge> 2 \<and> cluster < FAT16_CLUSTER_EOF_LO
      then (let cbuf = read_cluster cluster st cbuf;
                start = (if first then inner_off else 0);
                avail = cluster_bytes - start;
                copy = (if bytes_read + avail > sz then sz - bytes_read else avail)
            in read_loop sz cluster_bytes inner_off False (fat_entry cluster st) (bytes_read + copy)
                 (out @ copy_bytes cbuf start copy) cbuf st)
      else Some (bytes_read, out))"

text \<open>The return value and the bytes stored in the caller's buffer.\<close>

definition fat16_vfs_read :: "vfs_node \<Rightarrow> u32 \<Rightarrow> u32 \<Rightarrow> fs \<Rightarrow> (int \<times> bytes \<times> fs) option" where
  "fat16_vfs_read node offset sz s =
     (if \<not> mounted (vol s) then Some (-1, [], s)
      else (let file_size = vn_size node in
        if offset \<ge> file_size then Some (0, [], s)
        else (let max_read = file_size - offset;
                  sz = (if sz > max_read then max_read else sz);
                  cluster_bytes = ucast (sectors_per_cluster (bpb (vol s))) * 512
          in if cluster_bytes = 0 then None
             else (let skip_count = offset div cluster_bytes; inner_off = offset mod cluster_bytes in
               case skip_clusters (unat skip_count) (ucast (vn_inode node)) (vol s) of
                 None \<Rightarrow> Some (0, [], s)
               | Some cluster \<Rightarrow> do {
                   (cbuf, s) \<leftarrow> fs_kmalloc cluster_bytes s;
                   if cbuf = 0 then Some (-1, [], s)
                   else do {
                     (bytes_read, out) \<leftarrow> read_loop sz cluster_bytes inner_off True cluster 0 []
                       (heap_buffer cbuf s) (vol s);
                     Some (sint bytes_read, out, fs_kfree cbuf s) } }))))"

section \<open>Directories\<close>

definition fat16_vfs_readdir :: "vfs_node \<Rightarrow> u32 \<Rightarrow> fs \<Rightarrow> (vfs_dirent option \<times> fs) option" where
  "fat16_vfs_readdir node index s =
     (if \<not> mounted (vol s) then Some (None, s)
      else do {
        r \<leftarrow> readdir_from (vn_inode node) index 0 0 (vol s);
        case r of
          None \<Rightarrow> Some (None, s)
        | Some e \<Rightarrow>
            (let d = \<lparr>vd_name = format_83 e, vd_inode = ucast (de_first_cluster e),
                      vd_flags = (if de_attributes e AND FAT16_ATTR_DIRECTORY \<noteq> 0 then VFS_DIR else VFS_FILE)\<rparr>
             in Some (Some d, s\<lparr>fat16_dirent_buf := d\<rparr>)) })"

definition node_of :: "u32 \<Rightarrow> nat \<Rightarrow> fat16_direntry \<Rightarrow> vfs_node" where
  "node_of lba i e =
     (if de_attributes e AND FAT16_ATTR_DIRECTORY \<noteq> 0
      then \<lparr>vn_name = format_83 e, vn_flags = VFS_DIR, vn_size = 0, vn_inode = ucast (de_first_cluster e),
            vn_ops = fat16_dir_ops, vn_dir_lba = lba, vn_dir_index = of_nat i\<rparr>
      else \<lparr>vn_name = format_83 e, vn_flags = VFS_FILE, vn_size = de_file_size e,
            vn_inode = ucast (de_first_cluster e), vn_ops = fat16_file_ops, vn_dir_lba = lba,
            vn_dir_index = of_nat i\<rparr>)"

text \<open>The address of the new node, or 0.\<close>

definition fat16_vfs_finddir :: "vfs_node \<Rightarrow> bytes \<Rightarrow> fs \<Rightarrow> (u32 \<times> fs) option" where
  "fat16_vfs_finddir node name s =
     (if \<not> mounted (vol s) then Some (0, s)
      else do {
        r \<leftarrow> find_from (vn_inode node) name 0 (vol s);
        case r of
          None \<Rightarrow> Some (0, s)
        | Some (lba, i, e) \<Rightarrow> do {
            (n, s) \<leftarrow> fs_kmalloc sizeof_vfs_node s;
            if n = 0 then Some (0, s)
            else Some (n, s\<lparr>nodes := (nodes s)(n := node_of lba i e)\<rparr>) } })"

definition fat16_vfs_close :: "u32 \<Rightarrow> fs \<Rightarrow> fs" where
  "fat16_vfs_close node s = fs_kfree node s"

text \<open>The first sector of a new directory: the entries \<open>.\<close> and \<open>..\<close>.\<close>

definition dot_entry :: "bytes \<Rightarrow> u16 \<Rightarrow> fat16_direntry" where
  "dot_entry name cluster = \<lparr>de_name = name, de_ext = replicate 3 0x20,
     de_attributes = FAT16_ATTR_DIRECTORY, de_first_cluster = cluster, de_file_size = 0\<rparr>"

definition dot_sector :: "u16 \<Rightarrow> u16 \<Rightarrow> sector" where
  "dot_sector cluster parent =
     put_direntry 1 (dot_entry (0x2E # 0x2E # replicate 6 0x20) parent)
       (put_direntry 0 (dot_entry (0x2E # replicate 7 0x20) cluster) (\<lambda>_. 0))"

fun zero_sectors :: "u32 \<Rightarrow> nat \<Rightarrow> nat \<Rightarrow> fat \<Rightarrow> fat" where
  "zero_sectors lba i 0 st = st"
| "zero_sectors lba i (Suc n) st = zero_sectors lba (i + 1) n (write_sector (lba + of_nat i) (\<lambda>_. 0) st)"

text \<open>What \<open>fat16_vfs_create\<close> does on the volume before it looks the new entry up; False when it gives up.\<close>

definition create_entry :: "vfs_node \<Rightarrow> bytes \<Rightarrow> u32 \<Rightarrow> fat \<Rightarrow> (bool \<times> fat) option" where
  "create_entry node name flags st =
     (if flags AND VFS_DIR \<noteq> 0
      then (let (cluster, st) = fat_alloc_cluster st in
        if cluster = 0 then Some (False, st)
        else (let lba = cluster_lba cluster st;
                  st = zero_sectors lba 0 (unat (sectors_per_cluster (bpb st))) st;
                  st = write_sector lba (dot_sector cluster (ucast (vn_inode node))) st
          in do {
            (ok, st) \<leftarrow> fat16_write_dir_entry (vn_inode node) name cluster 0 FAT16_ATTR_DIRECTORY st;
            if ok then Some (True, st)
            else do { st \<leftarrow> fat_free_chain cluster st; Some (False, st) } }))
      else fat16_write_dir_entry (vn_inode node) name 0 0 FAT16_ATTR_ARCHIVE st)"

definition fat16_vfs_create :: "vfs_node \<Rightarrow> bytes \<Rightarrow> u32 \<Rightarrow> fs \<Rightarrow> (u32 \<times> fs) option" where
  "fat16_vfs_create node name flags s =
     (if \<not> mounted (vol s) then Some (0, s)
      else do {
        (ok, st) \<leftarrow> create_entry node name flags (vol s);
        if ok then fat16_vfs_finddir node name (s\<lparr>vol := st\<rparr>) else Some (0, s\<lparr>vol := st\<rparr>) })"

section \<open>Writing\<close>

text \<open>
  Following \<open>n\<close> links from \<open>cluster\<close>, with a new cluster wherever the chain ends; the flag is false when
  the volume is full.
\<close>

fun walk_extend :: "nat \<Rightarrow> u16 \<Rightarrow> fat \<Rightarrow> bool \<times> u16 \<times> fat" where
  "walk_extend 0 cluster st = (True, cluster, st)"
| "walk_extend (Suc n) cluster st =
     (let nxt = fat_entry cluster st in
      if nxt < 2 \<or> nxt \<ge> FAT16_CLUSTER_EOF_LO
      then (let (nc, st) = fat_alloc_cluster st in
        if nc = 0 then (False, cluster, st)
        else walk_extend n nc (fat_set_entry cluster nc st))
      else walk_extend n nxt st)"

definition patch :: "sector \<Rightarrow> nat \<Rightarrow> bytes \<Rightarrow> sector" where
  "patch cbuf i data = (\<lambda>k. if i \<le> k \<and> k < i + length data then data ! (k - i) else cbuf k)"

partial_function (option) write_loop ::
    "u16 \<Rightarrow> u32 \<Rightarrow> u32 \<Rightarrow> bytes \<Rightarrow> u32 \<Rightarrow> u32 \<Rightarrow> sector \<Rightarrow> fat \<Rightarrow> (u32 \<times> fat) option" where
  "write_loop inode offset sz buf cluster_bytes bytes_written cbuf st =
     (if bytes_written < sz
      then (let cur_off = offset + bytes_written;
                cluster_idx = cur_off div cluster_bytes;
                inner_off = cur_off mod cluster_bytes;
                (ok, cluster, st) = walk_extend (unat cluster_idx) inode st
            in if \<not> ok then Some (bytes_written, st)
               else (let cbuf = read_cluster cluster st cbuf;
                         avail = cluster_bytes - inner_off;
                         copy = sz - bytes_written;
                         copy = (if copy > avail then avail else copy);
                         cbuf = patch cbuf (unat inner_off) (take (unat copy) (drop (unat bytes_written) buf));
                         st = write_sectors (cluster_lba cluster st) 0 (unat (sectors_per_cluster (bpb st))) cbuf st
                     in write_loop inode offset sz buf cluster_bytes (bytes_written + copy) cbuf st))
      else Some (bytes_written, st))"

definition update_direntry :: "nat \<Rightarrow> u16 \<Rightarrow> u32 \<Rightarrow> sector \<Rightarrow> sector" where
  "update_direntry i cluster sz b = set_le32 (32 * i + 0x1C) sz (set_le16 (32 * i + 0x1A) cluster b)"

text \<open>
  The node is updated in place: the result carries it. \<open>buf\<close> holds at least \<open>sz\<close> bytes.
\<close>

definition fat16_vfs_write :: "vfs_node \<Rightarrow> u32 \<Rightarrow> u32 \<Rightarrow> bytes \<Rightarrow> fs \<Rightarrow> (int \<times> vfs_node \<times> fs) option" where
  "fat16_vfs_write node offset sz buf s =
     (if \<not> mounted (vol s) \<or> sz = 0 then Some (0, node, s)
      else (let cluster_bytes = ucast (sectors_per_cluster (bpb (vol s))) * 512;
                (c, st) = (if (ucast (vn_inode node) :: u16) < 2 then fat_alloc_cluster (vol s)
                           else (ucast (vn_inode node), vol s));
                s = s\<lparr>vol := st\<rparr>
        in if (ucast (vn_inode node) :: u16) < 2 \<and> c = 0 then Some (-1, node, s)
           else (let node = (if (ucast (vn_inode node) :: u16) < 2 then node\<lparr>vn_inode := ucast c\<rparr> else node) in do {
             (cbuf, s) \<leftarrow> fs_kmalloc cluster_bytes s;
             if cbuf = 0 then Some (-1, node, s)
             else if cluster_bytes = 0 then None
             else do {
               (n, st) \<leftarrow> write_loop (ucast (vn_inode node)) offset sz buf cluster_bytes 0 (heap_buffer cbuf s) (vol s);
               let s = fs_kfree cbuf (s\<lparr>vol := st\<rparr>);
               let new_size = offset + n;
               let node = (if new_size > vn_size node then node\<lparr>vn_size := new_size\<rparr> else node);
               let dsec = read_sector (vn_dir_lba node) (vol s);
               let dsec = update_direntry (unat (vn_dir_index node)) (ucast (vn_inode node)) (vn_size node) dsec;
               Some (sint n, node, s\<lparr>vol := write_sector (vn_dir_lba node) dsec (vol s)\<rparr>) } })))"

section \<open>The contents of a file\<close>

abbreviation cbytes :: "fat \<Rightarrow> nat" where
  "cbytes st \<equiv> 512 * spc st"

text \<open>Byte \<open>k\<close> of the file whose clusters are \<open>cs\<close>.\<close>

definition file_byte :: "fat \<Rightarrow> u16 list \<Rightarrow> nat \<Rightarrow> u8" where
  "file_byte st cs k =
     read_sector (cluster_lba (cs ! (k div cbytes st)) st + of_nat (k mod cbytes st div 512)) st (k mod cbytes st mod 512)"

definition file_data :: "fat \<Rightarrow> u16 list \<Rightarrow> bytes" where
  "file_data st cs = map (file_byte st cs) [0..<cbytes st * length cs]"

lemma file_data_slice:
  "p + n \<le> cbytes st * length cs \<Longrightarrow> take n (drop p (file_data st cs)) = map (file_byte st cs) [p..<p + n]"
  by (simp add: file_data_def drop_map take_map drop_upt take_upt)

lemma position_div_mod: "i < m \<Longrightarrow> (m * q + i) div m = q" "i < m \<Longrightarrow> (m * q + i) mod m = i" for m :: nat
  by simp_all

lemma unat_cluster_bytes [simp]: "unat (ucast (sectors_per_cluster (bpb st)) * 512 :: u32) = cbytes st"
proof -
  have "spc st * 512 < 4294967296" using unat_u8_le [of "sectors_per_cluster (bpb st)"] by linarith
  then show ?thesis using unat_mult_u32 [of "ucast (sectors_per_cluster (bpb st))" 512] by simp
qed

lemma cbytes_le: "cbytes st \<le> 130560"
proof -
  have "512 * spc st \<le> 512 * 255" by (intro mult_le_mono2) simp
  then show ?thesis by simp
qed

lemma read_cluster_file:
  "k < cbytes st \<Longrightarrow> read_cluster (cs ! q) st buf k = file_byte st cs (cbytes st * q + k)"
  by (simp add: read_cluster_spec file_byte_def position_div_mod)

lemma copy_bytes_cluster:
  assumes "unat start + unat n \<le> cbytes st"
  shows "copy_bytes (read_cluster (cs ! q) st buf) start n =
    map (file_byte st cs) [cbytes st * q + unat start..<cbytes st * q + unat start + unat n]"
  unfolding copy_bytes_def
  by (rule nth_equalityI) (use assms in \<open>simp_all add: read_cluster_file add.assoc\<close>)

lemma read_loop_spec:
  assumes cb: "unat cluster_bytes = cbytes st" "0 < spc st"
    and big: "unat sz + cbytes st < 4294967296"
  shows "chain (\<lambda>c. fat_entry c st) cluster ds \<Longrightarrow> ds = drop q cs \<Longrightarrow> q + length ds = length cs \<Longrightarrow>
    unat start < cbytes st \<Longrightarrow> start = (if first then inner_off else 0) \<Longrightarrow> bytes_read \<le> sz \<Longrightarrow>
    n = min (unat sz - unat bytes_read) (cbytes st * length cs - (cbytes st * q + unat start)) \<Longrightarrow>
    read_loop sz cluster_bytes inner_off first cluster bytes_read out buf st =
      Some (of_nat (unat bytes_read + n), out @ map (file_byte st cs) [cbytes st * q + unat start..<cbytes st * q + unat start + n])"
proof (induction ds arbitrary: cluster q start first bytes_read out buf n)
  case Nil
  then have "n = 0" "FAT16_CLUSTER_EOF_LO \<le> cluster" by simp_all
  then show ?case by (simp add: read_loop.simps [of _ _ _ _ cluster] not_less [symmetric])
next
  case (Cons x xs)
  have x: "cluster = x" "2 \<le> x" "x < FAT16_CLUSTER_EOF_LO" "chain (\<lambda>c. fat_entry c st) (fat_entry x st) xs"
    using Cons.prems(1) by simp_all
  have q: "q < length cs" "cs ! q = x" using Cons.prems(3) nth_via_drop [OF Cons.prems(2) [symmetric]] by simp_all
  have tl: "xs = drop (Suc q) cs" "Suc q + length xs = length cs"
    using arg_cong [OF Cons.prems(2), of tl] Cons.prems(3) by (simp_all add: drop_Suc drop_tl)
  show ?case
  proof (cases "bytes_read < sz")
    case False
    then have "bytes_read = sz" using Cons.prems(6) by simp
    then show ?thesis using Cons.prems(7) by (simp add: read_loop.simps [of sz])
  next
    case True
    define avail where "avail = cluster_bytes - start"
    define copy where "copy = (if bytes_read + avail > sz then sz - bytes_read else avail)"
    have av: "unat avail = cbytes st - unat start" using Cons.prems(4) cb(1)
      by (simp add: avail_def unat_sub_if' word_le_nat_alt)
    have br: "unat bytes_read < unat sz" using True by (simp add: word_less_nat_alt)
    have sum: "unat (bytes_read + avail) = unat bytes_read + unat avail"
      using br big av by (intro unat_add_u32) linarith
    have cp: "unat copy = min (unat sz - unat bytes_read) (cbytes st - unat start)"
      using br av sum True by (auto simp: copy_def word_less_nat_alt unat_sub_if' word_le_nat_alt min_def)
    have nb: "unat (bytes_read + copy) = unat bytes_read + unat copy"
      using cp br by (intro unat_add_u32) (use unat_lt_2p32 [of sz] in linarith)
    have step: "read_loop sz cluster_bytes inner_off first cluster bytes_read out buf st =
        read_loop sz cluster_bytes inner_off False (fat_entry x st) (bytes_read + copy)
          (out @ copy_bytes (read_cluster x st buf) start copy) (read_cluster x st buf) st"
      using True x Cons.prems(5) by (simp add: read_loop.simps [of sz _ _ first] Let_def avail_def copy_def)
    define n' where "n' = min (unat sz - unat (bytes_read + copy)) (cbytes st * length cs - cbytes st * Suc q)"
    have IH: "read_loop sz cluster_bytes inner_off False (fat_entry x st) (bytes_read + copy)
          (out @ copy_bytes (read_cluster x st buf) start copy) (read_cluster x st buf) st =
        Some (of_nat (unat (bytes_read + copy) + n'), (out @ copy_bytes (read_cluster x st buf) start copy)
          @ map (file_byte st cs) [cbytes st * Suc q + unat (0 :: u32)..<cbytes st * Suc q + unat (0 :: u32) + n'])"
    proof (rule Cons.IH [OF x(4) tl])
      show "unat (0 :: u32) < cbytes st" using cb(2) by simp
      show "bytes_read + copy \<le> sz" using nb cp br by (simp add: word_le_nat_alt)
    qed (simp_all add: n'_def)
    have cl: "copy_bytes (read_cluster x st buf) start copy =
        map (file_byte st cs) [cbytes st * q + unat start..<cbytes st * q + unat start + unat copy]"
      using copy_bytes_cluster [of start copy st cs q buf] q(2) cp Cons.prems(4) by simp
    have L: "cbytes st * Suc q \<le> cbytes st * length cs" using q(1) by (intro mult_le_mono2) simp
    have nn: "n = unat copy + n'"
      using Cons.prems(4,7) cp nb br L unfolding n'_def by (simp add: min_def algebra_simps split: if_splits)
    have tail: "map (file_byte st cs) [cbytes st * Suc q..<cbytes st * Suc q + n'] =
        map (file_byte st cs) [cbytes st * q + unat start + unat copy..<cbytes st * q + unat start + n]"
    proof (cases "n' = 0")
      case True
      then show ?thesis using nn by simp
    next
      case False
      then have "unat copy = cbytes st - unat start" using cp nb unfolding n'_def by (simp add: min_def split: if_splits)
      then have e: "cbytes st * q + unat start + unat copy = cbytes st * Suc q" using Cons.prems(4) by simp
      then have "cbytes st * q + unat start + n = cbytes st * Suc q + n'" using nn by simp
      then show ?thesis by (simp only: e)
    qed
    have "[cbytes st * q + unat start..<cbytes st * q + unat start + n] =
        [cbytes st * q + unat start..<cbytes st * q + unat start + unat copy] @
        [cbytes st * q + unat start + unat copy..<cbytes st * q + unat start + n]"
      using upt_add_eq_append [of "cbytes st * q + unat start" "cbytes st * q + unat start + unat copy" n'] nn
      by (simp add: add.assoc)
    then show ?thesis unfolding step IH using nb nn tail cl by (simp add: add.assoc)
  qed
qed


text \<open>
  A file as the code walks it: its chain, with an entry in the table for every cluster.
\<close>

definition file_chain :: "fat \<Rightarrow> u16 \<Rightarrow> u16 list \<Rightarrow> bool" where
  "file_chain st c cs \<longleftrightarrow> chain (\<lambda>x. fat_entry x st) c cs \<and> (\<forall>x \<in> set cs. in_table st x)"

lemma read_spec:
  assumes m: "mounted (vol s)" "0 < spc (vol s)"
    and ch: "chain (\<lambda>x. fat_entry x (vol s)) (ucast (vn_inode node)) cs"
    and sz: "unat (vn_size node) \<le> cbytes (vol s) * length cs" "unat (vn_size node) + cbytes (vol s) < 4294967296"
    and off: "offset < vn_size node"
    and km: "fs_kmalloc (ucast (sectors_per_cluster (bpb (vol s))) * 512) s = Some (p, s1)" "p \<noteq> 0"
    and n: "n = min (unat sz) (unat (vn_size node) - unat offset)"
  shows "fat16_vfs_read node offset sz s = Some (sint (of_nat n :: u32),
    take n (drop (unat offset) (file_data (vol s) cs)), fs_kfree p s1)"
proof -
  define st where "st = vol s"
  define cb :: u32 where "cb = ucast (sectors_per_cluster (bpb st)) * 512"
  define sz' where "sz' = (if sz > vn_size node - offset then vn_size node - offset else sz)"
  have ucb: "unat cb = cbytes st" by (simp add: cb_def)
  have cb0: "cb \<noteq> 0" using ucb m(2) by (auto simp: st_def)
  have o: "unat offset < unat (vn_size node)" using off by (simp add: word_less_nat_alt)
  have us: "unat sz' = n" using o n unfolding sz'_def
    by (auto simp: word_less_nat_alt unat_sub_if' word_le_nat_alt min_def)
  have nb: "unat offset + n \<le> unat (vn_size node)" using n o by simp
  define q where "q = unat offset div cbytes st"
  define i where "i = unat offset mod cbytes st"
  have qi: "unat offset = cbytes st * q + i" "i < cbytes st" using m(2) by (simp_all add: q_def i_def st_def)
  have uq: "unat (offset div cb) = q" "unat (offset mod cb) = i" by (simp_all add: unat_div unat_mod ucb q_def i_def)
  have ql: "q < length cs"
    unfolding q_def using o sz(1) by (intro less_mult_imp_div_less) (simp add: st_def mult.commute)
  have sk: "skip_clusters q (ucast (vn_inode node)) st = Some (cs ! q)"
    using ch ql unfolding st_def by (rule skip_clusters_chain)
  have s1: "vol s1 = st" using km(1) by (auto simp: fs_kmalloc_def st_def)
  have rl: "read_loop sz' cb (offset mod cb) True (cs ! q) 0 [] (heap_buffer p s1) st =
      Some (of_nat (unat (0 :: u32) + n), [] @ map (file_byte st cs) [cbytes st * q + unat (offset mod cb)..<cbytes st * q + unat (offset mod cb) + n])"
  proof (rule read_loop_spec [OF ucb])
    show "0 < spc st" using m(2) by (simp add: st_def)
    show "unat sz' + cbytes st < 4294967296" using us nb sz(2) by (simp add: st_def)
    show "chain (\<lambda>c. fat_entry c st) (cs ! q) (drop q cs)" using chain_drop [OF ch ql] by (simp add: st_def)
    show "q + length (drop q cs) = length cs" using ql by simp
    show "unat (offset mod cb) < cbytes st" using uq qi by simp
    show "n = min (unat sz' - unat (0 :: u32)) (cbytes st * length cs - (cbytes st * q + unat (offset mod cb)))"
      using us uq qi(1) nb sz(1) by (simp add: st_def)
  qed simp_all
  have slice: "map (file_byte st cs) [cbytes st * q + i..<cbytes st * q + i + n] = take n (drop (unat offset) (file_data st cs))"
    using nb sz(1) qi(1) by (subst file_data_slice) (simp_all add: st_def)
  show ?thesis
    unfolding fat16_vfs_read_def Let_def st_def [symmetric] cb_def [symmetric] sz'_def [symmetric]
    using m(1) off km cb0 uq sk rl slice s1
    by (simp add: not_le [symmetric] st_def [symmetric] cb_def [symmetric])
qed

section \<open>Growing a file\<close>

text \<open>The constants of the volume are the same.\<close>

definition same_consts :: "fat \<Rightarrow> fat \<Rightarrow> bool" where
  "same_consts st st' \<longleftrightarrow> bpb st' = bpb st \<and> fat_lba st' = fat_lba st \<and> root_dir_lba st' = root_dir_lba st
     \<and> root_dir_sectors st' = root_dir_sectors st \<and> data_lba st' = data_lba st \<and> mounted st' = mounted st"

lemma same_consts_refl [simp]: "same_consts st st"
  by (simp add: same_consts_def)

lemma same_consts_trans: "same_consts a b \<Longrightarrow> same_consts b c \<Longrightarrow> same_consts a c"
  by (simp add: same_consts_def)

lemma same_consts_ops [simp]:
  "same_consts st (fat_set_entry c v st)" "same_consts st (write_sectors lba i n buf st)" "same_consts st (write_sector l b st)"
  by (simp_all add: same_consts_def frame_simps)

lemma same_consts_layout: "same_consts st st' \<Longrightarrow> layout st' = layout st"
  by (simp add: same_consts_def layout_def)

lemma same_consts_in_table: "same_consts st st' \<Longrightarrow> in_table st' c = in_table st c"
  by (simp add: same_consts_def in_table_def)

lemma same_consts_cluster: "same_consts st st' \<Longrightarrow> cluster_lba c st' = cluster_lba c st"
  by (simp add: same_consts_def cluster_lba_def)

text \<open>
  \<open>grown st cs st' cs'\<close>: the chain \<open>cs\<close> of \<open>st\<close> has become \<open>cs'\<close> in \<open>st'\<close> by linking clusters that were free behind
  it. No entry of another cluster has changed, and no sector outside the tables.
\<close>

definition grown :: "u16 \<Rightarrow> fat \<Rightarrow> u16 list \<Rightarrow> fat \<Rightarrow> u16 list \<Rightarrow> bool" where
  "grown c st cs st' cs' \<longleftrightarrow> same_consts st st' \<and> layout st' \<and> file_chain st' c cs'
     \<and> (\<exists>new. cs' = cs @ new \<and> (\<forall>x \<in> set new. fat_entry x st = 0))
     \<and> (\<forall>d. in_table st d \<longrightarrow> d \<notin> set cs' \<longrightarrow> fat_entry d st' = fat_entry d st)
     \<and> (\<forall>lba. unat (root_dir_lba st) \<le> unat (lba28 lba) \<longrightarrow> read_sector lba st' = read_sector lba st)"

lemma grown_refl: "layout st \<Longrightarrow> file_chain st c cs \<Longrightarrow> grown c st cs st cs"
  by (simp add: grown_def)

lemma grown_trans:
  assumes "grown c st cs st1 cs1" "grown c st1 cs1 st2 cs2"
  shows "grown c st cs st2 cs2"
proof -
  from assms(1) obtain new1 where n1: "cs1 = cs @ new1" "\<forall>x \<in> set new1. fat_entry x st = 0" by (auto simp: grown_def)
  from assms(2) obtain new2 where n2: "cs2 = cs1 @ new2" "\<forall>x \<in> set new2. fat_entry x st1 = 0" by (auto simp: grown_def)
  have it: "in_table st2 d = in_table st d" "in_table st1 d = in_table st d" for d
    using assms same_consts_in_table unfolding grown_def by metis+
  have "distinct cs2" using assms(2) chain_distinct by (auto simp: grown_def file_chain_def)
  then have "fat_entry x st = 0" if "x \<in> set new2" for x
  proof -
    have "x \<notin> set cs1" using that \<open>distinct cs2\<close> n2(1) by auto
    moreover have "in_table st x" using assms(2) that n2(1) it by (auto simp: grown_def file_chain_def)
    ultimately have "fat_entry x st1 = fat_entry x st" using assms(1) by (simp add: grown_def)
    then show ?thesis using n2(2) that by metis
  qed
  moreover have "root_dir_lba st1 = root_dir_lba st" using assms(1) by (simp add: grown_def same_consts_def)
  ultimately show ?thesis using assms n1 n2 it same_consts_trans unfolding grown_def by auto
qed

text \<open>The volume has no more clusters than numbers below the end-of-chain marks.\<close>

definition small_table :: "fat \<Rightarrow> bool" where
  "small_table st \<longleftrightarrow> unat (fat_size_16 (bpb st)) \<le> 255"

lemma small_table_lt: "small_table st \<Longrightarrow> in_table st c \<Longrightarrow> c < FAT16_CLUSTER_EOF_LO"
  by (simp add: small_table_def in_table_def FAT16_CLUSTER_EOF_LO_def word_less_nat_alt)

lemma file_chain_cut: "file_chain st c cs \<Longrightarrow> x \<in> set cs \<Longrightarrow> in_table st x \<and> 2 \<le> x"
  using chain_member by (auto simp: file_chain_def)

text \<open>One step: a free cluster is linked behind the last one.\<close>

lemma grown_step:
  assumes st: "layout st" "small_table st" "file_chain st c cs" "cs \<noteq> []"
    and a: "fat_alloc_cluster st = (nc, st1)" "nc \<noteq> 0"
  shows "grown c st cs (fat_set_entry (last cs) nc st1) (cs @ [nc])"
proof -
  have sz: "unat (fat_size_16 (bpb st)) \<le> 256" using st(2) by (simp add: small_table_def)
  have nc: "st1 = fat_set_entry nc 0xFFFF st" "in_table st nc" "2 \<le> nc" "fat_entry nc st = 0"
    by (rule alloc_cluster_cases [OF st(1) sz]; use a in auto)+
  have l: "in_table st (last cs)" using st(3,4) by (simp add: file_chain_def)
  have ch: "chain (\<lambda>y. fat_entry y (fat_set_entry (last cs) nc (fat_set_entry nc 0xFFFF st))) c (cs @ [nc])"
    using st nc small_table_lt [OF st(2) nc(2)] by (intro ft.chain_extend) (auto simp: file_chain_def)
  have lay: "layout (fat_set_entry nc 0xFFFF st)" "layout (fat_set_entry (last cs) nc (fat_set_entry nc 0xFFFF st))"
    using st(1) by (simp_all add: set_entry_layout)
  show ?thesis unfolding grown_def nc(1)
  proof (intro conjI allI impI)
    show "same_consts st (fat_set_entry (last cs) nc (fat_set_entry nc 0xFFFF st))"
      by (rule same_consts_trans [OF same_consts_ops(1) same_consts_ops(1)])
    show "layout (fat_set_entry (last cs) nc (fat_set_entry nc 0xFFFF st))" by (rule lay)
    show "file_chain (fat_set_entry (last cs) nc (fat_set_entry nc 0xFFFF st)) c (cs @ [nc])"
      using ch nc(2) st(3) by (auto simp: file_chain_def)
    show "\<exists>new. cs @ [nc] = cs @ new \<and> (\<forall>x \<in> set new. fat_entry x st = 0)" using nc(4) by auto
    show "fat_entry d (fat_set_entry (last cs) nc (fat_set_entry nc 0xFFFF st)) = fat_entry d st"
      if "in_table st d" "d \<notin> set (cs @ [nc])" for d
      using that nc(2) l st(4) lay st(1) by (auto simp: fat_entry_set)
    show "read_sector lba (fat_set_entry (last cs) nc (fat_set_entry nc 0xFFFF st)) = read_sector lba st"
      if "unat (root_dir_lba st) \<le> unat (lba28 lba)" for lba
      using that nc(2) l lay st(1) by (simp add: set_entry_read frame_simps)
  qed
qed

lemma grown_chain: "grown c st cs st' cs' \<Longrightarrow> file_chain st' c cs' \<and> layout st' \<and> small_table st' = small_table st \<and> same_consts st st'"
  by (auto simp: grown_def small_table_def same_consts_def)

lemma grown_prefix: "grown c st cs st' cs' \<Longrightarrow> i < length cs \<Longrightarrow> i < length cs' \<and> cs' ! i = cs ! i"
  by (auto simp: grown_def nth_append)

lemma walk_extend_spec:
  assumes "layout st" "small_table st" "file_chain st c cs" "i < length cs"
    and w: "walk_extend n (cs ! i) st = (ok, cl, st')"
  shows "\<exists>cs'. grown c st cs st' cs' \<and> (ok \<longrightarrow> i + n < length cs' \<and> cs' ! (i + n) = cl)
    \<and> (i + n < length cs \<longrightarrow> ok \<and> st' = st \<and> cs' = cs)
    \<and> (\<not> ok \<longrightarrow> (\<forall>d. in_table st' d \<longrightarrow> 2 \<le> d \<longrightarrow> fat_entry d st' \<noteq> 0))"
  using assms
proof (induction n arbitrary: st cs i)
  case 0
  then show ?case using grown_refl [of st c cs] by (intro exI [of _ cs]) auto
next
  case (Suc n)
  note ch = Suc.prems(3) [unfolded file_chain_def, THEN conjunct1]
  show ?case
  proof (cases "Suc i < length cs")
    case True
    have e: "fat_entry (cs ! i) st = cs ! Suc i" using chain_step [OF ch True] .
    have b: "\<not> cs ! Suc i < 2" "\<not> FAT16_CLUSTER_EOF_LO \<le> cs ! Suc i"
      using chain_member [OF ch, of "cs ! Suc i"] True by (simp_all add: not_less not_le)
    have "walk_extend n (cs ! Suc i) st = (ok, cl, st')" using Suc.prems(5) e b by simp
    then show ?thesis using Suc.IH [OF Suc.prems(1-3) True] by simp
  next
    case False
    then have i: "i = length cs - 1" "cs \<noteq> []" using Suc.prems(4) by auto
    then have la: "cs ! i = last cs" by (simp add: last_conv_nth)
    have e: "FAT16_CLUSTER_EOF_LO \<le> fat_entry (cs ! i) st" using chain_last [OF ch i(2)] by (simp add: la)
    obtain nc st1 where a: "fat_alloc_cluster st = (nc, st1)" by (cases "fat_alloc_cluster st")
    show ?thesis
    proof (cases "nc = 0")
      case True
      have sz: "unat (fat_size_16 (bpb st)) \<le> 256" using Suc.prems(2) by (simp add: small_table_def)
      have "st1 = st" and full: "\<And>d. in_table st d \<Longrightarrow> 2 \<le> d \<Longrightarrow> fat_entry d st \<noteq> 0"
        by (rule alloc_cluster_cases [OF Suc.prems(1) sz]; use a True in auto)+
      then have "\<not> ok" "st' = st" using Suc.prems(5) e a True by auto
      then show ?thesis using grown_refl [OF Suc.prems(1,3)] i full by (intro exI [of _ cs]) auto
    next
      case nz: False
      define st2 where "st2 = fat_set_entry (last cs) nc st1"
      have g: "grown c st cs st2 (cs @ [nc])"
        unfolding st2_def by (rule grown_step [OF Suc.prems(1-3) i(2) a nz])
      have "walk_extend n nc st2 = (ok, cl, st')"
        using Suc.prems(5) e a nz by (simp add: st2_def flip: la)
      moreover have "(cs @ [nc]) ! Suc i = nc" using i by (simp add: nth_append)
      ultimately have w: "walk_extend n ((cs @ [nc]) ! Suc i) st2 = (ok, cl, st')" by simp
      obtain cs' where g': "grown c st2 (cs @ [nc]) st' cs'"
        and o: "ok \<longrightarrow> Suc i + n < length cs' \<and> cs' ! (Suc i + n) = cl"
        and full: "\<not> ok \<longrightarrow> (\<forall>d. in_table st' d \<longrightarrow> 2 \<le> d \<longrightarrow> fat_entry d st' \<noteq> 0)"
        using Suc.IH [OF _ _ _ _ w] grown_chain [OF g] Suc.prems(2) i Suc.prems(4) by auto
      have "\<not> i + Suc n < length cs" using False by simp
      moreover have "ok \<longrightarrow> i + Suc n < length cs' \<and> cs' ! (i + Suc n) = cl" using o by simp
      ultimately show ?thesis using grown_trans [OF g g'] full by blast
    qed
  qed
qed


section \<open>Writing into a cluster\<close>

text \<open>Sectors of the data area that belong to no cluster of \<open>cs\<close>.\<close>

definition foreign :: "fat \<Rightarrow> u16 list \<Rightarrow> u32 \<Rightarrow> bool" where
  "foreign st cs lba \<longleftrightarrow> unat (root_dir_lba st) \<le> unat (lba28 lba)
     \<and> (\<forall>c \<in> set cs. \<forall>i < spc st. lba28 lba \<noteq> cluster_lba c st + of_nat i)"

lemma cluster_write_drive:
  assumes "layout st" "2 \<le> c"
  shows "drive (write_sectors (cluster_lba c st) 0 (spc st) buf st) a =
    (if unat (cluster_lba c st) \<le> unat a \<and> unat a < unat (cluster_lba c st) + spc st
     then (\<lambda>k. buf ((unat a - unat (cluster_lba c st)) * 512 + k)) else drive st a)"
  using unat_cluster_lba(2) [OF assms] by (subst write_sectors_drive) simp_all

lemma cluster_write_sector:
  assumes "layout st" "2 \<le> c" "2 \<le> d" "j < spc st"
  shows "read_sector (cluster_lba d st + of_nat j) (write_sectors (cluster_lba c st) 0 (spc st) buf st) =
    (if d = c then (\<lambda>k. buf (j * 512 + k)) else read_sector (cluster_lba d st + of_nat j) st)"
proof -
  have u: "unat (cluster_lba d st + of_nat j) = unat (data_lba st) + (unat d - 2) * spc st + j"
    and l: "lba28 (cluster_lba d st + of_nat j) = cluster_lba d st + of_nat j"
    using cluster_sector [OF assms(1,3,4)] by simp_all
  have c: "unat (cluster_lba c st) = unat (data_lba st) + (unat c - 2) * spc st"
    by (rule unat_cluster_lba [OF assms(1,2)])
  have "unat (cluster_lba c st) \<le> unat (cluster_lba d st + of_nat j)
      \<and> unat (cluster_lba d st + of_nat j) < unat (cluster_lba c st) + spc st \<longleftrightarrow> d = c"
  proof
    assume a: "unat (cluster_lba c st) \<le> unat (cluster_lba d st + of_nat j)
      \<and> unat (cluster_lba d st + of_nat j) < unat (cluster_lba c st) + spc st"
    define i where "i = (unat d - 2) * spc st + j - (unat c - 2) * spc st"
    have i: "i < spc st" "(unat d - 2) * spc st + j = (unat c - 2) * spc st + i"
      using a unfolding u c i_def by linarith+
    then have "unat (cluster_lba c st + of_nat i) = unat (cluster_lba d st + of_nat j)"
      using cluster_sector(1) [OF assms(1,2) i(1)] u by simp
    then have "cluster_lba c st + of_nat i = cluster_lba d st + of_nat j" by (simp add: u32_eq_iff)
    then show "d = c" using cluster_sector_inj [OF assms(1,2) i(1) assms(3,4)] by simp
  next
    assume "d = c"
    then show "unat (cluster_lba c st) \<le> unat (cluster_lba d st + of_nat j)
      \<and> unat (cluster_lba d st + of_nat j) < unat (cluster_lba c st) + spc st"
      using u c assms(4) by simp
  qed
  then show ?thesis using cluster_write_drive [OF assms(1,2)] u c by (auto simp: read_sector_def l)
qed

lemma cluster_write_foreign:
  assumes "layout st" "2 \<le> c" "c \<in> set cs" "foreign st cs lba"
  shows "read_sector lba (write_sectors (cluster_lba c st) 0 (spc st) buf st) = read_sector lba st"
proof -
  have "\<not> (unat (cluster_lba c st) \<le> unat (lba28 lba) \<and> unat (lba28 lba) < unat (cluster_lba c st) + spc st)"
  proof
    assume a: "unat (cluster_lba c st) \<le> unat (lba28 lba) \<and> unat (lba28 lba) < unat (cluster_lba c st) + spc st"
    define i where "i = unat (lba28 lba) - unat (cluster_lba c st)"
    have i: "i < spc st" "unat (lba28 lba) = unat (cluster_lba c st) + i" using a unfolding i_def by linarith+
    have "unat (cluster_lba c st + of_nat i) = unat (lba28 lba)"
      using cluster_sector(1) [OF assms(1,2) i(1)] unat_cluster_lba(1) [OF assms(1,2)] i(2) by simp
    then have "lba28 lba = cluster_lba c st + of_nat i" by (simp add: u32_eq_iff)
    then show False using assms(3,4) i(1) by (auto simp: foreign_def)
  qed
  then show ?thesis by (auto simp: read_sector_def cluster_write_drive [OF assms(1,2)])
qed

text \<open>The tables are not in the data area.\<close>

lemma cluster_write_entry:
  assumes "layout st" "2 \<le> c" "in_table st d"
  shows "fat_entry d (write_sectors (cluster_lba c st) 0 (spc st) buf st) = fat_entry d st"
proof -
  have s: "unat (fat_sector d st) < unat (root_dir_lba st)"
    using layout_bounds(5) [OF assms(1)] in_table_div [OF assms(3)] unat_fat_sector(1) [OF assms(1), of d] by simp
  have "unat (root_dir_lba st) \<le> unat (cluster_lba c st)"
    using unat_cluster_lba(1) [OF assms(1,2)] assms(1) by (simp add: layout_def)
  then have "drive (write_sectors (cluster_lba c st) 0 (spc st) buf st) (fat_sector d st) = drive st (fat_sector d st)"
    using s cluster_write_drive [OF assms(1,2)] by simp
  moreover have "fat_sector d (write_sectors (cluster_lba c st) 0 (spc st) buf st) = fat_sector d st"
    by (simp add: fat_sector_def frame_simps)
  ultimately show ?thesis
    using assms(1) by (simp add: fat_entry_alt write_sectors_layout)
qed

lemma cluster_lba_write: "cluster_lba d (write_sectors lba i n buf st) = cluster_lba d st"
  by (simp add: cluster_lba_def frame_simps)

text \<open>The bytes of a file after one of its clusters was written.\<close>

lemma cluster_write_file:
  assumes "layout st" "file_chain st c cs" "q < length cs" "k < cbytes st * length cs" "0 < spc st"
  shows "file_byte (write_sectors (cluster_lba (cs ! q) st) 0 (spc st) buf st) cs k =
    (if k div cbytes st = q then buf (k mod cbytes st) else file_byte st cs k)"
proof -
  define j where "j = k mod cbytes st div 512"
  have kd: "k div cbytes st < length cs" using assms(4) by (intro less_mult_imp_div_less) (simp add: mult.commute)
  have j: "j < spc st" unfolding j_def using assms(5)
    by (intro less_mult_imp_div_less) (simp add: mult.commute)
  have ge: "2 \<le> cs ! i" if "i < length cs" for i
    using chain_member assms(2) that by (auto simp: file_chain_def)
  have di: "cs ! (k div cbytes st) = cs ! q \<longleftrightarrow> k div cbytes st = q"
    using chain_distinct assms(2,3) kd by (auto simp: file_chain_def nth_eq_iff_index_eq)
  have "j * 512 + k mod cbytes st mod 512 = k mod cbytes st" by (simp add: j_def)
  then show ?thesis
    using cluster_write_sector [OF assms(1) ge [OF assms(3)] ge [OF kd] j, of buf] di
    by (simp add: file_byte_def frame_simps cluster_lba_write j_def [symmetric])
qed


section \<open>The writing loop\<close>

text \<open>
  \<open>wrote c st cs st' cs' lo hi off buf\<close>: the bytes \<open>lo\<close> to \<open>hi\<close> of the file are those of \<open>buf\<close>, which starts at
  byte \<open>off\<close> of the file; the file's other old bytes, the entries of other clusters and the sectors
  that belong to no cluster of the file are as before.
\<close>

definition wrote :: "u16 \<Rightarrow> fat \<Rightarrow> u16 list \<Rightarrow> fat \<Rightarrow> u16 list \<Rightarrow> nat \<Rightarrow> nat \<Rightarrow> nat \<Rightarrow> bytes \<Rightarrow> bool" where
  "wrote c st cs st' cs' lo hi off buf \<longleftrightarrow> same_consts st st' \<and> layout st' \<and> file_chain st' c cs'
     \<and> (\<exists>new. cs' = cs @ new \<and> (\<forall>x \<in> set new. fat_entry x st = 0))
     \<and> (\<forall>d. in_table st d \<longrightarrow> d \<notin> set cs' \<longrightarrow> fat_entry d st' = fat_entry d st)
     \<and> (\<forall>lba. foreign st cs' lba \<longrightarrow> read_sector lba st' = read_sector lba st)
     \<and> (lo < hi \<longrightarrow> hi \<le> cbytes st * length cs')
     \<and> (\<forall>k. lo \<le> k \<and> k < hi \<longrightarrow> file_byte st' cs' k = buf ! (k - off))
     \<and> (\<forall>k < cbytes st * length cs. \<not> (lo \<le> k \<and> k < hi) \<longrightarrow> file_byte st' cs' k = file_byte st cs k)"

lemma foreign_consts: "same_consts st st' \<Longrightarrow> foreign st' cs lba = foreign st cs lba"
  by (simp add: foreign_def same_consts_cluster) (simp add: same_consts_def)

lemma foreign_mono: "foreign st (cs @ new) lba \<Longrightarrow> foreign st cs lba"
  by (simp add: foreign_def)

lemma grown_file_byte:
  assumes "grown c st cs st' cs'" "k < cbytes st * length cs" "0 < spc st" "layout st" "file_chain st c cs"
  shows "file_byte st' cs' k = file_byte st cs k"
proof -
  have kd: "k div cbytes st < length cs" using assms(2) by (intro less_mult_imp_div_less) (simp add: mult.commute)
  have j: "k mod cbytes st div 512 < spc st" using assms(3)
    by (intro less_mult_imp_div_less) (simp add: mult.commute)
  have n: "cs' ! (k div cbytes st) = cs ! (k div cbytes st)" using grown_prefix [OF assms(1) kd] by simp
  have sc: "same_consts st st'" using assms(1) by (simp add: grown_def)
  have c: "2 \<le> cs ! (k div cbytes st)" using file_chain_cut [OF assms(5)] kd by simp
  define l where "l = cluster_lba (cs ! (k div cbytes st)) st + of_nat (k mod cbytes st div 512)"
  have "unat (root_dir_lba st) \<le> unat (lba28 l)"
    using cluster_sector [OF assms(4) c j] assms(4) by (simp add: l_def layout_def)
  then have r: "read_sector l st' = read_sector l st" using assms(1) by (simp add: grown_def)
  have b: "spc st' = spc st" using sc by (simp add: same_consts_def)
  show ?thesis using r n same_consts_cluster [OF sc, of "cs ! (k div cbytes st)"]
    by (simp add: file_byte_def b l_def)
qed

lemma grown_wrote:
  assumes "grown c st cs st' cs'" "0 < spc st" "layout st" "file_chain st c cs"
  shows "wrote c st cs st' cs' lo lo off buf"
  using assms(1) grown_file_byte [OF assms(1) _ assms(2-4)]
  by (auto simp: wrote_def grown_def foreign_def)

lemma wrote_trans:
  assumes a: "wrote c st cs st1 cs1 lo mid off buf" and b: "wrote c st1 cs1 st2 cs2 mid hi off buf"
    and "lo \<le> mid" "mid \<le> hi" "0 < spc st"
  shows "wrote c st cs st2 cs2 lo hi off buf"
proof -
  from a obtain new1 where n1: "cs1 = cs @ new1" "\<forall>x \<in> set new1. fat_entry x st = 0" by (auto simp: wrote_def)
  from b obtain new2 where n2: "cs2 = cs1 @ new2" "\<forall>x \<in> set new2. fat_entry x st1 = 0" by (auto simp: wrote_def)
  have sc: "same_consts st st1" "same_consts st1 st2" using a b by (simp_all add: wrote_def)
  have it: "in_table st2 d = in_table st d" "in_table st1 d = in_table st d" for d
    using sc same_consts_in_table by metis+
  have sp: "spc st1 = spc st" using sc(1) by (simp add: same_consts_def)
  have dist: "distinct cs2" using b chain_distinct by (auto simp: wrote_def file_chain_def)
  have z: "fat_entry x st = 0" if "x \<in> set new2" for x
  proof -
    have "x \<notin> set cs1" using that dist n2(1) by auto
    moreover have "in_table st x" using b that n2(1) it by (auto simp: wrote_def file_chain_def)
    ultimately have "fat_entry x st1 = fat_entry x st" using a by (simp add: wrote_def)
    then show ?thesis using n2(2) that by metis
  qed
  have len: "length cs1 \<le> length cs2" "length cs \<le> length cs1" using n1(1) n2(1) by simp_all
  then have lm: "cbytes st * length cs1 \<le> cbytes st * length cs2" "cbytes st * length cs \<le> cbytes st * length cs1"
    by simp_all
  have bb: "file_byte st2 cs2 k = buf ! (k - off)" if "lo \<le> k" "k < hi" for k
  proof (cases "mid \<le> k")
    case True
    then show ?thesis using b that by (simp add: wrote_def)
  next
    case False
    then have "mid \<le> cbytes st * length cs1" using a that(1) by (auto simp: wrote_def)
    then have "k < cbytes st1 * length cs1" using False sp by simp
    then have "file_byte st2 cs2 k = file_byte st1 cs1 k" using b False by (simp add: wrote_def)
    then show ?thesis using a that(1) False by (simp add: wrote_def)
  qed
  have ob: "file_byte st2 cs2 k = file_byte st cs k" if "k < cbytes st * length cs" "\<not> (lo \<le> k \<and> k < hi)" for k
  proof -
    have k1: "k < cbytes st1 * length cs1" unfolding sp using that(1) lm(2) by (rule order_less_le_trans)
    have "\<not> (mid \<le> k \<and> k < hi)" "\<not> (lo \<le> k \<and> k < mid)" using that(2) assms(3,4) by auto
    then show ?thesis using a b k1 that(1) by (simp add: wrote_def)
  qed
  have fo: "read_sector lba st2 = read_sector lba st" if "foreign st cs2 lba" for lba
  proof -
    have "foreign st1 cs2 lba" "foreign st cs1 lba"
      using that foreign_consts [OF sc(1)] foreign_mono n2(1) by auto
    then show ?thesis using a b by (simp add: wrote_def)
  qed
  have hi: "hi \<le> cbytes st * length cs2" if "lo < hi"
  proof (cases "mid < hi")
    case True
    then show ?thesis using b sp by (simp add: wrote_def)
  next
    case False
    then have "lo < mid" "hi = mid" using that assms(4) by auto
    then have "mid \<le> cbytes st * length cs1" using a by (simp add: wrote_def)
    then show ?thesis unfolding \<open>hi = mid\<close> using lm(1) by (rule le_trans)
  qed
  have en: "fat_entry d st2 = fat_entry d st" if "in_table st d" "d \<notin> set cs2" for d
  proof -
    have "d \<notin> set cs1" using that(2) n2(1) by auto
    then show ?thesis using a b that it by (simp add: wrote_def)
  qed
  have "cs2 = cs @ (new1 @ new2)" "\<forall>x \<in> set (new1 @ new2). fat_entry x st = 0" using n1 n2 z by auto
  then show ?thesis unfolding wrote_def
    using same_consts_trans [OF sc] b bb ob fo hi en by (auto simp: wrote_def)
qed


text \<open>One round of the loop: a chunk that ends with the cluster or with the data.\<close>

lemma write_round:
  assumes st: "layout st" "0 < spc st" "file_chain st c cs" and q: "q < length cs"
    and cur: "cur = cbytes st * q + i" "i + n \<le> cbytes st" and w: "off \<le> cur" "cur - off + n \<le> length buf"
    and st': "st' = write_sectors (cluster_lba (cs ! q) st) 0 (spc st)
        (patch (read_cluster (cs ! q) st cbuf) i (take n (drop (cur - off) buf))) st"
  shows "wrote c st cs st' cs cur (cur + n) off buf"
proof -
  let ?b = "patch (read_cluster (cs ! q) st cbuf) i (take n (drop (cur - off) buf))"
  have cq: "2 \<le> cs ! q" using file_chain_cut [OF st(3)] q by simp
  have fb: "file_byte st' cs k = (if cur \<le> k \<and> k < cur + n then buf ! (k - off) else file_byte st cs k)"
    if k: "k < cbytes st * length cs" for k
  proof (cases "k div cbytes st = q")
    case True
    then have km: "k = cbytes st * q + k mod cbytes st" by (metis mult_div_mod_eq)
    have lt: "k mod cbytes st < cbytes st" using st(2) by simp
    have "file_byte st' cs k = ?b (k mod cbytes st)"
      unfolding st' using cluster_write_file [OF st(1,3) q k st(2)] True by simp
    also have "\<dots> = (if i \<le> k mod cbytes st \<and> k mod cbytes st < i + n
        then buf ! (cur - off + (k mod cbytes st - i)) else file_byte st cs k)"
    proof (cases "i \<le> k mod cbytes st \<and> k mod cbytes st < i + n")
      case True
      then have "k mod cbytes st - i < n" by linarith
      then have "take n (drop (cur - off) buf) ! (k mod cbytes st - i) = buf ! (cur - off + (k mod cbytes st - i))"
        using w(2) by simp
      then show ?thesis using True w(2) by (simp add: patch_def)
    next
      case False
      then show ?thesis using w(2) read_cluster_file [OF lt, of cs q cbuf] km by (auto simp: patch_def)
    qed
    also have "i \<le> k mod cbytes st \<and> k mod cbytes st < i + n \<longleftrightarrow> cur \<le> k \<and> k < cur + n"
      using km cur(1) by linarith
    also have "(if cur \<le> k \<and> k < cur + n then buf ! (cur - off + (k mod cbytes st - i)) else file_byte st cs k) =
        (if cur \<le> k \<and> k < cur + n then buf ! (k - off) else file_byte st cs k)"
    proof (cases "cur \<le> k")
      case True
      then have "cur - off + (k mod cbytes st - i) = k - off" using km cur(1) w(1) by linarith
      then show ?thesis by simp
    qed simp
    finally show ?thesis .
  next
    case False
    have "\<not> (cur \<le> k \<and> k < cur + n)"
    proof
      assume "cur \<le> k \<and> k < cur + n"
      then have "cbytes st * q \<le> k" "k < cbytes st * Suc q" using cur by auto
      then have "k div cbytes st = q" by (intro div_nat_eqI) (simp_all add: mult.commute)
      then show False using False by simp
    qed
    then show ?thesis unfolding st' using cluster_write_file [OF st(1,3) q k st(2)] False by auto
  qed
  have L: "cbytes st * Suc q \<le> cbytes st * length cs" using q by (intro mult_le_mono2) simp
  then have end_le: "cur + n \<le> cbytes st * length cs" using cur by simp
  have ent: "fat_entry d st' = fat_entry d st" if "in_table st d" for d
    unfolding st' by (rule cluster_write_entry [OF st(1) cq that])
  have ch: "file_chain st' c cs"
  proof -
    have "chain (\<lambda>x. fat_entry x st') c cs"
      using st(3) ent by (subst chain_cong [where e' = "\<lambda>x. fat_entry x st"]) (auto simp: file_chain_def)
    moreover have "\<forall>x \<in> set cs. in_table st' x"
      using st(3) same_consts_in_table [of st st'] by (auto simp: file_chain_def st')
    ultimately show ?thesis by (simp add: file_chain_def)
  qed
  have fo: "read_sector lba st' = read_sector lba st" if "foreign st cs lba" for lba
    unfolding st' using q that by (intro cluster_write_foreign [OF st(1) cq]) auto
  show ?thesis unfolding wrote_def
  proof (intro conjI allI impI)
    show "same_consts st st'" "layout st'" by (simp_all add: st' write_sectors_layout st(1))
    show "file_byte st' cs k = buf ! (k - off)" if "cur \<le> k \<and> k < cur + n" for k
      using fb [of k] that end_le by simp
    show "file_byte st' cs k = file_byte st cs k" if "k < cbytes st * length cs" "\<not> (cur \<le> k \<and> k < cur + n)" for k
      using fb [OF that(1)] that(2) by auto
  qed (use ch ent fo end_le in auto)
qed

lemma write_loop_spec:
  assumes cb: "0 < spc st0" "unat cluster_bytes = cbytes st0"
    and big: "unat offset + unat sz + 130560 < 4294967296" "unat sz \<le> length buf"
  shows "layout st \<Longrightarrow> small_table st \<Longrightarrow> file_chain st c cs \<Longrightarrow> cs \<noteq> [] \<Longrightarrow> spc st = spc st0 \<Longrightarrow> w \<le> sz \<Longrightarrow>
    \<exists>w' st' cs'. write_loop c offset sz buf cluster_bytes w cbuf st = Some (w', st')
      \<and> w \<le> w' \<and> w' \<le> sz
      \<and> wrote c st cs st' cs' (unat offset + unat w) (unat offset + unat w') (unat offset) buf
      \<and> (w' < sz \<longrightarrow> (\<forall>d. in_table st' d \<longrightarrow> 2 \<le> d \<longrightarrow> fat_entry d st' \<noteq> 0))"
proof (induction "unat sz - unat w" arbitrary: w cbuf st cs rule: less_induct)
  case less
  note st = less.prems
  show ?case
  proof (cases "w < sz")
    case False
    then have "w = sz" using st(6) by simp
    moreover from this have "write_loop c offset sz buf cluster_bytes w cbuf st = Some (w, st)"
      by (simp add: write_loop.simps [of c offset sz])
    moreover have "wrote c st cs st cs (unat offset + unat w) (unat offset + unat w) (unat offset) buf"
      using grown_wrote [OF grown_refl [OF st(1,3)]] st cb(1) by simp
    ultimately show ?thesis by auto
  next
    case True
    have uw: "unat w < unat sz" using True by (simp add: word_less_nat_alt)
    define cur where "cur = unat offset + unat w"
    have ucur: "unat (offset + w) = cur" unfolding cur_def using uw big by (intro unat_add_u32) simp
    define q where "q = cur div cbytes st"
    define i where "i = cur mod cbytes st"
    have sp: "0 < cbytes st" "unat cluster_bytes = cbytes st" using cb st(5) by simp_all
    have qi: "cur = cbytes st * q + i" "i < cbytes st" using sp(1) by (simp_all add: q_def i_def)
    have uq: "unat ((offset + w) div cluster_bytes) = q" "unat ((offset + w) mod cluster_bytes) = i"
      by (simp_all add: unat_div unat_mod ucur sp(2) q_def i_def)
    obtain ok cl st1 where we: "walk_extend q c st = (ok, cl, st1)" by (cases "walk_extend q c st") auto
    have c0: "c = cs ! 0" using chain_hd st(3,4) by (auto simp: file_chain_def)
    have "walk_extend q (cs ! 0) st = (ok, cl, st1)" using we c0 by simp
    from walk_extend_spec [OF st(1-3) _ this] st(4)
    obtain cs1 where g: "grown c st cs st1 cs1" and okc: "ok \<longrightarrow> q < length cs1 \<and> cs1 ! q = cl"
      and full: "\<not> ok \<longrightarrow> (\<forall>d. in_table st1 d \<longrightarrow> 2 \<le> d \<longrightarrow> fat_entry d st1 \<noteq> 0)" by auto
    have gw: "wrote c st cs st1 cs1 cur cur (unat offset) buf"
      using grown_wrote [OF g _ st(1,3)] sp(1) by simp
    show ?thesis
    proof (cases ok)
      case False
      then have "write_loop c offset sz buf cluster_bytes w cbuf st = Some (w, st1)"
        using True we uq by (simp add: write_loop.simps [of c offset sz] Let_def)
      then show ?thesis using gw full False st(6) unfolding cur_def by blast
    next
      case ok: True
      define avail where "avail = cluster_bytes - (offset + w) mod cluster_bytes"
      define copy where "copy = (if sz - w > avail then avail else sz - w)"
      have av: "unat avail = cbytes st - i" using qi(2) uq(2) sp(2)
        by (simp add: avail_def unat_sub_if' word_le_nat_alt)
      have cp: "unat copy = min (unat sz - unat w) (cbytes st - i)"
        using av uw by (auto simp: copy_def word_less_nat_alt unat_sub_if' word_le_nat_alt min_def)
      have cp0: "0 < unat copy" using cp uw qi(2) by simp
      have nw: "unat (w + copy) = unat w + unat copy"
        using cp uw unat_lt_2p32 [of sz] by (intro unat_add_u32) linarith
      define st2 where "st2 = write_sectors (cluster_lba cl st1) 0 (spc st1)
        (patch (read_cluster cl st1 cbuf) i (take (unat copy) (drop (unat w) buf))) st1"
      define cbuf2 where "cbuf2 = patch (read_cluster cl st1 cbuf) i (take (unat copy) (drop (unat w) buf))"
      have step: "write_loop c offset sz buf cluster_bytes w cbuf st =
          write_loop c offset sz buf cluster_bytes (w + copy) cbuf2 st2"
        using True we uq ok by (simp add: write_loop.simps [of c offset sz buf cluster_bytes w] Let_def
            copy_def avail_def st2_def cbuf2_def)
      have g1: "file_chain st1 c cs1" "layout st1" "small_table st1" "same_consts st st1"
        using grown_chain [OF g] st(2) by simp_all
      have s1: "spc st1 = spc st" using g1(4) by (simp add: same_consts_def)
      have rw: "wrote c st1 cs1 st2 cs1 cur (cur + unat copy) (unat offset) buf"
      proof (rule write_round [OF g1(2) _ g1(1)])
        show "0 < spc st1" using s1 sp(1) by simp
        show "q < length cs1" using okc ok by simp
        show "cur = cbytes st1 * q + i" using qi s1 by simp
        show "i + unat copy \<le> cbytes st1" using cp qi(2) s1 by simp
        show "unat offset \<le> cur" "cur - unat offset + unat copy \<le> length buf" using cp uw big(2) by (simp_all add: cur_def)
        show "st2 = write_sectors (cluster_lba (cs1 ! q) st1) 0 (spc st1)
          (patch (read_cluster (cs1 ! q) st1 cbuf) i (take (unat copy) (drop (cur - unat offset) buf))) st1"
          using okc ok by (simp add: st2_def cur_def)
      qed
      have w1: "wrote c st cs st2 cs1 cur (cur + unat copy) (unat offset) buf"
        using wrote_trans [OF gw rw] sp(1) by simp
      have g2: "layout st2" "file_chain st2 c cs1" "same_consts st1 st2" using rw by (simp_all add: wrote_def)
      have "\<exists>w' st' cs'. write_loop c offset sz buf cluster_bytes (w + copy) cbuf2 st2 = Some (w', st')
          \<and> w + copy \<le> w' \<and> w' \<le> sz
          \<and> wrote c st2 cs1 st' cs' (unat offset + unat (w + copy)) (unat offset + unat w') (unat offset) buf
          \<and> (w' < sz \<longrightarrow> (\<forall>d. in_table st' d \<longrightarrow> 2 \<le> d \<longrightarrow> fat_entry d st' \<noteq> 0))"
      proof (rule less.hyps)
        show "unat sz - unat (w + copy) < unat sz - unat w" using nw cp0 uw by simp
        show "layout st2" "file_chain st2 c cs1" by (rule g2)+
        show "small_table st2" using g1(3) g2(3) by (simp add: small_table_def same_consts_def)
        show "cs1 \<noteq> []" using okc ok by auto
        show "spc st2 = spc st0" using g2(3) s1 st(5) by (simp add: same_consts_def)
        show "w + copy \<le> sz" using nw cp uw by (simp add: word_le_nat_alt)
      qed
      then obtain w' st' cs' where r: "write_loop c offset sz buf cluster_bytes (w + copy) cbuf2 st2 = Some (w', st')"
        "w + copy \<le> w'" "w' \<le> sz"
        "wrote c st2 cs1 st' cs' (unat offset + unat (w + copy)) (unat offset + unat w') (unat offset) buf"
        "w' < sz \<longrightarrow> (\<forall>d. in_table st' d \<longrightarrow> 2 \<le> d \<longrightarrow> fat_entry d st' \<noteq> 0)" by blast
      have mid: "unat offset + unat (w + copy) = cur + unat copy" using nw by (simp add: cur_def)
      have "cur + unat copy \<le> unat offset + unat w'" using r(2) nw by (simp add: cur_def word_le_nat_alt)
      then have "wrote c st cs st' cs' cur (unat offset + unat w') (unat offset) buf"
        using wrote_trans [OF w1 r(4) [unfolded mid]] sp(1) by simp
      moreover have "w \<le> w'" using r(2) nw by (simp add: word_le_nat_alt)
      ultimately show ?thesis unfolding step using r(1,3,5) cur_def by blast
    qed
  qed
qed


section \<open>The whole write\<close>

lemma first_cluster_wrote:
  assumes st: "layout st" "small_table st" and a: "fat_alloc_cluster st = (c, st1)" "c \<noteq> 0"
  shows "wrote c st [] st1 [c] lo lo off buf"
proof -
  have sz: "unat (fat_size_16 (bpb st)) \<le> 256" using st(2) by (simp add: small_table_def)
  have nc: "st1 = fat_set_entry c 0xFFFF st" "in_table st c" "2 \<le> c" "fat_entry c st = 0"
    by (rule alloc_cluster_cases [OF st(1) sz]; use a in auto)+
  have "fat_entry c st1 = 0xFFFF" using nc(1,2) st(1) by (simp add: fat_entry_set)
  then have "file_chain st1 c [c]"
    using nc(1-3) small_table_lt [OF st(2) nc(2)] by (simp add: file_chain_def) (simp add: FAT16_CLUSTER_EOF_LO_def)
  then show ?thesis using nc st(1)
    by (auto simp: wrote_def set_entry_layout fat_entry_set foreign_def set_entry_read)
qed

text \<open>The clusters a file has before a write: its chain, or none when the node has no cluster yet.\<close>

definition node_chain :: "fat \<Rightarrow> vfs_node \<Rightarrow> u16 list \<Rightarrow> bool" where
  "node_chain st node cs \<longleftrightarrow>
     (if (ucast (vn_inode node) :: u16) < 2 then cs = []
      else cs \<noteq> [] \<and> file_chain st (ucast (vn_inode node)) cs)"

text \<open>The sector of a directory entry: in the root directory, or in a cluster in use that is not the file's.\<close>

definition dir_sector :: "fat \<Rightarrow> u16 list \<Rightarrow> u32 \<Rightarrow> bool" where
  "dir_sector st cs lba \<longleftrightarrow>
     (unat (root_dir_lba st) \<le> unat (lba28 lba) \<and> unat (lba28 lba) < unat (data_lba st))
     \<or> (\<exists>d. \<exists>i < spc st. lba28 lba = cluster_lba d st + of_nat i \<and> 2 \<le> d \<and> in_table st d \<and> d \<notin> set cs \<and> fat_entry d st \<noteq> 0)"

lemma dir_sector_foreign:
  assumes "layout st" "dir_sector st cs lba" "\<forall>x \<in> set cs'. 2 \<le> x"
    "\<forall>x \<in> set cs'. x \<in> set cs \<or> fat_entry x st = 0"
  shows "foreign st cs' lba"
  using assms(2) unfolding dir_sector_def
proof
  assume r: "unat (root_dir_lba st) \<le> unat (lba28 lba) \<and> unat (lba28 lba) < unat (data_lba st)"
  have "lba28 lba \<noteq> cluster_lba c st + of_nat i" if "c \<in> set cs'" "i < spc st" for c i
    using cluster_sector(1) [OF assms(1) _ that(2), of c] assms(3) that(1) r by auto
  then show ?thesis using r by (simp add: foreign_def)
next
  assume "\<exists>d. \<exists>i < spc st. lba28 lba = cluster_lba d st + of_nat i \<and> 2 \<le> d \<and> in_table st d \<and> d \<notin> set cs \<and> fat_entry d st \<noteq> 0"
  then obtain d i where d: "i < spc st" "lba28 lba = cluster_lba d st + of_nat i" "2 \<le> d" "d \<notin> set cs" "fat_entry d st \<noteq> 0"
    by auto
  have "unat (root_dir_lba st) \<le> unat (lba28 lba)"
    using cluster_sector(1) [OF assms(1) d(3,1)] assms(1) d(2) by (simp add: layout_def)
  moreover have "lba28 lba \<noteq> cluster_lba c st + of_nat j" if "c \<in> set cs'" "j < spc st" for c j
    using cluster_sector_inj [OF assms(1) d(3,1) _ that(2), of c] assms(3,4) that(1) d by auto
  ultimately show ?thesis by (simp add: foreign_def)
qed

text \<open>Updating the directory entry leaves the file alone.\<close>

lemma foreign_write:
  assumes "layout st" "0 < spc st" "file_chain st c cs" "foreign st cs lba"
  shows "file_chain (write_sector lba b st) c cs"
    "k < cbytes st * length cs \<Longrightarrow> file_byte (write_sector lba b st) cs k = file_byte st cs k"
proof -
  have r: "unat (root_dir_lba st) \<le> unat (lba28 lba)" using assms(4) by (simp add: foreign_def)
  have "chain (\<lambda>x. fat_entry x (write_sector lba b st)) c cs"
    using assms(3) write_entry_other [OF assms(1) _ r]
    by (subst chain_cong [where e' = "\<lambda>x. fat_entry x st"]) (auto simp: file_chain_def)
  then show "file_chain (write_sector lba b st) c cs"
    using assms(3) by (auto simp: file_chain_def in_table_def frame_simps)
  assume k: "k < cbytes st * length cs"
  have kd: "k div cbytes st < length cs" using k by (intro less_mult_imp_div_less) (simp add: mult.commute)
  have j: "k mod cbytes st div 512 < spc st" using assms(2)
    by (intro less_mult_imp_div_less) (simp add: mult.commute)
  have c2: "2 \<le> cs ! (k div cbytes st)" using file_chain_cut [OF assms(3)] kd by simp
  have "lba28 lba \<noteq> cluster_lba (cs ! (k div cbytes st)) st + of_nat (k mod cbytes st div 512)"
    using assms(4) nth_mem [OF kd] j unfolding foreign_def by blast
  then have "lba28 (cluster_lba (cs ! (k div cbytes st)) st + of_nat (k mod cbytes st div 512)) \<noteq> lba28 lba"
    using cluster_sector(2) [OF assms(1) c2 j] by simp
  moreover have "cluster_lba d (write_sector lba b st) = cluster_lba d st" for d
    by (simp add: cluster_lba_def frame_simps)
  ultimately show "file_byte (write_sector lba b st) cs k = file_byte st cs k"
    by (simp add: file_byte_def frame_simps) (simp add: read_sector_def write_sector_def)
qed

lemma update_direntry_at:
  "direntry_at (update_direntry i c n b) j =
    (if j = i then (direntry_at b i)\<lparr>de_first_cluster := c, de_file_size := n\<rparr> else direntry_at b j)"
proof -
  have o: "update_direntry i c n b k = b k" if "k < 32 * i + 0x1A \<or> 32 * i + 32 \<le> k" for k
    using that by (auto simp: update_direntry_def set_le32_def set_le16_def)
  show ?thesis
  proof (cases "j = i")
    case True
    have "le16 (update_direntry i c n b) (32 * i + 0x1A) = c"
      by (simp add: update_direntry_def set_le32_def le16_set_other)
    moreover have "le32 (update_direntry i c n b) (32 * i + 0x1C) = n" by (simp add: update_direntry_def)
    ultimately show ?thesis using True o by (simp add: direntry_at_def)
  next
    case False
    have "update_direntry i c n b k = b k" if "32 * j \<le> k" "k < 32 * j + 32" for k
      using False that by (intro o) arith
    then show ?thesis using False by (simp add: direntry_at_def le32_def le16_def)
  qed
qed

lemma ucast_u16_u32 [simp]: "ucast (ucast c :: u32) = c" for c :: u16
  by (rule bit_word_eqI) (simp add: bit_simps)

lemma wrote_chain_free: "wrote c st cs st' cs' lo hi off buf \<Longrightarrow> x \<in> set cs' \<Longrightarrow> x \<in> set cs \<or> fat_entry x st = 0"
  by (auto simp: wrote_def)

lemma write_spec:
  assumes st: "layout (vol s)" "small_table (vol s)" "0 < spc (vol s)" "node_chain (vol s) node cs"
    and dsec: "dir_sector (vol s) cs (vn_dir_lba node)"
    and big: "0 < sz" "unat offset + unat sz + 130560 < 4294967296" "unat sz \<le> length buf"
    and al: "cs = [] \<Longrightarrow> fst (fat_alloc_cluster (vol s)) \<noteq> 0"
    and km: "kmalloc (ucast (sectors_per_cluster (bpb (vol s))) * 512) (heap s) = Some (p, k)" "p \<noteq> 0"
  obtains n node' s' cs' st1 where
    "fat16_vfs_write node offset sz buf s = Some (sint n, node', s')" "n \<le> sz"
    "ucast (vn_inode node') = cs' ! 0" "cs' \<noteq> []" "vn_size node' = max (vn_size node) (offset + n)"
    "vn_dir_lba node' = vn_dir_lba node" "vn_dir_index node' = vn_dir_index node"
    "vn_flags node' = vn_flags node" "vn_ops node' = vn_ops node"
    "wrote (cs' ! 0) (vol s) cs st1 cs' (unat offset) (unat offset + unat n) (unat offset) buf"
    "vol s' = write_sector (vn_dir_lba node) (update_direntry (unat (vn_dir_index node)) (cs' ! 0) (vn_size node')
        (read_sector (vn_dir_lba node) (vol s))) st1"
    "foreign st1 cs' (vn_dir_lba node)" "heap s' = kfree p k"
    "n < sz \<longrightarrow> (\<forall>d. in_table st1 d \<longrightarrow> 2 \<le> d \<longrightarrow> fat_entry d st1 \<noteq> 0)"
proof -
  define cb :: u32 where "cb = ucast (sectors_per_cluster (bpb (vol s))) * 512"
  have cb0: "cb \<noteq> 0" using st(3) unat_cluster_bytes [of "vol s"] unfolding cb_def by (metis mult_pos_pos less_irrefl unat_0 zero_less_numeral)
  define ino :: u16 where "ino = ucast (vn_inode node)"
  obtain c st0 cs0 where f: "(if ino < 2 then fat_alloc_cluster (vol s) else (ino, vol s)) = (c, st0)"
    "\<not> (ino < 2 \<and> c = 0)" "cs0 \<noteq> []" "c = cs0 ! 0"
    "wrote c (vol s) cs st0 cs0 (unat offset) (unat offset) (unat offset) buf"
  proof (cases "ino < 2")
    case True
    then have cs: "cs = []" using st(4) by (simp add: node_chain_def ino_def)
    obtain c st1 where a: "fat_alloc_cluster (vol s) = (c, st1)" by (cases "fat_alloc_cluster (vol s)")
    then have "c \<noteq> 0" using al cs by simp
    then show ?thesis using that [of c st1 "[c]"] True a cs first_cluster_wrote [OF st(1,2) a] by simp
  next
    case False
    then have cs: "cs \<noteq> []" "file_chain (vol s) ino cs" using st(4) by (simp_all add: node_chain_def ino_def)
    have "ino = cs ! 0" using chain_hd cs by (auto simp: file_chain_def)
    then show ?thesis using that [of ino "vol s" cs] False cs grown_wrote [OF grown_refl [OF st(1) cs(2)] st(3,1) cs(2)] by simp
  qed
  have w0: "same_consts (vol s) st0" "layout st0" "file_chain st0 c cs0" using f(5) by (simp_all add: wrote_def)
  define node1 where "node1 = (if ino < 2 then node\<lparr>vn_inode := ucast c\<rparr> else node)"
  have n1: "ucast (vn_inode node1) = c" "vn_size node1 = vn_size node" "vn_dir_lba node1 = vn_dir_lba node"
    "vn_dir_index node1 = vn_dir_index node" "vn_flags node1 = vn_flags node" "vn_ops node1 = vn_ops node"
    using f(1) by (auto simp: node1_def ino_def)
  define s1 where "s1 = s\<lparr>vol := st0, heap := k\<rparr>"
  have fk: "fs_kmalloc cb (s\<lparr>vol := st0\<rparr>) = Some (p, s1)" using km by (simp add: fs_kmalloc_def cb_def s1_def)
  have sm: "small_table st0" using st(2) w0(1) by (simp add: small_table_def same_consts_def)
  have sp: "spc st0 = spc (vol s)" using w0(1) by (simp add: same_consts_def)
  have "\<exists>w' st' cs'. write_loop c offset sz buf cb 0 (heap_buffer p s1) st0 = Some (w', st')
      \<and> 0 \<le> w' \<and> w' \<le> sz
      \<and> wrote c st0 cs0 st' cs' (unat offset + unat (0 :: u32)) (unat offset + unat w') (unat offset) buf
      \<and> (w' < sz \<longrightarrow> (\<forall>d. in_table st' d \<longrightarrow> 2 \<le> d \<longrightarrow> fat_entry d st' \<noteq> 0))"
    by (rule write_loop_spec [OF st(3) _ big(2,3) w0(2) sm w0(3) f(3) sp]) (simp_all add: cb_def)
  then obtain n st1 cs' where wl: "write_loop c offset sz buf cb 0 (heap_buffer p s1) st0 = Some (n, st1)" "n \<le> sz"
    "wrote c st0 cs0 st1 cs' (unat offset) (unat offset + unat n) (unat offset) buf"
    "n < sz \<longrightarrow> (\<forall>d. in_table st1 d \<longrightarrow> 2 \<le> d \<longrightarrow> fat_entry d st1 \<noteq> 0)" by auto
  have w: "wrote c (vol s) cs st1 cs' (unat offset) (unat offset + unat n) (unat offset) buf"
    using wrote_trans [OF f(5) wl(3)] st(3) by simp
  have cs': "cs' \<noteq> []" "cs' ! 0 = c" using wl(3) f(3,4) by (auto simp: wrote_def nth_append)
  have sc: "same_consts (vol s) st1" "layout st1" "file_chain st1 c cs'" using w by (simp_all add: wrote_def)
  have fo: "foreign (vol s) cs' (vn_dir_lba node)"
    using dsec sc(3) wrote_chain_free [OF w] chain_member
    by (intro dir_sector_foreign [OF st(1) dsec]) (auto simp: file_chain_def)
  then have rd: "read_sector (vn_dir_lba node) st1 = read_sector (vn_dir_lba node) (vol s)" using w by (simp add: wrote_def)
  define node' where "node' = (if offset + n > vn_size node1 then node1\<lparr>vn_size := offset + n\<rparr> else node1)"
  have n': "ucast (vn_inode node') = c" "vn_size node' = max (vn_size node) (offset + n)"
    "vn_dir_lba node' = vn_dir_lba node" "vn_dir_index node' = vn_dir_index node"
    "vn_flags node' = vn_flags node" "vn_ops node' = vn_ops node"
    using n1 by (auto simp: node'_def max_def)
  define s' where "s' = s\<lparr>vol := write_sector (vn_dir_lba node) (update_direntry (unat (vn_dir_index node)) (cs' ! 0)
      (vn_size node') (read_sector (vn_dir_lba node) (vol s))) st1, heap := kfree p k\<rparr>"
  have ci: "(if (ucast (vn_inode node) :: u16) < 2 then fat_alloc_cluster (vol s) else (ucast (vn_inode node), vol s)) = (c, st0)"
    "\<not> ((ucast (vn_inode node) :: u16) < 2 \<and> c = 0)" by (rule f(1) [unfolded ino_def], rule f(2) [unfolded ino_def])
  have run: "fat16_vfs_write node offset sz buf s = Some (sint n, node', s')"
  proof -
    have m: "mounted (vol s)" using st(1) by (simp add: layout_def)
    have nn: "(if (ucast (vn_inode node) :: u16) < 2 then node\<lparr>vn_inode := ucast c\<rparr> else node) = node1"
      by (simp add: node1_def ino_def)
    have v1: "vol s1 = st0" by (simp add: s1_def)
    have sz0: "sz \<noteq> 0" using big(1) by auto
    have fs: "fs_kfree p (s1\<lparr>vol := st1\<rparr>) = s\<lparr>vol := st1, heap := kfree p k\<rparr>" by (simp add: fs_kfree_def s1_def)
    show ?thesis
      unfolding fat16_vfs_write_def Let_def ci(1) cb_def [symmetric] prod.case nn
      using m sz0 ci(2) fk km(2) cb0 wl(1) v1 n1 fs rd cs'(2)
      by (auto simp: s'_def node'_def)
  qed
  show ?thesis
  proof (rule that [OF run wl(2)])
    show "foreign st1 cs' (vn_dir_lba node)" using fo foreign_consts [OF sc(1)] by simp
    show "n < sz \<longrightarrow> (\<forall>d. in_table st1 d \<longrightarrow> 2 \<le> d \<longrightarrow> fat_entry d st1 \<noteq> 0)" by (rule wl(4))
  qed (use n' cs' w in \<open>simp_all add: s'_def\<close>)
qed

end
