(* ===== verification/Kheap_Spec.thy ===== *)
theory Kheap_Spec
  imports Kheap
begin

text \<open>
  The contract of the kernel heap for its clients: the set of the pointers handed out and not yet given
  back. \<open>kmalloc\<close> adds one, or none when memory is short, \<open>kfree\<close> removes one.
\<close>

section \<open>Pointers in use\<close>

fun used_ptrs :: "u32 \<Rightarrow> blocks \<Rightarrow> u32 set" where
  "used_ptrs a [] = {}"
| "used_ptrs a ((s, f) # bs) = (if f then {} else {a + 16}) \<union> used_ptrs (a + 16 + s) bs"

lemma used_ptrs_append: "used_ptrs a (xs @ ys) = used_ptrs a xs \<union> used_ptrs (end_addr a xs) ys"
  by (induction a xs rule: used_ptrs.induct) auto

lemma used_ptrs_addrs: "used_ptrs a bs \<subseteq> (\<lambda>x. x + 16) ` set (addrs a bs)"
  by (induction a bs rule: used_ptrs.induct) auto

lemma used_ptrs_split:
  "p \<in> used_ptrs a bs \<Longrightarrow> \<exists>pre s post. bs = pre @ (s, False) # post \<and> p = end_addr a pre + 16"
proof (induction a bs rule: used_ptrs.induct)
  case (2 a s f bs)
  show ?case
  proof (cases "p = a + 16 \<and> \<not> f")
    case True
    then show ?thesis by (intro exI [of _ "[]"] exI [of _ s] exI [of _ bs]) simp
  next
    case False
    then have "p \<in> used_ptrs (a + 16 + s) bs" using 2(2) by (auto split: if_splits)
    then obtain pre t post where "bs = pre @ (t, False) # post" "p = end_addr (a + 16 + s) pre + 16"
      using 2(1) by blast
    then show ?thesis by (intro exI [of _ "(s, f) # pre"] exI [of _ t] exI [of _ post]) simp
  qed
qed simp

lemma used_ptrs_fresh:
  assumes "fits a (pre @ (s, f) # post)"
  shows "end_addr a pre + 16 \<notin> used_ptrs a pre \<union> used_ptrs (end_addr a pre + 16 + s) post"
proof -
  have "distinct (addrs a pre @ end_addr a pre # addrs (end_addr a pre + 16 + s) post)"
    using addrs_distinct [OF assms] by simp
  then show ?thesis
    using used_ptrs_addrs [of a pre] used_ptrs_addrs [of "end_addr a pre + 16 + s" post] by auto
qed

lemma used_ptrs_free_blocks:
  "used_ptrs a (free_blocks pre s post) = used_ptrs a (pre @ (s, True) # post)"
proof -
  have m: "used_ptrs x ((s1, True) # post1) = used_ptrs x ((s, True) # post)" if "merge_next s post = (s1, post1)" for x s1 post1
    using that by (cases rule: merge_next_cases [of post s]) (auto simp: add.assoc add.left_commute)
  obtain s1 post1 where mn: "merge_next s post = (s1, post1)" by fastforce
  show ?thesis
  proof (cases "pre \<noteq> [] \<and> snd (last pre)")
    case True
    then obtain pre' t where pre: "pre = pre' @ [(t, True)]" by (cases pre rule: rev_cases) auto
    have e: "x + 16 + (t + 16 + s1) = x + 16 + t + 16 + s1" for x :: u32 by (simp add: add.assoc)
    show ?thesis using m [OF mn, of "end_addr a pre' + 16 + t"]
      by (simp add: free_blocks_def mn pre used_ptrs_append e add.commute add.left_commute)
  next
    case False
    then show ?thesis using m [OF mn] by (auto simp: free_blocks_def mn used_ptrs_append)
  qed
qed

section \<open>The contract\<close>

text \<open>\<open>owned k ps\<close>: the heap is well formed and \<open>ps\<close> are the pointers in use.\<close>

definition owned :: "kheap \<Rightarrow> u32 set \<Rightarrow> bool" where
  "owned k ps \<longleftrightarrow> (\<exists>bs. heap_has k bs \<and> ps = used_ptrs (heap_start_ptr k) bs)"

locale allocator =
  fixes alloc :: "'n \<Rightarrow> 'h \<Rightarrow> ('p::zero \<times> 'h) option" and free :: "'p \<Rightarrow> 'h \<Rightarrow> 'h"
    and own :: "'h \<Rightarrow> 'p set \<Rightarrow> bool"
  assumes alloc_returns: "own h ps \<Longrightarrow> \<exists>p h'. alloc n h = Some (p, h')"
    and alloc_none: "own h ps \<Longrightarrow> alloc n h = Some (0, h') \<Longrightarrow> own h' ps"
    and alloc_some: "own h ps \<Longrightarrow> alloc n h = Some (p, h') \<Longrightarrow> p \<noteq> 0 \<Longrightarrow> p \<notin> ps \<and> own h' (insert p ps)"
    and free_own: "own h ps \<Longrightarrow> p \<in> ps \<Longrightarrow> own (free p h) (ps - {p})"
begin

lemma alloc_free: "own h ps \<Longrightarrow> alloc n h = Some (p, h') \<Longrightarrow> p \<noteq> 0 \<Longrightarrow> own (free p h') ps"
  using alloc_some [of h ps n p h'] free_own [of h' "insert p ps" p] by auto

text \<open>Giving back another pointer first makes no difference.\<close>

lemma free_other: "own h (insert p (insert q ps)) \<Longrightarrow> p \<noteq> q \<Longrightarrow> p \<notin> ps \<Longrightarrow> own (free p h) (insert q ps)"
  using free_own [of h "insert p (insert q ps)" p] by (simp add: insert_Diff_if)

end

lemma owned_alloc:
  assumes "owned k ps"
  shows "\<exists>p k'. kmalloc sz k = Some (p, k') \<and> (if p = 0 then owned k' ps else p \<notin> ps \<and> owned k' (insert p ps))"
proof -
  obtain bs where bs: "heap_has k bs" "ps = used_ptrs (heap_start_ptr k) bs" using assms by (auto simp: owned_def)
  define a where "a = heap_start_ptr k"
  have h: "heap_at (kmem k) a bs" "coalesced bs" using bs(1) by (simp_all add: heap_has_def a_def)
  obtain k' where k': "kmalloc sz k = Some (fst (alloc_blocks sz a bs), k')" "heap_start_ptr k' = a"
    "heap_at (kmem k') a (snd (alloc_blocks sz a bs))"
    using kmalloc_on_blocks [OF h(1) [unfolded a_def], of sz] by (auto simp: a_def)
  have hh: "heap_has k' (snd (alloc_blocks sz a bs))"
    using k'(2,3) alloc_blocks_coalesced [OF h(2)] by (simp add: heap_has_def)
  show ?thesis
  proof (cases rule: alloc_blocks_cases [of bs sz a])
    case (taken pre s post)
    have f: "fits a (pre @ (s, True) # post)" using h(1) taken(1) by (simp add: heap_at_def)
    have "end_addr a pre + 16 \<noteq> 0"
      using kmalloc_owned [of k bs sz] h(1) k'(1) taken(1,2,4) by (auto simp: a_def not_less [symmetric])
    moreover have "used_ptrs (end_addr a pre) (split_block sz s @ post) =
        insert (end_addr a pre + 16) (used_ptrs (end_addr a pre + 16 + s) post)"
      by (auto simp: split_block_def add.assoc add.left_commute)
    ultimately show ?thesis
      using k' hh taken(4) bs(2) used_ptrs_fresh [OF f]
      by (auto simp: owned_def taken(1) used_ptrs_append a_def [symmetric])
  next
    case none
    then show ?thesis using k' hh bs(2) by (auto simp: owned_def a_def)
  qed
qed

lemma owned_free:
  assumes "owned k ps" "p \<in> ps"
  shows "owned (kfree p k) (ps - {p})"
proof -
  obtain bs where bs: "heap_has k bs" "ps = used_ptrs (heap_start_ptr k) bs" using assms by (auto simp: owned_def)
  define a where "a = heap_start_ptr k"
  obtain pre s post where sp: "bs = pre @ (s, False) # post" "p = end_addr a pre + 16"
    using used_ptrs_split assms(2) bs(2) by (force simp: a_def)
  have h: "heap_at (kmem k) a (pre @ (s, False) # post)" "coalesced (pre @ (s, False) # post)"
    using bs(1) sp(1) by (simp_all add: heap_has_def a_def)
  have f: "fits a (pre @ (s, False) # post)" using h(1) by (simp add: heap_at_def)
  have "heap_has (kfree p k) (free_blocks pre s post)"
    using kfree_refines(1) [OF h(1)] free_blocks_coalesced [OF h(2)] by (simp add: heap_has_def kfree_start sp(2) a_def [symmetric])
  moreover have "ps - {p} = used_ptrs a (free_blocks pre s post)"
    using used_ptrs_fresh [OF f] by (auto simp: used_ptrs_free_blocks bs(2) sp used_ptrs_append a_def [symmetric])
  ultimately show ?thesis by (auto simp: owned_def kfree_start a_def)
qed

interpretation ka: allocator kmalloc kfree owned
proof
  show "owned h ps \<Longrightarrow> \<exists>p h'. kmalloc n h = Some (p, h')" for h ps n using owned_alloc [of h ps n] by blast
  show "owned h ps \<Longrightarrow> kmalloc n h = Some (0, h') \<Longrightarrow> owned h' ps" for h ps n h'
    using owned_alloc [of h ps n] by auto
  show "owned h ps \<Longrightarrow> kmalloc n h = Some (p, h') \<Longrightarrow> p \<noteq> 0 \<Longrightarrow> p \<notin> ps \<and> owned h' (insert p ps)" for h ps n p h'
    using owned_alloc [of h ps n] by auto
qed (rule owned_free)

lemma heap_has_owned: "heap_has k bs \<Longrightarrow> owned k (used_ptrs (heap_start_ptr k) bs)"
  by (auto simp: owned_def)

lemma owned_not_null: "owned k ps \<Longrightarrow> 0 \<notin> ps"
proof -
  assume "owned k ps"
  then obtain bs where bs: "heap_at (kmem k) (heap_start_ptr k) bs" "ps = used_ptrs (heap_start_ptr k) bs"
    by (auto simp: owned_def heap_has_def)
  show "0 \<notin> ps"
  proof
    assume "0 \<in> ps"
    then obtain x where x: "x \<in> set (addrs (heap_start_ptr k) bs)" "x + 16 = 0"
      using used_ptrs_addrs bs(2) by force
    have f: "fits (heap_start_ptr k) bs" using bs(1) by (simp add: heap_at_def)
    have "unat (x + 16) = unat x + 16"
      using addrs_bounds [OF f x(1)] f by (intro unat_plus_numeral) (auto simp: fits_def)
    then show False using x(2) by simp
  qed
qed

section \<open>Room\<close>

text \<open>Each pointer in use with the size of its block.\<close>

fun used_blocks :: "u32 \<Rightarrow> blocks \<Rightarrow> (u32 \<times> u32) set" where
  "used_blocks a [] = {}"
| "used_blocks a ((s, f) # bs) = (if f then {} else {(a + 16, s)}) \<union> used_blocks (a + 16 + s) bs"

lemma used_blocks_append: "used_blocks a (xs @ ys) = used_blocks a xs \<union> used_blocks (end_addr a xs) ys"
  by (induction a xs rule: used_blocks.induct) auto

lemma used_blocks_ptrs: "fst ` used_blocks a bs = used_ptrs a bs"
  by (induction a bs rule: used_blocks.induct) (auto simp: image_Un)

text \<open>The block handed out at \<open>p\<close> has at least \<open>n\<close> bytes.\<close>

definition allotted :: "kheap \<Rightarrow> u32 \<Rightarrow> u32 \<Rightarrow> bool" where
  "allotted k p n \<longleftrightarrow> (\<exists>bs s. heap_has k bs \<and> (p, s) \<in> used_blocks (heap_start_ptr k) bs \<and> n \<le> s)"

text \<open>\<open>kmalloc\<close> succeeds \<open>n\<close> times in a row.\<close>

fun mallocs_left :: "u32 \<Rightarrow> nat \<Rightarrow> kheap \<Rightarrow> bool" where
  "mallocs_left sz 0 k \<longleftrightarrow> True"
| "mallocs_left sz (Suc n) k \<longleftrightarrow> (case kmalloc sz k of Some (p, k') \<Rightarrow> p \<noteq> 0 \<and> mallocs_left sz n k' | None \<Rightarrow> False)"

locale sized_allocator = allocator +
  fixes holds :: "'h \<Rightarrow> 'p::zero \<Rightarrow> 'n \<Rightarrow> bool"
  assumes alloc_holds: "own h ps \<Longrightarrow> alloc n h = Some (p, h') \<Longrightarrow> p \<noteq> 0 \<Longrightarrow> holds h' p n"
    and alloc_keeps: "alloc n h = Some (p, h') \<Longrightarrow> holds h q m \<Longrightarrow> holds h' q m"
    and free_can: "holds h p n \<Longrightarrow> \<exists>q h'. alloc n (free p h) = Some (q, h') \<and> q \<noteq> 0"
    and free_keeps: "own h ps \<Longrightarrow> p \<in> ps \<Longrightarrow> q \<noteq> p \<Longrightarrow> holds h q m \<Longrightarrow> holds (free p h) q m"
begin

text \<open>A client that takes a new block before it gives back its old one of that size can go on doing so.\<close>

lemma hand_over:
  assumes "own h ps" "p \<in> ps" "holds h p n" "alloc n h = Some (q, h')" "q \<noteq> 0"
  shows "holds (free p h') q n" "\<exists>r h''. alloc n (free p h') = Some (r, h'') \<and> r \<noteq> 0"
proof -
  have q: "q \<notin> ps" "own h' (insert q ps)" using alloc_some [OF assms(1,4,5)] by simp_all
  then have "q \<noteq> p" "p \<in> insert q ps" using assms(2) by auto
  then show "holds (free p h') q n" using free_keeps [OF q(2)] alloc_holds [OF assms(1,4,5)] by blast
  show "\<exists>r h''. alloc n (free p h') = Some (r, h'') \<and> r \<noteq> 0"
    by (rule free_can) (rule alloc_keeps [OF assms(4,3)])
qed

end

lemma used_blocks_split:
  "(p, n) \<in> used_blocks a bs \<Longrightarrow> \<exists>pre post. bs = pre @ (n, False) # post \<and> p = end_addr a pre + 16"
proof (induction a bs rule: used_blocks.induct)
  case (2 a s f bs)
  show ?case
  proof (cases "p = a + 16 \<and> n = s \<and> \<not> f")
    case True
    then show ?thesis by (intro exI [of _ "[]"] exI [of _ bs]) simp
  next
    case False
    then have "(p, n) \<in> used_blocks (a + 16 + s) bs" using 2(2) by (auto split: if_splits)
    then obtain pre post where "bs = pre @ (n, False) # post" "p = end_addr (a + 16 + s) pre + 16"
      using 2(1) by blast
    then show ?thesis by (intro exI [of _ "(s, f) # pre"] exI [of _ post]) simp
  qed
qed simp

lemma used_blocks_free_blocks:
  "used_blocks a (free_blocks pre s post) = used_blocks a (pre @ (s, True) # post)"
proof -
  have m: "used_blocks x ((s1, True) # post1) = used_blocks x ((s, True) # post)" if "merge_next s post = (s1, post1)" for x s1 post1
    using that by (cases rule: merge_next_cases [of post s]) (auto simp: add.assoc add.left_commute)
  obtain s1 post1 where mn: "merge_next s post = (s1, post1)" by fastforce
  show ?thesis
  proof (cases "pre \<noteq> [] \<and> snd (last pre)")
    case True
    then obtain pre' t where pre: "pre = pre' @ [(t, True)]" by (cases pre rule: rev_cases) auto
    have e: "x + 16 + (t + 16 + s1) = x + 16 + t + 16 + s1" for x :: u32 by (simp add: add.assoc)
    show ?thesis using m [OF mn, of "end_addr a pre' + 16 + t"]
      by (simp add: free_blocks_def mn pre used_blocks_append e add.commute add.left_commute)
  next
    case False
    then show ?thesis using m [OF mn] by (auto simp: free_blocks_def mn used_blocks_append)
  qed
qed

text \<open>The freed block, merged or not, is free and not smaller.\<close>

lemma free_blocks_room:
  assumes "fits a (pre @ (s, f) # post)"
  shows "\<exists>t. (t, True) \<in> set (free_blocks pre s post) \<and> s \<le> t"
proof -
  have b: "unat a + extent pre + 16 + unat s + extent post \<le> 4294967295" using assms by (simp add: fits_def)
  obtain s1 post1 where mn: "merge_next s post = (s1, post1)" by fastforce
  have s1: "unat s \<le> unat s1 \<and> unat s1 + extent post1 = unat s + extent post"
  proof (cases rule: merge_next_cases [of post s])
    case (merge t post')
    then have "unat (s + 16 + t) = unat s + 16 + unat t"
      using b by (simp add: unat_add_lem [THEN iffD1])
    then show ?thesis using merge mn by simp
  qed (use mn in simp)
  show ?thesis
  proof (cases "pre \<noteq> [] \<and> snd (last pre)")
    case True
    then obtain pre' t where pre: "pre = pre' @ [(t, True)]" by (cases pre rule: rev_cases) auto
    have "unat (t + 16 + s1) = unat t + 16 + unat s1" using b s1 pre by (simp add: unat_add_lem [THEN iffD1])
    then have "s \<le> t + 16 + s1" using s1 by (simp add: word_le_nat_alt)
    then show ?thesis by (intro exI [of _ "t + 16 + s1"]) (simp add: free_blocks_def mn pre)
  next
    case False
    then show ?thesis using s1 by (intro exI [of _ s1]) (auto simp: free_blocks_def mn word_le_nat_alt)
  qed
qed

lemma seg_unique:
  "seg h p a bs 0 \<Longrightarrow> seg h p a cs 0 \<Longrightarrow> fits a bs \<Longrightarrow> fits a cs \<Longrightarrow> bs \<noteq> [] \<Longrightarrow> cs \<noteq> [] \<Longrightarrow> bs = cs"
proof (induction bs arbitrary: p a cs)
  case (Cons b bs)
  obtain s f where b: "b = (s, f)" by (cases b)
  obtain t g cs' where c: "cs = (t, g) # cs'" using Cons.prems(6) by (cases cs) auto
  have tg: "t = s" "g = f" using Cons.prems(1,2) by (auto simp: b c)
  have fb: "unat a + 16 + unat s + extent bs \<le> 4294967295" "unat a + 16 + unat s + extent cs' \<le> 4294967295"
    using Cons.prems(3,4) by (simp_all add: fits_def b c tg)
  then have u: "unat (a + 16 + s) = unat a + 16 + unat s" by (simp add: unat_add_lem [THEN iffD1])
  then have nz: "a + 16 + s \<noteq> 0" by (metis add_is_0 numeral_eq_Suc unat_0 nat.distinct(1))
  then have "bs = [] \<longleftrightarrow> cs' = []" using Cons.prems(1,2) by (auto simp: b c tg split: if_splits)
  moreover have "bs = cs'" if "bs \<noteq> []" "cs' \<noteq> []"
    using Cons.prems(1,2) fb that u by (intro Cons.IH [of a "a + 16 + s" cs']) (simp_all add: b c tg fits_def)
  ultimately show ?case by (cases "bs = []") (auto simp: b c tg)
qed simp

lemma heap_has_unique: "heap_has k bs \<Longrightarrow> heap_has k cs \<Longrightarrow> bs = cs"
  using seg_unique [of "hdr (kmem k)" 0 "heap_start_ptr k" bs cs] by (simp add: heap_has_def heap_at_def)

lemma alloc_block_list:
  assumes "heap_has k bs" "kmalloc sz k = Some (p, k')"
  shows "heap_has k' (snd (alloc_blocks sz (heap_start_ptr k) bs))" "p = fst (alloc_blocks sz (heap_start_ptr k) bs)"
    "heap_start_ptr k' = heap_start_ptr k"
  using kmalloc_on_blocks [of k bs sz] assms alloc_blocks_coalesced [of bs sz] by (auto simp: heap_has_def)

lemma alloc_blocks_used:
  assumes "alloc_blocks sz a bs = (p, bs')"
  shows "used_blocks a bs \<subseteq> used_blocks a bs' \<and> (p \<noteq> 0 \<longrightarrow> (\<exists>s. (p, s) \<in> used_blocks a bs' \<and> sz \<le> s))"
proof (cases rule: alloc_blocks_cases [of bs sz a])
  case (taken pre s post)
  have "used_blocks x (split_block sz s @ post) = insert (x + 16, if unat sz + 17 \<le> unat s then sz else s) (used_blocks (x + 16 + s) post)" for x
    by (auto simp: split_block_def used_blocks_append add.assoc add.left_commute)
  then show ?thesis using taken assms by (auto simp: used_blocks_append)
qed (use assms in auto)

interpretation ks: sized_allocator kmalloc kfree owned allotted
proof
  fix k n p k' ps assume "owned k ps" and m: "kmalloc n k = Some (p, k')" "p \<noteq> 0"
  then obtain bs where "heap_has k bs" by (auto simp: owned_def)
  then show "allotted k' p n"
    using alloc_block_list [OF _ m(1)] alloc_blocks_used [of n "heap_start_ptr k" bs] m(2)
    by (fastforce simp: allotted_def prod_eq_iff)
next
  fix k n p k' q m assume m: "kmalloc n k = Some (p, k')" and "allotted k q m"
  then obtain bs s where "heap_has k bs" "(q, s) \<in> used_blocks (heap_start_ptr k) bs" "m \<le> s" by (auto simp: allotted_def)
  then show "allotted k' q m"
    using alloc_block_list [OF _ m] alloc_blocks_used [of n "heap_start_ptr k" bs]
    by (fastforce simp: allotted_def prod_eq_iff)
next
  fix k p n assume "allotted k p n"
  then obtain bs s where b: "heap_has k bs" "(p, s) \<in> used_blocks (heap_start_ptr k) bs" "n \<le> s" by (auto simp: allotted_def)
  obtain pre post where sp: "bs = pre @ (s, False) # post" "p = end_addr (heap_start_ptr k) pre + 16"
    using used_blocks_split [OF b(2)] by blast
  have h: "heap_at (kmem k) (heap_start_ptr k) (pre @ (s, False) # post)" "coalesced (pre @ (s, False) # post)"
    using b(1) sp(1) by (simp_all add: heap_has_def)
  have hf: "heap_has (kfree p k) (free_blocks pre s post)"
    using kfree_refines(1) [OF h(1)] free_blocks_coalesced [OF h(2)] by (simp add: heap_has_def kfree_start sp(2))
  obtain t where "(t, True) \<in> set (free_blocks pre s post)" "n \<le> t"
    using free_blocks_room [of "heap_start_ptr k" pre s False post] h(1) b(3) by (auto simp: heap_at_def intro: order_trans)
  from heap_has_buffer [OF hf this] show "\<exists>q k'. kmalloc n (kfree p k) = Some (q, k') \<and> q \<noteq> 0" by metis
next
  fix k ps p q m assume o: "owned k ps" "p \<in> ps" "q \<noteq> p" "allotted k q m"
  obtain bs n where b: "heap_has k bs" "(q, n) \<in> used_blocks (heap_start_ptr k) bs" "m \<le> n" using o(4) by (auto simp: allotted_def)
  have "p \<in> used_ptrs (heap_start_ptr k) bs" using o(1,2) heap_has_unique [OF b(1)] by (auto simp: owned_def)
  then obtain pre s post where sp: "bs = pre @ (s, False) # post" "p = end_addr (heap_start_ptr k) pre + 16"
    using used_ptrs_split by blast
  have h: "heap_at (kmem k) (heap_start_ptr k) (pre @ (s, False) # post)" "coalesced (pre @ (s, False) # post)"
    using b(1) sp(1) by (simp_all add: heap_has_def)
  have hf: "heap_has (kfree p k) (free_blocks pre s post)"
    using kfree_refines(1) [OF h(1)] free_blocks_coalesced [OF h(2)] by (simp add: heap_has_def kfree_start sp(2))
  have "(q, n) \<in> used_blocks (heap_start_ptr k) (free_blocks pre s post)"
    using b(2) o(3) sp by (auto simp: used_blocks_free_blocks used_blocks_append)
  then show "allotted (kfree p k) q m" using hf b(3) by (auto simp: allotted_def kfree_start)
qed

lemma mallocs_left_one: "mallocs_left sz 1 k \<longleftrightarrow> (\<exists>p k'. kmalloc sz k = Some (p, k') \<and> p \<noteq> 0)"
  by (auto simp: One_nat_def split: option.split)

text \<open>One free block with room for two and a header is enough for two.\<close>

lemma mallocs_left_two:
  assumes "heap_has k [(t, True)]" "2 * unat sz + 17 \<le> unat t"
  shows "mallocs_left sz 2 k"
proof -
  have le: "sz \<le> t" using assms(2) by (simp add: word_le_nat_alt)
  obtain p k' where k': "kmalloc sz k = Some (p, k')" "p \<noteq> 0" "heap_has k' (snd (alloc_blocks sz (heap_start_ptr k) [(t, True)]))"
    using heap_has_buffer [OF assms(1) list.set_intros(1) le] by blast
  have "unat (t - sz - 16) = unat t - unat sz - 16" using assms(2) by (simp add: unat_sub word_le_nat_alt)
  then have "sz \<le> t - sz - 16" using assms(2) by (simp add: word_le_nat_alt)
  moreover have "(t - sz - 16, True) \<in> set (snd (alloc_blocks sz (heap_start_ptr k) [(t, True)]))"
    using le assms(2) by (simp add: split_block_def)
  ultimately obtain q k'' where "kmalloc sz k' = Some (q, k'')" "q \<noteq> 0" using heap_has_buffer [OF k'(3)] by metis
  then show ?thesis using k'(1,2) by (simp add: numeral_2_eq_2)
qed

end
