(* ===== verification/Vfs.thy ===== *)
theory Vfs
  imports Fat16 Kheap_Spec
begin

text \<open>
  The virtual file system \<^verbatim>\<open>fs/vfs.c\<close>: the mount table, path resolution and the dispatch of operations
  to the table a node carries. FAT16 is the one file system of the kernel, so the tables are those
  of \<^verbatim>\<open>fs/fat16.c\<close>.
\<close>

section \<open>Dispatch\<close>

text \<open>Which members of a table are not null.\<close>

fun has_read_write :: "ops_table \<Rightarrow> bool" where
  "has_read_write fat16_file_ops = True"
| "has_read_write fat16_dir_ops = False"
| "has_read_write fat16_root_ops = False"

fun has_dir_ops :: "ops_table \<Rightarrow> bool" where
  "has_dir_ops fat16_file_ops = False"
| "has_dir_ops fat16_dir_ops = True"
| "has_dir_ops fat16_root_ops = True"

fun has_close :: "ops_table \<Rightarrow> bool" where
  "has_close fat16_file_ops = True"
| "has_close fat16_dir_ops = True"
| "has_close fat16_root_ops = False"

definition vfs_close :: "u32 \<Rightarrow> fs \<Rightarrow> fs" where
  "vfs_close node s =
     (if node = 0 then s
      else if has_close (vn_ops (nodes s node)) then fat16_vfs_close node s
      else s)"

definition vfs_read :: "u32 \<Rightarrow> u32 \<Rightarrow> u32 \<Rightarrow> fs \<Rightarrow> (int \<times> bytes \<times> fs) option" where
  "vfs_read node offset sz s =
     (if node = 0 then Some (-1, [], s)
      else if vn_flags (nodes s node) AND VFS_FILE = 0 then Some (-1, [], s)
      else if \<not> has_read_write (vn_ops (nodes s node)) then Some (-1, [], s)
      else fat16_vfs_read (nodes s node) offset sz s)"

definition vfs_write :: "u32 \<Rightarrow> u32 \<Rightarrow> u32 \<Rightarrow> bytes \<Rightarrow> fs \<Rightarrow> (int \<times> fs) option" where
  "vfs_write node offset sz buf s =
     (if node = 0 then Some (-1, s)
      else if vn_flags (nodes s node) AND VFS_FILE = 0 then Some (-1, s)
      else if \<not> has_read_write (vn_ops (nodes s node)) then Some (-1, s)
      else do {
        (r, n, s) \<leftarrow> fat16_vfs_write (nodes s node) offset sz buf s;
        Some (r, s\<lparr>nodes := (nodes s)(node := n)\<rparr>) })"

definition vfs_readdir :: "u32 \<Rightarrow> u32 \<Rightarrow> fs \<Rightarrow> (vfs_dirent option \<times> fs) option" where
  "vfs_readdir node index s =
     (if node = 0 then Some (None, s)
      else if vn_flags (nodes s node) AND VFS_DIR = 0 then Some (None, s)
      else if \<not> has_dir_ops (vn_ops (nodes s node)) then Some (None, s)
      else fat16_vfs_readdir (nodes s node) index s)"

definition vfs_finddir :: "u32 \<Rightarrow> bytes \<Rightarrow> fs \<Rightarrow> (u32 \<times> fs) option" where
  "vfs_finddir node name s =
     (if node = 0 then Some (0, s)
      else if vn_flags (nodes s node) AND VFS_DIR = 0 then Some (0, s)
      else if \<not> has_dir_ops (vn_ops (nodes s node)) then Some (0, s)
      else fat16_vfs_finddir (nodes s node) name s)"

definition vfs_create :: "u32 \<Rightarrow> bytes \<Rightarrow> u32 \<Rightarrow> fs \<Rightarrow> (u32 \<times> fs) option" where
  "vfs_create node name flags s =
     (if node = 0 then Some (0, s)
      else if vn_flags (nodes s node) AND VFS_DIR = 0 then Some (0, s)
      else if \<not> has_dir_ops (vn_ops (nodes s node)) then Some (0, s)
      else fat16_vfs_create (nodes s node) name flags s)"

section \<open>Mounts\<close>

definition VFS_MAX_MOUNTS :: nat where
  "VFS_MAX_MOUNTS = 8"

text \<open>The mount points in order; their number is \<open>mount_count\<close>. A path of 128 bytes or more is cut.\<close>

type_synonym mounts = "(bytes \<times> u32) list"

definition vfs_mount :: "bytes \<Rightarrow> u32 \<Rightarrow> mounts \<Rightarrow> mounts" where
  "vfs_mount path root ms =
     (if root = 0 then ms
      else if length ms \<ge> VFS_MAX_MOUNTS then ms
      else ms @ [(take 127 (cstr path), root)])"

fun vfs_get_root :: "mounts \<Rightarrow> u32" where
  "vfs_get_root [] = 0"
| "vfs_get_root ((p, root) # ms) = (if cget p 0 = 0x2F \<and> cget p 1 = 0 then root else vfs_get_root ms)"

section \<open>Path resolution\<close>

text \<open>
  The next component of a path, of at most \<open>n\<close> characters, and the rest. Paths are lists without the
  final zero.
\<close>

fun next_component :: "nat \<Rightarrow> bytes \<Rightarrow> bytes \<times> bytes" where
  "next_component 0 p = ([], p)"
| "next_component n [] = ([], [])"
| "next_component (Suc n) (c # p) =
     (if c = 0x2F then ([], c # p) else (let (w, q) = next_component n p in (c # w, q)))"

definition skip_slash :: "bytes \<Rightarrow> bytes" where
  "skip_slash p = (case p of c # q \<Rightarrow> if c = 0x2F then q else p | [] \<Rightarrow> [])"

lemma next_component_length: "length (snd (next_component n p)) \<le> length p"
  by (induction n p rule: next_component.induct) (auto split: prod.splits)

lemma next_component_Cons: "0 < n \<Longrightarrow> next_component n (c # p) =
    (if c = 0x2F then ([], c # p) else (c # fst (next_component (n - 1) p), snd (next_component (n - 1) p)))"
  by (cases n) (auto split: prod.splits)

lemma next_component_shorter: "p \<noteq> [] \<Longrightarrow> length (skip_slash (snd (next_component 127 p))) < length p"
proof (cases p)
  case (Cons c q)
  have k: "length (skip_slash r) \<le> length r" for r by (simp add: skip_slash_def split: list.split)
  have "length (skip_slash (snd (next_component 126 q))) \<le> length q"
    by (rule le_trans [OF k next_component_length])
  then show ?thesis using Cons by (simp add: next_component_Cons) (simp add: skip_slash_def)
qed simp

function walk :: "u32 \<Rightarrow> u32 \<Rightarrow> bytes \<Rightarrow> fs \<Rightarrow> (u32 \<times> fs) option" where
  "walk root current p s =
     (if p = [] then Some (current, s)
      else (let component = fst (next_component 127 p); p = skip_slash (snd (next_component 127 p)) in do {
        (nxt, s) \<leftarrow> vfs_finddir current component s;
        let s = (if current \<noteq> root then vfs_close current s else s);
        if nxt = 0 then Some (0, s) else walk root nxt p s }))"
  by pat_completeness auto
termination
  by (relation "measure (\<lambda>(_, _, p, _). length p)") (auto simp: next_component_shorter)

declare walk.simps [simp del]

definition vfs_open :: "bytes \<Rightarrow> mounts \<Rightarrow> fs \<Rightarrow> (u32 \<times> fs) option" where
  "vfs_open name ms s =
     (let root = vfs_get_root ms in
      if root = 0 then Some (0, s)
      else (let p = skip_slash (cstr name) in
        if p = [] then Some (root, s) else walk root root p s))"

section \<open>Paths and components\<close>

text \<open>The components of a path as the walk takes them.\<close>

function components :: "bytes \<Rightarrow> bytes list" where
  "components p = (if p = [] then [] else
     fst (next_component 127 p) # components (skip_slash (snd (next_component 127 p))))"
  by pat_completeness auto
termination
  by (relation "measure length") (auto simp: next_component_shorter)

declare components.simps [simp del]

fun join_path :: "bytes list \<Rightarrow> bytes" where
  "join_path [] = []"
| "join_path [c] = c"
| "join_path (c # d # cs) = c @ 0x2F # join_path (d # cs)"

lemma next_component_word:
  "0x2F \<notin> set w \<Longrightarrow> length w \<le> n \<Longrightarrow> q = [] \<or> hd q = 0x2F \<Longrightarrow> next_component n (w @ q) = (w, q)"
proof (induction w arbitrary: n)
  case Nil
  then show ?case by (cases n; cases q) auto
next
  case (Cons c w)
  then show ?case by (cases n) auto
qed

text \<open>Names of at most 127 characters without slashes are the components of the path they make.\<close>

lemma components_join:
  "\<forall>c \<in> set cs. c \<noteq> [] \<and> 0x2F \<notin> set c \<and> length c \<le> 127 \<Longrightarrow> components (join_path cs) = cs"
proof (induction cs rule: join_path.induct)
  case 1
  then show ?case by (simp add: components.simps)
next
  case (2 c)
  then have "next_component 127 c = (c, [])" using next_component_word [of c 127 "[]"] by simp
  then show ?case using 2 by (simp add: components.simps [of c] components.simps [of "[]"] skip_slash_def)
next
  case (3 c d cs)
  then have "next_component 127 (c @ 0x2F # join_path (d # cs)) = (c, 0x2F # join_path (d # cs))"
    by (intro next_component_word) simp_all
  then show ?case using 3 by (simp add: components.simps [of "c @ 0x2F # join_path (d # cs)"] skip_slash_def)
qed

section \<open>What a path means\<close>

text \<open>The node a list of components leads to, on the volume alone.\<close>

fun resolve :: "fat \<Rightarrow> vfs_node \<Rightarrow> bytes list \<Rightarrow> vfs_node option" where
  "resolve st nd [] = Some nd"
| "resolve st nd (c # cs) =
     (if vn_flags nd AND VFS_DIR = 0 then None
      else case find_from (vn_inode nd) c 0 st of
        Some (Some (lba, i, e)) \<Rightarrow> resolve st (node_of lba i e) cs
      | _ \<Rightarrow> None)"

text \<open>A node whose kind and table agree.\<close>

definition kind_ok :: "vfs_node \<Rightarrow> bool" where
  "kind_ok nd \<longleftrightarrow> vn_flags nd = VFS_DIR \<and> has_dir_ops (vn_ops nd) \<or> vn_flags nd = VFS_FILE \<and> vn_ops nd = fat16_file_ops"

text \<open>
  A volume whose directories are well formed: \<open>D\<close> are the first clusters of the directories that can be
  reached from the root.
\<close>

definition tree :: "fat \<Rightarrow> u32 set \<Rightarrow> bool" where
  "tree st D \<longleftrightarrow> layout st \<and> 0 < spc st \<and> 0 \<in> D
     \<and> (\<forall>ino \<in> D. \<exists>lbas. directory st ino lbas \<and> (\<forall>(l, i, e) \<in> set (live (slots st lbas)).
          de_attributes e AND FAT16_ATTR_DIRECTORY \<noteq> 0 \<longrightarrow> ucast (de_first_cluster e) \<in> D))"

definition node_in :: "u32 set \<Rightarrow> vfs_node \<Rightarrow> bool" where
  "node_in D nd \<longleftrightarrow> kind_ok nd \<and> (vn_flags nd = VFS_DIR \<longrightarrow> vn_inode nd \<in> D)"

lemma vfs_flag_bits [simp]: "VFS_DIR \<noteq> 0" "VFS_FILE AND VFS_DIR = 0" "VFS_FILE \<noteq> 0"
  "VFS_DIR AND VFS_FILE = 0" "VFS_FILE \<noteq> VFS_DIR" "VFS_DIR \<noteq> VFS_FILE"
  by (simp_all add: VFS_DIR_def VFS_FILE_def)

lemma node_of_kind: "kind_ok (node_of lba i e)" "has_close (vn_ops (node_of lba i e))"
  by (simp_all add: node_of_def kind_ok_def)

lemma find_in_tree:
  assumes "tree st D" "node_in D nd" "vn_flags nd = VFS_DIR"
  obtains (missing) "find_from (vn_inode nd) c 0 st = Some None"
  | (entry) lba i e where "find_from (vn_inode nd) c 0 st = Some (Some (lba, i, e))" "node_in D (node_of lba i e)"
proof -
  have "vn_inode nd \<in> D" using assms(2,3) by (simp add: node_in_def)
  then obtain lbas where l: "directory st (vn_inode nd) lbas" "\<forall>(l, i, e) \<in> set (live (slots st lbas)).
      de_attributes e AND FAT16_ATTR_DIRECTORY \<noteq> 0 \<longrightarrow> ucast (de_first_cluster e) \<in> D"
    using assms(1) unfolding tree_def by blast
  have ds: "dir_sectors st (vn_inode nd) lbas"
    using assms(1) l(1) by (intro directory_sectors) (simp_all add: tree_def)
  show ?thesis
  proof (cases "find (\<lambda>(lba, i, e). name_match e c) (live (slots st lbas))")
    case None
    then show ?thesis using find_slots [OF ds] by (intro missing) simp
  next
    case (Some x)
    obtain lba i e where x: "x = (lba, i, e)" by (cases x)
    have "x \<in> set (live (slots st lbas))" using Some by (metis find_Some_iff nth_mem)
    then have "node_in D (node_of lba i e)" using l(2) node_of_kind(1) [of lba i e]
      unfolding x by (auto simp: node_in_def node_of_def)
    then show ?thesis using find_slots [OF ds] Some x by (intro entry) simp_all
  qed
qed

section \<open>Resolution frees what it takes\<close>

lemma kmalloc_start: "kmalloc sz k = Some (p, k') \<Longrightarrow> heap_start_ptr k' = heap_start_ptr k"
  by (auto simp: kmalloc_def)

lemma owned_above:
  assumes "owned k ps" "p \<in> ps"
  shows "heap_start_ptr k < p"
proof -
  obtain bs where bs: "heap_at (kmem k) (heap_start_ptr k) bs" "ps = used_ptrs (heap_start_ptr k) bs"
    using assms(1) by (auto simp: owned_def heap_has_def)
  then obtain x where x: "x \<in> set (addrs (heap_start_ptr k) bs)" "p = x + 16" using used_ptrs_addrs assms(2) by force
  have f: "fits (heap_start_ptr k) bs" using bs(1) by (simp add: heap_at_def)
  have "unat (x + 16) = unat x + 16"
    using addrs_bounds [OF f x(1)] f by (intro unat_plus_numeral) (auto simp: fits_def)
  then show ?thesis using addrs_bounds [OF f x(1)] by (simp add: x(2) word_less_nat_alt)
qed

lemma finddir_step:
  assumes t: "tree (vol s) D" and n: "node_in D (nodes s n)" "n \<noteq> 0" and own: "owned (heap s) ps"
  obtains (none) s' where "vfs_finddir n c s = Some (0, s')" "vol s' = vol s" "nodes s' = nodes s"
      "heap_start_ptr (heap s') = heap_start_ptr (heap s)" "owned (heap s') ps"
      "\<And>cs. mallocs_left sizeof_vfs_node 1 (heap s) \<Longrightarrow> resolve (vol s) (nodes s n) (c # cs) = None"
  | (node) p s' nd where "vfs_finddir n c s = Some (p, s')" "p \<noteq> 0" "p \<notin> ps" "vol s' = vol s"
      "nodes s' = (nodes s)(p := nd)" "heap_start_ptr (heap s') = heap_start_ptr (heap s)"
      "owned (heap s') (insert p ps)" "node_in D nd" "has_close (vn_ops nd)"
      "\<And>cs. resolve (vol s) (nodes s n) (c # cs) = resolve (vol s) nd cs"
      "kmalloc sizeof_vfs_node (heap s) = Some (p, heap s')"
proof (cases "vn_flags (nodes s n) = VFS_DIR")
  case False
  then have "vn_flags (nodes s n) AND VFS_DIR = 0" using n(1) by (auto simp: node_in_def kind_ok_def)
  then show ?thesis using own by (intro none [of s]) (simp_all add: vfs_finddir_def)
next
  case True
  have m: "mounted (vol s)" using t by (simp add: tree_def layout_def)
  have v: "vfs_finddir n c s = fat16_vfs_finddir (nodes s n) c s"
    using True n by (auto simp: vfs_finddir_def node_in_def kind_ok_def)
  show ?thesis
  proof (rule find_in_tree [OF t n(1) True, of c])
    assume "find_from (vn_inode (nodes s n)) c 0 (vol s) = Some None"
    then show ?thesis using own m v by (intro none [of s]) (simp_all add: fat16_vfs_finddir_def)
  next
    fix lba i e
    assume f: "find_from (vn_inode (nodes s n)) c 0 (vol s) = Some (Some (lba, i, e))" and nd: "node_in D (node_of lba i e)"
    obtain p k where k: "kmalloc sizeof_vfs_node (heap s) = Some (p, k)" using ka.alloc_returns [OF own] by blast
    show ?thesis
    proof (cases "p = 0")
      case True
      then show ?thesis using own m v f k ka.alloc_none [OF own] kmalloc_start [OF k] mallocs_left_one [of sizeof_vfs_node "heap s"]
        by (intro none [of "s\<lparr>heap := k\<rparr>"]) (simp_all add: fat16_vfs_finddir_def fs_kmalloc_def)
    next
      case False
      then show ?thesis using m v f k ka.alloc_some [OF own k] kmalloc_start [OF k] nd node_of_kind(2) True
        by (intro node [of p "s\<lparr>heap := k, nodes := (nodes s)(p := node_of lba i e)\<rparr>" "node_of lba i e"])
          (simp_all add: fat16_vfs_finddir_def fs_kmalloc_def)
    qed
  qed
qed

text \<open>The node the walk stands on: the root, or a node of its own that is given back on the way.\<close>

definition standing :: "u32 \<Rightarrow> u32 \<Rightarrow> fs \<Rightarrow> u32 set \<Rightarrow> bool" where
  "standing root n s ps \<longleftrightarrow> (if n = root then owned (heap s) ps
     else n \<notin> ps \<and> n \<noteq> 0 \<and> owned (heap s) (insert n ps) \<and> has_close (vn_ops (nodes s n)))"

text \<open>Enough memory to go on from there: the node it stands on will be given back before the one after the next is taken.\<close>

definition supplied :: "u32 \<Rightarrow> u32 \<Rightarrow> fs \<Rightarrow> bool" where
  "supplied root n s \<longleftrightarrow> (if n = root then mallocs_left sizeof_vfs_node 2 (heap s)
     else mallocs_left sizeof_vfs_node 1 (heap s) \<and> allotted (heap s) n sizeof_vfs_node)"

lemma supplied_one: "supplied root n s \<Longrightarrow> mallocs_left sizeof_vfs_node 1 (heap s)"
  by (auto simp: supplied_def numeral_2_eq_2 One_nat_def split: if_splits option.splits)

lemma supplied_step:
  assumes "supplied root n s" "kmalloc sizeof_vfs_node (heap s) = Some (q, heap s1)" "q \<noteq> 0" "q \<noteq> root"
    "owned (heap s) ps" "n \<noteq> root \<Longrightarrow> n \<in> ps \<and> n \<noteq> 0 \<and> has_close (vn_ops (nodes s1 n))"
  shows "supplied root q (if n \<noteq> root then vfs_close n s1 else s1)"
proof (cases "n = root")
  case True
  then have "mallocs_left sizeof_vfs_node 1 (heap s1)"
    using assms(1,2) by (simp add: supplied_def numeral_2_eq_2)
  then show ?thesis using True assms(4) ks.alloc_holds [OF assms(5,2,3)] by (simp add: supplied_def)
next
  case False
  then have p: "n \<in> ps" "allotted (heap s) n sizeof_vfs_node" using assms(1,6) by (auto simp: supplied_def)
  have "heap (vfs_close n s1) = kfree n (heap s1)" using False assms(6) by (simp add: vfs_close_def fat16_vfs_close_def fs_kfree_def)
  then show ?thesis using False assms(4) ks.hand_over [OF assms(5) p assms(2,3)]
    unfolding supplied_def mallocs_left_one by simp
qed

lemma leave_node:
  assumes "standing root n s0 ps" "owned (heap s) (qs \<union> (if n = root then ps else insert n ps))"
    "qs \<inter> insert n ps = {}" "nodes s n = nodes s0 n"
  shows "owned (heap (if n \<noteq> root then vfs_close n s else s)) (qs \<union> ps)"
    "vol (if n \<noteq> root then vfs_close n s else s) = vol s" "nodes (if n \<noteq> root then vfs_close n s else s) = nodes s"
    "heap_start_ptr (heap (if n \<noteq> root then vfs_close n s else s)) = heap_start_ptr (heap s)"
proof -
  have "owned (kfree n (heap s)) (qs \<union> ps)" if "n \<noteq> root"
  proof -
    have "qs \<union> insert n ps - {n} = qs \<union> ps" using assms(1,3) that by (auto simp: standing_def)
    then show ?thesis using ka.free_own [of "heap s" "qs \<union> insert n ps" n] assms(2) that by simp
  qed
  then show "owned (heap (if n \<noteq> root then vfs_close n s else s)) (qs \<union> ps)"
    using assms by (auto simp: standing_def vfs_close_def fat16_vfs_close_def fs_kfree_def)
qed (auto simp: vfs_close_def fat16_vfs_close_def fs_kfree_def kfree_start)

lemma walk_spec:
  assumes "tree (vol s) D" "node_in D (nodes s n)" "standing root n s ps" "root \<le> heap_start_ptr (heap s)" "root \<noteq> 0"
  shows "\<exists>q s'. walk root n p s = Some (q, s') \<and> vol s' = vol s \<and> (\<forall>x \<in> insert root ps. nodes s' x = nodes s x)
    \<and> (q = 0 \<longrightarrow> owned (heap s') ps)
    \<and> (q \<noteq> 0 \<longrightarrow> standing root q s' ps \<and> resolve (vol s) (nodes s n) (components p) = Some (nodes s' q))
    \<and> (supplied root n s \<longrightarrow> q = 0 \<longrightarrow> resolve (vol s) (nodes s n) (components p) = None)"
  using assms
proof (induction "length p" arbitrary: p n s rule: less_induct)
  case less
  show ?case
  proof (cases "p = []")
    case True
    then show ?thesis using less.prems
      by (auto simp: walk.simps [of _ _ "[]"] components.simps [of "[]"] standing_def split: if_splits)
  next
    case False
    define c where "c = fst (next_component 127 p)"
    define r where "r = skip_slash (snd (next_component 127 p))"
    have sh: "length r < length p" unfolding r_def by (rule next_component_shorter [OF False])
    have cp: "components p = c # components r" using False by (simp add: components.simps [of p] c_def r_def)
    have wk: "walk root n p s = do {
        (nxt, s) \<leftarrow> vfs_finddir n c s;
        let s = (if n \<noteq> root then vfs_close n s else s);
        if nxt = 0 then Some (0, s) else walk root nxt r s }"
      using False by (simp add: walk.simps [of _ _ p] Let_def c_def [symmetric] r_def [symmetric])
    have n0: "n \<noteq> 0" using less.prems(3,5) by (auto simp: standing_def split: if_splits)
    have own: "owned (heap s) (if n = root then ps else insert n ps)"
      using less.prems(3) by (simp add: standing_def split: if_splits)
    show ?thesis
    proof (rule finddir_step [OF less.prems(1,2) n0 own, of c])
      fix s1
      assume s1: "vfs_finddir n c s = Some (0, s1)" "vol s1 = vol s" "nodes s1 = nodes s"
        "owned (heap s1) (if n = root then ps else insert n ps)"
        "\<And>cs. mallocs_left sizeof_vfs_node 1 (heap s) \<Longrightarrow> resolve (vol s) (nodes s n) (c # cs) = None"
      note lv = leave_node [OF less.prems(3), of s1 "{}"]
      show ?thesis using s1 lv supplied_one [of root n s] unfolding wk cp by simp
    next
      fix q s1 nd
      assume s1: "vfs_finddir n c s = Some (q, s1)" "q \<noteq> 0" "q \<notin> (if n = root then ps else insert n ps)" "vol s1 = vol s"
        "nodes s1 = (nodes s)(q := nd)" "heap_start_ptr (heap s1) = heap_start_ptr (heap s)"
        "owned (heap s1) (insert q (if n = root then ps else insert n ps))" "node_in D nd" "has_close (vn_ops nd)"
        "\<And>cs. resolve (vol s) (nodes s n) (c # cs) = resolve (vol s) nd cs"
        "kmalloc sizeof_vfs_node (heap s) = Some (q, heap s1)"
      have "heap_start_ptr (heap s1) < q" by (rule owned_above [OF s1(7)]) simp
      then have qr: "q \<noteq> root" "q \<notin> ps" "q \<noteq> n" using s1(3,6) less.prems(4) by (auto split: if_splits)
      define s2 where "s2 = (if n \<noteq> root then vfs_close n s1 else s1)"
      have lv: "owned (heap s2) ({q} \<union> ps)" "vol s2 = vol s" "nodes s2 = (nodes s)(q := nd)"
        "heap_start_ptr (heap s2) = heap_start_ptr (heap s)"
        using leave_node [OF less.prems(3), of s1 "{q}"] s1 qr by (simp_all add: s2_def)
      obtain q' s' where w: "walk root q r s2 = Some (q', s')" "vol s' = vol s2" "\<forall>x \<in> insert root ps. nodes s' x = nodes s2 x"
        "q' = 0 \<longrightarrow> owned (heap s') ps"
        "q' \<noteq> 0 \<longrightarrow> standing root q' s' ps \<and> resolve (vol s2) (nodes s2 q) (components r) = Some (nodes s' q')"
        "supplied root q s2 \<longrightarrow> q' = 0 \<longrightarrow> resolve (vol s2) (nodes s2 q) (components r) = None"
        using less.hyps [OF sh, of s2 q] less.prems(1,4,5) lv s1 qr by (auto simp: standing_def)
      have "supplied root q s2" if "supplied root n s"
        unfolding s2_def using s1(11,2) qr(1) own
      proof (rule supplied_step [OF that])
        show "n \<in> (if n = root then ps else insert n ps) \<and> n \<noteq> 0 \<and> has_close (vn_ops (nodes s1 n))" if "n \<noteq> root"
          using less.prems(3) that n0 s1(5) qr(3) by (simp add: standing_def)
      qed
      moreover have "resolve (vol s) (nodes s n) (components p) = resolve (vol s2) (nodes s2 q) (components r)"
        unfolding cp s1(10) by (simp add: lv)
      moreover have "walk root n p s = Some (q', s')" using s1(1,2) w(1) unfolding wk by (simp add: s2_def [symmetric])
      moreover have "nodes s' x = nodes s x" if "x \<in> insert root ps" for x using that w(3) qr by (auto simp: lv(3))
      ultimately show ?thesis using w lv(2) by auto
    qed
  qed
qed

end
