(* ===== verification/Vga.thy ===== *)
theory Vga
  imports Yotos_Base
begin

text \<open>
  The text screen \<^verbatim>\<open>drivers/vga.c\<close>. The buffer is a map from indices to character cells, so writes
  outside the 80 by 25 cells are visible; \<open>size_t\<close> is 32 bits wide.
\<close>

section \<open>The driver\<close>

definition VGA_WIDTH :: nat where "VGA_WIDTH = 80"
definition VGA_HEIGHT :: nat where "VGA_HEIGHT = 25"

definition VGA_COLOR_BLACK :: u8 where "VGA_COLOR_BLACK = 0"
definition VGA_COLOR_LIGHT_GREY :: u8 where "VGA_COLOR_LIGHT_GREY = 7"
definition VGA_CURSOR_HIGH_REGISTER :: u8 where "VGA_CURSOR_HIGH_REGISTER = 0x0E"
definition VGA_CURSOR_LOW_REGISTER :: u8 where "VGA_CURSOR_LOW_REGISTER = 0x0F"

text \<open>The static variables, the text buffer, and the registers of the CRT controller by index.\<close>

record vga =
  terminal_row :: u32
  terminal_column :: u32
  terminal_color :: u8
  terminal_buffer :: "u32 \<Rightarrow> u16"
  crtc :: "u8 \<Rightarrow> u8"

definition vga_entry_color :: "u8 \<Rightarrow> u8 \<Rightarrow> u8" where
  "vga_entry_color fg bg = fg OR push_bit 4 bg"

definition vga_entry :: "u8 \<Rightarrow> u8 \<Rightarrow> u16" where
  "vga_entry uc color = ucast uc OR push_bit 8 (ucast color)"

text \<open>A write of \<open>v\<close> to the data port after the index \<open>r\<close> was written to the index port.\<close>

definition crtc_write :: "u8 \<Rightarrow> u8 \<Rightarrow> vga \<Rightarrow> vga" where
  "crtc_write r v s = s\<lparr>crtc := (crtc s)(r := v)\<rparr>"

definition terminal_update_cursor :: "vga \<Rightarrow> vga" where
  "terminal_update_cursor s =
     (let position = ucast (terminal_row s * 80 + terminal_column s) :: u16;
          s = crtc_write VGA_CURSOR_LOW_REGISTER (ucast (position AND 0xFF)) s
      in crtc_write VGA_CURSOR_HIGH_REGISTER (ucast (drop_bit 8 position AND 0xFF)) s)"

definition change_color :: "u8 \<Rightarrow> u8 \<Rightarrow> vga \<Rightarrow> vga" where
  "change_color fg bg s = s\<lparr>terminal_color := vga_entry_color fg bg\<rparr>"

definition terminal_putentryat :: "u8 \<Rightarrow> u8 \<Rightarrow> u32 \<Rightarrow> u32 \<Rightarrow> vga \<Rightarrow> vga" where
  "terminal_putentryat c color x y s =
     s\<lparr>terminal_buffer := (terminal_buffer s)(y * 80 + x := vga_entry c color)\<rparr>"

definition terminal_clear_row :: "u32 \<Rightarrow> vga \<Rightarrow> vga" where
  "terminal_clear_row row s =
     fold (\<lambda>x s. terminal_putentryat 0x20 (terminal_color s) (of_nat x) row s) [0..<VGA_WIDTH] s"

definition terminal_initialize :: "vga \<Rightarrow> vga" where
  "terminal_initialize s =
     (let s = s\<lparr>terminal_row := 0, terminal_column := 0,
                terminal_color := vga_entry_color VGA_COLOR_LIGHT_GREY VGA_COLOR_BLACK\<rparr>
      in fold (\<lambda>y. fold (\<lambda>x s. terminal_putentryat 0x20 (terminal_color s) (of_nat x) (of_nat y) s) [0..<VGA_WIDTH])
           [0..<VGA_HEIGHT] s)"

definition copy_cell :: "nat \<Rightarrow> nat \<Rightarrow> vga \<Rightarrow> vga" where
  "copy_cell y x s = s\<lparr>terminal_buffer := (terminal_buffer s)
     ((of_nat y - 1) * 80 + of_nat x := terminal_buffer s (of_nat y * 80 + of_nat x))\<rparr>"

definition terminal_scroll :: "vga \<Rightarrow> vga" where
  "terminal_scroll s =
     (let s = fold (\<lambda>y. fold (copy_cell y) [0..<VGA_WIDTH]) [1..<VGA_HEIGHT] s;
          s = terminal_clear_row (of_nat (VGA_HEIGHT - 1)) s
      in s\<lparr>terminal_row := of_nat (VGA_HEIGHT - 1)\<rparr>)"

definition terminal_putchar :: "u8 \<Rightarrow> vga \<Rightarrow> vga" where
  "terminal_putchar c s =
     (if c = 0x0A
      then (let s = s\<lparr>terminal_column := 0, terminal_row := terminal_row s + 1\<rparr>;
                s = (if terminal_row s = of_nat VGA_HEIGHT then terminal_scroll s else s)
            in terminal_update_cursor s)
      else if c = 0x08
      then (let s = (if terminal_column s > 0 then s\<lparr>terminal_column := terminal_column s - 1\<rparr>
                     else s\<lparr>terminal_row := terminal_row s - 1, terminal_column := of_nat (VGA_WIDTH - 1)\<rparr>);
                s = terminal_putentryat 0x20 (terminal_color s) (terminal_column s) (terminal_row s) s
            in terminal_update_cursor s)
      else (let s = terminal_putentryat c (terminal_color s) (terminal_column s) (terminal_row s) s;
                s = s\<lparr>terminal_column := terminal_column s + 1\<rparr>;
                s = (if terminal_column s = of_nat VGA_WIDTH
                     then (let s = s\<lparr>terminal_column := 0, terminal_row := terminal_row s + 1\<rparr>
                           in if terminal_row s = of_nat VGA_HEIGHT then terminal_scroll s else s)
                     else s)
            in terminal_update_cursor s))"

definition terminal_write :: "bytes \<Rightarrow> vga \<Rightarrow> vga" where
  "terminal_write data s = fold terminal_putchar data s"

definition terminal_writestring :: "bytes \<Rightarrow> vga \<Rightarrow> vga" where
  "terminal_writestring data s = terminal_write (cstr data) s"

section \<open>The screen as a list of cells\<close>

text \<open>
  The reference: 2000 cells and a position in them. Writing behind the last cell drops the first row.
\<close>

record screen =
  cells :: "u16 list"
  pos :: nat
  attr :: u8

definition roll :: "screen \<Rightarrow> screen" where
  "roll t = (if pos t < 2000 then t
     else t\<lparr>cells := drop 80 (cells t) @ replicate 80 (vga_entry 0x20 (attr t)), pos := 1920\<rparr>)"

text \<open>Undefined for a backspace at the first cell.\<close>

definition screen_put :: "u8 \<Rightarrow> screen \<Rightarrow> screen option" where
  "screen_put c t =
     (if c = 0x0A then Some (roll (t\<lparr>pos := (pos t div 80 + 1) * 80\<rparr>))
      else if c = 0x08
      then (if pos t = 0 then None else Some (t\<lparr>pos := pos t - 1, cells := (cells t)[pos t - 1 := vga_entry 0x20 (attr t)]\<rparr>))
      else Some (roll (t\<lparr>cells := (cells t)[pos t := vga_entry c (attr t)], pos := pos t + 1\<rparr>)))"

definition on_screen :: "vga \<Rightarrow> bool" where
  "on_screen s \<longleftrightarrow> terminal_row s < 25 \<and> terminal_column s < 80"

definition screen_of :: "vga \<Rightarrow> screen" where
  "screen_of s = \<lparr>cells = map (\<lambda>i. terminal_buffer s (of_nat i)) [0..<2000],
     pos = unat (terminal_row s) * 80 + unat (terminal_column s), attr = terminal_color s\<rparr>"

text \<open>What no operation on the screen may touch: the memory beyond the cells.\<close>

definition beyond :: "vga \<Rightarrow> vga \<Rightarrow> bool" where
  "beyond s s' \<longleftrightarrow> (\<forall>k. 2000 \<le> k \<longrightarrow> terminal_buffer s' k = terminal_buffer s k)"

definition cursor_at :: "vga \<Rightarrow> nat \<Rightarrow> bool" where
  "cursor_at s p \<longleftrightarrow> unat (crtc s VGA_CURSOR_HIGH_REGISTER) * 256 + unat (crtc s VGA_CURSOR_LOW_REGISTER) = p"

section \<open>Writing runs of cells\<close>

lemma index_word: "of_nat y * 80 + of_nat x = (of_nat (y * 80 + x) :: u32)"
  by simp

lemma of_nat_u32_eq: "i < 4294967296 \<Longrightarrow> j < 4294967296 \<Longrightarrow> (of_nat i :: u32) = of_nat j \<longleftrightarrow> i = j"
  by (simp add: word_of_nat_eq_iff take_bit_nat_eq_self)

lemma unat_index: "y < 25 \<Longrightarrow> x < 80 \<Longrightarrow> unat (of_nat y * 80 + of_nat x :: u32) = y * 80 + x"
  unfolding index_word by (subst unat_of_nat) (simp add: mod_less)

lemma index_eq: "y < 25 \<Longrightarrow> x < 80 \<Longrightarrow> k = of_nat y * 80 + of_nat x \<longleftrightarrow> unat k = y * 80 + x" for k :: u32
  using unat_index by (metis word_unat_eq_iff)

lemma clear_cells:
  assumes "y < 25" "n \<le> 80"
  shows "fold (\<lambda>x s. terminal_putentryat 0x20 (terminal_color s) (of_nat x) (of_nat y) s) [0..<n] s =
    s\<lparr>terminal_buffer := (\<lambda>k. if y * 80 \<le> unat k \<and> unat k < y * 80 + n
      then vga_entry 0x20 (terminal_color s) else terminal_buffer s k)\<rparr>"
  using assms(2)
proof (induction n)
  case 0
  show ?case by (auto intro!: vga.equality simp: fun_eq_iff)
next
  case (Suc n)
  show ?case using Suc by (auto simp: terminal_putentryat_def index_eq [OF assms(1)] fun_eq_iff intro!: vga.equality)
qed

lemma clear_row_view:
  "y < 25 \<Longrightarrow> terminal_clear_row (of_nat y) s = s\<lparr>terminal_buffer := (\<lambda>k. if y * 80 \<le> unat k \<and> unat k < y * 80 + 80
    then vga_entry 0x20 (terminal_color s) else terminal_buffer s k)\<rparr>"
  using clear_cells [of y 80 s] by (simp add: terminal_clear_row_def VGA_WIDTH_def)

lemma initialize_view:
  "terminal_initialize s = s\<lparr>terminal_row := 0, terminal_column := 0, terminal_color := 7,
     terminal_buffer := (\<lambda>k. if unat k < 2000 then vga_entry 0x20 7 else terminal_buffer s k)\<rparr>"
proof -
  define t where "t = s\<lparr>terminal_row := 0, terminal_column := 0, terminal_color := 7\<rparr>"
  have c: "terminal_color t = 7" and b: "terminal_buffer t = terminal_buffer s" by (simp_all add: t_def)
  have "fold (\<lambda>y. fold (\<lambda>x s. terminal_putentryat 0x20 (terminal_color s) (of_nat x) (of_nat y) s) [0..<80]) [0..<n] t =
      t\<lparr>terminal_buffer := (\<lambda>k. if unat k < n * 80 then vga_entry 0x20 7 else terminal_buffer t k)\<rparr>" if "n \<le> 25" for n
    using that
  proof (induction n)
    case (Suc n)
    then show ?case by (auto simp: clear_cells c fun_eq_iff intro!: vga.equality)
  qed (simp add: c)
  from this [of 25, unfolded b] show ?thesis
    by (simp add: terminal_initialize_def VGA_WIDTH_def VGA_HEIGHT_def VGA_COLOR_LIGHT_GREY_def VGA_COLOR_BLACK_def
        vga_entry_color_def t_def)
qed

lemma copy_row:
  assumes "1 \<le> y" "y < 25" "n \<le> 80"
  shows "fold (copy_cell y) [0..<n] s = s\<lparr>terminal_buffer := (\<lambda>k. if (y - 1) * 80 \<le> unat k \<and> unat k < (y - 1) * 80 + n
    then terminal_buffer s (k + 80) else terminal_buffer s k)\<rparr>"
  using assms(3)
proof (induction n)
  case 0
  show ?case by (auto intro!: vga.equality simp: fun_eq_iff)
next
  case (Suc n)
  have w: "(of_nat y - 1 :: u32) = of_nat (y - 1)" using assms(1) by (simp add: of_nat_diff)
  have e: "k = (of_nat y - 1) * 80 + of_nat n \<longleftrightarrow> unat k = (y - 1) * 80 + n" for k :: u32
    unfolding w using assms(1,2) Suc.prems by (intro index_eq) simp_all
  have src: "k + 80 = of_nat y * 80 + of_nat n" if "unat k = (y - 1) * 80 + n" for k :: u32
    using that e [of k] by (simp add: algebra_simps)
  have u: "unat (of_nat y * 80 + of_nat n :: u32) = y * 80 + n" using assms(2) Suc.prems by (intro unat_index) simp_all
  have "(y - 1) * 80 + n < y * 80 + n" using assms(1) by simp
  then have ns: "\<not> (unat (of_nat y * 80 + of_nat n :: u32) < (y - 1) * 80 + n)" unfolding u by linarith
  show ?case using Suc src e ns by (auto simp: copy_cell_def fun_eq_iff less_Suc_eq intro!: vga.equality)
qed

lemma copy_rows:
  assumes "m \<le> 25" "1 \<le> m"
  shows "fold (\<lambda>y. fold (copy_cell y) [0..<80]) [1..<m] s = s\<lparr>terminal_buffer := (\<lambda>k. if unat k < (m - 1) * 80
    then terminal_buffer s (k + 80) else terminal_buffer s k)\<rparr>"
  using assms
proof (induction m)
  case (Suc m)
  show ?case
  proof (cases "m = 0")
    case True
    then show ?thesis by simp
  next
    case False
    have p: "unat (k + 80) = unat k + 80" if "unat k < 2000" for k :: u32 using that by (simp add: unat_add_u32)
    have "m * 80 \<le> 24 * 80" using Suc.prems by simp
    then have q: "\<not> unat (k + 80) < (m - 1) * 80" if "(m - 1) * 80 \<le> unat k" "unat k < m * 80" for k :: u32
      using p [of k] that by linarith
    have l: "(m - 1) * 80 + 80 = m * 80" using False by (cases m) simp_all
    have "[1..<Suc m] = [1..<m] @ [m]" using False by simp
    then show ?thesis using Suc False q l
      by (auto simp: copy_row fun_eq_iff intro!: vga.equality)
  qed
qed simp

lemma scroll_view:
  "terminal_scroll s = s\<lparr>terminal_row := 24, terminal_buffer := (\<lambda>k. if unat k < 1920 then terminal_buffer s (k + 80)
     else if unat k < 2000 then vga_entry 0x20 (terminal_color s) else terminal_buffer s k)\<rparr>"
  using copy_rows [of 25 s] clear_row_view [of 24]
  by (auto simp: terminal_scroll_def VGA_WIDTH_def VGA_HEIGHT_def Let_def fun_eq_iff intro!: vga.equality)

section \<open>Every operation on the screen\<close>

definition cell_list :: "(u32 \<Rightarrow> u16) \<Rightarrow> u16 list" where
  "cell_list b = map (\<lambda>i. b (of_nat i)) [0..<2000]"

lemma screen_of_cells: "screen_of s = \<lparr>cells = cell_list (terminal_buffer s),
    pos = unat (terminal_row s) * 80 + unat (terminal_column s), attr = terminal_color s\<rparr>"
  by (simp add: screen_of_def cell_list_def)

lemma on_screen_index:
  fixes x y :: u32
  assumes "y < 25" "x < 80"
  shows "unat (y * 80 + x) = unat y * 80 + unat x" "unat y * 80 + unat x < 2000"
proof -
  have b: "unat y < 25" "unat x < 80" using assms by (simp_all add: word_less_nat_alt)
  show "unat y * 80 + unat x < 2000" using b by simp
  have "unat (y * 80) = unat y * 80" using b by (simp add: unat_mult_u32)
  then show "unat (y * 80 + x) = unat y * 80 + unat x" using b by (subst unat_add_u32) simp_all
qed

lemma unat_of_nat_cell: "i < 2000 \<Longrightarrow> unat (of_nat i :: u32) = i"
  by (subst unat_of_nat) (simp add: mod_less)

lemma cell_list_upd: "unat k < 2000 \<Longrightarrow> cell_list (b(k := v)) = (cell_list b)[unat k := v]"
proof -
  assume k: "unat k < 2000"
  have "of_nat i = k \<longleftrightarrow> i = unat k" if "i < 2000" for i
    using unat_of_nat_cell [OF that] by auto
  then show ?thesis by (intro nth_equalityI) (auto simp: cell_list_def nth_list_update)
qed

lemma cell_list_scroll:
  "cell_list (terminal_buffer (terminal_scroll s)) =
    drop 80 (cell_list (terminal_buffer s)) @ replicate 80 (vga_entry 0x20 (terminal_color s))"
proof (rule nth_equalityI)
  fix i assume "i < length (cell_list (terminal_buffer (terminal_scroll s)))"
  then have i: "i < 2000" by (simp add: cell_list_def)
  have "of_nat (80 + i) = (of_nat i + 80 :: u32)" by (simp add: add.commute)
  then show "cell_list (terminal_buffer (terminal_scroll s)) ! i =
      (drop 80 (cell_list (terminal_buffer s)) @ replicate 80 (vga_entry 0x20 (terminal_color s))) ! i"
    using i by (auto simp: cell_list_def scroll_view unat_of_nat_cell nth_append add.commute)
qed (simp add: cell_list_def)

lemma mask_eq_numeral_255: "mask 8 = (0xFF :: u16)"
  by (simp add: mask_eq_exp_minus_1)

lemma update_cursor_view:
  assumes "on_screen s"
  shows "terminal_row (terminal_update_cursor s) = terminal_row s" "terminal_column (terminal_update_cursor s) = terminal_column s"
    "terminal_buffer (terminal_update_cursor s) = terminal_buffer s" "terminal_color (terminal_update_cursor s) = terminal_color s"
    "cursor_at (terminal_update_cursor s) (unat (terminal_row s) * 80 + unat (terminal_column s))"
proof -
  define p where "p = terminal_row s * 80 + terminal_column s"
  have p: "unat p = unat (terminal_row s) * 80 + unat (terminal_column s)" "unat p < 2000"
    using on_screen_index [of "terminal_row s" "terminal_column s"] assms by (simp_all add: p_def on_screen_def)
  have m: "(ucast (q AND 0xFF) :: u8) = ucast q" for q :: u16
    by (rule bit_word_eqI) (simp add: bit_simps flip: mask_eq_numeral_255)
  have u: "unat (ucast p :: u16) = unat p" using p(2) by (simp add: unsigned_ucast_eq take_bit_nat_eq_self)
  have n: "unat (ucast q :: u8) = unat q mod 256" for q :: u16 by (simp add: unsigned_ucast_eq take_bit_eq_mod)
  have lo: "unat (ucast ((ucast p :: u16) AND 0xFF) :: u8) = unat p mod 256" unfolding m n u ..
  have hi: "unat (ucast (drop_bit 8 (ucast p :: u16) AND 0xFF) :: u8) = unat p div 256"
    unfolding m n using u p(2) by (simp add: drop_bit_eq_div unat_div)
  have "unat p div 256 * 256 + unat p mod 256 = unat p" by simp
  then show "cursor_at (terminal_update_cursor s) (unat (terminal_row s) * 80 + unat (terminal_column s))"
    unfolding p(1) [symmetric] cursor_at_def terminal_update_cursor_def Let_def crtc_write_def p_def [symmetric]
    using lo hi by (simp add: VGA_CURSOR_LOW_REGISTER_def VGA_CURSOR_HIGH_REGISTER_def)
qed (simp_all add: terminal_update_cursor_def crtc_write_def Let_def)

lemma unat_numeral_80: "unat (80 :: u32) = 80"
  by simp

lemma beyond_trans: "beyond s t \<Longrightarrow> beyond t u \<Longrightarrow> beyond s u"
  by (simp add: beyond_def)

text \<open>The three ways a character ends: a cell written or not, then perhaps a new row.\<close>

lemma advance_row:
  assumes "terminal_row s \<le> 25" "terminal_column s = 0" "r = terminal_row s"
  shows "let s' = (if terminal_row s = of_nat VGA_HEIGHT then terminal_scroll s else s) in
    on_screen s' \<and> beyond s s' \<and> screen_of s' = roll (screen_of s)"
proof (cases "terminal_row s = 25")
  case True
  have "beyond s (terminal_scroll s)"
    by (auto simp: beyond_def scroll_view word_le_nat_alt)
  moreover have "on_screen (terminal_scroll s)" using assms(2) by (simp add: on_screen_def scroll_view)
  moreover have "screen_of (terminal_scroll s) = roll (screen_of s)"
    using True assms(2) by (simp add: screen_of_cells cell_list_scroll roll_def) (simp add: scroll_view)
  ultimately show ?thesis using True by (simp add: VGA_HEIGHT_def)
next
  case False
  have "terminal_row s < 25" using assms(1) False by (simp add: order_less_le)
  then show ?thesis using False assms(2)
    by (auto simp: on_screen_def beyond_def roll_def screen_of_def VGA_HEIGHT_def word_less_nat_alt)
qed

lemma putentry_view:
  assumes "on_screen s"
  shows "let s' = terminal_putentryat c (terminal_color s) (terminal_column s) (terminal_row s) s in
    beyond s s' \<and> screen_of s' = (screen_of s)\<lparr>cells := (cells (screen_of s))[pos (screen_of s) := vga_entry c (terminal_color s)]\<rparr>"
  using on_screen_index [of "terminal_row s" "terminal_column s"] assms
  by (auto simp: on_screen_def beyond_def terminal_putentryat_def screen_of_cells cell_list_upd word_le_nat_alt Let_def)

lemma putchar_refines:
  assumes s: "on_screen s" and t: "screen_put c (screen_of s) = Some t"
  shows "on_screen (terminal_putchar c s) \<and> screen_of (terminal_putchar c s) = t \<and> beyond s (terminal_putchar c s)
    \<and> cursor_at (terminal_putchar c s) (pos t)"
proof -
  have fin: "on_screen (terminal_update_cursor u) \<and> screen_of (terminal_update_cursor u) = screen_of u
      \<and> beyond u (terminal_update_cursor u) \<and> cursor_at (terminal_update_cursor u) (pos (screen_of u))" if "on_screen u" for u
    using update_cursor_view [OF that] that by (simp add: on_screen_def screen_of_def beyond_def)
  have b: "unat (terminal_row s) < 25" "unat (terminal_column s) < 80"
    using s by (simp_all add: on_screen_def word_less_nat_alt)
  have r1: "unat (terminal_row s + 1) = unat (terminal_row s) + 1" using b by (simp add: unat_add_u32)
  have c1: "unat (terminal_column s + 1) = unat (terminal_column s) + 1" using b by (simp add: unat_add_u32)
  consider (newline) "c = 0x0A" | (erase) "c = 0x08" | (plain) "c \<noteq> 0x0A" "c \<noteq> 0x08" by blast
  then obtain u where u: "terminal_putchar c s = terminal_update_cursor u" "on_screen u" "beyond s u" "screen_of u = t"
  proof cases
    case newline
    define v where "v = s\<lparr>terminal_column := 0, terminal_row := terminal_row s + 1\<rparr>"
    have v: "terminal_row v \<le> 25" "terminal_column v = 0" "beyond s v" using r1 b by (simp_all add: v_def word_le_nat_alt beyond_def)
    have "screen_of v = (screen_of s)\<lparr>pos := (pos (screen_of s) div 80 + 1) * 80\<rparr>"
      using r1 b by (simp add: screen_of_def v_def)
    moreover define w where "w = (if terminal_row v = of_nat VGA_HEIGHT then terminal_scroll v else v)"
    moreover have "terminal_putchar c s = terminal_update_cursor w"
      unfolding w_def v_def using newline by (simp add: terminal_putchar_def Let_def)
    ultimately show ?thesis using advance_row [OF v(1,2) refl] that [of w] newline t beyond_trans [OF v(3), of w]
      by (auto simp: screen_put_def Let_def)
  next
    case erase
    then have p: "pos (screen_of s) \<noteq> 0" "t = (screen_of s)\<lparr>pos := pos (screen_of s) - 1,
        cells := (cells (screen_of s))[pos (screen_of s) - 1 := vga_entry 0x20 (terminal_color s)]\<rparr>"
      using t by (auto simp: screen_put_def split: if_splits) (simp_all add: screen_of_def)
    define v where "v = (if terminal_column s > 0 then s\<lparr>terminal_column := terminal_column s - 1\<rparr>
        else s\<lparr>terminal_row := terminal_row s - 1, terminal_column := of_nat (VGA_WIDTH - 1)\<rparr>)"
    have v: "on_screen v \<and> pos (screen_of v) = pos (screen_of s) - 1 \<and> cells (screen_of v) = cells (screen_of s)
        \<and> terminal_color v = terminal_color s \<and> beyond s v"
    proof (cases "terminal_column s > 0")
      case True
      then have "unat (terminal_column s - 1) = unat (terminal_column s) - 1" by (simp add: unat_sub_if' word_less_nat_alt)
      then show ?thesis using True b s
        by (simp add: v_def on_screen_def screen_of_def beyond_def word_less_nat_alt)
    next
      case False
      then have r0: "0 < unat (terminal_row s)" using p(1) by (auto simp: screen_of_def word_less_nat_alt)
      moreover from this have "unat (terminal_row s - 1) = unat (terminal_row s) - 1"
        by (simp add: unat_sub_if' word_less_nat_alt)
      moreover obtain m where "unat (terminal_row s) = Suc m" using r0 gr0_implies_Suc by blast
      moreover have "terminal_column s = 0" using False word_neq_0_conv by blast
      ultimately show ?thesis using b
        by (simp add: v_def on_screen_def screen_of_def beyond_def word_less_nat_alt VGA_WIDTH_def)
    qed
    define w where "w = terminal_putentryat 0x20 (terminal_color v) (terminal_column v) (terminal_row v) v"
    have "terminal_row w = terminal_row v" "terminal_column w = terminal_column v" by (simp_all add: w_def terminal_putentryat_def)
    moreover have "beyond v w \<and> screen_of w = t"
      using putentry_view [of v "0x20"] v p(2) by (simp add: w_def Let_def) (simp add: screen_of_def)
    ultimately show ?thesis using that [of w] v erase beyond_trans [of s v w]
      by (simp add: terminal_putchar_def Let_def v_def [symmetric] w_def on_screen_def)
  next
    case plain
    define v where "v = terminal_putentryat c (terminal_color s) (terminal_column s) (terminal_row s) s"
    have v: "beyond s v" "screen_of v = (screen_of s)\<lparr>cells := (cells (screen_of s))[pos (screen_of s) := vga_entry c (terminal_color s)]\<rparr>"
      using putentry_view [OF s, of c] by (simp_all add: v_def Let_def)
    have vr: "terminal_row v = terminal_row s" "terminal_column v = terminal_column s" by (simp_all add: v_def terminal_putentryat_def)
    have t': "t = roll ((screen_of v)\<lparr>pos := pos (screen_of s) + 1\<rparr>)" using t plain v(2) by (auto simp: screen_put_def screen_of_def)
    have pc: "terminal_putchar c s = (let u = v\<lparr>terminal_column := terminal_column v + 1\<rparr> in terminal_update_cursor
        (if terminal_column u = of_nat VGA_WIDTH
         then (let u = u\<lparr>terminal_column := 0, terminal_row := terminal_row u + 1\<rparr>
               in if terminal_row u = of_nat VGA_HEIGHT then terminal_scroll u else u)
         else u))"
      unfolding v_def terminal_putchar_def Let_def using plain by simp
    show ?thesis
    proof (cases "terminal_column s + 1 = 80")
      case True
      define w where "w = v\<lparr>terminal_column := 0, terminal_row := terminal_row v + 1\<rparr>"
      have c80: "unat (terminal_column s) = 79" using c1 True by (simp add: word_unat_eq_iff)
      have w: "terminal_row w \<le> 25" "terminal_column w = 0" "beyond v w"
        using r1 b vr by (simp_all add: w_def word_le_nat_alt beyond_def)
      have "screen_of w = (screen_of v)\<lparr>pos := pos (screen_of s) + 1\<rparr>"
        using r1 c80 vr by (simp add: screen_of_def w_def)
      moreover define x where "x = (if terminal_row w = of_nat VGA_HEIGHT then terminal_scroll w else w)"
      moreover have "terminal_putchar c s = terminal_update_cursor x"
        unfolding x_def w_def pc Let_def using True vr by (simp add: VGA_WIDTH_def)
      ultimately show ?thesis using advance_row [OF w(1,2) refl] that [of x] t' beyond_trans [OF v(1), of x] beyond_trans [OF w(3), of x]
        by (auto simp: Let_def)
    next
      case False
      define w where "w = v\<lparr>terminal_column := terminal_column v + 1\<rparr>"
      have "unat (terminal_column s) + 1 \<noteq> 80" using False c1 by (metis unat_numeral_80 word_unat_eq_iff)
      then have "on_screen w" using b c1 s vr by (simp add: w_def on_screen_def word_less_nat_alt)
      moreover have "screen_of w = t" using t' c1 vr b \<open>unat (terminal_column s) + 1 \<noteq> 80\<close>
        by (auto simp: w_def screen_of_def roll_def)
      moreover have "beyond s w" using v(1) by (simp add: w_def beyond_def)
      moreover have "terminal_putchar c s = terminal_update_cursor w"
        unfolding w_def pc Let_def using False vr by (simp add: VGA_WIDTH_def)
      ultimately show ?thesis using that [of w] by simp
    qed
  qed
  show ?thesis using fin [OF u(2)] u beyond_trans [OF u(3)] by auto
qed

section \<open>Properties\<close>

fun screen_write :: "bytes \<Rightarrow> screen \<Rightarrow> screen option" where
  "screen_write [] t = Some t"
| "screen_write (c # cs) t = (case screen_put c t of None \<Rightarrow> None | Some u \<Rightarrow> screen_write cs u)"

text \<open>
  C22. Writing text does to the screen what it does to a list of 2000 cells and a position: newlines,
  backspaces, wrapping at the end of a row and scrolling included. The cursor stays on the screen
  and no memory behind the cells is written, as long as no backspace is written at the first cell.
\<close>

theorem terminal_refines_screen:
  assumes "on_screen s" "screen_write data (screen_of s) = Some t"
  shows "on_screen (terminal_write data s) \<and> screen_of (terminal_write data s) = t \<and> beyond s (terminal_write data s)
    \<and> (data \<noteq> [] \<longrightarrow> cursor_at (terminal_write data s) (pos t))"
  using assms
proof (induction data arbitrary: s)
  case Nil
  then show ?case by (simp add: terminal_write_def beyond_def)
next
  case (Cons c cs)
  then obtain u where u: "screen_put c (screen_of s) = Some u" "screen_write cs u = Some t" by (auto split: option.splits)
  note p = putchar_refines [OF Cons.prems(1) u(1)]
  have w: "terminal_write (c # cs) s = terminal_write cs (terminal_putchar c s)" by (simp add: terminal_write_def)
  have "cs = [] \<Longrightarrow> u = t" using u(2) by simp
  then show ?case unfolding w using p Cons.IH [of "terminal_putchar c s"] u(2) beyond_trans
    by (cases "cs = []") (auto simp: terminal_write_def)
qed

definition vga_demo :: vga where
  "vga_demo = terminal_initialize \<lparr>terminal_row = 9, terminal_column = 99, terminal_color = 0,
     terminal_buffer = (\<lambda>_. 0), crtc = (\<lambda>_. 0)\<rparr>"

lemma vga_demo_screen: "on_screen vga_demo" "screen_of vga_demo = \<lparr>cells = replicate 2000 0x720, pos = 0, attr = 7\<rparr>"
proof -
  show "on_screen vga_demo" by (simp add: vga_demo_def initialize_view on_screen_def)
  have e: "vga_entry 0x20 7 = 0x720" by (simp add: vga_entry_def)
  have "cells (screen_of vga_demo) = replicate 2000 0x720"
    by (rule nth_equalityI) (simp_all add: vga_demo_def initialize_view screen_of_def unat_of_nat_cell e)
  then show "screen_of vga_demo = \<lparr>cells = replicate 2000 0x720, pos = 0, attr = 7\<rparr>"
    by (simp add: screen_of_def) (simp add: vga_demo_def initialize_view)
qed

lemma terminal_refines_screen_witness:
  "screen_of (terminal_write [0x41, 0x0A] vga_demo) = \<lparr>cells = (replicate 2000 0x720)[0 := 0x741], pos = 80, attr = 7\<rparr>
    \<and> cursor_at (terminal_write [0x41, 0x0A] vga_demo) 80"
proof -
  have "screen_write [0x41, 0x0A] (screen_of vga_demo) = Some \<lparr>cells = (replicate 2000 0x720)[0 := 0x741], pos = 80, attr = 7\<rparr>"
    by (simp add: vga_demo_screen(2) screen_put_def roll_def vga_entry_def del: list_update.simps replicate.simps)
  from terminal_refines_screen [OF vga_demo_screen(1) this] show ?thesis by simp
qed

lemma minus_one_u32: "(- 1 :: u32) = 0xFFFFFFFF"
  by simp

text \<open>
  A backspace at the first cell leaves the screen: the row wraps around to its largest value and a blank
  is written to the cell before the text buffer.
\<close>

theorem backspace_at_origin:
  assumes "terminal_row s = 0" "terminal_column s = 0"
  shows "terminal_row (terminal_putchar 0x08 s) = 0xFFFFFFFF \<and> \<not> on_screen (terminal_putchar 0x08 s)
    \<and> terminal_buffer (terminal_putchar 0x08 s) = (terminal_buffer s)(0xFFFFFFFF := vga_entry 0x20 (terminal_color s))"
  using assms by (simp add: terminal_putchar_def Let_def terminal_putentryat_def terminal_update_cursor_def
      crtc_write_def on_screen_def VGA_WIDTH_def flip: minus_one_u32)

lemma backspace_at_origin_witness:
  "terminal_buffer vga_demo 0xFFFFFFFF = 0 \<and> terminal_buffer (terminal_putchar 0x08 vga_demo) 0xFFFFFFFF = 0x720"
proof -
  have v: "terminal_row vga_demo = 0" "terminal_column vga_demo = 0" "terminal_color vga_demo = 7"
    "terminal_buffer vga_demo 0xFFFFFFFF = 0"
    by (simp_all add: vga_demo_def initialize_view)
  from backspace_at_origin [OF v(1,2)] v(3,4) show ?thesis by (simp add: vga_entry_def)
qed

end
