(* ===== verification/Io.thy ===== *)
theory Io
  imports Yotos_Base "HOL-Library.Monad_Syntax"
begin

text \<open>
  Port input and output, \<^verbatim>\<open>include/io.h\<close>. The hardware behind the ports is a parameter of the drivers: how
  reading and writing a port acts on its state \<open>'s\<close>.
\<close>

record 's ports =
  inb :: "u16 \<Rightarrow> 's \<Rightarrow> u8 \<times> 's"
  outb :: "u16 \<Rightarrow> u8 \<Rightarrow> 's \<Rightarrow> 's"
  inw :: "u16 \<Rightarrow> 's \<Rightarrow> u16 \<times> 's"
  outw :: "u16 \<Rightarrow> u16 \<Rightarrow> 's \<Rightarrow> 's"

text \<open>A loop that waits for a device, \<open>while (!ready);\<close> on the value of a port; \<open>None\<close> when it never ends.\<close>

partial_function (option) wait_port :: "'s ports \<Rightarrow> u16 \<Rightarrow> (u8 \<Rightarrow> bool) \<Rightarrow> 's \<Rightarrow> 's option" where
  "wait_port io p ready s = (let (v, s) = inb io p s in if ready v then Some s else wait_port io p ready s)"

text \<open>A sequence of byte writes.\<close>

definition outs :: "'s ports \<Rightarrow> (u16 \<times> u8) list \<Rightarrow> 's \<Rightarrow> 's" where
  "outs io ws s = fold (\<lambda>(p, v). outb io p v) ws s"

text \<open>Hardware that only records what is written to it, and reads as 0xFF.\<close>

definition recorder :: "(u16 \<times> u8) list ports" where
  "recorder = \<lparr>inb = \<lambda>_ s. (0xFF, s), outb = \<lambda>p v s. s @ [(p, v)], inw = \<lambda>_ s. (0xFFFF, s), outw = \<lambda>_ _ s. s\<rparr>"

end
