(* ===== verification/Stdio.thy ===== *)
theory Stdio
  imports Vga Io Klibc_String
begin

text \<open>
  \<^verbatim>\<open>klibc/stdio.c\<close> on the screen and the serial port \<^verbatim>\<open>drivers/uart.c\<close>. A wait for a serial port that never
  becomes ready has the value \<open>None\<close>, as have a format string that ends in a percent sign and
  a missing or mistyped argument, for which C has no meaning.
\<close>

section \<open>The serial port\<close>

definition COM1 :: u16 where "COM1 = 0x3F8"

definition uart_init :: "'s ports \<Rightarrow> 's \<Rightarrow> 's" where
  "uart_init io s = outs io [(COM1 + 1, 0x00), (COM1 + 3, 0x80), (COM1 + 0, 0x03), (COM1 + 1, 0x00),
     (COM1 + 3, 0x03), (COM1 + 2, 0xC7), (COM1 + 4, 0x0B)] s"

definition uart_putc :: "'s ports \<Rightarrow> u8 \<Rightarrow> 's \<Rightarrow> 's option" where
  "uart_putc io c s = map_option (outb io COM1 c) (wait_port io (COM1 + 5) (\<lambda>v. v AND 0x20 \<noteq> 0) s)"

fun uart_put_all :: "'s ports \<Rightarrow> bytes \<Rightarrow> 's \<Rightarrow> 's option" where
  "uart_put_all io [] s = Some s"
| "uart_put_all io (c # cs) s = do { s \<leftarrow> uart_putc io c s; uart_put_all io cs s }"

definition uart_puts :: "'s ports \<Rightarrow> bytes \<Rightarrow> 's \<Rightarrow> 's option" where
  "uart_puts io t s = uart_put_all io (cstr t) s"

definition uart_getchar :: "'s ports \<Rightarrow> 's \<Rightarrow> u8 \<times> 's" where
  "uart_getchar io s =
     (let (v, s) = inb io (COM1 + 5) s in if v AND 0x01 = 0 then (0, s) else inb io COM1 s)"

section \<open>Characters and strings\<close>

record 's console =
  vga :: vga
  uart_output_mode :: bool
  wire :: 's

definition putchar :: "'s ports \<Rightarrow> u8 \<Rightarrow> 's console \<Rightarrow> 's console option" where
  "putchar io c s =
     (let s = s\<lparr>vga := terminal_putchar c (vga s)\<rparr> in
      if uart_output_mode s then map_option (\<lambda>w. s\<lparr>wire := w\<rparr>) (uart_putc io c (wire s)) else Some s)"

fun put_all :: "'s ports \<Rightarrow> bytes \<Rightarrow> 's console \<Rightarrow> 's console option" where
  "put_all io [] s = Some s"
| "put_all io (c # cs) s = do { s \<leftarrow> putchar io c s; put_all io cs s }"

definition print_str :: "'s ports \<Rightarrow> bytes \<Rightarrow> 's console \<Rightarrow> 's console option" where
  "print_str io t s = put_all io (cstr t) s"

section \<open>Numbers\<close>

text \<open>The digits the loop of \<open>print_int\<close> stores, from the last one down, before those in \<open>acc\<close>.\<close>

function int_digits :: "u32 \<Rightarrow> bytes \<Rightarrow> bytes" where
  "int_digits v acc = (if v > 0 then int_digits (v div 10) ((0x30 + ucast (v mod 10)) # acc) else acc)"
  by pat_completeness auto
termination
  by (relation "measure (\<lambda>(v, _). unat v)") (auto simp: unat_div word_less_nat_alt)

declare int_digits.simps [simp del]

definition print_int :: "'s ports \<Rightarrow> u32 \<Rightarrow> 's console \<Rightarrow> 's console option" where
  "print_int io v s = (if v = 0 then putchar io 0x30 s else print_str io (int_digits v []) s)"

definition hex_digit :: "u8 \<Rightarrow> u8" where
  "hex_digit nibble = (if nibble < 10 then 0x30 + nibble else 0x41 + nibble - 10)"

fun hex_digits :: "nat \<Rightarrow> u32 \<Rightarrow> bytes \<Rightarrow> bytes" where
  "hex_digits 0 v acc = acc"
| "hex_digits (Suc n) v acc = hex_digits n (drop_bit 4 v) (hex_digit (ucast (v AND 0xF)) # acc)"

definition print_hex :: "'s ports \<Rightarrow> u32 \<Rightarrow> 's console \<Rightarrow> 's console option" where
  "print_hex io v s = print_str io (0x30 # 0x78 # hex_digits 8 v []) s"

section \<open>\<open>printf\<close>\<close>

datatype va = Va_int u32 | Va_str bytes

text \<open>\<open>fmt\<close> is the string without its final zero.\<close>

fun printf_from :: "'s ports \<Rightarrow> bytes \<Rightarrow> va list \<Rightarrow> 's console \<Rightarrow> 's console option" where
  "printf_from io [] args s = Some s"
| "printf_from io (c # fmt) args s =
     (if c = 0x25
      then (case fmt of
        [] \<Rightarrow> None
      | d # fmt \<Rightarrow>
          (if d = 0x64 then (case args of Va_int n # args \<Rightarrow> do { s \<leftarrow> print_int io n s; printf_from io fmt args s } | _ \<Rightarrow> None)
           else if d = 0x78 then (case args of Va_int n # args \<Rightarrow> do { s \<leftarrow> print_hex io n s; printf_from io fmt args s } | _ \<Rightarrow> None)
           else if d = 0x73 then (case args of Va_str t # args \<Rightarrow> do { s \<leftarrow> print_str io t s; printf_from io fmt args s } | _ \<Rightarrow> None)
           else if d = 0x63 then (case args of Va_int n # args \<Rightarrow> do { s \<leftarrow> putchar io (ucast n) s; printf_from io fmt args s } | _ \<Rightarrow> None)
           else printf_from io fmt args s))
      else do { s \<leftarrow> putchar io c s; printf_from io fmt args s })"

definition printf :: "'s ports \<Rightarrow> bytes \<Rightarrow> va list \<Rightarrow> 's console \<Rightarrow> 's console option" where
  "printf io fmt args s = printf_from io (cstr fmt) args s"

section \<open>What is printed\<close>

definition int_string :: "u32 \<Rightarrow> bytes" where
  "int_string v = (if v = 0 then [0x30] else int_digits v [])"

definition hex_string :: "u32 \<Rightarrow> bytes" where
  "hex_string v = 0x30 # 0x78 # hex_digits 8 v []"

text \<open>What \<open>printf_from\<close> puts out, as a list of bytes.\<close>

fun render :: "bytes \<Rightarrow> va list \<Rightarrow> bytes option" where
  "render [] args = Some []"
| "render (c # fmt) args =
     (if c = 0x25
      then (case fmt of
        [] \<Rightarrow> None
      | d # fmt \<Rightarrow>
          (if d = 0x64 then (case args of Va_int n # args \<Rightarrow> map_option ((@) (int_string n)) (render fmt args) | _ \<Rightarrow> None)
           else if d = 0x78 then (case args of Va_int n # args \<Rightarrow> map_option ((@) (hex_string n)) (render fmt args) | _ \<Rightarrow> None)
           else if d = 0x73 then (case args of Va_str t # args \<Rightarrow> map_option ((@) (cstr t)) (render fmt args) | _ \<Rightarrow> None)
           else if d = 0x63 then (case args of Va_int n # args \<Rightarrow> map_option ((#) (ucast n)) (render fmt args) | _ \<Rightarrow> None)
           else render fmt args))
      else map_option ((#) c) (render fmt args))"

lemma put_all_append: "put_all io (xs @ ys) s = put_all io xs s \<bind> put_all io ys"
  by (induction xs arbitrary: s) (auto split: Option.bind_split)

lemma put_all_single: "put_all io [c] s = putchar io c s"
  by (simp split: Option.bind_split)

lemma int_digits_acc: "int_digits v acc = int_digits v [] @ acc"
proof (induction "unat v" arbitrary: v acc rule: less_induct)
  case less
  show ?case
  proof (cases "v > 0")
    case True
    then have "unat (v div 10) < unat v" by (simp add: unat_div word_less_nat_alt)
    note IH = less [OF this]
    show ?thesis using True IH [of "(0x30 + ucast (v mod 10)) # acc"] IH [of "[0x30 + ucast (v mod 10)]"]
      by (simp add: int_digits.simps [of v])
  qed (simp add: int_digits.simps [of v])
qed

lemma int_digits_snoc: "0 < v \<Longrightarrow> int_digits v [] = int_digits (v div 10) [] @ [0x30 + ucast (v mod 10)]"
  using int_digits_acc [of "v div 10" "[0x30 + ucast (v mod 10)]"] by (simp add: int_digits.simps [of v])

definition digit_value :: "u8 \<Rightarrow> nat" where
  "digit_value c = (if c < 0x3A then unat c - 0x30 else unat c - 0x37)"

definition numeral_value :: "nat \<Rightarrow> bytes \<Rightarrow> nat" where
  "numeral_value base cs = foldl (\<lambda>n c. base * n + digit_value c) 0 cs"

lemma numeral_value_snoc: "numeral_value b (cs @ [c]) = b * numeral_value b cs + digit_value c"
  by (simp add: numeral_value_def)

lemma dec_digit:
  fixes v :: u32
  shows "unat (0x30 + ucast (v mod 10) :: u8) = 48 + unat v mod 10" "digit_value (0x30 + ucast (v mod 10)) = unat v mod 10"
proof -
  have u: "unat (ucast (v mod 10) :: u8) = unat v mod 10"
    by (simp add: unsigned_ucast_eq unat_mod take_bit_nat_eq_self)
  show 1: "unat (0x30 + ucast (v mod 10) :: u8) = 48 + unat v mod 10"
    using u by (subst unat_add_lem [THEN iffD1]) simp_all
  then show "digit_value (0x30 + ucast (v mod 10)) = unat v mod 10" by (simp add: digit_value_def word_less_nat_alt)
qed


lemma int_digits_props:
  "numeral_value 10 (int_digits v []) = unat v \<and> (\<forall>c \<in> set (int_digits v []). 0x30 \<le> c \<and> c \<le> 0x39)
    \<and> (0 < v \<longrightarrow> int_digits v [] \<noteq> [] \<and> hd (int_digits v []) \<noteq> 0x30)
    \<and> (\<forall>n. unat v < 10 ^ n \<longrightarrow> length (int_digits v []) \<le> n)"
proof (induction "unat v" arbitrary: v rule: less_induct)
  case less
  show ?case
  proof (cases "v > 0")
    case False
    then have "v = 0" using word_neq_0_conv by blast
    then show ?thesis by (simp add: int_digits.simps [of 0] numeral_value_def)
  next
    case True
    have d: "unat (v div 10) = unat v div 10" by (simp add: unat_div)
    have "unat (v div 10) < unat v" using True by (simp add: d word_less_nat_alt)
    note IH = less [OF this]
    note dd = dec_digit [of v]
    have lastd: "0x30 \<le> (0x30 + ucast (v mod 10) :: u8)" "(0x30 + ucast (v mod 10) :: u8) \<le> 0x39"
      using dd(1) by (simp_all add: word_le_nat_alt)
    have len: "length (int_digits v []) \<le> n" if "unat v < 10 ^ n" for n
    proof (cases n)
      case 0
      then show ?thesis using that True by (simp add: word_less_nat_alt)
    next
      case (Suc m)
      then have "unat (v div 10) < 10 ^ m" using that unfolding d by (intro less_mult_imp_div_less) simp
      then show ?thesis using IH Suc by (simp add: int_digits_snoc [OF True])
    qed
    have hdne: "hd (int_digits v []) \<noteq> 0x30"
    proof (cases "v div 10 > 0")
      case True
      then show ?thesis using IH by (simp add: int_digits_snoc [OF \<open>v > 0\<close>] hd_append)
    next
      case False
      then have z: "unat v div 10 = 0" using d by (metis unat_0 word_neq_0_conv)
      then have "unat v mod 10 \<noteq> 0" using True by (simp add: word_less_nat_alt div_eq_0_iff)
      then have "unat (0x30 + ucast (v mod 10) :: u8) \<noteq> 48" using dd(1) by simp
      moreover have "unat (0x30 :: u8) = 48" by simp
      ultimately have "(0x30 + ucast (v mod 10) :: u8) \<noteq> 0x30" by metis
      then show ?thesis using False by (simp add: int_digits_snoc [OF True] int_digits.simps [of "v div 10"])
    qed
    have "numeral_value 10 (int_digits v []) = unat v"
      using IH d dd(2) by (simp add: int_digits_snoc [OF True] numeral_value_snoc)
    then show ?thesis using IH lastd len hdne by (auto simp: int_digits_snoc [OF True])
  qed
qed

lemma nibble_digit:
  assumes "x < 16"
  shows "digit_value (hex_digit x) = unat x" "hex_digit x \<noteq> 0"
proof -
  have "unat x < 16" using assms by (simp add: word_less_nat_alt)
  then have "unat x = 0 \<or> unat x = 1 \<or> unat x = 2 \<or> unat x = 3 \<or> unat x = 4 \<or> unat x = 5 \<or> unat x = 6 \<or> unat x = 7
     \<or> unat x = 8 \<or> unat x = 9 \<or> unat x = 10 \<or> unat x = 11 \<or> unat x = 12 \<or> unat x = 13 \<or> unat x = 14 \<or> unat x = 15"
    by arith
  then have "x = 0 \<or> x = 1 \<or> x = 2 \<or> x = 3 \<or> x = 4 \<or> x = 5 \<or> x = 6 \<or> x = 7
     \<or> x = 8 \<or> x = 9 \<or> x = 10 \<or> x = 11 \<or> x = 12 \<or> x = 13 \<or> x = 14 \<or> x = 15"
    by (simp add: word_unat_eq_iff)
  then show "digit_value (hex_digit x) = unat x" "hex_digit x \<noteq> 0"
    by (auto simp: hex_digit_def digit_value_def)
qed

lemma hex_digits_props:
  "hex_digits n v acc = hex_digits n v [] @ acc \<and> length (hex_digits n v []) = n
    \<and> numeral_value 16 (hex_digits n v []) = unat v mod 16 ^ n \<and> 0 \<notin> set (hex_digits n v [])"
proof (induction n arbitrary: v acc)
  case 0
  then show ?case by (simp add: numeral_value_def)
next
  case (Suc n)
  define x where "x = (ucast (v AND 0xF) :: u8)"
  have m: "mask 4 = (0xF :: u32)" by (simp add: mask_eq_exp_minus_1)
  have ux: "unat x = unat v mod 16"
    using unat_and_mask [of v 4] by (simp add: x_def m unsigned_ucast_eq take_bit_nat_eq_self)
  then have "x < 16" by (simp add: word_less_nat_alt)
  note nb = nibble_digit [OF this]
  have d: "unat (drop_bit 4 v) = unat v div 16" by (simp add: drop_bit_eq_div unat_div)
  have e: "hex_digits (Suc n) v [] = hex_digits n (drop_bit 4 v) [] @ [hex_digit x]"
    using Suc [of "drop_bit 4 v" "[hex_digit x]"] by (simp add: x_def)
  have "hex_digits (Suc n) v acc = hex_digits (Suc n) v [] @ acc"
    unfolding e using Suc [of "drop_bit 4 v" "hex_digit x # acc"] by (simp add: x_def)
  moreover have "16 * (unat v div 16 mod 16 ^ n) + unat v mod 16 = unat v mod 16 ^ Suc n"
    by (simp add: mod_mult2_eq add.commute)
  ultimately show ?case using Suc [of "drop_bit 4 v" "[]"] nb ux d
    unfolding e by (simp add: numeral_value_snoc)
qed


lemma print_number: "print_int io v s = put_all io (int_string v) s" "print_hex io v s = put_all io (hex_string v) s"
proof -
  have "c \<noteq> 0" if "c \<in> set (int_digits v [])" for c
    using int_digits_props [of v] that by auto
  then have "cstr (int_digits v []) = int_digits v []" by (intro cstr_id) blast
  then show "print_int io v s = put_all io (int_string v) s"
    by (cases "v = 0") (simp_all add: print_int_def int_string_def print_str_def put_all_single del: put_all.simps)
  have "cstr (0x30 # 0x78 # hex_digits 8 v []) = 0x30 # 0x78 # hex_digits 8 v []"
    using hex_digits_props [of 8 v "[]"] by (intro cstr_id) simp
  then show "print_hex io v s = put_all io (hex_string v) s"
    unfolding print_hex_def print_str_def hex_string_def by (rule arg_cong)
qed

lemma printf_from_render: "printf_from io fmt args s = render fmt args \<bind> (\<lambda>out. put_all io out s)"
proof (induction "length fmt" arbitrary: fmt args s rule: less_induct)
  case less
  show ?case
  proof (cases fmt)
    case (Cons c fmt1)
    have IH1: "printf_from io fmt1 as = (\<lambda>t. render fmt1 as \<bind> (\<lambda>out. put_all io out t))" for as
      using less Cons by (intro ext) simp
    show ?thesis
    proof (cases "c = 0x25")
      case False
      then show ?thesis unfolding Cons by (simp add: IH1) (cases "render fmt1 args"; simp)
    next
      case True
      show ?thesis
      proof (cases fmt1)
        case (Cons d fmt2)
        have IH2: "printf_from io fmt2 as = (\<lambda>t. render fmt2 as \<bind> (\<lambda>out. put_all io out t))" for as
          using less \<open>fmt = c # fmt1\<close> Cons by (intro ext) simp
        show ?thesis unfolding \<open>fmt = c # fmt1\<close> Cons
          by (cases args; cases "hd args"; cases "render fmt2 args"; cases "render fmt2 (tl args)")
            (simp_all add: True IH2 print_number print_str_def put_all_append)
      qed (simp add: True \<open>fmt = c # fmt1\<close>)
    qed
  qed simp
qed

section \<open>Properties\<close>

lemma put_all_screen:
  "\<not> uart_output_mode s \<Longrightarrow> put_all io out s = Some (s\<lparr>vga := terminal_write out (vga s)\<rparr>)"
  by (induction out arbitrary: s) (simp_all add: putchar_def terminal_write_def)

lemma put_all_wire:
  "put_all io out s = (if uart_output_mode s
     then map_option (\<lambda>w. s\<lparr>vga := terminal_write out (vga s), wire := w\<rparr>) (uart_put_all io out (wire s))
     else Some (s\<lparr>vga := terminal_write out (vga s)\<rparr>))"
proof (induction out arbitrary: s)
  case (Cons c out)
  show ?case
    by (cases "uart_output_mode s"; cases "uart_putc io c (wire s)") (simp_all add: putchar_def Cons terminal_write_def option.map_comp o_def)
qed (simp add: terminal_write_def)

text \<open>
  What the conversions are to print, apart from how the code does it: numerals are those of the natural number the word stands for, and a call is
  a list of pieces, each with its share of the format, its argument and its text. \<open>%d\<close> takes its argument as unsigned.
\<close>

definition digit :: "nat \<Rightarrow> u8" where
  "digit d = str ''0123456789ABCDEF'' ! d"

fun decimal :: "nat \<Rightarrow> bytes" where
  "decimal n = (if n < 10 then [digit n] else decimal (n div 10) @ [digit (n mod 10)])"

declare decimal.simps [simp del]

definition hexadecimal :: "nat \<Rightarrow> bytes" where
  "hexadecimal n = map (\<lambda>i. digit (n div 16 ^ (7 - i) mod 16)) [0..<8]"

datatype piece = P_plain bytes | P_dec u32 | P_hex u32 | P_str bytes | P_chr u32

fun piece_fmt :: "piece \<Rightarrow> bytes" where
  "piece_fmt (P_plain t) = t"
| "piece_fmt (P_dec v) = str ''%d''"
| "piece_fmt (P_hex v) = str ''%x''"
| "piece_fmt (P_str t) = str ''%s''"
| "piece_fmt (P_chr v) = str ''%c''"

fun piece_args :: "piece \<Rightarrow> va list" where
  "piece_args (P_plain t) = []"
| "piece_args (P_dec v) = [Va_int v]"
| "piece_args (P_hex v) = [Va_int v]"
| "piece_args (P_str t) = [Va_str t]"
| "piece_args (P_chr v) = [Va_int v]"

fun piece_text :: "piece \<Rightarrow> bytes" where
  "piece_text (P_plain t) = t"
| "piece_text (P_dec v) = decimal (unat v)"
| "piece_text (P_hex v) = str ''0x'' @ hexadecimal (unat v)"
| "piece_text (P_str t) = cstr t"
| "piece_text (P_chr v) = [ucast v]"

lemma digit_cases: "d < 16 \<Longrightarrow> d \<in> {0, 1, 2, 3, 4, 5, 6, 7, 8, 9, 10, 11, 12, 13, 14, 15 :: nat}"
  by (simp only: insert_iff empty_iff) arith

lemma unat_digit: "d < 16 \<Longrightarrow> unat (digit d) = (if d < 10 then 48 + d else 55 + d)"
  by (drule digit_cases) (auto simp: digit_def str_def)

lemma int_string_decimal: "int_string v = decimal (unat v)"
proof (induction "unat v" arbitrary: v rule: less_induct)
  case less
  have d: "(0x30 + ucast (v mod 10) :: u8) = digit (unat v mod 10)"
  proof -
    have "unat (0x30 + ucast (v mod 10) :: u8) = 48 + unat v mod 10" by (rule dec_digit)
    moreover have "unat (digit (unat v mod 10)) = 48 + unat v mod 10"
      by (simp add: unat_digit)
    ultimately show ?thesis by (simp add: word_unat_eq_iff)
  qed
  show ?case
  proof (cases "unat v < 10")
    case True
    then have z: "v div 10 = 0" by (simp add: word_unat_eq_iff unat_div)
    have e: "int_digits 0 [] = []" by (simp add: int_digits.simps)
    show ?thesis
    proof (cases "v = 0")
      case True
      then show ?thesis by (simp add: int_string_def decimal.simps digit_def str_def)
    next
      case False
      then have "0 < v" using word_neq_0_conv by blast
      from int_digits_snoc [OF this] show ?thesis
        using False True d by (simp add: int_string_def decimal.simps z e)
    qed
  next
    case False
    then have v: "0 < v" by (simp add: word_less_nat_alt)
    have u: "unat (v div 10) = unat v div 10" by (simp add: unat_div)
    then have "unat (v div 10) \<noteq> 0" using False by simp
    then have n: "v div 10 \<noteq> 0" by auto
    have "unat (v div 10) < unat v" using False u by simp
    from less [OF this] have "int_string (v div 10) = decimal (unat v div 10)" by (simp add: u)
    then have "int_digits (v div 10) [] = decimal (unat v div 10)" using n by (simp add: int_string_def)
    moreover have "v \<noteq> 0" using v by auto
    ultimately show ?thesis using d False int_digits_snoc [OF v]
      by (simp add: int_string_def decimal.simps [of "unat v"])
  qed
qed

lemma hex_digit_byte:
  assumes "unat x < 16"
  shows "hex_digit x = digit (unat x)"
proof -
  have "unat x \<in> {0, 1, 2, 3, 4, 5, 6, 7, 8, 9, 10, 11, 12, 13, 14, 15}" by (rule digit_cases [OF assms])
  then have "x \<in> {0, 1, 2, 3, 4, 5, 6, 7, 8, 9, 10, 11, 12, 13, 14, 15}" by (simp add: word_unat_eq_iff)
  then show ?thesis by (auto simp: hex_digit_def digit_def str_def)
qed

lemma hex_digits_map: "hex_digits n v acc = map (\<lambda>i. digit (unat v div 16 ^ (n - 1 - i) mod 16)) [0..<n] @ acc"
proof (induction n arbitrary: v acc)
  case (Suc n)
  have m: "mask 4 = (0xF :: u32)" by (simp add: mask_eq_exp_minus_1)
  have "unat (ucast (v AND 0xF) :: u8) = unat v mod 16"
    using unat_and_mask [of v 4] by (simp add: m unsigned_ucast_eq take_bit_nat_eq_self)
  then have h: "hex_digit (ucast (v AND 0xF)) = digit (unat v mod 16)" by (simp add: hex_digit_byte)
  have d: "unat (drop_bit 4 v) = unat v div 16" by (simp add: drop_bit_eq_div unat_div)
  have e: "unat v div 16 div 16 ^ (n - 1 - i) = unat v div 16 ^ (n - i)" if "i < n" for i
  proof -
    have "n - i = Suc (n - 1 - i)" using that by simp
    then have "16 * 16 ^ (n - 1 - i) = (16 :: nat) ^ (n - i)" by (simp only: power_Suc)
    then show ?thesis by (simp add: div_mult2_eq [symmetric])
  qed
  have "map (\<lambda>i. digit (unat v div 16 div 16 ^ (n - 1 - i) mod 16)) [0..<n] = map (\<lambda>i. digit (unat v div 16 ^ (n - i) mod 16)) [0..<n]"
    using e by simp
  then show ?case by (simp add: Suc h d)
qed simp

lemma hex_string_hexadecimal: "hex_string v = str ''0x'' @ hexadecimal (unat v)"
  by (simp add: hex_string_def hexadecimal_def hex_digits_map str_def)

definition piece_ok :: "piece \<Rightarrow> bool" where
  "piece_ok p \<longleftrightarrow> (\<forall>t. p = P_plain t \<longrightarrow> 0x25 \<notin> set t)"

lemma render_plain: "0x25 \<notin> set t \<Longrightarrow> render (t @ fmt) args = map_option ((@) t) (render fmt args)"
  by (induction t; cases "render fmt args") simp_all

lemma render_pieces:
  "\<forall>p \<in> set ps. piece_ok p \<Longrightarrow>
    render (concat (map piece_fmt ps)) (concat (map piece_args ps) @ rest) = Some (concat (map piece_text ps))"
proof (induction ps)
  case (Cons p ps)
  then have "render (concat (map piece_fmt ps)) (concat (map piece_args ps) @ rest) = Some (concat (map piece_text ps))" by simp
  moreover have "piece_ok p" using Cons.prems by simp
  ultimately show ?case
    by (cases p) (simp_all add: piece_ok_def render_plain str_def int_string_decimal hex_string_hexadecimal)
qed simp

text \<open>
  C23. \<open>printf\<close> prints what was meant. For a format made of text and of conversions with their arguments, it writes to the screen
  the text with every conversion replaced by its meaning: a decimal or an eight-digit hexadecimal numeral, a string, a character.
  With the serial output on it also sends the same bytes in the same order over the line, and returns if the line takes them all.
\<close>

theorem printf_renders:
  assumes "cstr fmt = concat (map piece_fmt ps)" "\<forall>p \<in> set ps. piece_ok p"
  shows "printf io fmt (concat (map piece_args ps) @ rest) s =
    (let out = concat (map piece_text ps); s' = s\<lparr>vga := terminal_write out (vga s)\<rparr>
     in if uart_output_mode s then map_option (\<lambda>w. s'\<lparr>wire := w\<rparr>) (uart_put_all io out (wire s)) else Some s')"
  using render_pieces [OF assms(2), of rest] by (simp add: printf_def printf_from_render assms(1) put_all_wire Let_def)

lemma printf_renders_witness:
  "printf recorder (str ''at %s: %d'') [Va_str (str ''eip''), Va_int 42] \<lparr>vga = vga_demo, uart_output_mode = False, wire = []\<rparr>
    = Some \<lparr>vga = terminal_write (str ''at eip: 42'') vga_demo, uart_output_mode = False, wire = []\<rparr>"
proof -
  let ?ps = "[P_plain (str ''at ''), P_str (str ''eip''), P_plain (str '': ''), P_dec 42]"
  have "cstr (str ''at %s: %d'') = concat (map piece_fmt ?ps)" by (simp add: str_def cstr_def)
  moreover have "\<forall>p \<in> set ?ps. piece_ok p" by (simp add: piece_ok_def str_def)
  moreover have "concat (map piece_text ?ps) = str ''at eip: 42''"
    by (simp add: str_def cstr_def decimal.simps digit_def)
  ultimately show ?thesis
    using printf_renders [of "str ''at %s: %d''" ?ps recorder "[]" "\<lparr>vga = vga_demo, uart_output_mode = False, wire = []\<rparr>"]
    by (simp add: Let_def)
qed

text \<open>Any other conversion is dropped, \<open>%%\<close> with it: it prints nothing and takes no argument.\<close>

theorem printf_drops_conversion:
  assumes "cstr fmt = 0x25 # d # rest" "d \<notin> set (str ''dxsc'')"
  shows "printf io fmt args s = printf io rest args s"
proof -
  have "0 \<notin> set rest" using cstr_no_zero [of fmt] assms(1) by simp
  then have "cstr rest = rest" by (intro cstr_id)
  then show ?thesis using assms by (simp add: printf_def str_def)
qed

lemma printf_drops_conversion_witness:
  "printf recorder (str ''%%!'') [] \<lparr>vga = vga_demo, uart_output_mode = False, wire = []\<rparr>
    = printf recorder (str ''!'') [] \<lparr>vga = vga_demo, uart_output_mode = False, wire = []\<rparr>"
  using printf_drops_conversion [where fmt = "str ''%%!''" and d = "0x25" and rest = "str ''!''"] by (simp add: str_def cstr_def)

text \<open>
  Numbers survive printing: the decimal digits of a word have its unsigned value, no leading zero, and
  fit the buffer of ten; the hexadecimal form has always eight digits.
\<close>

theorem printed_numbers:
  "numeral_value 10 (int_string v) = unat v \<and> 0 < length (int_string v) \<and> length (int_string v) \<le> 10
    \<and> (hd (int_string v) = 0x30 \<longleftrightarrow> v = 0) \<and> (\<forall>c \<in> set (int_string v). 0x30 \<le> c \<and> c \<le> 0x39)
    \<and> length (hex_string v) = 10 \<and> numeral_value 16 (drop 2 (hex_string v)) = unat v"
proof -
  have "unat v < 10 ^ 10" by (rule less_le_trans [OF unat_lt_2p32]) simp
  then have "length (int_digits v []) \<le> 10" using int_digits_props [of v] by blast
  moreover have "unat v mod 16 ^ 8 = unat v" using unat_lt_2p32 [of v] by simp
  moreover have "v \<noteq> 0 \<Longrightarrow> 0 < v" using word_neq_0_conv by blast
  ultimately show ?thesis
    using int_digits_props [of v] hex_digits_props [of 8 v "[]"]
    by (cases "v = 0") (auto simp: int_string_def hex_string_def numeral_value_def digit_value_def)
qed

lemma printed_numbers_witness:
  "numeral_value 10 (int_string 65535) = 65535 \<and> length (hex_string 65535) = 10"
  using printed_numbers [of 65535] by simp

end
