(* ===== verification/Irq.thy ===== *)
theory Irq
  imports Io
begin

text \<open>
  The interrupt controllers and the handler table, \<^verbatim>\<open>kernel/irq.c\<close>. The table has sixteen places, \<open>None\<close>
  for a null pointer. What the controllers do with a port access is the parameter \<open>io\<close>; \<open>mask_regs\<close> states
  the documented behaviour of their mask registers.
\<close>

definition PIC1_COMMAND :: u16 where "PIC1_COMMAND = 0x20"
definition PIC1_DATA :: u16 where "PIC1_DATA = 0x21"
definition PIC2_COMMAND :: u16 where "PIC2_COMMAND = 0xA0"
definition PIC2_DATA :: u16 where "PIC2_DATA = 0xA1"
definition PIC_EOI :: u8 where "PIC_EOI = 0x20"
definition ICW1_ICW4 :: u8 where "ICW1_ICW4 = 0x01"
definition ICW1_INIT :: u8 where "ICW1_INIT = 0x10"
definition ICW4_8086 :: u8 where "ICW4_8086 = 0x01"
definition CASCADE_IRQ :: nat where "CASCADE_IRQ = 2"

definition PIC_sendEOI :: "'s ports \<Rightarrow> u8 \<Rightarrow> 's \<Rightarrow> 's" where
  "PIC_sendEOI io irq s =
     (let s = (if irq \<ge> 8 then outb io PIC2_COMMAND PIC_EOI s else s)
      in outb io PIC1_COMMAND PIC_EOI s)"

definition PIC_remap :: "'s ports \<Rightarrow> u8 \<Rightarrow> u8 \<Rightarrow> 's \<Rightarrow> 's" where
  "PIC_remap io offset1 offset2 s = outs io
     [(PIC1_COMMAND, ICW1_INIT OR ICW1_ICW4), (PIC2_COMMAND, ICW1_INIT OR ICW1_ICW4),
      (PIC1_DATA, offset1), (PIC2_DATA, offset2),
      (PIC1_DATA, push_bit CASCADE_IRQ 1), (PIC2_DATA, 2),
      (PIC1_DATA, ICW4_8086), (PIC2_DATA, ICW4_8086),
      (PIC1_DATA, 0xFF), (PIC2_DATA, 0xFF)] s"

definition IRQ_set_mask :: "'s ports \<Rightarrow> u8 \<Rightarrow> 's \<Rightarrow> 's" where
  "IRQ_set_mask io line s =
     (if line < 8 then (let (v, s) = inb io PIC1_DATA s in outb io PIC1_DATA (v OR push_bit (unat line) 1) s)
      else if line < 16 then (let (v, s) = inb io PIC2_DATA s in outb io PIC2_DATA (v OR push_bit (unat (line - 8)) 1) s)
      else s)"

definition IRQ_clear_mask :: "'s ports \<Rightarrow> u8 \<Rightarrow> 's \<Rightarrow> 's" where
  "IRQ_clear_mask io line s =
     (if line < 8 then (let (v, s) = inb io PIC1_DATA s in outb io PIC1_DATA (v AND NOT (push_bit (unat line) 1)) s)
      else if line < 16 then (let (v, s) = inb io PIC2_DATA s in outb io PIC2_DATA (v AND NOT (push_bit (unat (line - 8)) 1)) s)
      else s)"

definition irq_install_handler :: "'s ports \<Rightarrow> u8 \<Rightarrow> 'h \<Rightarrow> 'h option list \<times> 's \<Rightarrow> 'h option list \<times> 's" where
  "irq_install_handler io irq handler = (\<lambda>(tab, s).
     if irq \<ge> 16 then (tab, s)
     else (tab[unat irq := Some handler], IRQ_clear_mask io irq s))"

definition irq_uninstall_handler :: "'s ports \<Rightarrow> u8 \<Rightarrow> 'h option list \<times> 's \<Rightarrow> 'h option list \<times> 's" where
  "irq_uninstall_handler io irq = (\<lambda>(tab, s).
     if irq \<ge> 16 then (tab, s)
     else (tab[unat irq := None], IRQ_set_mask io irq s))"

text \<open>
  A handler returns, or abandons the interrupted code for good: \<open>process_exit\<close> switches to the stack
  of \<open>process_run\<close>. The dispatcher is given the handlers' meaning and the end of interrupt.
\<close>

datatype 'k flow = Returns 'k | Unwinds 'k

definition irq_dispatch :: "('h \<Rightarrow> 'k \<Rightarrow> 'k flow) \<Rightarrow> (u8 \<Rightarrow> 'k \<Rightarrow> 'k) \<Rightarrow> 'h option list \<Rightarrow> u32 \<Rightarrow> 'k \<Rightarrow> 'k flow" where
  "irq_dispatch run eoi tab vector k =
     (let irq = ucast vector :: u8;
          out = (if irq < 16 then (case tab ! unat irq of Some h \<Rightarrow> run h k | None \<Rightarrow> Returns k) else Returns k)
      in case out of Returns k \<Rightarrow> Returns (eoi irq k) | Unwinds k \<Rightarrow> Unwinds k)"

section \<open>The mask registers\<close>

text \<open>
  \<open>masks\<close> gives the mask register behind a data port. Outside their initialisation the controllers read and
  write it through that port, and the end of interrupt command leaves it alone.
\<close>

definition mask_regs :: "'s ports \<Rightarrow> (u16 \<Rightarrow> 's \<Rightarrow> u8) \<Rightarrow> bool" where
  "mask_regs io masks \<longleftrightarrow>
     (\<forall>p s. p \<in> {PIC1_DATA, PIC2_DATA} \<longrightarrow> inb io p s = (masks p s, s))
     \<and> (\<forall>p q v s. p \<in> {PIC1_DATA, PIC2_DATA} \<longrightarrow> q \<in> {PIC1_DATA, PIC2_DATA} \<longrightarrow>
          masks q (outb io p v s) = (if q = p then v else masks q s))
     \<and> (\<forall>p q s. p \<in> {PIC1_COMMAND, PIC2_COMMAND} \<longrightarrow> masks q (outb io p PIC_EOI s) = masks q s)"

text \<open>Line \<open>i\<close> is masked in its controller; a line of the second one reaches the processor only through line 2.\<close>

definition masked :: "(u16 \<Rightarrow> 's \<Rightarrow> u8) \<Rightarrow> 's \<Rightarrow> nat \<Rightarrow> bool" where
  "masked masks s i = (if i < 8 then bit (masks PIC1_DATA s) i else bit (masks PIC2_DATA s) (i - 8))"

definition delivered :: "(u16 \<Rightarrow> 's \<Rightarrow> u8) \<Rightarrow> 's \<Rightarrow> nat \<Rightarrow> bool" where
  "delivered masks s i \<longleftrightarrow> \<not> masked masks s i \<and> (i < 8 \<or> \<not> masked masks s CASCADE_IRQ)"

datatype 'h irq_action = Install u8 'h | Uninstall u8 | Eoi u8

fun irq_op :: "'s ports \<Rightarrow> 'h irq_action \<Rightarrow> 'h option list \<times> 's \<Rightarrow> 'h option list \<times> 's" where
  "irq_op io (Install irq h) ts = irq_install_handler io irq h ts"
| "irq_op io (Uninstall irq) ts = irq_uninstall_handler io irq ts"
| "irq_op io (Eoi irq) ts = (fst ts, PIC_sendEOI io irq (snd ts))"

lemma unat_line: "line < 16 \<Longrightarrow> \<not> line < 8 \<Longrightarrow> unat (line - 8) = unat line - 8" for line :: u8
  by (simp add: unat_sub word_le_nat_alt word_less_nat_alt)

lemma masked_clear:
  assumes "mask_regs io masks" "line < 16" "i < 16"
  shows "masked masks (IRQ_clear_mask io line s) i \<longleftrightarrow> masked masks s i \<and> i \<noteq> unat line"
  using assms unat_line [of line]
  by (auto simp: mask_regs_def masked_def IRQ_clear_mask_def PIC1_DATA_def PIC2_DATA_def bit_simps word_less_nat_alt)

lemma masked_set:
  assumes "mask_regs io masks" "line < 16" "i < 16"
  shows "masked masks (IRQ_set_mask io line s) i \<longleftrightarrow> masked masks s i \<or> i = unat line"
  using assms unat_line [of line]
  by (auto simp: mask_regs_def masked_def IRQ_set_mask_def PIC1_DATA_def PIC2_DATA_def bit_simps word_less_nat_alt)

lemma masked_eoi: "mask_regs io masks \<Longrightarrow> masked masks (PIC_sendEOI io irq s) i \<longleftrightarrow> masked masks s i"
  by (simp add: mask_regs_def masked_def PIC_sendEOI_def)

text \<open>Sixteen places, and a line is masked exactly when its place is empty.\<close>

definition masks_agree :: "(u16 \<Rightarrow> 's \<Rightarrow> u8) \<Rightarrow> 'h option list \<times> 's \<Rightarrow> bool" where
  "masks_agree masks ts \<longleftrightarrow> length (fst ts) = 16 \<and> (\<forall>i < 16. masked masks (snd ts) i \<longleftrightarrow> fst ts ! i = None)"

lemma irq_op_agree:
  assumes "mask_regs io masks" "masks_agree masks ts"
  shows "masks_agree masks (irq_op io x ts)"
proof (cases x)
  case (Install irq h)
  then show ?thesis using assms masked_clear [OF assms(1), of irq _ "snd ts"]
    by (auto simp: masks_agree_def irq_install_handler_def nth_list_update word_less_nat_alt word_le_nat_alt split: prod.split if_splits)
next
  case (Uninstall irq)
  then show ?thesis using assms masked_set [OF assms(1), of irq _ "snd ts"]
    by (auto simp: masks_agree_def irq_uninstall_handler_def nth_list_update word_less_nat_alt word_le_nat_alt split: prod.split if_splits)
qed (use assms in \<open>simp add: masks_agree_def masked_eoi\<close>)

lemma irq_ops_agree:
  "mask_regs io masks \<Longrightarrow> masks_agree masks ts \<Longrightarrow> masks_agree masks (fold (irq_op io) xs ts)"
  by (induction xs arbitrary: ts) (simp_all add: irq_op_agree)

section \<open>Properties\<close>

text \<open>
  C35. After any sequence of installing and removing handlers and acknowledging interrupts, from the empty
  table with every line masked, a line is unmasked exactly when it has a handler. A line of the second
  controller still does not reach the processor unless line 2, which joins the two, has one.
\<close>

theorem irq_masks_track_handlers:
  assumes "mask_regs io masks" "masks PIC1_DATA s = 0xFF" "masks PIC2_DATA s = 0xFF"
    and "fold (irq_op io) xs (replicate 16 None, s) = (tab, s')"
  shows "\<forall>i < 16. (masked masks s' i \<longleftrightarrow> tab ! i = None)
    \<and> (delivered masks s' i \<longleftrightarrow> tab ! i \<noteq> None \<and> (i < 8 \<or> tab ! 2 \<noteq> None))"
proof -
  have "bit (0xFF :: u8) i" if "i < 8" for i
  proof -
    have "i \<in> {0, 1, 2, 3, 4, 5, 6, 7}" using that by auto
    then show ?thesis by auto
  qed
  then have "masks_agree masks (replicate 16 None, s)"
    using assms(2,3) by (auto simp: masks_agree_def masked_def)
  from irq_ops_agree [OF assms(1) this, of xs] have "masks_agree masks (tab, s')" by (simp add: assms(4))
  then show ?thesis by (auto simp: masks_agree_def delivered_def CASCADE_IRQ_def)
qed

text \<open>Two mask registers and nothing else.\<close>

definition two_masks :: "(u8 \<times> u8) ports" where
  "two_masks = \<lparr>inb = \<lambda>p s. (if p = PIC1_DATA then fst s else snd s, s),
     outb = \<lambda>p v s. if p = PIC1_DATA then (v, snd s) else if p = PIC2_DATA then (fst s, v) else s,
     inw = \<lambda>_ s. (0, s), outw = \<lambda>_ _ s. s\<rparr>"

lemma irq_masks_track_handlers_witness:
  "\<exists>tab s'. fold (irq_op two_masks) [Install 0 ''timer'', Install 12 ''mouse''] (replicate 16 None, (0xFF, 0xFF)) = (tab, s')
     \<and> delivered (\<lambda>p s. if p = PIC1_DATA then fst s else snd s) s' 0
     \<and> \<not> delivered (\<lambda>p s. if p = PIC1_DATA then fst s else snd s) s' 12"
proof -
  let ?m = "\<lambda>p (s :: u8 \<times> u8). if p = PIC1_DATA then fst s else snd s"
  have r: "mask_regs two_masks ?m"
    by (auto simp: mask_regs_def two_masks_def PIC1_DATA_def PIC2_DATA_def PIC1_COMMAND_def PIC2_COMMAND_def)
  obtain s' where e: "fold (irq_op two_masks) [Install 0 ''timer'', Install 12 ''mouse''] (replicate 16 None, (0xFF, 0xFF))
      = ((replicate 16 None)[0 := Some ''timer'', 12 := Some ''mouse''], s')"
    by (simp add: irq_install_handler_def)
  have m: "?m PIC1_DATA (0xFF, 0xFF) = 0xFF" "?m PIC2_DATA (0xFF, 0xFF) = 0xFF" by simp_all
  have t: "((replicate 16 None)[0 := Some ''timer'', 12 := Some ''mouse'']) ! 0 \<noteq> None"
    "((replicate 16 None)[0 := Some ''timer'', 12 := Some ''mouse'']) ! 2 = None"
    by (simp_all add: nth_list_update)
  note d = irq_masks_track_handlers [OF r m e]
  have "delivered ?m s' 0" using d [rule_format, of 0] t by simp
  moreover have "\<not> delivered ?m s' 12" using d [rule_format, of 12] t by simp
  ultimately show ?thesis unfolding e by blast
qed

end
