(* ===== verification/Pmm.thy ===== *)
theory Pmm
  imports Yotos_Base
begin

text \<open>
  The physical memory manager, \<^verbatim>\<open>kernel/pmm.c\<close>: one bit per 4 KiB frame, set when the frame is in
  use. \<open>pmm\<close> holds the module's four static variables; the bitmap is the array of 32-bit words
  from the bitmap pointer up, indexed without a bound as the C code indexes it. Frame numbers
  (the C \<open>int\<close>s \<open>align\<close>, \<open>bit_n\<close>, \<open>frame\<close>) come from dividing 32-bit addresses by
  4096 and are naturals here. The locale \<open>bitmap\<close> is the contract of
  \<open>mmap_set\<close>/\<open>mmap_unset\<close>/\<open>mmap_test\<close>: a set of used frame numbers; the region loops and the
  accounting of used blocks are proved from it.
\<close>

section \<open>State\<close>

record pmm =
  mmngr_memory_size :: u32
  mmngr_used_blocks :: u32
  mmngr_max_blocks :: u32
  mmngr_memory_map :: "nat \<Rightarrow> u32"

definition PMMNGR_BLOCK_SIZE :: u32 where
  "PMMNGR_BLOCK_SIZE = 4096"

definition PMMNGR_BLOCKS_PER_BYTE :: u32 where
  "PMMNGR_BLOCKS_PER_BYTE = 8"

text \<open>The static initialisers: every variable is zero. \<open>ram\<close> is whatever lies behind the pointer.\<close>

definition pmm_static :: "(nat \<Rightarrow> u32) \<Rightarrow> pmm" where
  "pmm_static ram = \<lparr>mmngr_memory_size = 0, mmngr_used_blocks = 0, mmngr_max_blocks = 0,
     mmngr_memory_map = ram\<rparr>"

section \<open>Getters\<close>

definition pmmngr_get_max_blocks :: "pmm \<Rightarrow> u32" where
  "pmmngr_get_max_blocks s = mmngr_max_blocks s"

definition pmmngr_get_memory_size :: "pmm \<Rightarrow> u32" where
  "pmmngr_get_memory_size s = mmngr_memory_size s"

definition pmmngr_get_used_blocks :: "pmm \<Rightarrow> u32" where
  "pmmngr_get_used_blocks s = mmngr_used_blocks s"

definition pmmngr_get_free_block_count :: "pmm \<Rightarrow> u32" where
  "pmmngr_get_free_block_count s = mmngr_max_blocks s - mmngr_used_blocks s"

definition pmmngr_get_bitmap_size :: "pmm \<Rightarrow> u32" where
  "pmmngr_get_bitmap_size s =
     (mmngr_max_blocks s + PMMNGR_BLOCKS_PER_BYTE - 1) div PMMNGR_BLOCKS_PER_BYTE"

section \<open>The bitmap\<close>

definition mmap_set :: "nat \<Rightarrow> pmm \<Rightarrow> pmm" where
  "mmap_set bit_n s = s\<lparr>mmngr_memory_map := (mmngr_memory_map s)
     (bit_n div 32 := mmngr_memory_map s (bit_n div 32) OR push_bit (bit_n mod 32) 1)\<rparr>"

definition mmap_unset :: "nat \<Rightarrow> pmm \<Rightarrow> pmm" where
  "mmap_unset bit_n s = s\<lparr>mmngr_memory_map := (mmngr_memory_map s)
     (bit_n div 32 := mmngr_memory_map s (bit_n div 32) AND NOT (push_bit (bit_n mod 32) 1))\<rparr>"

definition mmap_test :: "nat \<Rightarrow> pmm \<Rightarrow> bool" where
  "mmap_test bit_n s = (mmngr_memory_map s (bit_n div 32) AND push_bit (bit_n mod 32) 1 \<noteq> 0)"

text \<open>The inner loop of \<open>mmap_first_free\<close>: the first clear bit of a dword from bit \<open>j\<close> on.\<close>

function first_free_bit :: "u32 \<Rightarrow> nat \<Rightarrow> nat option" where
  "first_free_bit w j =
     (if j < 32 then
        (if w AND push_bit j 1 = 0 then Some j else first_free_bit w (j + 1))
      else None)"
  by pat_completeness auto
termination
  by (relation "measure (\<lambda>(w, j). 32 - j)") auto

text \<open>The outer loop, over the dwords \<open>i < n\<close>; an inner loop that falls through goes on.\<close>

function first_free_dword :: "(nat \<Rightarrow> u32) \<Rightarrow> nat \<Rightarrow> nat \<Rightarrow> int" where
  "first_free_dword bm n i =
     (if i < n then
        (if bm i \<noteq> 0xffffffff then
           (case first_free_bit (bm i) 0 of
              Some j \<Rightarrow> int (i * 4 * 8 + j)
            | None \<Rightarrow> first_free_dword bm n (i + 1))
         else first_free_dword bm n (i + 1))
      else -1)"
  by pat_completeness auto
termination
  by (relation "measure (\<lambda>(bm, n, i). n - i)") auto

declare first_free_bit.simps [simp del] first_free_dword.simps [simp del]

definition mmap_first_free :: "pmm \<Rightarrow> int" where
  "mmap_first_free s =
     first_free_dword (mmngr_memory_map s) (unat (pmmngr_get_max_blocks s div 32)) 0"

section \<open>Initialisation and regions\<close>

text \<open>
  \<open>memset\<close> over the first \<open>n\<close> bytes of an array of little-endian dwords: byte \<open>k\<close> of dword
  \<open>i\<close> is byte \<open>4 * i + k\<close> of the array.
\<close>

definition set_byte :: "nat \<Rightarrow> u8 \<Rightarrow> u32 \<Rightarrow> u32" where
  "set_byte k v w = (w AND NOT (push_bit (8 * k) 0xff)) OR push_bit (8 * k) (ucast v)"

definition memset_dwords :: "(nat \<Rightarrow> u32) \<Rightarrow> u8 \<Rightarrow> nat \<Rightarrow> (nat \<Rightarrow> u32)" where
  "memset_dwords bm v n i =
     fold (\<lambda>k w. if 4 * i + k < n then set_byte k v w else w) [0, 1, 2, 3] (bm i)"

definition pmmngr_init :: "u32 \<Rightarrow> (nat \<Rightarrow> u32) \<Rightarrow> pmm \<Rightarrow> pmm" where
  "pmmngr_init memSize bitmap s =
     (let s = s\<lparr>mmngr_memory_size := memSize, mmngr_memory_map := bitmap\<rparr>;
          s = s\<lparr>mmngr_max_blocks := pmmngr_get_memory_size s div 4\<rparr>;
          s = s\<lparr>mmngr_used_blocks := pmmngr_get_max_blocks s\<rparr>
      in s\<lparr>mmngr_memory_map := memset_dwords (mmngr_memory_map s) 0xff
             (unat (pmmngr_get_max_blocks s div PMMNGR_BLOCKS_PER_BYTE))\<rparr>)"

text \<open>The loops \<open>for (; blocks > 0; blocks--)\<close> of the two region functions.\<close>

fun init_blocks :: "nat \<Rightarrow> nat \<Rightarrow> pmm \<Rightarrow> pmm" where
  "init_blocks align 0 s = s"
| "init_blocks align (Suc blocks) s =
     (let s = (if mmap_test align s then s\<lparr>mmngr_used_blocks := mmngr_used_blocks s - 1\<rparr> else s)
      in init_blocks (align + 1) blocks (mmap_unset align s))"

fun deinit_blocks :: "nat \<Rightarrow> nat \<Rightarrow> pmm \<Rightarrow> pmm" where
  "deinit_blocks align 0 s = s"
| "deinit_blocks align (Suc blocks) s =
     (let s = (if \<not> mmap_test align s then s\<lparr>mmngr_used_blocks := mmngr_used_blocks s + 1\<rparr> else s)
      in deinit_blocks (align + 1) blocks (mmap_set align s))"

definition pmmngr_init_region :: "u32 \<Rightarrow> u32 \<Rightarrow> pmm \<Rightarrow> pmm" where
  "pmmngr_init_region base sz s =
     init_blocks (unat (base div PMMNGR_BLOCK_SIZE)) (unat (sz div PMMNGR_BLOCK_SIZE)) s"

definition pmmngr_deinit_region :: "u32 \<Rightarrow> u32 \<Rightarrow> pmm \<Rightarrow> pmm" where
  "pmmngr_deinit_region base sz s =
     deinit_blocks (unat (base div PMMNGR_BLOCK_SIZE)) (unat (sz div PMMNGR_BLOCK_SIZE)) s"

section \<open>Allocation\<close>

text \<open>The result is the address of the frame, 0 when there is none.\<close>

definition pmmngr_alloc_block :: "pmm \<Rightarrow> u32 \<times> pmm" where
  "pmmngr_alloc_block s =
     (if pmmngr_get_free_block_count s \<le> 0 then (0, s)
      else (let frame = mmap_first_free s in
        if frame = -1 then (0, s)
        else (let s = mmap_set (nat frame) s;
                  s = s\<lparr>mmngr_used_blocks := mmngr_used_blocks s + 1\<rparr>
              in (of_int frame * PMMNGR_BLOCK_SIZE, s))))"

definition pmmngr_free_block :: "u32 \<Rightarrow> pmm \<Rightarrow> pmm" where
  "pmmngr_free_block p s =
     (let frame = unat (p div PMMNGR_BLOCK_SIZE);
          s = mmap_unset frame s
      in s\<lparr>mmngr_used_blocks := mmngr_used_blocks s - 1\<rparr>)"

section \<open>The multiboot memory map\<close>

text \<open>
  \<open>multiboot_mmap_entry_t\<close> (packed): \<open>size\<close> at 0, \<open>addr\<close> at 4, \<open>len\<close> at 12,
  \<open>type\<close> at 20. The walk reads the entries from raw memory \<open>m\<close>; a map whose sizes bring
  the pointer back never ends, so the loop is partial. The 64-bit \<open>addr\<close> and \<open>len\<close> are cut to 32 bits
  by the call.
\<close>

definition mmap_entry_size :: "mem \<Rightarrow> u32 \<Rightarrow> u32" where
  "mmap_entry_size m entry = rd32 m entry"

definition mmap_entry_addr :: "mem \<Rightarrow> u32 \<Rightarrow> u64" where
  "mmap_entry_addr m entry = rd64 m (entry + 4)"

definition mmap_entry_len :: "mem \<Rightarrow> u32 \<Rightarrow> u64" where
  "mmap_entry_len m entry = rd64 m (entry + 12)"

definition mmap_entry_type :: "mem \<Rightarrow> u32 \<Rightarrow> u32" where
  "mmap_entry_type m entry = rd32 m (entry + 20)"

partial_function (option) init_regions_from :: "mem \<Rightarrow> u32 \<Rightarrow> u32 \<Rightarrow> pmm \<Rightarrow> pmm option" where
  "init_regions_from m stop entry s =
     (if entry < stop then
        init_regions_from m stop (entry + mmap_entry_size m entry + 4)
          (if mmap_entry_type m entry = 1
           then pmmngr_init_region (ucast (mmap_entry_addr m entry)) (ucast (mmap_entry_len m entry)) s
           else s)
      else Some s)"

definition pmm_init_available_regions :: "mem \<Rightarrow> u32 \<Rightarrow> u32 \<Rightarrow> pmm \<Rightarrow> pmm option" where
  "pmm_init_available_regions m mmap_addr mmap_length s =
     init_regions_from m (mmap_addr + mmap_length) mmap_addr s"

section \<open>The contract of the bitmap\<close>

text \<open>
  What the three bit operations promise: a set of numbers, with insertion, deletion and membership.
  The client's facts are about the number of members below a bound.
\<close>

locale bitmap =
  fixes set_b :: "nat \<Rightarrow> 's \<Rightarrow> 's" and unset_b :: "nat \<Rightarrow> 's \<Rightarrow> 's" and test_b :: "nat \<Rightarrow> 's \<Rightarrow> bool"
  assumes test_set_b: "test_b m (set_b n s) \<longleftrightarrow> m = n \<or> test_b m s"
    and test_unset_b: "test_b m (unset_b n s) \<longleftrightarrow> m \<noteq> n \<and> test_b m s"
begin

lemma below_set:
  "{k. k < b \<and> test_b k (set_b n s)} = {k. k < b \<and> test_b k s} \<union> (if n < b then {n} else {})"
  by (auto simp: test_set_b)

lemma below_unset: "{k. k < b \<and> test_b k (unset_b n s)} = {k. k < b \<and> test_b k s} - {n}"
  by (auto simp: test_unset_b)

lemma card_set:
  assumes "n < b" "\<not> test_b n s"
  shows "card {k. k < b \<and> test_b k (set_b n s)} = Suc (card {k. k < b \<and> test_b k s})"
  using assms by (simp add: below_set)

lemma card_unset:
  assumes "n < b" "test_b n s"
  shows "Suc (card {k. k < b \<and> test_b k (unset_b n s)}) = card {k. k < b \<and> test_b k s}"
proof -
  have "n \<in> {k. k < b \<and> test_b k s}" using assms by simp
  then show ?thesis unfolding below_unset by (intro card_Suc_Diff1) simp
qed

lemma card_set_member: "test_b n s \<Longrightarrow>
    card {k. k < b \<and> test_b k (set_b n s)} = card {k. k < b \<and> test_b k s}"
  by (rule arg_cong [where f = card]) (auto simp: test_set_b)

lemma card_unset_nonmember: "\<not> test_b n s \<Longrightarrow>
    card {k. k < b \<and> test_b k (unset_b n s)} = card {k. k < b \<and> test_b k s}"
  by (rule arg_cong [where f = card]) (auto simp: test_unset_b)

end

lemma and_push_bit_1: "w AND push_bit n 1 \<noteq> 0 \<longleftrightarrow> bit w n" for w :: u32
proof
  assume "w AND push_bit n 1 \<noteq> 0"
  then obtain k where "bit (w AND push_bit n 1) k" by (auto simp: bit_eq_iff)
  then show "bit w n" by (auto simp add: bit_simps)
next
  assume w: "bit w n"
  then have "n < 32" using bit_imp_le_length [of w n] by simp
  with w have "bit (w AND push_bit n 1) n" by (simp add: bit_simps)
  then show "w AND push_bit n 1 \<noteq> 0" by (metis bit_0_eq bot_apply bot_bool_def)
qed

lemma mmap_test_bit: "mmap_test n s = bit (mmngr_memory_map s (n div 32)) (n mod 32)"
  unfolding mmap_test_def by (rule and_push_bit_1)

lemma div_mod_32_eq: "m div 32 = n div 32 \<Longrightarrow> m mod 32 = n mod 32 \<Longrightarrow> m = (n::nat)"
  by (metis div_mult_mod_eq)

interpretation pmm_bits: bitmap mmap_set mmap_unset mmap_test
proof
  fix m n :: nat and s :: pmm
  have lt: "m mod 32 < 32" by simp
  show "mmap_test m (mmap_set n s) \<longleftrightarrow> m = n \<or> mmap_test m s"
    using lt by (auto simp add: mmap_test_bit mmap_set_def bit_simps dest: div_mod_32_eq)
  show "mmap_test m (mmap_unset n s) \<longleftrightarrow> m \<noteq> n \<and> mmap_test m s"
    using lt by (auto simp add: mmap_test_bit mmap_unset_def bit_simps dest: div_mod_32_eq)
qed

lemma mmap_frame [frame_simps]:
  "mmngr_max_blocks (mmap_set n s) = mmngr_max_blocks s"
  "mmngr_used_blocks (mmap_set n s) = mmngr_used_blocks s"
  "mmngr_memory_size (mmap_set n s) = mmngr_memory_size s"
  "mmngr_max_blocks (mmap_unset n s) = mmngr_max_blocks s"
  "mmngr_used_blocks (mmap_unset n s) = mmngr_used_blocks s"
  "mmngr_memory_size (mmap_unset n s) = mmngr_memory_size s"
  by (simp_all add: mmap_set_def mmap_unset_def)

lemma mmap_test_upd [simp]:
  "mmap_test n (mmngr_used_blocks_update f s) = mmap_test n s"
  "mmap_test n (mmngr_max_blocks_update f s) = mmap_test n s"
  "mmap_test n (mmngr_memory_size_update f s) = mmap_test n s"
  by (simp_all add: mmap_test_def)

lemmas pmm_simps = pmm_bits.test_set_b pmm_bits.test_unset_b mmap_frame

section \<open>The first free frame\<close>

lemma le_iff_eq_or_Suc_le: "j \<le> i \<longleftrightarrow> i = j \<or> Suc j \<le> i" for i j :: nat
  by linarith

lemma first_free_bit_None: "first_free_bit w j = None \<longleftrightarrow> (\<forall>k. j \<le> k \<and> k < 32 \<longrightarrow> bit w k)"
proof (induction w j rule: first_free_bit.induct)
  case (1 w j)
  show ?case
  proof (cases "j < 32 \<and> bit w j")
    case True
    with 1 have "first_free_bit w j = None \<longleftrightarrow> (\<forall>k. j + 1 \<le> k \<and> k < 32 \<longrightarrow> bit w k)"
      using and_push_bit_1 [of w j] by (subst first_free_bit.simps) simp
    also have "\<dots> \<longleftrightarrow> (\<forall>k. j \<le> k \<and> k < 32 \<longrightarrow> bit w k)"
      using True by (auto simp: le_iff_eq_or_Suc_le [of j])
    finally show ?thesis .
  next
    case False
    then show ?thesis
      using and_push_bit_1 [of w j] by (subst first_free_bit.simps) auto
  qed
qed

lemma first_free_bit_Some:
  "first_free_bit w j = Some k \<Longrightarrow> j \<le> k \<and> k < 32 \<and> \<not> bit w k \<and> (\<forall>i. j \<le> i \<and> i < k \<longrightarrow> bit w i)"
proof (induction w j rule: first_free_bit.induct)
  case (1 w j)
  show ?case
  proof (cases "j < 32 \<and> bit w j")
    case True
    with "1.prems" have "first_free_bit w (j + 1) = Some k"
      using and_push_bit_1 [of w j] by (subst (asm) first_free_bit.simps) simp
    with True 1 have "j + 1 \<le> k \<and> k < 32 \<and> \<not> bit w k \<and> (\<forall>i. j + 1 \<le> i \<and> i < k \<longrightarrow> bit w i)"
      using and_push_bit_1 [of w j] by auto
    with True show ?thesis by (auto simp: le_iff_eq_or_Suc_le [of j])
  next
    case False
    with "1.prems" show ?thesis
      using and_push_bit_1 [of w j] by (subst (asm) first_free_bit.simps) (auto split: if_splits)
  qed
qed

lemma all_ones_bits: "w = 0xffffffff \<longleftrightarrow> (\<forall>k < 32. bit w k)" for w :: u32
proof -
  have ones: "(0xffffffff :: u32) = - 1" by simp
  have "w = - 1 \<longleftrightarrow> (\<forall>k < 32. bit w k)"
    by (auto simp: bit_eq_iff dest: bit_imp_le_length)
  then show ?thesis by (simp only: ones)
qed

text \<open>The scan in terms of bit numbers: \<open>used k\<close> stands for the bit \<open>k\<close> of the array.\<close>

lemma first_free_dword_spec:
  "(\<exists>f. first_free_dword bm n i = int f \<and> 32 * i \<le> f \<and> f < 32 * n
        \<and> \<not> bit (bm (f div 32)) (f mod 32)
        \<and> (\<forall>k. 32 * i \<le> k \<and> k < f \<longrightarrow> bit (bm (k div 32)) (k mod 32)))
   \<or> (first_free_dword bm n i = -1 \<and> (\<forall>k. 32 * i \<le> k \<and> k < 32 * n \<longrightarrow> bit (bm (k div 32)) (k mod 32)))"
proof (induction bm n i rule: first_free_dword.induct)
  case (1 bm n i)
  consider (out) "n \<le> i" | (full) "i < n" "bm i = 0xffffffff"
    | (here) j where "i < n" "bm i \<noteq> 0xffffffff" "first_free_bit (bm i) 0 = Some j"
    | (absurd) "i < n" "bm i \<noteq> 0xffffffff" "first_free_bit (bm i) 0 = None"
    by (cases "first_free_bit (bm i) 0") force+
  then show ?case
  proof cases
    case out
    then show ?thesis by (subst (1 2) first_free_dword.simps) auto
  next
    case full
    then have row: "bit (bm (k div 32)) (k mod 32)" if "32 * i \<le> k" "k < 32 * (i + 1)" for k
    proof -
      have "k div 32 = i" using that by simp
      with full show ?thesis by (simp add: all_ones_bits)
    qed
    have eq: "first_free_dword bm n i = first_free_dword bm n (i + 1)"
      using full by (subst first_free_dword.simps) simp
    have rows: "bit (bm (k div 32)) (k mod 32)"
      if "\<And>k. 32 * (i + 1) \<le> k \<Longrightarrow> k < b \<Longrightarrow> bit (bm (k div 32)) (k mod 32)" "32 * i \<le> k" "k < b"
      for k b
      using that row [of k] by (cases "k < 32 * (i + 1)") auto
    have "\<not> bm i \<noteq> 0xffffffff" using full by simp
    from "1.IH"(2) [OF full(1) this] show ?thesis unfolding eq
    proof (elim disjE exE conjE, goal_cases)
      case (1 f)
      have all: "\<forall>k. 32 * i \<le> k \<and> k < f \<longrightarrow> bit (bm (k div 32)) (k mod 32)"
        using rows [of f] 1(5) by blast
      have "32 * i \<le> f" using 1(2) by simp
      then show ?case
        by (intro disjI1 exI [of _ f] conjI) (rule 1(1), assumption, rule 1(3), rule 1(4), rule all)
    next
      case 2
      have all: "\<forall>k. 32 * i \<le> k \<and> k < 32 * n \<longrightarrow> bit (bm (k div 32)) (k mod 32)"
        using rows [of "32 * n"] 2(2) by blast
      show ?case by (intro disjI2 conjI) (rule 2(1), rule all)
    qed
  next
    case here
    from first_free_bit_Some [OF here(3)]
    have j: "j < 32" "\<not> bit (bm i) j" "\<forall>k < j. bit (bm i) k" by auto
    have eq: "first_free_dword bm n i = int (32 * i + j)"
      using here by (subst first_free_dword.simps) simp
    have "32 * i + j < 32 * n" using here(1) j(1) by linarith
    moreover have "bit (bm (k div 32)) (k mod 32)" if "32 * i \<le> k" "k < 32 * i + j" for k
    proof -
      have d: "k div 32 = i" by (rule div_nat_eqI) (use that j(1) in auto)
      then have "k mod 32 = k - 32 * i" by (simp add: minus_mult_div_eq_mod [symmetric])
      with that d j(3) show ?thesis by simp
    qed
    ultimately show ?thesis
      using j eq by (intro disjI1 exI [of _ "32 * i + j"]) simp
  next
    case absurd
    then have False unfolding first_free_bit_None all_ones_bits by blast
    then show ?thesis ..
  qed
qed

definition scanned_frames :: "pmm \<Rightarrow> nat" where
  "scanned_frames s = 32 * (unat (mmngr_max_blocks s) div 32)"

lemma mmap_first_free_cases:
  obtains (free) f where "mmap_first_free s = int f" "f < scanned_frames s" "\<not> mmap_test f s"
      "\<And>k. k < f \<Longrightarrow> mmap_test k s"
  | (full) "mmap_first_free s = -1" "\<And>k. k < scanned_frames s \<Longrightarrow> mmap_test k s"
  using first_free_dword_spec [of "mmngr_memory_map s" "unat (pmmngr_get_max_blocks s div 32)" 0]
  by (auto simp: mmap_first_free_def mmap_test_bit scanned_frames_def pmmngr_get_max_blocks_def
      unat_div)

lemma scanned_frames_le: "scanned_frames s \<le> unat (mmngr_max_blocks s)"
  by (simp add: scanned_frames_def)

section \<open>Accounting\<close>

text \<open>
  \<open>pmm_accounting\<close> is the invariant behind the counters: the used count is the number of set
  bits below the block count.
\<close>

definition used_frames :: "pmm \<Rightarrow> nat set" where
  "used_frames s = {n. n < unat (mmngr_max_blocks s) \<and> mmap_test n s}"

definition pmm_accounting :: "pmm \<Rightarrow> bool" where
  "pmm_accounting s \<longleftrightarrow> unat (mmngr_used_blocks s) = card (used_frames s)"

lemma finite_used_frames [simp]: "finite (used_frames s)"
  by (simp add: used_frames_def)

lemma card_used_frames_le: "card (used_frames s) \<le> unat (mmngr_max_blocks s)"
  using card_mono [of "{..< unat (mmngr_max_blocks s)}" "used_frames s"]
  by (auto simp: used_frames_def)

lemma card_used_frames_lt:
  assumes "n < unat (mmngr_max_blocks s)" "\<not> mmap_test n s"
  shows "card (used_frames s) < unat (mmngr_max_blocks s)"
proof -
  have "used_frames s \<subset> {..< unat (mmngr_max_blocks s)}"
    using assms by (auto simp: used_frames_def)
  from psubset_card_mono [OF _ this] show ?thesis by simp
qed

lemma unat_succ_lt: "unat a < unat b \<Longrightarrow> unat (a + 1) = Suc (unat a)" for a b :: u32
  using unat_plus_one [of a] unat_lt_2p32 [of b] by linarith

lemma unat_pred: "0 < unat a \<Longrightarrow> unat (a - 1) = unat a - 1" for a :: u32
  by (metis One_nat_def unat_1 unat_minus_one unat_gt_0)

lemma accounting_take:
  assumes "pmm_accounting s" "n < unat (mmngr_max_blocks s)" "\<not> mmap_test n s"
  shows "pmm_accounting (mmap_set n (s\<lparr>mmngr_used_blocks := mmngr_used_blocks s + 1\<rparr>))"
proof -
  have "unat (mmngr_used_blocks s) < unat (mmngr_max_blocks s)"
    using assms card_used_frames_lt by (simp add: pmm_accounting_def)
  moreover have "card {k. k < unat (mmngr_max_blocks s) \<and> mmap_test k (mmap_set n s)}
      = Suc (card {k. k < unat (mmngr_max_blocks s) \<and> mmap_test k s})"
    using assms by (intro pmm_bits.card_set) auto
  ultimately show ?thesis
    using assms(1)
    by (simp add: pmm_accounting_def used_frames_def frame_simps pmm_bits.test_set_b unat_succ_lt)
qed

lemma accounting_release:
  assumes "pmm_accounting s" "n < unat (mmngr_max_blocks s)" "mmap_test n s"
  shows "pmm_accounting (mmap_unset n (s\<lparr>mmngr_used_blocks := mmngr_used_blocks s - 1\<rparr>))"
proof -
  have "Suc (card {k. k < unat (mmngr_max_blocks s) \<and> mmap_test k (mmap_unset n s)})
      = card {k. k < unat (mmngr_max_blocks s) \<and> mmap_test k s}"
    using assms by (intro pmm_bits.card_unset) auto
  then show ?thesis
    using assms(1)
    by (simp add: pmm_accounting_def used_frames_def frame_simps pmm_bits.test_unset_b unat_pred)
qed

lemma word_set_bit_same: "bit w k \<Longrightarrow> w OR push_bit k 1 = w" for w :: u32
  by (rule bit_word_eqI) (auto simp add: bit_simps)

lemma word_clear_bit_same: "\<not> bit w k \<Longrightarrow> w AND NOT (push_bit k 1) = w" for w :: u32
  by (rule bit_word_eqI) (auto simp add: bit_simps)

lemma word_clear_set_bit: "\<not> bit w k \<Longrightarrow> (w OR push_bit k 1) AND NOT (push_bit k 1) = w" for w :: u32
  by (rule bit_word_eqI) (auto simp add: bit_simps)

lemma mmap_set_used: "mmap_test n s \<Longrightarrow> mmap_set n s = s"
  unfolding mmap_set_def mmap_test_bit by (simp add: word_set_bit_same del: push_bit_of_1)

lemma mmap_unset_free: "\<not> mmap_test n s \<Longrightarrow> mmap_unset n s = s"
  unfolding mmap_unset_def mmap_test_bit by (simp add: word_clear_bit_same del: push_bit_of_1)

lemma mmap_unset_set: "\<not> mmap_test n s \<Longrightarrow> mmap_unset n (mmap_set n s) = s"
  unfolding mmap_unset_def mmap_set_def mmap_test_bit
  by (simp add: word_clear_set_bit del: push_bit_of_1)

section \<open>The region functions\<close>

lemma init_blocks_test:
  "mmap_test n (init_blocks align blocks s) \<longleftrightarrow> mmap_test n s \<and> \<not> (align \<le> n \<and> n < align + blocks)"
  by (induction align blocks s rule: init_blocks.induct)
    (auto simp: Let_def pmm_bits.test_unset_b)

lemma deinit_blocks_test:
  "mmap_test n (deinit_blocks align blocks s) \<longleftrightarrow> mmap_test n s \<or> (align \<le> n \<and> n < align + blocks)"
  by (induction align blocks s rule: deinit_blocks.induct)
    (auto simp: Let_def pmm_bits.test_set_b)

lemma init_blocks_frame [frame_simps]:
  "mmngr_max_blocks (init_blocks align blocks s) = mmngr_max_blocks s"
  "mmngr_memory_size (init_blocks align blocks s) = mmngr_memory_size s"
  by (induction align blocks s rule: init_blocks.induct) (auto simp: Let_def mmap_frame)

lemma deinit_blocks_frame [frame_simps]:
  "mmngr_max_blocks (deinit_blocks align blocks s) = mmngr_max_blocks s"
  "mmngr_memory_size (deinit_blocks align blocks s) = mmngr_memory_size s"
  by (induction align blocks s rule: deinit_blocks.induct) (auto simp: Let_def mmap_frame)

lemma init_blocks_accounting:
  "pmm_accounting s \<Longrightarrow> align + blocks \<le> unat (mmngr_max_blocks s) \<Longrightarrow>
    pmm_accounting (init_blocks align blocks s)"
proof (induction align blocks s rule: init_blocks.induct)
  case (1 align s)
  then show ?case by simp
next
  case (2 align blocks s)
  show ?case
  proof (cases "mmap_test align s")
    case True
    with 2 show ?thesis by (simp add: Let_def mmap_frame accounting_release)
  next
    case False
    with 2 show ?thesis by (simp add: Let_def mmap_unset_free)
  qed
qed

lemma deinit_blocks_accounting:
  "pmm_accounting s \<Longrightarrow> align + blocks \<le> unat (mmngr_max_blocks s) \<Longrightarrow>
    pmm_accounting (deinit_blocks align blocks s)"
proof (induction align blocks s rule: deinit_blocks.induct)
  case (1 align s)
  then show ?case by simp
next
  case (2 align blocks s)
  show ?case
  proof (cases "mmap_test align s")
    case True
    with 2 show ?thesis by (simp add: Let_def mmap_set_used)
  next
    case False
    with 2 show ?thesis by (simp add: Let_def mmap_frame accounting_take)
  qed
qed

definition region_frames :: "u32 \<Rightarrow> u32 \<Rightarrow> nat set" where
  "region_frames base sz = {n. unat base div 4096 \<le> n \<and> n < unat base div 4096 + unat sz div 4096}"

lemma init_region_test:
  "mmap_test n (pmmngr_init_region base sz s) \<longleftrightarrow> mmap_test n s \<and> n \<notin> region_frames base sz"
  by (auto simp: pmmngr_init_region_def init_blocks_test region_frames_def PMMNGR_BLOCK_SIZE_def unat_div)

lemma deinit_region_test:
  "mmap_test n (pmmngr_deinit_region base sz s) \<longleftrightarrow> mmap_test n s \<or> n \<in> region_frames base sz"
  by (auto simp: pmmngr_deinit_region_def deinit_blocks_test region_frames_def PMMNGR_BLOCK_SIZE_def unat_div)

lemma region_frame [frame_simps]:
  "mmngr_max_blocks (pmmngr_init_region base sz s) = mmngr_max_blocks s"
  "mmngr_memory_size (pmmngr_init_region base sz s) = mmngr_memory_size s"
  "mmngr_max_blocks (pmmngr_deinit_region base sz s) = mmngr_max_blocks s"
  "mmngr_memory_size (pmmngr_deinit_region base sz s) = mmngr_memory_size s"
  by (simp_all add: pmmngr_init_region_def pmmngr_deinit_region_def frame_simps)

lemma init_region_accounting [inv_intros]:
  assumes "pmm_accounting s" "unat base div 4096 + unat sz div 4096 \<le> unat (mmngr_max_blocks s)"
  shows "pmm_accounting (pmmngr_init_region base sz s)"
  using assms
  by (simp add: pmmngr_init_region_def PMMNGR_BLOCK_SIZE_def unat_div init_blocks_accounting)

lemma deinit_region_accounting [inv_intros]:
  assumes "pmm_accounting s" "unat base div 4096 + unat sz div 4096 \<le> unat (mmngr_max_blocks s)"
  shows "pmm_accounting (pmmngr_deinit_region base sz s)"
  using assms
  by (simp add: pmmngr_deinit_region_def PMMNGR_BLOCK_SIZE_def unat_div deinit_blocks_accounting)

section \<open>Allocating and freeing\<close>

definition take_frame :: "nat \<Rightarrow> pmm \<Rightarrow> pmm" where
  "take_frame f s = mmap_set f (s\<lparr>mmngr_used_blocks := mmngr_used_blocks s + 1\<rparr>)"

lemma take_frame_test: "mmap_test n (take_frame f s) \<longleftrightarrow> n = f \<or> mmap_test n s"
  by (simp add: take_frame_def pmm_bits.test_set_b)

lemma take_frame_frame [frame_simps]:
  "mmngr_max_blocks (take_frame f s) = mmngr_max_blocks s"
  "mmngr_used_blocks (take_frame f s) = mmngr_used_blocks s + 1"
  by (simp_all add: take_frame_def frame_simps)

lemma free_count_eq_0: "pmmngr_get_free_block_count s = 0 \<longleftrightarrow> mmngr_max_blocks s = mmngr_used_blocks s"
  by (auto simp: pmmngr_get_free_block_count_def)

lemma alloc_block_cases:
  obtains (taken) f where "f < scanned_frames s" "\<not> mmap_test f s" "\<And>k. k < f \<Longrightarrow> mmap_test k s"
      "pmmngr_alloc_block s = (of_nat f * 4096, take_frame f s)"
      "mmngr_max_blocks s \<noteq> mmngr_used_blocks s"
  | (none) "pmmngr_alloc_block s = (0, s)"
      "mmngr_max_blocks s = mmngr_used_blocks s \<or> (\<forall>k < scanned_frames s. mmap_test k s)"
proof (cases "mmngr_max_blocks s = mmngr_used_blocks s")
  case True
  then show ?thesis using none by (simp add: pmmngr_alloc_block_def free_count_eq_0)
next
  case False
  then have nz: "pmmngr_get_free_block_count s \<noteq> 0" by (simp add: free_count_eq_0)
  show ?thesis
  proof (cases rule: mmap_first_free_cases [of s])
    case (free f)
    have "pmmngr_alloc_block s = (of_nat f * 4096, take_frame f s)"
      using nz free(1) by (cases s) (simp add: pmmngr_alloc_block_def take_frame_def mmap_set_def
          PMMNGR_BLOCK_SIZE_def Let_def)
    with free False show ?thesis using taken by blast
  next
    case full
    then show ?thesis using nz none by (simp add: pmmngr_alloc_block_def)
  qed
qed

text \<open>Frame addresses do not wrap on machines of at most 4 GiB, which is \<open>2 ^ 20\<close> frames.\<close>

definition addressable :: "pmm \<Rightarrow> bool" where
  "addressable s \<longleftrightarrow> unat (mmngr_max_blocks s) \<le> 2 ^ 20"

lemma unat_frame_addr: "f < 2 ^ 20 \<Longrightarrow> unat (of_nat f * 4096 :: u32) = f * 4096"
  by (simp add: unat_word_ariths unat_of_nat take_bit_eq_mod)

lemma frame_of_addr: "f < 2 ^ 20 \<Longrightarrow> unat ((of_nat f * 4096 :: u32) div 4096) = f"
  using unat_frame_addr [of f] by (simp add: unat_div)

lemma addressable_lt: "addressable s \<Longrightarrow> f < scanned_frames s \<Longrightarrow> f < 2 ^ 20"
  using scanned_frames_le [of s] by (simp add: addressable_def)

lemma alloc_block_frame [frame_simps]:
  "mmngr_max_blocks (snd (pmmngr_alloc_block s)) = mmngr_max_blocks s"
  by (cases s rule: alloc_block_cases) (simp_all add: frame_simps)

lemma alloc_block_accounting [inv_intros]:
  "pmm_accounting s \<Longrightarrow> pmm_accounting (snd (pmmngr_alloc_block s))"
proof (cases s rule: alloc_block_cases)
  case (taken f)
  assume "pmm_accounting s"
  moreover have "f < unat (mmngr_max_blocks s)" using taken(1) scanned_frames_le [of s] by simp
  ultimately show ?thesis using taken by (simp add: take_frame_def accounting_take)
qed simp

lemma free_block_frame [frame_simps]:
  "mmngr_max_blocks (pmmngr_free_block p s) = mmngr_max_blocks s"
  by (simp add: pmmngr_free_block_def Let_def frame_simps)

lemma free_block_test:
  "mmap_test n (pmmngr_free_block p s) \<longleftrightarrow> n \<noteq> unat p div 4096 \<and> mmap_test n s"
  by (simp add: pmmngr_free_block_def PMMNGR_BLOCK_SIZE_def Let_def unat_div pmm_bits.test_unset_b)

lemma free_block_alt: "pmmngr_free_block p s =
    mmap_unset (unat p div 4096) (s\<lparr>mmngr_used_blocks := mmngr_used_blocks s - 1\<rparr>)"
  by (cases s) (simp add: pmmngr_free_block_def PMMNGR_BLOCK_SIZE_def Let_def unat_div mmap_unset_def)

lemma free_block_accounting [inv_intros]:
  assumes "pmm_accounting s" "unat p div 4096 < unat (mmngr_max_blocks s)" "mmap_test (unat p div 4096) s"
  shows "pmm_accounting (pmmngr_free_block p s)"
  unfolding free_block_alt using assms by (rule accounting_release)

lemma alloc_block_test:
  "mmap_test n s \<Longrightarrow> mmap_test n (snd (pmmngr_alloc_block s))"
  by (cases s rule: alloc_block_cases) (simp_all add: take_frame_test)

text \<open>What a caller that gets a non-null address may rely on.\<close>

lemma alloc_block_nonnull:
  assumes "pmmngr_alloc_block s = (p, s')" "p \<noteq> 0" "addressable s"
  obtains f where "0 < f" "f < scanned_frames s" "unat p = f * 4096" "\<not> mmap_test f s"
    "\<And>k. k < f \<Longrightarrow> mmap_test k s" "s' = take_frame f s"
proof (cases s rule: alloc_block_cases)
  case (taken f)
  with assms(1) have p: "p = of_nat f * 4096" "s' = take_frame f s" by simp_all
  have "unat p = f * 4096" using taken assms(3) p addressable_lt unat_frame_addr by blast
  moreover have "0 < f" using p(1) assms(2) by (cases f) simp_all
  ultimately show ?thesis using that taken p by blast
next
  case none
  with assms show ?thesis by simp
qed

section \<open>Initialisation\<close>

lemma bit_255: "bit (255 :: int) i \<longleftrightarrow> i < 8"
proof -
  have m: "(255 :: int) = mask 8" by (simp add: mask_eq_exp_minus_1)
  show ?thesis unfolding m bit_mask_iff by simp
qed

lemma bit_set_byte:
  "b < 32 \<Longrightarrow> bit (set_byte k v w) b = (if 8 * k \<le> b \<and> b < 8 * k + 8 then bit v (b - 8 * k) else bit w b)"
  using bit_imp_le_length [of v "b - 8 * k"] by (auto simp add: set_byte_def bit_simps bit_255)

lemma bit_memset_dwords:
  assumes "b < 32"
  shows "bit (memset_dwords bm 0xff n i) b \<longleftrightarrow> 4 * i + b div 8 < n \<or> bit (bm i) b"
proof -
  consider "b < 8" "b div 8 = 0" | "8 \<le> b" "b < 16" "b div 8 = 1" | "16 \<le> b" "b < 24" "b div 8 = 2"
    | "24 \<le> b" "b div 8 = 3"
    using assms by linarith
  then show ?thesis
    by cases (use assms in \<open>auto simp: memset_dwords_def bit_set_byte bit_255\<close>)
qed

lemma pmm_init_fields [frame_simps]:
  "mmngr_max_blocks (pmmngr_init memSize bm s) = memSize div 4"
  "mmngr_used_blocks (pmmngr_init memSize bm s) = memSize div 4"
  "mmngr_memory_size (pmmngr_init memSize bm s) = memSize"
  by (simp_all add: pmmngr_init_def Let_def pmmngr_get_memory_size_def pmmngr_get_max_blocks_def)

lemma pmm_init_test:
  "mmap_test n (pmmngr_init memSize bm s) \<longleftrightarrow>
    n < 8 * (unat (memSize div 4) div 8) \<or> bit (bm (n div 32)) (n mod 32)"
proof -
  have "mmap_test n (pmmngr_init memSize bm s) \<longleftrightarrow>
      4 * (n div 32) + n mod 32 div 8 < unat (memSize div 4) div 8 \<or> bit (bm (n div 32)) (n mod 32)"
    by (simp add: mmap_test_bit pmmngr_init_def Let_def bit_memset_dwords unat_div
        PMMNGR_BLOCKS_PER_BYTE_def pmmngr_get_memory_size_def pmmngr_get_max_blocks_def)
  moreover have "4 * (n div 32) + n mod 32 div 8 = n div 8"
    using mod_mult2_eq [of n 8 4] div_mult2_eq [of n 8 4] by (simp add: algebra_simps)
  moreover have "n div 8 < k \<longleftrightarrow> n < 8 * k" for k by auto
  ultimately show ?thesis by simp
qed

lemma pmm_init_accounting [inv_intros]:
  assumes "8 dvd unat (memSize div 4)"
  shows "pmm_accounting (pmmngr_init memSize bm s)"
proof -
  have "used_frames (pmmngr_init memSize bm s) = {..< unat (memSize div 4)}"
    using assms by (auto simp: used_frames_def pmm_init_test frame_simps)
  then show ?thesis by (simp add: pmm_accounting_def frame_simps)
qed

section \<open>The boot-time layout\<close>

text \<open>\<open>deinit_special_regions\<close> of \<^verbatim>\<open>kernel/kernel.c\<close> takes the first 4 MiB back: BIOS, kernel, bitmap.\<close>

definition deinit_special_regions :: "pmm \<Rightarrow> pmm" where
  "deinit_special_regions s = pmmngr_deinit_region 0x0 0x400000 s"

definition low_reserved :: "pmm \<Rightarrow> bool" where
  "low_reserved s \<longleftrightarrow> (\<forall>n < 1024. mmap_test n s)"

lemma deinit_special_low_reserved [inv_intros]: "low_reserved (deinit_special_regions s)"
  by (simp add: low_reserved_def deinit_special_regions_def deinit_region_test region_frames_def)

text \<open>Releasing the frame that was taken gives back the state.\<close>

lemma free_take_frame:
  assumes "\<not> mmap_test f s" "unat p div 4096 = f"
  shows "pmmngr_free_block p (take_frame f s) = s"
proof -
  have "pmmngr_free_block p (take_frame f s) = (mmap_unset f (mmap_set f s))
      \<lparr>mmngr_used_blocks := mmngr_used_blocks (mmap_set f s) + 1 - 1\<rparr>"
    using assms(2) by (cases s) (simp add: free_block_alt take_frame_def mmap_set_def mmap_unset_def)
  also have "\<dots> = s" using assms(1) by (simp add: mmap_unset_set frame_simps)
  finally show ?thesis .
qed

lemma alloc_block_at:
  assumes "f < scanned_frames s" "\<not> mmap_test f s" "\<And>k. k < f \<Longrightarrow> mmap_test k s"
    "mmngr_max_blocks s \<noteq> mmngr_used_blocks s"
  shows "pmmngr_alloc_block s = (of_nat f * 4096, take_frame f s)"
proof (cases s rule: alloc_block_cases)
  case (taken g)
  then have "g = f" using assms by (metis linorder_neqE_nat)
  then show ?thesis using taken by simp
qed (use assms in auto)

lemma alloc_block_low_reserved [inv_intros]:
  "low_reserved s \<Longrightarrow> low_reserved (snd (pmmngr_alloc_block s))"
  by (simp add: low_reserved_def alloc_block_test)

lemma free_block_low_reserved [inv_intros]:
  "low_reserved s \<Longrightarrow> 0x400000 \<le> unat p \<Longrightarrow> low_reserved (pmmngr_free_block p s)"
  by (auto simp: low_reserved_def free_block_test)

text \<open>A run of \<open>n\<close> allocations: the addresses handed out, the latest last.\<close>

fun alloc_run :: "nat \<Rightarrow> pmm \<Rightarrow> u32 list \<times> pmm" where
  "alloc_run 0 s = ([], s)"
| "alloc_run (Suc n) s = (let (p, s) = pmmngr_alloc_block s; (ps, s) = alloc_run n s in (p # ps, s))"

lemma alloc_run_fresh:
  assumes "low_reserved s" "addressable s" "p \<in> set (fst (alloc_run n s))" "p \<noteq> 0"
  shows "0x400000 \<le> unat p \<and> 4096 dvd unat p \<and> \<not> mmap_test (unat p div 4096) s"
  using assms
proof (induction n arbitrary: s)
  case 0
  then show ?case by simp
next
  case (Suc n)
  obtain q s1 where q: "pmmngr_alloc_block s = (q, s1)" by fastforce
  show ?case
  proof (cases "p = q")
    case True
    from alloc_block_nonnull [OF q] True Suc.prems obtain f where f:
      "unat p = f * 4096" "\<not> mmap_test f s" by auto
    then have "1024 \<le> f" using Suc.prems(1) by (meson low_reserved_def not_le)
    with f show ?thesis by simp
  next
    case False
    have "low_reserved s1" "addressable s1"
      using alloc_block_low_reserved [OF Suc.prems(1)] Suc.prems(2) alloc_block_frame [of s] q
      by (simp_all add: addressable_def)
    moreover have "p \<in> set (fst (alloc_run n s1))"
      using Suc.prems(3) q False by (auto split: prod.splits)
    ultimately have "0x400000 \<le> unat p \<and> 4096 dvd unat p \<and> \<not> mmap_test (unat p div 4096) s1"
      using Suc.prems(4) by (intro Suc.IH) auto
    moreover have "mmap_test n s \<Longrightarrow> mmap_test n s1" for n
      using alloc_block_test [of n s] q by simp
    ultimately show ?thesis by auto
  qed
qed

section \<open>The multiboot walk\<close>

text \<open>
  \<open>mmap_table m stop a es\<close>: from address \<open>a\<close> up to \<open>stop\<close> memory holds the entries \<open>es\<close>, each
  as its size field, address, length and type, one after the other.
\<close>

fun mmap_table :: "mem \<Rightarrow> u32 \<Rightarrow> u32 \<Rightarrow> (u32 \<times> u64 \<times> u64 \<times> u32) list \<Rightarrow> bool" where
  "mmap_table m stop a [] = (a = stop)"
| "mmap_table m stop a ((sz, ad, ln, ty) # es) =
     (mmap_entry_size m a = sz \<and> mmap_entry_addr m a = ad \<and> mmap_entry_len m a = ln
      \<and> mmap_entry_type m a = ty \<and> unat a + unat sz + 4 \<le> unat stop
      \<and> mmap_table m stop (a + sz + 4) es)"

fun init_entry :: "u32 \<times> u64 \<times> u64 \<times> u32 \<Rightarrow> pmm \<Rightarrow> pmm" where
  "init_entry (sz, ad, ln, ty) s = (if ty = 1 then pmmngr_init_region (ucast ad) (ucast ln) s else s)"

lemma init_regions_table:
  "mmap_table m stop a es \<Longrightarrow> init_regions_from m stop a s = Some (fold init_entry es s)"
proof (induction es arbitrary: a s)
  case Nil
  then show ?case by (simp add: init_regions_from.simps)
next
  case (Cons e es)
  obtain sz ad ln ty where e: "e = (sz, ad, ln, ty)" by (cases e)
  with Cons.prems have lt: "a < stop" by (simp add: word_less_nat_alt)
  have "init_regions_from m stop a s = init_regions_from m stop (a + sz + 4) (init_entry e s)"
    using Cons.prems lt e by (subst init_regions_from.simps) simp
  also have "\<dots> = Some (fold init_entry es (init_entry e s))"
    using Cons.prems e by (intro Cons.IH) simp
  finally show ?case by simp
qed

lemma init_regions_stuck:
  assumes "mmap_entry_size m a = - 4" "a < stop"
  shows "init_regions_from m stop a s = None"
proof (rule ccontr)
  assume "init_regions_from m stop a s \<noteq> None"
  then obtain r where r: "init_regions_from m stop a s = Some r" by auto
  have "e = a \<Longrightarrow> m' = m \<Longrightarrow> st = stop \<Longrightarrow> False"
    if "init_regions_from m' st e s = Some r" for m' st e s r
  proof (rule init_regions_from.raw_induct
      [where P = "\<lambda>m' st e s r. e = a \<longrightarrow> m' = m \<longrightarrow> st = stop \<longrightarrow> False", THEN mp, THEN mp, THEN mp, OF _ that])
    fix f m' st e s r
    assume IH: "\<And>m' st e s r. f m' st e s = Some r \<Longrightarrow> e = a \<longrightarrow> m' = m \<longrightarrow> st = stop \<longrightarrow> False"
      and eq: "(if e < st then f m' st (e + mmap_entry_size m' e + 4)
          (if mmap_entry_type m' e = 1
           then pmmngr_init_region (ucast (mmap_entry_addr m' e)) (ucast (mmap_entry_len m' e)) s
           else s) else Some s) = Some r"
    show "e = a \<longrightarrow> m' = m \<longrightarrow> st = stop \<longrightarrow> False"
    proof (intro impI)
      assume *: "e = a" "m' = m" "st = stop"
      from assms eq have "f m stop a (if mmap_entry_type m a = 1
           then pmmngr_init_region (ucast (mmap_entry_addr m a)) (ucast (mmap_entry_len m a)) s
           else s) = Some r" unfolding * by simp
      from IH [OF this] show False by simp
    qed
  qed
  from this [OF r] show False by simp
qed

section \<open>Properties\<close>

text \<open>
  C18. Allocation takes the lowest free frame among those the scan covers and returns its address,
  marking exactly that frame used and counting it; it gives up, changing nothing, only when the
  used counter has reached the block count or every scanned frame is used.
\<close>

theorem alloc_block_lowest_free:
  assumes "addressable s"
  shows "(\<exists>f. f < scanned_frames s \<and> \<not> mmap_test f s \<and> (\<forall>k < f. mmap_test k s)
      \<and> unat (fst (pmmngr_alloc_block s)) = f * 4096
      \<and> (\<forall>n. mmap_test n (snd (pmmngr_alloc_block s)) \<longleftrightarrow> n = f \<or> mmap_test n s)
      \<and> mmngr_used_blocks (snd (pmmngr_alloc_block s)) = mmngr_used_blocks s + 1)
    \<or> (pmmngr_alloc_block s = (0, s)
      \<and> (mmngr_used_blocks s = mmngr_max_blocks s \<or> (\<forall>k < scanned_frames s. mmap_test k s)))"
proof (cases s rule: alloc_block_cases)
  case (taken f)
  then have "unat (fst (pmmngr_alloc_block s)) = f * 4096"
    using unat_frame_addr addressable_lt [OF assms] by auto
  with taken show ?thesis
    by (intro disjI1 exI [of _ f]) (simp add: take_frame_test frame_simps)
next
  case none
  then show ?thesis by auto
qed

lemma alloc_block_lowest_free_witness:
  "let s = \<lparr>mmngr_memory_size = 256, mmngr_used_blocks = 2, mmngr_max_blocks = 64,
            mmngr_memory_map = (\<lambda>i. if i = 0 then 3 else 0)\<rparr>
   in addressable s \<and> pmmngr_alloc_block s \<noteq> (0, s)"
proof -
  define s where "s = \<lparr>mmngr_memory_size = 256, mmngr_used_blocks = 2, mmngr_max_blocks = 64,
            mmngr_memory_map = (\<lambda>i. if i = 0 then (3 :: u32) else 0)\<rparr>"
  have a: "addressable s" by (simp add: addressable_def s_def)
  have "\<not> mmap_test 5 s" "5 < scanned_frames s" "mmngr_used_blocks s \<noteq> mmngr_max_blocks s"
    by (simp_all add: mmap_test_def s_def scanned_frames_def)
  with alloc_block_lowest_free [OF a] have "pmmngr_alloc_block s \<noteq> (0, s)"
    by (metis add_cancel_right_right one_neq_zero snd_conv)
  with a show ?thesis by (simp add: s_def Let_def)
qed

text \<open>
  Allocation is complete: when the counters agree with the bitmap, the block count is a multiple of 32
  and some frame is free, a frame is handed out.
\<close>

theorem alloc_block_complete:
  assumes "pmm_accounting s" "32 dvd unat (mmngr_max_blocks s)"
    and "n < unat (mmngr_max_blocks s)" "\<not> mmap_test n s"
  shows "snd (pmmngr_alloc_block s) \<noteq> s"
proof (cases s rule: alloc_block_cases)
  case (taken f)
  then have "mmngr_used_blocks (snd (pmmngr_alloc_block s)) \<noteq> mmngr_used_blocks s"
    by (simp add: frame_simps)
  then show ?thesis by metis
next
  case none
  have "card (used_frames s) < unat (mmngr_max_blocks s)"
    using assms by (intro card_used_frames_lt)
  then have "mmngr_max_blocks s \<noteq> mmngr_used_blocks s"
    using assms(1) by (auto simp: pmm_accounting_def)
  moreover have "n < scanned_frames s" using assms by (simp add: scanned_frames_def)
  ultimately show ?thesis using none assms(4) by blast
qed

definition pmm_demo :: pmm where
  "pmm_demo = \<lparr>mmngr_memory_size = 128, mmngr_used_blocks = 2, mmngr_max_blocks = 32,
     mmngr_memory_map = (\<lambda>i. if i = 0 then 5 else 0)\<rparr>"

lemma pmm_demo_test: "mmap_test n pmm_demo \<longleftrightarrow> n = 0 \<or> n = 2"
proof -
  have "mmap_test n pmm_demo \<longleftrightarrow> n div 32 = 0 \<and> bit (5 :: u32) (n mod 32)"
    by (auto simp: mmap_test_bit pmm_demo_def)
  also have "\<dots> \<longleftrightarrow> n < 32 \<and> bit (5 :: u32) n" by auto
  also have "\<dots> \<longleftrightarrow> n = 0 \<or> n = 2"
    by (auto simp: bit_numeral_rec bit_1_iff split: nat.splits)
  finally show ?thesis .
qed

lemma pmm_demo_accounting: "pmm_accounting pmm_demo"
proof -
  have "used_frames pmm_demo = {0, 2}"
    by (auto simp: used_frames_def pmm_demo_test) (simp_all add: pmm_demo_def)
  then show ?thesis by (simp add: pmm_accounting_def) (simp add: pmm_demo_def)
qed

lemma alloc_block_complete_witness: "snd (pmmngr_alloc_block pmm_demo) \<noteq> pmm_demo"
  by (rule alloc_block_complete [OF pmm_demo_accounting, of 1])
    (simp_all add: pmm_demo_test, simp_all add: pmm_demo_def)

text \<open>Freeing the frame just allocated restores the allocator exactly: bitmap and counters.\<close>

theorem alloc_free_roundtrip:
  assumes "pmmngr_alloc_block s = (p, s')" "p \<noteq> 0" "addressable s"
  shows "pmmngr_free_block p s' = s"
proof -
  from alloc_block_nonnull [OF assms] obtain f where
    "unat p = f * 4096" "\<not> mmap_test f s" "s' = take_frame f s" by metis
  then show ?thesis using free_take_frame [of f s p] by simp
qed

lemma alloc_free_roundtrip_witness:
  "pmmngr_alloc_block pmm_demo = (4096, take_frame 1 pmm_demo)
   \<and> pmmngr_free_block 4096 (take_frame 1 pmm_demo) = pmm_demo"
proof -
  have a: "pmmngr_alloc_block pmm_demo = (4096, take_frame 1 pmm_demo)"
  proof (cases pmm_demo rule: alloc_block_cases)
    case (taken f)
    have "f = 1"
    proof (rule ccontr)
      assume "f \<noteq> 1"
      moreover have "f \<noteq> 0" using taken(2) by (simp add: pmm_demo_test)
      ultimately have "1 < f" by simp
      from taken(3) [OF this] show False by (simp add: pmm_demo_test)
    qed
    with taken show ?thesis by simp
  next
    case none
    then have "pmm_demo = snd (pmmngr_alloc_block pmm_demo)" by simp
    with alloc_block_complete_witness show ?thesis by simp
  qed
  have "addressable pmm_demo" by (simp add: addressable_def pmm_demo_def)
  with a show ?thesis using alloc_free_roundtrip [OF a] by simp
qed

text \<open>
  After boot (the first 4 MiB reserved) any run of allocations hands out distinct page-aligned
  frames, all above 4 MiB and all free before the run: the kernel, its bitmap and the BIOS area are
  never given away, and no frame twice.
\<close>

theorem alloc_run_distinct:
  assumes "low_reserved s" "addressable s"
  shows "distinct (filter (\<lambda>p. p \<noteq> 0) (fst (alloc_run n s)))
    \<and> (\<forall>p \<in> set (fst (alloc_run n s)). p \<noteq> 0 \<longrightarrow>
         0x400000 \<le> unat p \<and> 4096 dvd unat p \<and> \<not> mmap_test (unat p div 4096) s)"
  using assms
proof (induction n arbitrary: s)
  case 0
  then show ?case by simp
next
  case (Suc n)
  obtain q s1 where q: "pmmngr_alloc_block s = (q, s1)" by fastforce
  have s1: "low_reserved s1" "addressable s1"
    using alloc_block_low_reserved [OF Suc.prems(1)] Suc.prems(2) alloc_block_frame [of s] q
    by (simp_all add: addressable_def)
  have "q \<notin> set (fst (alloc_run n s1))" if "q \<noteq> 0"
  proof
    assume "q \<in> set (fst (alloc_run n s1))"
    then have "\<not> mmap_test (unat q div 4096) s1"
      using alloc_run_fresh s1 that by blast
    moreover obtain f where "unat q = f * 4096" "s1 = take_frame f s"
      using alloc_block_nonnull [OF q \<open>q \<noteq> 0\<close> Suc.prems(2)] by metis
    ultimately show False by (simp add: take_frame_test)
  qed
  then have "distinct (filter (\<lambda>p. p \<noteq> 0) (fst (alloc_run (Suc n) s)))"
    using Suc.IH [OF s1] q by (auto simp: split_beta)
  then show ?case using alloc_run_fresh [OF Suc.prems] by blast
qed

lemma alloc_run_distinct_witness:
  "let s = deinit_special_regions pmm_demo
   in low_reserved s \<and> distinct (filter (\<lambda>p. p \<noteq> 0) (fst (alloc_run 3 s)))"
proof -
  have "low_reserved (deinit_special_regions pmm_demo)" "addressable (deinit_special_regions pmm_demo)"
    by (rule deinit_special_low_reserved)
      (simp add: addressable_def deinit_special_regions_def frame_simps, simp add: pmm_demo_def)
  then show ?thesis using alloc_run_distinct [of "deinit_special_regions pmm_demo" 3] by (simp add: Let_def)
qed

text \<open>
  C19. The counters keep agreeing with the bitmap: through allocation always, through freeing when the
  frame is in use, through the region functions within the block count.
\<close>

theorem pmm_accounting_preserved:
  assumes "pmm_accounting s"
  shows "pmm_accounting (snd (pmmngr_alloc_block s))
    \<and> (unat p div 4096 \<in> used_frames s \<longrightarrow> pmm_accounting (pmmngr_free_block p s))
    \<and> (unat base div 4096 + unat sz div 4096 \<le> unat (mmngr_max_blocks s) \<longrightarrow>
      pmm_accounting (pmmngr_init_region base sz s) \<and> pmm_accounting (pmmngr_deinit_region base sz s))"
  using assms by (auto simp: used_frames_def intro!: inv_intros)

lemma pmm_accounting_preserved_witness:
  "pmm_accounting (snd (pmmngr_alloc_block pmm_demo))
   \<and> pmm_accounting (pmmngr_free_block 0x2000 pmm_demo)
   \<and> pmm_accounting (pmmngr_init_region 0x1000 0x2000 pmm_demo)"
proof -
  have u: "unat (0x2000 :: u32) div 4096 \<in> used_frames pmm_demo"
    by (simp add: used_frames_def pmm_demo_test) (simp add: pmm_demo_def)
  have r: "unat (0x1000 :: u32) div 4096 + unat (0x2000 :: u32) div 4096 \<le> unat (mmngr_max_blocks pmm_demo)"
    by (simp add: pmm_demo_def)
  show ?thesis
    using pmm_accounting_preserved [OF pmm_demo_accounting, of "0x2000" "0x1000" "0x2000"] u r by blast
qed

text \<open>
  A second free of the same frame is not caught: it changes no bit, but takes one from the used
  counter, so the counters and the bitmap part.
\<close>

theorem double_free_breaks_accounting:
  assumes "pmm_accounting s" "\<not> mmap_test (unat p div 4096) s" "mmngr_used_blocks s \<noteq> 0"
  shows "used_frames (pmmngr_free_block p s) = used_frames s
    \<and> \<not> pmm_accounting (pmmngr_free_block p s)"
proof -
  have "used_frames (pmmngr_free_block p s) = used_frames s"
    using assms(2) by (auto simp: used_frames_def free_block_test frame_simps)
  moreover have "mmngr_used_blocks (pmmngr_free_block p s) = mmngr_used_blocks s - 1"
    by (simp add: free_block_alt frame_simps)
  moreover have "0 < unat (mmngr_used_blocks s)" using assms(3) by (simp add: unat_gt_0)
  ultimately show ?thesis using assms(1) by (simp add: pmm_accounting_def unat_pred)
qed

lemma double_free_breaks_accounting_witness: "\<not> pmm_accounting (pmmngr_free_block 0x1000 pmm_demo)"
proof -
  have "\<not> mmap_test (unat (0x1000 :: u32) div 4096) pmm_demo" by (simp add: pmm_demo_test)
  moreover have "mmngr_used_blocks pmm_demo \<noteq> 0" by (simp add: pmm_demo_def)
  ultimately show ?thesis using double_free_breaks_accounting [OF pmm_demo_accounting] by blast
qed

text \<open>
  Freeing a region clears exactly the bits from the frame that holds \<open>base\<close>, as many as the size
  has whole pages, and reserving one sets exactly these. Those frames lie inside the region just when the base is
  page-aligned or the region is shorter than a page: an unaligned base frees a frame that reaches
  below the region.
\<close>

theorem region_rounding:
  "(mmap_test n (pmmngr_init_region base sz s) \<longleftrightarrow> mmap_test n s \<and> n \<notin> region_frames base sz)
   \<and> (mmap_test n (pmmngr_deinit_region base sz s) \<longleftrightarrow> mmap_test n s \<or> n \<in> region_frames base sz)
   \<and> ((\<forall>k \<in> region_frames base sz. unat base \<le> k * 4096 \<and> (k + 1) * 4096 \<le> unat base + unat sz)
      \<longleftrightarrow> 4096 dvd unat base \<or> unat sz < 4096)"
proof -
  have "(\<forall>k \<in> region_frames base sz. unat base \<le> k * 4096 \<and> (k + 1) * 4096 \<le> unat base + unat sz)
      \<longleftrightarrow> 4096 dvd unat base \<or> unat sz < 4096" (is "?in \<longleftrightarrow> ?al")
  proof
    assume inside: ?in
    show ?al
    proof (rule ccontr)
      assume na: "\<not> ?al"
      then have "unat base div 4096 \<in> region_frames base sz" by (auto simp: region_frames_def div_greater_zero_iff)
      with inside have "unat base \<le> unat base div 4096 * 4096" by blast
      then have "unat base div 4096 * 4096 = unat base"
        using div_times_less_eq_dividend [of "unat base" 4096] by linarith
      with na show False by (metis dvd_triv_right)
    qed
  next
    assume ?al
    then show ?in
    proof
      assume "4096 dvd unat base"
      then obtain b where b: "unat base = 4096 * b" by (elim dvdE)
      have "unat sz div 4096 * 4096 \<le> unat sz" by (rule div_times_less_eq_dividend)
      then show ?in by (auto simp: region_frames_def b)
    qed (auto simp: region_frames_def)
  qed
  then show ?thesis by (simp add: init_region_test deinit_region_test)
qed

lemma region_rounding_witness:
  "\<not> (\<forall>k \<in> region_frames 0x1800 0x1000. 0x1800 \<le> k * 4096 \<and> (k + 1) * 4096 \<le> 0x2800)"
  using region_rounding [of 1 "0x1800" "0x1000" pmm_demo] by simp

text \<open>
  The walk over a well-formed multiboot map ends and frees exactly its available entries, in
  order; an entry whose size field brings the pointer back to itself makes it run forever.
\<close>

theorem multiboot_walk:
  "(mmap_table m (mmap_addr + mmap_length) mmap_addr es \<longrightarrow>
      pmm_init_available_regions m mmap_addr mmap_length s = Some (fold init_entry es s))
   \<and> (mmap_entry_size m mmap_addr = - 4 \<and> mmap_addr < mmap_addr + mmap_length \<longrightarrow>
      pmm_init_available_regions m mmap_addr mmap_length s = None)"
  by (simp_all add: pmm_init_available_regions_def init_regions_table init_regions_stuck)

definition mmap_demo :: mem where
  "mmap_demo = (\<lambda>_. 0)(0x9000 := 20, 0x9006 := 0x10, 0x900D := 0x20, 0x9014 := 1)"

lemma multiboot_walk_witness:
  "pmm_init_available_regions mmap_demo 0x9000 24 pmm_demo
     = Some (pmmngr_init_region 0x100000 0x2000 pmm_demo)
   \<and> pmm_init_available_regions ((\<lambda>_. 0xff)(0x9000 := 0xfc)) 0x9000 24 pmm_demo = None"
proof
  have t: "mmap_table mmap_demo (0x9000 + 24) 0x9000 [(20, 0x100000, 0x2000, 1)]"
    by (simp add: mmap_entry_size_def mmap_entry_addr_def mmap_entry_len_def mmap_entry_type_def
        rd64_def rd32_def mmap_demo_def)
  from multiboot_walk [THEN conjunct1, rule_format, OF t] show "pmm_init_available_regions mmap_demo 0x9000 24 pmm_demo
     = Some (pmmngr_init_region 0x100000 0x2000 pmm_demo)" by simp
  show "pmm_init_available_regions ((\<lambda>_. 0xff)(0x9000 := 0xfc)) 0x9000 24 pmm_demo = None"
    by (rule multiboot_walk [THEN conjunct2, rule_format]) (simp_all add: mmap_entry_size_def rd32_def)
qed

end
