(* ===== verification/Vmm.thy ===== *)
theory Vmm
  imports Pmm "HOL-Library.Monad_Syntax"
begin

text \<open>
  The virtual memory manager, \<^verbatim>\<open>kernel/vmm.c\<close>, over a model of what it programs: physical memory
  as 32-bit words, the control register with the page directory, and the two-level page walk of
  the processor. The code reaches directory and tables through the recursive window (entry 1023 of the directory is
  the directory itself), so every access it makes is an access through the page walk, and the
  lemmas show where in physical memory it lands. An access the walk does not translate is
  a page fault, on which the kernel halts: \<open>None\<close>. The TLB is not modelled; \<open>invlpg_addr\<close>
  is called after every entry the code changes, and leaves nothing to do here.
\<close>

section \<open>Entries and indices\<close>

definition PAGE_SIZE :: u32 where
  "PAGE_SIZE = 4096"

definition PAGE_PRESENT :: u32 where
  "PAGE_PRESENT = push_bit 0 1"

definition PAGE_WRITABLE :: u32 where
  "PAGE_WRITABLE = push_bit 1 1"

definition PAGE_USER :: u32 where
  "PAGE_USER = push_bit 2 1"

definition TEMP_MAP_ADDR :: u32 where
  "TEMP_MAP_ADDR = 0xFFBFF000"

definition PD_INDEX :: "u32 \<Rightarrow> u32" where
  "PD_INDEX addr = drop_bit 22 addr"

definition PT_INDEX :: "u32 \<Rightarrow> u32" where
  "PT_INDEX addr = drop_bit 12 addr AND 0x3FF"

definition PAGE_OFFSET :: "u32 \<Rightarrow> u32" where
  "PAGE_OFFSET addr = addr AND 0xFFF"

definition ENTRY_GET_FRAME :: "u32 \<Rightarrow> u32" where
  "ENTRY_GET_FRAME entry = entry AND NOT 0xFFF"

definition ENTRY_HAS_FLAG :: "u32 \<Rightarrow> u32 \<Rightarrow> bool" where
  "ENTRY_HAS_FLAG entry flag = (entry AND flag \<noteq> 0)"

section \<open>The machine\<close>

text \<open>
  \<open>pmem\<close> maps the physical address of an aligned word to the word. \<open>kernel_directory\<close> is the
  static pointer of the module; \<open>cr3\<close> and \<open>paging\<close> are what \<open>load_cr3\<close> and
  \<open>enable_paging\<close> of \<^verbatim>\<open>kernel/cpu.asm\<close> set.
\<close>

record vm =
  vpmm :: pmm
  pmem :: "u32 \<Rightarrow> u32"
  cr3 :: u32
  paging :: bool
  kernel_directory :: u32

definition mmu_translate :: "vm \<Rightarrow> u32 \<Rightarrow> u32 option" where
  "mmu_translate st v =
     (if \<not> paging st then Some v
      else (let pde = pmem st (ENTRY_GET_FRAME (cr3 st) + 4 * PD_INDEX v) in
        if \<not> ENTRY_HAS_FLAG pde PAGE_PRESENT then None
        else (let pte = pmem st (ENTRY_GET_FRAME pde + 4 * PT_INDEX v) in
          if \<not> ENTRY_HAS_FLAG pte PAGE_PRESENT then None
          else Some (ENTRY_GET_FRAME pte + PAGE_OFFSET v))))"

text \<open>Ring 3 may access \<open>v\<close> when both entries of the walk carry the user flag.\<close>

definition mmu_user :: "vm \<Rightarrow> u32 \<Rightarrow> bool" where
  "mmu_user st v =
     (let pde = pmem st (ENTRY_GET_FRAME (cr3 st) + 4 * PD_INDEX v);
          pte = pmem st (ENTRY_GET_FRAME pde + 4 * PT_INDEX v)
      in mmu_translate st v \<noteq> None \<and> ENTRY_HAS_FLAG pde PAGE_USER \<and> ENTRY_HAS_FLAG pte PAGE_USER)"

definition vload :: "vm \<Rightarrow> u32 \<Rightarrow> u32 option" where
  "vload st v = map_option (pmem st) (mmu_translate st v)"

definition vstore :: "u32 \<Rightarrow> u32 \<Rightarrow> vm \<Rightarrow> vm option" where
  "vstore v w st = map_option (\<lambda>p. st\<lparr>pmem := (pmem st)(p := w)\<rparr>) (mmu_translate st v)"

text \<open>\<open>memset((void *)v, 0, PAGE_SIZE)\<close>: the page is cleared word by word, through the walk.\<close>

fun vzero_words :: "u32 \<Rightarrow> nat \<Rightarrow> vm \<Rightarrow> vm option" where
  "vzero_words v 0 st = Some st"
| "vzero_words v (Suc n) st = do { st \<leftarrow> vstore v 0 st; vzero_words (v + 4) n st }"

definition vzero_page :: "u32 \<Rightarrow> vm \<Rightarrow> vm option" where
  "vzero_page v st = vzero_words v 1024 st"

section \<open>The operations\<close>

definition vmm_get_kernel_directory :: "vm \<Rightarrow> u32" where
  "vmm_get_kernel_directory st = kernel_directory st"

text \<open>\<open>pmmngr_alloc_block\<close> on the machine state.\<close>

definition vm_alloc_block :: "vm \<Rightarrow> u32 \<times> vm" where
  "vm_alloc_block st = (let (p, a) = pmmngr_alloc_block (vpmm st) in (p, st\<lparr>vpmm := a\<rparr>))"

definition set_pte :: "u32 \<Rightarrow> u32 \<Rightarrow> u32 \<Rightarrow> vm \<Rightarrow> vm option" where
  "set_pte virt phys flags st =
     vstore (0xFFC00000 + PD_INDEX virt * PAGE_SIZE + 4 * PT_INDEX virt)
       ((phys AND NOT 0xFFF) OR flags OR PAGE_PRESENT) st"

definition vmm_map_page :: "u32 \<Rightarrow> u32 \<Rightarrow> u32 \<Rightarrow> vm \<Rightarrow> vm option" where
  "vmm_map_page virt phys flags st = do {
     let pd_idx = PD_INDEX virt;
     let pd = 0xFFFFF000;
     pde \<leftarrow> vload st (pd + 4 * pd_idx);
     if \<not> ENTRY_HAS_FLAG pde PAGE_PRESENT then do {
       let (new_table, st) = vm_alloc_block st;
       if new_table = 0 then Some st
       else do {
         st \<leftarrow> vstore (pd + 4 * pd_idx)
                (new_table OR PAGE_PRESENT OR PAGE_WRITABLE OR (flags AND PAGE_USER)) st;
         st \<leftarrow> vzero_page (0xFFC00000 + pd_idx * PAGE_SIZE) st;
         set_pte virt phys flags st
       }
     }
     else if flags AND PAGE_USER \<noteq> 0 then do {
       st \<leftarrow> vstore (pd + 4 * pd_idx) (pde OR PAGE_USER) st;
       set_pte virt phys flags st
     }
     else set_pte virt phys flags st
   }"

definition vmm_alloc_page :: "u32 \<Rightarrow> u32 \<Rightarrow> vm \<Rightarrow> (u32 \<times> vm) option" where
  "vmm_alloc_page virt flags st =
     (let (phys, st) = vm_alloc_block st in
      if phys = 0 then Some (0, st)
      else do { st \<leftarrow> vmm_map_page virt phys flags st; Some (virt, st) })"

definition vmm_unmap_page :: "u32 \<Rightarrow> vm \<Rightarrow> vm option" where
  "vmm_unmap_page virt st = do {
     let pd_idx = PD_INDEX virt;
     let pt_idx = PT_INDEX virt;
     pde \<leftarrow> vload st (0xFFFFF000 + 4 * pd_idx);
     if \<not> ENTRY_HAS_FLAG pde PAGE_PRESENT then Some st
     else do {
       let pt = 0xFFC00000 + pd_idx * PAGE_SIZE;
       pte \<leftarrow> vload st (pt + 4 * pt_idx);
       if \<not> ENTRY_HAS_FLAG pte PAGE_PRESENT then Some st
       else do {
         let phys = ENTRY_GET_FRAME pte;
         st \<leftarrow> vstore (pt + 4 * pt_idx) 0 st;
         Some (st\<lparr>vpmm := pmmngr_free_block phys (vpmm st)\<rparr>)
       }
     }
   }"

definition vmm_create_directory :: "vm \<Rightarrow> (u32 \<times> vm) option" where
  "vmm_create_directory st =
     (let (dir, st) = vm_alloc_block st in
      if dir = 0 then Some (0, st)
      else do {
        st \<leftarrow> vmm_map_page TEMP_MAP_ADDR dir (PAGE_PRESENT OR PAGE_WRITABLE) st;
        st \<leftarrow> vzero_page TEMP_MAP_ADDR st;
        st \<leftarrow> vmm_unmap_page TEMP_MAP_ADDR st;
        Some (dir, st)
      })"

text \<open>Boot: paging is still off, so directory and tables are reached at their physical addresses.\<close>

definition vmm_early_identity_map :: "u32 \<Rightarrow> u32 \<Rightarrow> u32 \<Rightarrow> u32 \<Rightarrow> vm \<Rightarrow> vm option" where
  "vmm_early_identity_map dir virt phys flags st = do {
     let pd_idx = PD_INDEX virt;
     let pt_idx = PT_INDEX virt;
     pde \<leftarrow> vload st (dir + 4 * pd_idx);
     if \<not> ENTRY_HAS_FLAG pde PAGE_PRESENT then do {
       let (new_table, st) = vm_alloc_block st;
       if new_table = 0 then Some st
       else do {
         st \<leftarrow> vstore (dir + 4 * pd_idx) (new_table OR PAGE_PRESENT OR PAGE_WRITABLE) st;
         pde \<leftarrow> vload st (dir + 4 * pd_idx);
         vstore (ENTRY_GET_FRAME pde + 4 * pt_idx) ((phys AND NOT 0xFFF) OR flags OR PAGE_PRESENT) st
       }
     }
     else vstore (ENTRY_GET_FRAME pde + 4 * pt_idx) ((phys AND NOT 0xFFF) OR flags OR PAGE_PRESENT) st
   }"

text \<open>The loop \<open>for (addr = 0x1000; addr < 0x400000; addr += PAGE_SIZE)\<close>.\<close>

fun map_kernel_from :: "u32 \<Rightarrow> u32 \<Rightarrow> nat \<Rightarrow> vm \<Rightarrow> vm option" where
  "map_kernel_from dir addr 0 st = Some st"
| "map_kernel_from dir addr (Suc n) st =
     (if addr < 0x400000 then do {
        st \<leftarrow> vmm_early_identity_map dir addr addr (PAGE_PRESENT OR PAGE_WRITABLE) st;
        map_kernel_from dir (addr + PAGE_SIZE) n st
      } else Some st)"

text \<open>The 1024 rounds of fuel are more than the 1023 the loop makes.\<close>

definition vmm_map_kernel :: "u32 \<Rightarrow> vm \<Rightarrow> vm option" where
  "vmm_map_kernel dir st = map_kernel_from dir 0x1000 1024 st"

definition vmm_init :: "vm \<Rightarrow> vm option" where
  "vmm_init st = do {
     let (dir, st) = vm_alloc_block st;
     let st = st\<lparr>kernel_directory := dir\<rparr>;
     st \<leftarrow> vzero_page dir st;
     st \<leftarrow> vstore (dir + 4 * 1023) (dir OR PAGE_PRESENT OR PAGE_WRITABLE) st;
     st \<leftarrow> vmm_map_kernel dir st;
     Some (st\<lparr>cr3 := dir, paging := True\<rparr>)
   }"


section \<open>Indices, offsets and frames as numbers\<close>

lemma unat_PD_INDEX: "unat (PD_INDEX a) = unat a div 4194304"
  by (simp add: PD_INDEX_def unat_drop_bit_eq drop_bit_eq_div unat_div)

lemma masks: "(0x3FF :: u32) = mask 10" "(0xFFF :: u32) = mask 12"
  by (simp_all add: mask_eq_exp_minus_1)

lemma unat_PT_INDEX: "unat (PT_INDEX a) = unat a div 4096 mod 1024"
  unfolding PT_INDEX_def masks unat_and_mask by (simp add: unat_drop_bit_eq drop_bit_eq_div unat_div)

lemma unat_PAGE_OFFSET: "unat (PAGE_OFFSET a) = unat a mod 4096"
  unfolding PAGE_OFFSET_def masks unat_and_mask by simp

lemma frame_offset: "ENTRY_GET_FRAME e + PAGE_OFFSET e = e"
proof -
  have "ENTRY_GET_FRAME e + PAGE_OFFSET e = (e AND NOT 0xFFF) OR (e AND 0xFFF)"
    unfolding ENTRY_GET_FRAME_def PAGE_OFFSET_def
    by (rule disjunctive_add_eq_or) (simp add: bit_eq_iff bit_simps)
  also have "\<dots> = e"
    by (rule bit_eqI) (auto simp: bit_simps)
  finally show ?thesis .
qed

lemma unat_ENTRY_GET_FRAME: "unat (ENTRY_GET_FRAME e) = unat e - unat e mod 4096"
proof -
  have "ENTRY_GET_FRAME e = e - PAGE_OFFSET e" using frame_offset [of e] by (simp add: algebra_simps)
  then show ?thesis by (simp add: unat_sub_if' unat_PAGE_OFFSET word_le_nat_alt)
qed


lemma index_lt [simp]: "PD_INDEX v < 1024" "PT_INDEX v < 1024"
  using less_mult_imp_div_less [of "unat v" 1024 4194304]
  by (simp_all add: word_less_nat_alt unat_PD_INDEX unat_PT_INDEX)

lemma div_div_22 [simp]: "n div 4096 div 1024 = n div 4194304" for n :: nat
  by (simp add: div_mult2_eq [symmetric])

text \<open>An address is its two indices and its offset.\<close>

lemma unat_split: "unat v = unat (PD_INDEX v) * 4194304 + unat (PT_INDEX v) * 4096 + unat (PAGE_OFFSET v)"
proof -
  have "unat v = unat v div 4096 * 4096 + unat v mod 4096" by simp
  moreover have "unat v div 4096 = unat v div 4194304 * 1024 + unat v div 4096 mod 1024"
    using div_mult_mod_eq [of "unat v div 4096" 1024] by simp
  ultimately show ?thesis unfolding unat_PD_INDEX unat_PT_INDEX unat_PAGE_OFFSET by linarith
qed

lemma indices_of:
  assumes "unat v = i * 4194304 + j * 4096 + k" "j < 1024" "k < 4096"
  shows "unat (PD_INDEX v) = i" "unat (PT_INDEX v) = j" "unat (PAGE_OFFSET v) = k"
proof -
  have d: "unat v div 4096 = i * 1024 + j"
    using assms by (intro div_nat_eqI) auto
  then have "unat v div 4096 div 1024 = i" using assms(2) by (simp del: div_div_22)
  then show "unat (PD_INDEX v) = i" by (simp add: unat_PD_INDEX)
  show "unat (PT_INDEX v) = j" using d assms(2) by (simp add: unat_PT_INDEX)
  have "unat v mod 4096 = unat v - (i * 1024 + j) * 4096" using d by (simp add: modulo_nat_def minus_mult_div_eq_mod [symmetric])
  then show "unat (PAGE_OFFSET v) = k" using assms by (simp add: unat_PAGE_OFFSET)
qed

text \<open>Pages: the pair of indices.\<close>

definition same_page :: "u32 \<Rightarrow> u32 \<Rightarrow> bool" where
  "same_page v w \<longleftrightarrow> PD_INDEX v = PD_INDEX w \<and> PT_INDEX v = PT_INDEX w"

lemma same_page_alt: "same_page v w \<longleftrightarrow> ENTRY_GET_FRAME v = ENTRY_GET_FRAME w"
proof
  assume "same_page v w"
  then have "unat v - unat v mod 4096 = unat w - unat w mod 4096"
    using unat_split [of v] unat_split [of w] by (simp add: same_page_def unat_PAGE_OFFSET)
  then show "ENTRY_GET_FRAME v = ENTRY_GET_FRAME w" by (simp add: u32_eq_iff unat_ENTRY_GET_FRAME)
next
  assume "ENTRY_GET_FRAME v = ENTRY_GET_FRAME w"
  then have "unat v - unat v mod 4096 = unat w - unat w mod 4096"
    by (simp add: u32_eq_iff unat_ENTRY_GET_FRAME)
  then have "unat v div 4096 * 4096 = unat w div 4096 * 4096" by (simp add: minus_mod_eq_div_mult)
  then have d: "unat v div 4096 = unat w div 4096" by simp
  have "unat v div 4194304 = unat w div 4194304"
    using arg_cong [OF d, of "\<lambda>n. n div 1024"] by simp
  then show "same_page v w" using d
    by (simp add: same_page_def u32_eq_iff unat_PD_INDEX unat_PT_INDEX)
qed

section \<open>The recursive window\<close>

lemma unat_times4: "i < 1024 \<Longrightarrow> unat (4 * i) = 4 * unat i" for i :: u32
  by (simp add: unat_word_ariths take_bit_eq_mod word_less_nat_alt)

lemma unat_slot:
  assumes "PAGE_OFFSET p = 0" "i < 1024"
  shows "unat (p + 4 * i) = unat p + 4 * unat i"
proof -
  have "unat p mod 4096 = 0" using assms(1) unat_PAGE_OFFSET [of p] by simp
  then obtain q where q: "unat p = 4096 * q" by (metis mod_0_imp_dvd dvd_def)
  then have "q < 1048576" using unat_lt_2p32 [of p] by linarith
  moreover have "unat i < 1024" using assms(2) by (simp add: word_less_nat_alt)
  ultimately have "unat p + 4 * unat i < 4294967296" using q by linarith
  then show ?thesis using assms(2) by (simp add: unat_word_ariths take_bit_eq_mod unat_times4 [unfolded unat_word_ariths])
qed

lemma slot_frame:
  assumes "PAGE_OFFSET p = 0" "i < 1024"
  shows "ENTRY_GET_FRAME (p + 4 * i) = p" "PAGE_OFFSET (p + 4 * i) = 4 * i"
proof -
  have p: "unat p mod 4096 = 0" using assms(1) unat_PAGE_OFFSET [of p] by simp
  have i: "4 * unat i < 4096" using assms(2) by (simp add: word_less_nat_alt)
  have m: "(unat p + 4 * unat i) mod 4096 = 4 * unat i" using p i by (simp add: mod_add_left_eq [symmetric])
  show "PAGE_OFFSET (p + 4 * i) = 4 * i" using assms m
    by (simp add: u32_eq_iff unat_PAGE_OFFSET unat_slot unat_times4)
  show "ENTRY_GET_FRAME (p + 4 * i) = p" using assms m
    by (simp add: u32_eq_iff unat_ENTRY_GET_FRAME unat_slot)
qed

lemma times4_eq_iff: "i < 1024 \<Longrightarrow> j < 1024 \<Longrightarrow> 4 * i = 4 * j \<longleftrightarrow> i = j" for i j :: u32
  using unat_times4 [of i] unat_times4 [of j] by (auto simp: u32_eq_iff)

lemma slot_eq_iff:
  assumes "PAGE_OFFSET p = 0" "PAGE_OFFSET q = 0" "i < 1024" "j < 1024"
  shows "p + 4 * i = q + 4 * j \<longleftrightarrow> p = q \<and> i = j"
proof
  assume e: "p + 4 * i = q + 4 * j"
  then have "p = q" using slot_frame assms by metis
  moreover have "unat (p + 4 * i) = unat (q + 4 * j)" using e by simp
  ultimately show "p = q \<and> i = j" using assms by (simp add: unat_slot u32_eq_iff)
qed simp

lemma frame_aligned [simp]: "PAGE_OFFSET (ENTRY_GET_FRAME e) = 0"
  by (simp add: u32_eq_iff unat_PAGE_OFFSET unat_ENTRY_GET_FRAME minus_mod_eq_div_mult)

lemma aligned_frame: "PAGE_OFFSET p = 0 \<Longrightarrow> ENTRY_GET_FRAME p = p"
  using frame_offset [of p] by simp

lemma directory_window:
  assumes "i < 1024"
  shows "PD_INDEX (0xFFFFF000 + 4 * i) = 1023" "PT_INDEX (0xFFFFF000 + 4 * i) = 1023"
    "PAGE_OFFSET (0xFFFFF000 + 4 * i) = 4 * i"
proof -
  have u: "unat (0xFFFFF000 + 4 * i) = 1023 * 4194304 + 1023 * 4096 + 4 * unat i"
    using assms by (subst unat_slot) (simp_all add: u32_eq_iff unat_PAGE_OFFSET)
  have "4 * unat i < 4096" using assms by (simp add: word_less_nat_alt)
  from indices_of [OF u _ this] show "PD_INDEX (0xFFFFF000 + 4 * i) = 1023" "PT_INDEX (0xFFFFF000 + 4 * i) = 1023"
    "PAGE_OFFSET (0xFFFFF000 + 4 * i) = 4 * i" using assms by (simp_all add: u32_eq_iff unat_times4)
qed

lemma table_window:
  assumes "i < 1024" "j < 1024"
  shows "PD_INDEX (0xFFC00000 + i * PAGE_SIZE + 4 * j) = 1023"
    "PT_INDEX (0xFFC00000 + i * PAGE_SIZE + 4 * j) = i"
    "PAGE_OFFSET (0xFFC00000 + i * PAGE_SIZE + 4 * j) = 4 * j"
proof -
  have b: "unat (0xFFC00000 + i * PAGE_SIZE) = 4290772992 + 4096 * unat i"
    using assms(1) by (simp add: PAGE_SIZE_def unat_word_ariths take_bit_eq_mod word_less_nat_alt)
  have "PAGE_OFFSET (0xFFC00000 + i * PAGE_SIZE) = 0"
    by (simp add: u32_eq_iff unat_PAGE_OFFSET b mod_add_left_eq [symmetric])
  then have u: "unat (0xFFC00000 + i * PAGE_SIZE + 4 * j) = 1023 * 4194304 + unat i * 4096 + 4 * unat j"
    using assms b by (subst unat_slot) simp_all
  have "unat i < 1024" "4 * unat j < 4096" using assms by (simp_all add: word_less_nat_alt)
  from indices_of [OF u this] show "PD_INDEX (0xFFC00000 + i * PAGE_SIZE + 4 * j) = 1023"
    "PT_INDEX (0xFFC00000 + i * PAGE_SIZE + 4 * j) = i"
    "PAGE_OFFSET (0xFFC00000 + i * PAGE_SIZE + 4 * j) = 4 * j" using assms
    by (simp_all add: u32_eq_iff unat_times4)
qed


section \<open>Directory, tables and the invariant\<close>

definition pde_at :: "vm \<Rightarrow> u32 \<Rightarrow> u32" where
  "pde_at st i = pmem st (cr3 st + 4 * i)"

definition has_table :: "vm \<Rightarrow> u32 \<Rightarrow> bool" where
  "has_table st i \<longleftrightarrow> i < 1024 \<and> ENTRY_HAS_FLAG (pde_at st i) PAGE_PRESENT"

definition table_at :: "vm \<Rightarrow> u32 \<Rightarrow> u32" where
  "table_at st i = ENTRY_GET_FRAME (pde_at st i)"

definition pte_at :: "vm \<Rightarrow> u32 \<Rightarrow> u32" where
  "pte_at st v = pmem st (table_at st (PD_INDEX v) + 4 * PT_INDEX v)"

text \<open>Paging is on and entry 1023 of the directory is the directory itself.\<close>

definition recursive :: "vm \<Rightarrow> bool" where
  "recursive st \<longleftrightarrow> paging st \<and> PAGE_OFFSET (cr3 st) = 0 \<and> has_table st 1023 \<and> table_at st 1023 = cr3 st"

text \<open>
  The invariant: the directory is reached through itself, no frame serves as two tables, every
  table is in a frame the allocator counts as used, and the allocator never hands out low memory.
\<close>

definition vm_inv :: "vm \<Rightarrow> bool" where
  "vm_inv st \<longleftrightarrow> recursive st
     \<and> (\<forall>i j. has_table st i \<longrightarrow> has_table st j \<longrightarrow> table_at st i = table_at st j \<longrightarrow> i = j)
     \<and> (\<forall>i. has_table st i \<longrightarrow> mmap_test (unat (table_at st i) div 4096) (vpmm st))
     \<and> addressable (vpmm st) \<and> low_reserved (vpmm st)"

lemma table_aligned [simp]: "PAGE_OFFSET (table_at st i) = 0"
  by (simp add: table_at_def)

lemma translate_walk:
  "paging st \<Longrightarrow> PAGE_OFFSET (cr3 st) = 0 \<Longrightarrow> mmu_translate st v =
    (if has_table st (PD_INDEX v) \<and> ENTRY_HAS_FLAG (pte_at st v) PAGE_PRESENT
     then Some (ENTRY_GET_FRAME (pte_at st v) + PAGE_OFFSET v) else None)"
  by (simp add: mmu_translate_def aligned_frame has_table_def pte_at_def table_at_def pde_at_def Let_def)

lemma recursive_directory:
  assumes "recursive st" "i < 1024"
  shows "mmu_translate st (0xFFFFF000 + 4 * i) = Some (cr3 st + 4 * i)"
proof -
  have "pte_at st (0xFFFFF000 + 4 * i) = pde_at st 1023"
    using assms by (simp add: pte_at_def directory_window recursive_def pde_at_def)
  then show ?thesis using assms
    by (simp add: recursive_def translate_walk directory_window has_table_def table_at_def)
qed

lemma recursive_table:
  assumes "recursive st" "i < 1024" "j < 1024"
  shows "mmu_translate st (0xFFC00000 + i * PAGE_SIZE + 4 * j) =
    (if has_table st i then Some (table_at st i + 4 * j) else None)"
proof -
  have "pte_at st (0xFFC00000 + i * PAGE_SIZE + 4 * j) = pde_at st i"
    using assms by (simp add: pte_at_def table_window recursive_def pde_at_def)
  then show ?thesis using assms
    by (simp add: recursive_def translate_walk table_window has_table_def table_at_def)
qed

text \<open>Two writes: an entry of the directory, an entry of a table.\<close>

lemma pde_write:
  assumes "PAGE_OFFSET (cr3 st) = 0" "i < 1024" "k < 1024"
  shows "pde_at (st\<lparr>pmem := (pmem st)(cr3 st + 4 * i := w)\<rparr>) k = (if k = i then w else pde_at st k)"
  using assms by (auto simp: pde_at_def slot_eq_iff times4_eq_iff)

lemma pte_write_pde:
  assumes "PAGE_OFFSET (cr3 st) = 0" "PAGE_OFFSET t = 0" "t \<noteq> cr3 st" "j < 1024" "k < 1024"
  shows "pde_at (st\<lparr>pmem := (pmem st)(t + 4 * j := w)\<rparr>) k = pde_at st k"
  using assms by (auto simp: pde_at_def slot_eq_iff)

lemma table_ne_directory:
  "vm_inv st \<Longrightarrow> has_table st i \<Longrightarrow> i \<noteq> 1023 \<Longrightarrow> table_at st i \<noteq> cr3 st"
  by (metis recursive_def vm_inv_def)

section \<open>Clearing a page\<close>

definition zero_frame :: "u32 \<Rightarrow> (u32 \<Rightarrow> u32) \<Rightarrow> u32 \<Rightarrow> u32" where
  "zero_frame p m = (\<lambda>a. if \<exists>k < 1024. a = p + 4 * of_nat k then 0 else m a)"

lemma of_nat_lt_1024: "k < 1024 \<Longrightarrow> (of_nat k :: u32) < 1024"
  by (simp add: word_less_nat_alt unat_of_nat take_bit_eq_mod)

lemma zero_frame_other:
  "PAGE_OFFSET p = 0 \<Longrightarrow> ENTRY_GET_FRAME a \<noteq> p \<Longrightarrow> zero_frame p m a = m a"
  by (auto simp: zero_frame_def slot_frame of_nat_lt_1024)

lemma zero_frame_slot:
  assumes "PAGE_OFFSET p = 0" "PAGE_OFFSET q = 0" "j < 1024"
  shows "zero_frame p m (q + 4 * j) = (if q = p then 0 else m (q + 4 * j))"
proof (cases "q = p")
  case True
  have "unat j < 1024 \<and> p + 4 * j = p + 4 * of_nat (unat j)" using assms(3) by (simp add: word_less_nat_alt)
  then show ?thesis using True by (auto simp: zero_frame_def)
next
  case False
  then have "ENTRY_GET_FRAME (q + 4 * j) \<noteq> p" using slot_frame [of q j] assms by simp
  then show ?thesis using False assms by (simp add: zero_frame_other)
qed

text \<open>
  The words cleared are those of frame \<open>p\<close>, when \<open>v\<close> is mapped to it by words outside of it.
\<close>

lemma vzero_words_frame:
  assumes tr: "\<And>m k. k < 1024 \<Longrightarrow> (\<And>a. ENTRY_GET_FRAME a \<noteq> p \<Longrightarrow> m a = pmem st a) \<Longrightarrow>
      mmu_translate (st\<lparr>pmem := m\<rparr>) (v + 4 * of_nat k) = Some (p + 4 * of_nat k)"
    and p: "PAGE_OFFSET p = 0"
  shows "k + n \<le> 1024 \<Longrightarrow> (\<And>a. ENTRY_GET_FRAME a \<noteq> p \<Longrightarrow> m a = pmem st a) \<Longrightarrow>
    vzero_words (v + 4 * of_nat k) n (st\<lparr>pmem := m\<rparr>) =
      Some (st\<lparr>pmem := \<lambda>a. if \<exists>i \<in> {k..<k + n}. a = p + 4 * of_nat i then 0 else m a\<rparr>)"
proof (induction n arbitrary: k m)
  case 0
  show ?case by simp
next
  case (Suc n)
  define m' where "m' = m(p + 4 * of_nat k := 0)"
  have k: "k < 1024" using Suc.prems(1) by simp
  have m: "\<And>a. ENTRY_GET_FRAME a \<noteq> p \<Longrightarrow> m' a = pmem st a"
    using Suc.prems(2) slot_frame(1) [OF p of_nat_lt_1024 [OF k]] by (auto simp: m'_def)
  have v: "v + 4 * of_nat k + 4 = v + 4 * of_nat (Suc k)" by (simp add: algebra_simps)
  have "vstore (v + 4 * of_nat k) 0 (st\<lparr>pmem := m\<rparr>) = Some (st\<lparr>pmem := m'\<rparr>)"
    using tr [OF k Suc.prems(2)] by (simp add: vstore_def m'_def)
  then have "vzero_words (v + 4 * of_nat k) (Suc n) (st\<lparr>pmem := m\<rparr>) =
      vzero_words (v + 4 * of_nat (Suc k)) n (st\<lparr>pmem := m'\<rparr>)"
    unfolding vzero_words.simps v by (simp only: Option.bind.simps)
  also have "\<dots> = Some (st\<lparr>pmem := \<lambda>a. if \<exists>i \<in> {Suc k..<Suc k + n}. a = p + 4 * of_nat i then 0 else m' a\<rparr>)"
    by (rule Suc.IH [OF _ m]) (use Suc.prems(1) in simp)
  also have "(\<lambda>a. if \<exists>i \<in> {Suc k..<Suc k + n}. a = p + 4 * of_nat i then 0 else m' a) =
      (\<lambda>a. if \<exists>i \<in> {k..<k + Suc n}. a = p + 4 * of_nat i then 0 else m a)"
  proof -
    define S where "S = {Suc k..<Suc k + n}"
    have i: "{k..<k + Suc n} = insert k S" by (auto simp: S_def)
    show ?thesis unfolding i S_def [symmetric] by (rule ext) (simp add: m'_def)
  qed
  finally show ?case .
qed

lemma vzero_page_frame:
  assumes "\<And>m k. k < 1024 \<Longrightarrow> (\<And>a. ENTRY_GET_FRAME a \<noteq> p \<Longrightarrow> m a = pmem st a) \<Longrightarrow>
      mmu_translate (st\<lparr>pmem := m\<rparr>) (v + 4 * of_nat k) = Some (p + 4 * of_nat k)"
    and "PAGE_OFFSET p = 0"
  shows "vzero_page v st = Some (st\<lparr>pmem := zero_frame p (pmem st)\<rparr>)"
proof -
  have "vzero_words (v + 4 * of_nat 0) 1024 (st\<lparr>pmem := pmem st\<rparr>) =
      Some (st\<lparr>pmem := \<lambda>a. if \<exists>i \<in> {0..<0 + 1024}. a = p + 4 * of_nat i then 0 else pmem st a\<rparr>)"
    by (rule vzero_words_frame [OF assms]) simp_all
  moreover have "(\<lambda>a. if \<exists>i \<in> {0..<0 + 1024}. a = p + 4 * of_nat i then 0 else pmem st a) = zero_frame p (pmem st)"
    unfolding zero_frame_def Bex_def atLeastLessThan_iff by (simp only: add_0 le0 simp_thms)
  moreover have "v + 4 * of_nat 0 = v" "st\<lparr>pmem := pmem st\<rparr> = st" by simp_all
  ultimately show ?thesis unfolding vzero_page_def by (simp only:)
qed


section \<open>Entries\<close>

lemma flag_bits:
  "ENTRY_HAS_FLAG e PAGE_PRESENT \<longleftrightarrow> bit e 0" "ENTRY_HAS_FLAG e PAGE_WRITABLE \<longleftrightarrow> bit e 1"
  "ENTRY_HAS_FLAG e PAGE_USER \<longleftrightarrow> bit e 2"
  using and_exp_eq_0_iff_not_bit [of e 0] and_exp_eq_0_iff_not_bit [of e 1] and_exp_eq_0_iff_not_bit [of e 2]
  by (simp_all add: ENTRY_HAS_FLAG_def PAGE_PRESENT_def PAGE_WRITABLE_def PAGE_USER_def)

lemma page_bits [simp]:
  "bit PAGE_PRESENT n \<longleftrightarrow> n = 0" "bit PAGE_WRITABLE n \<longleftrightarrow> n = 1" "bit PAGE_USER n \<longleftrightarrow> n = 2"
  using bit_push_bit_iff [of 1 "1 :: u32" n] bit_push_bit_iff [of 2 "1 :: u32" n]
  by (auto simp: PAGE_PRESENT_def PAGE_WRITABLE_def PAGE_USER_def bit_simps simp del: push_bit_of_1)

lemma frame_or: "ENTRY_GET_FRAME (a OR b) = ENTRY_GET_FRAME a OR ENTRY_GET_FRAME b"
  by (simp add: ENTRY_GET_FRAME_def bit.conj_disj_distrib2)

lemma frame_flags [simp]:
  "ENTRY_GET_FRAME PAGE_PRESENT = 0" "ENTRY_GET_FRAME PAGE_WRITABLE = 0" "ENTRY_GET_FRAME PAGE_USER = 0"
  "ENTRY_GET_FRAME (x AND PAGE_USER) = 0"
proof -
  show u: "ENTRY_GET_FRAME PAGE_USER = 0" by (simp add: ENTRY_GET_FRAME_def PAGE_USER_def)
  have "ENTRY_GET_FRAME (x AND PAGE_USER) = x AND ENTRY_GET_FRAME PAGE_USER"
    by (simp add: ENTRY_GET_FRAME_def and.assoc)
  then show "ENTRY_GET_FRAME (x AND PAGE_USER) = 0" using u by simp
qed (simp_all add: ENTRY_GET_FRAME_def PAGE_PRESENT_def PAGE_WRITABLE_def)

lemma frame_of_frame [simp]: "ENTRY_GET_FRAME (ENTRY_GET_FRAME e) = ENTRY_GET_FRAME e"
  by (simp add: aligned_frame)

text \<open>The entry \<open>vmm_map_page\<close> writes.\<close>

definition pte_of :: "u32 \<Rightarrow> u32 \<Rightarrow> u32" where
  "pte_of phys flags = (phys AND NOT 0xFFF) OR flags OR PAGE_PRESENT"

lemma frame_pte_of: "ENTRY_GET_FRAME flags = 0 \<Longrightarrow> ENTRY_GET_FRAME (pte_of phys flags) = ENTRY_GET_FRAME phys"
  using frame_of_frame [of phys] by (simp add: pte_of_def frame_or) (simp add: ENTRY_GET_FRAME_def)

lemma bit_pte_of: "n < 12 \<Longrightarrow> bit (pte_of phys flags) n \<longleftrightarrow> bit flags n \<or> n = 0"
proof -
  assume n: "n < 12"
  have "\<not> bit (phys AND NOT 0xFFF) n" unfolding masks using n by (simp add: bit_simps)
  then show ?thesis by (auto simp: pte_of_def bit_or_iff)
qed

lemma set_pte_eq:
  "recursive st \<Longrightarrow> set_pte virt phys flags st =
    (if has_table st (PD_INDEX virt)
     then Some (st\<lparr>pmem := (pmem st)(table_at st (PD_INDEX virt) + 4 * PT_INDEX virt := pte_of phys flags)\<rparr>)
     else None)"
  by (simp add: set_pte_def vstore_def recursive_table pte_of_def)

lemma load_pde: "recursive st \<Longrightarrow> i < 1024 \<Longrightarrow> vload st (0xFFFFF000 + 4 * i) = Some (pde_at st i)"
  by (simp add: vload_def recursive_directory pde_at_def)

lemma store_pde: "recursive st \<Longrightarrow> i < 1024 \<Longrightarrow>
    vstore (0xFFFFF000 + 4 * i) w st = Some (st\<lparr>pmem := (pmem st)(cr3 st + 4 * i := w)\<rparr>)"
  by (simp add: vstore_def recursive_directory)

section \<open>A frame from the allocator\<close>

lemma vm_alloc_cases:
  assumes "addressable (vpmm st)" "low_reserved (vpmm st)"
  obtains (none) "vm_alloc_block st = (0, st)" "fst (pmmngr_alloc_block (vpmm st)) = 0"
  | (frame) p where "vm_alloc_block st = (p, st\<lparr>vpmm := take_frame (unat p div 4096) (vpmm st)\<rparr>)"
      "fst (pmmngr_alloc_block (vpmm st)) = p" "p \<noteq> 0" "PAGE_OFFSET p = 0" "0x400000 \<le> unat p" "\<not> mmap_test (unat p div 4096) (vpmm st)"
proof (cases "vpmm st" rule: alloc_block_cases)
  case none
  then show ?thesis using that(1) by (simp add: vm_alloc_block_def)
next
  case (taken f)
  define p :: u32 where "p = of_nat f * 4096"
  have u: "unat p = f * 4096" using taken(1) assms(1) addressable_lt unat_frame_addr unfolding p_def by blast
  have f: "1024 \<le> f" using taken(2) assms(2) by (metis low_reserved_def not_le)
  show ?thesis
  proof (rule that(2))
    show "vm_alloc_block st = (p, st\<lparr>vpmm := take_frame (unat p div 4096) (vpmm st)\<rparr>)"
      using taken u by (simp add: vm_alloc_block_def p_def)
    show "fst (pmmngr_alloc_block (vpmm st)) = p" using taken by (simp add: p_def)
    show "p \<noteq> 0" using u f by auto
    show "PAGE_OFFSET p = 0" by (simp add: u32_eq_iff unat_PAGE_OFFSET u)
    show "0x400000 \<le> unat p" using u f by simp
    show "\<not> mmap_test (unat p div 4096) (vpmm st)" using taken u by simp
  qed
qed

lemma vm_alloc_pmm: "vm_alloc_block st = (p, st\<lparr>vpmm := a\<rparr>) \<Longrightarrow> pmmngr_alloc_block (vpmm st) = (p, a)"
  by (cases st) (simp add: vm_alloc_block_def split: prod.splits)

lemma take_frame_inv:
  "low_reserved s \<Longrightarrow> low_reserved (take_frame f s)" "addressable s \<Longrightarrow> addressable (take_frame f s)"
  by (simp_all add: low_reserved_def take_frame_test addressable_def frame_simps)


section \<open>What the writes do to the address space\<close>

lemma vm_inv_walk: "vm_inv st \<Longrightarrow> paging st" "vm_inv st \<Longrightarrow> PAGE_OFFSET (cr3 st) = 0" "vm_inv st \<Longrightarrow> recursive st"
  by (simp_all add: vm_inv_def recursive_def)

lemma window_index: "v < 0xFFC00000 \<longleftrightarrow> PD_INDEX v \<noteq> 1023"
proof -
  have "unat (PD_INDEX v) < 1024" using index_lt(1) [of v] by (simp add: word_less_nat_alt)
  then have "PD_INDEX v \<noteq> 1023 \<longleftrightarrow> unat v div 4194304 < 1023"
    by (auto simp: u32_eq_iff unat_PD_INDEX)
  also have "\<dots> \<longleftrightarrow> unat v < 1023 * 4194304" by (simp add: div_less_iff_less_mult)
  finally show ?thesis by (simp add: word_less_nat_alt)
qed

text \<open>States with the same directory and, for the address at hand, the same table entry.\<close>

lemma vm_inv_cong:
  assumes "vm_inv st" "paging st' = paging st" "cr3 st' = cr3 st"
    "\<And>i. i < 1024 \<Longrightarrow> has_table st' i = has_table st i \<and> table_at st' i = table_at st i"
    "\<And>n. mmap_test n (vpmm st) \<Longrightarrow> mmap_test n (vpmm st')" "mmngr_max_blocks (vpmm st') = mmngr_max_blocks (vpmm st)"
  shows "vm_inv st'"
proof -
  have lt: "has_table s i \<Longrightarrow> i < 1024" for s i by (simp add: has_table_def)
  have "recursive st'" using assms by (simp add: vm_inv_def recursive_def)
  moreover have "\<forall>i j. has_table st' i \<longrightarrow> has_table st' j \<longrightarrow> table_at st' i = table_at st' j \<longrightarrow> i = j"
    using assms(1,4) lt unfolding vm_inv_def by metis
  moreover have "\<forall>i. has_table st' i \<longrightarrow> mmap_test (unat (table_at st' i) div 4096) (vpmm st')"
    using assms(1,4,5) lt unfolding vm_inv_def by metis
  moreover have "addressable (vpmm st')" "low_reserved (vpmm st')"
    using assms by (simp_all add: vm_inv_def addressable_def low_reserved_def)
  ultimately show ?thesis by (simp add: vm_inv_def)
qed

lemma pte_write:
  assumes inv: "vm_inv st" and t: "has_table st (PD_INDEX virt)" "PD_INDEX virt \<noteq> 1023"
    and st': "st' = st\<lparr>pmem := (pmem st)(table_at st (PD_INDEX virt) + 4 * PT_INDEX virt := w)\<rparr>"
  shows "vm_inv st'" "mmu_translate st' v = (if same_page v virt
      then (if ENTRY_HAS_FLAG w PAGE_PRESENT then Some (ENTRY_GET_FRAME w + PAGE_OFFSET v) else None)
      else mmu_translate st v)"
    "has_table st (PD_INDEX v) \<Longrightarrow> pte_at st' v = (if same_page v virt then w else pte_at st v)"
    "k < 1024 \<Longrightarrow> pde_at st' k = pde_at st k"
proof -
  have ne: "table_at st (PD_INDEX virt) \<noteq> cr3 st" using table_ne_directory inv t by blast
  have pde: "pde_at st' k = pde_at st k" if "k < 1024" for k
    unfolding st' using vm_inv_walk(2) [OF inv] ne that by (intro pte_write_pde) auto
  then show "k < 1024 \<Longrightarrow> pde_at st' k = pde_at st k" .
  have tb: "i < 1024 \<Longrightarrow> has_table st' i = has_table st i \<and> table_at st' i = table_at st i" for i
    using pde by (simp add: has_table_def table_at_def)
  show "vm_inv st'" by (rule vm_inv_cong [OF inv _ _ tb]) (simp_all add: st')
  have pte: "pte_at st' v = (if same_page v virt then w else pte_at st v)" if h: "has_table st (PD_INDEX v)" for v
  proof -
    have "table_at st (PD_INDEX v) = table_at st (PD_INDEX virt) \<longleftrightarrow> PD_INDEX v = PD_INDEX virt"
      using inv h t(1) unfolding vm_inv_def by metis
    moreover have "pte_at st' v = pmem st' (table_at st (PD_INDEX v) + 4 * PT_INDEX v)"
      using tb [of "PD_INDEX v"] by (simp add: pte_at_def)
    ultimately show ?thesis
      by (simp add: st' pte_at_def slot_eq_iff same_page_def)
  qed
  then show "has_table st (PD_INDEX v) \<Longrightarrow> pte_at st' v = (if same_page v virt then w else pte_at st v)" .
  have "paging st'" "PAGE_OFFSET (cr3 st') = 0" using vm_inv_walk [OF inv] by (simp_all add: st')
  then show "mmu_translate st' v = (if same_page v virt
      then (if ENTRY_HAS_FLAG w PAGE_PRESENT then Some (ENTRY_GET_FRAME w + PAGE_OFFSET v) else None)
      else mmu_translate st v)"
    using vm_inv_walk [OF inv] pte [of v] tb [of "PD_INDEX v"] t(1)
    by (auto simp: translate_walk same_page_def)
qed

text \<open>Setting the user flag of a directory entry.\<close>

lemma pde_user_write:
  assumes inv: "vm_inv st" and i: "i < 1024" "i \<noteq> 1023"
    and st': "st' = st\<lparr>pmem := (pmem st)(cr3 st + 4 * i := pde_at st i OR PAGE_USER)\<rparr>"
  shows "vm_inv st'" "v < 0xFFC00000 \<Longrightarrow> mmu_translate st' v = mmu_translate st v"
    "has_table st (PD_INDEX v) \<Longrightarrow> v < 0xFFC00000 \<Longrightarrow> pte_at st' v = pte_at st v"
    "k < 1024 \<Longrightarrow> pde_at st' k = (if k = i then pde_at st i OR PAGE_USER else pde_at st k)"
    "k < 1024 \<Longrightarrow> has_table st' k = has_table st k \<and> table_at st' k = table_at st k"
proof -
  have pde: "pde_at st' k = (if k = i then pde_at st i OR PAGE_USER else pde_at st k)" if "k < 1024" for k
    unfolding st' using vm_inv_walk(2) [OF inv] i(1) that by (rule pde_write)
  then show "k < 1024 \<Longrightarrow> pde_at st' k = (if k = i then pde_at st i OR PAGE_USER else pde_at st k)" .
  have "has_table st' k = has_table st k \<and> table_at st' k = table_at st k" if "k < 1024" for k
    using pde [OF that] by (simp add: has_table_def table_at_def flag_bits bit_or_iff frame_or)
  note tb = this
  then show "k < 1024 \<Longrightarrow> has_table st' k = has_table st k \<and> table_at st' k = table_at st k" .
  show "vm_inv st'" by (rule vm_inv_cong [OF inv _ _ tb]) (simp_all add: st')
  have pte: "pte_at st' v = pte_at st v" if "has_table st (PD_INDEX v)" "v < 0xFFC00000" for v
  proof -
    have "table_at st (PD_INDEX v) \<noteq> cr3 st"
      using table_ne_directory inv that window_index by blast
    then show ?thesis using tb [of "PD_INDEX v"] vm_inv_walk(2) [OF inv] i(1)
      by (simp add: pte_at_def st' slot_eq_iff)
  qed
  then show "has_table st (PD_INDEX v) \<Longrightarrow> v < 0xFFC00000 \<Longrightarrow> pte_at st' v = pte_at st v" .
  have "paging st'" "PAGE_OFFSET (cr3 st') = 0" using vm_inv_walk [OF inv] by (simp_all add: st')
  then show "v < 0xFFC00000 \<Longrightarrow> mmu_translate st' v = mmu_translate st v"
    using vm_inv_walk [OF inv] pte [of v] tb [of "PD_INDEX v"] by (auto simp: translate_walk)
qed

text \<open>A new, cleared table in a frame that was free.\<close>

lemma new_table:
  assumes inv: "vm_inv st" and i: "i < 1024" "i \<noteq> 1023" "\<not> has_table st i"
    and p: "PAGE_OFFSET p = 0" "\<not> mmap_test (unat p div 4096) (vpmm st)"
    and e: "ENTRY_GET_FRAME e = p" "bit e 0"
    and st': "st' = st\<lparr>vpmm := take_frame (unat p div 4096) (vpmm st),
                pmem := zero_frame p ((pmem st)(cr3 st + 4 * i := e))\<rparr>"
  shows "vm_inv st'" "k < 1024 \<Longrightarrow> pde_at st' k = (if k = i then e else pde_at st k)"
    "has_table st' i" "PD_INDEX v = i \<Longrightarrow> pte_at st' v = 0"
    "v < 0xFFC00000 \<Longrightarrow> mmu_translate st' v = mmu_translate st v"
    "v < 0xFFC00000 \<Longrightarrow> has_table st (PD_INDEX v) \<Longrightarrow> pte_at st' v = pte_at st v"
proof -
  note al = vm_inv_walk(2) [OF inv]
  have used: "mmap_test (unat (table_at st k) div 4096) (vpmm st)" if "has_table st k" for k
    using inv that unfolding vm_inv_def by blast
  have fresh: "table_at st k \<noteq> p" if "has_table st k" for k using used [OF that] p(2) by auto
  have cr: "cr3 st \<noteq> p" using fresh [of 1023] inv by (simp add: vm_inv_def recursive_def)
  have pde: "pde_at st' k = (if k = i then e else pde_at st k)" if "k < 1024" for k
    using zero_frame_slot [OF p(1) al that] cr al i(1) that
    by (simp add: pde_at_def st' slot_eq_iff times4_eq_iff)
  then show "k < 1024 \<Longrightarrow> pde_at st' k = (if k = i then e else pde_at st k)" .
  have tb: "has_table st' k \<longleftrightarrow> k = i \<or> has_table st k" "has_table st' k \<Longrightarrow> table_at st' k = (if k = i then p else table_at st k)"
    for k using pde [of k] i e by (auto simp: has_table_def table_at_def flag_bits)
  show "has_table st' i" using tb by simp
  have rec: "recursive st'" using inv tb [of 1023] i by (simp add: vm_inv_def recursive_def st')
  show "vm_inv st'" unfolding vm_inv_def
  proof (intro conjI allI impI)
    show "recursive st'" by (rule rec)
    show "k = l" if "has_table st' k" "has_table st' l" "table_at st' k = table_at st' l" for k l
      using that tb [of k] tb [of l] fresh inv unfolding vm_inv_def by (metis (full_types))
    show "mmap_test (unat (table_at st' k) div 4096) (vpmm st')" if "has_table st' k" for k
      using that tb [of k] used by (auto simp: st' take_frame_test)
    show "addressable (vpmm st')" "low_reserved (vpmm st')" using inv
      by (simp_all add: vm_inv_def st' take_frame_inv)
  qed
  have new: "pte_at st' v = 0" if "PD_INDEX v = i" for v
    using that tb [of i] zero_frame_slot [OF p(1) p(1), of "PT_INDEX v"] by (simp add: pte_at_def st')
  then show "PD_INDEX v = i \<Longrightarrow> pte_at st' v = 0" .
  have old: "pte_at st' v = pte_at st v" if "v < 0xFFC00000" "has_table st (PD_INDEX v)" for v
  proof -
    have d: "table_at st (PD_INDEX v) \<noteq> cr3 st" using table_ne_directory inv that window_index by blast
    have "table_at st' (PD_INDEX v) = table_at st (PD_INDEX v)" using tb [of "PD_INDEX v"] that i by auto
    then show ?thesis using d fresh [OF that(2)] al i(1) p(1)
      by (simp add: pte_at_def st' zero_frame_slot slot_eq_iff)
  qed
  then show "v < 0xFFC00000 \<Longrightarrow> has_table st (PD_INDEX v) \<Longrightarrow> pte_at st' v = pte_at st v" .
  have "paging st'" "PAGE_OFFSET (cr3 st') = 0" using vm_inv_walk [OF inv] by (simp_all add: st')
  then show "v < 0xFFC00000 \<Longrightarrow> mmu_translate st' v = mmu_translate st v"
    using vm_inv_walk [OF inv] old [of v] new [of v] tb(1) [of "PD_INDEX v"] i(3)
    by (auto simp: translate_walk flag_bits)
qed


section \<open>The operations on the address space\<close>

lemma user_walk: "vm_inv st \<Longrightarrow> mmu_user st v \<longleftrightarrow>
    has_table st (PD_INDEX v) \<and> bit (pte_at st v) 0 \<and> bit (pde_at st (PD_INDEX v)) 2 \<and> bit (pte_at st v) 2"
  using vm_inv_walk [of st]
  by (auto simp: mmu_user_def translate_walk flag_bits aligned_frame Let_def pte_at_def table_at_def pde_at_def)

lemma zero_window:
  assumes r: "recursive st" and i: "i < 1024" "i \<noteq> 1023" "has_table st i" "table_at st i \<noteq> cr3 st"
  shows "vzero_page (0xFFC00000 + i * PAGE_SIZE) st = Some (st\<lparr>pmem := zero_frame (table_at st i) (pmem st)\<rparr>)"
proof (rule vzero_page_frame)
  show "PAGE_OFFSET (table_at st i) = 0" by simp
  fix m and k :: nat
  assume k: "k < 1024" and m: "\<And>a. ENTRY_GET_FRAME a \<noteq> table_at st i \<Longrightarrow> m a = pmem st a"
  have pde: "pde_at (st\<lparr>pmem := m\<rparr>) j = pde_at st j" if "j < 1024" for j
    using m [of "cr3 st + 4 * j"] slot_frame(1) [of "cr3 st" j] that r i(4) by (simp add: pde_at_def recursive_def)
  have "recursive (st\<lparr>pmem := m\<rparr>)" using r pde [of 1023] by (simp add: recursive_def has_table_def table_at_def)
  then show "mmu_translate (st\<lparr>pmem := m\<rparr>) (0xFFC00000 + i * PAGE_SIZE + 4 * of_nat k) = Some (table_at st i + 4 * of_nat k)"
    using i pde [of i] by (simp add: recursive_table of_nat_lt_1024 [OF k] has_table_def table_at_def)
qed

text \<open>The frames that are tables, the directory among them.\<close>

definition is_table :: "vm \<Rightarrow> u32 \<Rightarrow> bool" where
  "is_table st p \<longleftrightarrow> (\<exists>k < 1024. has_table st k \<and> table_at st k = p)"

lemma is_table_directory: "recursive st \<Longrightarrow> is_table st (cr3 st)"
  unfolding is_table_def recursive_def by (metis has_table_def)

lemma is_table_at: "has_table st k \<Longrightarrow> is_table st (table_at st k)"
  unfolding is_table_def by (metis has_table_def)

lemma is_table_cong:
  "(\<And>k. k < 1024 \<Longrightarrow> has_table st' k = has_table st k \<and> table_at st' k = table_at st k) \<Longrightarrow>
    is_table st' p = is_table st p"
  by (auto simp: is_table_def)

text \<open>
  The state in which \<open>vmm_map_page\<close> sets the entry: the table exists, nothing else has changed.
\<close>

lemma map_page_prepare:
  assumes inv: "vm_inv st" and v: "virt < 0xFFC00000" "ENTRY_GET_FRAME flags = 0"
    and room: "has_table st (PD_INDEX virt) \<or> fst (pmmngr_alloc_block (vpmm st)) \<noteq> 0"
  obtains st1 where "vmm_map_page virt phys flags st = set_pte virt phys flags st1"
    "vm_inv st1" "has_table st1 (PD_INDEX virt)"
    "\<And>w. w < 0xFFC00000 \<Longrightarrow> mmu_translate st1 w = mmu_translate st w"
    "bit flags 2 \<Longrightarrow> bit (pde_at st1 (PD_INDEX virt)) 2"
    "\<And>w. \<not> bit flags 2 \<Longrightarrow> w < 0xFFC00000 \<Longrightarrow> mmu_user st1 w = mmu_user st w"
    "\<And>w. w < 0xFFC00000 \<Longrightarrow> mmu_user st1 w \<Longrightarrow> bit (pte_at st w) 2"
    "\<And>n. mmap_test n (vpmm st) \<Longrightarrow> mmap_test n (vpmm st1)"
    "mmngr_max_blocks (vpmm st1) = mmngr_max_blocks (vpmm st)"
    "vpmm st1 = (if has_table st (PD_INDEX virt) then vpmm st else snd (pmmngr_alloc_block (vpmm st)))"
    "\<And>p. mmap_test (unat p div 4096) (vpmm st) \<Longrightarrow> \<not> is_table st p \<Longrightarrow> \<not> is_table st1 p"
    "\<And>a. mmap_test (unat a div 4096) (vpmm st) \<Longrightarrow> \<not> is_table st (ENTRY_GET_FRAME a) \<Longrightarrow> pmem st1 a = pmem st a"
    "cr3 st1 = cr3 st"
proof -
  define i where "i = PD_INDEX virt"
  have i: "i < 1024" "i \<noteq> 1023" using v(1) by (simp_all add: i_def window_index)
  note rec = vm_inv_walk(3) [OF inv]
  consider (old) "has_table st i" "\<not> bit flags 2" | (user) "has_table st i" "bit flags 2" | (new) "\<not> has_table st i" by blast
  then show ?thesis
  proof cases
    case old
    then have "vmm_map_page virt phys flags st = set_pte virt phys flags st" using rec i
      using flag_bits(3) [of flags]
      by (simp add: vmm_map_page_def load_pde has_table_def ENTRY_HAS_FLAG_def Let_def flip: i_def)
    then show ?thesis using old inv user_walk [OF inv] by (intro that [of st]) (simp_all add: i_def)
  next
    case user
    define st1 where "st1 = st\<lparr>pmem := (pmem st)(cr3 st + 4 * i := pde_at st i OR PAGE_USER)\<rparr>"
    have "vmm_map_page virt phys flags st = set_pte virt phys flags st1" using rec i user
      using flag_bits(3) [of flags]
      by (simp add: vmm_map_page_def load_pde store_pde st1_def has_table_def ENTRY_HAS_FLAG_def Let_def flip: i_def)
    moreover note w = pde_user_write [OF inv i st1_def]
    moreover have "bit (pte_at st a) 2" if "mmu_user st1 a" "a < 0xFFC00000" for a
      using that w user_walk [OF w(1), of a] by auto
    moreover have "pmem st1 a = pmem st a" if "\<not> is_table st (ENTRY_GET_FRAME a)" for a
      using that is_table_directory [OF rec] slot_frame(1) [OF vm_inv_walk(2) [OF inv] i(1)] by (auto simp: st1_def)
    moreover have "is_table st1 p = is_table st p" for p by (rule is_table_cong) (rule w(5))
    ultimately show ?thesis using user i
      by (intro that [of st1]) (simp_all add: i_def [symmetric] st1_def [symmetric] bit_or_iff, simp_all add: st1_def)
  next
    case new
    obtain p where p: "vm_alloc_block st = (p, st\<lparr>vpmm := take_frame (unat p div 4096) (vpmm st)\<rparr>)"
      "p \<noteq> 0" "PAGE_OFFSET p = 0" "\<not> mmap_test (unat p div 4096) (vpmm st)"
      using inv room new unfolding vm_inv_def i_def by (metis vm_alloc_cases)
    define e where "e = p OR PAGE_PRESENT OR PAGE_WRITABLE OR (flags AND PAGE_USER)"
    define st0 where "st0 = st\<lparr>vpmm := take_frame (unat p div 4096) (vpmm st),
      pmem := (pmem st)(cr3 st + 4 * i := e)\<rparr>"
    define st1 where "st1 = st\<lparr>vpmm := take_frame (unat p div 4096) (vpmm st),
      pmem := zero_frame p ((pmem st)(cr3 st + 4 * i := e))\<rparr>"
    have e: "ENTRY_GET_FRAME e = p" "bit e 0" by (simp_all add: e_def frame_or bit_or_iff aligned_frame [OF p(3)])
    have pde0: "pde_at st0 k = (if k = i then e else pde_at st k)" if "k < 1024" for k
      using vm_inv_walk(2) [OF inv] i that by (auto simp: pde_at_def st0_def slot_eq_iff times4_eq_iff)
    have "cr3 st \<noteq> p" using inv p(4) unfolding vm_inv_def recursive_def by metis
    moreover have r0: "recursive st0" using rec pde0 [of 1023] i by (simp add: recursive_def has_table_def table_at_def st0_def)
    ultimately have z: "vzero_page (0xFFC00000 + i * PAGE_SIZE) st0 = Some st1"
      using zero_window [OF r0 i] pde0 [of i] i e by (simp add: has_table_def table_at_def flag_bits st0_def st1_def)
    note w = new_table [OF inv i new p(3,4) e st1_def]
    have us: "mmu_user st1 a = mmu_user st a" if a: "a < 0xFFC00000" for a
    proof (cases "PD_INDEX a = i")
      case True
      then show ?thesis using w(4) new user_walk [OF w(1), of a] user_walk [OF inv, of a] by simp
    next
      case False
      have "has_table st1 (PD_INDEX a) = has_table st (PD_INDEX a)"
        using False w(2) [of "PD_INDEX a"] by (simp add: has_table_def)
      then show ?thesis using False w(2) [of "PD_INDEX a"] w(6) [OF a]
          user_walk [OF w(1), of a] user_walk [OF inv, of a] by auto
    qed
    have "vmm_map_page virt phys flags st = set_pte virt phys flags st1"
    proof -
      have r: "recursive (st\<lparr>vpmm := take_frame (unat p div 4096) (vpmm st)\<rparr>)"
        using rec by (simp add: recursive_def has_table_def table_at_def pde_at_def)
      show ?thesis using new p z rec i r flag_bits(1) [of "pde_at st i"]
        by (simp add: vmm_map_page_def load_pde store_pde has_table_def Let_def e_def [symmetric] st0_def [symmetric]
          flip: i_def)
    qed
    then show ?thesis
    proof (rule that)
      show "vm_inv st1" "has_table st1 (PD_INDEX virt)" using w by (simp_all add: i_def)
      show "mmu_translate st1 a = mmu_translate st a" if "a < 0xFFC00000" for a using that by (rule w(5))
      show "bit (pde_at st1 (PD_INDEX virt)) 2" if "bit flags 2" using that w(2) [of i] i
        by (simp add: i_def [symmetric] e_def bit_or_iff bit_and_iff)
      show "mmu_user st1 a = mmu_user st a" if "a < 0xFFC00000" for a using that by (rule us)
      show "bit (pte_at st a) 2" if "a < 0xFFC00000" "mmu_user st1 a" for a
        using that us user_walk [OF inv] by blast
      show "mmap_test n (vpmm st1)" if "mmap_test n (vpmm st)" for n using that by (simp add: st1_def take_frame_test)
      show "mmngr_max_blocks (vpmm st1) = mmngr_max_blocks (vpmm st)" by (simp add: st1_def frame_simps)
      show "vpmm st1 = (if has_table st (PD_INDEX virt) then vpmm st else snd (pmmngr_alloc_block (vpmm st)))"
        using new arg_cong [OF p(1), of "\<lambda>x. vpmm (snd x)"] by (simp add: i_def st1_def vm_alloc_block_def prod.case_eq_if)
      have tb: "has_table st1 k \<longleftrightarrow> k = i \<or> has_table st k" "table_at st1 i = p"
          "k \<noteq> i \<Longrightarrow> table_at st1 k = table_at st k" if "k < 1024" for k
        using w(2) [OF that] w(2) [OF i(1)] w(3) e that by (auto simp: has_table_def table_at_def)
      show "\<not> is_table st1 q" if "mmap_test (unat q div 4096) (vpmm st)" "\<not> is_table st q" for q
        using that tb p(4) unfolding is_table_def by metis
      show "pmem st1 a = pmem st a" if a: "mmap_test (unat a div 4096) (vpmm st)" "\<not> is_table st (ENTRY_GET_FRAME a)" for a
      proof -
        have "unat (ENTRY_GET_FRAME a) div 4096 = unat a div 4096"
          by (simp add: unat_ENTRY_GET_FRAME minus_mod_eq_div_mult)
        then have "ENTRY_GET_FRAME a \<noteq> p" using a(1) p(4) by auto
        moreover have "a \<noteq> cr3 st + 4 * i"
          using a(2) is_table_directory [OF rec] slot_frame(1) [OF vm_inv_walk(2) [OF inv] i(1)] by auto
        ultimately show ?thesis using p(3) by (simp add: st1_def zero_frame_other)
      qed
      show "cr3 st1 = cr3 st" by (simp add: st1_def)
    qed
  qed
qed


lemma map_page_spec:
  assumes inv: "vm_inv st" and v: "virt < 0xFFC00000" "ENTRY_GET_FRAME flags = 0"
    and room: "has_table st (PD_INDEX virt) \<or> fst (pmmngr_alloc_block (vpmm st)) \<noteq> 0"
  obtains st' where "vmm_map_page virt phys flags st = Some st'" "vm_inv st'"
    "\<And>w. w < 0xFFC00000 \<Longrightarrow> mmu_translate st' w =
       (if same_page w virt then Some (ENTRY_GET_FRAME phys + PAGE_OFFSET w) else mmu_translate st w)"
    "has_table st' (PD_INDEX virt)" "pte_at st' virt = pte_of phys flags"
    "mmu_user st' virt \<longleftrightarrow> ENTRY_HAS_FLAG flags PAGE_USER"
    "\<And>w. \<not> ENTRY_HAS_FLAG flags PAGE_USER \<Longrightarrow> w < 0xFFC00000 \<Longrightarrow> \<not> same_page w virt \<Longrightarrow> mmu_user st' w = mmu_user st w"
    "\<And>w. w < 0xFFC00000 \<Longrightarrow> \<not> same_page w virt \<Longrightarrow> mmu_user st' w \<Longrightarrow> ENTRY_HAS_FLAG (pte_at st w) PAGE_USER"
    "\<And>n. mmap_test n (vpmm st) \<Longrightarrow> mmap_test n (vpmm st')"
    "mmngr_max_blocks (vpmm st') = mmngr_max_blocks (vpmm st)"
    "vpmm st' = (if has_table st (PD_INDEX virt) then vpmm st else snd (pmmngr_alloc_block (vpmm st)))"
    "\<And>p. mmap_test (unat p div 4096) (vpmm st) \<Longrightarrow> \<not> is_table st p \<Longrightarrow> \<not> is_table st' p"
    "\<And>a. mmap_test (unat a div 4096) (vpmm st) \<Longrightarrow> \<not> is_table st (ENTRY_GET_FRAME a) \<Longrightarrow> pmem st' a = pmem st a"
proof (rule map_page_prepare [OF inv v room, of phys])
  fix st1
  assume 1: "vmm_map_page virt phys flags st = set_pte virt phys flags st1"
    "vm_inv st1" "has_table st1 (PD_INDEX virt)"
    "\<And>w. w < 0xFFC00000 \<Longrightarrow> mmu_translate st1 w = mmu_translate st w"
    "bit flags 2 \<Longrightarrow> bit (pde_at st1 (PD_INDEX virt)) 2"
    "\<And>w. \<not> bit flags 2 \<Longrightarrow> w < 0xFFC00000 \<Longrightarrow> mmu_user st1 w = mmu_user st w"
    "\<And>w. w < 0xFFC00000 \<Longrightarrow> mmu_user st1 w \<Longrightarrow> bit (pte_at st w) 2"
    "\<And>n. mmap_test n (vpmm st) \<Longrightarrow> mmap_test n (vpmm st1)"
    "mmngr_max_blocks (vpmm st1) = mmngr_max_blocks (vpmm st)"
    "vpmm st1 = (if has_table st (PD_INDEX virt) then vpmm st else snd (pmmngr_alloc_block (vpmm st)))"
    "\<And>p. mmap_test (unat p div 4096) (vpmm st) \<Longrightarrow> \<not> is_table st p \<Longrightarrow> \<not> is_table st1 p"
    "\<And>a. mmap_test (unat a div 4096) (vpmm st) \<Longrightarrow> \<not> is_table st (ENTRY_GET_FRAME a) \<Longrightarrow> pmem st1 a = pmem st a"
    "cr3 st1 = cr3 st"
  define st' where "st' = st1\<lparr>pmem := (pmem st1)(table_at st1 (PD_INDEX virt) + 4 * PT_INDEX virt := pte_of phys flags)\<rparr>"
  have ni: "PD_INDEX virt \<noteq> 1023" using v(1) window_index by blast
  note w = pte_write [OF 1(2,3) ni st'_def]
  have tb: "k < 1024 \<Longrightarrow> has_table st' k = has_table st1 k \<and> table_at st' k = table_at st1 k" for k
    using w(4) [of k] by (simp add: has_table_def table_at_def)
  have us: "mmu_user st' a \<longleftrightarrow> mmu_user st1 a" if "\<not> same_page a virt" for a
    using that user_walk [OF w(1), of a] user_walk [OF 1(2), of a] w(3) [of a] w(4) [of "PD_INDEX a"]
      tb [of "PD_INDEX a"] by auto
  show ?thesis
  proof (rule that [of st'])
    show "vmm_map_page virt phys flags st = Some st'"
      using 1(1,3) vm_inv_walk(3) [OF 1(2)] by (simp add: set_pte_eq st'_def)
    show "vm_inv st'" by (rule w(1))
    show "mmu_translate st' a = (if same_page a virt then Some (ENTRY_GET_FRAME phys + PAGE_OFFSET a) else mmu_translate st a)"
      if "a < 0xFFC00000" for a
      using that 1(4) w(2) frame_pte_of [OF v(2), of phys] bit_pte_of [of 0 phys flags] by (simp add: flag_bits)
    show "has_table st' (PD_INDEX virt)" using tb [of "PD_INDEX virt"] 1(3) by simp
    show p: "pte_at st' virt = pte_of phys flags" using w(3) [OF 1(3)] by (simp add: same_page_def)
    show "mmu_user st' virt \<longleftrightarrow> ENTRY_HAS_FLAG flags PAGE_USER"
      using user_walk [OF w(1), of virt] p w(4) [of "PD_INDEX virt"] tb [of "PD_INDEX virt"] 1(3,5)
        bit_pte_of [of 0 phys flags] bit_pte_of [of 2 phys flags] by (auto simp: flag_bits)
    show "mmu_user st' a = mmu_user st a" if "\<not> ENTRY_HAS_FLAG flags PAGE_USER" "a < 0xFFC00000" "\<not> same_page a virt" for a
      using that us 1(6) by (simp add: flag_bits)
    show "ENTRY_HAS_FLAG (pte_at st a) PAGE_USER" if "a < 0xFFC00000" "\<not> same_page a virt" "mmu_user st' a" for a
      using that us 1(7) by (simp add: flag_bits)
    show "mmap_test n (vpmm st')" if "mmap_test n (vpmm st)" for n using that 1(8) by (simp add: st'_def)
    show "mmngr_max_blocks (vpmm st') = mmngr_max_blocks (vpmm st)" using 1(9) by (simp add: st'_def)
    show "vpmm st' = (if has_table st (PD_INDEX virt) then vpmm st else snd (pmmngr_alloc_block (vpmm st)))"
      using 1(10) by (simp add: st'_def)
    show nt: "\<not> is_table st' p" if "mmap_test (unat p div 4096) (vpmm st)" "\<not> is_table st p" for p
      using that 1(11) is_table_cong [OF tb] by blast
    show "pmem st' a = pmem st a" if "mmap_test (unat a div 4096) (vpmm st)" "\<not> is_table st (ENTRY_GET_FRAME a)" for a
    proof -
      have "unat (ENTRY_GET_FRAME a) div 4096 = unat a div 4096"
        by (simp add: unat_ENTRY_GET_FRAME minus_mod_eq_div_mult)
      then have "\<not> is_table st1 (ENTRY_GET_FRAME a)" using that 1(11) by simp
      then have "a \<noteq> table_at st1 (PD_INDEX virt) + 4 * PT_INDEX virt"
        using is_table_at [OF 1(3)] slot_frame(1) [OF table_aligned index_lt(2)] by metis
      then show ?thesis using that 1(12) by (simp add: st'_def)
    qed
  qed
qed


lemma map_page_full:
  assumes "vm_inv st" "virt < 0xFFC00000" "\<not> has_table st (PD_INDEX virt)" "fst (pmmngr_alloc_block (vpmm st)) = 0"
  shows "vmm_map_page virt phys flags st = Some st"
proof -
  have al: "addressable (vpmm st)" "low_reserved (vpmm st)" using assms(1) by (simp_all add: vm_inv_def)
  have "vm_alloc_block st = (0, st)" by (rule vm_alloc_cases [OF al]) (use assms(4) in auto)
  then show ?thesis using assms vm_inv_walk(3) [OF assms(1)]
    by (simp add: vmm_map_page_def load_pde has_table_def Let_def)
qed

lemma unmap_page_absent:
  assumes "vm_inv st" "mmu_translate st virt = None"
  shows "vmm_unmap_page virt st = Some st"
proof (cases "has_table st (PD_INDEX virt)")
  case True
  then have "\<not> ENTRY_HAS_FLAG (pte_at st virt) PAGE_PRESENT"
    using assms vm_inv_walk [OF assms(1)] by (simp add: translate_walk split: if_splits)
  then show ?thesis using True vm_inv_walk(3) [OF assms(1)]
    by (auto simp: vmm_unmap_page_def load_pde vload_def recursive_directory recursive_table pte_at_def Let_def)
next
  case False
  then show ?thesis using vm_inv_walk(3) [OF assms(1)]
    by (simp add: vmm_unmap_page_def load_pde has_table_def)
qed

lemma unmap_page_eq:
  assumes inv: "vm_inv st" and t: "has_table st (PD_INDEX virt)" "bit (pte_at st virt) 0"
  shows "vmm_unmap_page virt st = Some (st\<lparr>
      pmem := (pmem st)(table_at st (PD_INDEX virt) + 4 * PT_INDEX virt := 0),
      vpmm := pmmngr_free_block (ENTRY_GET_FRAME (pte_at st virt)) (vpmm st)\<rparr>)"
proof -
  have l: "vload st (0xFFC00000 + PD_INDEX virt * PAGE_SIZE + 4 * PT_INDEX virt) = Some (pte_at st virt)"
    using t(1) vm_inv_walk(3) [OF inv] by (simp add: vload_def recursive_table pte_at_def)
  have w: "vstore (0xFFC00000 + PD_INDEX virt * PAGE_SIZE + 4 * PT_INDEX virt) 0 st =
      Some (st\<lparr>pmem := (pmem st)(table_at st (PD_INDEX virt) + 4 * PT_INDEX virt := 0)\<rparr>)"
    using t(1) vm_inv_walk(3) [OF inv] by (simp add: vstore_def recursive_table)
  show ?thesis using t vm_inv_walk(3) [OF inv] flag_bits(1) [of "pte_at st virt"] l w
    by (simp add: vmm_unmap_page_def load_pde has_table_def Let_def)
qed

lemma translate_vpmm [simp]: "mmu_translate (st\<lparr>vpmm := a\<rparr>) v = mmu_translate st v"
  by (simp add: mmu_translate_def Let_def)

lemma walk_vpmm [simp]:
  "has_table (st\<lparr>vpmm := a\<rparr>) i = has_table st i" "table_at (st\<lparr>vpmm := a\<rparr>) i = table_at st i"
  "pde_at (st\<lparr>vpmm := a\<rparr>) i = pde_at st i" "pte_at (st\<lparr>vpmm := a\<rparr>) v = pte_at st v"
  "recursive (st\<lparr>vpmm := a\<rparr>) = recursive st" "is_table (st\<lparr>vpmm := a\<rparr>) p = is_table st p"
  "mmu_user (st\<lparr>vpmm := a\<rparr>) v = mmu_user st v"
  by (simp_all add: has_table_def table_at_def pde_at_def pte_at_def recursive_def is_table_def mmu_user_def Let_def)

lemma frame_number: "PAGE_OFFSET p = 0 \<Longrightarrow> PAGE_OFFSET q = 0 \<Longrightarrow> unat p div 4096 = unat q div 4096 \<Longrightarrow> p = q"
  using div_mult_mod_eq [of "unat p" 4096] div_mult_mod_eq [of "unat q" 4096]
  by (simp add: u32_eq_iff unat_PAGE_OFFSET)

lemma free_frame_inv:
  assumes "vm_inv st" "PAGE_OFFSET p = 0" "\<not> is_table st p" "0x400000 \<le> unat p"
  shows "vm_inv (st\<lparr>vpmm := pmmngr_free_block p (vpmm st)\<rparr>)"
proof -
  have "unat (table_at st i) div 4096 \<noteq> unat p div 4096" if "has_table st i" for i
    using frame_number [OF table_aligned assms(2)] is_table_at [OF that] assms(3) by metis
  then show ?thesis using assms unfolding vm_inv_def
    by (auto simp: free_block_test free_block_low_reserved addressable_def frame_simps)
qed

lemma unmap_page_spec:
  assumes inv: "vm_inv st" and v: "virt < 0xFFC00000"
    and m: "mmu_translate st virt = Some (p + PAGE_OFFSET virt)" "PAGE_OFFSET p = 0"
    and p: "\<not> is_table st p" "0x400000 \<le> unat p"
  obtains st' where "vmm_unmap_page virt st = Some st'" "vm_inv st'"
    "\<And>w. mmu_translate st' w = (if same_page w virt then None else mmu_translate st w)"
    "vpmm st' = pmmngr_free_block p (vpmm st)"
    "\<And>a. ENTRY_GET_FRAME a \<noteq> table_at st (PD_INDEX virt) \<Longrightarrow> pmem st' a = pmem st a"
proof -
  have t: "has_table st (PD_INDEX virt)" "bit (pte_at st virt) 0" "ENTRY_GET_FRAME (pte_at st virt) = p"
    using m vm_inv_walk [OF inv] by (auto simp: translate_walk flag_bits split: if_splits)
  have ni: "PD_INDEX virt \<noteq> 1023" using v window_index by blast
  define st1 where "st1 = st\<lparr>pmem := (pmem st)(table_at st (PD_INDEX virt) + 4 * PT_INDEX virt := 0)\<rparr>"
  note w = pte_write [OF inv t(1) ni st1_def]
  have nt: "\<not> is_table st1 p"
    using p(1) w(4) is_table_cong [of st1 st p] by (simp add: has_table_def table_at_def)
  show ?thesis
  proof (rule that [of "st1\<lparr>vpmm := pmmngr_free_block p (vpmm st1)\<rparr>"])
    show "vmm_unmap_page virt st = Some (st1\<lparr>vpmm := pmmngr_free_block p (vpmm st1)\<rparr>)"
      using unmap_page_eq [OF inv t(1,2)] t(3) by (simp add: st1_def)
    show "vm_inv (st1\<lparr>vpmm := pmmngr_free_block p (vpmm st1)\<rparr>)"
      using w(1) m(2) nt p(2) by (rule free_frame_inv)
    show "mmu_translate (st1\<lparr>vpmm := pmmngr_free_block p (vpmm st1)\<rparr>) a =
        (if same_page a virt then None else mmu_translate st a)" for a
      using w(2) [of a] by (simp add: flag_bits)
    show "vpmm (st1\<lparr>vpmm := pmmngr_free_block p (vpmm st1)\<rparr>) = pmmngr_free_block p (vpmm st)"
      by (simp add: st1_def)
    show "pmem (st1\<lparr>vpmm := pmmngr_free_block p (vpmm st1)\<rparr>) a = pmem st a"
      if "ENTRY_GET_FRAME a \<noteq> table_at st (PD_INDEX virt)" for a
      using that slot_frame(1) [OF table_aligned index_lt(2)] by (auto simp: st1_def)
  qed
qed


section \<open>Data pages\<close>

text \<open>Writes into a frame that is not a table leave the address space alone.\<close>

lemma data_write:
  assumes inv: "vm_inv st" and p: "\<not> is_table st p" and m: "\<And>a. ENTRY_GET_FRAME a \<noteq> p \<Longrightarrow> m a = pmem st a"
  shows "vm_inv (st\<lparr>pmem := m\<rparr>)" "mmu_translate (st\<lparr>pmem := m\<rparr>) v = mmu_translate st v"
    "is_table (st\<lparr>pmem := m\<rparr>) q = is_table st q"
proof -
  have pde: "pde_at (st\<lparr>pmem := m\<rparr>) i = pde_at st i" if "i < 1024" for i
    using m [of "cr3 st + 4 * i"] slot_frame(1) [OF vm_inv_walk(2) [OF inv] that]
      is_table_directory [OF vm_inv_walk(3) [OF inv]] p by (auto simp: pde_at_def)
  then have tb: "has_table (st\<lparr>pmem := m\<rparr>) i = has_table st i \<and> table_at (st\<lparr>pmem := m\<rparr>) i = table_at st i" if "i < 1024" for i
    using that by (simp add: has_table_def table_at_def)
  show inv': "vm_inv (st\<lparr>pmem := m\<rparr>)" by (rule vm_inv_cong [OF inv _ _ tb]) simp_all
  show "is_table (st\<lparr>pmem := m\<rparr>) q = is_table st q" by (rule is_table_cong) (rule tb)
  have "pte_at (st\<lparr>pmem := m\<rparr>) v = pte_at st v" if "has_table st (PD_INDEX v)"
    using m [of "table_at st (PD_INDEX v) + 4 * PT_INDEX v"] tb [of "PD_INDEX v"]
      slot_frame(1) [OF table_aligned index_lt(2)] is_table_at [OF that] p by (auto simp: pte_at_def)
  then show "mmu_translate (st\<lparr>pmem := m\<rparr>) v = mmu_translate st v"
    using vm_inv_walk [OF inv] vm_inv_walk [OF inv'] tb [of "PD_INDEX v"] by (auto simp: translate_walk)
qed

lemma offset_in_page:
  assumes "PAGE_OFFSET v = 0" "i < 1024"
  shows "same_page (v + 4 * i) v" "PAGE_OFFSET (v + 4 * i) = 4 * i"
  using slot_frame [OF assms] aligned_frame [OF assms(1)] by (simp_all add: same_page_alt)

lemma translate_in_page:
  assumes "vm_inv st" "mmu_translate st v = Some p" "PAGE_OFFSET v = 0" "i < 1024"
  shows "mmu_translate st (v + 4 * i) = Some (p + 4 * i)"
  using assms vm_inv_walk [OF assms(1)] offset_in_page [OF assms(3,4)]
  by (auto simp: translate_walk same_page_def pte_at_def split: if_splits)

lemma zero_data_page:
  assumes inv: "vm_inv st" and p: "\<not> is_table st p" "PAGE_OFFSET p = 0"
    and v: "mmu_translate st v = Some p" "PAGE_OFFSET v = 0"
  shows "vzero_page v st = Some (st\<lparr>pmem := zero_frame p (pmem st)\<rparr>)"
proof (rule vzero_page_frame [OF _ p(2)])
  fix m and k :: nat
  assume k: "k < 1024" and m: "\<And>a. ENTRY_GET_FRAME a \<noteq> p \<Longrightarrow> m a = pmem st a"
  show "mmu_translate (st\<lparr>pmem := m\<rparr>) (v + 4 * of_nat k) = Some (p + 4 * of_nat k)"
    using data_write(2) [OF inv p(1) m] translate_in_page [OF inv v of_nat_lt_1024 [OF k]] by simp
qed

lemma take_frame_vm_inv: "vm_inv st \<Longrightarrow> vm_inv (st\<lparr>vpmm := take_frame f (vpmm st)\<rparr>)"
  by (auto simp: vm_inv_def take_frame_test take_frame_inv)

section \<open>Allocating directories and pages\<close>

lemma fresh_not_table:
  "vm_inv st \<Longrightarrow> \<not> mmap_test (unat p div 4096) (vpmm st) \<Longrightarrow> \<not> is_table st p"
  by (auto simp: vm_inv_def is_table_def)

text \<open>
  The frame \<open>d\<close> taken first and released again is the next one handed out.
\<close>

lemma alloc_after_release:
  assumes a: "pmmngr_alloc_block s = (p, take_frame d s)" "p \<noteq> 0" "addressable s" "unat p div 4096 = d"
    and s2: "s2 = take_frame d s \<or> s2 = snd (pmmngr_alloc_block (take_frame d s))
        \<and> fst (pmmngr_alloc_block (take_frame d s)) \<noteq> 0"
  shows "fst (pmmngr_alloc_block (pmmngr_free_block p s2)) = p"
proof -
  from alloc_block_nonnull [OF a(1-3)] obtain f where f: "f < scanned_frames s" "unat p = f * 4096"
    "\<not> mmap_test f s" "\<And>k. k < f \<Longrightarrow> mmap_test k s" by metis
  have d: "d = f" using f(2) a(4) by simp
  have room: "mmngr_max_blocks s \<noteq> mmngr_used_blocks s"
    using a(1,2) by (cases s rule: alloc_block_cases) auto
  have m: "mmngr_max_blocks s2 = mmngr_max_blocks s"
    using s2 by (auto simp: frame_simps)
  have t: "mmap_test k s2" if "mmap_test k (take_frame d s)" for k
    using s2 that alloc_block_test by blast
  have u: "mmngr_used_blocks s2 - 1 \<noteq> mmngr_max_blocks s"
    using s2
  proof
    assume "s2 = take_frame d s"
    then show ?thesis using room by (auto simp: frame_simps)
  next
    assume *: "s2 = snd (pmmngr_alloc_block (take_frame d s)) \<and> fst (pmmngr_alloc_block (take_frame d s)) \<noteq> 0"
    then show ?thesis by (cases "take_frame d s" rule: alloc_block_cases) (auto simp: frame_simps add.commute)
  qed
  have "pmmngr_alloc_block (pmmngr_free_block p s2) = (of_nat f * 4096, take_frame f (pmmngr_free_block p s2))"
  proof (rule alloc_block_at)
    show "f < scanned_frames (pmmngr_free_block p s2)" using f(1) m by (simp add: scanned_frames_def frame_simps)
    show "\<not> mmap_test f (pmmngr_free_block p s2)" using f(2) by (simp add: free_block_test)
    show "mmap_test k (pmmngr_free_block p s2)" if "k < f" for k
      using that f t [of k] by (simp add: free_block_test take_frame_test)
    show "mmngr_max_blocks (pmmngr_free_block p s2) \<noteq> mmngr_used_blocks (pmmngr_free_block p s2)"
      using u m by (auto simp: free_block_alt frame_simps)
  qed
  moreover have "p = of_nat f * 4096"
    using f(1,2) addressable_lt [OF a(3)] unat_frame_addr [of f] by (simp add: u32_eq_iff)
  ultimately show ?thesis by simp
qed


lemma temp_map_addr: "TEMP_MAP_ADDR < 0xFFC00000" "PAGE_OFFSET TEMP_MAP_ADDR = 0" "PD_INDEX TEMP_MAP_ADDR = 1022"
  by (simp_all add: TEMP_MAP_ADDR_def u32_eq_iff unat_PAGE_OFFSET unat_PD_INDEX)

lemma create_directory_spec:
  assumes inv: "vm_inv st" and d: "vm_alloc_block st = (dir, st0)" "dir \<noteq> 0"
    and room: "has_table st 1022 \<or> fst (pmmngr_alloc_block (vpmm st0)) \<noteq> 0"
  obtains st' where "vmm_create_directory st = Some (dir, st')" "vm_inv st'" "PAGE_OFFSET dir = 0"
    "\<not> mmap_test (unat dir div 4096) (vpmm st')" "\<And>i. i < 1024 \<Longrightarrow> pmem st' (dir + 4 * i) = 0"
    "fst (pmmngr_alloc_block (vpmm st')) = dir"
proof -
  have al: "addressable (vpmm st)" "low_reserved (vpmm st)" using inv by (simp_all add: vm_inv_def)
  have p: "st0 = st\<lparr>vpmm := take_frame (unat dir div 4096) (vpmm st)\<rparr>" "PAGE_OFFSET dir = 0" "0x400000 \<le> unat dir"
    "\<not> mmap_test (unat dir div 4096) (vpmm st)"
    by (rule vm_alloc_cases [OF al]; use d in auto)+
  have inv0: "vm_inv st0" unfolding p(1) using inv by (rule take_frame_vm_inv)
  have nt0: "\<not> is_table st0 dir" using fresh_not_table [OF inv p(4)] by (simp add: p(1))
  define fl where "fl = PAGE_PRESENT OR PAGE_WRITABLE"
  have f: "ENTRY_GET_FRAME fl = 0" by (simp add: fl_def frame_or)
  have r0: "has_table st0 (PD_INDEX TEMP_MAP_ADDR) \<or> fst (pmmngr_alloc_block (vpmm st0)) \<noteq> 0"
    using room by (simp add: temp_map_addr p(1))
  show ?thesis
  proof (rule map_page_spec [OF inv0 temp_map_addr(1) f r0, of dir])
    fix st1
    assume 1: "vmm_map_page TEMP_MAP_ADDR dir fl st0 = Some st1" "vm_inv st1"
      "\<And>w. w < 0xFFC00000 \<Longrightarrow> mmu_translate st1 w = (if same_page w TEMP_MAP_ADDR
        then Some (ENTRY_GET_FRAME dir + PAGE_OFFSET w) else mmu_translate st0 w)"
      "vpmm st1 = (if has_table st0 (PD_INDEX TEMP_MAP_ADDR) then vpmm st0 else snd (pmmngr_alloc_block (vpmm st0)))"
      "\<And>p. mmap_test (unat p div 4096) (vpmm st0) \<Longrightarrow> \<not> is_table st0 p \<Longrightarrow> \<not> is_table st1 p"
    have nt1: "\<not> is_table st1 dir" by (rule 1(5) [OF _ nt0]) (simp add: p(1) take_frame_test)
    have tr1: "mmu_translate st1 TEMP_MAP_ADDR = Some dir"
      using 1(3) [OF temp_map_addr(1)] by (simp add: same_page_def aligned_frame p(2) temp_map_addr)
    define st2 where "st2 = st1\<lparr>pmem := zero_frame dir (pmem st1)\<rparr>"
    have z: "vzero_page TEMP_MAP_ADDR st1 = Some st2"
      unfolding st2_def by (rule zero_data_page [OF 1(2) nt1 p(2) tr1 temp_map_addr(2)])
    note w = data_write [OF 1(2) nt1, of "zero_frame dir (pmem st1)", OF zero_frame_other [OF p(2)], folded st2_def]
    have tr2: "mmu_translate st2 TEMP_MAP_ADDR = Some (dir + PAGE_OFFSET TEMP_MAP_ADDR)"
      using w(2) tr1 by (simp add: temp_map_addr)
    have nt2: "\<not> is_table st2 dir" using w(3) nt1 by simp
    show ?thesis
    proof (rule unmap_page_spec [OF w(1) temp_map_addr(1) tr2 p(2) nt2 p(3)])
      fix st3
      assume 3: "vmm_unmap_page TEMP_MAP_ADDR st2 = Some st3" "vm_inv st3"
        "vpmm st3 = pmmngr_free_block dir (vpmm st2)"
        "\<And>a. ENTRY_GET_FRAME a \<noteq> table_at st2 (PD_INDEX TEMP_MAP_ADDR) \<Longrightarrow> pmem st3 a = pmem st2 a"
      have v2: "vpmm st2 = vpmm st1" by (simp add: st2_def)
      show ?thesis
      proof (rule that [OF _ 3(2) p(2)])
        show "vmm_create_directory st = Some (dir, st3)"
          using d 1(1) z 3(1) by (simp add: vmm_create_directory_def fl_def)
        show "\<not> mmap_test (unat dir div 4096) (vpmm st3)" by (simp add: 3(3) free_block_test)
        have "table_at st2 (PD_INDEX TEMP_MAP_ADDR) \<noteq> dir"
          using tr2 vm_inv_walk [OF w(1)] nt2 is_table_at [of st2 "PD_INDEX TEMP_MAP_ADDR"] by (auto simp: translate_walk split: if_splits)
        then show "pmem st3 (dir + 4 * i) = 0" if "i < 1024" for i
          using 3(4) [of "dir + 4 * i"] slot_frame(1) [OF p(2) that] zero_frame_slot [OF p(2,2) that]
          by (simp add: st2_def)
        show "fst (pmmngr_alloc_block (vpmm st3)) = dir" unfolding 3(3) v2
        proof (rule alloc_after_release [OF _ d(2) al(1) refl])
          show "pmmngr_alloc_block (vpmm st) = (dir, take_frame (unat dir div 4096) (vpmm st))"
            using d(1) p(1) by (simp add: vm_alloc_pmm)
          show "vpmm st1 = take_frame (unat dir div 4096) (vpmm st) \<or>
            vpmm st1 = snd (pmmngr_alloc_block (take_frame (unat dir div 4096) (vpmm st)))
            \<and> fst (pmmngr_alloc_block (take_frame (unat dir div 4096) (vpmm st))) \<noteq> 0"
            using 1(4) r0 by (auto simp: p(1))
        qed
      qed
    qed
  qed
qed

section \<open>Boot\<close>

lemma early_vstore: "\<not> paging st \<Longrightarrow> vstore v w st = Some (st\<lparr>pmem := (pmem st)(v := w)\<rparr>)"
  by (simp add: vstore_def mmu_translate_def)

lemma early_vload: "\<not> paging st \<Longrightarrow> vload st v = Some (pmem st v)"
  by (simp add: vload_def mmu_translate_def)

lemma early_vzero: "\<not> paging st \<Longrightarrow> PAGE_OFFSET p = 0 \<Longrightarrow>
    vzero_page p st = Some (st\<lparr>pmem := zero_frame p (pmem st)\<rparr>)"
  by (rule vzero_page_frame) (simp_all add: mmu_translate_def)

definition kernel_flags :: u32 where
  "kernel_flags = PAGE_PRESENT OR PAGE_WRITABLE"

text \<open>The identity entries \<open>k\<close> to 1023 of the table at \<open>t\<close>.\<close>

fun identity_entries :: "u32 \<Rightarrow> nat \<Rightarrow> nat \<Rightarrow> (u32 \<Rightarrow> u32) \<Rightarrow> u32 \<Rightarrow> u32" where
  "identity_entries t k 0 m = m"
| "identity_entries t k (Suc n) m =
     identity_entries t (Suc k) n (m(t + 4 * of_nat k := pte_of (4096 * of_nat k) kernel_flags))"

lemma identity_entries_other:
  assumes "PAGE_OFFSET t = 0" "k + n \<le> 1024" "ENTRY_GET_FRAME a \<noteq> t"
  shows "identity_entries t k n m a = m a"
  using assms(2,3)
proof (induction n arbitrary: k m)
  case (Suc n)
  then have "a \<noteq> t + 4 * of_nat k" using slot_frame(1) [OF assms(1) of_nat_lt_1024 [of k]] by auto
  then show ?case using Suc by simp
qed simp

lemma identity_entries_slot:
  assumes "PAGE_OFFSET t = 0" "k + n \<le> 1024" "j < 1024"
  shows "identity_entries t k n m (t + 4 * of_nat j) =
    (if k \<le> j \<and> j < k + n then pte_of (4096 * of_nat j) kernel_flags else m (t + 4 * of_nat j))"
  using assms(2)
proof (induction n arbitrary: k m)
  case (Suc n)
  have "t + 4 * of_nat j = t + 4 * of_nat k \<longleftrightarrow> j = k"
    using slot_eq_iff [OF assms(1,1) of_nat_lt_1024 of_nat_lt_1024, of j k] Suc.prems assms(3)
    by (auto simp: u32_eq_iff unat_of_nat take_bit_eq_mod)
  then show ?case using Suc by auto
qed auto

lemma unat_page_addr: "k \<le> 1024 \<Longrightarrow> unat (4096 * of_nat k :: u32) = 4096 * k"
  by (simp add: unat_word_ariths unat_of_nat take_bit_eq_mod)

lemma page_addr:
  assumes "k < 1024"
  shows "PD_INDEX (4096 * of_nat k) = 0" "PT_INDEX (4096 * of_nat k) = of_nat k"
    "ENTRY_GET_FRAME (4096 * of_nat k) = 4096 * of_nat k" "4096 * of_nat k < (0x400000 :: u32)"
  using assms by (simp_all add: u32_eq_iff unat_PD_INDEX unat_PT_INDEX unat_ENTRY_GET_FRAME unat_page_addr
      unat_of_nat take_bit_eq_mod word_less_nat_alt)

lemma early_map_present:
  assumes "\<not> paging st" "k < 1024" "pmem st dir = e" "bit e 0"
  shows "vmm_early_identity_map dir (4096 * of_nat k) (4096 * of_nat k) kernel_flags st =
    Some (st\<lparr>pmem := (pmem st)(ENTRY_GET_FRAME e + 4 * of_nat k := pte_of (4096 * of_nat k) kernel_flags)\<rparr>)"
  using assms flag_bits(1) [of e]
  by (simp add: vmm_early_identity_map_def page_addr early_vload early_vstore pte_of_def Let_def)

lemma map_kernel_from_loop:
  assumes "PAGE_OFFSET dir = 0" "ENTRY_GET_FRAME e \<noteq> dir" "bit e 0"
  shows "\<not> paging st \<Longrightarrow> pmem st dir = e \<Longrightarrow> k + n = 1024 \<Longrightarrow> n < fuel \<Longrightarrow>
    map_kernel_from dir (4096 * of_nat k) fuel st =
      Some (st\<lparr>pmem := identity_entries (ENTRY_GET_FRAME e) k n (pmem st)\<rparr>)"
proof (induction n arbitrary: k fuel st)
  case 0
  then obtain f where "fuel = Suc f" by (metis less_imp_Suc_add)
  moreover have "\<not> 4096 * of_nat k < (0x400000 :: u32)" using 0 by simp
  ultimately show ?case by simp
next
  case (Suc n)
  then obtain f where f: "fuel = Suc f" by (metis less_imp_Suc_add)
  have k: "k < 1024" using Suc.prems by simp
  define st1 where "st1 = st\<lparr>pmem := (pmem st)(ENTRY_GET_FRAME e + 4 * of_nat k := pte_of (4096 * of_nat k) kernel_flags)\<rparr>"
  have "ENTRY_GET_FRAME dir = dir" using assms(1) by (rule aligned_frame)
  then have "dir \<noteq> ENTRY_GET_FRAME e + 4 * of_nat k"
    using slot_frame(1) [OF frame_aligned of_nat_lt_1024 [OF k]] assms(2) by metis
  then have "pmem st1 dir = e" using Suc.prems(2) by (simp add: st1_def)
  then have IH: "map_kernel_from dir (4096 * of_nat (Suc k)) f st1 =
      Some (st1\<lparr>pmem := identity_entries (ENTRY_GET_FRAME e) (Suc k) n (pmem st1)\<rparr>)"
    using Suc.prems f by (intro Suc.IH) (simp_all add: st1_def)
  have "map_kernel_from dir (4096 * of_nat k) fuel st = map_kernel_from dir (4096 * of_nat k + PAGE_SIZE) f st1"
    using f early_map_present [OF Suc.prems(1) k Suc.prems(2) assms(3)] page_addr(4) [OF k]
    by (simp add: kernel_flags_def [symmetric] st1_def)
  also have "4096 * of_nat k + PAGE_SIZE = 4096 * of_nat (Suc k)" by (simp add: PAGE_SIZE_def algebra_simps)
  finally show ?case using IH by (simp add: st1_def)
qed

lemma map_kernel_from_cong:
  "0 < n \<Longrightarrow> vmm_early_identity_map dir v v (PAGE_PRESENT OR PAGE_WRITABLE) st =
      vmm_early_identity_map dir v v (PAGE_PRESENT OR PAGE_WRITABLE) st' \<Longrightarrow> v < 0x400000 \<Longrightarrow>
    map_kernel_from dir v n st = map_kernel_from dir v n st'"
  by (cases n) simp_all

text \<open>The boot directory: tables for the low 4 MiB and for itself, nothing else.\<close>

lemma map_kernel_eq:
  assumes np: "\<not> paging st" and d: "PAGE_OFFSET dir = 0" "pmem st dir = 0"
    and t: "vm_alloc_block st = (t, st\<lparr>vpmm := a\<rparr>)" "t \<noteq> 0" "PAGE_OFFSET t = 0" "t \<noteq> dir"
  shows "vmm_map_kernel dir st = Some (st\<lparr>vpmm := a,
     pmem := identity_entries t 1 1023 ((pmem st)(dir := t OR PAGE_PRESENT OR PAGE_WRITABLE))\<rparr>)"
proof -
  define e where "e = t OR PAGE_PRESENT OR PAGE_WRITABLE"
  have e: "ENTRY_GET_FRAME e = t" "bit e 0" by (simp_all add: e_def frame_or bit_or_iff aligned_frame [OF t(3)])
  define st1 where "st1 = st\<lparr>vpmm := a, pmem := (pmem st)(dir := e)\<rparr>"
  have i: "PD_INDEX 4096 = 0" "PT_INDEX 4096 = 1" by (simp_all add: u32_eq_iff unat_PD_INDEX unat_PT_INDEX)
  have 1: "vmm_early_identity_map dir 4096 4096 kernel_flags st =
      vmm_early_identity_map dir 4096 4096 kernel_flags st1"
    using np d(2) t(1,2) e flag_bits(1) [of e]
    by (simp add: vmm_early_identity_map_def i early_vload early_vstore ENTRY_HAS_FLAG_def
        st1_def Let_def flip: e_def)
  have "map_kernel_from dir 4096 1024 st = map_kernel_from dir 4096 1024 st1"
    by (rule map_kernel_from_cong) (use 1 in \<open>simp_all add: kernel_flags_def\<close>)
  also have "\<dots> = Some (st1\<lparr>pmem := identity_entries t 1 1023 (pmem st1)\<rparr>)"
    using map_kernel_from_loop [OF d(1), of e st1 1 1023 1024] e t(4) np by (simp add: st1_def)
  finally show ?thesis unfolding vmm_map_kernel_def by (simp add: st1_def e_def)
qed


lemma init_spec:
  assumes np: "\<not> paging st" and al: "addressable (vpmm st)" "low_reserved (vpmm st)"
    and d: "vm_alloc_block st = (dir, st0)" "dir \<noteq> 0" and t: "vm_alloc_block st0 = (t, st1)" "t \<noteq> 0"
  obtains st' where "vmm_init st = Some st'" "vm_inv st'" "cr3 st' = dir" "kernel_directory st' = dir"
    "\<And>v. 0x1000 \<le> v \<Longrightarrow> v < 0x400000 \<Longrightarrow> mmu_translate st' v = Some v"
    "\<And>v. 0x400000 \<le> v \<Longrightarrow> v < 0xFFC00000 \<Longrightarrow> mmu_translate st' v = None"
    "\<And>v. v < 0x1000 \<Longrightarrow> mmu_translate st' v = (if ENTRY_HAS_FLAG (pmem st t) PAGE_PRESENT
        then Some (ENTRY_GET_FRAME (pmem st t) + v) else None)"
    "\<And>v. 0x1000 \<le> v \<Longrightarrow> v < 0x400000 \<Longrightarrow> \<not> ENTRY_HAS_FLAG (pte_at st' v) PAGE_USER" "vpmm st' = vpmm st1" "has_table st' 0"
proof -
  have D: "st0 = st\<lparr>vpmm := take_frame (unat dir div 4096) (vpmm st)\<rparr>" "PAGE_OFFSET dir = 0"
    "\<not> mmap_test (unat dir div 4096) (vpmm st)"
    by (rule vm_alloc_cases [OF al]; use d in auto)+
  have al0: "addressable (vpmm st0)" "low_reserved (vpmm st0)" using al by (simp_all add: D take_frame_inv)
  have T: "st1 = st0\<lparr>vpmm := take_frame (unat t div 4096) (vpmm st0)\<rparr>" "PAGE_OFFSET t = 0"
    "\<not> mmap_test (unat t div 4096) (vpmm st0)"
    by (rule vm_alloc_cases [OF al0]; use t in auto)+
  have td: "t \<noteq> dir" using T(3) by (auto simp: D take_frame_test)
  define a where "a = take_frame (unat t div 4096) (vpmm st0)"
  define m where "m = (zero_frame dir (pmem st))(dir + 4 * 1023 := dir OR PAGE_PRESENT OR PAGE_WRITABLE)"
  define st2 where "st2 = st0\<lparr>kernel_directory := dir, pmem := m\<rparr>"
  have s0: "dir + 4 * 0 = dir" by simp
  have m0: "m dir = 0" "m t = pmem st t"
    using zero_frame_slot [OF D(2,2), of 0 "pmem st"] zero_frame_slot [OF D(2) T(2), of 0 "pmem st"] td
      slot_eq_iff [OF D(2,2), of 0 1023] slot_eq_iff [OF T(2) D(2), of 0 1023] by (simp_all add: m_def)
  define M where "M = identity_entries t 1 1023 (m(dir := t OR PAGE_PRESENT OR PAGE_WRITABLE))"
  define st' where "st' = st2\<lparr>vpmm := a, pmem := M, cr3 := dir, paging := True\<rparr>"
  have k: "vmm_map_kernel dir st2 = Some (st2\<lparr>vpmm := a, pmem := M\<rparr>)"
  proof -
    have "pmmngr_alloc_block (vpmm st0) = (t, a)" using t(1) T(1) by (simp add: a_def vm_alloc_pmm)
    then have vb: "vm_alloc_block st2 = (t, st2\<lparr>vpmm := a\<rparr>)" by (simp add: vm_alloc_block_def st2_def)
    have "\<not> paging st2" "pmem st2 dir = 0" using np m0 by (simp_all add: st2_def D(1))
    from map_kernel_eq [OF this(1) D(2) this(2) vb t(2) T(2) td] show ?thesis by (simp add: M_def st2_def)
  qed
  have run: "vmm_init st = Some st'"
    using np d k by (simp add: vmm_init_def D early_vzero early_vstore st'_def st2_def m_def)
  have dw: "M (dir + 4 * i) = (if i = 0 then t OR PAGE_PRESENT OR PAGE_WRITABLE
      else if i = 1023 then dir OR PAGE_PRESENT OR PAGE_WRITABLE else 0)" if "i < 1024" for i
    using that td slot_frame(1) [OF D(2) that] zero_frame_slot [OF D(2,2) that, of "pmem st"]
      slot_eq_iff [OF D(2,2) that, of 0] slot_eq_iff [OF D(2,2) that, of 1023]
    by (simp add: M_def identity_entries_other [OF T(2)] m_def)
  have pde: "pde_at st' i = (if i = 0 then t OR PAGE_PRESENT OR PAGE_WRITABLE
      else if i = 1023 then dir OR PAGE_PRESENT OR PAGE_WRITABLE else 0)" if "i < 1024" for i
    using dw [OF that] by (simp add: pde_at_def st'_def)
  have tb: "has_table st' i \<longleftrightarrow> i = 0 \<or> i = 1023" "table_at st' 0 = t" "table_at st' 1023 = dir" for i
    using pde [of i] pde [of 0] pde [of 1023]
    by (auto simp: has_table_def table_at_def flag_bits bit_or_iff frame_or aligned_frame D(2) T(2) split: if_splits)
  have inv: "vm_inv st'"
    unfolding vm_inv_def recursive_def using tb td D(2) al0
    by (auto simp: st'_def a_def take_frame_test D(1) st2_def take_frame_inv)
  have low: "PD_INDEX v = 0" "PT_INDEX v = of_nat (unat v div 4096)" "unat v div 4096 < 1024" if "v < 0x400000" for v
  proof -
    have "unat v < 1024 * 4096" using that by (simp add: word_less_nat_alt)
    then show l: "unat v div 4096 < 1024" by (rule less_mult_imp_div_less)
    show "PD_INDEX v = 0" using that by (simp add: u32_eq_iff unat_PD_INDEX word_less_nat_alt)
    show "PT_INDEX v = of_nat (unat v div 4096)" using l
      by (simp add: u32_eq_iff unat_PT_INDEX unat_of_nat take_bit_eq_mod)
  qed
  have pte: "pte_at st' v = (if v < 0x1000 then pmem st t else pte_of (4096 * of_nat (unat v div 4096)) kernel_flags)"
    if "v < 0x400000" for v
  proof -
    have "pte_at st' v = M (t + 4 * of_nat (unat v div 4096))"
      using tb low(1,2) [OF that] by (simp add: pte_at_def) (simp add: st'_def)
    also have "\<dots> = (if 1 \<le> unat v div 4096 then pte_of (4096 * of_nat (unat v div 4096)) kernel_flags
        else m (t + 4 * of_nat (unat v div 4096)))"
      using identity_entries_slot [OF T(2) _ low(3) [OF that], of 1 1023] td low(3) [OF that]
        slot_eq_iff [OF T(2) D(2) of_nat_lt_1024, of _ 0]
      by (auto simp: M_def)
    also have "1 \<le> unat v div 4096 \<longleftrightarrow> \<not> v < 0x1000"
      by (simp add: word_less_nat_alt Suc_le_eq div_greater_zero_iff not_less)
    finally show ?thesis using m0(2) by (auto simp: word_less_nat_alt)
  qed
  note tw = translate_walk [OF vm_inv_walk(1,2) [OF inv]]
  show ?thesis
  proof (rule that [OF run inv])
    show "cr3 st' = dir" "kernel_directory st' = dir" by (simp_all add: st'_def st2_def)
    show "mmu_translate st' v = Some v" if "0x1000 \<le> v" "v < 0x400000" for v
    proof -
      have e: "pte_at st' v = pte_of (4096 * of_nat (unat v div 4096)) kernel_flags"
        using pte [OF that(2)] that(1) by (simp add: not_less [symmetric])
      have "ENTRY_GET_FRAME kernel_flags = 0" by (simp add: kernel_flags_def frame_or)
      then have "ENTRY_GET_FRAME (pte_at st' v) = ENTRY_GET_FRAME v"
        using low(3) [OF that(2)] page_addr(3) [OF low(3) [OF that(2)]] unfolding e
        by (simp add: frame_pte_of) (simp add: u32_eq_iff unat_page_addr unat_ENTRY_GET_FRAME minus_mod_eq_mult_div)
      then show ?thesis using tw [of v] tb low(1) [OF that(2)] bit_pte_of [of 0] e
        by (simp add: flag_bits frame_offset)
    qed
    show "mmu_translate st' v = None" if "0x400000 \<le> v" "v < 0xFFC00000" for v
    proof -
      have "PD_INDEX v \<noteq> 1023" using that(2) window_index by blast
      moreover have "PD_INDEX v \<noteq> 0" using that(1)
        by (simp add: u32_eq_iff unat_PD_INDEX word_le_nat_alt div_eq_0_iff)
      ultimately show ?thesis using tw [of v] tb by simp
    qed
    show "mmu_translate st' v = (if ENTRY_HAS_FLAG (pmem st t) PAGE_PRESENT
        then Some (ENTRY_GET_FRAME (pmem st t) + v) else None)" if "v < 0x1000" for v
    proof -
      have v: "v < 0x400000" "PAGE_OFFSET v = v" using that
        by (simp_all add: word_less_nat_alt u32_eq_iff unat_PAGE_OFFSET)
      then show ?thesis using tw [of v] tb low(1) [OF v(1)] pte [OF v(1)] that by simp
    qed
    show "\<not> ENTRY_HAS_FLAG (pte_at st' v) PAGE_USER" if "0x1000 \<le> v" "v < 0x400000" for v
      using pte [OF that(2)] that(1) bit_pte_of [of 2] by (simp add: flag_bits not_less [symmetric] kernel_flags_def bit_or_iff)
    show "vpmm st' = vpmm st1" "has_table st' 0" using tb by (simp_all add: st'_def a_def T(1))
  qed
qed


section \<open>Properties\<close>

text \<open>
  A machine after boot: the directory in frame 1024, the table of the low 4 MiB in frame 1025, and
  page 0x5000 mapped to itself; every other frame below 2048 is free.
\<close>

definition vm_demo :: vm where
  "vm_demo = \<lparr>vpmm = (pmm_static (\<lambda>n. if n < 32 then -1 else if n = 32 then 3 else 0))
       \<lparr>mmngr_max_blocks := 2048, mmngr_used_blocks := 1026\<rparr>,
     pmem = (\<lambda>_. 0)(0x400000 := 0x401003, 0x400FFC := 0x400003, 0x401014 := 0x5003),
     cr3 = 0x400000, paging = True, kernel_directory = 0x400000\<rparr>"

lemma vm_demo_pde:
  assumes "i < 1024"
  shows "pde_at vm_demo i = (if i = 0 then 0x401003 else if i = 1023 then 0x400003 else 0)"
proof -
  have a: "PAGE_OFFSET 0x400000 = 0" "PAGE_OFFSET 0x401000 = 0" by (simp_all add: PAGE_OFFSET_def)
  show ?thesis
    using slot_eq_iff [OF a(1,1) assms, of 0] slot_eq_iff [OF a(1,1) assms, of 1023] slot_eq_iff [OF a(1,2) assms, of 5]
    by (simp add: pde_at_def vm_demo_def)
qed

lemma vm_demo_tables: "has_table vm_demo i \<longleftrightarrow> i = 0 \<or> i = 1023"
  "table_at vm_demo 0 = 0x401000" "table_at vm_demo 1023 = 0x400000"
  using vm_demo_pde [of i] vm_demo_pde [of 0] vm_demo_pde [of 1023]
  by (auto simp: has_table_def table_at_def ENTRY_HAS_FLAG_def PAGE_PRESENT_def ENTRY_GET_FRAME_def
      split: if_splits)

lemma vm_demo_used: "mmap_test n (vpmm vm_demo) \<longleftrightarrow> n < 1026"
proof -
  consider "n < 1024" | "n = 1024" | "n = 1025" | "1026 \<le> n" by linarith
  then show ?thesis
  proof cases
    case 1
    then have "n div 32 < 32" by (rule less_mult_imp_div_less [where i = 32 and n = 32, simplified])
    moreover have "bit (push_bit (n mod 32) 1 :: u32) (n mod 32)" by (simp add: bit_push_bit_iff del: push_bit_of_1)
    then have "(push_bit (n mod 32) 1 :: u32) \<noteq> 0" by (metis bit_0_eq bot_apply bot_bool_def)
    ultimately show ?thesis using 1 by (simp add: mmap_test_def vm_demo_def pmm_static_def)
  next
    case 4
    then have "1026 div 32 \<le> n div 32" by (rule div_le_mono)
    moreover have "n = n div 32 * 32 + n mod 32" by simp
    ultimately consider "n div 32 > 32" | "n div 32 = 32" "n mod 32 \<ge> 2" using 4 by (cases "n div 32 = 32") auto
    then show ?thesis
    proof cases
      case 2
      have "\<not> bit (mask 2 :: u32) (n mod 32)" using 2(2) by (simp add: bit_mask_iff)
      then have "(3 :: u32) AND 2 ^ (n mod 32) = 0"
        by (simp add: and_exp_eq_0_iff_not_bit mask_eq_exp_minus_1)
      then show ?thesis using 2 4 by (simp add: mmap_test_def vm_demo_def pmm_static_def)
    qed (use 4 in \<open>auto simp: mmap_test_def vm_demo_def pmm_static_def\<close>)
  qed (simp_all add: mmap_test_def vm_demo_def pmm_static_def)
qed

lemma vm_demo_inv: "vm_inv vm_demo"
  unfolding vm_inv_def recursive_def low_reserved_def
  by (auto simp: vm_demo_tables vm_demo_used) (simp_all add: vm_demo_def PAGE_OFFSET_def addressable_def pmm_static_def)


text \<open>
  The recursive window. With paging on and entry 1023 of the directory pointing to the directory,
  the addresses the code uses for entry \<open>i\<close> of the directory and for entry \<open>j\<close> of table \<open>i\<close> are translated to
  exactly those words of physical memory; the second faults when there is no table \<open>i\<close>.
\<close>

theorem vmm_recursive_window:
  assumes "recursive st" "i < 1024" "j < 1024"
  shows "mmu_translate st (0xFFFFF000 + 4 * i) = Some (cr3 st + 4 * i)
    \<and> mmu_translate st (0xFFC00000 + i * PAGE_SIZE + 4 * j) =
        (if has_table st i then Some (table_at st i + 4 * j) else None)"
  using assms by (simp add: recursive_directory recursive_table)

lemma vmm_recursive_window_witness:
  "mmu_translate vm_demo (0xFFFFF000 + 4 * 0) = Some (cr3 vm_demo + 4 * 0)
    \<and> mmu_translate vm_demo (0xFFC00000 + 0 * PAGE_SIZE + 4 * 5) =
        (if has_table vm_demo 0 then Some (table_at vm_demo 0 + 4 * 5) else None)"
  by (rule vmm_recursive_window) (simp_all add: vm_inv_walk [OF vm_demo_inv])

text \<open>
  C16. Mapping a page below the recursive window, when its table exists or a frame for it is left, ends
  without a fault, keeps the invariant of directory and tables, translates exactly the addresses of that page to
  the frame of \<open>phys\<close> and every other one below the window as before, makes the page accessible to ring 3 exactly
  when the user flag is asked for, never makes another page accessible whose own entry lacks the flag, and writes
  to no used frame but tables.
\<close>

theorem vmm_map_page_maps:
  assumes "vm_inv st" "virt < 0xFFC00000" "ENTRY_GET_FRAME flags = 0"
    "has_table st (PD_INDEX virt) \<or> fst (pmmngr_alloc_block (vpmm st)) \<noteq> 0"
  shows "\<exists>st'. vmm_map_page virt phys flags st = Some st' \<and> vm_inv st'
    \<and> (\<forall>w < 0xFFC00000. mmu_translate st' w =
         (if same_page w virt then Some (ENTRY_GET_FRAME phys + PAGE_OFFSET w) else mmu_translate st w))
    \<and> (mmu_user st' virt \<longleftrightarrow> ENTRY_HAS_FLAG flags PAGE_USER)
    \<and> (\<forall>w < 0xFFC00000. \<not> same_page w virt \<longrightarrow> mmu_user st' w \<longrightarrow> ENTRY_HAS_FLAG (pte_at st w) PAGE_USER)
    \<and> (\<forall>a. mmap_test (unat a div 4096) (vpmm st) \<longrightarrow> \<not> is_table st (ENTRY_GET_FRAME a) \<longrightarrow> pmem st' a = pmem st a)"
  by (rule map_page_spec [OF assms, of phys], rule exI, intro conjI allI impI) assumption+

lemma vmm_map_page_maps_witness:
  "\<exists>st'. vmm_map_page 0x40000000 0x9000 7 vm_demo = Some st' \<and> vm_inv st'
    \<and> mmu_translate st' 0x40000123 = Some 0x9123 \<and> mmu_user st' 0x40000000"
proof -
  have "pmmngr_alloc_block (vpmm vm_demo) = (of_nat 1026 * 4096, take_frame 1026 (vpmm vm_demo))"
    by (rule alloc_block_at) (simp_all add: vm_demo_used, simp_all add: vm_demo_def pmm_static_def scanned_frames_def)
  then obtain st' where s: "vmm_map_page 0x40000000 0x9000 7 vm_demo = Some st'" "vm_inv st'"
    "\<forall>w < 0xFFC00000. mmu_translate st' w = (if same_page w 0x40000000
       then Some (ENTRY_GET_FRAME 0x9000 + PAGE_OFFSET w) else mmu_translate vm_demo w)"
    "mmu_user st' 0x40000000 \<longleftrightarrow> ENTRY_HAS_FLAG 7 PAGE_USER"
    using vmm_map_page_maps [OF vm_demo_inv, of "0x40000000" 7 "0x9000"] by (auto simp: ENTRY_GET_FRAME_def)
  have "mmu_translate st' 0x40000123 = Some 0x9123"
    using s(3) [rule_format, of "0x40000123"]
    by (simp add: same_page_alt ENTRY_GET_FRAME_def PAGE_OFFSET_def)
  then show ?thesis using s by (auto simp: ENTRY_HAS_FLAG_def PAGE_USER_def)
qed


text \<open>
  C17. Unmapping a page that is mapped to a data frame above 4 MiB ends without a fault, keeps the
  invariant, removes exactly the translations of that page, releases exactly its frame and writes only to its
  table; on a page that is not mapped it does nothing.
\<close>

theorem vmm_unmap_page_unmaps:
  assumes "vm_inv st" "virt < 0xFFC00000"
  shows "(mmu_translate st virt = None \<longrightarrow> vmm_unmap_page virt st = Some st)
    \<and> (\<forall>p. mmu_translate st virt = Some (p + PAGE_OFFSET virt) \<and> PAGE_OFFSET p = 0 \<and> \<not> is_table st p
          \<and> 0x400000 \<le> unat p \<longrightarrow>
        (\<exists>st'. vmm_unmap_page virt st = Some st' \<and> vm_inv st'
          \<and> (\<forall>w. mmu_translate st' w = (if same_page w virt then None else mmu_translate st w))
          \<and> (\<forall>n. mmap_test n (vpmm st') \<longleftrightarrow> mmap_test n (vpmm st) \<and> n \<noteq> unat p div 4096)
          \<and> (\<forall>a. ENTRY_GET_FRAME a \<noteq> table_at st (PD_INDEX virt) \<longrightarrow> pmem st' a = pmem st a)))"
proof (intro conjI allI impI)
  assume "mmu_translate st virt = None"
  then show "vmm_unmap_page virt st = Some st" by (rule unmap_page_absent [OF assms(1)])
next
  fix p assume p: "mmu_translate st virt = Some (p + PAGE_OFFSET virt) \<and> PAGE_OFFSET p = 0 \<and> \<not> is_table st p
    \<and> 0x400000 \<le> unat p"
  show "\<exists>st'. vmm_unmap_page virt st = Some st' \<and> vm_inv st'
      \<and> (\<forall>w. mmu_translate st' w = (if same_page w virt then None else mmu_translate st w))
      \<and> (\<forall>n. mmap_test n (vpmm st') \<longleftrightarrow> mmap_test n (vpmm st) \<and> n \<noteq> unat p div 4096)
      \<and> (\<forall>a. ENTRY_GET_FRAME a \<noteq> table_at st (PD_INDEX virt) \<longrightarrow> pmem st' a = pmem st a)"
    by (rule unmap_page_spec [OF assms, of p]) (use p in \<open>auto simp: free_block_test\<close>)
qed

text \<open>The demo machine with page 0x6000 mapped to the data frame 0x500000.\<close>

definition vm_demo_data :: vm where
  "vm_demo_data = vm_demo\<lparr>pmem := (pmem vm_demo)(table_at vm_demo (PD_INDEX 0x6000) + 4 * PT_INDEX 0x6000 := 0x500003)\<rparr>"

lemma vm_demo_data_walk:
  "vm_inv vm_demo_data" "mmu_translate vm_demo_data 0x6000 = Some 0x500000" "\<not> is_table vm_demo_data 0x500000"
proof -
  have i: "PD_INDEX 0x6000 = 0" by (simp add: PD_INDEX_def)
  note w = pte_write [OF vm_demo_inv _ _ vm_demo_data_def]
  show "vm_inv vm_demo_data" by (rule w(1)) (simp_all add: i vm_demo_tables)
  show "mmu_translate vm_demo_data 0x6000 = Some 0x500000"
    using w(2) [of "0x6000"]
    by (simp add: i vm_demo_tables same_page_def ENTRY_HAS_FLAG_def PAGE_PRESENT_def ENTRY_GET_FRAME_def PAGE_OFFSET_def)
  have "has_table vm_demo_data k = has_table vm_demo k \<and> table_at vm_demo_data k = table_at vm_demo k" if "k < 1024" for k
  proof -
    have "pde_at vm_demo_data k = pde_at vm_demo k" by (rule w(4) [OF _ _ that]) (simp_all add: i vm_demo_tables)
    then show ?thesis by (simp add: has_table_def table_at_def)
  qed
  then have "is_table vm_demo_data 0x500000 = is_table vm_demo 0x500000" by (rule is_table_cong)
  then show "\<not> is_table vm_demo_data 0x500000" by (auto simp: is_table_def vm_demo_tables)
qed

lemma vmm_unmap_page_unmaps_witness:
  "\<exists>st'. vmm_unmap_page 0x6000 vm_demo_data = Some st' \<and> vm_inv st' \<and> mmu_translate st' 0x6000 = None
    \<and> mmu_translate st' 0x5000 = mmu_translate vm_demo_data 0x5000"
proof -
  have "\<exists>st'. vmm_unmap_page 0x6000 vm_demo_data = Some st' \<and> vm_inv st'
      \<and> (\<forall>w. mmu_translate st' w = (if same_page w 0x6000 then None else mmu_translate vm_demo_data w))
      \<and> (\<forall>n. mmap_test n (vpmm st') \<longleftrightarrow> mmap_test n (vpmm vm_demo_data) \<and> n \<noteq> unat (0x500000 :: u32) div 4096)
      \<and> (\<forall>a. ENTRY_GET_FRAME a \<noteq> table_at vm_demo_data (PD_INDEX 0x6000) \<longrightarrow> pmem st' a = pmem vm_demo_data a)"
    by (rule vmm_unmap_page_unmaps [OF vm_demo_data_walk(1), of "0x6000", THEN conjunct2, rule_format])
      (simp_all add: vm_demo_data_walk PAGE_OFFSET_def)
  moreover have "same_page 0x6000 0x6000" "\<not> same_page 0x5000 0x6000"
    by (simp_all add: same_page_alt ENTRY_GET_FRAME_def)
  ultimately show ?thesis by metis
qed

text \<open>
  \<open>vmm_create_directory\<close> hands out a frame that is not its own: it clears the new directory through the
  temporary mapping, and the \<open>vmm_unmap_page\<close> that ends that mapping releases the frame. The address it
  returns is free in the allocator, and the next \<open>pmmngr_alloc_block\<close> returns it again.
\<close>

theorem vmm_create_directory_released:
  assumes "vm_inv st" "vm_alloc_block st = (dir, st0)" "dir \<noteq> 0"
    "has_table st 1022 \<or> fst (pmmngr_alloc_block (vpmm st0)) \<noteq> 0"
  shows "\<exists>st'. vmm_create_directory st = Some (dir, st') \<and> vm_inv st'
    \<and> (\<forall>i < 1024. pmem st' (dir + 4 * i) = 0)
    \<and> \<not> mmap_test (unat dir div 4096) (vpmm st') \<and> fst (pmmngr_alloc_block (vpmm st')) = dir"
  by (rule create_directory_spec [OF assms]) blast

lemma vm_demo_alloc:
  "vm_alloc_block vm_demo = (0x402000, vm_demo\<lparr>vpmm := take_frame 1026 (vpmm vm_demo)\<rparr>)"
  "fst (pmmngr_alloc_block (take_frame 1026 (vpmm vm_demo))) = 0x403000"
proof -
  have "pmmngr_alloc_block (vpmm vm_demo) = (of_nat 1026 * 4096, take_frame 1026 (vpmm vm_demo))"
    by (rule alloc_block_at) (simp_all add: vm_demo_used, simp_all add: vm_demo_def pmm_static_def scanned_frames_def)
  then show "vm_alloc_block vm_demo = (0x402000, vm_demo\<lparr>vpmm := take_frame 1026 (vpmm vm_demo)\<rparr>)"
    by (simp add: vm_alloc_block_def)
  have "pmmngr_alloc_block (take_frame 1026 (vpmm vm_demo)) =
      (of_nat 1027 * 4096, take_frame 1027 (take_frame 1026 (vpmm vm_demo)))"
    by (rule alloc_block_at) (auto simp: vm_demo_used take_frame_test frame_simps scanned_frames_def,
        simp_all add: vm_demo_def pmm_static_def)
  then show "fst (pmmngr_alloc_block (take_frame 1026 (vpmm vm_demo))) = 0x403000" by simp
qed

lemma vmm_create_directory_released_witness:
  "\<exists>st'. vmm_create_directory vm_demo = Some (0x402000, st') \<and> vm_inv st'
    \<and> (\<forall>i < 1024. pmem st' (0x402000 + 4 * i) = 0)
    \<and> \<not> mmap_test (unat (0x402000 :: u32) div 4096) (vpmm st') \<and> fst (pmmngr_alloc_block (vpmm st')) = 0x402000"
  by (rule vmm_create_directory_released [OF vm_demo_inv vm_demo_alloc(1)]) (simp_all add: vm_demo_alloc(2))


text \<open>
  What \<open>vmm_alloc_page\<close> returns. Out of frames: null, nothing changed. With a frame for the page and
  its table present or a second frame left: the address, mapped to a frame that was free. But with
  exactly one frame left and no table, the address is returned all the same: the frame is lost to the
  allocator and the page is not mapped.
\<close>

theorem vmm_alloc_page_outcomes:
  assumes "vm_inv st" "virt < 0xFFC00000" "ENTRY_GET_FRAME flags = 0" "vm_alloc_block st = (p, st0)"
  shows "(p = 0 \<longrightarrow> vmm_alloc_page virt flags st = Some (0, st))
    \<and> (p \<noteq> 0 \<and> (has_table st (PD_INDEX virt) \<or> fst (pmmngr_alloc_block (vpmm st0)) \<noteq> 0) \<longrightarrow>
        (\<exists>st'. vmm_alloc_page virt flags st = Some (virt, st') \<and> vm_inv st'
          \<and> \<not> mmap_test (unat p div 4096) (vpmm st) \<and> mmap_test (unat p div 4096) (vpmm st')
          \<and> (\<forall>w < 0xFFC00000. mmu_translate st' w =
               (if same_page w virt then Some (p + PAGE_OFFSET w) else mmu_translate st w))))
    \<and> (p \<noteq> 0 \<and> \<not> has_table st (PD_INDEX virt) \<and> fst (pmmngr_alloc_block (vpmm st0)) = 0 \<longrightarrow>
        vmm_alloc_page virt flags st = Some (virt, st0)
          \<and> mmap_test (unat p div 4096) (vpmm st0) \<and> mmu_translate st0 virt = None)"
proof -
  have al: "addressable (vpmm st)" "low_reserved (vpmm st)" using assms(1) by (simp_all add: vm_inv_def)
  have zero: "st0 = st" if "p = 0" by (rule vm_alloc_cases [OF al]) (use that assms(4) in auto)
  have p: "st0 = st\<lparr>vpmm := take_frame (unat p div 4096) (vpmm st)\<rparr>" "PAGE_OFFSET p = 0"
    "\<not> mmap_test (unat p div 4096) (vpmm st)" if "p \<noteq> 0"
    by (rule vm_alloc_cases [OF al]; use that assms(4) in auto)+
  have inv0: "vm_inv st0" if "p \<noteq> 0" unfolding p(1) [OF that] using assms(1) by (rule take_frame_vm_inv)
  show ?thesis
  proof (intro conjI impI; (elim conjE)?)
    assume "p = 0"
    then show "vmm_alloc_page virt flags st = Some (0, st)" using assms(4) zero by (simp add: vmm_alloc_page_def)
  next
    assume n: "p \<noteq> 0" and r: "has_table st (PD_INDEX virt) \<or> fst (pmmngr_alloc_block (vpmm st0)) \<noteq> 0"
    have r0: "has_table st0 (PD_INDEX virt) \<or> fst (pmmngr_alloc_block (vpmm st0)) \<noteq> 0" using r by (simp add: p(1) [OF n])
    show "\<exists>st'. vmm_alloc_page virt flags st = Some (virt, st') \<and> vm_inv st'
          \<and> \<not> mmap_test (unat p div 4096) (vpmm st) \<and> mmap_test (unat p div 4096) (vpmm st')
          \<and> (\<forall>w < 0xFFC00000. mmu_translate st' w =
               (if same_page w virt then Some (p + PAGE_OFFSET w) else mmu_translate st w))"
    proof (rule map_page_spec [OF inv0 [OF n] assms(2,3) r0, of p])
      fix st' assume m: "vmm_map_page virt p flags st0 = Some st'" "vm_inv st'"
        "\<And>w. w < 0xFFC00000 \<Longrightarrow> mmu_translate st' w =
          (if same_page w virt then Some (ENTRY_GET_FRAME p + PAGE_OFFSET w) else mmu_translate st0 w)"
        "\<And>n. mmap_test n (vpmm st0) \<Longrightarrow> mmap_test n (vpmm st')"
      have "mmap_test (unat p div 4096) (vpmm st')" by (rule m(4)) (simp add: p(1) [OF n] take_frame_test)
      moreover have "vmm_alloc_page virt flags st = Some (virt, st')"
        using n assms(4) m(1) by (simp add: vmm_alloc_page_def)
      moreover have "\<forall>w < 0xFFC00000. mmu_translate st' w =
               (if same_page w virt then Some (p + PAGE_OFFSET w) else mmu_translate st w)"
        using m(3) aligned_frame [OF p(2) [OF n]] by (simp add: p(1) [OF n])
      ultimately show ?thesis using m(2) p(3) [OF n] by blast
    qed
  next
    assume n: "p \<noteq> 0" and r: "\<not> has_table st (PD_INDEX virt)" "fst (pmmngr_alloc_block (vpmm st0)) = 0"
    have "\<not> has_table st0 (PD_INDEX virt)" using r(1) by (simp add: p(1) [OF n])
    from map_page_full [OF inv0 [OF n] assms(2) this r(2)]
    show "vmm_alloc_page virt flags st = Some (virt, st0)" using n assms(4) by (simp add: vmm_alloc_page_def)
    show "mmap_test (unat p div 4096) (vpmm st0)" by (simp add: p(1) [OF n] take_frame_test)
    show "mmu_translate st0 virt = None"
      using r(1) vm_inv_walk [OF assms(1)] by (simp add: p(1) [OF n] translate_walk)
  qed
qed

lemma vmm_alloc_page_outcomes_witness:
  "\<exists>st'. vmm_alloc_page 0x40000000 3 vm_demo = Some (0x40000000, st') \<and> vm_inv st'
    \<and> mmu_translate st' 0x40000FFF = Some 0x402FFF"
proof -
  have "\<exists>st'. vmm_alloc_page 0x40000000 3 vm_demo = Some (0x40000000, st') \<and> vm_inv st'
      \<and> \<not> mmap_test (unat (0x402000 :: u32) div 4096) (vpmm vm_demo) \<and> mmap_test (unat (0x402000 :: u32) div 4096) (vpmm st')
      \<and> (\<forall>w < 0xFFC00000. mmu_translate st' w =
           (if same_page w 0x40000000 then Some (0x402000 + PAGE_OFFSET w) else mmu_translate vm_demo w))"
    by (rule vmm_alloc_page_outcomes [OF vm_demo_inv _ _ vm_demo_alloc(1), THEN conjunct2, THEN conjunct1, rule_format])
      (simp_all add: ENTRY_GET_FRAME_def vm_demo_alloc(2))
  then obtain st' where s: "vmm_alloc_page 0x40000000 3 vm_demo = Some (0x40000000, st')" "vm_inv st'"
    "\<forall>w < 0xFFC00000. mmu_translate st' w =
       (if same_page w 0x40000000 then Some (0x402000 + PAGE_OFFSET w) else mmu_translate vm_demo w)" by blast
  have "mmu_translate st' 0x40000FFF = Some 0x402FFF"
    using s(3) [rule_format, of "0x40000FFF"] by (simp add: same_page_alt ENTRY_GET_FRAME_def PAGE_OFFSET_def)
  then show ?thesis using s by blast
qed

text \<open>
  \<open>vmm_init\<close>, with paging off and two frames left, ends with paging on and the invariant in place: every
  address from 4 KiB to 4 MiB is mapped to itself and nothing from there to the recursive window is
  mapped. The table is not cleared and its entry 0 never written, so whether the null page is
  mapped, and to what, is what the frame \<open>t\<close> of the table held before.
\<close>

theorem vmm_init_identity:
  assumes "\<not> paging st" "addressable (vpmm st)" "low_reserved (vpmm st)"
    "vm_alloc_block st = (dir, st0)" "dir \<noteq> 0" "vm_alloc_block st0 = (t, st1)" "t \<noteq> 0"
  shows "\<exists>st'. vmm_init st = Some st' \<and> vm_inv st' \<and> cr3 st' = dir \<and> vmm_get_kernel_directory st' = dir
    \<and> (\<forall>v. 0x1000 \<le> v \<and> v < 0x400000 \<longrightarrow> mmu_translate st' v = Some v)
    \<and> (\<forall>v. 0x400000 \<le> v \<and> v < 0xFFC00000 \<longrightarrow> mmu_translate st' v = None)
    \<and> (\<forall>v < 0x1000. mmu_translate st' v = (if ENTRY_HAS_FLAG (pmem st t) PAGE_PRESENT
        then Some (ENTRY_GET_FRAME (pmem st t) + v) else None))"
  by (rule init_spec [OF assms], rule exI, intro conjI allI impI; (elim conjE)?)
    (auto simp: vmm_get_kernel_directory_def)

lemma vmm_init_identity_witness:
  "\<exists>st'. vmm_init (vm_demo\<lparr>paging := False\<rparr>) = Some st' \<and> vm_inv st' \<and> cr3 st' = 0x402000
    \<and> mmu_translate st' 0x3ABCDE = Some 0x3ABCDE \<and> mmu_translate st' 0x400000 = None"
proof -
  have 1: "vm_alloc_block (vm_demo\<lparr>paging := False\<rparr>)
      = (0x402000, vm_demo\<lparr>paging := False, vpmm := take_frame 1026 (vpmm vm_demo)\<rparr>)"
    using vm_demo_alloc(1) by (simp add: vm_alloc_block_def prod.case_eq_if) (metis vm.select_convs(1) vm.surjective vm.update_convs(1))
  obtain st1 where 2: "vm_alloc_block (vm_demo\<lparr>paging := False, vpmm := take_frame 1026 (vpmm vm_demo)\<rparr>) = (0x403000, st1)"
    using vm_demo_alloc(2) by (simp add: vm_alloc_block_def prod.case_eq_if)
  have "addressable (vpmm vm_demo)" "low_reserved (vpmm vm_demo)" using vm_demo_inv by (simp_all add: vm_inv_def)
  then obtain st' where "vmm_init (vm_demo\<lparr>paging := False\<rparr>) = Some st'" "vm_inv st'" "cr3 st' = 0x402000"
    "\<forall>v. 0x1000 \<le> v \<and> v < 0x400000 \<longrightarrow> mmu_translate st' v = Some v"
    "\<forall>v. 0x400000 \<le> v \<and> v < 0xFFC00000 \<longrightarrow> mmu_translate st' v = None"
    using vmm_init_identity [OF _ _ _ 1 _ 2] by auto
  then show ?thesis by simp
qed

end
