(* ===== verification/Uspace.thy ===== *)
theory Uspace
  imports Vmm
begin

text \<open>
  Bytes of virtual memory, as the loader and the system calls access them, and the contract under which they
  do: a set of user pages, each in a frame of its own that the frame allocator counts as used and that is
  not a page table. \<open>address_space\<close> states what mapping a page and storing a byte promise about
  them; the interpretation discharges it for \<^verbatim>\<open>vmm_alloc_page\<close> and the page walk.
\<close>

section \<open>Byte accesses\<close>

definition word_addr :: "u32 \<Rightarrow> u32" where
  "word_addr v = v AND NOT 3"

definition load_byte :: "vm \<Rightarrow> u32 \<Rightarrow> u8 option" where
  "load_byte st v = do {
     w \<leftarrow> vload st (word_addr v);
     Some (ucast (drop_bit (8 * unat (v AND 3)) w)) }"

definition store_byte :: "u32 \<Rightarrow> u8 \<Rightarrow> vm \<Rightarrow> vm option" where
  "store_byte v b st = do {
     w \<leftarrow> vload st (word_addr v);
     vstore (word_addr v) ((w AND NOT (push_bit (8 * unat (v AND 3)) 0xFF)) OR push_bit (8 * unat (v AND 3)) (ucast b)) st }"

text \<open>A loop that stores the elements of an array one after the other.\<close>

fun stores :: "(u32 \<Rightarrow> 'b \<Rightarrow> 'm \<Rightarrow> 'm option) \<Rightarrow> u32 \<Rightarrow> 'b list \<Rightarrow> 'm \<Rightarrow> 'm option" where
  "stores store v [] m = Some m"
| "stores store v (b # bs) m = do { m \<leftarrow> store v b m; stores store (v + 1) bs m }"

definition store_bytes :: "u32 \<Rightarrow> bytes \<Rightarrow> vm \<Rightarrow> vm option" where
  "store_bytes = stores store_byte"

fun zero_bytes :: "u32 \<Rightarrow> nat \<Rightarrow> vm \<Rightarrow> vm option" where
  "zero_bytes v 0 st = Some st"
| "zero_bytes v (Suc n) st = do { st \<leftarrow> store_byte v 0 st; zero_bytes (v + 1) n st }"

lemma zero_bytes_store: "zero_bytes v n st = store_bytes v (replicate n 0) st"
  by (induction n arbitrary: v st) (simp_all add: store_bytes_def split: Option.bind_split)

lemma lane_get:
  fixes w :: u32 and b :: u8
  assumes "k < 4"
  shows "ucast (drop_bit (8 * k) ((w AND NOT (push_bit (8 * k) 0xFF)) OR push_bit (8 * k) (ucast b))) = b"
proof (rule bit_word_eqI)
  fix n assume n: "n < LENGTH(8)"
  have m: "(0xFF :: u32) = mask 8" by (simp add: mask_eq_exp_minus_1)
  show "bit (ucast (drop_bit (8 * k) ((w AND NOT (push_bit (8 * k) 0xFF)) OR push_bit (8 * k) (ucast b))) :: u8) n = bit b n"
    using n assms unfolding m by (auto simp: bit_simps)
qed

lemma lane_keep:
  fixes w :: u32 and b :: u8
  assumes "j < 4" "k < 4" "j \<noteq> k"
  shows "(ucast (drop_bit (8 * j) ((w AND NOT (push_bit (8 * k) 0xFF)) OR push_bit (8 * k) (ucast b))) :: u8)
    = ucast (drop_bit (8 * j) w)"
proof (rule bit_word_eqI)
  fix n assume n: "n < LENGTH(8)"
  have m: "(0xFF :: u32) = mask 8" by (simp add: mask_eq_exp_minus_1)
  have "8 * j + n < 8 * k \<or> 8 * k + 8 \<le> 8 * j + n" using assms n by auto
  then show "bit (ucast (drop_bit (8 * j) ((w AND NOT (push_bit (8 * k) 0xFF)) OR push_bit (8 * k) (ucast b))) :: u8) n
      = bit (ucast (drop_bit (8 * j) w) :: u8) n"
    using n assms unfolding m by (auto simp: bit_simps dest: bit_imp_le_length)
qed

lemma and3: "unat (v AND 3) = unat v mod 4" for v :: u32
  using unat_and_mask [of v 2] by (simp add: mask_eq_exp_minus_1)

lemma word_and_lane: "(word_addr v) + (v AND 3) = v" for v :: u32
proof -
  have "word_addr v + (v AND 3) = (v AND NOT 3) OR (v AND 3)"
    unfolding word_addr_def by (rule disjunctive_add_eq_or) (simp add: bit_eq_iff bit_simps)
  also have "\<dots> = v" by (rule bit_eqI) (auto simp: bit_simps)
  finally show ?thesis .
qed

lemma word_frame: "ENTRY_GET_FRAME (word_addr v) = ENTRY_GET_FRAME v"
proof -
  have m: "(3 :: u32) = mask 2" by (simp add: mask_eq_exp_minus_1)
  show ?thesis unfolding ENTRY_GET_FRAME_def word_addr_def masks m by (rule bit_eqI) (auto simp: bit_simps)
qed

lemma frame_plus: "PAGE_OFFSET p = 0 \<Longrightarrow> ENTRY_GET_FRAME (p + PAGE_OFFSET w) = p"
proof -
  assume p: "PAGE_OFFSET p = 0"
  have "p = p AND NOT 0xFFF" using aligned_frame [OF p] by (simp add: ENTRY_GET_FRAME_def)
  then have "p + PAGE_OFFSET w = (p AND NOT 0xFFF) + (w AND 0xFFF)" by (simp add: PAGE_OFFSET_def)
  also have "\<dots> = (p AND NOT 0xFFF) OR (w AND 0xFFF)"
    by (rule disjunctive_add_eq_or) (simp add: bit_eq_iff bit_simps)
  finally have "ENTRY_GET_FRAME (p + PAGE_OFFSET w) = ((p AND NOT 0xFFF) OR (w AND 0xFFF)) AND NOT 0xFFF"
    by (simp add: ENTRY_GET_FRAME_def)
  also have "\<dots> = p AND NOT 0xFFF" by (rule bit_eqI) (auto simp: bit_simps)
  finally show ?thesis using aligned_frame [OF p] by (simp add: ENTRY_GET_FRAME_def)
qed

lemma translate_page:
  assumes "vm_inv st" "mmu_translate st v = Some p" "PAGE_OFFSET v = 0" "ENTRY_GET_FRAME a = v"
  shows "mmu_translate st a = Some (p + PAGE_OFFSET a)"
proof -
  have "same_page a v" using assms(3,4) by (simp add: same_page_alt aligned_frame)
  then show ?thesis using assms vm_inv_walk [OF assms(1)]
    by (auto simp: translate_walk same_page_def pte_at_def split: if_splits)
qed

section \<open>User pages\<close>

definition user_page :: "u32 \<Rightarrow> bool" where
  "user_page v \<longleftrightarrow> PAGE_OFFSET v = 0 \<and> v \<noteq> 0 \<and> v < 0xFFC00000"

definition data_frame :: "vm \<Rightarrow> u32 \<Rightarrow> bool" where
  "data_frame st p \<longleftrightarrow> PAGE_OFFSET p = 0 \<and> \<not> is_table st p \<and> mmap_test (unat p div 4096) (vpmm st) \<and> 0x400000 \<le> unat p"

definition uspace :: "vm \<Rightarrow> u32 set \<Rightarrow> bool" where
  "uspace st V \<longleftrightarrow> vm_inv st \<and> (\<forall>v \<in> V. user_page v \<and> (\<exists>p. mmu_translate st v = Some p \<and> data_frame st p))
     \<and> inj_on (mmu_translate st) V"

text \<open>At least \<open>n\<close> more frames can be had from the allocator.\<close>

fun frames_left :: "nat \<Rightarrow> pmm \<Rightarrow> bool" where
  "frames_left 0 s \<longleftrightarrow> True"
| "frames_left (Suc n) s \<longleftrightarrow> fst (pmmngr_alloc_block s) \<noteq> 0 \<and> frames_left n (snd (pmmngr_alloc_block s))"

lemma frames_left_less: "frames_left n s \<Longrightarrow> m \<le> n \<Longrightarrow> frames_left m s"
proof (induction m arbitrary: n s)
  case (Suc m)
  then show ?case by (cases n) auto
qed simp

text \<open>As many as there are free frames among those the allocator looks at, if its counter is right.\<close>

definition free_frames :: "pmm \<Rightarrow> nat set" where
  "free_frames s = {f. f < scanned_frames s \<and> \<not> mmap_test f s}"

lemma frames_left_free:
  "pmm_accounting s \<Longrightarrow> addressable s \<Longrightarrow> low_reserved s \<Longrightarrow> n \<le> card (free_frames s) \<Longrightarrow> frames_left n s"
proof (induction n arbitrary: s)
  case (Suc n)
  then have "free_frames s \<noteq> {}" by auto
  then obtain g where g: "g < scanned_frames s" "\<not> mmap_test g s" by (auto simp: free_frames_def)
  show ?case
  proof (cases s rule: alloc_block_cases)
    case (taken f)
    have f: "1024 \<le> f" using taken(2) Suc.prems(3) by (metis low_reserved_def not_le)
    have "unat (of_nat f * 4096 :: u32) = f * 4096"
      by (rule unat_frame_addr) (rule addressable_lt [OF Suc.prems(2) taken(1)])
    then have nz: "(of_nat f * 4096 :: u32) \<noteq> 0" using f by (auto simp: unat_eq_zero [symmetric])
    have "free_frames (take_frame f s) = free_frames s - {f}"
      by (auto simp: free_frames_def take_frame_test scanned_frames_def frame_simps)
    moreover have "f \<in> free_frames s" using taken(1,2) by (simp add: free_frames_def)
    ultimately have "n \<le> card (free_frames (take_frame f s))" using Suc.prems(4) by (simp add: card_Diff_singleton)
    then have "frames_left n (take_frame f s)"
      using Suc.IH [of "take_frame f s"] take_frame_inv [of s f] alloc_block_accounting [OF Suc.prems(1)] Suc.prems(2,3) taken(4) by simp
    then show ?thesis using taken(4) nz by simp
  next
    case none
    have "g < unat (mmngr_max_blocks s)" using g(1) scanned_frames_le [of s] by simp
    then have "card (used_frames s) < unat (mmngr_max_blocks s)" using g(2) by (rule card_used_frames_lt)
    then have "mmngr_max_blocks s \<noteq> mmngr_used_blocks s" using Suc.prems(1) by (auto simp: pmm_accounting_def)
    then show ?thesis using none(2) g by blast
  qed
qed simp

text \<open>What a client that only adds to a space relies on; \<open>address_space\<close> adds giving pages back.\<close>

locale page_store =
  fixes space :: "'m \<Rightarrow> u32 set \<Rightarrow> bool" and room :: "nat \<Rightarrow> 'm \<Rightarrow> bool"
    and map_page :: "u32 \<Rightarrow> 'm \<Rightarrow> (u32 \<times> 'm) option"
    and load :: "'m \<Rightarrow> u32 \<Rightarrow> 'b option" and store :: "u32 \<Rightarrow> 'b \<Rightarrow> 'm \<Rightarrow> 'm option"
  assumes map_new: "space m V \<Longrightarrow> user_page v \<Longrightarrow> v \<notin> V \<Longrightarrow> room (Suc n) m \<Longrightarrow>
      \<exists>m'. map_page v m = Some (v, m') \<and> space m' (insert v V) \<and> room n m'
        \<and> (\<forall>a. ENTRY_GET_FRAME a \<in> V \<longrightarrow> load m' a = load m a)"
    and store_in: "space m V \<Longrightarrow> ENTRY_GET_FRAME a \<in> V \<Longrightarrow>
      \<exists>m'. store a b m = Some m' \<and> space m' V \<and> (\<forall>n. room n m' = room n m)
        \<and> (\<forall>c. ENTRY_GET_FRAME c \<in> V \<longrightarrow> load m' c = (if c = a then Some b else load m c))"
begin

text \<open>An array whose bytes lie in the space is stored, and nothing else changes.\<close>

lemma stores_in:
  assumes "space m V" "\<forall>i < length bs. ENTRY_GET_FRAME (v + of_nat i) \<in> V" "unat v + length bs \<le> 2 ^ 32"
  shows "\<exists>m'. stores store v bs m = Some m' \<and> space m' V \<and> (\<forall>n. room n m' = room n m)
    \<and> (\<forall>c. ENTRY_GET_FRAME c \<in> V \<longrightarrow> load m' c =
        (if unat v \<le> unat c \<and> unat c < unat v + length bs then Some (bs ! (unat c - unat v)) else load m c))"
  using assms
proof (induction bs arbitrary: v m)
  case (Cons b bs)
  have "ENTRY_GET_FRAME v \<in> V" using Cons.prems(2) [rule_format, of 0] by simp
  from store_in [OF Cons.prems(1) this, of b] obtain m1 where m1: "store v b m = Some m1" "space m1 V"
    "\<forall>n. room n m1 = room n m" "\<forall>c. ENTRY_GET_FRAME c \<in> V \<longrightarrow> load m1 c = (if c = v then Some b else load m c)"
    by blast
  have in1: "\<forall>i < length bs. ENTRY_GET_FRAME (v + 1 + of_nat i) \<in> V"
    using Cons.prems(2) by (metis (no_types, lifting) Suc_less_eq length_Cons of_nat_Suc add.assoc)
  show ?case
  proof (cases bs)
    case Nil
    have "c = v \<longleftrightarrow> unat v \<le> unat c \<and> unat c < unat v + 1" for c by (auto simp: u32_eq_iff)
    then show ?thesis using m1 Nil by auto
  next
    case (Cons b' bs')
    then have u: "unat (v + 1) = unat v + 1" using Cons.prems(3) by (intro unat_plus_one) simp
    obtain m2 where m2: "stores store (v + 1) bs m1 = Some m2" "space m2 V" "\<forall>n. room n m2 = room n m1"
      "\<forall>c. ENTRY_GET_FRAME c \<in> V \<longrightarrow> load m2 c =
        (if unat (v + 1) \<le> unat c \<and> unat c < unat (v + 1) + length bs then Some (bs ! (unat c - unat (v + 1))) else load m1 c)"
      using Cons.IH [OF m1(2) in1] Cons.prems(3) u by auto
    have "load m2 c = (if unat v \<le> unat c \<and> unat c < unat v + length (b # bs) then Some ((b # bs) ! (unat c - unat v)) else load m c)"
      if "ENTRY_GET_FRAME c \<in> V" for c
    proof (cases "c = v")
      case True
      then show ?thesis using m2(4) m1(4) that u by simp
    next
      case False
      then have ne: "unat c \<noteq> unat v" by (simp add: u32_eq_iff)
      show ?thesis
      proof (cases "unat v < unat c \<and> unat c < unat v + 1 + length bs")
        case True
        then have "unat c - unat v = Suc (unat c - (unat v + 1))" by linarith
        then show ?thesis using m2(4) that u True by simp
      next
        case o: False
        then have "\<not> (unat v \<le> unat c \<and> unat c < unat v + length (b # bs))" using ne by auto
        then show ?thesis using m2(4) m1(4) that u o False by auto
      qed
    qed
    then show ?thesis using m1 m2 by simp
  qed
next
  case Nil
  have "\<not> (unat v \<le> unat c \<and> unat c < unat v + length [])" for c by simp
  then have e: "(if unat v \<le> unat c \<and> unat c < unat v + length [] then x else y) = y" for c and x y :: "'b option"
    by (rule if_not_P)
  show ?case unfolding e using Nil by simp
qed

end

locale address_space = page_store +
  fixes unmap_page :: "u32 \<Rightarrow> 'm \<Rightarrow> 'm option"
  assumes unmap_in: "space m V \<Longrightarrow> v \<in> V \<Longrightarrow>
      \<exists>m'. unmap_page v m = Some m' \<and> space m' (V - {v})
        \<and> (\<forall>a. ENTRY_GET_FRAME a = v \<longrightarrow> load m' a = None)
        \<and> (\<forall>a. load m a = None \<longrightarrow> load m' a = None)
        \<and> (\<forall>a. ENTRY_GET_FRAME a \<in> V - {v} \<longrightarrow> load m' a = load m a)"
begin

text \<open>Unmapping a list of pages leaves nothing of them and keeps the rest.\<close>

lemma unmap_list:
  assumes "space m V" "set vs \<subseteq> V" "distinct vs"
  shows "\<exists>m'. foldl (\<lambda>m v. m \<bind> unmap_page v) (Some m) vs = Some m' \<and> space m' (V - set vs)
    \<and> (\<forall>a. ENTRY_GET_FRAME a \<in> set vs \<longrightarrow> load m' a = None)
    \<and> (\<forall>a. load m a = None \<longrightarrow> load m' a = None)
    \<and> (\<forall>a. ENTRY_GET_FRAME a \<in> V - set vs \<longrightarrow> load m' a = load m a)"
  using assms
proof (induction vs arbitrary: m V)
  case (Cons v vs)
  obtain m1 where m1: "unmap_page v m = Some m1" "space m1 (V - {v})"
      "\<forall>a. ENTRY_GET_FRAME a = v \<longrightarrow> load m1 a = None" "\<forall>a. load m a = None \<longrightarrow> load m1 a = None"
      "\<forall>a. ENTRY_GET_FRAME a \<in> V - {v} \<longrightarrow> load m1 a = load m a"
    using unmap_in [OF Cons.prems(1), of v] Cons.prems(2) by auto
  have "set vs \<subseteq> V - {v}" "distinct vs" using Cons.prems(2,3) by auto
  from Cons.IH [OF m1(2) this] obtain m2 where m2: "foldl (\<lambda>m v. m \<bind> unmap_page v) (Some m1) vs = Some m2"
      "space m2 (V - {v} - set vs)" "\<forall>a. ENTRY_GET_FRAME a \<in> set vs \<longrightarrow> load m2 a = None"
      "\<forall>a. load m1 a = None \<longrightarrow> load m2 a = None"
      "\<forall>a. ENTRY_GET_FRAME a \<in> V - {v} - set vs \<longrightarrow> load m2 a = load m1 a" by blast
  have "V - set (v # vs) = V - {v} - set vs" by auto
  then show ?case using m1 m2 by auto
qed auto

end

section \<open>The contract holds of the page walk\<close>

definition user_flags :: u32 where
  "user_flags = PAGE_PRESENT OR PAGE_WRITABLE OR PAGE_USER"

lemma user_flags_frame: "ENTRY_GET_FRAME user_flags = 0"
  by (simp add: user_flags_def ENTRY_GET_FRAME_def PAGE_PRESENT_def PAGE_WRITABLE_def PAGE_USER_def)

lemma uspace_translate:
  assumes "uspace st V" "ENTRY_GET_FRAME a \<in> V"
  obtains p where "mmu_translate st (ENTRY_GET_FRAME a) = Some p" "data_frame st p"
    "mmu_translate st a = Some (p + PAGE_OFFSET a)" "mmu_translate st (word_addr a) = Some (p + PAGE_OFFSET (word_addr a))"
proof -
  obtain p where p: "mmu_translate st (ENTRY_GET_FRAME a) = Some p" "data_frame st p" and i: "vm_inv st"
    using assms by (auto simp: uspace_def)
  show ?thesis
    by (rule that [OF p translate_page [OF i p(1)] translate_page [OF i p(1)]]) (simp_all add: word_frame)
qed

lemma frame_div: "unat (ENTRY_GET_FRAME a) div 4096 = unat a div 4096"
  by (simp add: unat_ENTRY_GET_FRAME minus_mod_eq_div_mult)

lemma load_byte_cong:
  assumes "mmu_translate st' (word_addr a) = mmu_translate st (word_addr a)"
    "\<And>x. mmu_translate st (word_addr a) = Some x \<Longrightarrow> pmem st' x = pmem st x"
  shows "load_byte st' a = load_byte st a"
  using assms by (cases "mmu_translate st (word_addr a)") (simp_all add: load_byte_def vload_def)

lemma store_byte_in:
  assumes u: "uspace st V" and a: "ENTRY_GET_FRAME a \<in> V"
  shows "\<exists>st'. store_byte a b st = Some st' \<and> uspace st' V \<and> vpmm st' = vpmm st \<and> mmu_translate st' = mmu_translate st
    \<and> (\<forall>c. ENTRY_GET_FRAME c \<in> V \<longrightarrow> load_byte st' c = (if c = a then Some b else load_byte st c))"
proof -
  obtain p where p: "mmu_translate st (ENTRY_GET_FRAME a) = Some p" "data_frame st p"
    "mmu_translate st (word_addr a) = Some (p + PAGE_OFFSET (word_addr a))"
    by (rule uspace_translate [OF u a])
  have i: "vm_inv st" using u by (simp add: uspace_def)
  have pf: "\<not> is_table st p" "PAGE_OFFSET p = 0" using p(2) by (simp_all add: data_frame_def)
  define x where "x = p + PAGE_OFFSET (word_addr a)"
  define w where "w = (pmem st x AND NOT (push_bit (8 * unat (a AND 3)) 0xFF)) OR push_bit (8 * unat (a AND 3)) (ucast b)"
  define st' where "st' = st\<lparr>pmem := (pmem st)(x := w)\<rparr>"
  have x: "ENTRY_GET_FRAME x = p" using frame_plus [OF pf(2)] by (simp add: x_def)
  have dw: "vm_inv st'" "mmu_translate st' v = mmu_translate st v" "is_table st' q = is_table st q" for v q
    using data_write [OF i pf(1), of "(pmem st)(x := w)"] x unfolding st'_def by (metis fun_upd_apply)+
  have s: "store_byte a b st = Some st'"
    by (simp add: store_byte_def vload_def vstore_def p(3) x_def w_def st'_def)
  have us: "uspace st' V" using u dw by (simp add: uspace_def data_frame_def inj_on_def) (simp add: st'_def)
  have l4: "unat (v AND 3) < 4" for v :: u32 using and3 [of v] by simp
  have "load_byte st' c = (if c = a then Some b else load_byte st c)" if c: "ENTRY_GET_FRAME c \<in> V" for c
  proof -
    obtain q where q: "mmu_translate st (ENTRY_GET_FRAME c) = Some q" "data_frame st q"
      "mmu_translate st (word_addr c) = Some (q + PAGE_OFFSET (word_addr c))"
      by (rule uspace_translate [OF u c])
    have qx: "ENTRY_GET_FRAME (q + PAGE_OFFSET (word_addr c)) = q" by (rule frame_plus) (use q(2) in \<open>simp add: data_frame_def\<close>)
    have lb: "load_byte st' c = Some (ucast (drop_bit (8 * unat (c AND 3)) (pmem st' (q + PAGE_OFFSET (word_addr c)))))"
      "load_byte st c = Some (ucast (drop_bit (8 * unat (c AND 3)) (pmem st (q + PAGE_OFFSET (word_addr c)))))"
      using q(3) by (simp_all add: load_byte_def vload_def dw(2))
    show ?thesis
    proof (cases "q + PAGE_OFFSET (word_addr c) = x")
      case True
      then have "q = p" using x qx by simp
      then have "ENTRY_GET_FRAME c = ENTRY_GET_FRAME a" using u c a p(1) q(1) by (auto simp: uspace_def inj_on_def)
      moreover have "PAGE_OFFSET (word_addr c) = PAGE_OFFSET (word_addr a)" using True \<open>q = p\<close> by (simp add: x_def)
      ultimately have wd: "word_addr c = word_addr a" using frame_offset word_frame by metis
      show ?thesis
      proof (cases "c AND 3 = a AND 3")
        case t: True
        then have "c = a" using wd word_and_lane by metis
        then show ?thesis using lb(1) True lane_get [OF l4] by (simp add: st'_def w_def)
      next
        case False
        then have "unat (c AND 3) \<noteq> unat (a AND 3)" by (simp add: word_unat_eq_iff)
        moreover have "c \<noteq> a" using False by auto
        ultimately show ?thesis using lb True lane_keep [OF l4 l4] by (simp add: st'_def w_def)
      qed
    next
      case False
      then have "c \<noteq> a" using p q by (auto simp: x_def)
      then show ?thesis using lb False by (simp add: st'_def)
    qed
  qed
  moreover have "mmu_translate st' = mmu_translate st" by (rule ext) (rule dw(2))
  ultimately show ?thesis using s us by (auto simp: st'_def)
qed

lemma alloc_page_at:
  assumes u: "uspace st V" and v: "user_page v" "v \<notin> V" and fl: "ENTRY_GET_FRAME fl = 0"
    and al1: "pmmngr_alloc_block (vpmm st) = (q0, s0)" "q0 \<noteq> 0"
    and al2: "has_table st (PD_INDEX v) \<or> fst (pmmngr_alloc_block s0) \<noteq> 0"
  shows "\<exists>st'. vmm_alloc_page v fl st = Some (v, st') \<and> uspace st' (insert v V) \<and> has_table st' (PD_INDEX v)
    \<and> vpmm st' = (if has_table st (PD_INDEX v) then s0 else snd (pmmngr_alloc_block s0))
    \<and> (\<forall>w < 0xFFC00000. \<not> same_page w v \<longrightarrow> mmu_translate st' w = mmu_translate st w)
    \<and> (mmu_user st' v \<longleftrightarrow> ENTRY_HAS_FLAG fl PAGE_USER)
    \<and> (\<not> ENTRY_HAS_FLAG fl PAGE_USER \<longrightarrow> (\<forall>w < 0xFFC00000. \<not> same_page w v \<longrightarrow> mmu_user st' w = mmu_user st w))
    \<and> (\<forall>a. ENTRY_GET_FRAME a \<in> V \<longrightarrow> load_byte st' a = load_byte st a)"
proof -
  have i: "vm_inv st" and vd: "v < 0xFFC00000" "PAGE_OFFSET v = 0" using u v(1) by (simp_all add: uspace_def user_page_def)
  have al: "addressable (vpmm st)" "low_reserved (vpmm st)" using i by (simp_all add: vm_inv_def)
  obtain p where p: "vm_alloc_block st = (p, st\<lparr>vpmm := take_frame (unat p div 4096) (vpmm st)\<rparr>)"
      "p \<noteq> 0" "PAGE_OFFSET p = 0" "0x400000 \<le> unat p" "\<not> mmap_test (unat p div 4096) (vpmm st)"
    by (rule vm_alloc_cases [OF al]) (use al1 in auto)
  define st0 where "st0 = st\<lparr>vpmm := take_frame (unat p div 4096) (vpmm st)\<rparr>"
  have pm0: "vpmm st0 = s0" using vm_alloc_pmm [OF p(1)] al1(1) by (simp add: st0_def)
  have ht0: "has_table st0 k = has_table st k" for k by (simp add: st0_def)
  have i0: "vm_inv st0" unfolding st0_def using i by (rule take_frame_vm_inv)
  have nt: "\<not> is_table st0 p" using fresh_not_table [OF i p(5)] by (simp add: st0_def)
  have used0: "mmap_test k (vpmm st0) \<longleftrightarrow> k = unat p div 4096 \<or> mmap_test k (vpmm st)" for k
    by (auto simp: st0_def take_frame_test)
  have room0: "has_table st0 (PD_INDEX v) \<or> fst (pmmngr_alloc_block (vpmm st0)) \<noteq> 0" using al2 by (simp add: ht0 pm0)
  show ?thesis
  proof (rule map_page_spec [OF i0 vd(1) fl room0, of p])
    fix st' assume m: "vmm_map_page v p fl st0 = Some st'" "vm_inv st'"
      "\<And>w. w < 0xFFC00000 \<Longrightarrow> mmu_translate st' w =
         (if same_page w v then Some (ENTRY_GET_FRAME p + PAGE_OFFSET w) else mmu_translate st0 w)"
      "\<And>n. mmap_test n (vpmm st0) \<Longrightarrow> mmap_test n (vpmm st')"
      "vpmm st' = (if has_table st0 (PD_INDEX v) then vpmm st0 else snd (pmmngr_alloc_block (vpmm st0)))"
      "\<And>p. mmap_test (unat p div 4096) (vpmm st0) \<Longrightarrow> \<not> is_table st0 p \<Longrightarrow> \<not> is_table st' p"
      "\<And>a. mmap_test (unat a div 4096) (vpmm st0) \<Longrightarrow> \<not> is_table st0 (ENTRY_GET_FRAME a) \<Longrightarrow> pmem st' a = pmem st0 a"
      "has_table st' (PD_INDEX v)" "mmu_user st' v \<longleftrightarrow> ENTRY_HAS_FLAG fl PAGE_USER"
      "\<And>w. \<not> ENTRY_HAS_FLAG fl PAGE_USER \<Longrightarrow> w < 0xFFC00000 \<Longrightarrow> \<not> same_page w v \<Longrightarrow> mmu_user st' w = mmu_user st0 w"
    have e: "vmm_alloc_page v fl st = Some (v, st')"
      using p(1,2) m(1) by (simp add: vmm_alloc_page_def st0_def)
    have tv: "mmu_translate st' v = Some p"
      using m(3) [OF vd(1)] vd(2) aligned_frame [OF p(3)] by (simp add: same_page_alt)
    have to: "mmu_translate st' w = mmu_translate st w" if "w < 0xFFC00000" "ENTRY_GET_FRAME w \<noteq> v" for w
      using m(3) [OF that(1)] that(2) aligned_frame [OF vd(2)] by (simp add: same_page_alt st0_def)
    have old: "mmu_translate st' w = Some q \<and> data_frame st' q \<and> q \<noteq> p \<and> \<not> is_table st0 q"
      if "w \<in> V" "mmu_translate st w = Some q" "data_frame st q" for w q
    proof -
      have "user_page w" using u that(1) by (simp add: uspace_def)
      moreover have "w \<noteq> v" using that(1) v(2) by auto
      ultimately have "mmu_translate st' w = Some q" using to [of w] that by (simp add: user_page_def aligned_frame)
      moreover have "\<not> is_table st0 q" using that(3) by (simp add: data_frame_def st0_def)
      moreover have "mmap_test (unat q div 4096) (vpmm st0)" using that(3) used0 by (simp add: data_frame_def)
      moreover have "q \<noteq> p" using that(3) p(5) by (auto simp: data_frame_def)
      ultimately show ?thesis using m(4,6) that(3) by (simp add: data_frame_def)
    qed
    have np: "data_frame st' p" using m(4,6) nt used0 p(3,4) by (simp add: data_frame_def)
    have us: "uspace st' (insert v V)"
      unfolding uspace_def
    proof (intro conjI ballI)
      fix w assume w: "w \<in> insert v V"
      show "user_page w" using w u v(1) by (auto simp: uspace_def)
      show "\<exists>q. mmu_translate st' w = Some q \<and> data_frame st' q"
      proof (cases "w = v")
        case False
        then have wv: "w \<in> V" using w by simp
        then obtain q where "mmu_translate st w = Some q" "data_frame st q" using u unfolding uspace_def by blast
        then show ?thesis using old [OF wv] by blast
      qed (use tv np in simp)
    next
      have V: "mmu_translate st' w = mmu_translate st w \<and> mmu_translate st' w \<noteq> Some p" if wv: "w \<in> V" for w
      proof -
        obtain q where "mmu_translate st w = Some q" "data_frame st q" using u wv unfolding uspace_def by blast
        then show ?thesis using old [OF wv] by simp
      qed
      have "inj_on (mmu_translate st') V"
        using u V unfolding uspace_def inj_on_def by (metis (no_types))
      moreover have "Some p \<notin> mmu_translate st' ` (V - {v})"
      proof
        assume "Some p \<in> mmu_translate st' ` (V - {v})"
        then obtain w where "w \<in> V" "mmu_translate st' w = Some p" by force
        then show False using V [of w] by simp
      qed
      ultimately show "inj_on (mmu_translate st') (insert v V)" by (simp add: tv)
    qed (rule m(2))
    have ld: "load_byte st' a = load_byte st a" if "ENTRY_GET_FRAME a \<in> V" for a
    proof (rule uspace_translate [OF u that])
      fix q assume q: "mmu_translate st (ENTRY_GET_FRAME a) = Some q" "data_frame st q"
        "mmu_translate st (word_addr a) = Some (q + PAGE_OFFSET (word_addr a))"
      note o = old [OF that q(1,2)]
      have f: "ENTRY_GET_FRAME (q + PAGE_OFFSET (word_addr a)) = q" by (rule frame_plus) (use q(2) in \<open>simp add: data_frame_def\<close>)
      have "mmu_translate st' (word_addr a) = Some (q + PAGE_OFFSET (word_addr a))"
        by (rule translate_page [OF m(2), of "ENTRY_GET_FRAME a"]) (use o in \<open>simp_all add: word_frame\<close>)
      moreover have "pmem st' (q + PAGE_OFFSET (word_addr a)) = pmem st (q + PAGE_OFFSET (word_addr a))"
        using m(7) [of "q + PAGE_OFFSET (word_addr a)"] f frame_div [of "q + PAGE_OFFSET (word_addr a)"] o q(2) used0
        by (simp add: data_frame_def) (simp add: st0_def)
      ultimately show ?thesis using q(3) by (intro load_byte_cong) simp_all
    qed
    have "vpmm st' = (if has_table st (PD_INDEX v) then s0 else snd (pmmngr_alloc_block s0))"
      using m(5) by (simp add: ht0 pm0)
    moreover have "\<forall>w < 0xFFC00000. \<not> same_page w v \<longrightarrow> mmu_translate st' w = mmu_translate st w"
      using m(3) by (simp add: st0_def)
    moreover have "\<not> ENTRY_HAS_FLAG fl PAGE_USER \<longrightarrow> (\<forall>w < 0xFFC00000. \<not> same_page w v \<longrightarrow> mmu_user st' w = mmu_user st w)"
      using m(10) by (simp add: st0_def)
    ultimately show ?thesis using e us ld m(8,9) by blast
  qed
qed

lemma alloc_page_in:
  assumes u: "uspace st V" and v: "user_page v" "v \<notin> V" and r: "frames_left (2 * Suc n) (vpmm st)"
  shows "\<exists>st'. vmm_alloc_page v user_flags st = Some (v, st') \<and> uspace st' (insert v V) \<and> frames_left (2 * n) (vpmm st')
    \<and> (\<forall>w < 0xFFC00000. ENTRY_GET_FRAME w \<noteq> v \<longrightarrow> mmu_translate st' w = mmu_translate st w)
    \<and> (\<forall>a. ENTRY_GET_FRAME a \<in> V \<longrightarrow> load_byte st' a = load_byte st a)"
proof -
  obtain p s0 where p: "pmmngr_alloc_block (vpmm st) = (p, s0)" by fastforce
  have r0: "p \<noteq> 0" "frames_left (Suc (2 * n)) s0" using r p by simp_all
  then have "fst (pmmngr_alloc_block s0) \<noteq> 0" "frames_left (2 * n) s0" "frames_left (2 * n) (snd (pmmngr_alloc_block s0))"
    using frames_left_less [OF r0(2), of "2 * n"] by simp_all
  moreover have "same_page w v \<longleftrightarrow> ENTRY_GET_FRAME w = v" for w using v(1) by (simp add: same_page_alt user_page_def aligned_frame)
  ultimately show ?thesis
    using alloc_page_at [OF u v user_flags_frame p r0(1)] by auto
qed

lemma unmap_page_in:
  assumes u: "uspace st V" and v: "v \<in> V"
  shows "\<exists>st'. vmm_unmap_page v st = Some st' \<and> uspace st' (V - {v})
    \<and> (\<forall>a. ENTRY_GET_FRAME a = v \<longrightarrow> load_byte st' a = None)
    \<and> (\<forall>a. load_byte st a = None \<longrightarrow> load_byte st' a = None)
    \<and> (\<forall>a. ENTRY_GET_FRAME a \<in> V - {v} \<longrightarrow> load_byte st' a = load_byte st a)"
proof -
  have i: "vm_inv st" and uv: "user_page v" using u v by (simp_all add: uspace_def)
  have vl: "v < 0xFFC00000" and v0: "PAGE_OFFSET v = 0" using uv by (simp_all add: user_page_def)
  have ni: "PD_INDEX v \<noteq> 1023" using vl window_index by blast
  obtain p where p: "mmu_translate st v = Some p" "data_frame st p" using u v by (auto simp: uspace_def)
  have t: "has_table st (PD_INDEX v)" "bit (pte_at st v) 0" "ENTRY_GET_FRAME (pte_at st v) = p"
    using p(1) vm_inv_walk [OF i] v0 by (auto simp: translate_walk flag_bits split: if_splits)
  define st1 where "st1 = st\<lparr>pmem := (pmem st)(table_at st (PD_INDEX v) + 4 * PT_INDEX v := 0)\<rparr>"
  define st' where "st' = st1\<lparr>vpmm := pmmngr_free_block p (vpmm st1)\<rparr>"
  note w = pte_write [OF i t(1) ni st1_def]
  have tb: "is_table st' q = is_table st q" for q
    using w(4) is_table_cong [of st1 st q] by (simp add: has_table_def table_at_def st'_def)
  have e: "vmm_unmap_page v st = Some st'"
    using unmap_page_eq [OF i t(1,2)] t(3) by (simp add: st1_def st'_def)
  have nt: "\<not> is_table st1 p" using p(2) tb by (simp add: data_frame_def st'_def)
  have i': "vm_inv st'"
    unfolding st'_def using w(1) nt p(2) by (intro free_frame_inv) (simp_all add: data_frame_def)
  have tr: "mmu_translate st' a = (if same_page a v then None else mmu_translate st a)" for a
    using w(2) [of a] by (simp add: flag_bits st'_def)
  have fr: "mmap_test n (vpmm st') \<longleftrightarrow> mmap_test n (vpmm st) \<and> n \<noteq> unat p div 4096" for n
    by (auto simp: st'_def st1_def free_block_test)
  have pg: "same_page a v \<longleftrightarrow> ENTRY_GET_FRAME a = v" for a using aligned_frame [OF v0] by (simp add: same_page_alt)
  have keep: "mmu_translate st' x = Some q \<and> data_frame st' q" if "x \<in> V" "x \<noteq> v" "mmu_translate st x = Some q" "data_frame st q" for x q
  proof -
    have "user_page x" using u that(1) by (simp add: uspace_def)
    then have "\<not> same_page x v" using that(2) by (simp add: pg user_page_def aligned_frame)
    moreover have "q \<noteq> p" using u that v p(1) by (auto simp: uspace_def inj_on_def)
    then have "unat q div 4096 \<noteq> unat p div 4096" using frame_number that(4) p(2) by (auto simp: data_frame_def)
    ultimately show ?thesis using that(3,4) tr [of x] fr tb by (simp add: data_frame_def)
  qed
  have us: "uspace st' (V - {v})"
    unfolding uspace_def
  proof (intro conjI ballI i')
    fix x assume x: "x \<in> V - {v}"
    then show "user_page x" using u by (simp add: uspace_def)
    obtain q where "mmu_translate st x = Some q" "data_frame st q" using u x by (auto simp: uspace_def)
    then show "\<exists>q. mmu_translate st' x = Some q \<and> data_frame st' q" using keep [of x q] x by blast
  next
    have "mmu_translate st' x = mmu_translate st x" if x: "x \<in> V - {v}" for x
    proof -
      obtain q where "mmu_translate st x = Some q" "data_frame st q" using u x by (auto simp: uspace_def)
      then show ?thesis using keep [of x q] x by simp
    qed
    then show "inj_on (mmu_translate st') (V - {v})" using u by (simp add: uspace_def inj_on_def)
  qed
  have none: "load_byte st' a = None" if "ENTRY_GET_FRAME a = v" for a
    using tr [of "word_addr a"] pg that by (simp add: load_byte_def vload_def word_frame)
  have none': "load_byte st' a = None" if "load_byte st a = None" for a
    using tr [of "word_addr a"] that
    by (cases "mmu_translate st (word_addr a)"; cases "same_page (word_addr a) v") (simp_all add: load_byte_def vload_def)
  have ld: "load_byte st' a = load_byte st a" if a: "ENTRY_GET_FRAME a \<in> V - {v}" for a
  proof -
    have aV: "ENTRY_GET_FRAME a \<in> V" using a by simp
    obtain q where q: "mmu_translate st (ENTRY_GET_FRAME a) = Some q" "data_frame st q"
      "mmu_translate st (word_addr a) = Some (q + PAGE_OFFSET (word_addr a))"
      by (rule uspace_translate [OF u aV])
    have f: "ENTRY_GET_FRAME (q + PAGE_OFFSET (word_addr a)) = q" by (rule frame_plus) (use q(2) in \<open>simp add: data_frame_def\<close>)
    have "q \<noteq> table_at st (PD_INDEX v)" using q(2) is_table_at [OF t(1)] by (auto simp: data_frame_def)
    then have "q + PAGE_OFFSET (word_addr a) \<noteq> table_at st (PD_INDEX v) + 4 * PT_INDEX v"
      using f slot_frame(1) [OF table_aligned index_lt(2)] by metis
    then have "pmem st' (q + PAGE_OFFSET (word_addr a)) = pmem st (q + PAGE_OFFSET (word_addr a))"
      by (simp add: st'_def st1_def)
    moreover have "mmu_translate st' (word_addr a) = mmu_translate st (word_addr a)"
      using tr [of "word_addr a"] a by (simp add: pg word_frame)
    ultimately show ?thesis using q(3) by (intro load_byte_cong) simp_all
  qed
  show ?thesis using e us none none' ld by blast
qed

interpretation us: address_space uspace "\<lambda>n st. frames_left (2 * n) (vpmm st)" "\<lambda>v. vmm_alloc_page v user_flags"
  load_byte store_byte vmm_unmap_page
proof
  show "\<exists>st'. vmm_alloc_page v user_flags st = Some (v, st') \<and> uspace st' (insert v V) \<and> frames_left (2 * n) (vpmm st')
      \<and> (\<forall>a. ENTRY_GET_FRAME a \<in> V \<longrightarrow> load_byte st' a = load_byte st a)"
    if "uspace st V" "user_page v" "v \<notin> V" "frames_left (2 * Suc n) (vpmm st)" for st V v n
    using alloc_page_in [OF that] by blast
  show "\<exists>st'. store_byte a b st = Some st' \<and> uspace st' V \<and> (\<forall>n. frames_left (2 * n) (vpmm st') = frames_left (2 * n) (vpmm st))
      \<and> (\<forall>c. ENTRY_GET_FRAME c \<in> V \<longrightarrow> load_byte st' c = (if c = a then Some b else load_byte st c))"
    if "uspace st V" "ENTRY_GET_FRAME a \<in> V" for st V a b
    using store_byte_in [OF that, of b] by auto
  show "\<exists>st'. vmm_unmap_page v st = Some st' \<and> uspace st' (V - {v})
      \<and> (\<forall>a. ENTRY_GET_FRAME a = v \<longrightarrow> load_byte st' a = None)
      \<and> (\<forall>a. load_byte st a = None \<longrightarrow> load_byte st' a = None)
      \<and> (\<forall>a. ENTRY_GET_FRAME a \<in> V - {v} \<longrightarrow> load_byte st' a = load_byte st a)"
    if "uspace st V" "v \<in> V" for st V v
    using unmap_page_in [OF that] .
qed

text \<open>
  The same space, and besides the pages added to it since the state \<open>st0\<close>, when it was \<open>V0\<close>, every address below the
  recursive window translates as it did there.
\<close>

definition uspace_from :: "vm \<Rightarrow> u32 set \<Rightarrow> vm \<Rightarrow> u32 set \<Rightarrow> bool" where
  "uspace_from st0 V0 st V \<longleftrightarrow> uspace st V \<and> V0 \<subseteq> V
     \<and> (\<forall>w < 0xFFC00000. ENTRY_GET_FRAME w \<notin> V - V0 \<longrightarrow> mmu_translate st w = mmu_translate st0 w)"

interpretation grown: page_store "uspace_from st0 V0" "\<lambda>n st. frames_left (2 * n) (vpmm st)" "\<lambda>v. vmm_alloc_page v user_flags"
  load_byte store_byte for st0 V0
proof
  show "\<exists>st'. vmm_alloc_page v user_flags st = Some (v, st') \<and> uspace_from st0 V0 st' (insert v V) \<and> frames_left (2 * n) (vpmm st')
      \<and> (\<forall>a. ENTRY_GET_FRAME a \<in> V \<longrightarrow> load_byte st' a = load_byte st a)"
    if "uspace_from st0 V0 st V" "user_page v" "v \<notin> V" "frames_left (2 * Suc n) (vpmm st)" for st V v n
    using alloc_page_in [OF _ that(2-4)] that(1,3) by (fastforce simp: uspace_from_def)
  show "\<exists>st'. store_byte a b st = Some st' \<and> uspace_from st0 V0 st' V \<and> (\<forall>n. frames_left (2 * n) (vpmm st') = frames_left (2 * n) (vpmm st))
      \<and> (\<forall>c. ENTRY_GET_FRAME c \<in> V \<longrightarrow> load_byte st' c = (if c = a then Some b else load_byte st c))"
    if "uspace_from st0 V0 st V" "ENTRY_GET_FRAME a \<in> V" for st V a b
    using store_byte_in [OF _ that(2), of st b] that(1) by (auto simp: uspace_from_def)
qed

end
