(* ===== verification/Machine.thy ===== *)
theory Machine
  imports Vfs Stdio Irq Uspace
begin

text \<open>
  The state of the running kernel: the static variables of its modules and the objects they point
  to, put together so that components which call one another share them. The ports' side of the
  hardware is the \<open>wire\<close> of the console. Kernel objects made with \<open>kmalloc\<close> are kept by their address:
  the nodes of the file system in \<open>nodes\<close>, the processes in \<open>procs\<close>.
\<close>

definition PROCESS_MAX_PAGES :: nat where "PROCESS_MAX_PAGES = 64"
definition PROCESS_KSTACK_SIZE :: u32 where "PROCESS_KSTACK_SIZE = 8192"
definition USER_STACK_VIRT :: u32 where "USER_STACK_VIRT = 0xBFFFF000"
definition USER_STACK_PAGES :: nat where "USER_STACK_PAGES = 4"
definition USER_STACK_TOP :: u32 where "USER_STACK_TOP = 0xC0000000"

text \<open>\<open>mapped_pages\<close> holds the first \<open>mapped_count\<close> entries of the array.\<close>

record process_t =
  entry :: u32
  stack_top :: u32
  exit_code :: u32
  kstack :: u32
  kstack_top :: u32
  mapped_pages :: "u32 list"

definition sizeof_process_t :: u32 where
  "sizeof_process_t = 4 + 4 + 4 + 4 + 4 + 64 * 4 + 4"

record keyboard =
  key_buffer :: bytes
  buf_head :: u8
  buf_tail :: u8
  caps :: bool
  shift_key :: bool
  ctrl :: bool

datatype irq_handler = timer_irq | keyboard_irq

record 's kernel =
  files :: fs
  mount_table :: mounts
  vmem :: vm
  con :: "'s console"
  irq_handlers :: "irq_handler option list"
  kbd :: keyboard
  timer_ticks :: u32
  timer_frequency :: u32
  procs :: "u32 \<Rightarrow> process_t"
  current_process :: u32
  kill_pending :: bool
  tss_esp0 :: u32
  current_path :: bytes

section \<open>Acting on a part\<close>

definition on_wire :: "('s \<Rightarrow> 's) \<Rightarrow> 's kernel \<Rightarrow> 's kernel" where
  "on_wire f k = k\<lparr>con := (con k)\<lparr>wire := f (wire (con k))\<rparr>\<rparr>"

definition on_vga :: "(vga \<Rightarrow> vga) \<Rightarrow> 's kernel \<Rightarrow> 's kernel" where
  "on_vga f k = k\<lparr>con := (con k)\<lparr>vga := f (vga (con k))\<rparr>\<rparr>"

definition kprintf :: "'s ports \<Rightarrow> bytes \<Rightarrow> va list \<Rightarrow> 's kernel \<Rightarrow> 's kernel option" where
  "kprintf io fmt args k = map_option (\<lambda>c. k\<lparr>con := c\<rparr>) (printf io fmt args (con k))"

text \<open>An operation of a part with a result.\<close>

definition on_files :: "(fs \<Rightarrow> ('r \<times> fs) option) \<Rightarrow> 's kernel \<Rightarrow> ('r \<times> 's kernel) option" where
  "on_files f k = map_option (\<lambda>(r, s). (r, k\<lparr>files := s\<rparr>)) (f (files k))"

definition on_vmem :: "(vm \<Rightarrow> vm option) \<Rightarrow> 's kernel \<Rightarrow> 's kernel option" where
  "on_vmem f k = map_option (\<lambda>st. k\<lparr>vmem := st\<rparr>) (f (vmem k))"

definition kread :: "u32 \<Rightarrow> u32 \<Rightarrow> u32 \<Rightarrow> 's kernel \<Rightarrow> (int \<times> bytes \<times> 's kernel) option" where
  "kread node offset sz k =
     map_option (\<lambda>(r, out, s). (r, out, k\<lparr>files := s\<rparr>)) (vfs_read node offset sz (files k))"

definition kalloc_page :: "u32 \<Rightarrow> 's kernel \<Rightarrow> (u32 \<times> 's kernel) option" where
  "kalloc_page v k = map_option (\<lambda>(r, st). (r, k\<lparr>vmem := st\<rparr>)) (vmm_alloc_page v user_flags (vmem k))"

end
