(* ===== verification/Fat16_Correct.thy ===== *)
theory Fat16_Correct
  imports Fat16
begin

text \<open>
  What the file system promises: the layout of a mounted volume, the allocation of clusters, reading and
  writing file contents, and the directory operations. The witnesses use a freshly formatted
  volume of one sector per cluster.
\<close>

section \<open>A formatted volume\<close>

definition demo_boot :: sector where
  "demo_boot = (\<lambda>_. 0)(0x0C := 2, 0x0D := 1, 0x0E := 1, 0x10 := 2, 0x11 := 16, 0x16 := 1, 510 := 0x55, 511 := 0xAA)"

definition demo_bpb :: fat16_bpb where
  "demo_bpb = \<lparr>bytes_per_sector = 512, sectors_per_cluster = 1, reserved_sectors = 1, fat_count = 2,
     root_entry_count = 16, fat_size_16 = 1\<rparr>"

definition demo_disk :: fat where
  "demo_disk = \<lparr>drive = (\<lambda>_ _. 0)(0 := demo_boot), bpb = bpb_of (\<lambda>_. 0), fat_lba = 0, root_dir_lba = 0,
     root_dir_sectors = 0, data_lba = 0, mounted = False\<rparr>"

definition demo_vol :: fat where
  "demo_vol = \<lparr>drive = (\<lambda>_ _. 0)(0 := demo_boot), bpb = demo_bpb, fat_lba = 1, root_dir_lba = 3,
     root_dir_sectors = 1, data_lba = 4, mounted = True\<rparr>"

lemma demo_init: "fat16_init demo_disk = (0, demo_vol)"
proof -
  have b: "bpb_of demo_boot = demo_bpb" by (simp add: bpb_of_def demo_boot_def demo_bpb_def le16_def)
  have r: "read_sector 0 demo_disk = demo_boot" by (simp add: read_sector_def demo_disk_def lba28_def)
  have s: "demo_boot 510 = 0x55" "demo_boot 511 = 0xAA" by (simp_all add: demo_boot_def)
  show ?thesis
    unfolding fat16_init_def Let_def r b
    by (simp add: s b) (simp add: demo_disk_def demo_vol_def demo_bpb_def)
qed

lemma demo_fields [simp]: "mounted demo_vol" "bpb demo_vol = demo_bpb" "sectors_per_cluster demo_bpb = 1"
  "fat_count demo_bpb = 2" "fat_size_16 demo_bpb = 1" "root_dir_lba demo_vol = 3" "data_lba demo_vol = 4"
  "root_dir_sectors demo_vol = 1" "fat_lba demo_vol = 1"
  by (simp_all add: demo_vol_def demo_bpb_def)

lemma demo_layout: "layout demo_vol"
  by (rule init_layout [OF demo_init]) simp

lemma demo_small: "small_table demo_vol"
  by (simp add: small_table_def)

lemma demo_sector: "lba \<noteq> 0 \<Longrightarrow> drive demo_vol lba = (\<lambda>_. 0)"
  by (simp add: demo_vol_def)

lemma demo_entry: "in_table demo_vol c \<Longrightarrow> fat_entry c demo_vol = 0"
proof -
  have "unat (fat_sector c demo_vol) \<noteq> 0" using unat_fat_sector(1) [OF demo_layout, of c] by simp
  then have "fat_sector c demo_vol \<noteq> 0" by auto
  then show ?thesis using demo_sector by (simp add: fat_entry_alt [OF demo_layout] le16_def)
qed

lemma demo_in_table: "in_table demo_vol c \<longleftrightarrow> unat c < 256"
  by (simp add: in_table_def)

lemma demo_alloc: "fat_alloc_cluster demo_vol = (2, fat_set_entry 2 0xFFFF demo_vol)"
proof (rule alloc_cluster_cases [OF demo_layout])
  show "unat (fat_size_16 (bpb demo_vol)) \<le> 256" by simp
next
  assume "\<And>c. in_table demo_vol c \<Longrightarrow> 2 \<le> c \<Longrightarrow> fat_entry c demo_vol \<noteq> 0"
  then show ?thesis using demo_entry [of 2] by (simp add: demo_in_table)
next
  fix c assume c: "fat_alloc_cluster demo_vol = (c, fat_set_entry c 0xFFFF demo_vol)" "2 \<le> c"
    "\<And>d. 2 \<le> d \<Longrightarrow> d < c \<Longrightarrow> fat_entry d demo_vol \<noteq> 0"
  have "\<not> 2 < c" using c(3) [of 2] demo_entry [of 2] by (auto simp: demo_in_table)
  then show ?thesis using c(1,2) by simp
qed

lemma demo_heap: "heap_has kheap_demo [(0xFFFF0, True)]"
  using kheap_demo_heap by (simp add: heap_has_def)

section \<open>Mounting\<close>

text \<open>
  A boot sector that \<open>fat16_init\<close> accepts, with at least one table, gives a volume whose tables, root
  directory and data area follow each other without wrap-around, and the disk is only read.
\<close>

theorem fat16_init_layout:
  assumes "fat16_init st = (0, st')" "0 < fat_count (bpb st')"
  shows "layout st' \<and> bpb st' = bpb_of (read_sector 0 st) \<and> drive st' = drive st
    \<and> unat (data_lba st') \<le> 256 * 65535 + 4096"
proof -
  have "bpb st' = bpb_of (read_sector 0 st) \<and> drive st' = drive st"
    using assms(1) by (auto simp: fat16_init_def Let_def split: if_splits)
  then show ?thesis using init_layout [OF assms] layout_bounds(4) by simp
qed

lemma fat16_init_layout_witness:
  "fat16_init demo_disk = (0, demo_vol) \<and> layout demo_vol \<and> drive demo_vol = drive demo_disk"
  using fat16_init_layout [OF demo_init] demo_init by simp

section \<open>The file allocation table\<close>

text \<open>The second table is a copy of the first.\<close>

definition mirrored :: "fat \<Rightarrow> bool" where
  "mirrored st \<longleftrightarrow> (1 < fat_count (bpb st) \<longrightarrow> (\<forall>c. in_table st c \<longrightarrow>
     drive st (fat_sector c st + ucast (fat_size_16 (bpb st))) = drive st (fat_sector c st)))"

lemma mirrored_set_entry [inv_intros]:
  assumes "layout st" "in_table st c" "mirrored st"
  shows "mirrored (fat_set_entry c v st)"
proof -
  let ?f2 = "\<lambda>d. fat_sector d st + ucast (fat_size_16 (bpb st))"
  have s: "fat_sector d (fat_set_entry c v st) = fat_sector d st" for d by (simp add: fat_sector_def frame_simps)
  have "drive (fat_set_entry c v st) (?f2 d) = drive (fat_set_entry c v st) (fat_sector d st)"
    if "in_table st d" "1 < fat_count (bpb st)" for d
  proof -
    have lt: "unat (fat_sector a st) < unat (?f2 b)" if "in_table st a" for a b
      using in_table_div [OF that] unat_fat_sector [OF assms(1)] by simp
    have n: "fat_sector d st \<noteq> ?f2 c" "?f2 d \<noteq> fat_sector c st"
      using lt [OF \<open>in_table st d\<close>, of c] lt [OF assms(2), of d] by auto
    show ?thesis
      using n that assms(2,3) by (auto simp: fat_set_entry_alt [OF assms(1)] Let_def mirrored_def)
  qed
  then show ?thesis by (simp add: mirrored_def s frame_simps)
qed

text \<open>
  Setting an entry of the table changes that entry and no other, keeps the second table a copy of the
  first, and touches no sector from the root directory on.
\<close>

theorem fat_set_entry_exact:
  assumes "layout st" "in_table st c" "mirrored st"
  shows "layout (fat_set_entry c v st) \<and> mirrored (fat_set_entry c v st)
    \<and> (\<forall>d. in_table st d \<longrightarrow> fat_entry d (fat_set_entry c v st) = (if d = c then v else fat_entry d st))
    \<and> (\<forall>lba. unat (root_dir_lba st) \<le> unat (lba28 lba) \<longrightarrow> read_sector lba (fat_set_entry c v st) = read_sector lba st)"
  using assms by (auto simp: fat_entry_set set_entry_layout set_entry_read mirrored_set_entry)

lemma demo_mirrored: "mirrored demo_vol"
proof -
  have "fat_sector c demo_vol \<noteq> 0" "fat_sector c demo_vol + 1 \<noteq> 0" for c
    using unat_fat_sector [OF demo_layout, of c] by (auto simp del: word_neq_0_conv)
  then show ?thesis by (simp add: mirrored_def demo_sector)
qed

lemma fat_set_entry_exact_witness:
  "mirrored (fat_set_entry 5 0xFFFF demo_vol) \<and> fat_entry 5 (fat_set_entry 5 0xFFFF demo_vol) = 0xFFFF
    \<and> fat_entry 6 (fat_set_entry 5 0xFFFF demo_vol) = 0"
  using fat_set_entry_exact [OF demo_layout _ demo_mirrored, of 5 "0xFFFF"] demo_entry [of 6] by (simp add: demo_in_table)

text \<open>
  \<open>fat_alloc_cluster\<close> returns 0 and changes nothing exactly when no cluster of the table is free;
  otherwise it takes the lowest free cluster and marks it as an end of chain.
\<close>

theorem fat_alloc_lowest_free:
  assumes "layout st" "unat (fat_size_16 (bpb st)) \<le> 256"
  shows "(fat_alloc_cluster st = (0, st) \<and> (\<forall>c. in_table st c \<longrightarrow> 2 \<le> c \<longrightarrow> fat_entry c st \<noteq> 0))
    \<or> (\<exists>c. fat_alloc_cluster st = (c, fat_set_entry c 0xFFFF st) \<and> in_table st c \<and> 2 \<le> c
         \<and> fat_entry c st = 0 \<and> (\<forall>d. 2 \<le> d \<longrightarrow> d < c \<longrightarrow> fat_entry d st \<noteq> 0))"
  by (rule alloc_cluster_cases [OF assms]) blast+

lemma fat_alloc_lowest_free_witness:
  "\<exists>c. fat_alloc_cluster demo_vol = (c, fat_set_entry c 0xFFFF demo_vol) \<and> 2 \<le> c \<and> \<not> 2 < c"
  using fat_alloc_lowest_free [OF demo_layout] demo_entry by (auto simp: demo_in_table demo_alloc)

text \<open>
  Releasing a file's chain returns, makes exactly the entries of its clusters free and keeps all the
  others.
\<close>

theorem fat_free_chain_exact:
  assumes "layout st" "file_chain st c cs"
  shows "\<exists>st'. fat_free_chain c st = Some st' \<and> layout st'
    \<and> (\<forall>d. in_table st d \<longrightarrow> fat_entry d st' = (if d \<in> set cs then 0 else fat_entry d st))"
proof -
  have "fat_free_chain c st = Some (ft.clear cs st)"
    using free_chain_clear [OF assms(1)] assms(2) by (simp add: file_chain_def)
  then show ?thesis using assms ft.clear_ok [OF assms(1)] ft.clear_entry [OF assms(1), of cs]
    by (simp add: file_chain_def)
qed

definition demo_one :: fat where
  "demo_one = fat_set_entry 2 0xFFFF demo_vol"

lemma demo_one_facts: "layout demo_one" "small_table demo_one" "in_table demo_one c \<longleftrightarrow> unat c < 256"
    "unat c < 256 \<Longrightarrow> fat_entry c demo_one = (if c = 2 then 0xFFFF else 0)" "bpb demo_one = demo_bpb"
    "file_chain demo_one 2 [2]" "root_dir_lba demo_one = 3" "data_lba demo_one = 4"
proof -
  show l: "layout demo_one" using demo_layout by (simp add: demo_one_def set_entry_layout)
  show b: "bpb demo_one = demo_bpb" "root_dir_lba demo_one = 3" "data_lba demo_one = 4" by (simp_all add: demo_one_def frame_simps)
  show i: "in_table demo_one c \<longleftrightarrow> unat c < 256" for c by (simp add: in_table_def b)
  show "small_table demo_one" by (simp add: small_table_def b)
  show e: "fat_entry c demo_one = (if c = 2 then 0xFFFF else 0)" if "unat c < 256" for c
    using fat_entry_set [OF demo_layout, of 2 c "0xFFFF"] demo_entry that by (simp add: demo_one_def demo_in_table)
  show "file_chain demo_one 2 [2]" by (simp add: file_chain_def i e) (simp add: FAT16_CLUSTER_EOF_LO_def)
qed

lemma fat_free_chain_exact_witness: "\<exists>st'. fat_free_chain 2 demo_one = Some st' \<and> fat_entry 2 st' = 0"
  using fat_free_chain_exact [OF demo_one_facts(1,6)] by (auto simp: demo_one_facts(3))

text \<open>
  C39. \<open>fat_free_chain\<close> returns on every table whose entries stay inside it, damaged ones with cycles or
  shared tails too.
\<close>

theorem fat_free_chain_returns:
  assumes "layout st" "in_table st c"
    and "\<And>d. in_table st d \<Longrightarrow> in_table st (fat_entry d st) \<or> FAT16_CLUSTER_EOF_LO \<le> fat_entry d st"
  shows "\<exists>st'. fat_free_chain c st = Some st'"
  using assms by (intro free_chain_ends) auto

lemma fat_free_chain_returns_witness: "\<exists>st'. fat_free_chain 2 (fat_set_entry 2 2 demo_vol) = Some st'"
proof -
  have "in_table demo_vol (fat_entry d (fat_set_entry 2 2 demo_vol))" if "unat d < 256" for d
    using fat_entry_set [OF demo_layout, of 2 d 2] demo_entry [of d] that by (simp add: demo_in_table)
  then show ?thesis
    by (intro fat_free_chain_returns) (simp_all add: set_entry_layout demo_layout demo_in_table)
qed

section \<open>Reading\<close>

text \<open>A file as a node describes it: a chain long enough for the size.\<close>

definition file_node :: "fat \<Rightarrow> vfs_node \<Rightarrow> u16 list \<Rightarrow> bool" where
  "file_node st node cs \<longleftrightarrow> layout st \<and> 0 < spc st \<and> node_chain st node cs
     \<and> unat (vn_size node) \<le> cbytes st * length cs \<and> unat (vn_size node) + 130560 < 4294967296"

text \<open>The heap has a free block for a cluster buffer.\<close>

definition cluster_buffer :: "fs \<Rightarrow> blocks \<Rightarrow> bool" where
  "cluster_buffer s bs \<longleftrightarrow> heap_has (heap s) bs
     \<and> (\<exists>(t, f) \<in> set bs. f \<and> ucast (sectors_per_cluster (bpb (vol s))) * 512 \<le> t)"

lemma cluster_buffer_kmalloc:
  assumes "cluster_buffer s bs"
  obtains p k where "kmalloc (ucast (sectors_per_cluster (bpb (vol s))) * 512) (heap s) = Some (p, k)" "p \<noteq> 0"
    "heap_has (kfree p k) bs"
proof -
  obtain t where t: "heap_has (heap s) bs" "(t, True) \<in> set bs" "ucast (sectors_per_cluster (bpb (vol s))) * 512 \<le> t"
    using assms by (auto simp: cluster_buffer_def)
  show ?thesis by (rule heap_has_buffer [OF t]) (rule that)
qed

lemma cluster_buffer_kept:
  "cluster_buffer s bs \<Longrightarrow> heap_has (heap s') bs \<Longrightarrow> bpb (vol s') = bpb (vol s) \<Longrightarrow> cluster_buffer s' bs"
  by (simp add: cluster_buffer_def)

lemma read_returns:
  assumes "file_node (vol s) node cs" "offset < vn_size node" "cluster_buffer s bs"
    and n: "n = min (unat sz) (unat (vn_size node) - unat offset)"
  obtains s' where "fat16_vfs_read node offset sz s =
      Some (sint (of_nat n :: u32), take n (drop (unat offset) (file_data (vol s) cs)), s')"
    "vol s' = vol s" "nodes s' = nodes s" "heap_has (heap s') bs"
proof -
  obtain p k where k: "kmalloc (ucast (sectors_per_cluster (bpb (vol s))) * 512) (heap s) = Some (p, k)" "p \<noteq> 0"
    "heap_has (kfree p k) bs" by (rule cluster_buffer_kmalloc [OF assms(3)])
  have f: "layout (vol s)" "0 < spc (vol s)" "unat (vn_size node) \<le> cbytes (vol s) * length cs"
    "unat (vn_size node) + 130560 < 4294967296" "node_chain (vol s) node cs"
    using assms(1) by (simp_all add: file_node_def)
  have "0 < unat (vn_size node)" using assms(2) by (simp add: word_less_nat_alt)
  then have "cs \<noteq> []" using f(3) by auto
  then have ch: "chain (\<lambda>x. fat_entry x (vol s)) (ucast (vn_inode node)) cs"
    using f(5) by (auto simp: node_chain_def file_chain_def split: if_splits)
  have "fat16_vfs_read node offset sz s = Some (sint (of_nat n :: u32),
      take n (drop (unat offset) (file_data (vol s) cs)), fs_kfree p (s\<lparr>heap := k\<rparr>))"
  proof (rule read_spec [OF _ f(2) ch f(3) _ assms(2) _ k(2) n])
    show "mounted (vol s)" using f(1) by (simp add: layout_def)
    show "unat (vn_size node) + cbytes (vol s) < 4294967296" using f(4) cbytes_le [of "vol s"] by linarith
  qed (simp add: fs_kmalloc_def k(1))
  then show ?thesis by (rule that) (simp_all add: fs_kfree_def k(3))
qed

lemma read_contents:
  assumes "file_node (vol s) node cs" "cluster_buffer s bs"
  shows "\<exists>s'. fat16_vfs_read node offset sz s =
      Some (sint (of_nat (min (unat sz) (unat (vn_size node) - unat offset)) :: u32),
        take (min (unat sz) (unat (vn_size node) - unat offset)) (drop (unat offset) (file_data (vol s) cs)), s')
    \<and> vol s' = vol s \<and> nodes s' = nodes s \<and> heap_has (heap s') bs"
proof (cases "offset < vn_size node")
  case True
  show ?thesis by (rule read_returns [OF assms(1) True assms(2) refl, of sz]) auto
next
  case False
  moreover have "mounted (vol s)" using assms(1) by (simp add: file_node_def layout_def)
  ultimately show ?thesis using assms(2)
    by (simp add: fat16_vfs_read_def not_less word_le_nat_alt cluster_buffer_def)
qed

text \<open>
  C10. Reading a file returns, for every offset and length, the bytes of its clusters from the offset to the
  end of the file at most, and changes neither the volume nor the layout of the heap.
\<close>

theorem fat16_read_contents:
  assumes "file_node (vol s) node cs" "cluster_buffer s bs"
  shows "\<exists>s'. fat16_vfs_read node offset sz s =
      Some (sint (of_nat (min (unat sz) (unat (vn_size node) - unat offset)) :: u32),
        take (min (unat sz) (unat (vn_size node) - unat offset)) (drop (unat offset) (file_data (vol s) cs)), s')
    \<and> vol s' = vol s \<and> nodes s' = nodes s \<and> heap_has (heap s') bs"
  by (rule read_contents [OF assms])

text \<open>A file of three bytes in the cluster 2.\<close>

definition demo_node :: vfs_node where
  "demo_node = \<lparr>vn_name = str ''A.TXT'', vn_flags = VFS_FILE, vn_size = 3, vn_inode = 2, vn_ops = fat16_file_ops,
     vn_dir_lba = 3, vn_dir_index = 0\<rparr>"

definition demo_fs :: fs where
  "demo_fs = \<lparr>vol = demo_one, heap = kheap_demo, nodes = (\<lambda>_. fat16_root_node),
     fat16_dirent_buf = \<lparr>vd_name = [], vd_inode = 0, vd_flags = 0\<rparr>\<rparr>"

lemma demo_fs_facts: "vol demo_fs = demo_one" "heap demo_fs = kheap_demo" "file_node demo_one demo_node [2]"
  "cluster_buffer demo_fs [(0xFFFF0, True)]"
  using demo_heap demo_one_facts(1,5,6)
  by (simp_all add: demo_fs_def file_node_def node_chain_def demo_node_def cluster_buffer_def)

lemma demo_file_data: "k < 512 \<Longrightarrow> file_byte demo_one [2] k = 0"
proof -
  assume "k < 512"
  then have d: "k div 512 = 0" by simp
  have l: "lba28 4 = 4" by (simp add: lba28_def)
  have "read_sector 4 demo_one = read_sector 4 demo_vol"
    unfolding demo_one_def using demo_layout by (rule set_entry_read) (simp_all add: demo_in_table l)
  then show ?thesis using \<open>k < 512\<close> d demo_sector [of 4]
    by (simp add: file_byte_def demo_one_facts cluster_lba_def l read_sector_def)
qed

lemma fat16_read_contents_witness: "\<exists>s'. fat16_vfs_read demo_node 1 10 demo_fs = Some (2, [0, 0], s')"
proof -
  have "take 2 (drop 1 (file_data demo_one [2])) = [0, 0]"
    using demo_file_data [of 1] demo_file_data [of 2]
    by (subst file_data_slice) (simp_all add: demo_one_facts upt_rec [of 1 3] upt_rec [of 2 3] numeral_2_eq_2)
  then show ?thesis
    using fat16_read_contents [of demo_fs, unfolded demo_fs_facts(1), OF demo_fs_facts(3,4), of 1 10]
    by (auto simp: demo_node_def)
qed

section \<open>Writing\<close>

lemma foreign_file:
  assumes w: "wrote c st cs st1 cs' lo hi off buf" and st: "layout st" "0 < spc st"
    and f: "file_chain st d ds" "set ds \<inter> set cs = {}"
  shows "file_chain st1 d ds" "k < cbytes st * length ds \<Longrightarrow> file_byte st1 ds k = file_byte st ds k"
proof -
  have sc: "same_consts st st1" "file_chain st1 c cs'" using w by (simp_all add: wrote_def)
  have dj: "x \<notin> set cs'" if "x \<in> set ds" for x
    using wrote_chain_free [OF w, of x] that f chain_entry_used by (fastforce simp: file_chain_def)
  have "chain (\<lambda>x. fat_entry x st1) d ds"
    using f(1) w dj by (subst chain_cong [where e' = "\<lambda>x. fat_entry x st"]) (auto simp: file_chain_def wrote_def)
  then show "file_chain st1 d ds" using f(1) same_consts_in_table [OF sc(1)] by (simp add: file_chain_def)
  assume k: "k < cbytes st * length ds"
  have kd: "k div cbytes st < length ds" using k by (intro less_mult_imp_div_less) (simp add: mult.commute)
  have j: "k mod cbytes st div 512 < spc st" using st(2)
    by (intro less_mult_imp_div_less) (simp add: mult.commute)
  let ?x = "ds ! (k div cbytes st)" and ?j = "k mod cbytes st div 512"
  have x: "2 \<le> ?x" "?x \<notin> set cs'" using file_chain_cut [OF f(1)] kd dj by simp_all
  have l: "lba28 (cluster_lba ?x st + of_nat ?j) = cluster_lba ?x st + of_nat ?j"
    by (rule cluster_sector(2) [OF st(1) x(1) j])
  have "cluster_lba ?x st + of_nat ?j \<noteq> cluster_lba y st + of_nat i" if "y \<in> set cs'" "i < spc st" for y i
    using cluster_sector_inj [OF st(1) x(1) j _ that(2), of y] file_chain_cut [OF sc(2) that(1)] that(1) x(2) by auto
  moreover have "unat (root_dir_lba st) \<le> unat (cluster_lba ?x st + of_nat ?j)"
    using cluster_sector(1) [OF st(1) x(1) j] st(1) by (simp add: layout_def)
  ultimately have "foreign st cs' (cluster_lba ?x st + of_nat ?j)" using l by (simp add: foreign_def)
  then have "read_sector (cluster_lba ?x st + of_nat ?j) st1 = read_sector (cluster_lba ?x st + of_nat ?j) st"
    using w by (simp add: wrote_def)
  moreover have "spc st1 = spc st" using sc(1) by (simp add: same_consts_def)
  ultimately show "file_byte st1 ds k = file_byte st ds k"
    by (simp add: file_byte_def same_consts_cluster [OF sc(1)])
qed

text \<open>A directory none of whose sectors belongs to the file lies in the root area or in clusters in use.\<close>

lemma directory_sector_alt:
  assumes st: "layout st" "0 < spc st" and d: "directory st inode lbas" "l \<in> set lbas"
  obtains (root) "inode = 0" "unat (root_dir_lba st) \<le> unat (lba28 l)" "unat (lba28 l) < unat (data_lba st)"
  | (sub) x i where "inode \<noteq> 0" "lba28 l = cluster_lba x st + of_nat i" "i < spc st" "2 \<le> x" "in_table st x" "fat_entry x st \<noteq> 0"
proof (cases "inode = 0")
  case True
  then obtain k where k: "k < unat (root_dir_sectors st)" "l = root_dir_lba st + of_nat k" using d by (auto simp: directory_def)
  have l: "lba28 l = l" using directory_sectors(2) [OF st d(1)] d(2) by (simp add: lbas_ok_def)
  note b = layout_bounds(2,3) [OF st(1)]
  have "unat (of_nat k :: u32) = k" using k(1) b by (intro unat_of_nat_u32) simp
  then have "unat l = unat (root_dir_lba st) + k" unfolding k(2) using k(1) b by (subst unat_add_u32) simp_all
  then show thesis using k(1) st(1) l True by (intro root) (simp_all add: layout_def)
next
  case False
  then obtain ds where ds: "chain (\<lambda>c. fat_entry c st) (ucast inode) ds" "\<forall>c \<in> set ds. in_table st c"
    "lbas = concat (map (cluster_sectors st) ds)" using d(1) by (auto simp: directory_def)
  then obtain x i where x: "x \<in> set ds" "i < spc st" "l = cluster_lba x st + of_nat i" using d(2) by (auto simp: cluster_sectors_def)
  have "lba28 l = l" using directory_sectors(2) [OF st d(1)] d(2) by (simp add: lbas_ok_def)
  then show thesis using False x ds(2) chain_member [OF ds(1) x(1)] chain_entry_used [OF ds(1) x(1)] by (intro sub [of x i]) simp_all
qed

lemma foreign_directory:
  assumes w: "wrote c st cs st1 cs' lo hi off buf" and st: "layout st" "0 < spc st"
    and d: "directory st inode lbas" "\<forall>l \<in> set lbas. foreign st cs l"
  shows "directory st1 inode lbas" "l \<in> set lbas \<Longrightarrow> read_sector l st1 = read_sector l st"
proof -
  have sc: "same_consts st st1" "file_chain st1 c cs'" using w by (simp_all add: wrote_def)
  have two: "\<forall>x \<in> set cs'. 2 \<le> x" using file_chain_cut [OF sc(2)] same_consts_in_table [OF sc(1)] by blast
  show "directory st1 inode lbas"
  proof (cases "inode = 0")
    case True
    then show ?thesis using d(1) sc(1) by (simp add: directory_def same_consts_def)
  next
    case False
    then obtain ds where ds: "ds \<noteq> []" "chain (\<lambda>c. fat_entry c st) (ucast inode) ds" "\<forall>c \<in> set ds. in_table st c"
      "lbas = concat (map (cluster_sectors st) ds)" using d(1) by (auto simp: directory_def)
    have "x \<notin> set cs'" if x: "x \<in> set ds" for x
    proof -
      have "cluster_lba x st + of_nat 0 \<in> set lbas" using x st(2) by (force simp: ds(4) cluster_sectors_def)
      then have "foreign st cs (cluster_lba x st + of_nat 0)" using d(2) by blast
      moreover have "lba28 (cluster_lba x st + of_nat 0) = cluster_lba x st + of_nat 0"
        using chain_member [OF ds(2) x] by (intro cluster_sector(2) [OF st(1) _ st(2)]) simp
      ultimately have "x \<notin> set cs" unfolding foreign_def using st(2) by metis
      then show ?thesis using wrote_chain_free [OF w] chain_entry_used [OF ds(2) x] by blast
    qed
    then have "chain (\<lambda>c. fat_entry c st1) (ucast inode) ds"
      using ds(2,3) w by (subst chain_cong [where e' = "\<lambda>c. fat_entry c st"]) (auto simp: wrote_def)
    moreover have "cluster_sectors st1 = cluster_sectors st"
      using sc(1) same_consts_cluster [OF sc(1)] by (simp add: fun_eq_iff cluster_sectors_def same_consts_def)
    ultimately show ?thesis using False ds same_consts_in_table [OF sc(1)] by (auto simp: directory_def)
  qed
  assume l: "l \<in> set lbas"
  have "dir_sector st cs l"
  proof (cases rule: directory_sector_alt [OF st d(1) l])
    case 2
    then show ?thesis using d(2) l by (force simp: dir_sector_def foreign_def)
  qed (simp add: dir_sector_def)
  then have "foreign st cs' l" using wrote_chain_free [OF w] two by (intro dir_sector_foreign [OF st(1)]) auto
  then show "read_sector l st1 = read_sector l st" using w by (simp add: wrote_def)
qed

text \<open>
  What a write finds: the file, a valid place for its directory entry, a cluster to start with, a buffer.
\<close>

definition writable :: "fs \<Rightarrow> vfs_node \<Rightarrow> u16 list \<Rightarrow> blocks \<Rightarrow> bool" where
  "writable s node cs bs \<longleftrightarrow> file_node (vol s) node cs \<and> small_table (vol s) \<and> cluster_buffer s bs
     \<and> dir_sector (vol s) cs (vn_dir_lba node) \<and> unat (vn_dir_index node) < 16
     \<and> (cs = [] \<longrightarrow> fst (fat_alloc_cluster (vol s)) \<noteq> 0)"

definition write_fits :: "u32 \<Rightarrow> u32 \<Rightarrow> bytes \<Rightarrow> bool" where
  "write_fits offset sz buf \<longleftrightarrow> 0 < sz \<and> unat offset + unat sz + 130560 < 4294967296 \<and> unat sz \<le> length buf"

lemma write_result:
  assumes "writable s node cs bs" "write_fits offset sz buf"
  obtains n node' s' cs' where
    "fat16_vfs_write node offset sz buf s = Some (sint n, node', s')" "n \<le> sz"
    "cs' \<noteq> []" "file_chain (vol s') (ucast (vn_inode node')) cs'" "2 \<le> (ucast (vn_inode node') :: u16)"
    "vn_size node' = max (vn_size node) (offset + n)" "same_consts (vol s) (vol s')" "layout (vol s')"
    "0 < n \<longrightarrow> unat offset + unat n \<le> cbytes (vol s) * length cs'" "length cs \<le> length cs'"
    "\<And>k. unat offset \<le> k \<Longrightarrow> k < unat offset + unat n \<Longrightarrow> file_byte (vol s') cs' k = buf ! (k - unat offset)"
    "\<And>k. k < cbytes (vol s) * length cs \<Longrightarrow> k < unat offset \<or> unat offset + unat n \<le> k \<Longrightarrow>
      file_byte (vol s') cs' k = file_byte (vol s) cs k"
    "heap_has (heap s') bs"
    "n < sz \<longrightarrow> (\<forall>d. in_table (vol s') d \<longrightarrow> 2 \<le> d \<longrightarrow> fat_entry d (vol s') \<noteq> 0)"
    "read_sector (vn_dir_lba node) (vol s') = update_direntry (unat (vn_dir_index node)) (ucast (vn_inode node'))
      (vn_size node') (read_sector (vn_dir_lba node) (vol s))"
    "\<And>d ds. file_chain (vol s) d ds \<Longrightarrow> set ds \<inter> set cs = {} \<Longrightarrow> foreign (vol s) ds (vn_dir_lba node) \<Longrightarrow>
      file_chain (vol s') d ds \<and> file_data (vol s') ds = file_data (vol s) ds"
    "dir_sector (vol s') cs' (vn_dir_lba node)" "vn_dir_lba node' = vn_dir_lba node" "vn_dir_index node' = vn_dir_index node"
    "vn_flags node' = vn_flags node" "vn_ops node' = vn_ops node" "small_table (vol s')"
    "\<And>d. in_table (vol s) d \<Longrightarrow> fat_entry d (vol s') = 0 \<Longrightarrow> fat_entry d (vol s) = 0"
    "heap_start_ptr (heap s') = heap_start_ptr (heap s)"
    "\<And>inode lbas. directory (vol s) inode lbas \<Longrightarrow> \<forall>l \<in> set lbas. foreign (vol s) cs l \<Longrightarrow>
      directory (vol s') inode lbas \<and> slots (vol s') lbas =
        map (\<lambda>(l, i, e). (l, i, if lba28 l = lba28 (vn_dir_lba node) \<and> i = unat (vn_dir_index node)
          then e\<lparr>de_first_cluster := ucast (vn_inode node'), de_file_size := vn_size node'\<rparr> else e)) (slots (vol s) lbas)"
proof -
  have fn: "layout (vol s)" "0 < spc (vol s)" "node_chain (vol s) node cs" and sm: "small_table (vol s)"
    and cb: "cluster_buffer s bs" and ds: "dir_sector (vol s) cs (vn_dir_lba node)"
    and al: "cs = [] \<Longrightarrow> fst (fat_alloc_cluster (vol s)) \<noteq> 0"
    and ft: "0 < sz" "unat offset + unat sz + 130560 < 4294967296" "unat sz \<le> length buf"
    using assms by (simp_all add: writable_def file_node_def write_fits_def)
  obtain p k where km: "kmalloc (ucast (sectors_per_cluster (bpb (vol s))) * 512) (heap s) = Some (p, k)" "p \<noteq> 0"
    "heap_has (kfree p k) bs" by (rule cluster_buffer_kmalloc [OF cb])
  show ?thesis
  proof (rule write_spec [OF fn(1) sm fn(2,3) ds ft al km(1,2)])
    fix n node' s' cs' st1
    assume run: "fat16_vfs_write node offset sz buf s = Some (sint n, node', s')" "n \<le> sz"
      and n1: "ucast (vn_inode node') = cs' ! 0" "cs' \<noteq> []" "vn_size node' = max (vn_size node) (offset + n)"
      and n2: "vn_dir_lba node' = vn_dir_lba node" "vn_dir_index node' = vn_dir_index node"
        "vn_flags node' = vn_flags node" "vn_ops node' = vn_ops node"
      and w: "wrote (cs' ! 0) (vol s) cs st1 cs' (unat offset) (unat offset + unat n) (unat offset) buf"
      and vol': "vol s' = write_sector (vn_dir_lba node) (update_direntry (unat (vn_dir_index node)) (cs' ! 0)
        (vn_size node') (read_sector (vn_dir_lba node) (vol s))) st1"
      and fo: "foreign st1 cs' (vn_dir_lba node)" and heap': "heap s' = kfree p k"
      and full: "n < sz \<longrightarrow> (\<forall>d. in_table st1 d \<longrightarrow> 2 \<le> d \<longrightarrow> fat_entry d st1 \<noteq> 0)"
    have w1: "same_consts (vol s) st1" "layout st1" "file_chain st1 (cs' ! 0) cs'"
      using w by (simp_all add: wrote_def)
    have sp: "spc st1 = spc (vol s)" using w1(1) by (simp add: same_consts_def)
    have sc': "same_consts st1 (vol s')" by (simp add: vol' same_consts_def frame_simps)
    have r: "unat (root_dir_lba st1) \<le> unat (lba28 (vn_dir_lba node))" using fo by (simp add: foreign_def)
    have fb: "file_byte (vol s') cs' k = file_byte st1 cs' k" if "k < cbytes (vol s) * length cs'" for k
      unfolding vol' by (rule foreign_write(2) [OF w1(2) _ w1(3) fo]) (use sp fn(2) that in simp_all)
    have len: "length cs \<le> length cs'" using w by (auto simp: wrote_def)
    have sc: "same_consts (vol s) (vol s')" by (rule same_consts_trans [OF w1(1) sc'])
    have ent: "fat_entry d (vol s') = fat_entry d st1" if "in_table (vol s) d" for d
      unfolding vol' by (rule write_entry_other [OF w1(2) _ r]) (use that same_consts_in_table [OF w1(1)] in simp)
    have other: "fat_entry d (vol s') = fat_entry d (vol s)" if "in_table (vol s) d" "d \<notin> set cs'" for d
      using ent [OF that(1)] w that by (simp add: wrote_def)
    show ?thesis
    proof (rule that [OF run n1(2)])
      show "dir_sector (vol s') cs' (vn_dir_lba node)"
      proof (cases "unat (root_dir_lba (vol s)) \<le> unat (lba28 (vn_dir_lba node)) \<and> unat (lba28 (vn_dir_lba node)) < unat (data_lba (vol s))")
        case True
        then show ?thesis using sc by (simp add: dir_sector_def same_consts_def)
      next
        case False
        then obtain d i where d: "i < spc (vol s)" "lba28 (vn_dir_lba node) = cluster_lba d (vol s) + of_nat i" "2 \<le> d"
            "in_table (vol s) d" "d \<notin> set cs" "fat_entry d (vol s) \<noteq> 0"
          using ds unfolding dir_sector_def by blast
        then have "d \<notin> set cs'" using wrote_chain_free [OF w] by blast
        then have "d \<notin> set cs' \<and> fat_entry d (vol s') \<noteq> 0" using other d(4,6) by simp
        moreover have "i < spc (vol s')" "cluster_lba d (vol s') = cluster_lba d (vol s)" "in_table (vol s') d"
          using d(1,4) sc same_consts_cluster [OF sc] same_consts_in_table [OF sc] by (simp_all add: same_consts_def)
        ultimately show ?thesis unfolding dir_sector_def using d(2,3) by metis
      qed
      show "fat_entry d (vol s) = 0" if d: "in_table (vol s) d" "fat_entry d (vol s') = 0" for d
      proof -
        have "fat_entry d st1 = 0" using ent d by simp
        then have "d \<notin> set cs'" using chain_entry_used w1(3) by (auto simp: file_chain_def)
        then show ?thesis using other d by simp
      qed
      show "directory (vol s') inode lbas \<and> slots (vol s') lbas =
        map (\<lambda>(l, i, e). (l, i, if lba28 l = lba28 (vn_dir_lba node) \<and> i = unat (vn_dir_index node)
          then e\<lparr>de_first_cluster := ucast (vn_inode node'), de_file_size := vn_size node'\<rparr> else e)) (slots (vol s) lbas)"
        if d: "directory (vol s) inode lbas" "\<forall>l \<in> set lbas. foreign (vol s) cs l" for inode lbas
      proof
        note fd = foreign_directory [OF w fn(1,2) d]
        show "directory (vol s') inode lbas" unfolding vol' by (rule directory_write [OF w1(2) fd(1) r])
        have "sector_slots (vol s') l = map (\<lambda>(l, i, e). (l, i, if lba28 l = lba28 (vn_dir_lba node) \<and> i = unat (vn_dir_index node)
            then e\<lparr>de_first_cluster := ucast (vn_inode node'), de_file_size := vn_size node'\<rparr> else e)) (sector_slots (vol s) l)"
          if l: "l \<in> set lbas" for l
        proof (cases "lba28 l = lba28 (vn_dir_lba node)")
          case True
          then show ?thesis unfolding n1(1) by (simp add: sector_slots_def vol' read_sector_def write_sector_def update_direntry_at)
        next
          case False
          then have "read_sector l (vol s') = read_sector l st1" by (simp add: vol' read_sector_def write_sector_def)
          then show ?thesis using False fd(2) [OF l] by (simp add: sector_slots_def)
        qed
        then show "slots (vol s') lbas = map (\<lambda>(l, i, e). (l, i, if lba28 l = lba28 (vn_dir_lba node) \<and> i = unat (vn_dir_index node)
            then e\<lparr>de_first_cluster := ucast (vn_inode node'), de_file_size := vn_size node'\<rparr> else e)) (slots (vol s) lbas)"
          by (simp add: slots_def map_concat cong: map_cong)
      qed
      show "small_table (vol s')" using sm sc by (simp add: small_table_def same_consts_def)
      show "heap_start_ptr (heap s') = heap_start_ptr (heap s)"
        using km(1) by (auto simp: heap' kfree_start kmalloc_def)
      show "file_chain (vol s') (ucast (vn_inode node')) cs'"
        unfolding vol' n1(1) by (rule foreign_write(1) [OF w1(2) _ w1(3) fo]) (use sp fn(2) in simp)
      show "2 \<le> (ucast (vn_inode node') :: u16)" using file_chain_cut [OF w1(3), of "cs' ! 0"] n1(1,2) by simp
      show "same_consts (vol s) (vol s')" by (rule sc)
      show "layout (vol s')" using w1(2) by (simp add: vol' write_sector_layout)
      show hi: "0 < n \<longrightarrow> unat offset + unat n \<le> cbytes (vol s) * length cs'"
        using w by (auto simp: wrote_def word_less_nat_alt)
      show "file_byte (vol s') cs' k = buf ! (k - unat offset)" if "unat offset \<le> k" "k < unat offset + unat n" for k
      proof -
        have "0 < n" using that by (simp add: word_less_nat_alt)
        then have "k < cbytes (vol s) * length cs'" using hi that by simp
        then show ?thesis using fb w that by (simp add: wrote_def)
      qed
      show "file_byte (vol s') cs' k = file_byte (vol s) cs k"
        if "k < cbytes (vol s) * length cs" "k < unat offset \<or> unat offset + unat n \<le> k" for k
      proof -
        have "cbytes (vol s) * length cs \<le> cbytes (vol s) * length cs'" using len by (intro mult_le_mono2)
        then have "k < cbytes (vol s) * length cs'" by (rule less_le_trans [OF that(1)])
        then show ?thesis using fb w that by (auto simp: wrote_def)
      qed
      show "heap_has (heap s') bs" using km(3) heap' by simp
      show "n < sz \<longrightarrow> (\<forall>d. in_table (vol s') d \<longrightarrow> 2 \<le> d \<longrightarrow> fat_entry d (vol s') \<noteq> 0)"
        using full same_consts_in_table [OF sc'] write_entry_other [OF w1(2) _ r] by (simp add: vol')
      show "read_sector (vn_dir_lba node) (vol s') = update_direntry (unat (vn_dir_index node)) (ucast (vn_inode node'))
          (vn_size node') (read_sector (vn_dir_lba node) (vol s))"
        unfolding n1(1) by (simp add: vol' read_sector_def write_sector_def)
      show "file_chain (vol s') d ds \<and> file_data (vol s') ds = file_data (vol s) ds"
        if "file_chain (vol s) d ds" "set ds \<inter> set cs = {}" "foreign (vol s) ds (vn_dir_lba node)" for d ds
      proof -
        note f = foreign_file [OF w fn(1,2) that(1,2)]
        have fo': "foreign st1 ds (vn_dir_lba node)" using that(3) foreign_consts [OF w1(1)] by simp
        have sp0: "0 < spc st1" using sp fn(2) by simp
        have "spc (vol s') = spc (vol s)" using sc' sp by (simp add: same_consts_def)
        moreover have "file_byte (vol s') ds k = file_byte (vol s) ds k" if "k < cbytes (vol s) * length ds" for k
          unfolding vol' using foreign_write(2) [OF w1(2) sp0 f(1) fo', of k] f(2) that sp by simp
        moreover have "file_chain (vol s') d ds"
          unfolding vol' by (rule foreign_write(1) [OF w1(2) sp0 f(1) fo'])
        ultimately show ?thesis by (auto simp: file_data_def)
      qed
    qed (use n1 n2 len in auto)
  qed
qed

text \<open>
  C9. Writing \<open>sz\<close> bytes at an offset returns the number of bytes written, \<open>sz\<close> unless the volume is full,
  and reading them back through the updated node gives exactly the bytes that were written.
\<close>

theorem fat16_write_then_read:
  assumes "writable s node cs bs" "write_fits offset sz buf"
  shows "\<exists>n node' s'. fat16_vfs_write node offset sz buf s = Some (sint n, node', s') \<and> n \<le> sz
    \<and> (n < sz \<longrightarrow> (\<forall>d. in_table (vol s') d \<longrightarrow> 2 \<le> d \<longrightarrow> fat_entry d (vol s') \<noteq> 0))
    \<and> heap_has (heap s') bs
    \<and> (0 < n \<longrightarrow> (\<exists>s''. fat16_vfs_read node' offset n s' = Some (sint n, take (unat n) buf, s'') \<and> vol s'' = vol s'))"
proof (rule write_result [OF assms])
  fix n node' s' cs'
  assume run: "fat16_vfs_write node offset sz buf s = Some (sint n, node', s')" "n \<le> sz"
    and c: "cs' \<noteq> []" "file_chain (vol s') (ucast (vn_inode node')) cs'" "2 \<le> (ucast (vn_inode node') :: u16)"
    and sz': "vn_size node' = max (vn_size node) (offset + n)" and v: "same_consts (vol s) (vol s')" "layout (vol s')"
    and hi: "0 < n \<longrightarrow> unat offset + unat n \<le> cbytes (vol s) * length cs'" and len: "length cs \<le> length cs'"
    and new: "\<And>k. unat offset \<le> k \<Longrightarrow> k < unat offset + unat n \<Longrightarrow> file_byte (vol s') cs' k = buf ! (k - unat offset)"
    and h: "heap_has (heap s') bs" and full: "n < sz \<longrightarrow> (\<forall>d. in_table (vol s') d \<longrightarrow> 2 \<le> d \<longrightarrow> fat_entry d (vol s') \<noteq> 0)"
  have fn: "0 < spc (vol s)" "unat (vn_size node) \<le> cbytes (vol s) * length cs" "unat (vn_size node) + 130560 < 4294967296"
    and cb: "cluster_buffer s bs" using assms(1) by (simp_all add: writable_def file_node_def)
  have ft: "unat offset + unat sz + 130560 < 4294967296" "unat sz \<le> length buf" using assms(2) by (simp_all add: write_fits_def)
  have n: "unat n \<le> unat sz" using run(2) by (simp add: word_le_nat_alt)
  have on: "unat (offset + n) = unat offset + unat n" using n ft(1) by (intro unat_add_u32) linarith
  have usz: "unat (vn_size node') = max (unat (vn_size node)) (unat offset + unat n)"
    using on by (auto simp: sz' max_def word_le_nat_alt)
  have sp: "spc (vol s') = spc (vol s)" "bpb (vol s') = bpb (vol s)" using v(1) by (simp_all add: same_consts_def)
  have "\<exists>s''. fat16_vfs_read node' offset n s' = Some (sint n, take (unat n) buf, s'') \<and> vol s'' = vol s'" if n0: "0 < n"
  proof -
    have le: "cbytes (vol s) * length cs \<le> cbytes (vol s) * length cs'" using len by (intro mult_le_mono2)
    have "unat (vn_size node') \<le> cbytes (vol s) * length cs'" 
      unfolding usz using hi n0 le_trans [OF fn(2) le] by simp
    then have fn': "file_node (vol s') node' cs'"
      using c v(2) fn(1,3) n ft(1) by (simp add: file_node_def node_chain_def sp usz not_less [symmetric])
    have off: "offset < vn_size node'" using n0 usz by (simp add: word_less_nat_alt)
    have m: "unat n = min (unat n) (unat (vn_size node') - unat offset)" using usz by simp
    have "take (unat n) (drop (unat offset) (file_data (vol s') cs')) = map (file_byte (vol s') cs') [unat offset..<unat offset + unat n]"
      using hi n0 sp by (intro file_data_slice) simp
    also have "\<dots> = take (unat n) buf"
      by (rule nth_equalityI) (use new n ft(2) in auto)
    finally have t: "take (unat n) (drop (unat offset) (file_data (vol s') cs')) = take (unat n) buf" .
    show ?thesis
      by (rule read_returns [OF fn' off cluster_buffer_kept [OF cb h sp(2)] m]) (use t in auto)
  qed
  then show ?thesis using run full h by blast
qed

lemma demo_writable: "writable demo_fs demo_node [2] [(0xFFFF0, True)]"
proof -
  have "lba28 3 = 3" by (simp add: lba28_def)
  then show ?thesis
    by (simp add: writable_def demo_fs_facts dir_sector_def demo_one_facts) (simp add: demo_node_def)
qed

lemma fat16_write_then_read_witness:
  "\<exists>n node' s'. fat16_vfs_write demo_node 2 3 [7, 8, 9] demo_fs = Some (sint n, node', s')
    \<and> (0 < n \<longrightarrow> (\<exists>s''. fat16_vfs_read node' 2 n s' = Some (sint n, take (unat n) [7, 8, 9], s'')))"
proof -
  have "write_fits 2 3 [7, 8, 9]" by (simp add: write_fits_def)
  from fat16_write_then_read [OF demo_writable this] show ?thesis by blast
qed

text \<open>
  C34. A write keeps the bytes of the file outside the range written, records size and first cluster in the
  file's directory entry and in no other slot of its sector, and leaves every other file's chain and contents alone. Every directory of the volume, the root
  and the subdirectories, keeps its sectors and each of its slots but that one; what the theorem leaves out are file and directory chains that share
  clusters with the file, on a damaged volume.
\<close>

theorem fat16_write_frame:
  assumes "writable s node cs bs" "write_fits offset sz buf"
  shows "\<exists>n node' s' cs'. fat16_vfs_write node offset sz buf s = Some (sint n, node', s')
    \<and> file_chain (vol s') (ucast (vn_inode node')) cs' \<and> vn_size node' = max (vn_size node) (offset + n)
    \<and> (\<forall>k < cbytes (vol s) * length cs. k < unat offset \<or> unat offset + unat n \<le> k \<longrightarrow>
         file_byte (vol s') cs' k = file_byte (vol s) cs k)
    \<and> (\<forall>i. direntry_at (read_sector (vn_dir_lba node) (vol s')) i =
         (if i = unat (vn_dir_index node)
          then (direntry_at (read_sector (vn_dir_lba node) (vol s)) i)
                 \<lparr>de_first_cluster := ucast (vn_inode node'), de_file_size := vn_size node'\<rparr>
          else direntry_at (read_sector (vn_dir_lba node) (vol s)) i))
    \<and> (\<forall>d ds. file_chain (vol s) d ds \<longrightarrow> set ds \<inter> set cs = {} \<longrightarrow> foreign (vol s) ds (vn_dir_lba node) \<longrightarrow>
         file_chain (vol s') d ds \<and> file_data (vol s') ds = file_data (vol s) ds)
    \<and> (\<forall>inode lbas. directory (vol s) inode lbas \<longrightarrow> (\<forall>l \<in> set lbas. foreign (vol s) cs l) \<longrightarrow>
         directory (vol s') inode lbas \<and> slots (vol s') lbas =
           map (\<lambda>(l, i, e). (l, i, if lba28 l = lba28 (vn_dir_lba node) \<and> i = unat (vn_dir_index node)
             then e\<lparr>de_first_cluster := ucast (vn_inode node'), de_file_size := vn_size node'\<rparr> else e)) (slots (vol s) lbas))"
proof (rule write_result [OF assms], intro exI conjI allI impI)
  fix n node' s' cs' i
  assume "read_sector (vn_dir_lba node) (vol s') = update_direntry (unat (vn_dir_index node)) (ucast (vn_inode node'))
      (vn_size node') (read_sector (vn_dir_lba node) (vol s))"
  then show "direntry_at (read_sector (vn_dir_lba node) (vol s')) i =
         (if i = unat (vn_dir_index node)
          then (direntry_at (read_sector (vn_dir_lba node) (vol s)) i)
                 \<lparr>de_first_cluster := ucast (vn_inode node'), de_file_size := vn_size node'\<rparr>
          else direntry_at (read_sector (vn_dir_lba node) (vol s)) i)"
    by (simp add: update_direntry_at)
qed (assumption | blast)+

lemma fat16_write_frame_witness:
  "\<exists>(n :: u32) node' s' cs'. fat16_vfs_write demo_node 2 3 [7, 8, 9] demo_fs = Some (sint n, node', s')
    \<and> file_byte (vol s') cs' 0 = 0 \<and> de_file_size (direntry_at (read_sector 3 (vol s')) 0) = vn_size node'"
proof -
  have "write_fits 2 3 [7, 8, 9]" by (simp add: write_fits_def)
  from fat16_write_frame [OF demo_writable this] obtain n :: u32 and node' s' cs' where
    r: "fat16_vfs_write demo_node 2 3 [7, 8, 9] demo_fs = Some (sint n, node', s')"
    and k: "\<forall>k < cbytes (vol demo_fs) * length [2 :: u16]. k < unat (2 :: u32) \<or> unat (2 :: u32) + unat n \<le> k \<longrightarrow>
      file_byte (vol s') cs' k = file_byte (vol demo_fs) [2] k"
    and d: "\<forall>i. direntry_at (read_sector (vn_dir_lba demo_node) (vol s')) i = (if i = unat (vn_dir_index demo_node)
      then (direntry_at (read_sector (vn_dir_lba demo_node) (vol demo_fs)) i)
        \<lparr>de_first_cluster := ucast (vn_inode node'), de_file_size := vn_size node'\<rparr>
      else direntry_at (read_sector (vn_dir_lba demo_node) (vol demo_fs)) i)"
    by (elim exE conjE) (rule that; assumption)
  have "file_byte (vol s') cs' 0 = 0" using k demo_file_data [of 0] by (simp add: demo_fs_facts demo_one_facts)
  moreover have "de_file_size (direntry_at (read_sector 3 (vol s')) 0) = vn_size node'"
    using spec [OF d, of 0] by (simp add: demo_node_def)
  ultimately show ?thesis using r by blast
qed

section \<open>Names and directories\<close>

text \<open>
  A name of the 8.3 form is stored in two padded fields from which the listing prints it back in
  capitals, and a lookup by that name, in any case, matches.
\<close>

theorem name_83_roundtrip:
  assumes "plain_83 b x"
  shows "\<exists>n f. format_name_83 (join_83 b x) = Some (n, f) \<and> length n = 8 \<and> length f = 3
    \<and> (\<forall>e. de_name e = n \<longrightarrow> de_ext e = f \<longrightarrow>
         format_83 e = map upper_83 (join_83 b x) \<and> name_match e (join_83 b x))"
  using format_name_plain [OF assms] format_83_plain [OF assms] name_match_plain [OF assms] by simp

lemma plain_demo: "plain_83 (str ''kernel'') (str ''elf'')"
  by (simp add: plain_83_def str_def)

lemma name_83_roundtrip_witness:
  "\<exists>n f. format_name_83 (join_83 (str ''kernel'') (str ''elf'')) = Some (n, f)
    \<and> (\<forall>e. de_name e = n \<longrightarrow> de_ext e = f \<longrightarrow> format_83 e = str ''KERNEL.ELF'')"
proof -
  have "map upper_83 (join_83 (str ''kernel'') (str ''elf'')) = str ''KERNEL.ELF''"
    by (simp add: join_83_def str_def upper_83_def)
  then show ?thesis using name_83_roundtrip [OF plain_demo] by auto
qed

lemma directory_length:
  assumes "directory st inode lbas" "layout st"
  shows "16 * length lbas < 4294967296"
proof (cases "inode = 0")
  case True
  then show ?thesis using assms layout_bounds(3) [OF assms(2)] by (simp add: directory_def)
next
  case False
  then obtain cs where cs: "chain (\<lambda>c. fat_entry c st) (ucast inode) cs" "lbas = concat (map (cluster_sectors st) cs)"
    using assms(1) by (auto simp: directory_def)
  have "length lbas = spc st * length cs"
    unfolding cs(2) by (induction cs) (simp_all add: cluster_sectors_def)
  moreover have "spc st * length cs \<le> 255 * 65536"
    using chain_length_le [OF cs(1)] by (intro mult_le_mono) simp_all
  ultimately show ?thesis by linarith
qed

text \<open>
  \<open>readdir\<close> called with 0, 1, 2, ... enumerates exactly the entries of the directory that are neither
  deleted, nor volume labels or parts of long names, nor the dot entries, in the order of the disk.
\<close>

theorem fat16_readdir_lists:
  assumes "layout (vol s)" "0 < spc (vol s)" "directory (vol s) (vn_inode node) lbas"
  shows "fat16_vfs_readdir node index s =
    (let es = listed (slots (vol s) lbas) in
     if unat index < length es
     then (let e = es ! unat index;
               d = \<lparr>vd_name = format_83 e, vd_inode = ucast (de_first_cluster e),
                 vd_flags = (if de_attributes e AND FAT16_ATTR_DIRECTORY \<noteq> 0 then VFS_DIR else VFS_FILE)\<rparr>
           in Some (Some d, s\<lparr>fat16_dirent_buf := d\<rparr>))
     else Some (None, s))"
proof -
  note ds = directory_sectors [OF assms]
  have "mounted (vol s)" using assms(1) by (simp add: layout_def)
  then show ?thesis
    using readdir_slots [OF ds(1) directory_length [OF assms(3,1)], of index]
    by (simp add: fat16_vfs_readdir_def Let_def)
qed

lemma demo_root: "directory demo_one 0 [3]"
  by (simp add: directory_def demo_one_def frame_simps)

lemma demo_root_sector: "read_sector 3 demo_one = (\<lambda>_. 0)"
proof -
  have l: "lba28 3 = 3" by (simp add: lba28_def)
  have "read_sector 3 demo_one = read_sector 3 demo_vol"
    unfolding demo_one_def using demo_layout by (rule set_entry_read) (simp_all add: demo_in_table l)
  then show ?thesis using demo_sector [of 3] by (simp add: read_sector_def l)
qed

lemma demo_slots: "slots demo_one [3] = map (\<lambda>i. (3, i, direntry_at (\<lambda>_. 0) i)) [0..<16]"
  by (simp add: slots_def sector_slots_def demo_root_sector)

lemma demo_live: "live (slots demo_one [3]) = []"
proof -
  have "[0..<16] = 0 # [Suc 0..<16]" by (simp add: upt_conv_Cons)
  then show ?thesis unfolding demo_slots by (simp add: live_Cons skip_entry_def direntry_first)
qed

lemma fat16_readdir_lists_witness: "fat16_vfs_readdir fat16_root_node 0 demo_fs = Some (None, demo_fs)"
  using fat16_readdir_lists [of demo_fs fat16_root_node "[3]" 0] demo_one_facts(1,5) demo_root demo_live
  by (simp add: demo_fs_facts fat16_root_node_def listed_def)

text \<open>
  C11. Creating a file in a directory with a free slot and no entry of that name returns a node for it: an
  empty file whose name reads back in capitals, found at the slot its entry was written to; lookups
  of other names give what they gave before.
\<close>

theorem fat16_create_then_find:
  assumes "layout (vol s)" "0 < spc (vol s)" "directory (vol s) (vn_inode node) lbas"
    and "plain_83 b x" "hd b \<noteq> 0xE5" "flags AND VFS_DIR = 0"
    and "find (\<lambda>(lba, i, d). free_entry_slot d) (slots (vol s) lbas) = Some (lba, i, d)"
    and "find_from (vn_inode node) (join_83 b x) 0 (vol s) = Some None"
    and "heap_has (heap s) bs" "(t, True) \<in> set bs" "sizeof_vfs_node \<le> t"
  shows "\<exists>p s'. fat16_vfs_create node (join_83 b x) flags s = Some (p, s') \<and> p \<noteq> 0
    \<and> nodes s' p = \<lparr>vn_name = map upper_83 (join_83 b x), vn_flags = VFS_FILE, vn_size = 0, vn_inode = 0,
         vn_ops = fat16_file_ops, vn_dir_lba = lba, vn_dir_index = of_nat i\<rparr>
    \<and> directory (vol s') (vn_inode node) lbas
    \<and> (\<forall>m. ended (slots (vol s) lbas) \<longrightarrow> strcasecmp (map upper_83 (join_83 b x)) m \<noteq> 0 \<longrightarrow>
         find_from (vn_inode node) m 0 (vol s') = find_from (vn_inode node) m 0 (vol s))"
proof (rule write_dir_entry_find [OF assms(1-5) _ _ assms(7), of FAT16_ATTR_ARCHIVE 0 0])
  show "FAT16_ATTR_ARCHIVE \<noteq> FAT16_ATTR_LFN" "FAT16_ATTR_ARCHIVE AND FAT16_ATTR_VOLUME_ID = 0"
    by (simp_all add: FAT16_ATTR_ARCHIVE_def FAT16_ATTR_LFN_def FAT16_ATTR_VOLUME_ID_def)
next
  fix e st'
  assume w: "fat16_write_dir_entry (vn_inode node) (join_83 b x) 0 0 FAT16_ATTR_ARCHIVE (vol s) = Some (True, st')"
    and e: "de_attributes e = FAT16_ATTR_ARCHIVE" "de_first_cluster e = 0" "de_file_size e = 0"
      "format_83 e = map upper_83 (join_83 b x)"
    and st': "directory st' (vn_inode node) lbas" "layout st'"
    and f: "find_from (vn_inode node) (join_83 b x) 0 (vol s) = Some None \<Longrightarrow>
      find_from (vn_inode node) (join_83 b x) 0 st' = Some (Some (lba, i, e))"
    and o: "\<And>n. ended (slots (vol s) lbas) \<Longrightarrow> \<not> name_match e n \<Longrightarrow>
      find_from (vn_inode node) n 0 st' = find_from (vn_inode node) n 0 (vol s)"
  have nd: "node_of lba i e = \<lparr>vn_name = map upper_83 (join_83 b x), vn_flags = VFS_FILE, vn_size = 0, vn_inode = 0,
      vn_ops = fat16_file_ops, vn_dir_lba = lba, vn_dir_index = of_nat i\<rparr>"
    using e by (simp add: node_of_def FAT16_ATTR_ARCHIVE_def FAT16_ATTR_DIRECTORY_def)
  have m: "mounted (vol s)" "mounted st'" using assms(1) st'(2) by (simp_all add: layout_def)
  obtain p k where k: "kmalloc sizeof_vfs_node (heap s) = Some (p, k)" "p \<noteq> 0"
    by (rule heap_has_buffer [OF assms(9-11)])
  define s' where "s' = s\<lparr>vol := st', heap := k, nodes := (nodes s)(p := node_of lba i e)\<rparr>"
  have "fat16_vfs_create node (join_83 b x) flags s = Some (p, s')"
    using m w assms(6) f [OF assms(8)] k
    by (simp add: fat16_vfs_create_def create_entry_def fat16_vfs_finddir_def fs_kmalloc_def s'_def)
  moreover have "nodes s' p = node_of lba i e" "vol s' = st'" by (simp_all add: s'_def)
  ultimately show ?thesis using k(2) nd st'(1) o e(4) by (auto simp: name_match_def)
qed

lemma fat16_create_then_find_witness:
  "\<exists>p s'. fat16_vfs_create fat16_root_node (join_83 (str ''kernel'') (str ''elf'')) VFS_FILE demo_fs = Some (p, s')
    \<and> p \<noteq> 0 \<and> vn_name (nodes s' p) = map upper_83 (join_83 (str ''kernel'') (str ''elf'')) \<and> vn_size (nodes s' p) = 0"
proof -
  have "[0..<16] = 0 # [Suc 0..<16]" by (simp add: upt_conv_Cons)
  then have fr: "find (\<lambda>(lba, i, d). free_entry_slot d) (slots (vol demo_fs) [3]) = Some (3, 0, direntry_at (\<lambda>_. 0) 0)"
    by (simp add: demo_fs_facts demo_slots free_entry_slot_def direntry_first)
  have nf: "find_from (vn_inode fat16_root_node) (join_83 (str ''kernel'') (str ''elf'')) 0 (vol demo_fs) = Some None"
    using find_slots [OF directory_sectors(1) [OF demo_one_facts(1) _ demo_root]] demo_live
    by (simp add: demo_fs_facts demo_one_facts fat16_root_node_def)
  have "layout (vol demo_fs)" "0 < spc (vol demo_fs)" "directory (vol demo_fs) (vn_inode fat16_root_node) [3]"
    using demo_one_facts(1,5) demo_root by (simp_all add: demo_fs_facts fat16_root_node_def)
  from fat16_create_then_find [OF this plain_demo _ _ fr nf, of VFS_FILE "[(0xFFFF0, True)]" "0xFFFF0"] show ?thesis
    using demo_heap by (auto simp: demo_fs_facts VFS_FILE_def VFS_DIR_def sizeof_vfs_node_def str_def)
qed

end
