(* ===== verification/Elf.thy ===== *)
theory Elf
  imports Machine Fat16_Correct
begin

text \<open>
  The program loader \<^verbatim>\<open>kernel/elf.c\<close>: the headers read from the file, the pages of each segment, the copy
  of its bytes through the page walk, and the zeroed rest. The kernel's own memory is modelled apart
  from the page walk, so the model is true to segments that stay clear of the kernel's pages; the
  code checks no address. A program that faults the kernel while it is loaded has the value
  \<open>None\<close>.
\<close>

section \<open>Headers\<close>

definition u16_at :: "bytes \<Rightarrow> nat \<Rightarrow> u16" where
  "u16_at b i = ucast (b ! i) OR push_bit 8 (ucast (b ! (i + 1)))"

definition u32_at :: "bytes \<Rightarrow> nat \<Rightarrow> u32" where
  "u32_at b i = ucast (b ! i) OR push_bit 8 (ucast (b ! (i + 1)))
     OR push_bit 16 (ucast (b ! (i + 2))) OR push_bit 24 (ucast (b ! (i + 3)))"

record Elf32_Ehdr =
  e_ident :: bytes
  e_type :: u16
  e_machine :: u16
  e_entry :: u32
  e_phoff :: u32
  e_phentsize :: u16
  e_phnum :: u16

definition sizeof_Ehdr :: u32 where "sizeof_Ehdr = 52"

definition ehdr_of :: "bytes \<Rightarrow> Elf32_Ehdr" where
  "ehdr_of b = \<lparr>e_ident = take 16 b, e_type = u16_at b 16, e_machine = u16_at b 18, e_entry = u32_at b 24,
     e_phoff = u32_at b 28, e_phentsize = u16_at b 42, e_phnum = u16_at b 44\<rparr>"

record Elf32_Phdr =
  p_type :: u32
  p_offset :: u32
  p_vaddr :: u32
  p_filesz :: u32
  p_memsz :: u32

definition sizeof_Phdr :: u32 where "sizeof_Phdr = 32"

definition phdr_of :: "bytes \<Rightarrow> Elf32_Phdr" where
  "phdr_of b = \<lparr>p_type = u32_at b 0, p_offset = u32_at b 4, p_vaddr = u32_at b 8, p_filesz = u32_at b 16,
     p_memsz = u32_at b 20\<rparr>"

definition ET_EXEC :: u16 where "ET_EXEC = 2"
definition EM_386 :: u16 where "EM_386 = 3"
definition PT_LOAD :: u32 where "PT_LOAD = 1"

definition ELF_MAGIC :: bytes where "ELF_MAGIC = [0x7F, 0x45, 0x4C, 0x46]"

section \<open>Loading\<close>

text \<open>The pages of a segment; \<open>pages\<close> is the list of the caller, of at most \<open>mx\<close> entries.\<close>

partial_function (option) map_segment ::
    "'s ports \<Rightarrow> u32 \<Rightarrow> u32 \<Rightarrow> nat \<Rightarrow> u32 list \<Rightarrow> 's kernel \<Rightarrow> (bool \<times> u32 list \<times> 's kernel) option" where
  "map_segment io vaddr seg_end mx pages k =
     (if vaddr < seg_end
      then do {
        (r, k) \<leftarrow> kalloc_page vaddr k;
        if r = 0 then do { k \<leftarrow> kprintf io (str ''[ELF] out of memory'' @ [0x0A]) [] k; Some (False, pages, k) }
        else map_segment io (vaddr + PAGE_SIZE) seg_end mx (if length pages < mx then pages @ [vaddr] else pages) k }
      else Some (True, pages, k))"

partial_function (option) copy_segment ::
    "u32 \<Rightarrow> u32 \<Rightarrow> u32 \<Rightarrow> u32 \<Rightarrow> u32 \<Rightarrow> 's kernel \<Rightarrow> (bool \<times> 's kernel) option" where
  "copy_segment file offset vaddr remaining read_off k =
     (if remaining > 0
      then (let chunk = (if remaining < 512 then remaining else 512) in do {
        (got, buf, k) \<leftarrow> kread file (offset + read_off) chunk k;
        if got \<le> 0 then Some (False, k)
        else do {
          k \<leftarrow> on_vmem (store_bytes (vaddr + read_off) (take (nat got) buf)) k;
          copy_segment file offset vaddr (remaining - of_int got) (read_off + of_int got) k } })
      else Some (True, k))"

definition load_segment ::
    "'s ports \<Rightarrow> u32 \<Rightarrow> Elf32_Phdr \<Rightarrow> nat \<Rightarrow> u32 list \<Rightarrow> 's kernel \<Rightarrow> (bool \<times> u32 list \<times> 's kernel) option" where
  "load_segment io file ph mx pages k = do {
     let seg_start = p_vaddr ph AND NOT (PAGE_SIZE - 1);
     let seg_end = (p_vaddr ph + p_memsz ph + PAGE_SIZE - 1) AND NOT (PAGE_SIZE - 1);
     (ok, pages, k) \<leftarrow> map_segment io seg_start seg_end mx pages k;
     if \<not> ok then Some (False, pages, k)
     else do {
       (ok, k) \<leftarrow> copy_segment file (p_offset ph) (p_vaddr ph) (p_filesz ph) 0 k;
       if \<not> ok then Some (False, pages, k)
       else if p_memsz ph > p_filesz ph
       then do {
         k \<leftarrow> on_vmem (zero_bytes (p_vaddr ph + p_filesz ph) (unat (p_memsz ph - p_filesz ph))) k;
         Some (True, pages, k) }
       else Some (True, pages, k) } }"

text \<open>The loop over the program headers \<open>i, i + 1, \<dots>\<close>, \<open>n\<close> of them left.\<close>

fun load_segments ::
    "'s ports \<Rightarrow> u32 \<Rightarrow> Elf32_Ehdr \<Rightarrow> nat \<Rightarrow> nat \<Rightarrow> nat \<Rightarrow> u32 list \<Rightarrow> 's kernel \<Rightarrow> (bool \<times> u32 list \<times> 's kernel) option" where
  "load_segments io file eh 0 i mx pages k = Some (True, pages, k)"
| "load_segments io file eh (Suc n) i mx pages k = do {
     let off = e_phoff eh + of_nat i * ucast (e_phentsize eh);
     (r, b, k) \<leftarrow> kread file off sizeof_Phdr k;
     if r \<noteq> sint sizeof_Phdr then Some (False, pages, k)
     else if p_type (phdr_of b) \<noteq> PT_LOAD \<or> p_memsz (phdr_of b) = 0
     then load_segments io file eh n (i + 1) mx pages k
     else do {
       (ok, pages, k) \<leftarrow> load_segment io file (phdr_of b) mx pages k;
       if \<not> ok then Some (False, pages, k) else load_segments io file eh n (i + 1) mx pages k } }"

text \<open>The entry point or 0, the list of pages and the kernel.\<close>

definition elf_load :: "'s ports \<Rightarrow> u32 \<Rightarrow> u32 list \<Rightarrow> nat \<Rightarrow> 's kernel \<Rightarrow> (u32 \<times> u32 list \<times> 's kernel) option" where
  "elf_load io file pages mx k = do {
     (r, b, k) \<leftarrow> kread file 0 sizeof_Ehdr k;
     if r \<noteq> sint sizeof_Ehdr then Some (0, pages, k)
     else do {
       let eh = ehdr_of b;
       if take 4 (e_ident eh) \<noteq> ELF_MAGIC
       then do { k \<leftarrow> kprintf io (str ''[ELF] bad magic'' @ [0x0A]) [] k; Some (0, pages, k) }
       else if e_type eh \<noteq> ET_EXEC \<or> e_machine eh \<noteq> EM_386
       then do { k \<leftarrow> kprintf io (str ''[ELF] not an x86 executable'' @ [0x0A]) [] k; Some (0, pages, k) }
       else do {
         (ok, pages, k) \<leftarrow> load_segments io file eh (unat (e_phnum eh)) 0 mx pages k;
         Some (if ok then e_entry eh else 0, pages, k) } } }"

section \<open>Reading a file\<close>

text \<open>
  What a client relies on when it reads a file: \<open>contents_of s f data\<close> says that the node \<open>f\<close> has the contents \<open>data\<close>.
\<close>

locale readable =
  fixes read :: "'f \<Rightarrow> u32 \<Rightarrow> u32 \<Rightarrow> 's \<Rightarrow> (int \<times> 'b list \<times> 's) option" and contents_of :: "'s \<Rightarrow> 'f \<Rightarrow> 'b list \<Rightarrow> bool"
  assumes read_file: "contents_of s f data \<Longrightarrow> unat sz < 2147483648 \<Longrightarrow>
    \<exists>s'. read f off sz s = Some (int (length (take (unat sz) (drop (unat off) data))), take (unat sz) (drop (unat off) data), s')
      \<and> contents_of s' f data"
begin

lemma read_exact:
  assumes "contents_of s f data" "unat sz < 2147483648" "unat off + unat sz \<le> length data"
  shows "\<exists>s'. read f off sz s = Some (int (unat sz), take (unat sz) (drop (unat off) data), s') \<and> contents_of s' f data"
  using read_file [OF assms(1,2), of off] assms(3) by simp

lemma read_end:
  assumes "contents_of s f data" "unat sz < 2147483648" "length data \<le> unat off"
  shows "\<exists>s'. read f off sz s = Some (0, [], s') \<and> contents_of s' f data"
  using read_file [OF assms(1,2), of off] assms(3) by simp

end

text \<open>A node of a file of the volume, with room in the heap for a buffer; \<open>ps\<close> are the pointers the heap has handed out.\<close>

definition is_file :: "u32 set \<Rightarrow> fs \<Rightarrow> u32 \<Rightarrow> bytes \<Rightarrow> bool" where
  "is_file ps s f data \<longleftrightarrow> f \<noteq> 0 \<and> vn_flags (nodes s f) AND VFS_FILE \<noteq> 0 \<and> has_read_write (vn_ops (nodes s f))
     \<and> (\<exists>cs bs. file_node (vol s) (nodes s f) cs \<and> cluster_buffer s bs
          \<and> ps = used_ptrs (heap_start_ptr (heap s)) bs \<and> data = take (unat (vn_size (nodes s f))) (file_data (vol s) cs))"

lemma file_data_length: "length (file_data st cs) = cbytes st * length cs"
  by (simp add: file_data_def)

lemma read_heap_start:
  assumes "fat16_vfs_read node off sz s = Some (r, out, s')"
  shows "heap_start_ptr (heap s') = heap_start_ptr (heap s)"
proof -
  have m: "heap_start_ptr k' = heap_start_ptr k" if "kmalloc n k = Some (p, k')" for n k p k'
    using that by (auto simp: kmalloc_def split: if_splits)
  show ?thesis using assms unfolding fat16_vfs_read_def Let_def
    by (auto simp: fs_kmalloc_def fs_kfree_def kfree_start dest!: m split: if_splits option.splits bind_splits)
qed

lemma vfs_read_file:
  assumes f: "is_file ps s f data" and sz: "unat sz < 2147483648"
  shows "\<exists>s'. vfs_read f off sz s = Some (int (length (take (unat sz) (drop (unat off) data))), take (unat sz) (drop (unat off) data), s')
      \<and> is_file ps s' f data"
proof -
  obtain cs bs where c: "file_node (vol s) (nodes s f) cs" "cluster_buffer s bs"
      "ps = used_ptrs (heap_start_ptr (heap s)) bs" "data = take (unat (vn_size (nodes s f))) (file_data (vol s) cs)"
    using f by (auto simp: is_file_def)
  define m where "m = min (unat sz) (unat (vn_size (nodes s f)) - unat off)"
  obtain s' where s': "fat16_vfs_read (nodes s f) off sz s = Some (sint (of_nat m :: u32), take m (drop (unat off) (file_data (vol s) cs)), s')"
      "vol s' = vol s" "nodes s' = nodes s" "heap_has (heap s') bs"
    using read_contents [OF c(1,2), of off sz] by (auto simp: m_def)
  have ln: "unat (vn_size (nodes s f)) \<le> length (file_data (vol s) cs)"
    using c(1) by (simp add: file_node_def file_data_length)
  have out: "take m (drop (unat off) (file_data (vol s) cs)) = take (unat sz) (drop (unat off) data)"
    by (simp add: c(4) m_def drop_take)
  have lm: "length (take (unat sz) (drop (unat off) data)) = m"
    using ln by (auto simp: c(4) m_def)
  have "sint (of_nat m :: u32) = int m"
  proof -
    have "m < 2147483648" using sz by (simp add: m_def)
    then have "signed_take_bit 31 (int m) = int m" by (intro signed_take_bit_int_eq_self) simp_all
    then show ?thesis by (simp add: signed_of_nat)
  qed
  moreover have "cluster_buffer s' bs" using c(2) s' by (simp add: cluster_buffer_def)
  moreover have "heap_start_ptr (heap s') = heap_start_ptr (heap s)" by (rule read_heap_start [OF s'(1)])
  ultimately show ?thesis
    using f s' out lm c unfolding is_file_def vfs_read_def by auto
qed

interpretation rf: readable vfs_read "is_file ps" for ps
  by unfold_locales (use vfs_read_file in blast)

lemma kread_file:
  assumes "is_file ps (files k) f data" "unat sz < 2147483648" "unat off + unat sz \<le> length data"
  obtains s where "kread f off sz k = Some (int (unat sz), take (unat sz) (drop (unat off) data), k\<lparr>files := s\<rparr>)" "is_file ps s f data"
  using rf.read_exact [OF assms] that by (force simp: kread_def)

lemma is_file_owned: "is_file ps s f data \<Longrightarrow> owned (heap s) ps"
  by (auto simp: is_file_def cluster_buffer_def heap_has_owned)

lemma is_file_length: "is_file ps s f data \<Longrightarrow> length data < 4294967296"
  by (auto simp: is_file_def intro!: min.strict_coboundedI2)

section \<open>The pages of a segment\<close>

fun pages_from :: "u32 \<Rightarrow> nat \<Rightarrow> u32 list" where
  "pages_from v 0 = []"
| "pages_from v (Suc n) = v # pages_from (v + PAGE_SIZE) n"

definition page_count :: "Elf32_Phdr \<Rightarrow> nat" where
  "page_count ph = (unat (p_vaddr ph) + unat (p_memsz ph) + 4095) div 4096 - unat (p_vaddr ph) div 4096"

definition seg_pages :: "Elf32_Phdr \<Rightarrow> u32 list" where
  "seg_pages ph = pages_from (ENTRY_GET_FRAME (p_vaddr ph)) (page_count ph)"

lemma frame_unat: "unat (ENTRY_GET_FRAME v) = 4096 * (unat v div 4096)"
  by (simp add: unat_ENTRY_GET_FRAME minus_mod_eq_mult_div)

lemma page_unat: "PAGE_OFFSET v = 0 \<longleftrightarrow> unat v = 4096 * (unat v div 4096)"
proof
  assume "PAGE_OFFSET v = 0"
  then show "unat v = 4096 * (unat v div 4096)" using unat_PAGE_OFFSET [of v] by auto
next
  assume "unat v = 4096 * (unat v div 4096)"
  then have "unat v mod 4096 = 0" by (metis mod_mult_self1_is_0)
  then show "PAGE_OFFSET v = 0" using unat_PAGE_OFFSET [of v] by (simp add: word_unat_eq_iff)
qed

lemma page_offset_step: "PAGE_OFFSET v = 0 \<Longrightarrow> PAGE_OFFSET (v + PAGE_SIZE) = 0"
proof -
  assume "PAGE_OFFSET v = 0"
  then have v: "unat v mod 4096 = 0" using unat_PAGE_OFFSET [of v] by simp
  have "unat (v + PAGE_SIZE) = (unat v + 4096) mod 4294967296"
    by (simp add: PAGE_SIZE_def unat_word_ariths)
  then have "unat (v + PAGE_SIZE) mod 4096 = (unat v + 4096) mod 4096"
    by (simp add: mod_mod_cancel)
  then show ?thesis using v unat_PAGE_OFFSET [of "v + PAGE_SIZE"] by (simp add: word_unat_eq_iff)
qed

lemma pages_from_iff:
  "PAGE_OFFSET v = 0 \<Longrightarrow> unat v + 4096 * n \<le> 4294967296 \<Longrightarrow>
    w \<in> set (pages_from v n) \<longleftrightarrow> PAGE_OFFSET w = 0 \<and> unat v \<le> unat w \<and> unat w < unat v + 4096 * n"
proof (induction n arbitrary: v)
  case (Suc n)
  have first: "PAGE_OFFSET w = 0 \<and> unat v \<le> unat w \<and> unat w < unat v + 4096 \<longleftrightarrow> w = v"
  proof -
    have "unat w = unat v" if "PAGE_OFFSET w = 0" "unat v \<le> unat w" "unat w < unat v + 4096"
    proof -
      define a where "a = unat v div 4096"
      define b where "b = unat w div 4096"
      have "unat v = 4096 * a" "unat w = 4096 * b" using Suc.prems(1) that(1) page_unat by (auto simp: a_def b_def)
      moreover have "a \<le> b" "b < a + 1" using calculation that(2,3) by linarith+
      ultimately show ?thesis by simp
    qed
    then show ?thesis using Suc.prems(1) by (metis add_less_cancel_left less_add_same_cancel1 order_refl u32_eq_iff zero_less_numeral)
  qed
  show ?case
  proof (cases n)
    case 0
    then show ?thesis using first by auto
  next
    case (Suc m)
    then have u: "unat (v + PAGE_SIZE) = unat v + 4096" using Suc.prems(2) unfolding PAGE_SIZE_def by (intro unat_plus_numeral) simp
    then have "w \<in> set (pages_from (v + PAGE_SIZE) n) \<longleftrightarrow> PAGE_OFFSET w = 0 \<and> unat v + 4096 \<le> unat w \<and> unat w < unat v + 4096 + 4096 * n"
      using Suc.IH [OF page_offset_step [OF Suc.prems(1)]] Suc.prems(2) by simp
    then show ?thesis using first by auto
  qed
qed simp

lemma pages_from_distinct:
  "PAGE_OFFSET v = 0 \<Longrightarrow> unat v + 4096 * n \<le> 4294967296 \<Longrightarrow> distinct (pages_from v n)"
proof (induction n arbitrary: v)
  case (Suc n)
  show ?case
  proof (cases n)
    case (Suc m)
    then have u: "unat (v + PAGE_SIZE) = unat v + 4096" using Suc.prems(2) unfolding PAGE_SIZE_def by (intro unat_plus_numeral) simp
    then show ?thesis using Suc.IH [OF page_offset_step [OF Suc.prems(1)]] Suc.prems(2)
        pages_from_iff [OF page_offset_step [OF Suc.prems(1)], of n v] by simp
  qed simp
qed simp

definition seg_fits :: "bytes \<Rightarrow> Elf32_Phdr \<Rightarrow> bool" where
  "seg_fits data ph \<longleftrightarrow> p_filesz ph \<le> p_memsz ph \<and> unat (p_offset ph) + unat (p_filesz ph) \<le> length data
     \<and> 4096 \<le> unat (p_vaddr ph) \<and> unat (p_vaddr ph) + unat (p_memsz ph) \<le> 0xFFC00000"

lemma seg_bounds:
  assumes "seg_fits data ph"
  shows "unat (ENTRY_GET_FRAME (p_vaddr ph)) + 4096 * page_count ph \<le> 0xFFC00000"
    "unat ((p_vaddr ph + p_memsz ph + PAGE_SIZE - 1) AND NOT (PAGE_SIZE - 1)) = unat (ENTRY_GET_FRAME (p_vaddr ph)) + 4096 * page_count ph"
    "w \<in> set (seg_pages ph) \<Longrightarrow> user_page w"
    "unat (p_vaddr ph) \<le> unat c \<Longrightarrow> unat c < unat (p_vaddr ph) + unat (p_memsz ph) \<Longrightarrow> ENTRY_GET_FRAME c \<in> set (seg_pages ph)"
    "distinct (seg_pages ph)"
proof -
  define a where "a = unat (p_vaddr ph)"
  define m where "m = unat (p_memsz ph)"
  have b: "4096 \<le> a" "a + m \<le> 4290772992" using assms by (simp_all add: seg_fits_def a_def m_def)
  define q where "q = (a + m + 4095) div 4096"
  have q: "a div 4096 \<le> q" "q \<le> 1047552" "a + m \<le> 4096 * q"
    unfolding q_def using b(2) by (simp_all add: div_le_mono)
  have pc: "4096 * (a div 4096) + 4096 * page_count ph = 4096 * q"
    using q(1) unfolding page_count_def a_def [symmetric] m_def [symmetric] q_def [symmetric] by (simp add: algebra_simps)
  have st: "unat (ENTRY_GET_FRAME (p_vaddr ph)) = 4096 * (a div 4096)" by (simp add: frame_unat a_def)
  show e: "unat (ENTRY_GET_FRAME (p_vaddr ph)) + 4096 * page_count ph \<le> 0xFFC00000"
    unfolding st pc using q(2) by simp
  have "unat (p_vaddr ph + p_memsz ph) = a + m" using b(2) unfolding a_def m_def by (intro unat_add_u32) simp
  then have "unat (p_vaddr ph + p_memsz ph + 4095) = a + m + 4095"
    using b(2) unat_plus_numeral [of "p_vaddr ph + p_memsz ph"] by simp
  moreover have eq: "p_vaddr ph + p_memsz ph + PAGE_SIZE - 1 = p_vaddr ph + p_memsz ph + 4095" by (simp add: PAGE_SIZE_def)
  moreover have fr: "x AND NOT (PAGE_SIZE - 1) = ENTRY_GET_FRAME x" for x by (simp add: PAGE_SIZE_def ENTRY_GET_FRAME_def)
  ultimately show "unat ((p_vaddr ph + p_memsz ph + PAGE_SIZE - 1) AND NOT (PAGE_SIZE - 1))
      = unat (ENTRY_GET_FRAME (p_vaddr ph)) + 4096 * page_count ph"
    unfolding st pc eq fr using frame_unat q_def by simp
  have e': "unat (ENTRY_GET_FRAME (p_vaddr ph)) + 4096 * page_count ph \<le> 4294967296" using e by simp
  note mem = pages_from_iff [OF frame_aligned e', folded seg_pages_def]
  show "distinct (seg_pages ph)" unfolding seg_pages_def by (rule pages_from_distinct [OF frame_aligned e'])
  show "user_page w" if "w \<in> set (seg_pages ph)"
  proof -
    have "PAGE_OFFSET w = 0" "4096 * (a div 4096) \<le> unat w" "unat w < 4096 * q"
      using that mem [of w] unfolding st pc by auto
    moreover have "1 \<le> a div 4096" using b(1) by (simp add: div_greater_zero_iff Suc_le_eq)
    ultimately have "PAGE_OFFSET w = 0" "0 < unat w" "unat w < 4290772992" using q(2) by linarith+
    then show ?thesis by (auto simp: user_page_def word_less_nat_alt)
  qed
  show "ENTRY_GET_FRAME c \<in> set (seg_pages ph)" if "unat (p_vaddr ph) \<le> unat c" "unat c < unat (p_vaddr ph) + unat (p_memsz ph)"
  proof -
    have "a div 4096 \<le> unat c div 4096" using that(1) by (simp add: a_def div_le_mono)
    moreover have "unat c div 4096 < q"
    proof -
      have "unat c < 4096 * q" using that(2) q(3) by (simp add: a_def m_def)
      then show ?thesis by (simp add: less_mult_imp_div_less mult.commute)
    qed
    ultimately show ?thesis using mem [of "ENTRY_GET_FRAME c"] unfolding st pc by (simp add: frame_unat)
  qed
qed

section \<open>Loading a segment\<close>

definition add_pages :: "nat \<Rightarrow> u32 list \<Rightarrow> u32 list \<Rightarrow> u32 list" where
  "add_pages mx pages vs = pages @ take (mx - length pages) vs"

lemma add_pages_step: "add_pages mx (if length pages < mx then pages @ [v] else pages) vs = add_pages mx pages (v # vs)"
  by (auto simp: add_pages_def take_Cons' Suc_diff_Suc)

lemma add_pages_append: "add_pages mx (add_pages mx pages us) vs = add_pages mx pages (us @ vs)"
  by (auto simp: add_pages_def min_def)

lemma map_segment_pages:
  assumes "uspace_from base W (vmem k) V" "\<forall>w \<in> set (pages_from v n). user_page w" "set (pages_from v n) \<inter> V = {}"
    "frames_left (2 * (n + r)) (vpmm (vmem k))" "PAGE_OFFSET v = 0" "unat v + 4096 * n \<le> 0xFFC00000"
    "unat e = unat v + 4096 * n"
  shows "\<exists>st. map_segment io v e mx pages k = Some (True, add_pages mx pages (pages_from v n), k\<lparr>vmem := st\<rparr>)
    \<and> uspace_from base W st (V \<union> set (pages_from v n)) \<and> frames_left (2 * r) (vpmm st)
    \<and> (\<forall>a. ENTRY_GET_FRAME a \<in> V \<longrightarrow> load_byte st a = load_byte (vmem k) a)"
  using assms
proof (induction n arbitrary: v k V pages)
  case 0
  then have "\<not> v < e" by (simp add: word_less_nat_alt)
  then have "map_segment io v e mx pages k = Some (True, add_pages mx pages (pages_from v 0), k\<lparr>vmem := vmem k\<rparr>)"
    by (subst map_segment.simps) (simp add: add_pages_def)
  then show ?case using 0 by (intro exI [of _ "vmem k"]) simp
next
  case (Suc n)
  have lt: "v < e" using Suc.prems(7) by (simp add: word_less_nat_alt)
  have v: "user_page v" "v \<notin> V" using Suc.prems(2,3) by auto
  obtain st1 where st1: "vmm_alloc_page v user_flags (vmem k) = Some (v, st1)" "uspace_from base W st1 (insert v V)"
      "frames_left (2 * (n + r)) (vpmm st1)" "\<forall>a. ENTRY_GET_FRAME a \<in> V \<longrightarrow> load_byte st1 a = load_byte (vmem k) a"
    using grown.map_new [OF Suc.prems(1) v, of "n + r"] Suc.prems(4) by auto
  have u: "unat (v + PAGE_SIZE) = unat v + 4096"
    using Suc.prems(6) unfolding PAGE_SIZE_def by (intro unat_plus_numeral) simp
  have e': "unat v + 4096 * Suc n \<le> 4294967296" using Suc.prems(6) by simp
  have nv: "v \<notin> set (pages_from (v + PAGE_SIZE) n)" using pages_from_distinct [OF Suc.prems(5) e'] by simp
  obtain st where st: "map_segment io (v + PAGE_SIZE) e mx (if length pages < mx then pages @ [v] else pages) (k\<lparr>vmem := st1\<rparr>)
        = Some (True, add_pages mx pages (pages_from v (Suc n)), k\<lparr>vmem := st\<rparr>)"
      "uspace_from base W st (insert v V \<union> set (pages_from (v + PAGE_SIZE) n))" "frames_left (2 * r) (vpmm st)"
      "\<forall>a. ENTRY_GET_FRAME a \<in> insert v V \<longrightarrow> load_byte st a = load_byte st1 a"
    using Suc.IH [of "k\<lparr>vmem := st1\<rparr>" "insert v V" "v + PAGE_SIZE" "if length pages < mx then pages @ [v] else pages"]
      st1(2,3) Suc.prems(2,3,6,7) u nv page_offset_step [OF Suc.prems(5)] by (auto simp: add_pages_step)
  have "v \<noteq> 0" using v(1) by (simp add: user_page_def)
  then have "map_segment io v e mx pages k = Some (True, add_pages mx pages (pages_from v (Suc n)), k\<lparr>vmem := st\<rparr>)"
    using lt st1(1) st(1) by (subst map_segment.simps) (simp add: kalloc_page_def)
  then show ?case using st st1(4) by (auto simp: Un_commute)
qed

text \<open>What a segment puts at the address \<open>c\<close>: bytes of the file, then zeros.\<close>

definition seg_image :: "bytes \<Rightarrow> Elf32_Phdr \<Rightarrow> u32 \<Rightarrow> u8" where
  "seg_image data ph c = (if unat c - unat (p_vaddr ph) < unat (p_filesz ph)
     then data ! (unat (p_offset ph) + (unat c - unat (p_vaddr ph))) else 0)"

definition covers :: "Elf32_Phdr \<Rightarrow> u32 \<Rightarrow> bool" where
  "covers ph c \<longleftrightarrow> unat (p_vaddr ph) \<le> unat c \<and> unat c < unat (p_vaddr ph) + unat (p_memsz ph)"

definition same_room :: "vm \<Rightarrow> vm \<Rightarrow> bool" where
  "same_room st st' \<longleftrightarrow> (\<forall>n. frames_left (2 * n) (vpmm st') = frames_left (2 * n) (vpmm st))"

lemma copy_segment_bytes:
  assumes "is_file ps (files k) f data" "uspace_from base W (vmem k) V"
    "\<And>c. unat va + unat ro \<le> unat c \<Longrightarrow> unat c < unat va + unat ro + unat rm \<Longrightarrow> ENTRY_GET_FRAME c \<in> V"
    "unat off + unat ro + unat rm \<le> length data" "unat va + unat ro + unat rm \<le> 0xFFC00000"
  shows "\<exists>s st. copy_segment f off va rm ro k = Some (True, k\<lparr>files := s, vmem := st\<rparr>) \<and> is_file ps s f data
    \<and> uspace_from base W st V \<and> same_room (vmem k) st
    \<and> (\<forall>c. ENTRY_GET_FRAME c \<in> V \<longrightarrow> load_byte st c =
        (if unat va + unat ro \<le> unat c \<and> unat c < unat va + unat ro + unat rm
         then Some (data ! (unat off + (unat c - unat va))) else load_byte (vmem k) c))"
  using assms
proof (induction "unat rm" arbitrary: rm ro k rule: less_induct)
  case less
  show ?case
  proof (cases "rm > 0")
    case False
    then have "rm = 0" using word_neq_0_conv by blast
    moreover have "\<not> (unat va + unat ro \<le> unat c \<and> unat c < unat va + unat ro)" for c by linarith
    moreover have "copy_segment f off va 0 ro k = Some (True, k\<lparr>files := files k, vmem := vmem k\<rparr>)"
      by (subst copy_segment.simps) simp
    ultimately show ?thesis using less.prems
      by (intro exI [of _ "files k"] exI [of _ "vmem k"]) (auto simp: same_room_def)
  next
    case True
    define ch where "ch = (if rm < 512 then rm else 512)"
    have ch: "unat ch \<le> 512" "unat ch \<le> unat rm" "0 < unat ch"
      using True by (auto simp: ch_def word_less_nat_alt)
    have l32: "length data < 4294967296" using is_file_length [OF less.prems(1)] .
    have uo: "unat (off + ro) = unat off + unat ro" using less.prems(4) l32 by (intro unat_add_u32) linarith
    have uv: "unat (va + ro) = unat va + unat ro" using less.prems(5) by (intro unat_add_u32) simp
    have ur: "unat (ro + ch) = unat ro + unat ch" using less.prems(5) ch(2) by (intro unat_add_u32) simp
    have um: "unat (rm - ch) = unat rm - unat ch" using ch(2) by (simp add: unat_sub word_le_nat_alt)
    define bs where "bs = take (unat ch) (drop (unat off + unat ro) data)"
    have lb: "length bs = unat ch" using less.prems(4) ch(2) by (simp add: bs_def)
    have b2: "unat ch < 2147483648" "unat (off + ro) + unat ch \<le> length data" using ch uo less.prems(4) by simp_all
    obtain s where s: "kread f (off + ro) ch k = Some (int (unat ch), bs, k\<lparr>files := s\<rparr>)" "is_file ps s f data"
      using kread_file [OF less.prems(1) b2] by (auto simp: bs_def uo)
    have wi: "unat (va + ro + of_nat i) = unat va + unat ro + i" if "i < length bs" for i
      using that lb ch less.prems(5) unat_plus_le [of "va + ro" i] uv by simp
    have inV: "\<forall>i < length bs. ENTRY_GET_FRAME (va + ro + of_nat i) \<in> V"
      using wi lb ch(2) less.prems(3) by auto
    have sz: "unat (va + ro) + length bs \<le> 2 ^ 32" using uv lb ch(2) less.prems(5) by simp
    obtain st1 where st1: "store_bytes (va + ro) bs (vmem k) = Some st1" "uspace_from base W st1 V" "same_room (vmem k) st1"
      "\<forall>c. ENTRY_GET_FRAME c \<in> V \<longrightarrow> load_byte st1 c = (if unat (va + ro) \<le> unat c \<and> unat c < unat (va + ro) + length bs
         then Some (bs ! (unat c - unat (va + ro))) else load_byte (vmem k) c)"
      using grown.stores_in [OF less.prems(2) inV sz] by (auto simp: store_bytes_def same_room_def)
    define k1 where "k1 = k\<lparr>files := s, vmem := st1\<rparr>"
    have "unat (rm - ch) < unat rm" using um ch by simp
    moreover have "is_file ps (files k1) f data" "uspace_from base W (vmem k1) V" using s(2) st1(2) by (simp_all add: k1_def)
    moreover have "ENTRY_GET_FRAME c \<in> V" if "unat va + unat (ro + ch) \<le> unat c"
        "unat c < unat va + unat (ro + ch) + unat (rm - ch)" for c
      using that less.prems(3) [of c] um ur ch by simp
    moreover have "unat off + unat (ro + ch) + unat (rm - ch) \<le> length data"
      "unat va + unat (ro + ch) + unat (rm - ch) \<le> 0xFFC00000" using um ur ch less.prems(4,5) by simp_all
    ultimately obtain s2 st2 where r: "copy_segment f off va (rm - ch) (ro + ch) k1 = Some (True, k1\<lparr>files := s2, vmem := st2\<rparr>)"
      "is_file ps s2 f data" "uspace_from base W st2 V" "same_room st1 st2"
      "\<forall>c. ENTRY_GET_FRAME c \<in> V \<longrightarrow> load_byte st2 c =
        (if unat va + unat (ro + ch) \<le> unat c \<and> unat c < unat va + unat (ro + ch) + unat (rm - ch)
         then Some (data ! (unat off + (unat c - unat va))) else load_byte st1 c)"
      using less.hyps [of "rm - ch" k1 "ro + ch"] by (auto simp: k1_def)
    have "\<not> int (unat ch) \<le> 0" using ch(3) by linarith
    then have "\<not> uint ch \<le> 0" by simp
    moreover have "take (nat (int (unat ch))) bs = bs" using lb by simp
    moreover have "of_int (int (unat ch)) = ch" by simp
    ultimately have "copy_segment f off va rm ro k = Some (True, k\<lparr>files := s2, vmem := st2\<rparr>)"
      using True s(1) st1(1) r(1) ch(3)
      by (subst copy_segment.simps) (simp add: ch_def [symmetric] Let_def on_vmem_def k1_def)
    moreover have "load_byte st2 c = (if unat va + unat ro \<le> unat c \<and> unat c < unat va + unat ro + unat rm
         then Some (data ! (unat off + (unat c - unat va))) else load_byte (vmem k) c)" if c: "ENTRY_GET_FRAME c \<in> V" for c
    proof (cases "unat va + unat ro \<le> unat c \<and> unat c < unat va + unat ro + unat ch")
      case True
      have "bs ! (unat c - (unat va + unat ro)) = data ! (unat off + unat ro + (unat c - (unat va + unat ro)))"
      proof -
        have "unat c - (unat va + unat ro) < unat ch" using True by linarith
        moreover have "unat off + unat ro \<le> length data" using less.prems(4) by linarith
        ultimately show ?thesis unfolding bs_def by (simp only: nth_take nth_drop)
      qed
      moreover have "unat off + unat ro + (unat c - (unat va + unat ro)) = unat off + (unat c - unat va)" using True by simp
      ultimately show ?thesis using True r(5) c st1(4) uv lb ur ch(2) by simp
    next
      case False
      then have "(unat va + unat ro \<le> unat c \<and> unat c < unat va + unat ro + unat rm) \<longleftrightarrow>
          (unat va + (unat ro + unat ch) \<le> unat c \<and> unat c < unat va + (unat ro + unat ch) + (unat rm - unat ch))"
        using ch by auto
      then show ?thesis using False r(5) c st1(4) uv lb ur um by auto
    qed
    moreover have "same_room (vmem k) st2" using r(4) st1(3) by (simp add: same_room_def)
    ultimately show ?thesis using r(2,3) by blast
  qed
qed

lemma load_segment_image:
  assumes f: "is_file ps (files k) f data" and u: "uspace_from base W (vmem k) V" and ok: "seg_fits data ph"
    and dis: "set (seg_pages ph) \<inter> V = {}" and fr: "frames_left (2 * (length (seg_pages ph) + r)) (vpmm (vmem k))"
  shows "\<exists>s st. load_segment io f ph mx pages k = Some (True, add_pages mx pages (seg_pages ph), k\<lparr>files := s, vmem := st\<rparr>)
    \<and> is_file ps s f data \<and> uspace_from base W st (V \<union> set (seg_pages ph)) \<and> frames_left (2 * r) (vpmm st)
    \<and> (\<forall>a. ENTRY_GET_FRAME a \<in> V \<longrightarrow> load_byte st a = load_byte (vmem k) a)
    \<and> (\<forall>c. covers ph c \<longrightarrow> load_byte st c = Some (seg_image data ph c))"
proof -
  let ?W = "V \<union> set (seg_pages ph)"
  define b where "b = unat (p_vaddr ph)"
  define fs where "fs = unat (p_filesz ph)"
  define ms where "ms = unat (p_memsz ph)"
  have okb: "fs \<le> ms" "unat (p_offset ph) + fs \<le> length data" "b + ms \<le> 4290772992"
    using ok by (simp_all add: seg_fits_def fs_def ms_def b_def word_le_nat_alt)
  note sb = seg_bounds [OF ok]
  have len: "length (pages_from v n) = n" for v n by (induction n arbitrary: v) simp_all
  have fr': "frames_left (2 * (page_count ph + r)) (vpmm (vmem k))" using fr by (simp add: seg_pages_def len)
  have us1: "\<forall>w \<in> set (pages_from (ENTRY_GET_FRAME (p_vaddr ph)) (page_count ph)). user_page w"
    using sb(3) by (simp add: seg_pages_def)
  have fm: "x AND NOT (PAGE_SIZE - 1) = ENTRY_GET_FRAME x" for x by (simp add: PAGE_SIZE_def ENTRY_GET_FRAME_def)
  obtain st1 where st1: "map_segment io (p_vaddr ph AND NOT (PAGE_SIZE - 1)) ((p_vaddr ph + p_memsz ph + PAGE_SIZE - 1) AND NOT (PAGE_SIZE - 1))
        mx pages k = Some (True, add_pages mx pages (seg_pages ph), k\<lparr>vmem := st1\<rparr>)"
      "uspace_from base W st1 ?W" "frames_left (2 * r) (vpmm st1)" "\<forall>a. ENTRY_GET_FRAME a \<in> V \<longrightarrow> load_byte st1 a = load_byte (vmem k) a"
    using map_segment_pages [OF u us1 dis [unfolded seg_pages_def] fr' frame_aligned sb(1,2), of io mx pages]
    unfolding fm seg_pages_def by blast
  have inW: "ENTRY_GET_FRAME c \<in> ?W" if "b \<le> unat c" "unat c < b + ms" for c
    using sb(4) that by (simp add: b_def ms_def)
  have "unat va + unat (0 :: u32) = unat va" for va :: u32 by simp
  then obtain s2 st2 where c: "copy_segment f (p_offset ph) (p_vaddr ph) (p_filesz ph) 0 (k\<lparr>vmem := st1\<rparr>)
        = Some (True, k\<lparr>files := s2, vmem := st2\<rparr>)" "is_file ps s2 f data" "uspace_from base W st2 ?W" "same_room st1 st2"
      "\<forall>c. ENTRY_GET_FRAME c \<in> ?W \<longrightarrow> load_byte st2 c = (if b \<le> unat c \<and> unat c < b + fs
         then Some (data ! (unat (p_offset ph) + (unat c - b))) else load_byte st1 c)"
    using copy_segment_bytes [of ps "k\<lparr>vmem := st1\<rparr>" f data base W ?W "p_vaddr ph" 0 "p_filesz ph" "p_offset ph"]
      f st1(2) inW okb by (auto simp: b_def fs_def)
  have ufv: "unat (p_vaddr ph + p_filesz ph) = b + fs" using okb unfolding b_def fs_def by (intro unat_add_u32) simp
  have ud: "unat (p_memsz ph - p_filesz ph) = ms - fs" using okb(1) by (simp add: unat_sub word_le_nat_alt fs_def ms_def)
  obtain st3 where z: "zero_bytes (p_vaddr ph + p_filesz ph) (ms - fs) st2 = Some st3" "uspace_from base W st3 ?W" "same_room st2 st3"
      "\<forall>c. ENTRY_GET_FRAME c \<in> ?W \<longrightarrow> load_byte st3 c = (if b + fs \<le> unat c \<and> unat c < b + ms then Some 0 else load_byte st2 c)"
  proof -
    have wi: "unat (p_vaddr ph + p_filesz ph + of_nat i) = b + fs + i" if "i < ms - fs" for i
      using that okb unat_plus_le [of "p_vaddr ph + p_filesz ph" i] ufv by simp
    have h1: "\<forall>i < length (replicate (ms - fs) (0 :: u8)). ENTRY_GET_FRAME (p_vaddr ph + p_filesz ph + of_nat i) \<in> ?W"
      using wi inW by simp
    have h2: "unat (p_vaddr ph + p_filesz ph) + length (replicate (ms - fs) (0 :: u8)) \<le> 2 ^ 32"
      using okb by (simp add: ufv)
    obtain m where m: "stores store_byte (p_vaddr ph + p_filesz ph) (replicate (ms - fs) 0) st2 = Some m"
        "uspace_from base W m ?W" "\<forall>n. frames_left (2 * n) (vpmm m) = frames_left (2 * n) (vpmm st2)"
        "\<forall>c. ENTRY_GET_FRAME c \<in> ?W \<longrightarrow> load_byte m c = (if b + fs \<le> unat c \<and> unat c < b + fs + (ms - fs)
           then Some (replicate (ms - fs) 0 ! (unat c - (b + fs))) else load_byte st2 c)"
      using grown.stores_in [OF c(3) h1 h2] unfolding ufv length_replicate by blast
    show thesis
      by (rule that [of m]) (use m okb(1) in \<open>auto simp: zero_bytes_store store_bytes_def same_room_def\<close>)
  qed
  have gt: "p_memsz ph > p_filesz ph \<longleftrightarrow> fs < ms" by (simp add: word_less_nat_alt fs_def ms_def)
  have "load_segment io f ph mx pages k = Some (True, add_pages mx pages (seg_pages ph), k\<lparr>files := s2, vmem := st3\<rparr>)"
  proof (cases "fs < ms")
    case True
    then show ?thesis unfolding load_segment_def Let_def gt
      by (simp add: st1(1) [unfolded One_nat_def] c(1) ud z(1) on_vmem_def)
  next
    case False
    then have "st3 = st2" using z(1) by simp
    then show ?thesis using False unfolding load_segment_def Let_def gt by (simp add: st1(1) c(1))
  qed
  moreover have "load_byte st3 a = load_byte (vmem k) a" if a: "ENTRY_GET_FRAME a \<in> V" for a
  proof -
    have "\<not> (b \<le> unat a \<and> unat a < b + ms)" using sb(4) [of a] a dis by (auto simp: b_def ms_def)
    then show ?thesis using a z(4) c(5) st1(4) okb(1) by auto
  qed
  moreover have "load_byte st3 c = Some (seg_image data ph c)" if "covers ph c" for c
  proof -
    have r: "b \<le> unat c" "unat c < b + ms" using that by (simp_all add: covers_def b_def ms_def)
    then have "unat c < b + fs \<longleftrightarrow> unat c - b < fs" by auto
    then show ?thesis using r inW [OF r] z(4) c(5) unfolding seg_image_def b_def [symmetric] fs_def [symmetric] by auto
  qed
  ultimately show ?thesis using c(2) z(2) st1(3) c(4) z(3) unfolding same_room_def by blast
qed

section \<open>Loading a program\<close>

text \<open>The program headers a file holds, and the segments among them.\<close>

fun phdrs :: "bytes \<Rightarrow> Elf32_Ehdr \<Rightarrow> nat \<Rightarrow> nat \<Rightarrow> Elf32_Phdr list" where
  "phdrs data eh 0 i = []"
| "phdrs data eh (Suc n) i =
     phdr_of (take 32 (drop (unat (e_phoff eh + of_nat i * ucast (e_phentsize eh))) data)) # phdrs data eh n (i + 1)"

definition loadable :: "Elf32_Phdr \<Rightarrow> bool" where
  "loadable ph \<longleftrightarrow> p_type ph = PT_LOAD \<and> p_memsz ph \<noteq> 0"

definition segments :: "bytes \<Rightarrow> Elf32_Ehdr \<Rightarrow> nat \<Rightarrow> nat \<Rightarrow> Elf32_Phdr list" where
  "segments data eh n i = filter loadable (phdrs data eh n i)"

definition headers_in :: "bytes \<Rightarrow> Elf32_Ehdr \<Rightarrow> nat \<Rightarrow> nat \<Rightarrow> bool" where
  "headers_in data eh n i \<longleftrightarrow>
     (\<forall>j \<in> {i..<i + n}. unat (e_phoff eh + of_nat j * ucast (e_phentsize eh)) + 32 \<le> length data)"

definition program_pages :: "Elf32_Phdr list \<Rightarrow> u32 list" where
  "program_pages phs = concat (map seg_pages phs)"

lemma load_segments_image:
  assumes "is_file ps (files k) f data" "uspace_from base W (vmem k) V" "headers_in data eh n i"
    "\<forall>ph \<in> set (segments data eh n i). seg_fits data ph"
    "distinct (program_pages (segments data eh n i))" "set (program_pages (segments data eh n i)) \<inter> V = {}"
    "frames_left (2 * (length (program_pages (segments data eh n i)) + r)) (vpmm (vmem k))"
  shows "\<exists>s st. load_segments io f eh n i mx pages k
      = Some (True, add_pages mx pages (program_pages (segments data eh n i)), k\<lparr>files := s, vmem := st\<rparr>)
    \<and> is_file ps s f data \<and> uspace_from base W st (V \<union> set (program_pages (segments data eh n i))) \<and> frames_left (2 * r) (vpmm st)
    \<and> (\<forall>a. ENTRY_GET_FRAME a \<in> V \<longrightarrow> load_byte st a = load_byte (vmem k) a)
    \<and> (\<forall>ph \<in> set (segments data eh n i). \<forall>c. covers ph c \<longrightarrow> load_byte st c = Some (seg_image data ph c))"
  using assms
proof (induction n arbitrary: i k V pages)
  case 0
  then show ?case
    by (intro exI [of _ "files k"] exI [of _ "vmem k"]) (simp add: segments_def program_pages_def add_pages_def)
next
  case (Suc n)
  define off where "off = e_phoff eh + of_nat i * ucast (e_phentsize eh)"
  define ph where "ph = phdr_of (take 32 (drop (unat off) data))"
  have sg: "segments data eh (Suc n) i = (if loadable ph then [ph] else []) @ segments data eh n (i + 1)"
    by (simp add: segments_def ph_def off_def)
  have hd: "headers_in data eh n (i + 1)" "unat off + 32 \<le> length data"
    using Suc.prems(3) by (auto simp: headers_in_def off_def)
  obtain s0 where s0: "kread f off sizeof_Phdr k = Some (int (unat sizeof_Phdr), take (unat sizeof_Phdr) (drop (unat off) data), k\<lparr>files := s0\<rparr>)"
      "is_file ps s0 f data"
    by (rule kread_file [OF Suc.prems(1), of sizeof_Phdr off]) (use hd(2) in \<open>simp_all add: sizeof_Phdr_def\<close>)
  have s32: "int (unat sizeof_Phdr) = sint sizeof_Phdr" "unat sizeof_Phdr = 32" by (simp_all add: sizeof_Phdr_def)
  show ?case
  proof (cases "loadable ph")
    case False
    then have sg': "segments data eh (Suc n) i = segments data eh n (i + 1)" by (simp add: sg)
    have step: "load_segments io f eh (Suc n) i mx pages k = load_segments io f eh n (i + 1) mx pages (k\<lparr>files := s0\<rparr>)"
      using False s0(1) s32 unfolding loadable_def ph_def by (simp add: off_def [symmetric] Let_def)
    show ?thesis using Suc.IH [of "k\<lparr>files := s0\<rparr>" V "i + 1" pages] s0(2) hd(1) Suc.prems(2,4-7)
      unfolding sg' step by auto
  next
    case True
    define P where "P = program_pages (segments data eh n (i + 1))"
    have pp: "program_pages (segments data eh (Suc n) i) = seg_pages ph @ P"
      using True by (simp add: sg program_pages_def P_def)
    have "seg_fits data ph" "set (seg_pages ph) \<inter> V = {}"
      "frames_left (2 * (length (seg_pages ph) + (length P + r))) (vpmm (vmem (k\<lparr>files := s0\<rparr>)))"
      using True Suc.prems(4,6,7) unfolding pp by (auto simp: sg add.assoc)
    note li = load_segment_image [where ps = ps and base = base and W = W and k = "k\<lparr>files := s0\<rparr>" and f = f and V = V and io = io and mx = mx and pages = pages, OF _ _ this]
    from li s0(2) Suc.prems(2) obtain s1 st1 where l1: "load_segment io f ph mx pages (k\<lparr>files := s0\<rparr>)
          = Some (True, add_pages mx pages (seg_pages ph), k\<lparr>files := s1, vmem := st1\<rparr>)"
        "is_file ps s1 f data" "uspace_from base W st1 (V \<union> set (seg_pages ph))" "frames_left (2 * (length P + r)) (vpmm st1)"
        "\<forall>a. ENTRY_GET_FRAME a \<in> V \<longrightarrow> load_byte st1 a = load_byte (vmem k) a"
        "\<forall>c. covers ph c \<longrightarrow> load_byte st1 c = Some (seg_image data ph c)" by auto
    define k1 where "k1 = k\<lparr>files := s1, vmem := st1\<rparr>"
    have dj: "set P \<inter> (V \<union> set (seg_pages ph)) = {}" "distinct P"
      using Suc.prems(5,6) unfolding pp by auto
    obtain s2 st2 where l2: "load_segments io f eh n (i + 1) mx (add_pages mx pages (seg_pages ph)) k1
          = Some (True, add_pages mx (add_pages mx pages (seg_pages ph)) P, k1\<lparr>files := s2, vmem := st2\<rparr>)"
        "is_file ps s2 f data" "uspace_from base W st2 (V \<union> set (seg_pages ph) \<union> set P)" "frames_left (2 * r) (vpmm st2)"
        "\<forall>a. ENTRY_GET_FRAME a \<in> V \<union> set (seg_pages ph) \<longrightarrow> load_byte st2 a = load_byte st1 a"
        "\<forall>q \<in> set (segments data eh n (i + 1)). \<forall>c. covers q c \<longrightarrow> load_byte st2 c = Some (seg_image data q c)"
      using Suc.IH [of k1 "V \<union> set (seg_pages ph)" "i + 1" "add_pages mx pages (seg_pages ph)"] l1(2,3,4) hd(1)
        Suc.prems(4) dj unfolding P_def [symmetric] by (auto simp: sg k1_def)
    have step: "load_segments io f eh (Suc n) i mx pages k
        = Some (True, add_pages mx pages (seg_pages ph @ P), k\<lparr>files := s2, vmem := st2\<rparr>)"
      using True s0(1) s32 l1(1) l2(1) unfolding loadable_def ph_def
      by (simp add: off_def [symmetric] Let_def k1_def add_pages_append)
    have "load_byte st2 c = Some (seg_image data ph c)" if "covers ph c" for c
    proof -
      have "ENTRY_GET_FRAME c \<in> set (seg_pages ph)"
        using seg_bounds(4) [OF \<open>seg_fits data ph\<close>] that by (simp add: covers_def)
      then show ?thesis using l2(5) l1(6) that by simp
    qed
    then show ?thesis using l2 l1(5) step True unfolding pp by (auto simp: sg Un_assoc)
  qed
qed

end
