(* ===== verification/Elf_Correct.thy ===== *)
theory Elf_Correct
  imports Elf
begin

text \<open>
  What \<^verbatim>\<open>kernel/elf.c\<close> promises: a well formed program whose segments share no page is in memory as
  its headers say when the loader returns its entry point, and what is not an executable for this
  machine is turned down before any memory is touched.
\<close>

definition valid_header :: "bytes \<Rightarrow> bool" where
  "valid_header data \<longleftrightarrow> 52 \<le> length data \<and> take 4 data = ELF_MAGIC
     \<and> e_type (ehdr_of (take 52 data)) = ET_EXEC \<and> e_machine (ehdr_of (take 52 data)) = EM_386"

definition program_ok :: "bytes \<Rightarrow> u32 set \<Rightarrow> Elf32_Phdr list \<Rightarrow> bool" where
  "program_ok data V segs \<longleftrightarrow> valid_header data
     \<and> (let eh = ehdr_of (take 52 data); n = unat (e_phnum eh) in
         headers_in data eh n 0 \<and> segs = segments data eh n 0)
     \<and> (\<forall>ph \<in> set segs. seg_fits data ph) \<and> distinct (program_pages segs) \<and> set (program_pages segs) \<inter> V = {}"

lemma read_header:
  assumes "is_file ps (files k) f data"
  obtains s where "kread f 0 sizeof_Ehdr k = Some (int (min 52 (length data)), take 52 data, k\<lparr>files := s\<rparr>)" "is_file ps s f data"
proof -
  have "unat sizeof_Ehdr = 52" by (simp add: sizeof_Ehdr_def)
  then show ?thesis using rf.read_file [OF assms, of sizeof_Ehdr 0] that by (auto simp: kread_def min.commute)
qed

lemma sizeof_Ehdr_int: "sint sizeof_Ehdr = 52"
  by (simp add: sizeof_Ehdr_def)

lemma ident_take: "take 4 (e_ident (ehdr_of (take 52 data))) = take 4 data"
  by (simp add: ehdr_of_def)

lemma elf_load_image:
  assumes "is_file ps (files k) f data" "uspace (vmem k) V" "program_ok data V segs"
    "frames_left (2 * (length (program_pages segs) + r)) (vpmm (vmem k))"
  shows "\<exists>s st. elf_load io f pages mx k
      = Some (e_entry (ehdr_of (take 52 data)), add_pages mx pages (program_pages segs), k\<lparr>files := s, vmem := st\<rparr>)
    \<and> is_file ps s f data \<and> uspace st (V \<union> set (program_pages segs)) \<and> frames_left (2 * r) (vpmm st)
    \<and> (\<forall>w < 0xFFC00000. ENTRY_GET_FRAME w \<notin> set (program_pages segs) \<longrightarrow> mmu_translate st w = mmu_translate (vmem k) w)
    \<and> (\<forall>ph \<in> set segs. \<forall>c. covers ph c \<longrightarrow> load_byte st c = Some (seg_image data ph c))
    \<and> (\<forall>a. ENTRY_GET_FRAME a \<in> V \<longrightarrow> load_byte st a = load_byte (vmem k) a)"
proof -
  define eh where "eh = ehdr_of (take 52 data)"
  have v: "52 \<le> length data" "take 4 (e_ident eh) = ELF_MAGIC" "e_type eh = ET_EXEC" "e_machine eh = EM_386"
    and p: "headers_in data eh (unat (e_phnum eh)) 0" "segs = segments data eh (unat (e_phnum eh)) 0"
      "\<forall>ph \<in> set segs. seg_fits data ph" "distinct (program_pages segs)" "set (program_pages segs) \<inter> V = {}"
    using assms(3) unfolding program_ok_def valid_header_def eh_def Let_def ident_take by blast+
  obtain s0 where s0: "kread f 0 sizeof_Ehdr k = Some (int (min 52 (length data)), take 52 data, k\<lparr>files := s0\<rparr>)" "is_file ps s0 f data"
    by (rule read_header [OF assms(1)])
  have start: "uspace_from (vmem k) V (vmem k) V" using assms(2) by (simp add: uspace_from_def)
  obtain s st where l: "load_segments io f eh (unat (e_phnum eh)) 0 mx pages (k\<lparr>files := s0\<rparr>)
        = Some (True, add_pages mx pages (program_pages segs), k\<lparr>files := s, vmem := st\<rparr>)"
      "is_file ps s f data" "uspace_from (vmem k) V st (V \<union> set (program_pages segs))" "frames_left (2 * r) (vpmm st)"
      "\<forall>a. ENTRY_GET_FRAME a \<in> V \<longrightarrow> load_byte st a = load_byte (vmem k) a"
      "\<forall>ph \<in> set segs. \<forall>c. covers ph c \<longrightarrow> load_byte st c = Some (seg_image data ph c)"
    using load_segments_image [of ps "k\<lparr>files := s0\<rparr>" f data "vmem k" V V eh "unat (e_phnum eh)" 0 r io mx pages]
      s0(2) assms(4) start p unfolding p(2) [symmetric] by auto
  have "elf_load io f pages mx k = Some (e_entry eh, add_pages mx pages (program_pages segs), k\<lparr>files := s, vmem := st\<rparr>)"
    unfolding elf_load_def s0(1) using v l(1) by (simp add: sizeof_Ehdr_int eh_def [symmetric] Let_def)
  moreover have "uspace st (V \<union> set (program_pages segs))"
    "\<forall>w < 0xFFC00000. ENTRY_GET_FRAME w \<notin> set (program_pages segs) \<longrightarrow> mmu_translate st w = mmu_translate (vmem k) w"
    using l(3) by (auto simp: uspace_from_def)
  ultimately show ?thesis unfolding eh_def [symmetric] using l by blast
qed

text \<open>
  C2. The loader places the program. For a valid executable whose segments lie in user space and share no
  page, with \<open>r\<close> times two frames left over and above those for its pages and their tables, it returns the entry point and leaves those; every
  byte of every segment then reads as the file says, with zeros from the end of its file part on; the pages
  are appended to the caller's list as far as it has room. Below the recursive window nothing else is mapped, unmapped or moved:
  an address outside the program's pages translates as before, and the user pages \<open>V\<close> mapped before, from which the program must keep clear, also keep
  their contents. A segment may cover pages the kernel has mapped for itself; these the loader replaces.
\<close>

theorem elf_load_places_program:
  assumes "is_file ps (files k) f data" "uspace (vmem k) V" "program_ok data V segs"
    "frames_left (2 * (length (program_pages segs) + r)) (vpmm (vmem k))"
  shows "\<exists>s st. elf_load io f pages mx k
      = Some (e_entry (ehdr_of (take 52 data)), add_pages mx pages (program_pages segs), k\<lparr>files := s, vmem := st\<rparr>)
    \<and> is_file ps s f data \<and> uspace st (V \<union> set (program_pages segs)) \<and> frames_left (2 * r) (vpmm st)
    \<and> (\<forall>w < 0xFFC00000. ENTRY_GET_FRAME w \<notin> set (program_pages segs) \<longrightarrow> mmu_translate st w = mmu_translate (vmem k) w)
    \<and> (\<forall>ph \<in> set segs. \<forall>c. covers ph c \<longrightarrow> load_byte st c = Some (seg_image data ph c))
    \<and> (\<forall>a. ENTRY_GET_FRAME a \<in> V \<longrightarrow> load_byte st a = load_byte (vmem k) a)"
  by (rule elf_load_image [OF assms])

text \<open>Ports that answer 0xFF and keep nothing.\<close>

definition recorder_unit :: "unit ports" where
  "recorder_unit = \<lparr>inb = \<lambda>_ s. (0xFF, s), outb = \<lambda>_ _ s. s, inw = \<lambda>_ s. (0xFFFF, s), outw = \<lambda>_ _ s. s\<rparr>"

text \<open>A program of one segment of four bytes, the eight it occupies at \<open>0x40000000\<close>.\<close>

definition demo_elf :: bytes where
  "demo_elf = [0x7F, 0x45, 0x4C, 0x46, 1, 1, 1, 0, 0, 0, 0, 0, 0, 0, 0, 0, 2, 0, 3, 0, 1, 0, 0, 0,
     0, 0, 0, 0x40, 52, 0, 0, 0, 0, 0, 0, 0, 0, 0, 0, 0, 52, 0, 32, 0, 1, 0, 0, 0, 0, 0, 0, 0,
     1, 0, 0, 0, 84, 0, 0, 0, 0, 0, 0, 0x40, 0, 0, 0, 0, 4, 0, 0, 0, 8, 0, 0, 0, 0, 0, 0, 0, 0, 0, 0, 0,
     0xEB, 0xFE, 0x90, 0x90]"

definition demo_phdr :: Elf32_Phdr where
  "demo_phdr = \<lparr>p_type = 1, p_offset = 84, p_vaddr = 0x40000000, p_filesz = 4, p_memsz = 8\<rparr>"

definition demo_elf_fs :: fs where
  "demo_elf_fs = \<lparr>vol = write_sector 4 (\<lambda>i. if i < 88 then demo_elf ! i else 0) demo_one, heap = kheap_demo,
     nodes = (\<lambda>_. demo_node\<lparr>vn_size := 88\<rparr>), fat16_dirent_buf = \<lparr>vd_name = [], vd_inode = 0, vd_flags = 0\<rparr>\<rparr>"

definition demo_kernel :: "unit kernel" where
  "demo_kernel = \<lparr>files = demo_elf_fs, mount_table = [], vmem = vm_demo,
     con = \<lparr>vga = vga_demo, uart_output_mode = False, wire = ()\<rparr>, irq_handlers = replicate 16 None,
     kbd = \<lparr>key_buffer = replicate 256 0, buf_head = 0, buf_tail = 0, caps = False, shift_key = False, ctrl = False\<rparr>,
     timer_ticks = 0, timer_frequency = 100, procs = (\<lambda>_. \<lparr>entry = 0, stack_top = 0, exit_code = 0, kstack = 0, kstack_top = 0, mapped_pages = []\<rparr>),
     current_process = 0, kill_pending = False, tss_esp0 = 0, current_path = [0x2F]\<rparr>"

lemma demo_elf_length: "length demo_elf = 88"
  by (simp add: demo_elf_def)

lemma demo_elf_file: "is_file {} demo_elf_fs 1 demo_elf"
proof -
  let ?st = "write_sector 4 (\<lambda>i. if i < 88 then demo_elf ! i else 0) demo_one"
  have l28: "lba28 4 = 4" by (simp add: lba28_def)
  have ly: "layout ?st" using demo_one_facts(1) by (rule write_sector_layout)
  have fs: "fat_sector c st' = fat_sector c demo_one" if "fat_lba st' = fat_lba demo_one" for c st'
    using that by (simp add: fat_sector_def)
  have "fat_entry 2 ?st = fat_entry 2 demo_one"
  proof -
    have u: "unat (fat_sector 2 demo_one) = 1"
    proof -
      have "in_table demo_one 2" by (simp add: demo_one_facts(3))
      then show ?thesis using unat_fat_sector(1) [OF demo_one_facts(1), of 2]
        by (simp add: demo_one_def frame_simps fat_sector_def)
    qed
    then have "fat_sector 2 demo_one = 1" by (simp add: word_unat_eq_iff)
    then have "drive ?st (fat_sector 2 ?st) = drive demo_one (fat_sector 2 demo_one)"
      using fs [of ?st 2] by (simp add: write_sector_def lba28_def)
    then show ?thesis by (simp add: fat_entry_alt [OF ly] fat_entry_alt [OF demo_one_facts(1)])
  qed
  then have "file_chain ?st 2 [2]"
    using demo_one_facts(3,4,6) by (simp add: file_chain_def in_table_def frame_simps)
  then have fn: "file_node ?st (demo_node\<lparr>vn_size := 88\<rparr>) [2]"
    using ly by (simp add: file_node_def node_chain_def demo_node_def frame_simps demo_one_facts(5))
  have cb: "cluster_buffer demo_elf_fs [(0xFFFF0, True)]"
    using demo_heap by (simp add: cluster_buffer_def demo_elf_fs_def frame_simps demo_one_facts(5))
  have "file_byte ?st [2] i = demo_elf ! i" if "i < 88" for i
  proof -
    have "i div 512 = 0" "i mod 512 = i" using that by simp_all
    then show ?thesis using that
      by (simp add: file_byte_def frame_simps demo_one_facts(5,8) cluster_lba_def read_sector_def write_sector_def l28)
  qed
  then have "take 88 (file_data ?st [2]) = demo_elf"
    by (intro nth_equalityI) (simp_all add: demo_elf_length file_data_def frame_simps demo_one_facts(5))
  then show ?thesis
    using fn cb unfolding is_file_def
    by (auto simp: demo_elf_fs_def demo_node_def VFS_FILE_def intro!: exI [of _ "[2]"])
qed

lemma demo_program: "program_ok demo_elf {} [demo_phdr]" "program_pages [demo_phdr] = [0x40000000]"
    "e_entry (ehdr_of (take 52 demo_elf)) = 0x40000000"
proof -
  have t: "take 52 demo_elf = [0x7F, 0x45, 0x4C, 0x46, 1, 1, 1, 0, 0, 0, 0, 0, 0, 0, 0, 0, 2, 0, 3, 0, 1, 0, 0, 0,
     0, 0, 0, 0x40, 52, 0, 0, 0, 0, 0, 0, 0, 0, 0, 0, 0, 52, 0, 32, 0, 1, 0, 0, 0, 0, 0, 0, 0]"
    by (simp add: demo_elf_def)
  have e: "ehdr_of (take 52 demo_elf) = \<lparr>e_ident = take 16 demo_elf, e_type = 2, e_machine = 3, e_entry = 0x40000000,
      e_phoff = 52, e_phentsize = 32, e_phnum = 1\<rparr>"
    unfolding ehdr_of_def t by (simp add: u16_at_def u32_at_def demo_elf_def)
  then show "e_entry (ehdr_of (take 52 demo_elf)) = 0x40000000" by simp
  have "take 32 (drop 52 demo_elf) = [1, 0, 0, 0, 84, 0, 0, 0, 0, 0, 0, 0x40, 0, 0, 0, 0, 4, 0, 0, 0, 8, 0, 0, 0, 0, 0, 0, 0, 0, 0, 0, 0]"
    by (simp add: demo_elf_def)
  then have ph: "phdr_of (take 32 (drop 52 demo_elf)) = demo_phdr"
    by (simp add: phdr_of_def u32_at_def demo_phdr_def)
  have ld: "loadable demo_phdr" by (simp add: loadable_def demo_phdr_def PT_LOAD_def)
  show pg: "program_pages [demo_phdr] = [0x40000000]"
    by (simp add: program_pages_def seg_pages_def page_count_def demo_phdr_def ENTRY_GET_FRAME_def)
  have "segments demo_elf (ehdr_of (take 52 demo_elf)) 1 0 = [demo_phdr]"
    by (simp add: e segments_def ph ld)
  moreover have "valid_header demo_elf"
    by (simp add: valid_header_def e demo_elf_length ET_EXEC_def EM_386_def) (simp add: demo_elf_def ELF_MAGIC_def)
  moreover have "seg_fits demo_elf demo_phdr" by (simp add: seg_fits_def demo_phdr_def demo_elf_length)
  ultimately show "program_ok demo_elf {} [demo_phdr]"
    by (simp add: program_ok_def e pg headers_in_def demo_elf_length)
qed

lemma demo_frames: "frames_left 2 (vpmm vm_demo)"
proof -
  have "frames_left (Suc (Suc 0)) (vpmm vm_demo)" using vm_alloc_pmm [OF vm_demo_alloc(1)] vm_demo_alloc(2) by simp
  then show ?thesis by (simp only: numeral_2_eq_2)
qed

lemma elf_load_places_program_witness:
  "\<exists>s st. elf_load recorder_unit 1 [] 64 demo_kernel = Some (0x40000000, [0x40000000], demo_kernel\<lparr>files := s, vmem := st\<rparr>)
    \<and> load_byte st 0x40000001 = Some 0xFE \<and> load_byte st 0x40000007 = Some 0"
proof -
  have f: "is_file {} (files demo_kernel) 1 demo_elf" using demo_elf_file by (simp add: demo_kernel_def)
  have u: "uspace (vmem demo_kernel) {}" using vm_demo_inv by (simp add: uspace_def demo_kernel_def)
  have fr: "frames_left (2 * (length (program_pages [demo_phdr]) + 0)) (vpmm (vmem demo_kernel))"
    using demo_frames by (simp add: demo_program(2) demo_kernel_def)
  have c: "covers demo_phdr 0x40000001" "covers demo_phdr 0x40000007" by (simp_all add: covers_def demo_phdr_def)
  have i: "seg_image demo_elf demo_phdr 0x40000001 = 0xFE" "seg_image demo_elf demo_phdr 0x40000007 = 0"
    by (simp_all add: seg_image_def demo_phdr_def demo_elf_def)
  from elf_load_places_program [OF f u demo_program(1) fr, of recorder_unit "[]" 64] obtain s st where
    "elf_load recorder_unit 1 [] 64 demo_kernel = Some (0x40000000, [0x40000000], demo_kernel\<lparr>files := s, vmem := st\<rparr>)"
    "\<forall>c. covers demo_phdr c \<longrightarrow> load_byte st c = Some (seg_image demo_elf demo_phdr c)"
    by (auto simp: demo_program add_pages_def)
  then show ?thesis using c i by metis
qed

text \<open>
  A file that is too short, or has the wrong magic, type or machine, is turned down: the loader
  returns 0, has mapped nothing, and at most printed a line.
\<close>

theorem elf_load_rejects:
  assumes "is_file ps (files k) f data" "\<not> valid_header data" "\<not> uart_output_mode (con k)"
  shows "\<exists>s c. elf_load io f pages mx k = Some (0, pages, k\<lparr>files := s, con := c\<rparr>) \<and> is_file ps s f data"
proof -
  obtain s0 where s0: "kread f 0 sizeof_Ehdr k = Some (int (min 52 (length data)), take 52 data, k\<lparr>files := s0\<rparr>)" "is_file ps s0 f data"
    by (rule read_header [OF assms(1)])
  show ?thesis
  proof (cases "52 \<le> length data")
    case False
    then have "elf_load io f pages mx k = Some (0, pages, k\<lparr>files := s0, con := con k\<rparr>)"
      unfolding elf_load_def s0(1) by (simp add: sizeof_Ehdr_int)
    then show ?thesis using s0(2) by blast
  next
    case True
    then have m: "int (min 52 (length data)) = 52" by simp
    have p: "\<exists>c. kprintf io t [] (k\<lparr>files := s0\<rparr>) = Some (k\<lparr>files := s0, con := c\<rparr>)" if "render (cstr t) [] \<noteq> None" for t
      using that assms(3) by (auto simp: kprintf_def printf_def printf_from_render put_all_screen)
    have r: "render (cstr (str ''[ELF] bad magic'' @ [0x0A])) [] \<noteq> None"
      "render (cstr (str ''[ELF] not an x86 executable'' @ [0x0A])) [] \<noteq> None"
      by (simp_all add: str_def cstr_def)
    show ?thesis
    proof (cases "take 4 data = ELF_MAGIC")
      case False
      then show ?thesis unfolding elf_load_def s0(1) m using p [OF r(1)] s0(2)
        by (simp add: sizeof_Ehdr_int ident_take Let_def) (metis option.simps(3) bind.bind_lunit)
    next
      case t: True
      then have "e_type (ehdr_of (take 52 data)) \<noteq> ET_EXEC \<or> e_machine (ehdr_of (take 52 data)) \<noteq> EM_386"
        using assms(2) True by (simp add: valid_header_def)
      then show ?thesis unfolding elf_load_def s0(1) m using p [OF r(2)] s0(2) t
        by (simp add: sizeof_Ehdr_int ident_take Let_def) (metis option.simps(3) bind.bind_lunit)
    qed
  qed
qed

lemma elf_load_rejects_witness:
  "\<exists>s c. elf_load recorder_unit 1 [] 64 (demo_kernel\<lparr>files := demo_fs\<lparr>nodes := \<lambda>_. demo_node\<rparr>\<rparr>)
     = Some (0, [], demo_kernel\<lparr>files := s, con := c\<rparr>)"
proof -
  let ?k = "demo_kernel\<lparr>files := demo_fs\<lparr>nodes := \<lambda>_. demo_node\<rparr>\<rparr>" and ?d = "take 3 (file_data demo_one [2])"
  have "is_file {} (files ?k) 1 ?d"
    using demo_fs_facts demo_heap unfolding is_file_def
    by (auto simp: demo_fs_def demo_node_def cluster_buffer_def VFS_FILE_def demo_one_facts(5) intro!: exI [of _ "[2]"])
  moreover have "\<not> valid_header ?d" by (simp add: valid_header_def)
  moreover have "\<not> uart_output_mode (con ?k)" by (simp add: demo_kernel_def)
  ultimately obtain s c where "elf_load recorder_unit 1 [] 64 ?k = Some (0, [], ?k\<lparr>files := s, con := c\<rparr>)"
    using elf_load_rejects [of "{}" ?k 1 ?d recorder_unit "[]" 64] by blast
  then show ?thesis by auto
qed

end
