(* ===== verification/Process.thy ===== *)
theory Process
  imports Elf_Correct
begin

text \<open>
  The process of the moment, \<^verbatim>\<open>kernel/process.c\<close>: how it is created from a file and freed, and how it ends. The
  kernel runs one process at a time; \<open>process_run\<close> enters it and returns when \<open>process_exit\<close> has switched
  back to the stack of \<open>process_run\<close>. What happens in between, the program and the interrupts, is the argument
  \<open>user\<close>.
\<close>

section \<open>The flags\<close>

definition process_is_running :: "'s kernel \<Rightarrow> bool" where
  "process_is_running k \<longleftrightarrow> current_process k \<noteq> 0"

definition process_signal_kill :: "'s kernel \<Rightarrow> 's kernel" where
  "process_signal_kill k = k\<lparr>kill_pending := True\<rparr>"

definition process_exit :: "u32 \<Rightarrow> 's kernel \<Rightarrow> 's kernel" where
  "process_exit code k =
     (let k = (if current_process k \<noteq> 0
               then k\<lparr>procs := (procs k)(current_process k := (procs k (current_process k))\<lparr>exit_code := code\<rparr>)\<rparr> else k)
      in k\<lparr>current_process := 0\<rparr>)"

definition process_check_kill :: "'s ports \<Rightarrow> 's kernel \<Rightarrow> 's kernel flow" where
  "process_check_kill io k =
     (if \<not> kill_pending k \<or> current_process k = 0 then Returns k
      else Unwinds (process_exit 1 (on_wire (PIC_sendEOI io 0) (k\<lparr>kill_pending := False\<rparr>))))"

definition tss_set_kernel_stack :: "u32 \<Rightarrow> 's kernel \<Rightarrow> 's kernel" where
  "tss_set_kernel_stack esp0 k = k\<lparr>tss_esp0 := esp0\<rparr>"

section \<open>Creating, running, freeing\<close>

definition kkfree :: "u32 \<Rightarrow> 's kernel \<Rightarrow> 's kernel" where
  "kkfree p k = k\<lparr>files := fs_kfree p (files k)\<rparr>"

text \<open>The pages of the stack, from the top one down; \<open>n\<close> are left, \<open>i\<close> done.\<close>

fun map_stack :: "nat \<Rightarrow> nat \<Rightarrow> u32 list \<Rightarrow> 's kernel \<Rightarrow> (bool \<times> u32 list \<times> 's kernel) option" where
  "map_stack 0 i pages k = Some (True, pages, k)"
| "map_stack (Suc n) i pages k = do {
     let vaddr = USER_STACK_VIRT - of_nat i * PAGE_SIZE;
     (r, k) \<leftarrow> kalloc_page vaddr k;
     if r = 0 then Some (False, pages, k)
     else map_stack n (i + 1) (if length pages < PROCESS_MAX_PAGES then pages @ [vaddr] else pages) k }"

text \<open>The address of the process, or 0.\<close>

definition process_create :: "'s ports \<Rightarrow> u32 \<Rightarrow> 's kernel \<Rightarrow> (u32 \<times> 's kernel) option" where
  "process_create io file k = do {
     (proc, k) \<leftarrow> on_files (fs_kmalloc sizeof_process_t) k;
     if proc = 0 then Some (0, k)
     else do {
       (ks, k) \<leftarrow> on_files (fs_kmalloc PROCESS_KSTACK_SIZE) k;
       if ks = 0 then Some (0, kkfree proc k)
       else do {
         (e, pages, k) \<leftarrow> elf_load io file [] PROCESS_MAX_PAGES k;
         if e = 0 then Some (0, kkfree proc (kkfree ks k))
         else do {
           (ok, pages, k) \<leftarrow> map_stack USER_STACK_PAGES 0 pages k;
           if \<not> ok
           then do {
             k \<leftarrow> kprintf io (str ''[process] out of memory for user stack'' @ [0x0A]) [] k;
             Some (0, kkfree proc (kkfree ks k)) }
           else Some (proc, k\<lparr>procs := (procs k)(proc :=
             \<lparr>entry = e, stack_top = USER_STACK_TOP - 4, exit_code = 0, kstack = ks,
              kstack_top = ks + PROCESS_KSTACK_SIZE, mapped_pages = pages\<rparr>)\<rparr>) } } } }"

definition process_run :: "(u32 \<Rightarrow> u32 \<Rightarrow> 's kernel \<Rightarrow> 's kernel option) \<Rightarrow> u32 \<Rightarrow> 's kernel \<Rightarrow> 's kernel option" where
  "process_run user proc k =
     (let k = tss_set_kernel_stack (kstack_top (procs k proc)) (k\<lparr>current_process := proc\<rparr>)
      in user (entry (procs k proc)) (stack_top (procs k proc)) k)"

definition process_free :: "u32 \<Rightarrow> 's kernel \<Rightarrow> 's kernel option" where
  "process_free proc k =
     (if proc = 0 then Some k
      else do {
        k \<leftarrow> foldl (\<lambda>k v. k \<bind> on_vmem (vmm_unmap_page v)) (Some k) (mapped_pages (procs k proc));
        Some (kkfree proc (kkfree (kstack (procs k proc)) k)) })"

section \<open>Memory of a process\<close>

definition stack_pages :: "u32 list" where
  "stack_pages = [0xBFFFF000, 0xBFFFE000, 0xBFFFD000, 0xBFFFC000]"

lemma stack_page: "i < 4 \<Longrightarrow> USER_STACK_VIRT - of_nat i * PAGE_SIZE = stack_pages ! i"
proof -
  assume "i < 4"
  then have "i = 0 \<or> i = 1 \<or> i = 2 \<or> i = 3" by auto
  then show ?thesis by (auto simp: USER_STACK_VIRT_def PAGE_SIZE_def stack_pages_def)
qed

lemma map_stack_pages:
  assumes "uspace (vmem k) V" "i + n = 4" "set (drop i stack_pages) \<inter> V = {}" "frames_left (2 * n) (vpmm (vmem k))"
  shows "\<exists>st. map_stack n i pages k = Some (True, add_pages PROCESS_MAX_PAGES pages (drop i stack_pages), k\<lparr>vmem := st\<rparr>)
    \<and> uspace st (V \<union> set (drop i stack_pages)) \<and> (\<forall>a. ENTRY_GET_FRAME a \<in> V \<longrightarrow> load_byte st a = load_byte (vmem k) a)"
  using assms
proof (induction n arbitrary: i k V pages)
  case 0
  then show ?case by (intro exI [of _ "vmem k"]) (simp add: stack_pages_def add_pages_def)
next
  case (Suc n)
  define v where "v = stack_pages ! i"
  have i: "i < 4" using Suc.prems(2) by simp
  have len: "length stack_pages = 4" by (simp add: stack_pages_def)
  have dr: "drop i stack_pages = v # drop (i + 1) stack_pages"
    using i len by (simp add: v_def Cons_nth_drop_Suc)
  have ds: "distinct (drop i stack_pages)" by (rule distinct_drop) (simp add: stack_pages_def)
  have "v \<in> set stack_pages" using i len by (simp add: v_def)
  then have uv: "user_page v" by (auto simp: stack_pages_def user_page_def PAGE_OFFSET_def)
  have nv: "v \<notin> V" using Suc.prems(3) dr by auto
  obtain st1 where st1: "vmm_alloc_page v user_flags (vmem k) = Some (v, st1)" "uspace st1 (insert v V)"
      "frames_left (2 * n) (vpmm st1)" "\<forall>a. ENTRY_GET_FRAME a \<in> V \<longrightarrow> load_byte st1 a = load_byte (vmem k) a"
    using us.map_new [OF Suc.prems(1) uv nv Suc.prems(4)] by auto
  have dj: "set (drop (i + 1) stack_pages) \<inter> insert v V = {}" using Suc.prems(3) ds dr by auto
  obtain st where st: "map_stack n (i + 1) (if length pages < PROCESS_MAX_PAGES then pages @ [v] else pages) (k\<lparr>vmem := st1\<rparr>)
        = Some (True, add_pages PROCESS_MAX_PAGES pages (drop i stack_pages), k\<lparr>vmem := st\<rparr>)"
      "uspace st (insert v V \<union> set (drop (i + 1) stack_pages))"
      "\<forall>a. ENTRY_GET_FRAME a \<in> insert v V \<longrightarrow> load_byte st a = load_byte st1 a"
    using Suc.IH [of "k\<lparr>vmem := st1\<rparr>" "insert v V" "i + 1" "if length pages < PROCESS_MAX_PAGES then pages @ [v] else pages"]
      st1(2,3) Suc.prems(2) dj dr by (auto simp: add_pages_step)
  have "v \<noteq> 0" using uv by (simp add: user_page_def)
  then have "map_stack (Suc n) i pages k = Some (True, add_pages PROCESS_MAX_PAGES pages (drop i stack_pages), k\<lparr>vmem := st\<rparr>)"
    using st1(1) st(1) stack_page [OF i]
    by (cases "length pages < PROCESS_MAX_PAGES") (simp_all add: kalloc_page_def v_def)
  then show ?case using st st1(4) dr by (auto simp: Un_commute)
qed

lemma unmap_pages_kernel:
  "foldl (\<lambda>m v. m \<bind> vmm_unmap_page v) (Some st) vs = Some st' \<Longrightarrow>
    foldl (\<lambda>k v. k \<bind> on_vmem (vmm_unmap_page v)) (Some (k\<lparr>vmem := st\<rparr>)) vs = Some (k\<lparr>vmem := st'\<rparr>)"
proof (induction vs arbitrary: st)
  case (Cons v vs)
  have none: "foldl (\<lambda>m v. m \<bind> vmm_unmap_page v) None vs = None" for vs by (induction vs) simp_all
  obtain st1 where "vmm_unmap_page v st = Some st1" using Cons.prems none by (cases "vmm_unmap_page v st") auto
  then show ?case using Cons by (simp add: on_vmem_def)
qed simp

section \<open>Properties\<close>

lemma create_parts:
  assumes mem: "on_files (fs_kmalloc sizeof_process_t) k = Some (proc, k1)" "proc \<noteq> 0"
      "on_files (fs_kmalloc PROCESS_KSTACK_SIZE) k1 = Some (ks, k2)" "ks \<noteq> 0"
    and f: "is_file ps (files k2) f data" and u: "uspace (vmem k) V"
    and p: "program_ok data (V \<union> set stack_pages) segs" "set stack_pages \<inter> V = {}" "length (program_pages segs) \<le> 60"
      "e_entry (ehdr_of (take 52 data)) \<noteq> 0"
    and fr: "frames_left (2 * (length (program_pages segs) + 4)) (vpmm (vmem k))"
  obtains s st where "process_create io f k = Some (proc, k\<lparr>files := s, vmem := st, procs := (procs k)(proc :=
        \<lparr>entry = e_entry (ehdr_of (take 52 data)), stack_top = 0xBFFFFFFC, exit_code = 0, kstack = ks,
         kstack_top = ks + PROCESS_KSTACK_SIZE, mapped_pages = program_pages segs @ stack_pages\<rparr>)\<rparr>)"
    "is_file ps s f data" "uspace st (V \<union> set (program_pages segs @ stack_pages))"
    "\<forall>ph \<in> set segs. \<forall>c. covers ph c \<longrightarrow> load_byte st c = Some (seg_image data ph c)"
    "\<forall>a. ENTRY_GET_FRAME a \<in> V \<longrightarrow> load_byte st a = load_byte (vmem k) a"
proof -
  obtain s1 where k1: "k1 = k\<lparr>files := s1\<rparr>" using mem(1) by (auto simp: on_files_def)
  obtain s2 where k2: "k2 = k\<lparr>files := s2\<rparr>" using mem(3) by (auto simp: on_files_def k1)
  have pv: "program_ok data V segs" and dj: "set (program_pages segs) \<inter> set stack_pages = {}"
    using p(1) by (auto simp: program_ok_def Let_def)
  obtain s st1 where l: "elf_load io f [] PROCESS_MAX_PAGES k2
        = Some (e_entry (ehdr_of (take 52 data)), program_pages segs, k\<lparr>files := s, vmem := st1\<rparr>)"
      "is_file ps s f data" "uspace st1 (V \<union> set (program_pages segs))" "frames_left (2 * 4) (vpmm st1)"
      "\<forall>ph \<in> set segs. \<forall>c. covers ph c \<longrightarrow> load_byte st1 c = Some (seg_image data ph c)"
      "\<forall>a. ENTRY_GET_FRAME a \<in> V \<longrightarrow> load_byte st1 a = load_byte (vmem k) a"
  proof -
    have "uspace (vmem k2) V" "frames_left (2 * (length (program_pages segs) + 4)) (vpmm (vmem k2))"
      using u fr by (simp_all add: k2)
    moreover have "add_pages PROCESS_MAX_PAGES [] (program_pages segs) = program_pages segs"
      using p(3) by (simp add: add_pages_def PROCESS_MAX_PAGES_def)
    ultimately show thesis using elf_load_image [OF f _ pv, of 4 io "[]" PROCESS_MAX_PAGES] that by (auto simp: k2)
  qed
  have d: "set (drop 0 stack_pages) \<inter> (V \<union> set (program_pages segs)) = {}" using p(2) dj by auto
  have "add_pages PROCESS_MAX_PAGES (program_pages segs) stack_pages = program_pages segs @ stack_pages"
    using p(3) by (simp add: add_pages_def PROCESS_MAX_PAGES_def stack_pages_def)
  then obtain st where m: "map_stack 4 0 (program_pages segs) (k\<lparr>files := s, vmem := st1\<rparr>)
        = Some (True, program_pages segs @ stack_pages, k\<lparr>files := s, vmem := st\<rparr>)"
      "uspace st (V \<union> set (program_pages segs) \<union> set stack_pages)"
      "\<forall>a. ENTRY_GET_FRAME a \<in> V \<union> set (program_pages segs) \<longrightarrow> load_byte st a = load_byte st1 a"
    using map_stack_pages [of "k\<lparr>files := s, vmem := st1\<rparr>" "V \<union> set (program_pages segs)" 0 4 "program_pages segs"] l(3,4) d
    by auto
  have im: "load_byte st c = Some (seg_image data ph c)" if "ph \<in> set segs" "covers ph c" for ph c
  proof -
    have "seg_fits data ph" using pv that(1) by (simp add: program_ok_def)
    then have "ENTRY_GET_FRAME c \<in> set (program_pages segs)"
      using seg_bounds(4) that by (fastforce simp: covers_def program_pages_def)
    then show ?thesis using m(3) l(5) that by simp
  qed
  have "process_create io f k = Some (proc, k\<lparr>files := s, vmem := st, procs := (procs k)(proc :=
        \<lparr>entry = e_entry (ehdr_of (take 52 data)), stack_top = 0xBFFFFFFC, exit_code = 0, kstack = ks,
         kstack_top = ks + PROCESS_KSTACK_SIZE, mapped_pages = program_pages segs @ stack_pages\<rparr>)\<rparr>)"
    using mem l(1) m(1) p(4) by (simp add: process_create_def USER_STACK_PAGES_def USER_STACK_TOP_def)
  then show thesis using that l(2,6) m(2,3) im by (auto simp: Un_assoc)
qed

lemma free_parts:
  assumes "kstack (procs k proc) = ks" "mapped_pages (procs k proc) = P" "proc \<noteq> 0"
    and "uspace (vmem k) (V \<union> set P)" "distinct P" "set P \<inter> V = {}"
    and "owned (heap (files k)) (insert ks (insert proc qs))" "proc \<notin> qs" "ks \<notin> insert proc qs"
  obtains k' where "process_free proc k = Some k'" "uspace (vmem k') V" "owned (heap (files k')) qs" "con k' = con k"
    "\<forall>a. ENTRY_GET_FRAME a \<in> set P \<longrightarrow> load_byte (vmem k') a = None"
    "\<forall>a. ENTRY_GET_FRAME a \<in> V \<longrightarrow> load_byte (vmem k') a = load_byte (vmem k) a"
proof -
  obtain st where st: "foldl (\<lambda>m v. m \<bind> vmm_unmap_page v) (Some (vmem k)) P = Some st" "uspace st (V \<union> set P - set P)"
      "\<forall>a. ENTRY_GET_FRAME a \<in> set P \<longrightarrow> load_byte st a = None"
      "\<forall>a. ENTRY_GET_FRAME a \<in> V \<union> set P - set P \<longrightarrow> load_byte st a = load_byte (vmem k) a"
    using us.unmap_list [OF assms(4), of P] assms(5) by blast
  have V: "V \<union> set P - set P = V" using assms(6) by auto
  have un: "foldl (\<lambda>k v. k \<bind> on_vmem (vmm_unmap_page v)) (Some k) P = Some (k\<lparr>vmem := st\<rparr>)"
    using unmap_pages_kernel [OF st(1), of k] by simp
  have "insert ks (insert proc qs) - {ks} = insert proc qs" "insert proc qs - {proc} = qs" using assms(8,9) by auto
  then have "owned (kfree ks (heap (files k))) (insert proc qs)" and sp: "insert proc qs - {proc} = qs"
    using ka.free_own [OF assms(7), of ks] by (metis insertI1)+
  from ka.free_own [OF this(1), of proc] have "owned (kfree proc (kfree ks (heap (files k)))) qs" unfolding sp by blast
  moreover have "process_free proc k = Some (kkfree proc (kkfree ks (k\<lparr>vmem := st\<rparr>)))"
    using assms(1-3) un by (simp add: process_free_def)
  ultimately show thesis using st V by (intro that [of "kkfree proc (kkfree ks (k\<lparr>vmem := st\<rparr>))"]) (simp_all add: kkfree_def fs_kfree_def)
qed

lemma create_fresh:
  assumes "owned (heap (files k)) ps"
    "on_files (fs_kmalloc sizeof_process_t) k = Some (proc, k1)" "proc \<noteq> 0"
    "on_files (fs_kmalloc PROCESS_KSTACK_SIZE) k1 = Some (ks, k2)" "ks \<noteq> 0"
  shows "proc \<notin> ps" "ks \<notin> insert proc ps"
proof -
  obtain h1 where h1: "kmalloc sizeof_process_t (heap (files k)) = Some (proc, h1)" "k1 = k\<lparr>files := (files k)\<lparr>heap := h1\<rparr>\<rparr>"
    using assms(2) by (auto simp: on_files_def fs_kmalloc_def)
  then have 1: "proc \<notin> ps" "owned h1 (insert proc ps)" using ka.alloc_some [OF assms(1) h1(1) assms(3)] by simp_all
  obtain h2 where "kmalloc PROCESS_KSTACK_SIZE h1 = Some (ks, h2)"
    using assms(4) by (auto simp: on_files_def fs_kmalloc_def h1(2))
  then show "proc \<notin> ps" "ks \<notin> insert proc ps" using 1 ka.alloc_some [OF 1(2) _ assms(5)] by auto
qed

lemma program_stack_apart:
  assumes "program_ok data (V \<union> set stack_pages) segs" "set stack_pages \<inter> V = {}"
  shows "distinct (program_pages segs @ stack_pages)" "set (program_pages segs @ stack_pages) \<inter> V = {}"
  using assms by (auto simp: program_ok_def Let_def) (auto simp: stack_pages_def)

text \<open>
  C3. A process is created and freed without trace. With heap and frames enough for it, \<open>process_create\<close>
  on a valid program returns a process whose memory holds the program and four stack pages ending at 3 GiB,
  entered at the file's entry point; once \<open>process_free\<close> has run, none of its pages is mapped, the pages
  mapped before have their contents, and the heap has back what it gave.
\<close>

theorem process_create_free:
  assumes "owned (heap (files k)) ps"
    "on_files (fs_kmalloc sizeof_process_t) k = Some (proc, k1)" "proc \<noteq> 0"
    "on_files (fs_kmalloc PROCESS_KSTACK_SIZE) k1 = Some (ks, k2)" "ks \<noteq> 0"
    "is_file (insert ks (insert proc ps)) (files k2) f data" "uspace (vmem k) V"
    "program_ok data (V \<union> set stack_pages) segs" "set stack_pages \<inter> V = {}" "length (program_pages segs) \<le> 60"
    "e_entry (ehdr_of (take 52 data)) \<noteq> 0" "frames_left (2 * (length (program_pages segs) + 4)) (vpmm (vmem k))"
  shows "\<exists>k'. process_create io f k = Some (proc, k')
    \<and> entry (procs k' proc) = e_entry (ehdr_of (take 52 data)) \<and> stack_top (procs k' proc) = 0xBFFFFFFC
    \<and> uspace (vmem k') (V \<union> set (program_pages segs) \<union> set stack_pages)
    \<and> (\<forall>ph \<in> set segs. \<forall>c. covers ph c \<longrightarrow> load_byte (vmem k') c = Some (seg_image data ph c))
    \<and> (\<exists>k''. process_free proc k' = Some k'' \<and> uspace (vmem k'') V \<and> owned (heap (files k'')) ps
        \<and> (\<forall>a. ENTRY_GET_FRAME a \<in> set (program_pages segs) \<union> set stack_pages \<longrightarrow> load_byte (vmem k'') a = None)
        \<and> (\<forall>a. ENTRY_GET_FRAME a \<in> V \<longrightarrow> load_byte (vmem k'') a = load_byte (vmem k) a))"
proof -
  let ?P = "program_pages segs @ stack_pages"
  obtain s st where c: "process_create io f k = Some (proc, k\<lparr>files := s, vmem := st, procs := (procs k)(proc :=
        \<lparr>entry = e_entry (ehdr_of (take 52 data)), stack_top = 0xBFFFFFFC, exit_code = 0, kstack = ks,
         kstack_top = ks + PROCESS_KSTACK_SIZE, mapped_pages = ?P\<rparr>)\<rparr>)"
    "is_file (insert ks (insert proc ps)) s f data" "uspace st (V \<union> set ?P)"
    "\<forall>ph \<in> set segs. \<forall>c. covers ph c \<longrightarrow> load_byte st c = Some (seg_image data ph c)"
    "\<forall>a. ENTRY_GET_FRAME a \<in> V \<longrightarrow> load_byte st a = load_byte (vmem k) a"
    by (rule create_parts [OF assms(2-12)])
  define k' where "k' = k\<lparr>files := s, vmem := st, procs := (procs k)(proc :=
        \<lparr>entry = e_entry (ehdr_of (take 52 data)), stack_top = 0xBFFFFFFC, exit_code = 0, kstack = ks,
         kstack_top = ks + PROCESS_KSTACK_SIZE, mapped_pages = ?P\<rparr>)\<rparr>"
  have own: "owned (heap (files k')) (insert ks (insert proc ps))" using is_file_owned [OF c(2)] by (simp add: k'_def)
  note fresh = create_fresh [OF assms(1-5)]
  have pr: "kstack (procs k' proc) = ks" "mapped_pages (procs k' proc) = ?P" "uspace (vmem k') (V \<union> set ?P)"
    using c(3) by (simp_all add: k'_def)
  obtain k'' where f: "process_free proc k' = Some k''" "uspace (vmem k'') V" "owned (heap (files k'')) ps"
      "\<forall>a. ENTRY_GET_FRAME a \<in> set ?P \<longrightarrow> load_byte (vmem k'') a = None"
      "\<forall>a. ENTRY_GET_FRAME a \<in> V \<longrightarrow> load_byte (vmem k'') a = load_byte (vmem k') a"
    by (rule free_parts [OF pr(1,2) assms(3) pr(3) program_stack_apart [OF assms(8,9)] own fresh])
  have "process_create io f k = Some (proc, k')" using c(1) by (simp add: k'_def)
  moreover have "uspace (vmem k') (V \<union> set (program_pages segs) \<union> set stack_pages)" using c(3) by (simp add: k'_def Un_assoc)
  moreover have "entry (procs k' proc) = e_entry (ehdr_of (take 52 data))" "stack_top (procs k' proc) = 0xBFFFFFFC" "vmem k' = st"
    by (simp_all add: k'_def)
  moreover have "set ?P = set (program_pages segs) \<union> set stack_pages" by simp
  ultimately show ?thesis using f c(4,5) by (metis (lifting))
qed

lemma prefix_frames:
  "(\<And>f. mmap_test f s \<longleftrightarrow> f < m) \<Longrightarrow> unat (mmngr_used_blocks s) = m \<Longrightarrow> 0 < m \<Longrightarrow> m + n < unat (mmngr_max_blocks s)
    \<Longrightarrow> m + n \<le> scanned_frames s \<Longrightarrow> m + n \<le> 1048576 \<Longrightarrow> frames_left n s"
proof (induction n arbitrary: s m)
  case (Suc n)
  have ne: "mmngr_max_blocks s \<noteq> mmngr_used_blocks s" using Suc.prems(2,4) by auto
  have a: "pmmngr_alloc_block s = (of_nat m * 4096, take_frame m s)"
    by (rule alloc_block_at) (use Suc.prems ne in auto)
  have m: "m < 1048576" using Suc.prems(6) by simp
  then have "unat (of_nat m * 4096 :: u32) = m * 4096" by (intro unat_frame_addr) simp
  then have "of_nat m * 4096 \<noteq> (0 :: u32)" using Suc.prems(3) by (auto simp: word_unat_eq_iff)
  moreover have "unat (mmngr_used_blocks s + 1) = m + 1"
    using Suc.prems(2,4) unat_lt_2p32 [of "mmngr_max_blocks s"] unat_plus_one [of "mmngr_used_blocks s"] by linarith
  moreover have "frames_left n (take_frame m s)"
  proof (rule Suc.IH [of _ "m + 1"])
    show "mmap_test f (take_frame m s) \<longleftrightarrow> f < m + 1" for f using Suc.prems(1) [of f] by (auto simp: take_frame_test)
    show "unat (mmngr_used_blocks (take_frame m s)) = m + 1" using calculation(2) by (simp add: frame_simps)
    show "m + 1 + n \<le> scanned_frames (take_frame m s)" using Suc.prems(5) by (simp add: scanned_frames_def frame_simps)
  qed (use Suc.prems in \<open>simp_all add: frame_simps\<close>)
  ultimately show ?case by (simp add: a)
qed simp

lemma demo_more_frames: "frames_left 10 (vpmm vm_demo)"
  by (rule prefix_frames [of _ 1026])
    (simp_all add: vm_demo_used, simp_all add: vm_demo_def pmm_static_def scanned_frames_def)

lemma process_create_free_witness:
  "\<exists>k'. process_create recorder_unit 1 demo_kernel = Some (0x300010, k')
    \<and> load_byte (vmem k') 0x40000001 = Some 0xFE \<and> entry (procs k' 0x300010) = 0x40000000
    \<and> (\<exists>k''. process_free 0x300010 k' = Some k'' \<and> owned (heap (files k'')) {} \<and> load_byte (vmem k'') 0x40000001 = None)"
proof -
  have h0: "heap_at (kmem kheap_demo) 0x300000 [(0xFFFF0, True)]" "heap_start_ptr kheap_demo = 0x300000"
    using kheap_demo_heap by (simp_all add: kheap_demo_def)
  obtain h1 where h1: "kmalloc sizeof_process_t kheap_demo = Some (0x300010, h1)" "heap_start_ptr h1 = 0x300000"
      "heap_at (kmem h1) 0x300000 [(280, False), (0xFFEC8, True)]"
    using kmalloc_on_blocks [of kheap_demo "[(0xFFFF0, True)]" sizeof_process_t] h0
    by (auto simp: split_block_def sizeof_process_t_def)
  obtain h2 where h2: "kmalloc PROCESS_KSTACK_SIZE h1 = Some (0x300138, h2)" "heap_start_ptr h2 = 0x300000"
      "heap_at (kmem h2) 0x300000 [(280, False), (8192, False), (0xFDEB8, True)]"
    using kmalloc_on_blocks [of h1 "[(280, False), (0xFFEC8, True)]" PROCESS_KSTACK_SIZE] h1
    by (auto simp: split_block_def PROCESS_KSTACK_SIZE_def)
  let ?k1 = "demo_kernel\<lparr>files := demo_elf_fs\<lparr>heap := h1\<rparr>\<rparr>" and ?k2 = "demo_kernel\<lparr>files := demo_elf_fs\<lparr>heap := h2\<rparr>\<rparr>"
  have hd: "heap demo_elf_fs = kheap_demo" "files demo_kernel = demo_elf_fs" by (simp_all add: demo_elf_fs_def demo_kernel_def)
  have m: "on_files (fs_kmalloc sizeof_process_t) demo_kernel = Some (0x300010, ?k1)"
    "on_files (fs_kmalloc PROCESS_KSTACK_SIZE) ?k1 = Some (0x300138, ?k2)"
    using h1(1) h2(1) by (simp_all add: on_files_def fs_kmalloc_def hd)
  have own: "owned (heap (files demo_kernel)) {}"
    using heap_has_owned [OF demo_heap] by (simp add: hd)
  have f: "is_file (insert 0x300138 (insert 0x300010 {})) (files ?k2) 1 demo_elf"
  proof -
    have "heap_has h2 [(280, False), (8192, False), (0xFDEB8, True)]" using h2 by (simp add: heap_has_def)
    moreover have "ucast (sectors_per_cluster (bpb (vol demo_elf_fs))) * 512 \<le> (0xFDEB8 :: u32)"
      by (simp add: demo_elf_fs_def frame_simps demo_one_facts(5))
    ultimately have "cluster_buffer (demo_elf_fs\<lparr>heap := h2\<rparr>) [(280, False), (8192, False), (0xFDEB8, True)]"
      by (simp add: cluster_buffer_def)
    moreover have "used_ptrs (heap_start_ptr h2) [(280, False), (8192, False), (0xFDEB8, True)] = {0x300138, 0x300010}"
      by (auto simp: h2(2))
    ultimately show ?thesis using demo_elf_file unfolding is_file_def by fastforce
  qed
  have u: "uspace (vmem demo_kernel) {}" using vm_demo_inv by (simp add: uspace_def demo_kernel_def)
  have p: "program_ok demo_elf ({} \<union> set stack_pages) [demo_phdr]"
  proof -
    have "set (program_pages [demo_phdr]) \<inter> ({} \<union> set stack_pages) = {}" by (simp add: demo_program(2) stack_pages_def)
    then show ?thesis using demo_program(1) unfolding program_ok_def by blast
  qed
  have fr: "frames_left (2 * (length (program_pages [demo_phdr]) + 4)) (vpmm (vmem demo_kernel))"
    using demo_more_frames by (simp add: demo_program(2) demo_kernel_def)
  have c: "covers demo_phdr 0x40000001" "seg_image demo_elf demo_phdr 0x40000001 = 0xFE" "ENTRY_GET_FRAME 0x40000001 = 0x40000000"
    by (simp_all add: covers_def seg_image_def demo_phdr_def demo_elf_def ENTRY_GET_FRAME_def)
  from process_create_free [OF own m(1) _ m(2) _ f u p, of recorder_unit] fr
  obtain k' k'' where "process_create recorder_unit 1 demo_kernel = Some (0x300010, k')"
      "entry (procs k' 0x300010) = 0x40000000"
      "\<forall>c. covers demo_phdr c \<longrightarrow> load_byte (vmem k') c = Some (seg_image demo_elf demo_phdr c)"
      "process_free 0x300010 k' = Some k''" "owned (heap (files k'')) {}"
      "\<forall>a. ENTRY_GET_FRAME a = 0x40000000 \<or> ENTRY_GET_FRAME a \<in> set stack_pages \<longrightarrow> load_byte (vmem k'') a = None"
    by (auto simp: demo_program(2,3))
  then show ?thesis using c by auto
qed

end
