(* ===== verification/Keyboard.thy ===== *)
theory Keyboard
  imports Process
begin

text \<open>
  The keyboard driver \<^verbatim>\<open>drivers/keyboard.c\<close>: scancodes, modifier keys, the ring of 256 characters with its two
  8-bit indices, and Ctrl+C. \<open>fifo\<close> is the contract of the ring for those who type and those who read.
\<close>

definition KEYBOARD_DATA_PORT :: u16 where "KEYBOARD_DATA_PORT = 0x60"

definition scancode_to_ascii :: bytes where
  "scancode_to_ascii = [0, 0] @ str ''1234567890-='' @ [0x08, 0x09] @ str ''qwertyuiop[]'' @ [0x0A, 0]
     @ str ''asdfghjkl;'' @ [0x27, 0x60, 0, 0x5C] @ str ''zxcvbnm,./'' @ [0, 0x2A, 0, 0x20]"

definition scancode_to_ascii_upper :: bytes where
  "scancode_to_ascii_upper = [0, 0] @ str ''!@#$%^&*()-='' @ [0, 0x09] @ str ''QWERTYUIOP{}'' @ [0x0A, 0]
     @ str ''ASDFGHJKL:'' @ [0x22, 0x7E, 0, 0x7C] @ str ''ZXCVBNM<>?'' @ [0, 0x2A, 0, 0x20]"

text \<open>The character of a key press, 0 for none.\<close>

definition key_char :: "bool \<Rightarrow> bool \<Rightarrow> u8 \<Rightarrow> u8" where
  "key_char shift cap sc =
     (if unat sc < length scancode_to_ascii
      then (let c = (if shift then scancode_to_ascii_upper ! unat sc else scancode_to_ascii ! unat sc)
            in if cap \<and> c \<ge> 0x61 \<and> c \<le> 0x7A then c - 32 else c)
      else 0)"

definition key_put :: "u8 \<Rightarrow> keyboard \<Rightarrow> keyboard" where
  "key_put c b = b\<lparr>key_buffer := (key_buffer b)[unat (buf_tail b) := c], buf_tail := buf_tail b + 1\<rparr>"

text \<open>The effect of a scancode on the driver's variables.\<close>

definition key_event :: "u8 \<Rightarrow> keyboard \<Rightarrow> keyboard" where
  "key_event sc b =
     (if sc AND 0x80 \<noteq> 0
      then (let b = (if sc = 0xAA \<or> sc = 0xB6 then b\<lparr>shift_key := False\<rparr> else b)
            in if sc = 0x9D then b\<lparr>ctrl := False\<rparr> else b)
      else if sc = 0x1D then b\<lparr>ctrl := True\<rparr>
      else if sc = 0x2A \<or> sc = 0x36 then b\<lparr>shift_key := True\<rparr>
      else if ctrl b \<and> sc = 0x2E then b
      else if sc = 0x3A then b\<lparr>caps := \<not> caps b\<rparr>
      else (let c = key_char (shift_key b) (caps b) sc in if c \<noteq> 0 then key_put c b else b))"

text \<open>Whether a scancode is the Ctrl+C that asks for the end of the running process.\<close>

definition is_ctrl_c :: "u8 \<Rightarrow> keyboard \<Rightarrow> bool" where
  "is_ctrl_c sc b \<longleftrightarrow> sc AND 0x80 = 0 \<and> ctrl b \<and> sc = 0x2E"

definition keyboard_handler :: "'s ports \<Rightarrow> 's kernel \<Rightarrow> 's kernel" where
  "keyboard_handler io k =
     (let (sc, w) = inb io KEYBOARD_DATA_PORT (wire (con k));
          k = on_wire (\<lambda>_. w) k;
          k = (if is_ctrl_c sc (kbd k) \<and> process_is_running k then process_signal_kill k else k)
      in k\<lparr>kbd := key_event sc (kbd k)\<rparr>)"

definition keyboard_getchar :: "keyboard \<Rightarrow> u8 \<times> keyboard" where
  "keyboard_getchar b =
     (if buf_head b = buf_tail b then (0, b)
      else (key_buffer b ! unat (buf_head b), b\<lparr>buf_head := buf_head b + 1\<rparr>))"

definition keyboard_flush :: "keyboard \<Rightarrow> keyboard" where
  "keyboard_flush b = b\<lparr>buf_head := buf_tail b\<rparr>"

section \<open>A queue\<close>

text \<open>Reading \<open>n\<close> times.\<close>

fun reads :: "('q \<Rightarrow> 'a \<times> 'q) \<Rightarrow> nat \<Rightarrow> 'q \<Rightarrow> 'a list \<times> 'q" where
  "reads get 0 q = ([], q)"
| "reads get (Suc n) q = (let (x, q) = get q; (xs, q) = reads get n q in (x # xs, q))"

locale fifo =
  fixes put :: "'a \<Rightarrow> 'q \<Rightarrow> 'q" and get :: "'q \<Rightarrow> 'a \<times> 'q" and items :: "'q \<Rightarrow> 'a list" and ok :: "'q \<Rightarrow> bool" and cap :: nat
  assumes put_items: "ok q \<Longrightarrow> length (items q) < cap \<Longrightarrow> ok (put x q) \<and> items (put x q) = items q @ [x]"
    and get_item: "ok q \<Longrightarrow> items q = x # xs \<Longrightarrow> fst (get q) = x \<and> ok (snd (get q)) \<and> items (snd (get q)) = xs"
begin

lemma puts_items: "ok q \<Longrightarrow> length (items q) + length xs \<le> cap \<Longrightarrow> ok (fold put xs q) \<and> items (fold put xs q) = items q @ xs"
  by (induction xs arbitrary: q) (auto simp: put_items)

lemma gets_items: "ok q \<Longrightarrow> items q = xs @ ys \<Longrightarrow>
    fst (reads get (length xs) q) = xs \<and> ok (snd (reads get (length xs) q)) \<and> items (snd (reads get (length xs) q)) = ys"
proof (induction xs arbitrary: q)
  case (Cons x xs)
  then have "fst (get q) = x \<and> ok (snd (get q)) \<and> items (snd (get q)) = xs @ ys" by (intro get_item) simp_all
  then show ?case using Cons.IH [of "snd (get q)"] by (auto simp: split_beta Let_def)
qed simp

text \<open>What was put is read back in order.\<close>

lemma put_get: "ok q \<Longrightarrow> items q = [] \<Longrightarrow> length xs \<le> cap \<Longrightarrow>
    fst (reads get (length xs) (fold put xs q)) = xs \<and> items (snd (reads get (length xs) (fold put xs q))) = []"
  using puts_items [of q xs] gets_items [of "fold put xs q" xs "[]"] by auto

end

text \<open>The characters waiting in the ring.\<close>

definition pending :: "keyboard \<Rightarrow> bytes" where
  "pending b = map (\<lambda>i. key_buffer b ! unat (buf_head b + of_nat i)) [0..<unat (buf_tail b - buf_head b)]"

definition ring_ok :: "keyboard \<Rightarrow> bool" where
  "ring_ok b \<longleftrightarrow> length (key_buffer b) = 256"

lemma of_nat_u8_eq: "i < 256 \<Longrightarrow> j < 256 \<Longrightarrow> (of_nat i :: u8) = of_nat j \<longleftrightarrow> i = j"
  by (simp add: word_unat_eq_iff unat_of_nat)

lemma pending_put:
  assumes "ring_ok b" "length (pending b) < 255"
  shows "pending (key_put c b) = pending b @ [c]"
proof -
  define n where "n = unat (buf_tail b - buf_head b)"
  have n: "n < 255" using assms(2) by (simp add: pending_def n_def)
  have t: "buf_tail b = buf_head b + of_nat n" by (simp add: n_def)
  have "unat (buf_tail b + 1 - buf_head b) = n + 1"
  proof -
    have "buf_tail b + 1 - buf_head b = of_nat (n + 1)" by (simp add: t)
    then show ?thesis using n by (simp add: unat_of_nat del: of_nat_add of_nat_Suc)
  qed
  moreover have "(key_buffer b)[unat (buf_tail b) := c] ! unat (buf_head b + of_nat i) = key_buffer b ! unat (buf_head b + of_nat i)"
    if "i < n" for i
  proof -
    have "buf_head b + of_nat i \<noteq> buf_head b + (of_nat n :: u8)" using that n of_nat_u8_eq [of i n] by simp
    then show ?thesis using t by (simp add: word_unat_eq_iff)
  qed
  moreover have "(key_buffer b)[unat (buf_tail b) := c] ! unat (buf_head b + of_nat n) = c"
    using assms(1) by (simp add: t [symmetric] ring_ok_def)
  ultimately show ?thesis by (simp add: pending_def key_put_def n_def [symmetric])
qed

lemma pending_get:
  assumes "pending b = c # cs"
  shows "fst (keyboard_getchar b) = c" "pending (snd (keyboard_getchar b)) = cs"
proof -
  define n where "n = unat (buf_tail b - buf_head b)"
  have "length (pending b) = n" by (simp add: pending_def n_def)
  then have n: "n \<noteq> 0" "n < 256" using assms unsigned_less [of "buf_tail b - buf_head b"] by (auto simp: n_def)
  then have ne: "buf_head b \<noteq> buf_tail b" by (auto simp: n_def)
  obtain m where m: "n = Suc m" using n(1) not0_implies_Suc by blast
  have p: "pending b = key_buffer b ! unat (buf_head b) # map (\<lambda>i. key_buffer b ! unat (buf_head b + of_nat (Suc i))) [0..<m]"
    by (simp add: pending_def n_def [symmetric] m upt_conv_Cons map_Suc_upt [symmetric] del: upt_Suc)
  then show "fst (keyboard_getchar b) = c" using assms ne by (simp add: keyboard_getchar_def)
  have "unat (buf_tail b - (buf_head b + 1)) = m"
  proof -
    have "buf_tail b - (buf_head b + 1) = of_nat n - 1" by (simp add: n_def)
    also have "\<dots> = of_nat m" by (simp add: m)
    finally show ?thesis using n(2) m by (simp add: unat_of_nat)
  qed
  then show "pending (snd (keyboard_getchar b)) = cs"
    using assms p ne by (simp add: keyboard_getchar_def pending_def add.assoc)
qed

interpretation kq: fifo key_put keyboard_getchar pending ring_ok 255
proof
  show "ring_ok (key_put x q) \<and> pending (key_put x q) = pending q @ [x]" if "ring_ok q" "length (pending q) < 255" for q x
    using pending_put [OF that] that(1) by (simp add: ring_ok_def key_put_def)
  show "fst (keyboard_getchar q) = x \<and> ring_ok (snd (keyboard_getchar q)) \<and> pending (snd (keyboard_getchar q)) = xs"
    if "ring_ok q" "pending q = x # xs" for q x xs
    using pending_get [OF that(2)] that(1) by (simp add: ring_ok_def keyboard_getchar_def)
qed

section \<open>What is typed\<close>

text \<open>The characters a sequence of scancodes stands for, given the state of Shift, Caps Lock and Ctrl.\<close>

fun typed_text :: "bool \<Rightarrow> bool \<Rightarrow> bool \<Rightarrow> u8 list \<Rightarrow> bytes" where
  "typed_text sh cp ct [] = []"
| "typed_text sh cp ct (sc # scs) =
     (if sc AND 0x80 \<noteq> 0 then typed_text (sh \<and> sc \<noteq> 0xAA \<and> sc \<noteq> 0xB6) cp (ct \<and> sc \<noteq> 0x9D) scs
      else if sc = 0x1D then typed_text sh cp True scs
      else if sc = 0x2A \<or> sc = 0x36 then typed_text True cp ct scs
      else if ct \<and> sc = 0x2E then typed_text sh cp ct scs
      else if sc = 0x3A then typed_text sh (\<not> cp) ct scs
      else (if key_char sh cp sc = 0 then [] else [key_char sh cp sc]) @ typed_text sh cp ct scs)"

lemma key_event_typed:
  "ring_ok b \<Longrightarrow> length (pending b) + length (typed_text (shift_key b) (caps b) (ctrl b) scs) \<le> 255 \<Longrightarrow>
    ring_ok (fold key_event scs b) \<and> pending (fold key_event scs b) = pending b @ typed_text (shift_key b) (caps b) (ctrl b) scs"
proof (induction scs arbitrary: b)
  case (Cons sc scs)
  have same: "pending (b\<lparr>shift_key := x\<rparr>) = pending b" "pending (b\<lparr>caps := x\<rparr>) = pending b" "pending (b\<lparr>ctrl := x\<rparr>) = pending b"
    "ring_ok (b\<lparr>shift_key := x\<rparr>) = ring_ok b" "ring_ok (b\<lparr>caps := x\<rparr>) = ring_ok b" "ring_ok (b\<lparr>ctrl := x\<rparr>) = ring_ok b" for b x
    by (simp_all add: pending_def ring_ok_def)
  have mods: "shift_key (key_put c b) = shift_key b" "caps (key_put c b) = caps b" "ctrl (key_put c b) = ctrl b" for c
    by (simp_all add: key_put_def)
  consider (release) "sc AND 0x80 \<noteq> 0" | (ctrl) "sc = 0x1D" | (shift) "sc = 0x2A \<or> sc = 0x36" | (kill) "ctrl b" "sc = 0x2E"
    | (caps) "sc = 0x3A" | (key) "sc AND 0x80 = 0" "sc \<noteq> 0x1D" "sc \<noteq> 0x2A" "sc \<noteq> 0x36" "\<not> (ctrl b \<and> sc = 0x2E)" "sc \<noteq> 0x3A"
    by blast
  then show ?case
  proof cases
    case release
    have "key_event sc b = b\<lparr>shift_key := shift_key b \<and> sc \<noteq> 0xAA \<and> sc \<noteq> 0xB6, ctrl := ctrl b \<and> sc \<noteq> 0x9D\<rparr>"
      using release by (auto simp: key_event_def)
    then show ?thesis using release Cons by (simp add: same)
  next
    case key
    define c where "c = key_char (shift_key b) (caps b) sc"
    have e: "key_event sc b = (if c \<noteq> 0 then key_put c b else b)" using key by (auto simp: key_event_def c_def Let_def)
    have t: "typed_text (shift_key b) (caps b) (ctrl b) (sc # scs) = (if c = 0 then [] else [c]) @ typed_text (shift_key b) (caps b) (ctrl b) scs"
      using key by (auto simp: c_def)
    show ?thesis
    proof (cases "c = 0")
      case False
      then have "ring_ok (key_put c b) \<and> pending (key_put c b) = pending b @ [c]"
        using Cons.prems kq.put_items [of b c] unfolding t by simp
      then show ?thesis using False Cons.IH [of "key_put c b"] Cons.prems unfolding t by (simp add: e mods)
    next
      case True
      then have "fold key_event (sc # scs) b = fold key_event scs b" by (simp add: e)
      moreover have "typed_text (shift_key b) (caps b) (ctrl b) (sc # scs) = typed_text (shift_key b) (caps b) (ctrl b) scs"
        using t True by simp
      ultimately show ?thesis using Cons.IH [of b] Cons.prems by simp
    qed
  qed (use Cons in \<open>auto simp: key_event_def same\<close>)
qed simp

section \<open>Properties\<close>

text \<open>
  C21. What is typed is read back. From an empty ring, as long as no more than 255 characters wait, the reader
  gets exactly the characters the scancodes stand for, in order, each once, and then 0.
\<close>

theorem keyboard_typed_read_back:
  assumes "ring_ok b" "pending b = []" "cs = typed_text (shift_key b) (caps b) (ctrl b) scs" "length cs \<le> 255"
  shows "fst (reads keyboard_getchar (length cs) (fold key_event scs b)) = cs
    \<and> fst (keyboard_getchar (snd (reads keyboard_getchar (length cs) (fold key_event scs b)))) = 0"
proof -
  have k: "ring_ok (fold key_event scs b)" "pending (fold key_event scs b) = cs @ []"
    using key_event_typed [of b scs] assms by simp_all
  note g = kq.gets_items [OF k]
  have z: "fst (keyboard_getchar q) = 0" if "pending q = []" for q
    using that by (simp add: pending_def keyboard_getchar_def unat_eq_zero)
  show ?thesis using g z by blast
qed

definition kbd_demo :: keyboard where
  "kbd_demo = \<lparr>key_buffer = replicate 256 0, buf_head = 250, buf_tail = 250, caps = False, shift_key = False, ctrl = False\<rparr>"

lemma keyboard_typed_read_back_witness:
  "fst (reads keyboard_getchar 2 (fold key_event [0x2A, 0x1E, 0x9E, 0xAA, 0x30] kbd_demo)) = str ''Ab''"
proof -
  have l: "length scancode_to_ascii = 58" by (simp add: scancode_to_ascii_def str_def)
  have k: "key_char True False 0x1E = 0x41" "key_char False False 0x30 = 0x62"
    by (simp_all add: key_char_def l) (simp_all add: scancode_to_ascii_def scancode_to_ascii_upper_def str_def)
  have t: "typed_text False False False [0x2A, 0x1E, 0x9E, 0xAA, 0x30] = str ''Ab''"
    by (simp add: k) (simp add: str_def)
  have "ring_ok kbd_demo" "pending kbd_demo = []" by (simp_all add: ring_ok_def pending_def kbd_demo_def)
  moreover have "str ''Ab'' = typed_text (shift_key kbd_demo) (caps kbd_demo) (ctrl kbd_demo) [0x2A, 0x1E, 0x9E, 0xAA, 0x30]"
    unfolding t [symmetric] by (simp add: kbd_demo_def)
  moreover have "length (str ''Ab'') = 2" by (simp add: str_def)
  ultimately show ?thesis
    using keyboard_typed_read_back [of kbd_demo "str ''Ab''" "[0x2A, 0x1E, 0x9E, 0xAA, 0x30]"] by simp
qed

text \<open>
  C40. The ring holds one character less than its size: one more with 255 waiting and the reader finds it
  empty; all 256 are lost.
\<close>

theorem keyboard_overflow:
  assumes "ring_ok b" "length (pending b) = 255"
  shows "pending (key_put c b) = [] \<and> keyboard_getchar (key_put c b) = (0, key_put c b)"
proof -
  have "unat (buf_tail b - buf_head b) = 255" using assms(2) by (simp add: pending_def)
  then have "buf_tail b - buf_head b = 255" by (simp add: word_unat_eq_iff)
  then have "buf_tail b + 1 = buf_head b + 256" by (simp add: algebra_simps)
  then have "buf_tail b + 1 = buf_head b" by simp
  then show ?thesis by (simp add: pending_def key_put_def keyboard_getchar_def)
qed

lemma keyboard_overflow_witness:
  "pending (key_put 0x61 (kbd_demo\<lparr>buf_tail := 249\<rparr>)) = []"
proof -
  have "ring_ok (kbd_demo\<lparr>buf_tail := 249\<rparr>)" by (simp add: ring_ok_def kbd_demo_def)
  moreover have "length (pending (kbd_demo\<lparr>buf_tail := 249\<rparr>)) = 255"
  proof -
    have "- 1 = (255 :: u8)" by simp
    moreover have "unat (255 :: u8) = 255" by simp
    ultimately have "unat (- 1 :: u8) = 255" by (simp only:)
    then show ?thesis by (simp add: pending_def kbd_demo_def)
  qed
  ultimately show ?thesis by (rule keyboard_overflow [THEN conjunct1])
qed

end
