(* ===== verification/Timer.thy ===== *)
theory Timer
  imports Keyboard
begin

text \<open>
  Interrupts at work: the installed handlers, \<^verbatim>\<open>drivers/timer.c\<close> and \<^verbatim>\<open>keyboard_install\<close>. A loop that waits for the
  tick counter is given the interrupts that arrive: a list with, for each time round the loop, the vectors
  delivered before the counter is read again. It has the value \<open>None\<close> while it is still waiting at their end.
\<close>

definition PIT_CHANNEL0_DATA :: u16 where "PIT_CHANNEL0_DATA = 0x40"
definition PIT_COMMAND :: u16 where "PIT_COMMAND = 0x43"
definition PIT_BASE_FREQUENCY :: u32 where "PIT_BASE_FREQUENCY = 1193180"

section \<open>Installing handlers\<close>

definition install_handler :: "'s ports \<Rightarrow> u8 \<Rightarrow> irq_handler \<Rightarrow> 's kernel \<Rightarrow> 's kernel" where
  "install_handler io irq h k =
     (let (tab, w) = irq_install_handler io irq h (irq_handlers k, wire (con k))
      in on_wire (\<lambda>_. w) (k\<lparr>irq_handlers := tab\<rparr>))"

definition timer_set_frequency :: "'s ports \<Rightarrow> u32 \<Rightarrow> 's kernel \<Rightarrow> 's kernel" where
  "timer_set_frequency io frequency_hz k =
     (let f = (if frequency_hz = 0 then 100 else frequency_hz);
          divisor = PIT_BASE_FREQUENCY div f;
          divisor = (if divisor = 0 then 1 else divisor);
          k = k\<lparr>timer_frequency := f\<rparr>
      in on_wire (outs io [(PIT_COMMAND, 0x36), (PIT_CHANNEL0_DATA, ucast (divisor AND 0xFF)),
                           (PIT_CHANNEL0_DATA, ucast (drop_bit 8 divisor AND 0xFF))]) k)"

definition timer_install :: "'s ports \<Rightarrow> u32 \<Rightarrow> 's kernel \<Rightarrow> 's kernel" where
  "timer_install io frequency_hz k =
     install_handler io 0 timer_irq (timer_set_frequency io frequency_hz (k\<lparr>timer_ticks := 0\<rparr>))"

definition keyboard_install :: "'s ports \<Rightarrow> 's kernel \<Rightarrow> 's kernel" where
  "keyboard_install io k = install_handler io 1 keyboard_irq k"

section \<open>An interrupt\<close>

definition timer_handler :: "'s ports \<Rightarrow> 's kernel \<Rightarrow> 's kernel flow" where
  "timer_handler io k = process_check_kill io (k\<lparr>timer_ticks := timer_ticks k + 1\<rparr>)"

fun run_handler :: "'s ports \<Rightarrow> irq_handler \<Rightarrow> 's kernel \<Rightarrow> 's kernel flow" where
  "run_handler io timer_irq k = timer_handler io k"
| "run_handler io keyboard_irq k = Returns (keyboard_handler io k)"

definition interrupt :: "'s ports \<Rightarrow> u32 \<Rightarrow> 's kernel \<Rightarrow> 's kernel flow" where
  "interrupt io vector k =
     irq_dispatch (run_handler io) (\<lambda>irq. on_wire (PIC_sendEOI io irq)) (irq_handlers k) vector k"

fun interrupts :: "'s ports \<Rightarrow> u32 list \<Rightarrow> 's kernel \<Rightarrow> 's kernel flow" where
  "interrupts io [] k = Returns k"
| "interrupts io (v # vs) k = (case interrupt io v k of Returns k \<Rightarrow> interrupts io vs k | Unwinds k \<Rightarrow> Unwinds k)"

section \<open>Waiting\<close>

fun wait_until :: "'s ports \<Rightarrow> u32 \<Rightarrow> u32 list list \<Rightarrow> 's kernel \<Rightarrow> ('s kernel flow \<times> u32 list list) option" where
  "wait_until io target arrivals k =
     (if \<not> timer_ticks k < target then Some (Returns k, arrivals)
      else (case arrivals of
          [] \<Rightarrow> None
        | vs # arrivals \<Rightarrow>
            (case interrupts io vs k of
                Returns k \<Rightarrow> wait_until io target arrivals k
              | Unwinds k \<Rightarrow> Some (Unwinds k, arrivals))))"

declare wait_until.simps [simp del]

definition timer_wait :: "'s ports \<Rightarrow> u32 \<Rightarrow> u32 list list \<Rightarrow> 's kernel \<Rightarrow> ('s kernel flow \<times> u32 list list) option" where
  "timer_wait io ticks arrivals k = wait_until io (timer_ticks k + ticks) arrivals k"

definition sleep :: "'s ports \<Rightarrow> u32 \<Rightarrow> u32 list list \<Rightarrow> 's kernel \<Rightarrow> ('s kernel flow \<times> u32 list list) option" where
  "sleep io milliseconds arrivals k =
     (let ticks = (milliseconds * timer_frequency k) div 1000;
          ticks = (if ticks = 0 \<and> milliseconds > 0 then 1 else ticks)
      in timer_wait io ticks arrivals k)"

section \<open>What interrupts do\<close>

text \<open>The handlers the kernel installs at boot.\<close>

definition boot_handlers :: "irq_handler option list" where
  "boot_handlers = [Some timer_irq, Some keyboard_irq] @ replicate 14 None"

lemma boot_handlers_nth: "i < 16 \<Longrightarrow> boot_handlers ! i = (if i = 0 then Some timer_irq else if i = 1 then Some keyboard_irq else None)"
  by (auto simp: boot_handlers_def nth_Cons split: nat.splits)

definition is_tick :: "u32 \<Rightarrow> bool" where
  "is_tick v \<longleftrightarrow> (ucast v :: u8) = 0"

definition ticks_in :: "u32 list list \<Rightarrow> nat" where
  "ticks_in arrivals = length (filter is_tick (concat arrivals))"

text \<open>What an interrupt other than a tick leaves alone.\<close>

definition undisturbed :: "'s kernel \<Rightarrow> 's kernel \<Rightarrow> bool" where
  "undisturbed k k' \<longleftrightarrow> irq_handlers k' = irq_handlers k \<and> current_process k' = current_process k
     \<and> timer_ticks k' = timer_ticks k \<and> timer_frequency k' = timer_frequency k \<and> procs k' = procs k
     \<and> files k' = files k \<and> vmem k' = vmem k \<and> (kill_pending k \<longrightarrow> kill_pending k')
     \<and> (current_process k = 0 \<longrightarrow> kill_pending k' = kill_pending k)"

lemma undisturbed_trans: "undisturbed a b \<Longrightarrow> undisturbed b c \<Longrightarrow> undisturbed a c"
  by (simp add: undisturbed_def)

lemma undisturbed_wire [simp]: "undisturbed k (on_wire f k)"
  by (simp add: undisturbed_def on_wire_def)

lemma keyboard_undisturbed: "undisturbed k (keyboard_handler io k)"
  by (simp add: keyboard_handler_def Let_def undisturbed_def on_wire_def process_signal_kill_def process_is_running_def split: prod.split)

lemma interrupt_other:
  assumes "irq_handlers k = boot_handlers" "\<not> is_tick v"
  obtains k' where "interrupt io v k = Returns k'" "undisturbed k k'"
proof -
  define irq :: u8 where "irq = ucast v"
  have nz: "unat irq \<noteq> 0" using assms(2) by (simp add: is_tick_def irq_def unat_eq_zero)
  define out where "out = (if irq < 16 then (case boot_handlers ! unat irq of Some h \<Rightarrow> run_handler io h k | None \<Rightarrow> Returns k) else Returns k)"
  have "\<exists>k1. out = Returns k1 \<and> undisturbed k k1"
  proof (cases "irq < 16")
    case True
    then have "unat irq < 16" by (simp add: word_less_nat_alt)
    then show ?thesis using True nz keyboard_undisturbed [of k io]
      by (simp add: out_def boot_handlers_nth undisturbed_def)
  qed (simp add: out_def undisturbed_def)
  then obtain k1 where k1: "out = Returns k1" "undisturbed k k1" by blast
  have "interrupt io v k = Returns (on_wire (PIC_sendEOI io irq) k1)"
    using k1(1) unfolding interrupt_def irq_dispatch_def assms(1) Let_def irq_def [symmetric] out_def [symmetric] by simp
  then show thesis using that undisturbed_trans [OF k1(2) undisturbed_wire] by blast
qed

lemma interrupt_tick:
  assumes "irq_handlers k = boot_handlers" "is_tick v"
  shows "interrupt io v k = (case timer_handler io k of
           Returns k \<Rightarrow> Returns (on_wire (PIC_sendEOI io 0) k) | Unwinds k \<Rightarrow> Unwinds k)"
  using assms by (simp add: interrupt_def irq_dispatch_def is_tick_def boot_handlers_nth)

text \<open>With no process running, an interrupt returns; only ticks move the counter.\<close>

definition ticking :: "'s kernel \<Rightarrow> nat \<Rightarrow> 's kernel \<Rightarrow> bool" where
  "ticking k n k' \<longleftrightarrow> irq_handlers k' = irq_handlers k \<and> current_process k' = current_process k
     \<and> timer_ticks k' = timer_ticks k + of_nat n \<and> timer_frequency k' = timer_frequency k \<and> files k' = files k \<and> vmem k' = vmem k"

lemma interrupts_ticking:
  "irq_handlers k = boot_handlers \<Longrightarrow> current_process k = 0 \<Longrightarrow>
    \<exists>k'. interrupts io vs k = Returns k' \<and> ticking k (length (filter is_tick vs)) k'"
proof (induction vs arbitrary: k)
  case Nil
  then show ?case by (simp add: ticking_def)
next
  case (Cons v vs)
  obtain k1 where k1: "interrupt io v k = Returns k1" "ticking k (if is_tick v then 1 else 0) k1"
  proof (cases "is_tick v")
    case True
    then have "interrupt io v k = Returns (on_wire (PIC_sendEOI io 0) (k\<lparr>timer_ticks := timer_ticks k + 1\<rparr>))"
      using interrupt_tick [OF Cons.prems(1)] Cons.prems(2) by (simp add: timer_handler_def process_check_kill_def)
    then show ?thesis using that True by (simp add: ticking_def on_wire_def)
  next
    case False
    then obtain k1 where "interrupt io v k = Returns k1" "undisturbed k k1" using interrupt_other [OF Cons.prems(1)] by blast
    then show ?thesis using that False by (simp add: ticking_def undisturbed_def)
  qed
  then obtain k2 where "interrupts io vs k1 = Returns k2" "ticking k1 (length (filter is_tick vs)) k2"
    using Cons.IH [of k1] Cons.prems by (auto simp: ticking_def)
  then show ?case using k1 by (auto simp: ticking_def)
qed

lemma wait_until_ticks:
  assumes "irq_handlers k = boot_handlers" "current_process k = 0" "unat (timer_ticks k) + n < 2 ^ 32"
    and "unat (timer_ticks k) + ticks_in pre < 2 ^ 32"
    and "pre \<noteq> [] \<Longrightarrow> ticks_in (butlast pre) < n"
  shows "n \<le> ticks_in pre \<Longrightarrow> \<exists>k'. wait_until io (timer_ticks k + of_nat n) (pre @ post) k = Some (Returns k', post) \<and> ticking k (ticks_in pre) k'"
    and "ticks_in pre < n \<Longrightarrow> wait_until io (timer_ticks k + of_nat n) pre k = None"
proof -
  have t: "timer_ticks k + of_nat n = of_nat (unat (timer_ticks k) + n)" by simp
  have lt: "timer_ticks k' < timer_ticks k + of_nat n \<longleftrightarrow> m < n" if "timer_ticks k' = timer_ticks k + of_nat m" "unat (timer_ticks k) + m < 2 ^ 32"
    for k' :: "'a kernel" and m
  proof -
    have "unat (timer_ticks k + of_nat j) = unat (timer_ticks k) + j" if "unat (timer_ticks k) + j < 2 ^ 32" for j
    proof -
      have "unat (of_nat (unat (timer_ticks k) + j) :: u32) = unat (timer_ticks k) + j"
        using that by (simp only: unat_of_nat) (simp add: take_bit_nat_eq_self)
      then show ?thesis by simp
    qed
    then show ?thesis using that assms(3) by (simp add: word_less_nat_alt)
  qed
  have go: "(n \<le> m + ticks_in pre \<longrightarrow> (\<exists>k''. wait_until io (timer_ticks k + of_nat n) (pre @ post) k' = Some (Returns k'', post) \<and> ticking k (m + ticks_in pre) k''))
      \<and> (m + ticks_in pre < n \<longrightarrow> wait_until io (timer_ticks k + of_nat n) pre k' = None)"
    if "ticking k m k'" "unat (timer_ticks k) + m + ticks_in pre < 2 ^ 32" "pre \<noteq> [] \<longrightarrow> m + ticks_in (butlast pre) < n" for k' m pre
    using that
  proof (induction pre arbitrary: k' m)
    case Nil
    then have "timer_ticks k' < timer_ticks k + of_nat n \<longleftrightarrow> m < n" using lt [of k' m] by (simp add: ticking_def ticks_in_def)
    then show ?case using Nil by (auto simp: wait_until.simps [of io _ _ k'] ticks_in_def split: list.split)
  next
    case (Cons vs pre)
    have ti: "ticks_in (vs # xs) = length (filter is_tick vs) + ticks_in xs" for xs by (simp add: ticks_in_def)
    have "m < n" using Cons.prems(3) by simp
    moreover have "unat (timer_ticks k) + m < 2 ^ 32" using Cons.prems(2) by simp
    ultimately have l: "timer_ticks k' < timer_ticks k + of_nat n"
      using lt [of k' m] Cons.prems(1) by (simp add: ticking_def)
    obtain k1 where k1: "interrupts io vs k' = Returns k1" "ticking k' (length (filter is_tick vs)) k1"
      using interrupts_ticking [of k' io vs] Cons.prems(1) assms(1,2) by (auto simp: ticking_def)
    then have t1: "ticking k (m + length (filter is_tick vs)) k1" using Cons.prems(1) by (simp add: ticking_def)
    have w: "wait_until io tg (vs # xs) k' = wait_until io tg xs k1" if "timer_ticks k' < tg" for xs tg
      using that k1(1) by (simp add: wait_until.simps [of io _ "vs # xs"])
    have "pre \<noteq> [] \<longrightarrow> m + length (filter is_tick vs) + ticks_in (butlast pre) < n" using Cons.prems(3) ti [of "butlast pre"] by auto
    moreover have "unat (timer_ticks k) + (m + length (filter is_tick vs)) + ticks_in pre < 2 ^ 32" using Cons.prems(2) by (simp add: ti)
    ultimately show ?case using Cons.IH [OF t1] w [OF l] by (simp add: ti add.assoc)
  qed
  have "ticking k 0 k" by (simp add: ticking_def)
  from go [OF this, of pre] assms(4,5)
  show "n \<le> ticks_in pre \<Longrightarrow> \<exists>k'. wait_until io (timer_ticks k + of_nat n) (pre @ post) k = Some (Returns k', post) \<and> ticking k (ticks_in pre) k'"
    and "ticks_in pre < n \<Longrightarrow> wait_until io (timer_ticks k + of_nat n) pre k = None" by simp_all
qed

lemma sleep_ticks:
  assumes "irq_handlers k = boot_handlers" "current_process k = 0"
    "unat ms * unat (timer_frequency k) < 2 ^ 32"
    "n = max (unat ms * unat (timer_frequency k) div 1000) (if ms = 0 then 0 else 1)"
    "unat (timer_ticks k) + n < 2 ^ 32" "unat (timer_ticks k) + ticks_in pre < 2 ^ 32"
    "pre \<noteq> [] \<longrightarrow> ticks_in (butlast pre) < n"
  shows "(n \<le> ticks_in pre \<longrightarrow> (\<exists>k'. sleep io ms (pre @ post) k = Some (Returns k', post)
        \<and> timer_ticks k' = timer_ticks k + of_nat (ticks_in pre)))
    \<and> (ticks_in pre < n \<longrightarrow> sleep io ms pre k = None)"
proof -
  have u: "unat (ms * timer_frequency k) = unat ms * unat (timer_frequency k)"
    using assms(3) by (simp add: unat_mult_lem [THEN iffD1])
  then have d: "unat (ms * timer_frequency k div 1000) = unat ms * unat (timer_frequency k) div 1000" by (simp add: unat_div)
  have "(if ms * timer_frequency k div 1000 = 0 \<and> ms > 0 then 1 else ms * timer_frequency k div 1000) = of_nat n"
  proof (cases "ms * timer_frequency k div 1000 = 0")
    case True
    then have "unat ms * unat (timer_frequency k) div 1000 = 0" using d by simp
    then show ?thesis using True assms(4) by (auto simp: word_neq_0_conv)
  next
    case False
    then have "unat ms * unat (timer_frequency k) div 1000 \<noteq> 0" using d by (metis unat_eq_zero)
    then have "n = unat (ms * timer_frequency k div 1000)" using d assms(4) by simp
    then show ?thesis using False by simp
  qed
  then have s: "sleep io ms as k = wait_until io (timer_ticks k + of_nat n) as k" for as
    by (simp add: sleep_def timer_wait_def Let_def)
  note w = wait_until_ticks [OF assms(1,2,5,6) assms(7) [rule_format], of io]
  show ?thesis using w(1) [of post] w(2) unfolding s ticking_def by blast
qed

section \<open>Properties\<close>

text \<open>
  C29. Sleeping takes as long as it should. With no process running, and as long as neither the product of
  milliseconds and frequency nor the tick counter passes 32 bits, \<open>sleep\<close> returns at the first look at the
  counter that sees all its ticks (at least one, if any time at all is asked for), leaves
  the later interrupts alone, and until then goes on waiting.
\<close>

theorem sleep_counts_ticks:
  assumes "irq_handlers k = boot_handlers" "current_process k = 0"
    "unat ms * unat (timer_frequency k) < 2 ^ 32"
    "n = max (unat ms * unat (timer_frequency k) div 1000) (if ms = 0 then 0 else 1)"
    "unat (timer_ticks k) + n < 2 ^ 32" "unat (timer_ticks k) + ticks_in pre < 2 ^ 32"
    "pre \<noteq> [] \<longrightarrow> ticks_in (butlast pre) < n"
  shows "(n \<le> ticks_in pre \<longrightarrow> (\<exists>k'. sleep io ms (pre @ post) k = Some (Returns k', post)
        \<and> timer_ticks k' = timer_ticks k + of_nat (ticks_in pre)))
    \<and> (ticks_in pre < n \<longrightarrow> sleep io ms pre k = None)"
  by (rule sleep_ticks [OF assms])

text \<open>Past the end of the counter the target wraps around, and the wait is over before it has begun.\<close>

lemma timer_wait_wraps:
  assumes "2 ^ 32 \<le> unat (timer_ticks k) + unat n"
  shows "timer_wait io n arrivals k = Some (Returns k, arrivals)"
proof -
  have "unat (timer_ticks k + n) = unat (timer_ticks k) + unat n - 2 ^ 32"
  proof -
    define x where "x = unat (timer_ticks k) + unat n"
    have "unat (timer_ticks k) < 2 ^ 32" "unat n < 2 ^ 32"
      using unsigned_less [of "timer_ticks k"] unsigned_less [of n] by simp_all
    then have "x < 2 ^ 32 + 2 ^ 32" unfolding x_def by (rule add_strict_mono)
    moreover have "2 ^ 32 \<le> x" using assms by (simp only: x_def)
    ultimately have "x mod 2 ^ 32 = x - 2 ^ 32" by (simp add: le_mod_geq)
    moreover have "unat (timer_ticks k + n) = x mod 2 ^ 32" by (simp add: unat_word_ariths x_def)
    ultimately show ?thesis by (simp only: x_def)
  qed
  moreover have "unat n < 2 ^ 32" using unsigned_less [of n] by simp
  ultimately have "\<not> unat (timer_ticks k) < unat (timer_ticks k + n)" by linarith
  then have "\<not> timer_ticks k < timer_ticks k + n" unfolding word_less_nat_alt .
  then show ?thesis by (simp add: timer_wait_def wait_until.simps)
qed

lemma boot_sleep: "irq_handlers (demo_kernel\<lparr>irq_handlers := boot_handlers\<rparr>) = boot_handlers"
  "current_process (demo_kernel\<lparr>irq_handlers := boot_handlers\<rparr>) = 0"
  "timer_frequency (demo_kernel\<lparr>irq_handlers := boot_handlers\<rparr>) = 100"
  "timer_ticks (demo_kernel\<lparr>irq_handlers := boot_handlers\<rparr>) = 0"
  by (simp_all add: demo_kernel_def)

lemma sleep_counts_ticks_witness:
  "\<exists>k'. sleep recorder_unit 25 [[0], [], [1], [0, 4], [0]] (demo_kernel\<lparr>irq_handlers := boot_handlers\<rparr>) = Some (Returns k', [[0]])
    \<and> timer_ticks k' = 2"
proof -
  have t: "ticks_in [[0], [], [1], [0, 4]] = 2" "ticks_in (butlast [[0], [], [1], [0, 4]]) = 1"
    by (simp_all add: ticks_in_def is_tick_def)
  have u: "unat (25 :: u32) = 25" "unat (100 :: u32) = 100" "(25 :: u32) \<noteq> 0" by simp_all
  have n: "2 = max (unat (25 :: u32) * unat (timer_frequency (demo_kernel\<lparr>irq_handlers := boot_handlers\<rparr>)) div 1000) (if (25 :: u32) = 0 then 0 else 1)"
    unfolding boot_sleep u by simp
  have b: "unat (25 :: u32) * unat (timer_frequency (demo_kernel\<lparr>irq_handlers := boot_handlers\<rparr>)) < 2 ^ 32"
    unfolding boot_sleep u by simp
  have c: "unat (timer_ticks (demo_kernel\<lparr>irq_handlers := boot_handlers\<rparr>)) + 2 < 2 ^ 32"
    "unat (timer_ticks (demo_kernel\<lparr>irq_handlers := boot_handlers\<rparr>)) + ticks_in [[0], [], [1], [0, 4]] < 2 ^ 32"
    unfolding boot_sleep t by simp_all
  have d: "[[0], [], [1], [0, 4]] \<noteq> [] \<longrightarrow> ticks_in (butlast [[0], [], [1], [0, 4]]) < 2" unfolding t by simp
  from sleep_counts_ticks [OF boot_sleep(1,2) b n c d, THEN conjunct1, of recorder_unit "[[0]]"]
  obtain k' where "sleep recorder_unit 25 ([[0], [], [1], [0, 4]] @ [[0]]) (demo_kernel\<lparr>irq_handlers := boot_handlers\<rparr>) = Some (Returns k', [[0]])"
      "timer_ticks k' = 0 + of_nat 2"
    unfolding t boot_sleep by auto
  then show ?thesis by auto
qed

text \<open>
  C25. Ctrl+C ends the running program. When C is pressed with Ctrl held while a process runs, the first timer
  interrupt after it, whatever other interrupts come in between, does not return: it switches back to the
  kernel with exit code 1, no process running and no kill pending, and has acknowledged itself exactly once.
\<close>

theorem ctrl_c_kills:
  assumes "irq_handlers k = boot_handlers" "current_process k = p" "p \<noteq> 0"
    "ctrl (kbd k)" "fst (inb io KEYBOARD_DATA_PORT (wire (con k))) = 0x2E" "\<forall>v \<in> set vs. \<not> is_tick v"
  shows "\<exists>k1 k2. interrupts io (1 # vs) k = Returns k1 \<and> current_process k1 = p \<and> procs k1 = procs k
    \<and> interrupts io (1 # vs @ 0 # rest) k = Unwinds k2 \<and> current_process k2 = 0 \<and> \<not> kill_pending k2
    \<and> procs k2 = (procs k)(p := (procs k p)\<lparr>exit_code := 1\<rparr>) \<and> wire (con k2) = PIC_sendEOI io 0 (wire (con k1))"
proof -
  have app: "interrupts io (xs @ ys) k = (case interrupts io xs k of Returns k \<Rightarrow> interrupts io ys k | Unwinds k \<Rightarrow> Unwinds k)" for xs ys k
    by (induction xs arbitrary: k) (simp_all split: flow.split)
  have idle: "\<exists>k'. interrupts io vs k = Returns k' \<and> undisturbed k k'"
    if "irq_handlers k = boot_handlers" "\<forall>v \<in> set vs. \<not> is_tick v" for k vs
    using that
  proof (induction vs arbitrary: k)
    case (Cons v vs)
    then obtain k1 where k1: "interrupt io v k = Returns k1" "undisturbed k k1" using interrupt_other [of k v] by auto
    then have "irq_handlers k1 = boot_handlers" using Cons.prems(1) by (simp add: undisturbed_def)
    then obtain k2 where "interrupts io vs k1 = Returns k2" "undisturbed k1 k2" using Cons.IH Cons.prems(2) by auto
    then show ?case using k1 undisturbed_trans by auto
  qed (simp add: undisturbed_def)
  define k0 where "k0 = on_wire (PIC_sendEOI io 1) (keyboard_handler io k)"
  have "interrupt io 1 k = Returns k0"
    by (simp add: interrupt_def irq_dispatch_def assms(1) boot_handlers_nth k0_def)
  moreover have "kill_pending k0"
    using assms(2-5) by (cases "inb io KEYBOARD_DATA_PORT (wire (con k))")
      (simp add: k0_def keyboard_handler_def is_ctrl_c_def process_is_running_def process_signal_kill_def on_wire_def)
  moreover have u0: "undisturbed k k0" using undisturbed_trans [OF keyboard_undisturbed undisturbed_wire] by (simp add: k0_def)
  ultimately obtain k1 where k1: "interrupts io (1 # vs) k = Returns k1" "undisturbed k0 k1" "kill_pending k1"
    using idle [of k0 vs] assms(1,6) by (auto simp: undisturbed_def)
  then have u1: "undisturbed k k1" using u0 undisturbed_trans by blast
  define k2 where "k2 = process_exit 1 (on_wire (PIC_sendEOI io 0) (k1\<lparr>timer_ticks := timer_ticks k1 + 1, kill_pending := False\<rparr>))"
  have "interrupt io 0 k1 = Unwinds k2"
    using interrupt_tick [of k1 0 io] u1 assms(1-3) k1(3)
    by (simp add: undisturbed_def is_tick_def timer_handler_def process_check_kill_def k2_def)
  then have "interrupts io (1 # vs @ 0 # rest) k = Unwinds k2"
    using app [of "1 # vs" "0 # rest" k] k1(1) by simp
  moreover have "current_process k2 = 0 \<and> \<not> kill_pending k2
    \<and> procs k2 = (procs k)(p := (procs k p)\<lparr>exit_code := 1\<rparr>) \<and> wire (con k2) = PIC_sendEOI io 0 (wire (con k1))"
    using u1 assms(2,3) by (simp add: k2_def process_exit_def on_wire_def undisturbed_def)
  ultimately show ?thesis using k1(1) u1 assms(2) by (auto simp: undisturbed_def)
qed

definition ctrl_demo :: "unit kernel" where
  "ctrl_demo = demo_kernel\<lparr>irq_handlers := boot_handlers, current_process := 0x300010, kbd := kbd_demo\<lparr>ctrl := True\<rparr>\<rparr>"

text \<open>A keyboard whose every scancode is that of C.\<close>

definition c_pressed :: "unit ports" where
  "c_pressed = recorder_unit\<lparr>inb := \<lambda>_ s. (0x2E, s)\<rparr>"

lemma ctrl_c_kills_witness:
  "\<exists>k2. interrupts c_pressed [1, 7, 0] ctrl_demo = Unwinds k2 \<and> exit_code (procs k2 0x300010) = 1"
proof -
  have d: "irq_handlers ctrl_demo = boot_handlers" "current_process ctrl_demo = 0x300010" "ctrl (kbd ctrl_demo)"
    "fst (inb c_pressed KEYBOARD_DATA_PORT (wire (con ctrl_demo))) = 0x2E"
    by (simp_all add: ctrl_demo_def c_pressed_def)
  show ?thesis using ctrl_c_kills [OF d(1,2) _ d(3,4), of "[7]" "[]"] by (auto simp: is_tick_def)
qed

text \<open>
  A kill outlives the process it was meant for. If the process ends by itself before the next tick, the
  request stays, and the next process that is started is ended at its first tick.
\<close>

theorem stale_kill:
  assumes "irq_handlers k = boot_handlers" "kill_pending k" "p \<noteq> 0"
  shows "\<exists>k'. process_run (\<lambda>_ _ k. case interrupts io [0] k of Unwinds k \<Rightarrow> Some k | Returns k \<Rightarrow> None) p (process_exit code k) = Some k'
    \<and> exit_code (procs k' p) = 1 \<and> current_process k' = 0 \<and> \<not> kill_pending k'"
proof -
  have h: "irq_handlers (process_exit code k) = boot_handlers" "kill_pending (process_exit code k)"
    using assms(1,2) by (simp_all add: process_exit_def)
  define k1 where "k1 = tss_set_kernel_stack (kstack_top (procs (process_exit code k) p)) ((process_exit code k)\<lparr>current_process := p\<rparr>)"
  have k1: "irq_handlers k1 = boot_handlers" "kill_pending k1" "current_process k1 = p"
    using h by (simp_all add: k1_def tss_set_kernel_stack_def)
  have "interrupt io 0 k1 = Unwinds (process_exit 1 (on_wire (PIC_sendEOI io 0) (k1\<lparr>timer_ticks := timer_ticks k1 + 1, kill_pending := False\<rparr>)))"
    using interrupt_tick [of k1 0 io] k1 assms(3) by (simp add: is_tick_def timer_handler_def process_check_kill_def)
  then show ?thesis using k1 assms(3)
    by (simp add: process_run_def k1_def [symmetric]) (simp add: process_exit_def on_wire_def)
qed

lemma stale_kill_witness:
  "\<exists>k'. process_run (\<lambda>_ _ k. case interrupts recorder_unit [0] k of Unwinds k \<Rightarrow> Some k | Returns k \<Rightarrow> None) 0x400010
      (process_exit 0 (ctrl_demo\<lparr>kill_pending := True\<rparr>)) = Some k' \<and> exit_code (procs k' 0x400010) = 1"
proof -
  have d: "irq_handlers (ctrl_demo\<lparr>kill_pending := True\<rparr>) = boot_handlers" "kill_pending (ctrl_demo\<lparr>kill_pending := True\<rparr>)"
    by (simp_all add: ctrl_demo_def)
  show ?thesis using stale_kill [OF d, where p = "0x400010" and io = recorder_unit and code = 0] by auto
qed

end
