(* ===== verification/Descriptors.thy ===== *)
theory Descriptors
  imports Timer
begin

text \<open>
  The tables of the processor: the segment descriptors of \<^verbatim>\<open>kernel/gdt.c\<close>, the task state segment of
  \<^verbatim>\<open>kernel/tss.c\<close> and the gates of \<^verbatim>\<open>kernel/idt.c\<close>, with the gate of \<^verbatim>\<open>kernel/syscall.c\<close>. The addresses of the
  tables and of the stubs in \<^verbatim>\<open>cpu.asm\<close> are arguments. \<open>segment_at\<close> and \<open>gate_target\<close> read a table the way
  the processor does.
\<close>

section \<open>Segments\<close>

record gdt_descriptor =
  limit :: u32
  base :: u32
  access_byte :: u8
  flags :: u8

definition GDT_MAX_ENTRIES :: nat where "GDT_MAX_ENTRIES = 6"

text \<open>The table, the number of entries used, and the pair given to \<open>lgdt\<close>.\<close>

record gdt_state =
  gdt :: bytes
  gdt_i :: u8
  gdtr_limit :: u16
  gdtr_base :: u32

definition gdt_set_descriptor :: "gdt_descriptor \<Rightarrow> gdt_state \<Rightarrow> gdt_state" where
  "gdt_set_descriptor source s =
     (if gdt_i s \<ge> of_nat GDT_MAX_ENTRIES then s
      else let t = unat (gdt_i s) * 8;
               g = (gdt s)[t := ucast (limit source AND 0xFF), t + 1 := ucast (drop_bit 8 (limit source) AND 0xFF),
                           t + 6 := ucast (drop_bit 16 (limit source) AND 0x0F)];
               g = g[t + 2 := ucast (base source AND 0xFF), t + 3 := ucast (drop_bit 8 (base source) AND 0xFF),
                     t + 4 := ucast (drop_bit 16 (base source) AND 0xFF), t + 7 := ucast (drop_bit 24 (base source) AND 0xFF)];
               g = g[t + 5 := access_byte source]
           in s\<lparr>gdt := g[t + 6 := (g ! (t + 6)) OR push_bit 4 (flags source)], gdt_i := gdt_i s + 1\<rparr>)"

definition segment :: "u32 \<Rightarrow> u8 \<Rightarrow> u8 \<Rightarrow> gdt_descriptor" where
  "segment l a f = \<lparr>limit = l, base = 0, access_byte = a, flags = f\<rparr>"

definition install_gdt :: "u32 \<Rightarrow> gdt_state \<Rightarrow> gdt_state" where
  "install_gdt addr s =
     (let s = s\<lparr>gdtr_limit := of_nat (GDT_MAX_ENTRIES * 8 - 1), gdtr_base := addr, gdt := replicate (GDT_MAX_ENTRIES * 8) 0\<rparr>;
          s = gdt_set_descriptor (segment 0 0 0) s;
          s = gdt_set_descriptor (segment 0xFFFFF 0x9A 0xC) s;
          s = gdt_set_descriptor (segment 0xFFFFF 0x92 0xC) s;
          s = gdt_set_descriptor (segment 0xFFFFF 0xFA 0xC) s
      in gdt_set_descriptor (segment 0xFFFFF 0xF2 0xC) s)"

section \<open>The task state segment\<close>

record tss_structure =
  t_prev_tss :: u32
  t_esp0 :: u32
  t_ss0 :: u32
  t_esp1 :: u32
  t_ss1 :: u32
  t_esp2 :: u32
  t_ss2 :: u32
  t_cr3 :: u32
  t_eip :: u32
  t_eflags :: u32
  t_eax :: u32
  t_ecx :: u32
  t_edx :: u32
  t_ebx :: u32
  t_esp :: u32
  t_ebp :: u32
  t_esi :: u32
  t_edi :: u32
  t_es :: u32
  t_cs :: u32
  t_ss :: u32
  t_ds :: u32
  t_fs :: u32
  t_gs :: u32
  t_ldt :: u32
  t_trap :: u16
  t_iomap_base :: u16

definition tss_zero :: tss_structure where
  "tss_zero = \<lparr>t_prev_tss = 0, t_esp0 = 0, t_ss0 = 0, t_esp1 = 0, t_ss1 = 0, t_esp2 = 0, t_ss2 = 0, t_cr3 = 0, t_eip = 0,
     t_eflags = 0, t_eax = 0, t_ecx = 0, t_edx = 0, t_ebx = 0, t_esp = 0, t_ebp = 0, t_esi = 0, t_edi = 0,
     t_es = 0, t_cs = 0, t_ss = 0, t_ds = 0, t_fs = 0, t_gs = 0, t_ldt = 0, t_trap = 0, t_iomap_base = 0\<rparr>"

definition sizeof_tss :: u32 where "sizeof_tss = 25 * 4 + 2 * 2"

definition install_tss :: "u32 \<Rightarrow> u32 \<Rightarrow> gdt_state \<Rightarrow> tss_structure \<times> gdt_state" where
  "install_tss tss_addr kernel_stack s =
     (tss_zero\<lparr>t_esp0 := kernel_stack, t_ss0 := 0x10, t_cs := 0x1B, t_ss := 0x23, t_ds := 0x23, t_es := 0x23,
        t_fs := 0x23, t_gs := 0x23\<rparr>,
      gdt_set_descriptor \<lparr>limit = sizeof_tss - 1, base = tss_addr, access_byte = 0x89, flags = 0\<rparr> s)"

text \<open>The structure as it lies in memory, by words.\<close>

definition tss_words :: "tss_structure \<Rightarrow> u32 list" where
  "tss_words t = [t_prev_tss t, t_esp0 t, t_ss0 t, t_esp1 t, t_ss1 t, t_esp2 t, t_ss2 t, t_cr3 t, t_eip t,
     t_eflags t, t_eax t, t_ecx t, t_edx t, t_ebx t, t_esp t, t_ebp t, t_esi t, t_edi t,
     t_es t, t_cs t, t_ss t, t_ds t, t_fs t, t_gs t, t_ldt t,
     ucast (t_trap t) OR push_bit 16 (ucast (t_iomap_base t))]"

text \<open>
  The processor's rule for a port used with less than the privilege of \<open>eflags\<close>: the bit of the port, counted from
  \<open>iomap_base\<close> in the structure, must be within its limit and clear.
\<close>

definition port_open :: "tss_structure \<Rightarrow> u32 \<Rightarrow> nat \<Rightarrow> bool" where
  "port_open t lim p \<longleftrightarrow>
     (let n = unat (t_iomap_base t) * 8 + p
      in n div 8 + 1 \<le> unat lim \<and> \<not> bit (tss_words t ! (n div 32)) (n mod 32))"

section \<open>Gates\<close>

record idt_entry =
  isr_low :: u16
  kernel_cs :: u16
  reserved :: u8
  attributes :: u8
  isr_high :: u16

definition MAX_ENTRIES :: nat where "MAX_ENTRIES = 256"

record idt_state =
  idt :: "idt_entry list"
  vectors :: "bool list"
  idtr_limit :: u16
  idtr_base :: u32

definition idt_set_descriptor :: "u8 \<Rightarrow> u32 \<Rightarrow> u8 \<Rightarrow> idt_state \<Rightarrow> idt_state" where
  "idt_set_descriptor vector isr fl s = s\<lparr>idt := (idt s)[unat vector :=
     \<lparr>isr_low = ucast (isr AND 0xFFFF), kernel_cs = 0x08, reserved = 0, attributes = fl, isr_high = ucast (drop_bit 16 isr)\<rparr>]\<rparr>"

text \<open>The vectors from \<open>v\<close> up to \<open>v + n\<close>, with the stubs of a table.\<close>

fun install_stubs :: "(nat \<Rightarrow> u32) \<Rightarrow> u8 \<Rightarrow> nat \<Rightarrow> nat \<Rightarrow> idt_state \<Rightarrow> idt_state" where
  "install_stubs tab v j 0 s = s"
| "install_stubs tab v j (Suc n) s =
     (let s = idt_set_descriptor (v + of_nat j) (tab j) 0x8E s;
          s = s\<lparr>vectors := (vectors s)[unat (v + of_nat j) := True]\<rparr>
      in install_stubs tab v (j + 1) n s)"

definition install_idt :: "u32 \<Rightarrow> (nat \<Rightarrow> u32) \<Rightarrow> (nat \<Rightarrow> u32) \<Rightarrow> idt_state \<Rightarrow> idt_state" where
  "install_idt addr isr_stub_table irq_stub_table s =
     install_stubs irq_stub_table 32 0 16
       (install_stubs isr_stub_table 0 0 32 (s\<lparr>idtr_base := addr, idtr_limit := 8 * of_nat MAX_ENTRIES - 1\<rparr>))"

definition syscall_install :: "u32 \<Rightarrow> idt_state \<Rightarrow> idt_state" where
  "syscall_install syscall_stub s = idt_set_descriptor 0x80 syscall_stub 0xEF s"

section \<open>What the processor reads\<close>

definition segment_at :: "bytes \<Rightarrow> nat \<Rightarrow> gdt_descriptor" where
  "segment_at g i =
     (let b = \<lambda>j. g ! (i * 8 + j)
      in \<lparr>limit = ucast (b 0) OR push_bit 8 (ucast (b 1)) OR push_bit 16 (ucast (b 6 AND 0x0F)),
          base = ucast (b 2) OR push_bit 8 (ucast (b 3)) OR push_bit 16 (ucast (b 4)) OR push_bit 24 (ucast (b 7)),
          access_byte = b 5, flags = drop_bit 4 (b 6)\<rparr>)"

definition gate_target :: "idt_entry \<Rightarrow> u32" where
  "gate_target d = push_bit 16 (ucast (isr_high d)) OR ucast (isr_low d)"

text \<open>The descriptor privilege level of an access byte or a gate, and whether it is present.\<close>

definition dpl :: "u8 \<Rightarrow> u8" where
  "dpl a = drop_bit 5 a AND 3"

definition present :: "u8 \<Rightarrow> bool" where
  "present a \<longleftrightarrow> bit a 7"

lemma low_byte: "x AND 0xFF = take_bit 8 x" for x :: u32
  by (simp add: take_bit_eq_mask mask_eq_exp_minus_1)

lemma low_nibble: "x AND 0x0F = take_bit 4 x" for x :: "'a::len word"
  by (simp add: take_bit_eq_mask mask_eq_exp_minus_1)

lemma encoded_base:
  fixes x :: u32
  shows "ucast (ucast (x AND 0xFF) :: u8) OR push_bit 8 (ucast (ucast (drop_bit 8 x AND 0xFF) :: u8))
     OR push_bit 16 (ucast (ucast (drop_bit 16 x AND 0xFF) :: u8)) OR push_bit 24 (ucast (ucast (drop_bit 24 x AND 0xFF) :: u8)) = x"
  unfolding low_byte
proof (rule bit_word_eqI)
  fix n
  assume "n < LENGTH(32)"
  then consider "n < 8" | "8 \<le> n" "n < 16" | "16 \<le> n" "n < 24" | "24 \<le> n" "n < 32" by fastforce
  then show "bit (ucast (ucast (take_bit 8 x) :: u8) OR push_bit 8 (ucast (ucast (take_bit 8 (drop_bit 8 x)) :: u8))
      OR push_bit 16 (ucast (ucast (take_bit 8 (drop_bit 16 x)) :: u8))
      OR push_bit 24 (ucast (ucast (take_bit 8 (drop_bit 24 x)) :: u8)) :: u32) n = bit x n"
    by cases (auto simp: bit_simps)
qed

lemma encoded_limit:
  fixes x :: u32 and f :: u8
  shows "ucast (ucast (x AND 0xFF) :: u8) OR push_bit 8 (ucast (ucast (drop_bit 8 x AND 0xFF) :: u8))
     OR push_bit 16 (ucast ((ucast (drop_bit 16 x AND 0x0F) OR push_bit 4 f) AND 0x0F :: u8)) = take_bit 20 x"
  unfolding low_byte low_nibble
  by (rule bit_word_eqI) (auto simp: bit_simps)

lemma encoded_flags:
  fixes x :: u32 and f :: u8
  shows "drop_bit 4 (ucast (drop_bit 16 x AND 15)) OR drop_bit 4 (push_bit 4 f) = take_bit 4 f"
  unfolding low_nibble
  by (rule bit_word_eqI) (auto simp: bit_simps)

lemma gdt_roundtrip:
  assumes "length (gdt s) = 48"
  shows "(gdt_i s < 6 \<longrightarrow>
      segment_at (gdt (gdt_set_descriptor d s)) (unat (gdt_i s)) = d\<lparr>limit := take_bit 20 (limit d), flags := take_bit 4 (flags d)\<rparr>
      \<and> (\<forall>i < 6. i \<noteq> unat (gdt_i s) \<longrightarrow> segment_at (gdt (gdt_set_descriptor d s)) i = segment_at (gdt s) i)
      \<and> gdt_i (gdt_set_descriptor d s) = gdt_i s + 1)
    \<and> (gdt_i s \<ge> 6 \<longrightarrow> gdt_set_descriptor d s = s)"
proof (cases "gdt_i s < 6")
  case True
  define n where "n = unat (gdt_i s)"
  have n: "n < 6" using True by (simp add: n_def word_less_nat_alt)
  have idx: "i * 8 + j = n * 8 + k \<longleftrightarrow> i = n \<and> j = k" if "j < 8" "k < 8" for i j k
  proof
    assume e: "i * 8 + j = n * 8 + k"
    then have "(i * 8 + j) div 8 = (n * 8 + k) div 8" by (simp only:)
    then have "i = n" using that by simp
    then show "i = n \<and> j = k" using e by simp
  qed simp
  have ne: "\<not> 6 \<le> gdt_i s" using True by simp
  have "segment_at (gdt (gdt_set_descriptor d s)) n = d\<lparr>limit := take_bit 20 (limit d), flags := take_bit 4 (flags d)\<rparr>"
    using n assms by (cases d) (simp add: gdt_set_descriptor_def GDT_MAX_ENTRIES_def ne n_def [symmetric] Let_def segment_at_def nth_list_update
        encoded_base encoded_limit encoded_flags)
  moreover have "segment_at (gdt (gdt_set_descriptor d s)) i = segment_at (gdt s) i" if "i < 6" "i \<noteq> n" for i
  proof -
    have e: "gdt (gdt_set_descriptor d s) ! (i * 8 + j) = gdt s ! (i * 8 + j)" if "j < 8" for j
    proof -
      have x: "n * 8 + k \<noteq> i * 8 + j" if "k < 8" for k using idx [OF \<open>j < 8\<close> that, of i] \<open>i \<noteq> n\<close> by metis
      then have "n * 8 \<noteq> i * 8 + j" using x [of 0] by simp
      then show ?thesis using x [of 1] x [of 2] x [of 3] x [of 4] x [of 5] x [of 6] x [of 7]
        by (simp add: gdt_set_descriptor_def GDT_MAX_ENTRIES_def ne n_def [symmetric] Let_def del: add_2_eq_Suc add_2_eq_Suc')
    qed
    show ?thesis using e [of 0] e [of 1] e [of 2] e [of 3] e [of 4] e [of 5] e [of 6] e [of 7] by (simp add: segment_at_def)
  qed
  ultimately show ?thesis using True by (simp add: n_def) (simp add: gdt_set_descriptor_def GDT_MAX_ENTRIES_def ne Let_def)
qed (simp add: gdt_set_descriptor_def GDT_MAX_ENTRIES_def)

section \<open>Properties\<close>

text \<open>
  A descriptor is read back as it was set. The processor reads from the next free entry of the table the
  descriptor given, with 20 bits of its limit and 4 of its flags, and from the others what it read before; once the six
  entries are used, the table stays as it is.
\<close>

theorem gdt_descriptor_roundtrip:
  assumes "length (gdt s) = 48"
  shows "(gdt_i s < 6 \<longrightarrow>
      segment_at (gdt (gdt_set_descriptor d s)) (unat (gdt_i s)) = d\<lparr>limit := take_bit 20 (limit d), flags := take_bit 4 (flags d)\<rparr>
      \<and> (\<forall>i < 6. i \<noteq> unat (gdt_i s) \<longrightarrow> segment_at (gdt (gdt_set_descriptor d s)) i = segment_at (gdt s) i)
      \<and> gdt_i (gdt_set_descriptor d s) = gdt_i s + 1)
    \<and> (gdt_i s \<ge> 6 \<longrightarrow> gdt_set_descriptor d s = s)"
  by (rule gdt_roundtrip [OF assms])

definition gdt_fresh :: gdt_state where
  "gdt_fresh = \<lparr>gdt = replicate 48 0, gdt_i = 0, gdtr_limit = 0, gdtr_base = 0\<rparr>"

lemma gdt_descriptor_roundtrip_witness:
  "segment_at (gdt (gdt_set_descriptor \<lparr>limit = 0x12345, base = 0x89ABCDEF, access_byte = 0x9A, flags = 0xC\<rparr> gdt_fresh)) 0
    = \<lparr>limit = 0x12345, base = 0x89ABCDEF, access_byte = 0x9A, flags = 0xC\<rparr>"
  using gdt_descriptor_roundtrip [of gdt_fresh "\<lparr>limit = 0x12345, base = 0x89ABCDEF, access_byte = 0x9A, flags = 0xC\<rparr>"]
  by (simp add: gdt_fresh_def)

text \<open>The tables the kernel sets up at boot.\<close>

lemma gdt_step:
  assumes "length (gdt s) = 48" "unat (gdt_i s) = n" "n < 6"
  shows "length (gdt (gdt_set_descriptor d s)) = 48 \<and> unat (gdt_i (gdt_set_descriptor d s)) = n + 1
    \<and> segment_at (gdt (gdt_set_descriptor d s)) n = d\<lparr>limit := take_bit 20 (limit d), flags := take_bit 4 (flags d)\<rparr>
    \<and> (\<forall>i < 6. i \<noteq> n \<longrightarrow> segment_at (gdt (gdt_set_descriptor d s)) i = segment_at (gdt s) i)"
proof -
  have l: "gdt_i s < 6" using assms(2,3) by (simp add: word_less_nat_alt)
  then have "unat (gdt_i s + 1) = n + 1" using assms(2,3) by (simp add: unat_word_ariths)
  then show ?thesis using gdt_roundtrip [of s d] assms l
    by (simp add: gdt_set_descriptor_def [of d s] Let_def split: if_splits)
qed

lemma boot_segments:
  assumes "gdt_i s = 0" "install_tss tss_addr stack (install_gdt addr s) = (t, s')"
  shows "segment_at (gdt s') 0 = segment 0 0 0" "segment_at (gdt s') 1 = segment 0xFFFFF 0x9A 0xC"
    "segment_at (gdt s') 2 = segment 0xFFFFF 0x92 0xC" "segment_at (gdt s') 3 = segment 0xFFFFF 0xFA 0xC"
    "segment_at (gdt s') 4 = segment 0xFFFFF 0xF2 0xC" "segment_at (gdt s') 5 = \<lparr>limit = 103, base = tss_addr, access_byte = 0x89, flags = 0\<rparr>"
    "length (gdt s') = 48" "gdt_i s' \<ge> 6"
    "t = tss_zero\<lparr>t_esp0 := stack, t_ss0 := 0x10, t_cs := 0x1B, t_ss := 0x23, t_ds := 0x23, t_es := 0x23, t_fs := 0x23, t_gs := 0x23\<rparr>"
proof -
  define s0 where "s0 = s\<lparr>gdtr_limit := of_nat (GDT_MAX_ENTRIES * 8 - 1), gdtr_base := addr, gdt := replicate (GDT_MAX_ENTRIES * 8) 0\<rparr>"
  define tss where "tss = \<lparr>limit = sizeof_tss - 1, base = tss_addr, access_byte = 0x89, flags = 0\<rparr>"
  define s1 where "s1 = gdt_set_descriptor (segment 0 0 0) s0"
  define s2 where "s2 = gdt_set_descriptor (segment 0xFFFFF 0x9A 0xC) s1"
  define s3 where "s3 = gdt_set_descriptor (segment 0xFFFFF 0x92 0xC) s2"
  define s4 where "s4 = gdt_set_descriptor (segment 0xFFFFF 0xFA 0xC) s3"
  define s5 where "s5 = gdt_set_descriptor (segment 0xFFFFF 0xF2 0xC) s4"
  have s': "s' = gdt_set_descriptor tss s5" and t: "t = fst (install_tss tss_addr stack s5)"
    using assms(2) by (simp_all add: install_tss_def install_gdt_def Let_def s5_def s4_def s3_def s2_def s1_def s0_def tss_def)
  have a0: "length (gdt s0) = 48" "unat (gdt_i s0) = 0" using assms(1) by (simp_all add: s0_def GDT_MAX_ENTRIES_def)
  note a1 = gdt_step [OF a0, of "segment 0 0 0", folded s1_def]
  have b1: "length (gdt s1) = 48" "unat (gdt_i s1) = 1" using a1 by simp_all
  note a2 = gdt_step [OF b1, of "segment 0xFFFFF 0x9A 0xC", folded s2_def]
  have b2: "length (gdt s2) = 48" "unat (gdt_i s2) = 2" using a2 by simp_all
  note a3 = gdt_step [OF b2, of "segment 0xFFFFF 0x92 0xC", folded s3_def]
  have b3: "length (gdt s3) = 48" "unat (gdt_i s3) = 3" using a3 by simp_all
  note a4 = gdt_step [OF b3, of "segment 0xFFFFF 0xFA 0xC", folded s4_def]
  have b4: "length (gdt s4) = 48" "unat (gdt_i s4) = 4" using a4 by simp_all
  note a5 = gdt_step [OF b4, of "segment 0xFFFFF 0xF2 0xC", folded s5_def]
  have b5: "length (gdt s5) = 48" "unat (gdt_i s5) = 5" using a5 by simp_all
  note a6 = gdt_step [OF b5, of tss, folded s']
  show "segment_at (gdt s') 0 = segment 0 0 0" "segment_at (gdt s') 1 = segment 0xFFFFF 0x9A 0xC"
      "segment_at (gdt s') 2 = segment 0xFFFFF 0x92 0xC" "segment_at (gdt s') 3 = segment 0xFFFFF 0xFA 0xC"
      "segment_at (gdt s') 4 = segment 0xFFFFF 0xF2 0xC" "segment_at (gdt s') 5 = \<lparr>limit = 103, base = tss_addr, access_byte = 0x89, flags = 0\<rparr>"
    using a1 a2 a3 a4 a5 a6 by (simp_all add: segment_def tss_def sizeof_tss_def)
  show "length (gdt s') = 48" "gdt_i s' \<ge> 6" using a6 by (simp_all add: word_le_nat_alt)
  show "t = tss_zero\<lparr>t_esp0 := stack, t_ss0 := 0x10, t_cs := 0x1B, t_ss := 0x23, t_ds := 0x23, t_es := 0x23, t_fs := 0x23, t_gs := 0x23\<rparr>"
    by (simp add: t install_tss_def)
qed

text \<open>
  The segments of the kernel are those it selects. After boot the six entries are the null segment, flat code and
  data segments for the kernel and for user mode, and the task state segment at its address; every
  selector the kernel uses, in its task state segment and in its gates, picks a present segment of the privilege
  it asks for; and the table is full.
\<close>

theorem kernel_segments:
  assumes "gdt_i s = 0" "install_tss tss_addr stack (install_gdt addr s) = (t, s')"
  shows "map (segment_at (gdt s')) [0..<6]
      = [segment 0 0 0, segment 0xFFFFF 0x9A 0xC, segment 0xFFFFF 0x92 0xC, segment 0xFFFFF 0xFA 0xC, segment 0xFFFFF 0xF2 0xC,
         \<lparr>limit = 103, base = tss_addr, access_byte = 0x89, flags = 0\<rparr>]
    \<and> (\<forall>sel \<in> {0x08, t_ss0 t, t_cs t, t_ss t, t_ds t, t_es t, t_fs t, t_gs t}.
      present (access_byte (segment_at (gdt s') (unat (sel div 8))))
      \<and> dpl (access_byte (segment_at (gdt s') (unat (sel div 8)))) = ucast (sel AND 3))
    \<and> gdt_set_descriptor d s' = s'"
proof -
  have l: "[0..<6] = [0, 1, 2, 3, 4, 5]" by (simp add: upt_rec)
  note b = boot_segments [OF assms]
  have "gdt_set_descriptor d s' = s'" using b(8) by (simp add: gdt_set_descriptor_def GDT_MAX_ENTRIES_def)
  moreover have "t_ss0 t = 0x10" "t_cs t = 0x1B" "t_ss t = 0x23" "t_ds t = 0x23" "t_es t = 0x23" "t_fs t = 0x23" "t_gs t = 0x23"
    by (simp_all add: b(9))
  moreover have "unat (0x08 div 8 :: u32) = 1" "unat (0x10 div 8 :: u32) = 2" "unat (0x1B div 8 :: u32) = 3" "unat (0x23 div 8 :: u32) = 4"
    by simp_all
  moreover have "present 0x9A" "present 0x92" "present 0xFA" "present 0xF2" "dpl 0x9A = 0" "dpl 0x92 = 0" "dpl 0xFA = 3" "dpl 0xF2 = 3"
    by (simp_all add: present_def dpl_def)
  ultimately show ?thesis using b(1-6) by (simp add: l segment_def)
qed

lemma kernel_segments_witness:
  "segment_at (gdt (snd (install_tss 0x105000 0x110000 (install_gdt 0x104000 gdt_fresh)))) 3 = segment 0xFFFFF 0xFA 0xC"
proof -
  have "gdt_i gdt_fresh = 0" by (simp add: gdt_fresh_def)
  moreover obtain t s' where e: "install_tss 0x105000 0x110000 (install_gdt 0x104000 gdt_fresh) = (t, s')" by fastforce
  ultimately have "map (segment_at (gdt s')) [0..<6] ! 3 = segment 0xFFFFF 0xFA 0xC"
    using kernel_segments [of gdt_fresh "0x105000" "0x110000" "0x104000" t s'] by simp
  then show ?thesis by (simp add: e)
qed

text \<open>
  User mode reaches the ports. The task state segment is left with \<open>iomap_base\<close> zero, inside its limit, so that its own bytes
  are the permission bits of the ports: whatever kernel stack is set, a program in user mode may use the ports of the
  disk controller, the keyboard and the timer.
\<close>

theorem user_ports_open:
  assumes "p \<in> {0x1F0, 0x1F1, 0x1F2, 0x1F3, 0x1F4, 0x1F5, 0x1F6, 0x1F7, 0x60, 0x40, 0x43}"
  shows "port_open ((fst (install_tss tss_addr stack s))\<lparr>t_esp0 := esp0\<rparr>) (sizeof_tss - 1) p"
  using assms by (auto simp: install_tss_def port_open_def tss_words_def tss_zero_def sizeof_tss_def Let_def)

lemma user_ports_open_witness:
  "port_open ((fst (install_tss 0x105000 0x110000 gdt_fresh))\<lparr>t_esp0 := 0x302000\<rparr>) (sizeof_tss - 1) 0x1F7"
  by (rule user_ports_open) simp

lemma install_stubs_idt:
  assumes "length (idt s) = 256" "unat v + j + n \<le> 256"
  shows "length (idt (install_stubs tab v j n s)) = 256"
    and "idt (install_stubs tab v j n s) ! i =
      (if unat v + j \<le> i \<and> i < unat v + j + n
       then \<lparr>isr_low = ucast (tab (i - unat v) AND 0xFFFF), kernel_cs = 0x08, reserved = 0, attributes = 0x8E,
             isr_high = ucast (drop_bit 16 (tab (i - unat v)))\<rparr> else idt s ! i)"
proof -
  have "length (idt (install_stubs tab v j n s)) = 256 \<and> idt (install_stubs tab v j n s) ! i =
      (if unat v + j \<le> i \<and> i < unat v + j + n
       then \<lparr>isr_low = ucast (tab (i - unat v) AND 0xFFFF), kernel_cs = 0x08, reserved = 0, attributes = 0x8E,
             isr_high = ucast (drop_bit 16 (tab (i - unat v)))\<rparr> else idt s ! i)"
    using assms
  proof (induction n arbitrary: j s)
    case (Suc n)
    have u: "unat (v + of_nat j) = unat v + j" using Suc.prems(2) by (simp add: unat_word_ariths unat_of_nat)
    show ?case using Suc.prems Suc.IH [of "(idt_set_descriptor (v + of_nat j) (tab j) 0x8E s)\<lparr>vectors := (vectors s)[unat v + j := True]\<rparr>" "j + 1"] u
      by (auto simp: idt_set_descriptor_def Let_def nth_list_update)
  qed auto
  then show "length (idt (install_stubs tab v j n s)) = 256"
    and "idt (install_stubs tab v j n s) ! i =
      (if unat v + j \<le> i \<and> i < unat v + j + n
       then \<lparr>isr_low = ucast (tab (i - unat v) AND 0xFFFF), kernel_cs = 0x08, reserved = 0, attributes = 0x8E,
             isr_high = ucast (drop_bit 16 (tab (i - unat v)))\<rparr> else idt s ! i)" by auto
qed

lemma gate_halves:
  fixes a :: u32
  shows "push_bit 16 (ucast (ucast (drop_bit 16 a) :: u16)) OR ucast (ucast (a AND 0xFFFF) :: u16) = a"
proof -
  have m: "a AND 0xFFFF = take_bit 16 a" by (simp add: take_bit_eq_mask mask_eq_exp_minus_1)
  show ?thesis unfolding m by (rule bit_word_eqI) (auto simp: bit_simps)
qed

text \<open>
  C36. Every interrupt reaches its stub. After boot the gates of the 32 exceptions and of the 16 lines lead to
  their stubs and that of system calls to its own, all in the kernel's code segment; no other is present; and the only one
  a program in user mode may call is the one for system calls.
\<close>

theorem idt_gates:
  assumes "length (idt s) = 256" "\<forall>d \<in> set (idt s). attributes d = 0"
    "s' = syscall_install syscall_stub (install_idt addr isr_stub irq_stub s)" "v < 256"
  shows "(v < 32 \<longrightarrow> gate_target (idt s' ! v) = isr_stub v \<and> attributes (idt s' ! v) = 0x8E)
    \<and> (32 \<le> v \<and> v < 48 \<longrightarrow> gate_target (idt s' ! v) = irq_stub (v - 32) \<and> attributes (idt s' ! v) = 0x8E)
    \<and> (v = 0x80 \<longrightarrow> gate_target (idt s' ! v) = syscall_stub)
    \<and> (v < 48 \<or> v = 0x80 \<longrightarrow> kernel_cs (idt s' ! v) = 0x08)
    \<and> (present (attributes (idt s' ! v)) \<longrightarrow> v < 48 \<or> v = 0x80)
    \<and> (present (attributes (idt s' ! v)) \<and> dpl (attributes (idt s' ! v)) = 3 \<longleftrightarrow> v = 0x80)"
proof -
  define s1 where "s1 = install_stubs isr_stub 0 0 32 (s\<lparr>idtr_base := addr, idtr_limit := 8 * of_nat MAX_ENTRIES - 1\<rparr>)"
  define s2 where "s2 = install_stubs irq_stub 32 0 16 s1"
  have l1: "length (idt s1) = 256" unfolding s1_def using assms(1) by (intro install_stubs_idt) simp_all
  have l2: "length (idt s2) = 256" unfolding s2_def using l1 by (intro install_stubs_idt) simp_all
  have e1: "idt s1 ! v = (if v < 32 then \<lparr>isr_low = ucast (isr_stub v AND 0xFFFF), kernel_cs = 0x08, reserved = 0, attributes = 0x8E,
      isr_high = ucast (drop_bit 16 (isr_stub v))\<rparr> else idt s ! v)"
    unfolding s1_def using assms(1) by (subst install_stubs_idt(2)) simp_all
  have e2: "idt s2 ! v = (if 32 \<le> v \<and> v < 48 then \<lparr>isr_low = ucast (irq_stub (v - 32) AND 0xFFFF), kernel_cs = 0x08, reserved = 0,
      attributes = 0x8E, isr_high = ucast (drop_bit 16 (irq_stub (v - 32)))\<rparr> else idt s1 ! v)"
    unfolding s2_def using l1 by (subst install_stubs_idt(2)) simp_all
  have e3: "idt s' ! v = (if v = 0x80 then \<lparr>isr_low = ucast (syscall_stub AND 0xFFFF), kernel_cs = 0x08, reserved = 0,
      attributes = 0xEF, isr_high = ucast (drop_bit 16 syscall_stub)\<rparr> else idt s2 ! v)"
    using l2 by (simp add: assms(3) syscall_install_def idt_set_descriptor_def install_idt_def s2_def s1_def nth_list_update)
  have z: "attributes (idt s ! v) = 0" using assms(1,2,4) by simp
  have b: "present 0x8E" "dpl 0x8E = 0" "present 0xEF" "dpl 0xEF = 3" "\<not> present 0" by (simp_all add: present_def dpl_def)
  show ?thesis unfolding e3 e2 e1 using z b by (simp add: gate_target_def gate_halves)
qed

definition idt_fresh :: idt_state where
  "idt_fresh = \<lparr>idt = replicate 256 \<lparr>isr_low = 0, kernel_cs = 0, reserved = 0, attributes = 0, isr_high = 0\<rparr>,
     vectors = replicate 256 False, idtr_limit = 0, idtr_base = 0\<rparr>"

lemma idt_gates_witness:
  "gate_target (idt (syscall_install 0x100ABC (install_idt 0x106000 (\<lambda>v. 0x100200 + of_nat v * 7) (\<lambda>v. 0x100800 + of_nat v * 7) idt_fresh)) ! 33)
    = 0x100807"
proof -
  have f: "length (idt idt_fresh) = 256" "\<forall>d \<in> set (idt idt_fresh). attributes d = 0" by (simp_all add: idt_fresh_def)
  show ?thesis using idt_gates [OF f refl, of 33] by simp
qed

end
