(* ===== verification/Syscall.thy ===== *)
theory Syscall
  imports Descriptors
begin

text \<open>
  What enters the kernel by itself: the system calls of \<^verbatim>\<open>kernel/syscall.c\<close> and the exceptions of \<^verbatim>\<open>kernel/isrs.c\<close>, with the
  program \<^verbatim>\<open>user/hello.c\<close>, which makes them. A system call from an address that is not mapped is a page fault in
  the kernel and has the value \<open>None\<close>, as has one that never returns.
\<close>

section \<open>System calls\<close>

definition SYS_EXIT :: u32 where "SYS_EXIT = 1"
definition SYS_WRITE :: u32 where "SYS_WRITE = 2"
definition SYS_READKEY :: u32 where "SYS_READKEY = 3"
definition SYS_SLEEP :: u32 where "SYS_SLEEP = 4"

text \<open>The registers a stub saves, those the kernel looks at.\<close>

record regs =
  r_ebx :: u32
  r_ecx :: u32
  r_eax :: u32
  r_vector :: u32
  r_error_code :: u32
  r_eip :: u32
  r_cs :: u32

text \<open>\<open>n\<close> characters from \<open>buf + i\<close> on.\<close>

fun sys_write_from :: "u32 \<Rightarrow> nat \<Rightarrow> 's kernel \<Rightarrow> 's kernel option" where
  "sys_write_from a 0 k = Some k"
| "sys_write_from a (Suc n) k = do {
     c \<leftarrow> load_byte (vmem k) a;
     sys_write_from (a + 1) n (on_vga (terminal_putchar c) k) }"

definition sys_write :: "u32 \<Rightarrow> u32 \<Rightarrow> 's kernel \<Rightarrow> 's kernel option" where
  "sys_write buf len k = sys_write_from buf (unat len) k"

text \<open>The registers and the kernel afterwards, and the interrupts that are left.\<close>

definition syscall_handler ::
  "'s ports \<Rightarrow> u32 list list \<Rightarrow> regs \<Rightarrow> 's kernel \<Rightarrow> (regs \<times> 's kernel flow \<times> u32 list list) option" where
  "syscall_handler io arrivals r k =
     (if r_eax r = SYS_EXIT then Some (r, Unwinds (process_exit (r_ebx r) k), arrivals)
      else if r_eax r = SYS_WRITE then map_option (\<lambda>k. (r, Returns k, arrivals)) (sys_write (r_ebx r) (r_ecx r) k)
      else if r_eax r = SYS_READKEY
      then (let (c, b) = keyboard_getchar (kbd k) in Some (r\<lparr>r_eax := ucast c\<rparr>, Returns (k\<lparr>kbd := b\<rparr>), arrivals))
      else if r_eax r = SYS_SLEEP then map_option (\<lambda>(f, arrivals). (r, f, arrivals)) (sleep io (r_ebx r) arrivals k)
      else Some (r, Returns k, arrivals))"

section \<open>Exceptions\<close>

definition exception_messages :: "bytes list" where
  "exception_messages = map str
    [''Divide by Zero'', ''Debug'', ''Non-Maskable Interrupt'', ''Breakpoint'', ''Overflow'', ''Bound Range Exceeded'',
     ''Invalid Opcode'', ''Device Not Available'', ''Double Fault'', ''Coprocessor Segment Overrun'', ''Invalid TSS'',
     ''Segment Not Present'', ''Stack Segment Fault'', ''General Protection Fault'', ''Page Fault'', ''Reserved'',
     ''x87 Floating Point'', ''Alignment Check'', ''Machine Check'', ''SIMD Floating Point'', ''Virtualization'',
     ''Control Protection'', ''Reserved'', ''Reserved'', ''Reserved'', ''Reserved'', ''Reserved'', ''Reserved'',
     ''Hypervisor Injection'', ''VMM Communication'', ''Security Exception'', ''Reserved'']"

text \<open>The kernel as it halts.\<close>

definition normal_exception_handler :: "'s ports \<Rightarrow> u32 \<Rightarrow> 's kernel \<Rightarrow> 's kernel option" where
  "normal_exception_handler io interrupt_num k =
     (if unat interrupt_num < length exception_messages
      then kprintf io (str ''EXCEPTION: %s'' @ [0x0A]) [Va_str (exception_messages ! unat interrupt_num)] k
      else None)"

definition page_fault_handler :: "'s ports \<Rightarrow> u32 \<Rightarrow> u32 \<Rightarrow> regs \<Rightarrow> 's kernel \<Rightarrow> 's kernel option" where
  "page_fault_handler io faulting_address error_code r k = do {
     let present = error_code AND 0x1;
     let write = error_code AND 0x2;
     let user = error_code AND 0x4;
     k \<leftarrow> kprintf io (str ''PAGE FAULT at %x'' @ [0x0A]) [Va_int faulting_address] k;
     k \<leftarrow> kprintf io (str ''  cause: %s %s %s'' @ [0x0A])
            [Va_str (if present \<noteq> 0 then str ''protection'' else str ''not-present''),
             Va_str (if write \<noteq> 0 then str ''write'' else str ''read''),
             Va_str (if user \<noteq> 0 then str ''user-mode'' else str ''kernel-mode'')] k;
     kprintf io (str ''  eip: %x  cs: %x'' @ [0x0A]) [Va_int (r_eip r), Va_int (r_cs r)] k }"

text \<open>\<open>cr2\<close> is the register in which the processor leaves the faulting address.\<close>

definition exception_handler :: "'s ports \<Rightarrow> u32 \<Rightarrow> regs \<Rightarrow> 's kernel \<Rightarrow> 's kernel option" where
  "exception_handler io cr2 r k =
     (if r_vector r = 0x0E then page_fault_handler io cr2 (r_error_code r) r k
      else normal_exception_handler io (r_vector r) k)"

section \<open>The program \<open>hello\<close>\<close>

text \<open>
  Its text lies in the memory of the process, at \<open>m1\<close> and \<open>m2\<close>. It makes its calls as the processor does, with the number in
  \<open>eax\<close>; a call either comes back to it or ends it.
\<close>

definition call_regs :: "u32 \<Rightarrow> u32 \<Rightarrow> u32 \<Rightarrow> regs" where
  "call_regs number b c = \<lparr>r_ebx = b, r_ecx = c, r_eax = number, r_vector = 0x80, r_error_code = 0, r_eip = 0, r_cs = 0x1B\<rparr>"

partial_function (option) hello_strlen :: "vm \<Rightarrow> u32 \<Rightarrow> u32 \<Rightarrow> u32 option" where
  "hello_strlen st s n = do { c \<leftarrow> load_byte st (s + n); if c \<noteq> 0 then hello_strlen st s (n + 1) else Some n }"

definition hello_print :: "'s ports \<Rightarrow> u32 \<Rightarrow> u32 list list \<Rightarrow> 's kernel \<Rightarrow> ('s kernel flow \<times> u32 list list) option" where
  "hello_print io s arrivals k = do {
     n \<leftarrow> hello_strlen (vmem k) s 0;
     (_, f, arrivals) \<leftarrow> syscall_handler io arrivals (call_regs SYS_WRITE s n) k;
     Some (f, arrivals) }"

text \<open>Waiting for a key; the interrupts of one entry of the list arrive between two calls.\<close>

fun hello_wait :: "'s ports \<Rightarrow> u32 list list \<Rightarrow> 's kernel \<Rightarrow> ('s kernel flow \<times> u32 list list) option" where
  "hello_wait io arrivals k =
     (case syscall_handler io arrivals (call_regs SYS_READKEY 0 0) k of
        Some (r, Returns k, _) \<Rightarrow>
          (if (ucast (r_eax r) :: u8) \<noteq> 0 then Some (Returns k, arrivals)
           else (case arrivals of
               [] \<Rightarrow> None
             | vs # arrivals \<Rightarrow>
                 (case interrupts io vs k of
                     Returns k \<Rightarrow> hello_wait io arrivals k
                   | Unwinds k \<Rightarrow> Some (Unwinds k, arrivals))))
      | _ \<Rightarrow> None)"

declare hello_wait.simps [simp del]

text \<open>Going on when the program is still there.\<close>

definition and_then :: "('s kernel flow \<times> u32 list list) option \<Rightarrow>
    (u32 list list \<Rightarrow> 's kernel \<Rightarrow> ('s kernel flow \<times> u32 list list) option) \<Rightarrow> ('s kernel flow \<times> u32 list list) option" where
  "and_then m f = (case m of Some (Returns k, arrivals) \<Rightarrow> f arrivals k | _ \<Rightarrow> m)"

definition hello_start :: "'s ports \<Rightarrow> u32 \<Rightarrow> u32 \<Rightarrow> u32 list list \<Rightarrow> 's kernel \<Rightarrow> ('s kernel flow \<times> u32 list list) option" where
  "hello_start io m1 m2 arrivals k =
     and_then (hello_print io m1 arrivals k) (\<lambda>arrivals k.
     and_then (hello_print io m2 arrivals k) (\<lambda>arrivals k.
     and_then (hello_wait io arrivals k) (\<lambda>arrivals k.
       map_option (\<lambda>(_, f, arrivals). (f, arrivals)) (syscall_handler io arrivals (call_regs SYS_EXIT 0 0) k))))"

section \<open>Writing\<close>

lemma on_vga_on_vga: "on_vga f (on_vga g k) = on_vga (f \<circ> g) k"
  by (simp add: on_vga_def)

lemma on_vga_keeps [simp]: "vmem (on_vga f k) = vmem k" "kbd (on_vga f k) = kbd k" "current_process (on_vga f k) = current_process k"
    "procs (on_vga f k) = procs k" "irq_handlers (on_vga f k) = irq_handlers k"
  by (simp_all add: on_vga_def)

text \<open>The bytes of a stretch of memory, if all of it is mapped.\<close>

definition bytes_at :: "vm \<Rightarrow> u32 \<Rightarrow> nat \<Rightarrow> bytes option" where
  "bytes_at st a n = those (map (\<lambda>i. load_byte st (a + of_nat i)) [0..<n])"

lemma bytes_at_Suc: "bytes_at st a (Suc n) = (case load_byte st a of Some c \<Rightarrow> map_option ((#) c) (bytes_at st (a + 1) n) | None \<Rightarrow> None)"
  by (simp add: bytes_at_def upt_conv_Cons map_Suc_upt [symmetric] o_def algebra_simps del: upt_Suc split: option.split)

lemma sys_write_from_bytes:
  "sys_write_from a n k = map_option (\<lambda>cs. on_vga (terminal_write cs) k) (bytes_at (vmem k) a n)"
proof (induction n arbitrary: a k)
  case 0
  then show ?case by (simp add: bytes_at_def terminal_write_def on_vga_def)
next
  case (Suc n)
  show ?case
    by (cases "load_byte (vmem k) a"; cases "bytes_at (vmem k) (a + 1) n")
      (simp_all add: Suc bytes_at_Suc on_vga_on_vga terminal_write_def o_def)
qed

text \<open>A string in memory with its final zero.\<close>

definition string_at :: "vm \<Rightarrow> u32 \<Rightarrow> bytes \<Rightarrow> bool" where
  "string_at st a cs \<longleftrightarrow> bytes_at st a (Suc (length cs)) = Some (cs @ [0]) \<and> 0 \<notin> set cs"

lemma string_at_bytes: "string_at st a cs \<Longrightarrow> bytes_at st a (length cs) = Some cs"
proof (induction cs arbitrary: a)
  case (Cons c cs)
  then show ?case by (auto simp: string_at_def bytes_at_Suc split: option.splits)
qed (simp add: bytes_at_def)

lemma hello_strlen_string:
  "string_at st (a + n) cs \<Longrightarrow> hello_strlen st a n = Some (n + of_nat (length cs))"
proof (induction cs arbitrary: n)
  case Nil
  then show ?case by (auto simp: hello_strlen.simps [of st a n] string_at_def bytes_at_Suc split: option.splits)
next
  case (Cons c cs)
  then have "load_byte st (a + n) = Some c" "c \<noteq> 0" "string_at st (a + (n + 1)) cs"
    by (auto simp: string_at_def bytes_at_Suc add.assoc split: option.splits)
  then show ?case using Cons.IH [of "n + 1"] by (simp add: hello_strlen.simps [of st a n] add.assoc)
qed

lemma terminal_write_append: "terminal_write ys (terminal_write xs v) = terminal_write (xs @ ys) v"
  by (simp add: terminal_write_def)

lemma hello_print_string:
  assumes "string_at (vmem k) a cs" "length cs < 2 ^ 32"
  shows "hello_print io a arrivals k = Some (Returns (on_vga (terminal_write cs) k), arrivals)"
proof -
  have "hello_strlen (vmem k) a 0 = Some (of_nat (length cs))" using hello_strlen_string [of "vmem k" a 0 cs] assms(1) by simp
  moreover have "sys_write a (of_nat (length cs)) k = Some (on_vga (terminal_write cs) k)"
    using assms by (simp add: sys_write_def sys_write_from_bytes string_at_bytes unat_of_nat take_bit_nat_eq_self)
  ultimately show ?thesis by (simp add: hello_print_def syscall_handler_def call_regs_def SYS_WRITE_def SYS_EXIT_def)
qed

section \<open>Properties\<close>

text \<open>
  Writing is the copy of the memory to the screen: the system call writes exactly the bytes the process's memory
  holds there, in order, through as many pages as they take, and ends in a page fault exactly when some byte is not mapped. It
  looks at no more than that: memory of the kernel is written out as well.
\<close>

theorem sys_write_prints:
  "sys_write buf len k = (case those (map (\<lambda>i. load_byte (vmem k) (buf + of_nat i)) [0..<unat len]) of
      Some cs \<Rightarrow> Some (on_vga (terminal_write cs) k)
    | None \<Rightarrow> None)"
  unfolding bytes_at_def [symmetric] by (simp add: sys_write_def sys_write_from_bytes split: option.split)

text \<open>
  The program \<open>hello\<close> runs to its end. Started as a process with its two texts in memory and a key waiting,
  it writes the texts to the screen, takes the key and returns to the kernel with exit code 0.
\<close>

theorem hello_runs:
  assumes "string_at (vmem k) m1 t1" "string_at (vmem k) m2 t2" "length t1 < 2 ^ 32" "length t2 < 2 ^ 32" "p \<noteq> 0"
    "pending (kbd k) = c # cs" "c \<noteq> 0"
  shows "\<exists>k'. process_run (\<lambda>_ _ k. case hello_start io m1 m2 arrivals k of Some (Unwinds k, _) \<Rightarrow> Some k | _ \<Rightarrow> None) p k = Some k'
    \<and> exit_code (procs k' p) = 0 \<and> current_process k' = 0 \<and> pending (kbd k') = cs
    \<and> vga (con k') = terminal_write (t1 @ t2) (vga (con k))"
proof -
  define k0 where "k0 = tss_set_kernel_stack (kstack_top (procs k p)) (k\<lparr>current_process := p\<rparr>)"
  have k0: "vmem k0 = vmem k" "kbd k0 = kbd k" "con k0 = con k" "current_process k0 = p" by (simp_all add: k0_def tss_set_kernel_stack_def)
  define k1 where "k1 = on_vga (terminal_write t1) k0"
  define k2 where "k2 = on_vga (terminal_write t2) k1"
  define k3 where "k3 = k2\<lparr>kbd := snd (keyboard_getchar (kbd k2))\<rparr>"
  have p1: "hello_print io m1 arrivals k0 = Some (Returns k1, arrivals)"
    unfolding k1_def using assms(1,3) by (intro hello_print_string) (simp_all add: k0)
  have p2: "hello_print io m2 arrivals k1 = Some (Returns k2, arrivals)"
    unfolding k2_def using assms(2,4) by (intro hello_print_string) (simp_all add: k1_def k0)
  have kb: "kbd k2 = kbd k" by (simp add: k2_def k1_def k0)
  obtain b where b: "keyboard_getchar (kbd k2) = (c, b)" "pending b = cs"
    using pending_get [of "kbd k2", unfolded kb, OF assms(6)] kb by (cases "keyboard_getchar (kbd k)") auto
  have u: "(ucast (ucast c :: u32) :: u8) = c" by (rule bit_word_eqI) (simp add: bit_simps)
  have p3: "hello_wait io arrivals k2 = Some (Returns k3, arrivals)"
    using b(1) assms(7) u
    by (simp add: hello_wait.simps syscall_handler_def call_regs_def SYS_READKEY_def SYS_WRITE_def SYS_EXIT_def k3_def)
  have "hello_start io m1 m2 arrivals k0 = Some (Unwinds (process_exit 0 k3), arrivals)"
    by (simp add: hello_start_def and_then_def p1 p2 p3 syscall_handler_def call_regs_def SYS_EXIT_def)
  then have "process_run (\<lambda>_ _ k. case hello_start io m1 m2 arrivals k of Some (Unwinds k, _) \<Rightarrow> Some k | _ \<Rightarrow> None) p k = Some (process_exit 0 k3)"
    by (simp add: process_run_def k0_def)
  moreover have "current_process k3 = p" by (simp add: k3_def k2_def k1_def k0)
  moreover have "kbd k3 = b" "vga (con k3) = terminal_write (t1 @ t2) (vga (con k))"
    using b(1) by (simp_all add: k3_def k2_def k1_def k0 on_vga_def terminal_write_append)
  ultimately show ?thesis using assms(5) b(2) by (simp add: process_exit_def)
qed

lemma demo_program_string:
  obtains s st where "elf_load recorder_unit 1 [] 64 demo_kernel = Some (0x40000000, [0x40000000], demo_kernel\<lparr>files := s, vmem := st\<rparr>)"
    "string_at st 0x40000000 [0xEB, 0xFE, 0x90, 0x90]"
proof -
  have f: "is_file {} (files demo_kernel) 1 demo_elf" using demo_elf_file by (simp add: demo_kernel_def)
  have u: "uspace (vmem demo_kernel) {}" using vm_demo_inv by (simp add: uspace_def demo_kernel_def)
  have fr: "frames_left (2 * (length (program_pages [demo_phdr]) + 0)) (vpmm (vmem demo_kernel))"
    using demo_frames by (simp add: demo_program(2) demo_kernel_def)
  from elf_load_image [OF f u demo_program(1) fr, of recorder_unit "[]" 64] obtain s st where
      e: "elf_load recorder_unit 1 [] 64 demo_kernel = Some (0x40000000, [0x40000000], demo_kernel\<lparr>files := s, vmem := st\<rparr>)"
      and b: "\<forall>c. covers demo_phdr c \<longrightarrow> load_byte st c = Some (seg_image demo_elf demo_phdr c)"
    by (auto simp: demo_program(2,3) add_pages_def)
  have "load_byte st 0x40000000 = Some 0xEB" "load_byte st 0x40000001 = Some 0xFE" "load_byte st 0x40000002 = Some 0x90"
    "load_byte st 0x40000003 = Some 0x90" "load_byte st 0x40000004 = Some 0"
    using b by (simp_all add: covers_def seg_image_def demo_phdr_def demo_elf_def)
  then have "string_at st 0x40000000 [0xEB, 0xFE, 0x90, 0x90]" by (simp add: string_at_def bytes_at_Suc) (simp add: bytes_at_def)
  then show thesis using e that by blast
qed

lemma hello_runs_witness:
  "\<exists>st k'. process_run (\<lambda>_ _ k. case hello_start recorder_unit 0x40000000 0x40000000 [] k of Some (Unwinds k, _) \<Rightarrow> Some k | _ \<Rightarrow> None) 5
      (demo_kernel\<lparr>vmem := st, kbd := key_put 0x61 kbd_demo\<rparr>) = Some k' \<and> exit_code (procs k' 5) = 0"
proof -
  obtain st where st: "string_at st 0x40000000 [0xEB, 0xFE, 0x90, 0x90]" using demo_program_string by blast
  define k where "k = demo_kernel\<lparr>vmem := st, kbd := key_put 0x61 kbd_demo\<rparr>"
  have "pending (key_put 0x61 kbd_demo) = pending kbd_demo @ [0x61]" "pending kbd_demo = []"
    using pending_put [of kbd_demo "0x61"] by (simp_all add: ring_ok_def kbd_demo_def pending_def)
  then have "pending (kbd k) = [0x61]" by (simp add: k_def)
  moreover have "string_at (vmem k) 0x40000000 [0xEB, 0xFE, 0x90, 0x90]" using st by (simp add: k_def)
  ultimately show ?thesis
    using hello_runs [of k "0x40000000" "[0xEB, 0xFE, 0x90, 0x90]" "0x40000000" "[0xEB, 0xFE, 0x90, 0x90]" 5 "0x61" "[]" recorder_unit "[]"]
    unfolding k_def by auto
qed

text \<open>What is on the screen when the kernel stops.\<close>

definition fault_text :: "u32 \<Rightarrow> regs \<Rightarrow> bytes" where
  "fault_text cr2 r =
     (if r_vector r = 14
      then str ''PAGE FAULT at '' @ hex_string cr2 @ 0x0A # str ''  cause: ''
        @ (if bit (r_error_code r) 0 then str ''protection'' else str ''not-present'') @ 0x20
        # (if bit (r_error_code r) 1 then str ''write'' else str ''read'') @ 0x20
        # (if bit (r_error_code r) 2 then str ''user-mode'' else str ''kernel-mode'') @ 0x0A
        # str ''  eip: '' @ hex_string (r_eip r) @ str ''  cs: '' @ hex_string (r_cs r) @ [0x0A]
      else str ''EXCEPTION: '' @ exception_messages ! unat (r_vector r) @ [0x0A])"

lemma and_exp_bit: "e AND 2 ^ n = (if bit e n then 2 ^ n else 0)" for e :: u32
  by (rule bit_word_eqI) (auto simp: bit_simps)

lemma kprintf_render:
  assumes "\<not> uart_output_mode (con k)" "render (cstr fmt) args = Some out"
  shows "kprintf io fmt args k = Some (on_vga (terminal_write out) k)"
  using assms printf_from_render [of io "cstr fmt" args "con k"] by (simp add: kprintf_def printf_def put_all_screen on_vga_def)

text \<open>
  A fault is reported, with what the processor says of it: for each of the 32 exceptions the kernel prints its name, or
  for a page fault the address, the three causes and the place, and stops.
\<close>

theorem exceptions_reported:
  assumes "\<not> uart_output_mode (con k)" "unat (r_vector r) < 32"
  shows "exception_handler io cr2 r k = Some (on_vga (terminal_write (fault_text cr2 r)) k)"
proof (cases "r_vector r = 14")
  case False
  have "length exception_messages = 32" "\<forall>m \<in> set exception_messages. 0 \<notin> set m" by (simp_all add: exception_messages_def str_def)
  then have c: "cstr (exception_messages ! unat (r_vector r)) = exception_messages ! unat (r_vector r)" "unat (r_vector r) < length exception_messages"
    using assms(2) by (simp_all add: cstr_def takeWhile_eq_all_conv) (metis nth_mem)
  have "render (cstr (str ''EXCEPTION: %s'' @ [0x0A])) [Va_str (exception_messages ! unat (r_vector r))] = Some (fault_text cr2 r)"
    using False c(1) by (simp add: cstr_def str_def fault_text_def)
  from kprintf_render [OF assms(1) this] show ?thesis using False c(2) by (simp add: exception_handler_def normal_exception_handler_def)
next
  case True
  define e where "e = r_error_code r"
  have m: "e AND 1 \<noteq> 0 \<longleftrightarrow> bit e 0" "e AND 2 \<noteq> 0 \<longleftrightarrow> bit e 1" "e AND 4 \<noteq> 0 \<longleftrightarrow> bit e 2"
    using and_exp_bit [of e 0] and_exp_bit [of e 1] and_exp_bit [of e 2] by simp_all
  define out1 where "out1 = str ''PAGE FAULT at '' @ hex_string cr2 @ [0x0A]"
  define out2 where "out2 = str ''  cause: ''
        @ (if bit e 0 then str ''protection'' else str ''not-present'') @ 0x20
        # (if bit e 1 then str ''write'' else str ''read'') @ 0x20
        # (if bit e 2 then str ''user-mode'' else str ''kernel-mode'') @ [0x0A]"
  define out3 where "out3 = str ''  eip: '' @ hex_string (r_eip r) @ str ''  cs: '' @ hex_string (r_cs r) @ [0x0A]"
  have r1: "render (cstr (str ''PAGE FAULT at %x'' @ [0x0A])) [Va_int cr2] = Some out1"
    by (simp add: cstr_def str_def out1_def)
  have r2: "render (cstr (str ''  cause: %s %s %s'' @ [0x0A]))
      [Va_str (if bit e 0 then str ''protection'' else str ''not-present''), Va_str (if bit e 1 then str ''write'' else str ''read''),
       Va_str (if bit e 2 then str ''user-mode'' else str ''kernel-mode'')] = Some out2"
    by (simp add: out2_def str_def cstr_def)
  have r3: "render (cstr (str ''  eip: %x  cs: %x'' @ [0x0A])) [Va_int (r_eip r), Va_int (r_cs r)] = Some out3"
    by (simp add: cstr_def str_def out3_def)
  have u: "\<not> uart_output_mode (con (on_vga f k))" for f using assms(1) by (simp add: on_vga_def)
  have "fault_text cr2 r = out1 @ out2 @ out3" using True by (simp add: fault_text_def out1_def out2_def out3_def e_def)
  then show ?thesis using True kprintf_render [OF assms(1) r1, of io] kprintf_render [OF u r2, of io] kprintf_render [OF u r3, of io]
    by (simp add: exception_handler_def page_fault_handler_def e_def [symmetric] m on_vga_on_vga o_def terminal_write_append split del: if_split)
qed

lemma exceptions_reported_witness:
  "exception_handler recorder_unit 0xDEAD (call_regs 0 0 0\<lparr>r_vector := 14, r_error_code := 6\<rparr>) demo_kernel
    = Some (on_vga (terminal_write (fault_text 0xDEAD (call_regs 0 0 0\<lparr>r_vector := 14, r_error_code := 6\<rparr>))) demo_kernel)"
proof -
  have "\<not> uart_output_mode (con demo_kernel)" by (simp add: demo_kernel_def)
  moreover have "unat (r_vector (call_regs 0 0 0\<lparr>r_vector := 14, r_error_code := 6\<rparr>)) < 32" by simp
  ultimately show ?thesis by (rule exceptions_reported)
qed

end
