(* ===== verification/Path.thy ===== *)
theory Path
  imports Syscall
begin

text \<open>
  The path helpers of the shell, \<^verbatim>\<open>path_resolve\<close> and \<^verbatim>\<open>path_parent_and_name\<close> of \<^verbatim>\<open>shell/builtins.c\<close>, over the buffers they
  are given, and what they mean for the strings in them.
\<close>

definition path_resolve :: "bytes \<Rightarrow> bytes \<Rightarrow> bytes \<Rightarrow> nat \<Rightarrow> bytes" where
  "path_resolve cur arg out sz =
     (if cget arg 0 = 0 then fst (strlcpy out cur sz)
      else if cget arg 0 = 0x2F then fst (strlcpy out arg sz)
      else (let out = fst (strlcpy out cur sz);
                len = strlen out;
                (out, len) = (if len > 0 \<and> cget out (len - 1) \<noteq> 0x2F \<and> len < sz - 1
                              then (out[len := 0x2F, len + 1 := 0], len + 1) else (out, len))
            in take len out @ fst (strlcpy (drop len out) arg (sz - len))))"

text \<open>The position of the last slash, 0 if there is none; \<open>i\<close> characters are behind.\<close>

fun last_slash :: "bytes \<Rightarrow> nat \<Rightarrow> nat \<Rightarrow> nat" where
  "last_slash [] i l = l"
| "last_slash (c # s) i l = (if c = 0 then l else last_slash s (i + 1) (if c = 0x2F then i else l))"

definition path_parent_and_name :: "bytes \<Rightarrow> bytes \<Rightarrow> nat \<Rightarrow> bytes \<Rightarrow> nat \<Rightarrow> bytes \<times> bytes" where
  "path_parent_and_name resolved parent psz name bsz =
     (let last = last_slash resolved 0 0
      in if last = 0
         then (fst (strlcpy parent (str ''/'') psz), fst (strlcpy name (drop 1 resolved) bsz))
         else (let n = min last (psz - 1)
               in ((take n resolved @ drop n parent)[n := 0], fst (strlcpy name (drop (last + 1) resolved) bsz))))"

section \<open>Paths as strings\<close>

definition abs_path :: "bytes \<Rightarrow> bytes \<Rightarrow> bytes" where
  "abs_path cwd arg =
     (if arg = [] then cwd else if hd arg = 0x2F then arg
      else if last cwd = 0x2F then cwd @ arg else cwd @ 0x2F # arg)"

lemma cstr_hd: "cget s 0 = (case cstr s of [] \<Rightarrow> 0 | c # _ \<Rightarrow> c)"
  by (cases s) (simp_all add: cstr_def)

lemma cstr_take_drop: "n \<le> length (cstr s) \<Longrightarrow> take n s = take n (cstr s)"
  by (metis cstr_def take_all_iff takeWhile_eq_take take_take min.absorb1)

lemma cstr_after: "n \<le> length (cstr s) \<Longrightarrow> cstr (drop n s) = drop n (cstr s)"
proof (induction n arbitrary: s)
  case (Suc n)
  then show ?case by (cases s) (auto simp: cstr_def split: if_splits)
qed simp

lemma cstr_prefix: "0 \<notin> set xs \<Longrightarrow> cstr (xs @ ys) = xs @ cstr ys"
  by (induction xs) (simp_all add: cstr_def)

lemma path_resolve_string:
  assumes "1 < sz" "length out = sz" "cstr cur \<noteq> []"
  shows "cstr (path_resolve cur arg out sz) = take (sz - 1) (abs_path (cstr cur) (cstr arg)) \<and> length (path_resolve cur arg out sz) = sz"
proof (cases "cget arg 0 = 0 \<or> cget arg 0 = 0x2F")
  case True
  have "cstr arg \<noteq> 0 # x" for x using cstr_no_zero [of arg] by (metis list.set_intros(1))
  then show ?thesis using True assms
    by (auto simp: path_resolve_def strlcpy_cstr strlcpy_length abs_path_def cstr_hd [of arg] split: list.splits)
next
  case False
  then obtain c a where a: "cstr arg = c # a" "c \<noteq> 0x2F" by (auto simp: cstr_hd split: list.splits)
  define o1 where "o1 = fst (strlcpy out cur sz)"
  have o1: "cstr o1 = take (sz - 1) (cstr cur)" "length o1 = sz"
    using assms by (simp_all add: o1_def strlcpy_cstr strlcpy_length)
  define n where "n = length (cstr o1)"
  have n: "0 < n" "n \<le> sz - 1" "strlen o1 = n" using assms o1 by (simp_all add: n_def strlen_cstr)
  have l: "cget o1 (n - 1) = last (cstr o1)" using n(1) by (simp add: cget_cstr last_conv_nth n_def)
  define sep where "sep \<longleftrightarrow> last (cstr o1) \<noteq> 0x2F \<and> n < sz - 1"
  define o2 where "o2 = (if sep then o1[n := 0x2F, n + 1 := 0] else o1)"
  define m where "m = (if sep then n + 1 else n)"
  have r: "path_resolve cur arg out sz = take m o2 @ fst (strlcpy (drop m o2) arg (sz - m))"
    using False n l unfolding path_resolve_def o1_def [symmetric] by (simp add: Let_def sep_def o2_def m_def)
  have o2: "length o2 = sz" using o1(2) by (simp add: o2_def)
  have m: "m \<le> sz - 1" using n by (auto simp: m_def sep_def)
  have t: "take m o2 = cstr o1 @ (if sep then [0x2F] else [])"
  proof -
    have "take n o1 = cstr o1" using cstr_take_drop [of n o1] by (simp add: n_def)
    moreover have "n < length o1" using n(2) o1(2) assms(1) by simp
    ultimately show ?thesis by (cases sep) (simp_all add: m_def o2_def take_Suc_conv_app_nth sep_def)
  qed
  have z: "0 \<notin> set (take m o2)" using cstr_no_zero [of o1] by (simp add: t)
  have "0 < sz - m" "sz - m \<le> length (drop m o2)" using m assms(1) o2 by simp_all
  then have "cstr (path_resolve cur arg out sz) = take m o2 @ take (sz - m - 1) (cstr arg)"
    unfolding r using z by (simp add: cstr_prefix strlcpy_cstr)
  also have "\<dots> = take (sz - 1) (abs_path (cstr cur) (cstr arg))"
  proof (cases "length (cstr cur) \<le> sz - 1")
    case True
    then have "cstr o1 = cstr cur" "n = length (cstr cur)" using o1(1) by (simp_all add: n_def)
    then show ?thesis using True t a assms(3) by (auto simp: abs_path_def sep_def m_def take_Cons')
  next
    case long: False
    then have "n = sz - 1" using o1(1) by (simp add: n_def)
    then have "m = sz - 1" "\<not> sep" by (simp_all add: m_def sep_def)
    then show ?thesis using long t o1(1) a by (auto simp: abs_path_def)
  qed
  finally show ?thesis using m o2 \<open>0 < sz - m\<close> by (simp add: r strlcpy_length)
qed

lemma last_slash_spec:
  "0 \<notin> set p \<Longrightarrow> 0x2F \<notin> set b \<Longrightarrow> 0 \<notin> set b \<Longrightarrow> last_slash (p @ 0x2F # b @ 0 # zs) i l = i + length p
    \<and> last_slash (p @ 0x2F # b) i l = i + length p"
proof -
  have tail: "0x2F \<notin> set b \<Longrightarrow> 0 \<notin> set b \<Longrightarrow> last_slash (b @ 0 # zs) i l = l \<and> last_slash b i l = l" for b i l
    by (induction b arbitrary: i) auto
  show "0 \<notin> set p \<Longrightarrow> 0x2F \<notin> set b \<Longrightarrow> 0 \<notin> set b \<Longrightarrow> last_slash (p @ 0x2F # b @ 0 # zs) i l = i + length p
    \<and> last_slash (p @ 0x2F # b) i l = i + length p"
    using tail [of b "i + 1" i] by (induction p arbitrary: i l) (auto simp: tail)
qed

text \<open>A buffer and its string: the string, a zero, and anything.\<close>

lemma cstr_cases:
  obtains "s = cstr s" | zs where "s = cstr s @ 0 # zs"
proof -
  have e: "s = cstr s @ dropWhile (\<lambda>c. c \<noteq> 0) s" by (simp add: cstr_def)
  show thesis
  proof (cases "dropWhile (\<lambda>c. c \<noteq> 0) s")
    case Nil
    then have "s = cstr s" using e by (metis append_Nil2)
    then show thesis by (rule that(1))
  next
    case (Cons c zs)
    then have "c = 0" using dropWhile_eq_Cons_conv [of "\<lambda>c. c \<noteq> 0" s c zs] by simp
    then show thesis using e Cons that(2) by simp
  qed
qed

lemma parent_and_name_strings:
  assumes "cstr resolved = p @ 0x2F # b" "0x2F \<notin> set b" "1 < psz" "length parent = psz" "0 < bsz" "length name = bsz"
  shows "cstr (fst (path_parent_and_name resolved parent psz name bsz)) = (if p = [] then [0x2F] else take (psz - 1) p)
    \<and> cstr (snd (path_parent_and_name resolved parent psz name bsz)) = take (bsz - 1) b"
proof -
  have z: "0 \<notin> set p" "0 \<notin> set b" using cstr_no_zero [of resolved] assms(1) by auto
  have last: "last_slash resolved 0 0 = length p"
    using last_slash_spec [OF z(1) assms(2) z(2)] assms(1) by (cases resolved rule: cstr_cases) (metis append_Cons append_assoc add_0)+
  have d: "cstr (drop (length p + 1) resolved) = b"
    using cstr_after [of "length p + 1" resolved] assms(1) by simp
  have name: "cstr (fst (strlcpy name (drop (length p + 1) resolved) bsz)) = take (bsz - 1) b"
    using assms(5,6) strlcpy_cstr [of bsz name "drop (length p + 1) resolved"] unfolding d by simp
  show ?thesis
  proof (cases "p = []")
    case True
    have "cstr (fst (strlcpy parent (str ''/'') psz)) = take (psz - 1) (cstr [0x2F])"
      using assms(3,4) by (simp add: strlcpy_cstr str_def)
    also have "\<dots> = [0x2F]" using assms(3) by (simp add: cstr_def)
    finally show ?thesis using True last name by (simp add: path_parent_and_name_def)
  next
    case False
    define n where "n = min (length p) (psz - 1)"
    have n: "n < length parent" "n \<le> length (cstr resolved)" using assms(1,3,4) by (auto simp: n_def)
    have tk: "take n resolved = take n p" using cstr_take_drop [OF n(2)] assms(1) by (simp add: n_def)
    have ln: "length (take n p) = n" by (simp add: n_def)
    have "(take n resolved @ drop n parent)[n := 0] = take n p @ 0 # drop (Suc n) parent"
      unfolding tk using n(1) ln by (simp add: list_update_append Cons_nth_drop_Suc [symmetric])
    then have "cstr ((take n resolved @ drop n parent)[n := 0]) = take n p"
      using z(1) by (simp add: cstr_append_zero) (meson cstr_append_zero in_set_takeD)
    moreover have "take n p = take (psz - 1) p" by (simp add: n_def min_def)
    ultimately show ?thesis using False last name unfolding path_parent_and_name_def Let_def n_def [symmetric] last by simp
  qed
qed

section \<open>Properties\<close>

text \<open>
  C38. Resolving a path is what it says: with a current directory that is not empty, the buffer of \<open>sz\<close> bytes gets
  the current directory for an empty argument, an absolute argument as it is, and a relative one after the current
  directory and one slash, cut to the buffer in all cases; nothing beyond the buffer is written.
\<close>

theorem path_resolve_resolves:
  assumes "1 < sz" "length out = sz" "cstr cur \<noteq> []"
  shows "cstr (path_resolve cur arg out sz) = take (sz - 1) (abs_path (cstr cur) (cstr arg)) \<and> length (path_resolve cur arg out sz) = sz"
  by (rule path_resolve_string [OF assms])

lemma path_resolve_resolves_witness:
  "cstr (path_resolve (str ''/docs'') (str ''a.txt'') (replicate 8 0) 8) = str ''/docs/a''"
proof -
  have "cstr (str ''/docs'') = str ''/docs''" "cstr (str ''a.txt'') = str ''a.txt''" "cstr (str ''/docs'') \<noteq> []"
    by (simp_all add: cstr_def str_def)
  then have "cstr (path_resolve (str ''/docs'') (str ''a.txt'') (replicate 8 0) 8) = take 7 (abs_path (str ''/docs'') (str ''a.txt''))"
    using path_resolve_resolves [of 8 "replicate 8 0" "str ''/docs''" "str ''a.txt''"] by simp
  then show ?thesis by (simp add: abs_path_def str_def)
qed

text \<open>
  Splitting a path undoes joining it: the directory and the name of a path made of a directory, a slash and a
  name without one come back, each cut to its buffer, with the root for an empty directory. Shorter than
  their buffers, they name the entry the path names.
\<close>

theorem path_split_join:
  assumes "cstr resolved = join_path (ds @ [b])" "0x2F \<notin> set b"
    "length parent = 256" "length name = 128"
    "path_parent_and_name (0x2F # resolved) parent 256 name 128 = (par, nam)"
  shows "cstr par = take 255 (0x2F # join_path ds) \<and> cstr nam = take 127 b"
proof -
  have j: "join_path (ds @ [b]) = join_path ds @ 0x2F # b" if "ds \<noteq> []" for ds :: "bytes list"
    using that
  proof (induction ds rule: join_path.induct)
    case (3 c d cs)
    then show ?case by (cases cs) simp_all
  qed simp_all
  show ?thesis
  proof (cases "ds = []")
    case True
    then have "cstr (0x2F # resolved) = [] @ 0x2F # b" using assms(1) by (simp add: cstr_def)
    from parent_and_name_strings [OF this assms(2), of 256 parent 128 name] assms(3-5) True show ?thesis by simp
  next
    case False
    then have "cstr (0x2F # resolved) = (0x2F # join_path ds) @ 0x2F # b" using assms(1) j by (simp add: cstr_def)
    from parent_and_name_strings [OF this assms(2), of 256 parent 128 name] assms(3-5) show ?thesis by simp
  qed
qed

lemma path_split_join_witness:
  "\<exists>par nam. path_parent_and_name (str ''/sub/dir/f.txt'') (replicate 256 0) 256 (replicate 128 0) 128 = (par, nam)
    \<and> cstr par = str ''/sub/dir'' \<and> cstr nam = str ''f.txt''"
proof -
  obtain par nam where e: "path_parent_and_name (0x2F # str ''sub/dir/f.txt'') (replicate 256 0) 256 (replicate 128 0) 128 = (par, nam)"
    by fastforce
  have "cstr (str ''sub/dir/f.txt'') = join_path ([str ''sub'', str ''dir''] @ [str ''f.txt''])"
    "0x2F \<notin> set (str ''f.txt'')"
    by (simp_all add: cstr_def str_def)
  from path_split_join [OF this _ _ e] have "cstr par = take 255 (0x2F # join_path [str ''sub'', str ''dir''])" "cstr nam = take 127 (str ''f.txt'')"
    by simp_all
  moreover have "0x2F # str ''sub/dir/f.txt'' = str ''/sub/dir/f.txt''" by (simp add: str_def)
  ultimately show ?thesis using e by (simp add: str_def)
qed

end
