(* ===== verification/Builtins.thy ===== *)
theory Builtins
  imports Path
begin

text \<open>
  The commands of the shell, \<^verbatim>\<open>shell/builtins.c\<close>. A command takes its argument, a string, and the kernel; the value is
  \<open>None\<close> where a part of it has none, and for a directory listing that does not end. Local arrays start with zeros here, with
  anything in C; no command reads what it has not written.
\<close>

section \<open>Parts\<close>

definition kopen :: "bytes \<Rightarrow> 's kernel \<Rightarrow> (u32 \<times> 's kernel) option" where
  "kopen path k = on_files (vfs_open path (mount_table k)) k"

definition kclose :: "u32 \<Rightarrow> 's kernel \<Rightarrow> 's kernel" where
  "kclose node k = k\<lparr>files := vfs_close node (files k)\<rparr>"

definition is_kind :: "u32 \<Rightarrow> u32 \<Rightarrow> 's kernel \<Rightarrow> bool" where
  "is_kind kind node k \<longleftrightarrow> vn_flags (nodes (files k) node) AND kind \<noteq> 0"

definition kputs :: "'s ports \<Rightarrow> bytes \<Rightarrow> 's kernel \<Rightarrow> 's kernel option" where
  "kputs io cs k = map_option (\<lambda>c. k\<lparr>con := c\<rparr>) (put_all io cs (con k))"

text \<open>
  Creating an entry, with the message of \<^verbatim>\<open>fat16_vfs_create\<close> when a new directory gets no cluster. The file system is modelled
  below the console, so the message is put in here.
\<close>

definition kcreate :: "'s ports \<Rightarrow> u32 \<Rightarrow> bytes \<Rightarrow> u32 \<Rightarrow> 's kernel \<Rightarrow> (u32 \<times> 's kernel) option" where
  "kcreate io dir name kind k = do {
     (node, k') \<leftarrow> on_files (vfs_create dir name kind) k;
     k' \<leftarrow> (if is_kind VFS_DIR dir k \<and> has_dir_ops (vn_ops (nodes (files k) dir)) \<and> mounted (vol (files k))
              \<and> kind AND VFS_DIR \<noteq> 0 \<and> fst (fat_alloc_cluster (vol (files k))) = 0
           then kprintf io (str ''[FAT16] Disk full'' @ [0x0A]) [] k' else Some k');
     Some (node, k') }"

definition resolve_arg :: "bytes \<Rightarrow> 's kernel \<Rightarrow> bytes" where
  "resolve_arg arg k = path_resolve (current_path k) arg (replicate 256 0) 256"

definition split_path :: "bytes \<Rightarrow> bytes \<times> bytes" where
  "split_path resolved = path_parent_and_name resolved (replicate 256 0) 256 (replicate 128 0) 128"

section \<open>The commands\<close>

definition cmd_help :: "'s ports \<Rightarrow> bytes \<Rightarrow> 's kernel \<Rightarrow> 's kernel option" where
  "cmd_help io arg k = kprintf io (str ''YOTOS ---===--- YOTAM'' @ 0x27 # str ''S OS'' @ 0x0A # str ''commands:'' @ 0x0A
      # str ''help, clear, mem, ls, cat, cd, touch, mkdir, echo, exec'' @ 0x0A # str ''      ---===---'' @ [0x0A]) [] k"

definition cmd_clear :: "'s ports \<Rightarrow> bytes \<Rightarrow> 's kernel \<Rightarrow> 's kernel option" where
  "cmd_clear io arg k = Some (on_vga terminal_initialize k)"

definition cmd_mem :: "'s ports \<Rightarrow> bytes \<Rightarrow> 's kernel \<Rightarrow> 's kernel option" where
  "cmd_mem io arg k = do {
     k \<leftarrow> kprintf io (str ''free:  %d frames'' @ [0x0A]) [Va_int (pmmngr_get_free_block_count (vpmm (vmem k)))] k;
     k \<leftarrow> kprintf io (str ''used:  %d frames'' @ [0x0A]) [Va_int (pmmngr_get_used_blocks (vpmm (vmem k)))] k;
     kprintf io (str ''total: %d frames'' @ [0x0A]) [Va_int (pmmngr_get_max_blocks (vpmm (vmem k)))] k }"

partial_function (option) ls_entries :: "'s ports \<Rightarrow> u32 \<Rightarrow> u32 \<Rightarrow> 's kernel \<Rightarrow> 's kernel option" where
  "ls_entries io dir i k = do {
     (e, k) \<leftarrow> on_files (vfs_readdir dir i) k;
     (case e of
        None \<Rightarrow> Some k
      | Some d \<Rightarrow> do {
          k \<leftarrow> kprintf io (if vd_flags d AND VFS_DIR \<noteq> 0 then str ''[DIR]  %s'' @ [0x0A] else str ''[FILE] %s'' @ [0x0A]) [Va_str (vd_name d)] k;
          ls_entries io dir (i + 1) k }) }"

definition cmd_ls :: "'s ports \<Rightarrow> bytes \<Rightarrow> 's kernel \<Rightarrow> 's kernel option" where
  "cmd_ls io arg k = do {
     let path = resolve_arg arg k;
     (dir, k) \<leftarrow> kopen path k;
     if dir = 0 then kprintf io (str ''ls: %s: not found'' @ [0x0A]) [Va_str path] k
     else if \<not> is_kind VFS_DIR dir k
     then do { k \<leftarrow> kprintf io (str ''ls: %s: not a directory'' @ [0x0A]) [Va_str path] k; Some (kclose dir k) }
     else do { k \<leftarrow> ls_entries io dir 0 k; Some (kclose dir k) } }"

partial_function (option) cat_loop :: "'s ports \<Rightarrow> u32 \<Rightarrow> u32 \<Rightarrow> 's kernel \<Rightarrow> 's kernel option" where
  "cat_loop io file offset k = do {
     (n, buf, k) \<leftarrow> kread file offset 512 k;
     if n > 0
     then do { k \<leftarrow> kputs io (take (nat n) buf) k; cat_loop io file (offset + of_int n) k }
     else Some k }"

definition cmd_cat :: "'s ports \<Rightarrow> bytes \<Rightarrow> 's kernel \<Rightarrow> 's kernel option" where
  "cmd_cat io arg k =
     (if cget arg 0 = 0 then kprintf io (str ''cat: missing filename'' @ [0x0A]) [] k
      else do {
        let path = resolve_arg arg k;
        (file, k) \<leftarrow> kopen path k;
        if file = 0 then kprintf io (str ''cat: %s: not found'' @ [0x0A]) [Va_str path] k
        else if \<not> is_kind VFS_FILE file k
        then do { k \<leftarrow> kprintf io (str ''cat: %s: is a directory'' @ [0x0A]) [Va_str path] k; Some (kclose file k) }
        else do {
          k \<leftarrow> cat_loop io file 0 k;
          k \<leftarrow> kprintf io [0x0A] [] k;
          Some (kclose file k) } })"

definition cmd_cd :: "'s ports \<Rightarrow> bytes \<Rightarrow> 's kernel \<Rightarrow> 's kernel option" where
  "cmd_cd io arg k =
     (if cget arg 0 = 0 \<or> strcmp arg (str ''/'') = 0
      then Some (k\<lparr>current_path := fst (strlcpy (current_path k) (str ''/'') 256)\<rparr>)
      else if strcmp arg (str ''..'') = 0
      then (if cget (current_path k) 0 = 0x2F \<and> cget (current_path k) 1 = 0 then Some k
            else let i = last_slash (current_path k) 0 0
                 in Some (k\<lparr>current_path := (current_path k)[(if i = 0 then 1 else i) := 0]\<rparr>))
      else do {
        let resolved = resolve_arg arg k;
        (node, k) \<leftarrow> kopen resolved k;
        if node = 0 then kprintf io (str ''cd: %s: not found'' @ [0x0A]) [Va_str resolved] k
        else if \<not> is_kind VFS_DIR node k
        then do { k \<leftarrow> kprintf io (str ''cd: %s: not a directory'' @ [0x0A]) [Va_str resolved] k; Some (kclose node k) }
        else (let k = kclose node k
              in Some (k\<lparr>current_path := fst (strlcpy (current_path k) resolved 256)\<rparr>)) })"

text \<open>The two commands that make an entry have the same body; \<open>cmd\<close> is the name they go by.\<close>

definition make_entry :: "'s ports \<Rightarrow> bytes \<Rightarrow> bytes \<Rightarrow> u32 \<Rightarrow> bytes \<Rightarrow> 's kernel \<Rightarrow> 's kernel option" where
  "make_entry io cmd missing kind arg k =
     (if cget arg 0 = 0 then kprintf io (cmd @ missing @ [0x0A]) [] k
      else do {
        let (parent, name) = split_path (resolve_arg arg k);
        if cget name 0 = 0 then kprintf io (cmd @ str '': invalid path'' @ [0x0A]) [] k
        else do {
          (dir, k) \<leftarrow> kopen parent k;
          if dir = 0 then kprintf io (cmd @ str '': %s: not found'' @ [0x0A]) [Va_str parent] k
          else if \<not> is_kind VFS_DIR dir k
          then do { k \<leftarrow> kprintf io (cmd @ str '': %s: not a directory'' @ [0x0A]) [Va_str parent] k; Some (kclose dir k) }
          else do {
            (node, k) \<leftarrow> kcreate io dir name kind k;
            k \<leftarrow> (if node = 0 then kprintf io (cmd @ str '': failed to create %s'' @ [0x0A]) [Va_str name] k
                  else Some (kclose node k));
            Some (kclose dir k) } } })"

definition cmd_touch :: "'s ports \<Rightarrow> bytes \<Rightarrow> 's kernel \<Rightarrow> 's kernel option" where
  "cmd_touch io = make_entry io (str ''touch'') (str '': missing filename'') VFS_FILE"

definition cmd_mkdir :: "'s ports \<Rightarrow> bytes \<Rightarrow> 's kernel \<Rightarrow> 's kernel option" where
  "cmd_mkdir io = make_entry io (str ''mkdir'') (str '': missing name'') VFS_DIR"

definition strip_spaces :: "bytes \<Rightarrow> bytes" where
  "strip_spaces s = rev (dropWhile (\<lambda>c. c = 0x20) (rev s))"

definition skip_spaces :: "bytes \<Rightarrow> bytes" where
  "skip_spaces s = dropWhile (\<lambda>c. c = 0x20) s"

text \<open>Opening the file of a redirection, or creating it; 0 after a message.\<close>

definition echo_open :: "'s ports \<Rightarrow> bytes \<Rightarrow> 's kernel \<Rightarrow> (u32 \<times> 's kernel) option" where
  "echo_open io filename k = do {
     let resolved = resolve_arg filename k;
     (file, k) \<leftarrow> kopen resolved k;
     if file \<noteq> 0 then Some (file, k)
     else do {
       let (parent, name) = split_path resolved;
       (dir, k) \<leftarrow> kopen parent k;
       if dir = 0 then do { k \<leftarrow> kprintf io (str ''echo: %s: not found'' @ [0x0A]) [Va_str parent] k; Some (0, k) }
       else do {
         (file, k) \<leftarrow> kcreate io dir name VFS_FILE k;
         let k = kclose dir k;
         if file = 0 then do { k \<leftarrow> kprintf io (str ''echo: failed to create %s'' @ [0x0A]) [Va_str filename] k; Some (0, k) }
         else Some (file, k) } } }"

definition cmd_echo :: "'s ports \<Rightarrow> bytes \<Rightarrow> 's kernel \<Rightarrow> 's kernel option" where
  "cmd_echo io arg k =
     (let line = cstr arg; before = takeWhile (\<lambda>c. c \<noteq> 0x3E) line in
      if line = [] then kprintf io [0x0A] [] k
      else if before = line then kprintf io (str ''%s'' @ [0x0A]) [Va_str line] k
      else do {
        let filename = skip_spaces (drop (length before + 1) line);
        let content = strip_spaces before;
        if filename = [] then kprintf io (str ''echo: missing filename after >'' @ [0x0A]) [] k
        else do {
          (file, k) \<leftarrow> echo_open io filename k;
          if file = 0 then Some k
          else if \<not> is_kind VFS_FILE file k
          then do { k \<leftarrow> kprintf io (str ''echo: %s: is a directory'' @ [0x0A]) [Va_str filename] k; Some (kclose file k) }
          else do {
            let len = of_nat (length content);
            (_, k) \<leftarrow> on_files (vfs_write file 0 len content) k;
            (_, k) \<leftarrow> on_files (vfs_write file len 1 [0x0A]) k;
            Some (kclose file k) } } })"

text \<open>\<open>user\<close> is what the process does in user mode, until it has ended.\<close>

definition cmd_exec :: "'s ports \<Rightarrow> (u32 \<Rightarrow> u32 \<Rightarrow> 's kernel \<Rightarrow> 's kernel option) \<Rightarrow> bytes \<Rightarrow> 's kernel \<Rightarrow> 's kernel option" where
  "cmd_exec io user arg k =
     (if cget arg 0 = 0 then kprintf io (str ''exec: missing filename'' @ [0x0A]) [] k
      else do {
        let path = resolve_arg arg k;
        (file, k) \<leftarrow> kopen path k;
        if file = 0 then kprintf io (str ''exec: %s: not found'' @ [0x0A]) [Va_str path] k
        else if \<not> is_kind VFS_FILE file k
        then do { k \<leftarrow> kprintf io (str ''exec: %s: not a file'' @ [0x0A]) [Va_str path] k; Some (kclose file k) }
        else do {
          (proc, k) \<leftarrow> process_create io file k;
          let k = kclose file k;
          if proc = 0 then kprintf io (str ''exec: failed to load %s'' @ [0x0A]) [Va_str path] k
          else do {
            let k = k\<lparr>kbd := keyboard_flush (kbd k)\<rparr>;
            k \<leftarrow> process_run user proc k;
            k \<leftarrow> kprintf io (str ''[exec] returned'' @ [0x0A]) [] k;
            let k = on_vga terminal_initialize k;
            k \<leftarrow> kprintf io (str ''[exec] exited with code %d'' @ [0x0A]) [Va_int (exit_code (procs k proc))] k;
            process_free proc k } } })"

end
