(* ===== verification/Vfs_Correct.thy ===== *)
theory Vfs_Correct
  imports Vfs Fat16_Correct
begin

text \<open>
  What the virtual file system promises: path resolution agrees with the directory tree on the volume and
  gives back every node it took on the way.
\<close>

section \<open>Properties\<close>

text \<open>
  C13. Opening a path returns on every well-formed volume. The node returned is the one the components of
  the path lead to, directory by directory from the root; and when the heap has room for two nodes at the start, 0 is returned only if
  they lead nowhere, however many directories are on the way. The volume and the nodes in use before are untouched; and no node is
  lost: when 0 is returned, or after the returned node is closed, exactly the pointers in use before
  are in use.
\<close>

theorem vfs_open_resolves:
  assumes "tree (vol s) D" "owned (heap s) ps"
    and "vfs_get_root ms \<noteq> 0" "vfs_get_root ms \<le> heap_start_ptr (heap s)" "nodes s (vfs_get_root ms) = fat16_root_node"
  shows "\<exists>q s'. vfs_open name ms s = Some (q, s') \<and> vol s' = vol s \<and> (\<forall>x \<in> ps. nodes s' x = nodes s x)
    \<and> (q = 0 \<longrightarrow> owned (heap s') ps)
    \<and> (q \<noteq> 0 \<longrightarrow> owned (heap (vfs_close q s')) ps
         \<and> resolve (vol s) fat16_root_node (components (skip_slash (cstr name))) = Some (nodes s' q))
    \<and> (mallocs_left sizeof_vfs_node 2 (heap s) \<longrightarrow>
         (q \<noteq> 0 \<longleftrightarrow> resolve (vol s) fat16_root_node (components (skip_slash (cstr name))) \<noteq> None))"
proof -
  define root where "root = vfs_get_root ms"
  have r: "root \<noteq> 0" "root \<le> heap_start_ptr (heap s)" "nodes s root = fat16_root_node" using assms(3-5) by (simp_all add: root_def)
  have n: "node_in D (nodes s root)" using assms(1) r(3)
    by (simp add: node_in_def kind_ok_def fat16_root_node_def tree_def)
  define p where "p = skip_slash (cstr name)"
  obtain q s' where w: "walk root root p s = Some (q, s')" "vol s' = vol s" "\<forall>x \<in> insert root ps. nodes s' x = nodes s x"
    "q = 0 \<longrightarrow> owned (heap s') ps"
    "q \<noteq> 0 \<longrightarrow> standing root q s' ps \<and> resolve (vol s) (nodes s root) (components p) = Some (nodes s' q)"
    "supplied root root s \<longrightarrow> q = 0 \<longrightarrow> resolve (vol s) (nodes s root) (components p) = None"
    using walk_spec [OF assms(1) n _ r(2,1), of ps p] assms(2) by (auto simp: standing_def)
  have o: "vfs_open name ms s = Some (q, s')"
    using w(1) r(1) by (cases "p = []") (simp_all add: vfs_open_def root_def [symmetric] p_def [symmetric] walk.simps [of _ _ "[]"])
  have c: "owned (heap (vfs_close q s')) ps" if "q \<noteq> 0"
  proof (cases "q = root")
    case True
    then show ?thesis using w(3,5) r(3) that by (simp add: standing_def vfs_close_def fat16_root_node_def)
  next
    case False
    then have "owned (heap s') (insert q ps)" "q \<notin> ps" "has_close (vn_ops (nodes s' q))"
      using w(5) that by (auto simp: standing_def)
    then show ?thesis using ka.free_own [of "heap s'" "insert q ps" q] that
      by (simp add: vfs_close_def fat16_vfs_close_def fs_kfree_def)
  qed
  show ?thesis using o w c r(3) by (auto simp: p_def supplied_def)
qed

definition demo_entry_a :: fat16_direntry where
  "demo_entry_a = \<lparr>de_name = str ''A       '', de_ext = str ''TXT'', de_attributes = FAT16_ATTR_ARCHIVE,
     de_first_cluster = 0, de_file_size = 0\<rparr>"

definition demo_tree :: fat where
  "demo_tree = write_sector 3 (put_direntry 0 demo_entry_a (\<lambda>_. 0)) demo_one"

text \<open>A directory sector of one entry, in the root directory and elsewhere.\<close>

lemma one_entry_live:
  assumes "read_sector lba st = put_direntry 0 e (\<lambda>_. 0)"
    and "direntry_at (put_direntry 0 e (\<lambda>_. 0)) 0 = e" "skip_entry e = 0" "visible e"
  shows "live (slots st [lba]) = [(lba, 0, e)]"
proof -
  have "direntry_at (put_direntry 0 e (\<lambda>_. 0)) 1 = direntry_at (\<lambda>_. 0) 1"
    by (rule direntry_put_other) simp
  moreover obtain rest where "[0..<16] = 0 # 1 # rest" by (simp add: upt_conv_Cons)
  moreover have "skip_entry (direntry_at (\<lambda>_. 0) 1) = 2"
    by (simp add: skip_entry_def direntry_first)
  ultimately show ?thesis
    using assms by (simp add: slots_def sector_slots_def live_Cons)
qed

lemma one_entry_root:
  assumes "st = write_sector 3 (put_direntry 0 e (\<lambda>_. 0)) demo_one"
    and "direntry_at (put_direntry 0 e (\<lambda>_. 0)) 0 = e" "skip_entry e = 0" "visible e"
  shows "layout st" "bpb st = demo_bpb" "directory st 0 [3]" "live (slots st [3]) = [(3, 0, e)]"
proof -
  have l: "lba28 3 = 3" by (simp add: lba28_def)
  show "layout st" "bpb st = demo_bpb"
    using demo_one_facts(1,5) by (simp_all add: assms(1) write_sector_layout frame_simps)
  show "directory st 0 [3]"
    unfolding assms(1) by (rule directory_write [OF demo_one_facts(1) demo_root]) (simp add: l demo_one_facts)
  show "live (slots st [3]) = [(3, 0, e)]"
    by (rule one_entry_live) (simp_all add: assms(2-4), simp add: assms(1) read_sector_def write_sector_def)
qed

lemma demo_entry_a_at: "direntry_at (put_direntry 0 demo_entry_a (\<lambda>_. 0)) 0 = demo_entry_a" "skip_entry demo_entry_a = 0" "visible demo_entry_a"
proof -
  show "direntry_at (put_direntry 0 demo_entry_a (\<lambda>_. 0)) 0 = demo_entry_a"
    by (rule direntry_put_same) (simp_all add: demo_entry_a_def str_def)
  show "skip_entry demo_entry_a = 0" "visible demo_entry_a"
    by (simp_all add: skip_entry_def visible_def)
      (simp_all add: demo_entry_a_def str_def FAT16_ATTR_ARCHIVE_def FAT16_ATTR_LFN_def FAT16_ATTR_VOLUME_ID_def skip_entry_def)
qed

lemma demo_tree_root: "layout demo_tree" "bpb demo_tree = demo_bpb" "directory demo_tree 0 [3]"
    "live (slots demo_tree [3]) = [(3, 0, demo_entry_a)]"
  using one_entry_root [OF demo_tree_def demo_entry_a_at] by simp_all

lemma demo_tree_ok: "tree demo_tree {0}"
  using demo_tree_root by (auto simp: tree_def demo_entry_a_def FAT16_ATTR_ARCHIVE_def FAT16_ATTR_DIRECTORY_def)

definition demo_mounts :: mounts where
  "demo_mounts = vfs_mount (str ''/'') 0x100000 []"

lemma demo_mounts_root: "vfs_get_root demo_mounts = 0x100000"
  by (simp add: demo_mounts_def vfs_mount_def VFS_MAX_MOUNTS_def cstr_def cget_def str_def)

lemma trimmed_step: "0 < n \<Longrightarrow> trimmed f n = (if f ! (n - 1) = 0x20 then trimmed f (n - 1) else n)"
  by (cases n) auto

text \<open>A volume whose root holds the directory \<open>D\<close>, empty or with the file \<open>A.TXT\<close>.\<close>

definition demo_entry_d :: fat16_direntry where
  "demo_entry_d = \<lparr>de_name = str ''D       '', de_ext = str ''   '', de_attributes = FAT16_ATTR_DIRECTORY,
     de_first_cluster = 2, de_file_size = 0\<rparr>"

definition demo_dirs :: fat where
  "demo_dirs = write_sector 3 (put_direntry 0 demo_entry_d (\<lambda>_. 0)) demo_one"

lemma demo_dirs_facts:
  "layout demo_dirs" "bpb demo_dirs = demo_bpb" "directory demo_dirs 0 [3]" "live (slots demo_dirs [3]) = [(3, 0, demo_entry_d)]"
  "format_83 demo_entry_d = str ''D''"
proof -
  have "direntry_at (put_direntry 0 demo_entry_d (\<lambda>_. 0)) 0 = demo_entry_d"
    by (rule direntry_put_same) (simp_all add: demo_entry_d_def str_def)
  moreover have "skip_entry demo_entry_d = 0" "visible demo_entry_d"
    by (simp_all add: skip_entry_def visible_def)
      (simp_all add: demo_entry_d_def str_def FAT16_ATTR_DIRECTORY_def FAT16_ATTR_LFN_def FAT16_ATTR_VOLUME_ID_def skip_entry_def)
  ultimately show "layout demo_dirs" "bpb demo_dirs = demo_bpb" "directory demo_dirs 0 [3]"
      "live (slots demo_dirs [3]) = [(3, 0, demo_entry_d)]"
    using one_entry_root [OF demo_dirs_def] by simp_all
  show "format_83 demo_entry_d = str ''D''" by (simp add: format_83_def demo_entry_d_def trimmed_step str_def)
qed

definition demo_deep :: fat where
  "demo_deep = write_sector 4 (put_direntry 0 demo_entry_a (\<lambda>_. 0)) demo_dirs"

lemma demo_deep_dirs: "layout demo_deep" "bpb demo_deep = demo_bpb" "directory demo_deep 0 [3]" "directory demo_deep 2 [4]"
    "live (slots demo_deep [3]) = [(3, 0, demo_entry_d)]" "live (slots demo_deep [4]) = [(4, 0, demo_entry_a)]"
proof -
  note s = demo_dirs_facts
  have l: "lba28 3 = 3" "lba28 4 = 4" by (simp_all add: lba28_def)
  show "layout demo_deep" "bpb demo_deep = demo_bpb" using s(1,2) by (simp_all add: demo_deep_def write_sector_layout frame_simps)
  have r: "root_dir_lba demo_dirs = 3" by (simp add: demo_dirs_def frame_simps demo_one_facts)
  show "directory demo_deep 0 [3]" unfolding demo_deep_def by (rule directory_write [OF s(1,3)]) (simp add: l r)
  have "cluster_sectors demo_one 2 = [4]" by (simp add: cluster_sectors_def cluster_lba_def demo_one_facts)
  then have "directory demo_one 2 [4]"
    using demo_one_facts(6) by (auto simp: directory_def file_chain_def intro!: exI [of _ "[2]"])
  then have "directory demo_dirs 2 [4]"
    unfolding demo_dirs_def by (rule directory_write [OF demo_one_facts(1)]) (simp add: l demo_one_facts)
  then show "directory demo_deep 2 [4]" unfolding demo_deep_def by (rule directory_write [OF s(1)]) (simp add: l r)
  have "read_sector 3 demo_deep = read_sector 3 demo_dirs" by (simp add: demo_deep_def read_sector_def write_sector_def l)
  then show "live (slots demo_deep [3]) = [(3, 0, demo_entry_d)]" using s(4) by (simp add: slots_def sector_slots_def)
  show "live (slots demo_deep [4]) = [(4, 0, demo_entry_a)]"
    by (rule one_entry_live) (simp_all add: demo_entry_a_at, simp add: demo_deep_def read_sector_def write_sector_def)
qed

lemma demo_deep_tree: "tree demo_deep {0, 2}"
  using demo_deep_dirs
  by (auto simp: tree_def demo_entry_a_def demo_entry_d_def FAT16_ATTR_ARCHIVE_def FAT16_ATTR_DIRECTORY_def)

lemma demo_deep_names: "name_match demo_entry_d (str ''d'')" "name_match demo_entry_a (str ''a.txt'')"
proof -
  have "format_83 demo_entry_d = str ''D''" by (rule demo_dirs_facts)
  moreover have "format_83 demo_entry_a = str ''A.TXT''"
    by (simp add: format_83_def demo_entry_a_def trimmed_step str_def)
  ultimately show "name_match demo_entry_d (str ''d'')" "name_match demo_entry_a (str ''a.txt'')"
    by (simp_all add: name_match_def) (simp_all add: str_def strcasecmp_list fold_case_def schar_def)
qed

lemma demo_deep_resolve: "resolve demo_deep fat16_root_node [str ''d'', str ''a.txt''] = Some (node_of 4 0 demo_entry_a)"
proof -
  note d = demo_deep_dirs
  have "0 < spc demo_deep" by (simp add: d(2))
  then have "dir_sectors demo_deep 0 [3]" "dir_sectors demo_deep 2 [4]"
    using directory_sectors(1) [OF d(1)] d(3,4) by blast+
  from this [THEN find_slots] have "find_from 0 (str ''d'') 0 demo_deep = Some (Some (3, 0, demo_entry_d))"
    "find_from 2 (str ''a.txt'') 0 demo_deep = Some (Some (4, 0, demo_entry_a))"
    by (simp_all add: d demo_deep_names)
  then show ?thesis
    by (simp add: fat16_root_node_def node_of_def demo_entry_d_def FAT16_ATTR_DIRECTORY_def)
qed

definition demo_vfs :: fs where
  "demo_vfs = \<lparr>vol = demo_deep, heap = kheap_demo, nodes = (\<lambda>_. fat16_root_node),
     fat16_dirent_buf = \<lparr>vd_name = [], vd_inode = 0, vd_flags = 0\<rparr>\<rparr>"

lemma vfs_open_resolves_witness:
  "\<exists>q s'. vfs_open (str ''/d/a.txt'') demo_mounts demo_vfs = Some (q, s') \<and> q \<noteq> 0
    \<and> nodes s' q = node_of 4 0 demo_entry_a \<and> owned (heap (vfs_close q s')) {}"
proof -
  have "owned (heap demo_vfs) {}" using heap_has_owned [OF demo_heap] by (simp add: demo_vfs_def)
  moreover have "tree (vol demo_vfs) {0, 2}" using demo_deep_tree by (simp add: demo_vfs_def)
  moreover have "vfs_get_root demo_mounts \<le> heap_start_ptr (heap demo_vfs)"
    by (simp add: demo_mounts_root demo_vfs_def kheap_demo_def)
  moreover have "nodes demo_vfs (vfs_get_root demo_mounts) = fat16_root_node" by (simp add: demo_vfs_def)
  moreover have "mallocs_left sizeof_vfs_node 2 (heap demo_vfs)"
    using mallocs_left_two [OF demo_heap] by (simp add: demo_vfs_def sizeof_vfs_node_def)
  moreover have "vfs_get_root demo_mounts \<noteq> 0" by (simp add: demo_mounts_root)
  moreover have "components (skip_slash (cstr (str ''/d/a.txt''))) = [str ''d'', str ''a.txt'']"
    using components_join [of "[str ''d'', str ''a.txt'']"] by (simp add: skip_slash_def str_def cstr_def)
  moreover have "resolve (vol demo_vfs) fat16_root_node [str ''d'', str ''a.txt''] = Some (node_of 4 0 demo_entry_a)"
    using demo_deep_resolve by (simp add: demo_vfs_def)
  ultimately show ?thesis
    using vfs_open_resolves [of demo_vfs "{0, 2}" "{}" demo_mounts "str ''/d/a.txt''"] by (metis option.inject option.simps(3))
qed

lemma join_path_set: "set (join_path cs) \<subseteq> insert 0x2F (\<Union> (set ` set cs))"
  by (induction cs rule: join_path.induct) auto

lemma join_path_skip: "\<forall>c \<in> set cs. c \<noteq> [] \<and> 0x2F \<notin> set c \<Longrightarrow> skip_slash (join_path cs) = join_path cs"
  by (induction cs rule: join_path.induct) (auto simp: skip_slash_def neq_Nil_conv)

text \<open>
  For names of at most 127 characters the walk takes a path apart into exactly the names it was joined
  from, with and without a leading slash.
\<close>

theorem path_components_roundtrip:
  assumes "\<forall>c \<in> set cs. c \<noteq> [] \<and> 0 \<notin> set c \<and> 0x2F \<notin> set c \<and> length c \<le> 127"
  shows "components (skip_slash (cstr (0x2F # join_path cs))) = cs \<and> components (skip_slash (cstr (join_path cs))) = cs"
proof -
  have "0 \<notin> set (join_path cs)" using assms join_path_set [of cs] by auto
  then have "cstr (0x2F # join_path cs) = 0x2F # join_path cs" "cstr (join_path cs) = join_path cs" by (simp_all add: cstr_id)
  moreover have "skip_slash (0x2F # join_path cs) = join_path cs" by (simp add: skip_slash_def)
  moreover have "skip_slash (join_path cs) = join_path cs" using assms by (intro join_path_skip) auto
  ultimately show ?thesis using components_join [of cs] assms by simp
qed

lemma path_components_roundtrip_witness:
  "components (skip_slash (cstr (str ''/boot/hello.elf''))) = [str ''boot'', str ''hello.elf'']"
  using path_components_roundtrip [of "[str ''boot'', str ''hello.elf'']"] by (simp add: str_def)

text \<open>
  Mounting never overruns the table of eight entries, a full table is left as it is, and the first file
  system mounted at the root stays the root whatever is mounted later.
\<close>

theorem vfs_mount_table:
  assumes "length ms \<le> VFS_MAX_MOUNTS"
  shows "length (vfs_mount path root ms) \<le> VFS_MAX_MOUNTS
    \<and> (length ms = VFS_MAX_MOUNTS \<longrightarrow> vfs_mount path root ms = ms)
    \<and> (vfs_get_root ms \<noteq> 0 \<longrightarrow> vfs_get_root (vfs_mount path root ms) = vfs_get_root ms)
    \<and> (length ms < VFS_MAX_MOUNTS \<longrightarrow> vfs_get_root ms = 0 \<longrightarrow> root \<noteq> 0 \<longrightarrow> (\<forall>(p, r) \<in> set ms. r \<noteq> 0) \<longrightarrow>
         vfs_get_root (vfs_mount (str ''/'') root ms) = root)"
proof -
  have a: "vfs_get_root ms \<noteq> 0 \<Longrightarrow> vfs_get_root (ms @ [x]) = vfs_get_root ms" for x
    by (induction ms rule: vfs_get_root.induct) (auto split: if_splits)
  have b: "vfs_get_root (ms @ [x]) = vfs_get_root [x]" if "vfs_get_root ms = 0" "\<forall>(p, r) \<in> set ms. r \<noteq> 0" for x
    using that by (induction ms rule: vfs_get_root.induct) (auto split: if_splits)
  have c: "vfs_get_root [(take 127 (cstr (str ''/'')), root)] = root" by (simp add: cstr_def cget_def str_def)
  show ?thesis
  proof (intro conjI impI)
    assume "length ms < VFS_MAX_MOUNTS" "vfs_get_root ms = 0" "root \<noteq> 0" "\<forall>(p, r) \<in> set ms. r \<noteq> 0"
    then show "vfs_get_root (vfs_mount (str ''/'') root ms) = root" using b c by (simp add: vfs_mount_def)
  qed (use assms a in \<open>auto simp: vfs_mount_def\<close>)
qed

lemma vfs_mount_table_witness:
  "vfs_get_root (vfs_mount (str ''/tmp'') 0x200000 demo_mounts) = 0x100000"
proof -
  have "length demo_mounts \<le> VFS_MAX_MOUNTS" by (simp add: demo_mounts_def vfs_mount_def VFS_MAX_MOUNTS_def)
  from vfs_mount_table [OF this] show ?thesis by (simp add: demo_mounts_root)
qed

end
