(* ===== verification/Builtins_Correct.thy ===== *)
theory Builtins_Correct
  imports Builtins Vfs_Correct
begin

text \<open>
  What the commands do: where the current directory can go, what \<^verbatim>\<open>cat\<close> shows, and the life of a program under \<^verbatim>\<open>exec\<close>.
\<close>

section \<open>The current directory\<close>

text \<open>The array of 256 bytes holds an absolute path.\<close>

definition path_ok :: "bytes \<Rightarrow> bool" where
  "path_ok p \<longleftrightarrow> length p = 256 \<and> length (cstr p) < 256 \<and> (\<exists>q. cstr p = 0x2F # q)"

lemma last_slash_bound: "l \<le> i \<Longrightarrow> last_slash s i l \<le> i + length (cstr s)"
proof (induction s arbitrary: i l)
  case (Cons c s)
  then show ?case by (auto simp: cstr_def intro: order_trans [OF Cons.IH])
qed (simp add: cstr_def)

lemma cstr_cut:
  assumes "i < length p" "i \<le> length (cstr p)"
  shows "cstr (p[i := 0]) = take i (cstr p)"
proof -
  have "p[i := 0] = take i p @ 0 # drop (Suc i) p" using assms(1) by (simp add: upd_conv_take_nth_drop)
  moreover have "take i p = take i (cstr p)" by (rule cstr_take_drop [OF assms(2)])
  moreover have "0 \<notin> set (take i (cstr p))" using cstr_no_zero [of p] by (meson in_set_takeD)
  ultimately show ?thesis by (simp add: cstr_append_zero)
qed

lemma path_copied:
  assumes "length p = 256"
  shows "cstr (fst (strlcpy p q 256)) = take 255 (cstr q)" "length (fst (strlcpy p q 256)) = 256"
  using assms by (simp_all add: strlcpy_cstr strlcpy_length)

lemma resolved_ok: "path_ok (current_path k) \<Longrightarrow> path_ok (resolve_arg arg k)"
proof -
  assume ok: "path_ok (current_path k)"
  then have "cstr (current_path k) \<noteq> []" by (auto simp: path_ok_def)
  from path_resolve_string [OF _ _ this, of 256 "replicate 256 0" arg]
  have r: "cstr (resolve_arg arg k) = take 255 (abs_path (cstr (current_path k)) (cstr arg))" "length (resolve_arg arg k) = 256"
    by (simp_all add: resolve_arg_def)
  moreover have "\<exists>q. abs_path (cstr (current_path k)) (cstr arg) = 0x2F # q"
    using ok by (cases "cstr arg") (auto simp: path_ok_def abs_path_def)
  ultimately show ?thesis by (auto simp: path_ok_def)
qed

lemma path_copied_ok: "length p = 256 \<Longrightarrow> path_ok q \<Longrightarrow> path_ok (fst (strlcpy p q 256))"
  using path_copied [of p q] by (auto simp: path_ok_def)

lemma kernel_parts [simp]: "current_path (kclose n k) = current_path k" "con (kclose n k) = con k" "vmem (kclose n k) = vmem k"
  "current_path (on_vga f k) = current_path k" "files (on_vga f k) = files k"
  by (simp_all add: kclose_def on_vga_def)

lemma kprintf_path: "kprintf io fmt args k = Some k' \<Longrightarrow> current_path k' = current_path k"
  by (auto simp: kprintf_def)

lemma on_files_path: "on_files f k = Some (r, k') \<Longrightarrow> current_path k' = current_path k"
  by (auto simp: on_files_def)

lemma kopen_parts: "kopen path k = Some (r, k') \<Longrightarrow> \<exists>s. k' = k\<lparr>files := s\<rparr>"
  by (auto simp: kopen_def on_files_def)

lemma cmd_cd_path:
  assumes "path_ok (current_path k)" "cmd_cd io arg k = Some k'"
  shows "path_ok (current_path k')"
proof -
  have len: "length (current_path k) = 256" using assms(1) by (simp add: path_ok_def)
  consider (root) "current_path k' = fst (strlcpy (current_path k) (str ''/'') 256)"
    | (same) "current_path k' = current_path k"
    | (up) i where "current_path k' = (current_path k)[(if i = 0 then 1 else i) := 0]" "i = last_slash (current_path k) 0 0"
    | (down) "current_path k' = fst (strlcpy (current_path k) (resolve_arg arg k) 256)"
    using assms(2) by (auto simp: cmd_cd_def Let_def split: if_splits bind_splits dest!: kprintf_path kopen_parts)
  then show ?thesis
  proof cases
    case root
    have "cstr (str ''/'') = [0x2F]" by (simp add: str_def cstr_def)
    then show ?thesis using root path_copied [OF len, of "str ''/''"] by (simp add: path_ok_def)
  next
    case (up i)
    define j where "j = (if i = 0 then 1 else i)"
    have "i \<le> length (cstr (current_path k))" using last_slash_bound [of 0 0 "current_path k"] up(2) by simp
    moreover have "0 < length (cstr (current_path k))" using assms(1) by (auto simp: path_ok_def)
    ultimately have j: "j \<le> length (cstr (current_path k))" "0 < j" by (auto simp: j_def Suc_le_eq)
    moreover have "j < length (current_path k)" using j(1) assms(1) by (simp add: path_ok_def)
    ultimately have "cstr (current_path k') = take j (cstr (current_path k))" using up(1) by (simp add: j_def [symmetric] cstr_cut)
    then show ?thesis using assms(1) j(2) up(1) by (auto simp: path_ok_def take_Cons')
  qed (use assms(1) len path_copied_ok resolved_ok in auto)
qed

text \<open>Going down by a name and up again.\<close>

lemma last_slash_string:
  assumes "cstr p = a @ 0x2F # b" "0x2F \<notin> set b"
  shows "last_slash p 0 0 = length a"
proof -
  have "0 \<notin> set a" "0 \<notin> set b" using cstr_no_zero [of p] assms(1) by auto
  from last_slash_spec [OF this(1) assms(2) this(2), of _ 0 0] show ?thesis
    using assms(1) by (cases p rule: cstr_cases) (metis append_Cons append_assoc add_0)+
qed

lemma cmd_cd_up:
  assumes "path_ok (current_path k)" "cstr (current_path k) = a @ 0x2F # b" "0x2F \<notin> set b" "b \<noteq> []"
  shows "\<exists>p. cmd_cd io (str ''..'') k = Some (k\<lparr>current_path := p\<rparr>) \<and> cstr p = (if a = [] then [0x2F] else a)"
proof -
  define i where "i = (if a = [] then 1 else length a)"
  have l: "last_slash (current_path k) 0 0 = length a" by (rule last_slash_string [OF assms(2,3)])
  have n: "\<not> (cget (current_path k) 0 = 0x2F \<and> cget (current_path k) 1 = 0)"
  proof
    assume z: "cget (current_path k) 0 = 0x2F \<and> cget (current_path k) 1 = 0"
    have "1 < length (cstr (current_path k))" using assms(2,4) by (cases b) auto
    then have "cget (current_path k) 1 \<noteq> 0" by (rule cget_cstr_nonzero)
    then show False using z by blast
  qed
  have c: "strcmp (str ''..'') (str ''/'') \<noteq> 0" "strcmp (str ''..'') (str ''..'') = 0" "cget (str ''..'') 0 \<noteq> 0"
    by (simp_all add: strcmp_eq_0_iff str_def cstr_def)
  have "i < length (current_path k)" "i \<le> length (cstr (current_path k))"
    using assms by (auto simp: i_def path_ok_def)
  then have "cstr ((current_path k)[i := 0]) = (if a = [] then [0x2F] else a)" using assms(2) by (simp add: cstr_cut i_def)
  moreover have "cmd_cd io (str ''..'') k = Some (k\<lparr>current_path := (current_path k)[i := 0]\<rparr>)"
    using c unfolding cmd_cd_def if_not_P [OF n] l by (simp add: i_def)
  ultimately show ?thesis by blast
qed

section \<open>Properties\<close>

text \<open>
  C37. The current directory stays an absolute path in its array of 256 bytes, with its zero, whatever \<^verbatim>\<open>cd\<close> is given and
  whether it finds it or not.
\<close>

theorem cd_keeps_path:
  assumes "path_ok (current_path k)" "cmd_cd io arg k = Some k'"
  shows "path_ok (current_path k')"
  by (rule cmd_cd_path [OF assms])

text \<open>
  Down and up again: from a directory whose path does not end in a slash, or the root, \<^verbatim>\<open>cd\<close> with the name of a directory that is
  found makes the current path the old one with the name behind it, and \<^verbatim>\<open>cd ..\<close> leads back.
\<close>

theorem cd_down_up:
  assumes "path_ok (current_path k)" "cstr (current_path k) = [0x2F] \<or> last (cstr (current_path k)) \<noteq> 0x2F"
    "cstr arg \<noteq> []" "0x2F \<notin> set (cstr arg)" "cstr arg \<noteq> str ''..''" "length (cstr (current_path k)) + 1 + length (cstr arg) < 256"
    "kopen (resolve_arg arg k) k = Some (n, k0)" "n \<noteq> 0" "is_kind VFS_DIR n k0"
  shows "\<exists>k1 k2. cmd_cd io arg k = Some k1 \<and> cstr (current_path k1) = abs_path (cstr (current_path k)) (cstr arg)
    \<and> cmd_cd io (str ''..'') k1 = Some k2 \<and> cstr (current_path k2) = cstr (current_path k)"
proof -
  define cur where "cur = cstr (current_path k)"
  have len: "length (current_path k) = 256" and ne: "cur \<noteq> []" using assms(1) by (auto simp: path_ok_def cur_def)
  obtain s where k0: "k0 = k\<lparr>files := s\<rparr>" using kopen_parts [OF assms(7)] by blast
  have ap: "abs_path cur (cstr arg) = (if cur = [0x2F] then [] else cur) @ 0x2F # cstr arg"
    using assms(2-4) by (cases "cstr arg") (auto simp: abs_path_def cur_def)
  have fits: "length (abs_path cur (cstr arg)) \<le> 255" using assms(6) unfolding ap cur_def [symmetric] by auto
  have "cstr (resolve_arg arg k) = take 255 (abs_path cur (cstr arg))"
    using path_resolve_string [of 256 "replicate 256 0" "current_path k" arg] ne by (simp add: resolve_arg_def cur_def)
  also have "\<dots> = abs_path cur (cstr arg)" using fits by simp
  finally have res: "cstr (resolve_arg arg k) = abs_path cur (cstr arg)" .
  define k1 where "k1 = (kclose n k0)\<lparr>current_path := fst (strlcpy (current_path k) (resolve_arg arg k) 256)\<rparr>"
  have c: "cget arg 0 \<noteq> 0" "strcmp arg (str ''/'') \<noteq> 0" "strcmp arg (str ''..'') \<noteq> 0"
  proof -
    show "cget arg 0 \<noteq> 0" using assms(3) cget_cstr_nonzero [of 0 arg] by simp
    have s: "cstr (str ''/'') = [0x2F]" "cstr (str ''..'') = str ''..''" by (simp_all add: str_def cstr_def)
    have "cstr arg \<noteq> [0x2F]" using assms(4) by auto
    then show "strcmp arg (str ''/'') \<noteq> 0" "strcmp arg (str ''..'') \<noteq> 0" using assms(5) by (simp_all add: strcmp_eq_0_iff s)
  qed
  have cd1: "cmd_cd io arg k = Some k1"
    using c assms(7-9) by (simp add: cmd_cd_def k1_def Let_def kclose_def k0)
  have "path_ok (current_path k1)" by (rule cmd_cd_path [OF assms(1) cd1])
  moreover have p1: "cstr (current_path k1) = abs_path cur (cstr arg)"
    using path_copied(1) [OF len, of "resolve_arg arg k"] fits unfolding res by (simp add: k1_def)
  ultimately obtain p where "cmd_cd io (str ''..'') k1 = Some (k1\<lparr>current_path := p\<rparr>)"
      "cstr p = (if (if cur = [0x2F] then [] else cur) = [] then [0x2F] else (if cur = [0x2F] then [] else cur))"
    using cmd_cd_up [of k1 "if cur = [0x2F] then [] else cur" "cstr arg" io] assms(3,4) by (auto simp: ap)
  then show ?thesis using cd1 p1 ne by (auto simp: cur_def)
qed

text \<open>Showing a file.\<close>

lemma kputs_screen: "\<not> uart_output_mode (con k) \<Longrightarrow> kputs io cs k = Some (on_vga (terminal_write cs) k)"
  by (simp add: kputs_def put_all_screen on_vga_def)

lemma mode_parts [simp]: "uart_output_mode (con (on_vga f k)) = uart_output_mode (con k)"
  by (simp add: on_vga_def)

lemma on_vga_files: "on_vga f (k\<lparr>files := s\<rparr>) = (on_vga f k)\<lparr>files := s\<rparr>"
  by (simp add: on_vga_def)

text \<open>Looking a path up, reading and closing leave the whole volume as it is.\<close>

lemma close_vol: "vol (vfs_close f s) = vol s"
  by (simp add: vfs_close_def fat16_vfs_close_def fs_kfree_def)

lemma finddir_vol: "vfs_finddir n c s = Some (q, s') \<Longrightarrow> vol s' = vol s"
  by (auto simp: vfs_finddir_def fat16_vfs_finddir_def fs_kmalloc_def split: if_splits bind_splits option.splits prod.splits)

lemma walk_vol: "walk root n p s = Some (q, s') \<Longrightarrow> vol s' = vol s"
proof (induction "length p" arbitrary: n p s rule: less_induct)
  case less
  show ?case
  proof (cases "p = []")
    case True
    then show ?thesis using less.prems by (simp add: walk.simps)
  next
    case False
    define r where "r = skip_slash (snd (next_component 127 p))"
    obtain x s1 where f: "vfs_finddir n (fst (next_component 127 p)) s = Some (x, s1)"
      "(let s = (if n \<noteq> root then vfs_close n s1 else s1) in if x = 0 then Some (0, s) else walk root x r s) = Some (q, s')"
      using less.prems False unfolding walk.simps [of root n p s] by (auto simp: r_def [symmetric] Let_def split: bind_splits)
    define s2 where "s2 = (if n \<noteq> root then vfs_close n s1 else s1)"
    have "vol s2 = vol s" using finddir_vol [OF f(1)] by (simp add: s2_def close_vol)
    moreover have "vol s' = vol s2" if "x \<noteq> 0"
      using f(2) that less.hyps [of r x s2] next_component_shorter [OF False] by (simp add: s2_def [symmetric] r_def)
    ultimately show ?thesis using f(2) by (cases "x = 0") (auto simp: s2_def [symmetric])
  qed
qed

lemma open_vol: "kopen path k = Some (f, k') \<Longrightarrow> vol (files k') = vol (files k)"
  by (auto simp: kopen_def on_files_def vfs_open_def Let_def dest: walk_vol split: if_splits)

lemma read_vol: "vfs_read f off n s = Some (r, out, s') \<Longrightarrow> vol s' = vol s"
  by (auto simp: vfs_read_def fat16_vfs_read_def fs_kmalloc_def fs_kfree_def Let_def split: if_splits bind_splits option.splits)

lemma cat_loop_prints:
  assumes "is_file ps (files k) f data" "\<not> uart_output_mode (con k)" "unat off \<le> length data"
  shows "\<exists>s. cat_loop io f off k = Some (on_vga (terminal_write (drop (unat off) data)) (k\<lparr>files := s\<rparr>)) \<and> is_file ps s f data
    \<and> vol s = vol (files k)"
  using assms
proof (induction "length data - unat off" arbitrary: off k rule: less_induct)
  case less
  define out where "out = take 512 (drop (unat off) data)"
  obtain s where s: "vfs_read f off 512 (files k) = Some (int (length out), out, s)" "is_file ps s f data"
    using rf.read_file [OF less.prems(1), of 512 off] by (auto simp: out_def)
  note v = read_vol [OF s(1)]
  from s(1) have r: "kread f off 512 k = Some (int (length out), out, k\<lparr>files := s\<rparr>)" by (simp add: kread_def)
  have l32: "length data < 4294967296" using is_file_length [OF less.prems(1)] .
  show ?case
  proof (cases "out = []")
    case True
    then have "drop (unat off) data = []" by (auto simp: out_def)
    moreover have "cat_loop io f off k = Some (k\<lparr>files := s\<rparr>)" using r True by (subst cat_loop.simps) simp
    ultimately show ?thesis using s(2) v by (intro exI [of _ s]) (simp add: on_vga_def terminal_write_def)
  next
    case False
    define k1 where "k1 = on_vga (terminal_write out) (k\<lparr>files := s\<rparr>)"
    define n where "n = length out"
    have n: "0 < n" "unat off + n \<le> length data" using False less.prems(3) by (auto simp: n_def out_def)
    have u: "unat (off + of_nat n) = unat off + n"
      using n l32 unat_plus_le [of off n] by simp
    have "cat_loop io f off k = cat_loop io f (off + of_nat n) k1"
      using r n(1) less.prems(2) by (subst cat_loop.simps) (simp add: kputs_screen k1_def n_def)
    moreover have "length data - unat (off + of_nat n) < length data - unat off" using u n by linarith
    then obtain s2 where "cat_loop io f (off + of_nat n) k1
        = Some (on_vga (terminal_write (drop (unat off + n) data)) (k1\<lparr>files := s2\<rparr>))" "is_file ps s2 f data" "vol s2 = vol s"
      using less.hyps [of "off + of_nat n" k1] u n(2) s(2) less.prems(2) by (auto simp: k1_def)
    moreover have "out @ drop (unat off + n) data = drop (unat off) data"
      by (simp add: out_def n_def add.commute min_def)
        (metis append_take_drop_id drop_drop add.commute)
    ultimately show ?thesis
      using v by (intro exI [of _ s2]) (simp add: k1_def on_vga_files on_vga_on_vga o_def terminal_write_append)
  qed
qed

text \<open>
  C31. \<^verbatim>\<open>cat\<close> shows the file. When the path leads to a file and output goes to the screen, the command returns, and what it has
  written to the screen is every byte of the file, in order and once, and a newline; the whole volume is as it was, and
  the file's node has been given back.
\<close>

theorem cat_prints_file:
  assumes "cget arg 0 \<noteq> 0" "kopen (resolve_arg arg k) k = Some (f, k1)" "is_file ps (files k1) f data"
    "\<not> uart_output_mode (con k)"
  shows "\<exists>s. cmd_cat io arg k = Some (on_vga (terminal_write (data @ [0x0A])) (k\<lparr>files := vfs_close f s\<rparr>))
    \<and> is_file ps s f data \<and> vol (vfs_close f s) = vol (files k) \<and> (f \<in> ps \<longrightarrow> owned (heap (vfs_close f s)) (ps - {f}))"
proof -
  obtain s1 where k1: "k1 = k\<lparr>files := s1\<rparr>" using kopen_parts [OF assms(2)] by blast
  obtain s where s: "cat_loop io f 0 k1 = Some (on_vga (terminal_write data) (k1\<lparr>files := s\<rparr>))" "is_file ps s f data" "vol s = vol (files k1)"
    using cat_loop_prints [OF assms(3), of 0 io] assms(4) by (auto simp: k1)
  have "f \<noteq> 0" "is_kind VFS_FILE f k1" using assms(3) by (simp_all add: is_file_def is_kind_def)
  moreover have "kprintf io [0x0A] [] (on_vga (terminal_write data) (k1\<lparr>files := s\<rparr>))
      = Some (on_vga (terminal_write [0x0A]) (on_vga (terminal_write data) (k1\<lparr>files := s\<rparr>)))"
    using assms(4) by (intro kprintf_render) (simp_all add: k1 cstr_def)
  ultimately have "cmd_cat io arg k = Some (kclose f (on_vga (terminal_write (data @ [0x0A])) (k\<lparr>files := s\<rparr>)))"
    using assms(1,2) s(1) by (simp add: cmd_cat_def on_vga_on_vga o_def terminal_write_append k1)
  moreover have "owned (heap (vfs_close f s)) (ps - {f})" if "f \<in> ps"
  proof -
    have "has_close (vn_ops (nodes s f))" using s(2) by (cases "vn_ops (nodes s f)") (auto simp: is_file_def)
    moreover have "owned (kfree f (heap s)) (ps - {f})" using ka.free_own [OF is_file_owned [OF s(2)] that] .
    ultimately show ?thesis using \<open>f \<noteq> 0\<close> by (simp add: vfs_close_def fat16_vfs_close_def fs_kfree_def)
  qed
  ultimately show ?thesis using s(2,3) open_vol [OF assms(2)] by (intro exI [of _ s]) (simp add: kclose_def on_vga_def close_vol)
qed

text \<open>A shell at the root of a volume with one directory, \<open>D\<close>; and one whose root is the program file itself.\<close>

definition root_path :: bytes where
  "root_path = 0x2F # replicate 255 0"

lemma root_path_ok: "path_ok root_path" "cstr root_path = [0x2F]"
  by (simp_all add: path_ok_def root_path_def cstr_def)

definition dir_shell :: "unit kernel" where
  "dir_shell = demo_kernel\<lparr>files := demo_vfs\<lparr>vol := demo_dirs\<rparr>, mount_table := demo_mounts, current_path := root_path\<rparr>"

lemma demo_dirs_find: "find_from 0 (str ''d'') 0 demo_dirs = Some (Some (3, 0, demo_entry_d))"
proof -
  have "name_match demo_entry_d (str ''d'')"
    by (simp add: name_match_def demo_dirs_facts) (simp add: str_def strcasecmp_list fold_case_def schar_def)
  then show ?thesis using find_slots [OF directory_sectors(1) [OF demo_dirs_facts(1) _ demo_dirs_facts(3)]] demo_dirs_facts by simp
qed

lemma path_d: "abs_path [0x2F] (str ''d'') = str ''/d''" "cstr (str ''d'') = str ''d''" "length (str ''/d'') = 2"
  by (simp_all add: abs_path_def str_def cstr_def)

lemma dir_shell_open: "\<exists>k0. kopen (resolve_arg (str ''d'') dir_shell) dir_shell = Some (0x300010, k0) \<and> is_kind VFS_DIR 0x300010 k0"
proof -
  have "cstr (resolve_arg (str ''d'') dir_shell) = take 255 (abs_path (cstr root_path) (cstr (str ''d'')))"
    using path_resolve_string [of 256 "replicate 256 0" root_path "str ''d''"] root_path_ok
    by (simp add: resolve_arg_def dir_shell_def)
  then have c: "cstr (resolve_arg (str ''d'') dir_shell) = str ''/d''" by (simp add: root_path_ok path_d)
  have h0: "heap_at (kmem kheap_demo) 0x300000 [(0xFFFF0, True)]" "heap_start_ptr kheap_demo = 0x300000"
    using kheap_demo_heap by (simp_all add: kheap_demo_def)
  obtain h1 where h1: "kmalloc sizeof_vfs_node kheap_demo = Some (0x300010, h1)"
    using kmalloc_on_blocks [of kheap_demo "[(0xFFFF0, True)]" sizeof_vfs_node] h0
    by (auto simp: split_block_def sizeof_vfs_node_def)
  have "mounted demo_dirs" by (simp add: demo_dirs_def frame_simps) (use demo_one_facts(1) in \<open>simp add: layout_def\<close>)
  then have "vfs_finddir 0x100000 (str ''d'') (demo_vfs\<lparr>vol := demo_dirs\<rparr>)
      = Some (0x300010, demo_vfs\<lparr>vol := demo_dirs, heap := h1, nodes := (\<lambda>_. fat16_root_node)(0x300010 := node_of 3 0 demo_entry_d)\<rparr>)"
    using demo_dirs_find h1 by (simp add: vfs_finddir_def demo_vfs_def fat16_root_node_def fat16_vfs_finddir_def fs_kmalloc_def)
  moreover have "fst (next_component 127 (str ''d'')) = str ''d''" "snd (next_component 127 (str ''d'')) = []" "skip_slash (str ''/d'') = str ''d''" "skip_slash [] = []" "str ''d'' \<noteq> []"
    by (simp_all add: str_def skip_slash_def next_component_Cons) (simp_all add: numeral_eq_Suc)
  moreover have "vn_flags (node_of 3 0 demo_entry_d) = VFS_DIR"
    by (simp add: node_of_def demo_entry_d_def FAT16_ATTR_DIRECTORY_def)
  moreover have "files dir_shell = demo_vfs\<lparr>vol := demo_dirs\<rparr>" "mount_table dir_shell = demo_mounts" by (simp_all add: dir_shell_def)
  ultimately show ?thesis
    by (simp add: kopen_def on_files_def vfs_open_def c demo_mounts_root walk.simps [of _ _ "str ''d''"] walk.simps [of _ _ "[]"] is_kind_def)
qed

lemma cd_down_up_witness:
  "\<exists>k1 k2. cmd_cd recorder_unit (str ''d'') dir_shell = Some k1 \<and> cstr (current_path k1) = str ''/d''
    \<and> cmd_cd recorder_unit (str ''..'') k1 = Some k2 \<and> cstr (current_path k2) = str ''/''"
proof -
  obtain k0 where k0: "kopen (resolve_arg (str ''d'') dir_shell) dir_shell = Some (0x300010, k0)" "is_kind VFS_DIR 0x300010 k0"
    using dir_shell_open by blast
  have c: "current_path dir_shell = root_path" "cstr (str ''d'') = str ''d''" "cstr root_path = str ''/''"
    by (simp_all add: dir_shell_def path_d root_path_ok) (simp add: str_def)
  have "path_ok (current_path dir_shell)" "cstr (current_path dir_shell) = [0x2F] \<or> last (cstr (current_path dir_shell)) \<noteq> 0x2F"
    "cstr (str ''d'') \<noteq> []" "0x2F \<notin> set (cstr (str ''d''))" "cstr (str ''d'') \<noteq> str ''..''"
    "length (cstr (current_path dir_shell)) + 1 + length (cstr (str ''d'')) < 256"
    unfolding c using root_path_ok by (simp_all add: str_def)
  from cd_down_up [OF this k0(1) _ k0(2), of recorder_unit] show ?thesis
    unfolding c using path_d(1) by (auto simp: root_path_ok(2) [unfolded c(3)] str_def [of "''/''"])
qed

lemma cd_keeps_path_witness:
  "\<exists>k'. cmd_cd recorder_unit (str ''..'') dir_shell = Some k' \<and> path_ok (current_path k')"
proof -
  have p: "path_ok (current_path dir_shell)" using root_path_ok by (simp add: dir_shell_def)
  have "cmd_cd recorder_unit (str ''..'') dir_shell \<noteq> None"
    by (simp add: cmd_cd_def dir_shell_def root_path_def) (simp add: strcmp_eq_0_iff str_def cstr_def)
  then show ?thesis using cd_keeps_path [OF p] by blast
qed

definition file_shell :: "unit kernel" where
  "file_shell = demo_kernel\<lparr>mount_table := [(str ''/'', 1)], current_path := root_path\<rparr>"

lemma root_file_open:
  assumes "mount_table k = [(str ''/'', 1)]" "current_path k = root_path"
  shows "kopen (resolve_arg (str ''/'') k) k = Some (1, k)"
proof -
  have "cstr (resolve_arg (str ''/'') k) = take 255 (abs_path (cstr root_path) (cstr (str ''/'')))"
    using path_resolve_string [of 256 "replicate 256 0" root_path "str ''/''"] root_path_ok
    by (simp add: resolve_arg_def assms(2))
  moreover have "cstr (str ''/'') = [0x2F]" by (simp add: str_def cstr_def)
  ultimately have "skip_slash (cstr (resolve_arg (str ''/'') k)) = []" by (simp add: root_path_ok abs_path_def skip_slash_def)
  moreover have "vfs_get_root (mount_table k) = 1" by (simp add: assms(1) str_def cget_def)
  ultimately show ?thesis by (simp add: kopen_def on_files_def vfs_open_def)
qed

lemma file_shell_open: "kopen (resolve_arg (str ''/'') file_shell) file_shell = Some (1, file_shell)"
  by (rule root_file_open) (simp_all add: file_shell_def)

lemma cat_prints_file_witness:
  "\<exists>s. cmd_cat recorder_unit (str ''/'') file_shell
      = Some (on_vga (terminal_write (demo_elf @ [0x0A])) (file_shell\<lparr>files := vfs_close 1 s\<rparr>))"
proof -
  have "cget (str ''/'') 0 \<noteq> 0" by (simp add: str_def)
  moreover have "is_file {} (files file_shell) 1 demo_elf" using demo_elf_file by (simp add: file_shell_def demo_kernel_def)
  moreover have "\<not> uart_output_mode (con file_shell)" by (simp add: file_shell_def demo_kernel_def)
  ultimately show ?thesis using cat_prints_file [OF _ file_shell_open] by blast
qed

end
