(* ===== verification/Exec.thy ===== *)
theory Exec
  imports Builtins_Correct
begin

text \<open>
  The command \<^verbatim>\<open>exec\<close> from end to end: path, loader, process, keyboard, screen and back.
\<close>

text \<open>
  What the kernel relies on in a program: entered with the program in its memory, it ends with exit code \<open>code\<close>, through \<open>process_exit\<close>;
  the file system is as it was, and the pages it had mapped are still mapped.
\<close>

definition entered :: "u32 \<Rightarrow> u32 \<Rightarrow> bytes \<Rightarrow> Elf32_Phdr list \<Rightarrow> 's kernel \<Rightarrow> bool" where
  "entered proc esp data segs k \<longleftrightarrow> current_process k = proc \<and> tss_esp0 k = esp \<and> pending (kbd k) = []
     \<and> (\<forall>ph \<in> set segs. \<forall>c. covers ph c \<longrightarrow> load_byte (vmem k) c = Some (seg_image data ph c))"

definition ends_with :: "u32 \<Rightarrow> u32 \<Rightarrow> 's kernel \<Rightarrow> 's kernel \<Rightarrow> bool" where
  "ends_with code proc k k' \<longleftrightarrow> files k' = files k \<and> procs k' = (procs k)(proc := (procs k proc)\<lparr>exit_code := code\<rparr>)
     \<and> (\<forall>V. uspace (vmem k) V \<longrightarrow> uspace (vmem k') V) \<and> uart_output_mode (con k') = uart_output_mode (con k)"

section \<open>Properties\<close>

text \<open>
  C1. \<^verbatim>\<open>exec\<close> runs a program and cleans up. With heap and frames enough for it, a valid program is entered at its entry point on
  its own kernel stack, with its image in memory and no key waiting. When it ends, its exit code is on the
  cleared screen, none of its pages is mapped, and process, kernel stack and the node of its file are back in
  the heap.
\<close>

theorem exec_runs_and_frees:
  assumes "cget arg 0 \<noteq> 0" "kopen (resolve_arg arg k) k = Some (f, k0)" "\<not> uart_output_mode (con k)"
    "owned (heap (files k0)) ps" "f \<in> ps"
    "on_files (fs_kmalloc sizeof_process_t) k0 = Some (proc, k1)" "proc \<noteq> 0"
    "on_files (fs_kmalloc PROCESS_KSTACK_SIZE) k1 = Some (ks, k2)" "ks \<noteq> 0"
    "is_file (insert ks (insert proc ps)) (files k2) f data" "uspace (vmem k) V"
    "program_ok data (V \<union> set stack_pages) segs" "set stack_pages \<inter> V = {}" "length (program_pages segs) \<le> 60"
    "e_entry (ehdr_of (take 52 data)) \<noteq> 0" "frames_left (2 * (length (program_pages segs) + 4)) (vpmm (vmem k))"
    "\<forall>k3. entered proc (ks + PROCESS_KSTACK_SIZE) data segs k3 \<longrightarrow>
      (\<exists>k4. user (e_entry (ehdr_of (take 52 data))) 0xBFFFFFFC k3 = Some k4 \<and> ends_with code proc k3 k4)"
  shows "\<exists>k' v. cmd_exec io user arg k = Some k' \<and> owned (heap (files k')) (ps - {f}) \<and> uspace (vmem k') V
    \<and> (\<forall>a. ENTRY_GET_FRAME a \<in> set (program_pages segs) \<union> set stack_pages \<longrightarrow> load_byte (vmem k') a = None)
    \<and> vga (con k') = terminal_write (str ''[exec] exited with code '' @ int_string code @ [0x0A]) (terminal_initialize v)"
proof -
  let ?P = "program_pages segs @ stack_pages"
  obtain s0 where k0: "k0 = k\<lparr>files := s0\<rparr>" using kopen_parts [OF assms(2)] by blast
  have vm0: "uspace (vmem k0) V" "frames_left (2 * (length (program_pages segs) + 4)) (vpmm (vmem k0))"
    using assms(11,16) by (simp_all add: k0)
  define pr where "pr = \<lparr>entry = e_entry (ehdr_of (take 52 data)), stack_top = 0xBFFFFFFC, exit_code = 0, kstack = ks,
         kstack_top = ks + PROCESS_KSTACK_SIZE, mapped_pages = ?P\<rparr>"
  obtain s st where c: "process_create io f k0 = Some (proc, k0\<lparr>files := s, vmem := st, procs := (procs k0)(proc := pr)\<rparr>)"
    "is_file (insert ks (insert proc ps)) s f data" "uspace st (V \<union> set ?P)"
    "\<forall>ph \<in> set segs. \<forall>c. covers ph c \<longrightarrow> load_byte st c = Some (seg_image data ph c)"
    unfolding pr_def by (rule create_parts [OF assms(6-10) vm0(1) assms(12-15) vm0(2)])
  note fresh = create_fresh [OF assms(4,6-9)]
  define k3 where "k3 = k0\<lparr>vmem := st, procs := (procs k0)(proc := pr), files := vfs_close f s, kbd := keyboard_flush (kbd k0)\<rparr>"
  define k4 where "k4 = tss_set_kernel_stack (ks + PROCESS_KSTACK_SIZE) (k3\<lparr>current_process := proc\<rparr>)"
  have "pending (keyboard_flush b) = []" for b by (simp add: pending_def keyboard_flush_def)
  then have "entered proc (ks + PROCESS_KSTACK_SIZE) data segs k4"
    using c(4) by (simp add: entered_def k4_def k3_def tss_set_kernel_stack_def)
  then obtain k5 where k5: "user (e_entry (ehdr_of (take 52 data))) 0xBFFFFFFC k4 = Some k5" "ends_with code proc k4 k5"
    using assms(17) by blast
  have run: "process_run user proc k3 = Some k5" 
  proof -
    have pk: "procs k3 proc = pr" "procs k4 proc = pr" by (simp_all add: k4_def k3_def tss_set_kernel_stack_def)
    have "process_run user proc k3 = user (entry (procs k4 proc)) (stack_top (procs k4 proc)) k4"
      using pk(1) by (simp add: process_run_def Let_def k4_def pr_def)
    then show ?thesis using k5(1) by (simp add: pk(2)) (simp add: pr_def)
  qed
  have e5: "files k5 = vfs_close f s" "procs k5 proc = pr\<lparr>exit_code := code\<rparr>" "uspace (vmem k5) (V \<union> set ?P)"
      "\<not> uart_output_mode (con k5)"
    using k5(2) c(3) assms(3) by (simp_all add: ends_with_def k4_def k3_def tss_set_kernel_stack_def k0)
  have f: "f \<noteq> 0" "is_kind VFS_FILE f k0"
  proof -
    obtain h1 h2 where "files k2 = s0\<lparr>heap := h1\<rparr>" using assms(6,8) by (auto simp: on_files_def fs_kmalloc_def k0)
    then show "f \<noteq> 0" "is_kind VFS_FILE f k0" using assms(10) by (simp_all add: is_file_def is_kind_def k0)
  qed
  define k6 where "k6 = on_vga terminal_initialize (on_vga (terminal_write (str ''[exec] returned'' @ [0x0A])) k5)"
  define out where "out = str ''[exec] exited with code '' @ int_string code @ [0x0A]"
  define k7 where "k7 = on_vga (terminal_write out) k6"
  have p1: "kprintf io (str ''[exec] returned'' @ [0x0A]) [] k5 = Some (on_vga (terminal_write (str ''[exec] returned'' @ [0x0A])) k5)"
    using e5(4) by (rule kprintf_render) (simp add: cstr_def str_def)
  have p2: "kprintf io (str ''[exec] exited with code %d'' @ [0x0A]) [Va_int (exit_code (procs k6 proc))] k6 = Some k7"
    unfolding k7_def using e5(2,4) by (intro kprintf_render) (simp_all add: k6_def cstr_def str_def out_def)
  have same7: "files k7 = vfs_close f s" "vmem k7 = vmem k5" "procs k7 proc = pr\<lparr>exit_code := code\<rparr>"
    using e5 by (simp_all add: k7_def k6_def)
  have close: "owned (heap (files k7)) (insert ks (insert proc (ps - {f})))"
  proof -
    have "has_close (vn_ops (nodes s f))" using c(2) by (cases "vn_ops (nodes s f)") (auto simp: is_file_def)
    moreover have "owned (kfree f (heap s)) (insert ks (insert proc ps) - {f})"
      using ka.free_own [OF is_file_owned [OF c(2)], of f] assms(5) by blast
    moreover have "insert ks (insert proc ps) - {f} = insert ks (insert proc (ps - {f}))" using fresh assms(5) by auto
    ultimately show ?thesis using f(1) unfolding same7 by (simp add: vfs_close_def fat16_vfs_close_def fs_kfree_def)
  qed
  have p7: "kstack (procs k7 proc) = ks" "mapped_pages (procs k7 proc) = ?P" "uspace (vmem k7) (V \<union> set ?P)"
    "proc \<notin> ps - {f}" "ks \<notin> insert proc (ps - {f})"
    using fresh e5(3) by (simp_all add: same7 pr_def)
  obtain k' where k': "process_free proc k7 = Some k'" "uspace (vmem k') V" "owned (heap (files k')) (ps - {f})" "con k' = con k7"
      "\<forall>a. ENTRY_GET_FRAME a \<in> set ?P \<longrightarrow> load_byte (vmem k') a = None"
    by (rule free_parts [OF p7(1,2) assms(7) p7(3) program_stack_apart [OF assms(12,13)] close p7(4,5)])
  have "cmd_exec io user arg k = Some k'"
    using assms(1,2,7) f c(1) run p1 p2 k'(1)
    by (simp add: cmd_exec_def kclose_def k3_def [symmetric] k6_def)
  moreover have "\<exists>v. vga (con k') = terminal_write out (terminal_initialize v)" by (simp add: k'(4) k7_def k6_def on_vga_def) blast
  ultimately show ?thesis using k' by (auto simp: out_def)
qed

text \<open>The demonstration program, in a node of the heap, which the shell's root leads to, and three blocks of the heap.\<close>

lemma exec_runs_and_frees_witness:
  "\<exists>k' h. cmd_exec recorder_unit (\<lambda>_ _ k. Some (process_exit 7 k)) (str ''/'')
      (demo_kernel\<lparr>mount_table := [(str ''/'', 0x300010)], current_path := root_path, files := demo_elf_fs\<lparr>heap := h\<rparr>\<rparr>) = Some k'
    \<and> owned (heap (files k')) {} \<and> load_byte (vmem k') 0x40000000 = None"
proof -
  have h0: "heap_at (kmem kheap_demo) 0x300000 [(0xFFFF0, True)]" "heap_start_ptr kheap_demo = 0x300000"
    using kheap_demo_heap by (simp_all add: kheap_demo_def)
  obtain h where h: "kmalloc 48 kheap_demo = Some (0x300010, h)" "heap_start_ptr h = 0x300000"
      "heap_at (kmem h) 0x300000 [(48, False), (0xFFFB0, True)]"
    using kmalloc_on_blocks [of kheap_demo "[(0xFFFF0, True)]" 48] h0
    by (auto simp: split_block_def)
  obtain h1 where h1: "kmalloc sizeof_process_t h = Some (0x300050, h1)" "heap_start_ptr h1 = 0x300000"
      "heap_at (kmem h1) 0x300000 [(48, False), (280, False), (0xFFE88, True)]"
    using kmalloc_on_blocks [of h "[(48, False), (0xFFFB0, True)]" sizeof_process_t] h
    by (auto simp: split_block_def sizeof_process_t_def)
  obtain h2 where h2: "kmalloc PROCESS_KSTACK_SIZE h1 = Some (0x300178, h2)" "heap_start_ptr h2 = 0x300000"
      "heap_at (kmem h2) 0x300000 [(48, False), (280, False), (8192, False), (0xFDE78, True)]"
    using kmalloc_on_blocks [of h1 "[(48, False), (280, False), (0xFFE88, True)]" PROCESS_KSTACK_SIZE] h1
    by (auto simp: split_block_def PROCESS_KSTACK_SIZE_def)
  define k where "k = demo_kernel\<lparr>mount_table := [(str ''/'', 0x300010)], current_path := root_path, files := demo_elf_fs\<lparr>heap := h\<rparr>\<rparr>"
  let ?k1 = "k\<lparr>files := demo_elf_fs\<lparr>heap := h1\<rparr>\<rparr>" and ?k2 = "k\<lparr>files := demo_elf_fs\<lparr>heap := h2\<rparr>\<rparr>"
  have fk: "files k = demo_elf_fs\<lparr>heap := h\<rparr>" "vmem k = vm_demo" "current_path k = root_path"
    by (simp_all add: k_def demo_kernel_def)
  have op: "kopen (resolve_arg (str ''/'') k) k = Some (0x300010, k)"
  proof -
    have "cstr (resolve_arg (str ''/'') k) = take 255 (abs_path (cstr root_path) (cstr (str ''/'')))"
      using path_resolve_string [of 256 "replicate 256 0" root_path "str ''/''"] root_path_ok by (simp add: resolve_arg_def fk)
    moreover have "cstr (str ''/'') = [0x2F]" by (simp add: str_def cstr_def)
    ultimately have "skip_slash (cstr (resolve_arg (str ''/'') k)) = []" by (simp add: root_path_ok abs_path_def skip_slash_def)
    moreover have "vfs_get_root (mount_table k) = 0x300010" by (simp add: k_def str_def cget_def)
    ultimately show ?thesis by (simp add: kopen_def on_files_def vfs_open_def)
  qed
  have m: "on_files (fs_kmalloc sizeof_process_t) k = Some (0x300050, ?k1)"
    "on_files (fs_kmalloc PROCESS_KSTACK_SIZE) ?k1 = Some (0x300178, ?k2)"
    using h1(1) h2(1) by (simp_all add: on_files_def fs_kmalloc_def fk)
  have own: "owned (heap (files k)) {0x300010}"
    using heap_has_owned [of h "[(48, False), (0xFFFB0, True)]"] h by (simp add: heap_has_def fk)
  have f: "is_file (insert 0x300178 (insert 0x300050 {0x300010})) (files ?k2) 0x300010 demo_elf"
  proof -
    have "heap_has h2 [(48, False), (280, False), (8192, False), (0xFDE78, True)]" using h2 by (simp add: heap_has_def)
    moreover have "ucast (sectors_per_cluster (bpb (vol demo_elf_fs))) * 512 \<le> (0xFDE78 :: u32)"
      by (simp add: demo_elf_fs_def frame_simps demo_one_facts(5))
    ultimately have "cluster_buffer (demo_elf_fs\<lparr>heap := h2\<rparr>) [(48, False), (280, False), (8192, False), (0xFDE78, True)]"
      by (simp add: cluster_buffer_def)
    moreover have "used_ptrs (heap_start_ptr h2) [(48, False), (280, False), (8192, False), (0xFDE78, True)] = {0x300178, 0x300050, 0x300010}"
      by (auto simp: h2(2))
    moreover have "nodes demo_elf_fs 0x300010 = nodes demo_elf_fs 1" by (simp add: demo_elf_fs_def)
    ultimately show ?thesis using demo_elf_file unfolding is_file_def by fastforce
  qed
  have u: "uspace (vmem k) {}" using vm_demo_inv by (simp add: uspace_def fk)
  have p: "program_ok demo_elf ({} \<union> set stack_pages) [demo_phdr]"
  proof -
    have "set (program_pages [demo_phdr]) \<inter> ({} \<union> set stack_pages) = {}" by (simp add: demo_program(2) stack_pages_def)
    then show ?thesis using demo_program(1) unfolding program_ok_def by blast
  qed
  have fr: "frames_left (2 * (length (program_pages [demo_phdr]) + 4)) (vpmm (vmem k))"
    using demo_more_frames by (simp add: demo_program(2) fk)
  have us: "\<forall>k3. entered 0x300050 (0x300178 + PROCESS_KSTACK_SIZE) demo_elf [demo_phdr] k3 \<longrightarrow>
      (\<exists>k4. (\<lambda>_ _ k. Some (process_exit 7 k)) (e_entry (ehdr_of (take 52 demo_elf))) 0xBFFFFFFC k3 = Some k4 \<and> ends_with 7 0x300050 k3 k4)"
    by (simp add: entered_def ends_with_def process_exit_def)
  have c: "cget (str ''/'') 0 \<noteq> 0" "\<not> uart_output_mode (con k)" by (simp_all add: str_def k_def demo_kernel_def)
  from exec_runs_and_frees [OF c(1) op c(2) own _ m(1) _ m(2) _ f u p _ _ _ fr us, of recorder_unit]
  obtain k' where "cmd_exec recorder_unit (\<lambda>_ _ k. Some (process_exit 7 k)) (str ''/'') k = Some k'"
      "owned (heap (files k')) {}"
      "\<forall>a. ENTRY_GET_FRAME a = 0x40000000 \<or> ENTRY_GET_FRAME a \<in> set stack_pages \<longrightarrow> load_byte (vmem k') a = None"
    by (auto simp: demo_program(2,3))
  then show ?thesis unfolding k_def by (intro exI [of _ k'] exI [of _ h]) (simp add: ENTRY_GET_FRAME_def)
qed

end
