(* ===== verification/Shell.thy ===== *)
theory Shell
  imports Exec
begin

text \<open>
  The shell, \<^verbatim>\<open>shell/shell.c\<close>: the banner, the command table, the splitting of a line and the loop that edits it. One
  round of the loop is \<open>shell_poll\<close>; \<open>shell_loop\<close> makes as many rounds as it is given batches of interrupts, which arrive
  after each.
\<close>

definition INPUT_SIZE :: nat where "INPUT_SIZE = 256"

definition VGA_COLOR_DARK_GREY :: u8 where "VGA_COLOR_DARK_GREY = 8"
definition VGA_COLOR_LIGHT_CYAN :: u8 where "VGA_COLOR_LIGHT_CYAN = 11"

section \<open>The banner\<close>

text \<open>A line of the banner, with \<open>#\<close> for the backslash.\<close>

definition banner_line :: "string \<Rightarrow> bytes" where
  "banner_line s = map (\<lambda>c. if c = 0x23 then 0x5C else c) (str s) @ [0x0A]"

definition draw_banner :: "'s ports \<Rightarrow> 's kernel \<Rightarrow> 's kernel option" where
  "draw_banner io k = do {
     let k = on_vga (change_color VGA_COLOR_LIGHT_GREY VGA_COLOR_BLACK) k;
     k \<leftarrow> kprintf io (banner_line ''  --------------------------------'') [] k;
     k \<leftarrow> kprintf io (banner_line ''            WELCOME TO'') [] k;
     let k = on_vga (change_color VGA_COLOR_LIGHT_CYAN VGA_COLOR_BLACK) k;
     k \<leftarrow> kprintf io (banner_line ''  __  __  ___  ____  ____  ___  '') [] k;
     k \<leftarrow> kprintf io (banner_line '' # #/ / / _ #|_  _||  _ #/ __| '') [] k;
     k \<leftarrow> kprintf io (banner_line ''  #  / | (_) | | |  | (_) #__ # '') [] k;
     k \<leftarrow> kprintf io (banner_line ''  /_/   #___/  |_|  |___/|___/ '') [] k;
     let k = on_vga (change_color VGA_COLOR_DARK_GREY VGA_COLOR_BLACK) k;
     k \<leftarrow> kprintf io (banner_line ''  --------------------------------'') [] k;
     let k = on_vga (change_color VGA_COLOR_LIGHT_GREY VGA_COLOR_BLACK) k;
     kprintf io [0x0A] [] k }"

section \<open>The commands\<close>

datatype command = Help | Clear | Mem | Ls | Cat | Cd | Touch | Mkdir | Echo | Exec

definition commands :: "(bytes \<times> command) list" where
  "commands = [(str ''help'', Help), (str ''clear'', Clear), (str ''mem'', Mem), (str ''ls'', Ls), (str ''cat'', Cat),
     (str ''cd'', Cd), (str ''touch'', Touch), (str ''mkdir'', Mkdir), (str ''echo'', Echo), (str ''exec'', Exec)]"

type_synonym 's user = "u32 \<Rightarrow> u32 \<Rightarrow> 's kernel \<Rightarrow> 's kernel option"

fun run_command :: "'s ports \<Rightarrow> 's user \<Rightarrow> command \<Rightarrow> bytes \<Rightarrow> 's kernel \<Rightarrow> 's kernel option" where
  "run_command io user Help arg k = cmd_help io arg k"
| "run_command io user Clear arg k = cmd_clear io arg k"
| "run_command io user Mem arg k = cmd_mem io arg k"
| "run_command io user Ls arg k = cmd_ls io arg k"
| "run_command io user Cat arg k = cmd_cat io arg k"
| "run_command io user Cd arg k = cmd_cd io arg k"
| "run_command io user Touch arg k = cmd_touch io arg k"
| "run_command io user Mkdir arg k = cmd_mkdir io arg k"
| "run_command io user Echo arg k = cmd_echo io arg k"
| "run_command io user Exec arg k = cmd_exec io user arg k"

fun find_command :: "bytes \<Rightarrow> (bytes \<times> command) list \<Rightarrow> command option" where
  "find_command cmd [] = None"
| "find_command cmd ((name, c) # table) = (if strcmp cmd name = 0 then Some c else find_command cmd table)"

definition shell_execute :: "'s ports \<Rightarrow> 's user \<Rightarrow> bytes \<Rightarrow> 's kernel \<Rightarrow> 's kernel option" where
  "shell_execute io user line k =
     (let s = cstr line;
          cmd = takeWhile (\<lambda>c. c \<noteq> 0x20) s;
          arg = (if cmd = s then [] else skip_spaces (drop (length cmd + 1) s))
      in case find_command cmd commands of
           Some c \<Rightarrow> run_command io user c arg k
         | None \<Rightarrow>
             (if strcmp cmd (str '''') \<noteq> 0 then kprintf io (str ''unknown command: %s'' @ [0x0A]) [Va_str cmd] k
              else Some k))"

section \<open>The loop\<close>

text \<open>The local variables of \<open>shell_run\<close>.\<close>

record shell =
  sh_input :: bytes
  sh_i :: nat
  from_uart :: bool

definition set_mode :: "bool \<Rightarrow> 's kernel \<Rightarrow> 's kernel" where
  "set_mode m k = k\<lparr>con := (con k)\<lparr>uart_output_mode := m\<rparr>\<rparr>"

definition prompt :: "'s ports \<Rightarrow> 's kernel \<Rightarrow> 's kernel option" where
  "prompt io k = kprintf io (str ''YOTOS:%s> '') [Va_str (current_path k)] k"

definition shell_key :: "'s ports \<Rightarrow> 's user \<Rightarrow> u8 \<Rightarrow> shell \<Rightarrow> 's kernel \<Rightarrow> (shell \<times> 's kernel) option" where
  "shell_key io user c sh k =
     (if c = 0x0A
      then do {
        let k = on_vga (terminal_putchar 0x0A) k;
        let sh = sh\<lparr>sh_input := (sh_input sh)[sh_i sh := 0]\<rparr>;
        k \<leftarrow> shell_execute io user (sh_input sh) (set_mode (from_uart sh) k);
        k \<leftarrow> prompt io (set_mode False k);
        Some (sh\<lparr>sh_i := 0\<rparr>, k) }
      else if c = 0x08
      then (if sh_i sh > 0 then Some (sh\<lparr>sh_i := sh_i sh - 1\<rparr>, on_vga (terminal_putchar 0x08) k) else Some (sh, k))
      else if sh_i sh < INPUT_SIZE - 1
      then Some (sh\<lparr>sh_input := (sh_input sh)[sh_i sh := c], sh_i := sh_i sh + 1\<rparr>, on_vga (terminal_putchar c) k)
      else Some (sh, k))"

definition shell_poll :: "'s ports \<Rightarrow> 's user \<Rightarrow> shell \<Rightarrow> 's kernel \<Rightarrow> (shell \<times> 's kernel) option" where
  "shell_poll io user sh k =
     (let (c, b) = keyboard_getchar (kbd k); k = k\<lparr>kbd := b\<rparr> in
      if c \<noteq> 0 then shell_key io user c (sh\<lparr>from_uart := False\<rparr>) k
      else (let (c, w) = uart_getchar io (wire (con k)); k = on_wire (\<lambda>_. w) k in
        if c \<noteq> 0 then shell_key io user c (sh\<lparr>from_uart := True\<rparr>) k
        else Some (sh, k)))"

fun shell_loop :: "'s ports \<Rightarrow> 's user \<Rightarrow> u32 list list \<Rightarrow> shell \<Rightarrow> 's kernel \<Rightarrow> (shell \<times> 's kernel) option" where
  "shell_loop io user [] sh k = Some (sh, k)"
| "shell_loop io user (vs # arrivals) sh k = do {
     (sh, k) \<leftarrow> shell_poll io user sh k;
     (case interrupts io vs k of
        Returns k \<Rightarrow> shell_loop io user arrivals sh k
      | Unwinds k \<Rightarrow> None) }"

text \<open>\<open>uninit\<close> is what the array holds at first.\<close>

definition shell_run :: "'s ports \<Rightarrow> 's user \<Rightarrow> bytes \<Rightarrow> u32 list list \<Rightarrow> 's kernel \<Rightarrow> (shell \<times> 's kernel) option" where
  "shell_run io user uninit arrivals k = do {
     k \<leftarrow> draw_banner io (on_vga terminal_initialize k);
     k \<leftarrow> prompt io k;
     shell_loop io user arrivals \<lparr>sh_input = uninit, sh_i = 0, from_uart = False\<rparr> k }"

section \<open>Editing a line\<close>

text \<open>The line as the user sees it, and what a key echoes.\<close>

definition edit :: "u8 \<Rightarrow> bytes \<Rightarrow> bytes" where
  "edit c l = (if c = 0x08 then butlast l else if length l < 255 then l @ [c] else l)"

definition echo_of :: "u8 \<Rightarrow> bytes \<Rightarrow> bytes" where
  "echo_of c l = (if c = 0x08 then (if l = [] then [] else [0x08]) else if length l < 255 then [c] else [])"

fun echoes :: "bytes \<Rightarrow> bytes \<Rightarrow> bytes" where
  "echoes l [] = []"
| "echoes l (c # cs) = echo_of c l @ echoes (edit c l) cs"

fun shell_keys :: "'s ports \<Rightarrow> 's user \<Rightarrow> bytes \<Rightarrow> shell \<Rightarrow> 's kernel \<Rightarrow> (shell \<times> 's kernel) option" where
  "shell_keys io user [] sh k = Some (sh, k)"
| "shell_keys io user (c # cs) sh k = do { (sh, k) \<leftarrow> shell_key io user c sh k; shell_keys io user cs sh k }"

definition line_of :: "shell \<Rightarrow> bytes" where
  "line_of sh = take (sh_i sh) (sh_input sh)"

definition shell_ok :: "shell \<Rightarrow> bool" where
  "shell_ok sh \<longleftrightarrow> length (sh_input sh) = 256 \<and> sh_i sh < 256"

lemma terminal_write_Nil [simp]: "terminal_write [] v = v"
  by (simp add: terminal_write_def)

lemma on_vga_id [simp]: "on_vga (\<lambda>v. v) k = k"
  by (simp add: on_vga_def)

lemma shell_key_edits:
  assumes "shell_ok sh" "c \<noteq> 0x0A"
  shows "\<exists>sh'. shell_key io user c sh k = Some (sh', on_vga (terminal_write (echo_of c (line_of sh))) k)
    \<and> shell_ok sh' \<and> line_of sh' = edit c (line_of sh) \<and> from_uart sh' = from_uart sh"
proof -
  have w: "on_vga (terminal_write [d]) k = on_vga (terminal_putchar d) k" for d by (simp add: on_vga_def terminal_write_def)
  have l: "length (line_of sh) = sh_i sh" using assms(1) by (simp add: line_of_def shell_ok_def)
  have "sh_i sh < 255 \<or> sh_i sh = 255" "sh_i sh = 0 \<or> 0 < sh_i sh" using assms(1) by (auto simp: shell_ok_def)
  then consider (rubout) "c = 0x08" "0 < sh_i sh" | (none) "c = 0x08" "sh_i sh = 0" | (add) "c \<noteq> 0x08" "sh_i sh < 255" | (full) "c \<noteq> 0x08" "sh_i sh = 255"
    by blast
  then show ?thesis
  proof cases
    case rubout
    then have "line_of sh \<noteq> []" using l by auto
    then show ?thesis using rubout assms(1) l
      by (auto simp: shell_key_def echo_of_def w edit_def shell_ok_def line_of_def butlast_take)
  next
    case none
    then have "line_of sh = []" using l by simp
    then show ?thesis using none assms(1) by (simp add: shell_key_def echo_of_def edit_def terminal_write_def on_vga_def line_of_def shell_ok_def)
  next
    case add
    then show ?thesis using assms l
      by (auto simp: shell_key_def echo_of_def edit_def shell_ok_def line_of_def INPUT_SIZE_def w take_Suc_conv_app_nth)
  next
    case full
    then show ?thesis using assms l
      by (auto simp: shell_key_def echo_of_def edit_def shell_ok_def line_of_def INPUT_SIZE_def terminal_write_def on_vga_def)
  qed
qed

lemma shell_keys_edit:
  "shell_ok sh \<Longrightarrow> 0x0A \<notin> set cs \<Longrightarrow>
    \<exists>sh'. shell_keys io user cs sh k = Some (sh', on_vga (terminal_write (echoes (line_of sh) cs)) k)
      \<and> shell_ok sh' \<and> line_of sh' = fold edit cs (line_of sh) \<and> from_uart sh' = from_uart sh"
proof (induction cs arbitrary: sh k)
  case Nil
  then show ?case by (simp add: on_vga_def)
next
  case (Cons c cs)
  obtain sh1 where s1: "shell_key io user c sh k = Some (sh1, on_vga (terminal_write (echo_of c (line_of sh))) k)"
      "shell_ok sh1" "line_of sh1 = edit c (line_of sh)" "from_uart sh1 = from_uart sh"
    using shell_key_edits [of sh c io user k] Cons.prems by auto
  obtain sh2 where "shell_keys io user cs sh1 (on_vga (terminal_write (echo_of c (line_of sh))) k)
        = Some (sh2, on_vga (terminal_write (echoes (line_of sh1) cs)) (on_vga (terminal_write (echo_of c (line_of sh))) k))"
      "shell_ok sh2" "line_of sh2 = fold edit cs (line_of sh1)" "from_uart sh2 = from_uart sh1"
    using Cons.IH [OF s1(2)] Cons.prems(2) by auto
  then show ?case using s1 by (simp add: on_vga_on_vga o_def terminal_write_append)
qed

lemma edit_set: "set (edit c l) \<subseteq> insert c (set l)"
  by (auto simp: edit_def dest: in_set_butlastD)

lemma edited_set: "set (fold edit cs l) \<subseteq> set cs \<union> set l"
proof (induction cs arbitrary: l)
  case (Cons c cs)
  then show ?case using edit_set [of c l] Cons [of "edit c l"] by auto
qed simp

lemma shell_execute_cstr: "cstr a = cstr b \<Longrightarrow> shell_execute io user a k = shell_execute io user b k"
  by (simp add: shell_execute_def)

section \<open>Properties\<close>

text \<open>
  C20. The shell runs the line the user sees. Whatever is typed (other than newlines and zeros), backspaces and lines longer
  than the array included, the command executed at the newline is the edited line, of at most 255 characters, with the output mode of where the
  newline came from; every character and rubout that counted has been echoed and no other; the array is
  never overrun and the next line starts empty.
\<close>

theorem shell_runs_edited_line:
  assumes "shell_ok sh" "sh_i sh = 0" "0x0A \<notin> set cs" "0 \<notin> set cs"
  shows "\<exists>buf. length buf = 256 \<and> shell_keys io user (cs @ [0x0A]) sh k = do {
      k \<leftarrow> shell_execute io user (fold edit cs []) (set_mode (from_uart sh) (on_vga (terminal_write (echoes [] cs @ [0x0A])) k));
      k \<leftarrow> prompt io (set_mode False k);
      Some (\<lparr>sh_input = buf, sh_i = 0, from_uart = from_uart sh\<rparr>, k) }"
proof -
  have l0: "line_of sh = []" using assms(2) by (simp add: line_of_def)
  obtain sh1 where s1: "shell_keys io user cs sh k = Some (sh1, on_vga (terminal_write (echoes [] cs)) k)"
      "shell_ok sh1" "line_of sh1 = fold edit cs []" "from_uart sh1 = from_uart sh"
    using shell_keys_edit [OF assms(1,3), of io user k] unfolding l0 by blast
  define buf where "buf = (sh_input sh1)[sh_i sh1 := 0]"
  have i: "sh_i sh1 < length (sh_input sh1)" using s1(2) by (simp add: shell_ok_def)
  have "0 \<notin> set (line_of sh1)" using edited_set [of cs "[]"] assms(4) s1(3) by auto
  moreover have "buf = line_of sh1 @ 0 # drop (Suc (sh_i sh1)) (sh_input sh1)"
    using i by (simp add: buf_def line_of_def upd_conv_take_nth_drop)
  ultimately have "cstr buf = line_of sh1" by (simp add: cstr_append_zero)
  moreover have "cstr (line_of sh1) = line_of sh1" using \<open>0 \<notin> set (line_of sh1)\<close> by (rule cstr_id)
  ultimately have b: "shell_execute io user buf k = shell_execute io user (fold edit cs []) k" for k
    using shell_execute_cstr [of buf "line_of sh1"] s1(3) by simp
  have app: "shell_keys io user (xs @ ys) sh k = shell_keys io user xs sh k \<bind> (\<lambda>(sh, k). shell_keys io user ys sh k)" for xs ys sh k
    by (induction xs arbitrary: sh k) (auto split: Option.bind_split prod.split)
  have w: "on_vga (terminal_putchar 0x0A) (on_vga (terminal_write (echoes [] cs)) k) = on_vga (terminal_write (echoes [] cs @ [0x0A])) k"
    by (simp add: on_vga_def terminal_write_def)
  have sh1: "sh1\<lparr>sh_input := buf, sh_i := 0\<rparr> = \<lparr>sh_input = buf, sh_i = 0, from_uart = from_uart sh\<rparr>" using s1(4) by simp
  have "shell_keys io user (cs @ [0x0A]) sh k = do {
      k \<leftarrow> shell_execute io user (fold edit cs []) (set_mode (from_uart sh) (on_vga (terminal_write (echoes [] cs @ [0x0A])) k));
      k \<leftarrow> prompt io (set_mode False k);
      Some (\<lparr>sh_input = buf, sh_i = 0, from_uart = from_uart sh\<rparr>, k) }"
    using s1(1,4) by (simp add: app shell_key_def w buf_def [symmetric] b sh1)
  moreover have "length buf = 256" using s1(2) by (simp add: buf_def shell_ok_def)
  ultimately show ?thesis by blast
qed

lemma shell_runs_edited_line_witness:
  "\<exists>buf. shell_keys recorder_unit (\<lambda>_ _ _. None) [0x78, 0x78, 0x08, 0x0A] \<lparr>sh_input = replicate 256 0, sh_i = 0, from_uart = False\<rparr> dir_shell
    = do {
      k \<leftarrow> shell_execute recorder_unit (\<lambda>_ _ _. None) [0x78] (set_mode False (on_vga (terminal_write [0x78, 0x78, 0x08, 0x0A]) dir_shell));
      k \<leftarrow> prompt recorder_unit (set_mode False k);
      Some (\<lparr>sh_input = buf, sh_i = 0, from_uart = False\<rparr>, k) }"
proof -
  have "shell_ok \<lparr>sh_input = replicate 256 0, sh_i = 0, from_uart = False\<rparr>" by (simp add: shell_ok_def)
  from shell_runs_edited_line [OF this, of "[0x78, 0x78, 0x08]" recorder_unit "\<lambda>_ _ _. None" dir_shell] show ?thesis
    by (auto simp: edit_def echo_of_def)
qed

lemma find_command_map:
  "find_command cmd table = map_of (map (\<lambda>(n, c). (cstr n, c)) table) (cstr cmd)"
  by (induction table) (auto simp: strcmp_eq_0_iff)

text \<open>
  A line runs the command it names. The first word of a line, up to a space, picks the command of exactly that name, which gets the rest
  of the line without the spaces before it; any other first word is reported as unknown, and an empty line does nothing.
\<close>

theorem shell_dispatches:
  assumes "0 \<notin> set w" "0x20 \<notin> set w" "0 \<notin> set arg" "arg \<noteq> [] \<longrightarrow> hd arg \<noteq> 0x20" "0 < n" "\<not> uart_output_mode (con k)"
  shows "((w, c) \<in> set commands \<longrightarrow> shell_execute io user (w @ replicate n 0x20 @ arg) k = run_command io user c arg k)
    \<and> (w \<notin> fst ` set commands \<longrightarrow> shell_execute io user (w @ replicate n 0x20 @ arg) k
        = Some (if w = [] then k else on_vga (terminal_write (str ''unknown command: '' @ w @ [0x0A])) k))"
proof -
  define line where "line = w @ replicate n 0x20 @ arg"
  have z: "0 \<notin> set line" using assms(1,3) by (auto simp: line_def)
  then have cl: "cstr line = line" by (rule cstr_id)
  have tw: "takeWhile (\<lambda>c. c \<noteq> 0x20) line = w"
    using assms(2,5) by (cases n) (auto simp: line_def takeWhile_append)
  have "w \<noteq> line" using assms(5) by (simp add: line_def)
  moreover have "skip_spaces (drop (length w + 1) line) = arg"
  proof -
    have "drop (length w + 1) line = replicate (n - 1) 0x20 @ arg" using assms(5) by (cases n) (simp_all add: line_def)
    then show ?thesis using assms(4) by (cases arg) (simp_all add: skip_spaces_def dropWhile_append)
  qed
  ultimately have e: "shell_execute io user line k = (case find_command w commands of
      Some c \<Rightarrow> run_command io user c arg k
    | None \<Rightarrow> if strcmp w (str []) \<noteq> 0 then kprintf io (str ''unknown command: %s'' @ [0x0A]) [Va_str w] k else Some k)"
    unfolding shell_execute_def cl tw Let_def by (simp only: if_False)
  have cw: "cstr w = w" by (rule cstr_id [OF assms(1)])
  have names: "map (\<lambda>(n, c). (cstr n, c)) commands = commands" by (simp add: commands_def str_def cstr_def)
  have dist: "distinct (map fst commands)" by (simp add: commands_def str_def)
  have f: "find_command w commands = map_of commands w" unfolding find_command_map names cw ..
  have "shell_execute io user line k = run_command io user c arg k" if "(w, c) \<in> set commands"
    using e that dist by (simp add: f)
  moreover have "shell_execute io user line k = Some (if w = [] then k else on_vga (terminal_write (str ''unknown command: '' @ w @ [0x0A])) k)"
    if "w \<notin> fst ` set commands"
  proof -
    have "map_of commands w = None" using that by (simp add: map_of_eq_None_iff)
    moreover have "kprintf io (str ''unknown command: %s'' @ [0x0A]) [Va_str w] k = Some (on_vga (terminal_write (str ''unknown command: '' @ w @ [0x0A])) k)"
    proof -
      have "cstr (str ''unknown command: %s'' @ [0x0A]) = str ''unknown command: %s'' @ [0x0A]" by (simp add: str_def cstr_def)
      then show ?thesis using assms(6) cw by (intro kprintf_render) (simp_all, simp add: str_def)
    qed
    moreover have "strcmp w (str []) \<noteq> 0 \<longleftrightarrow> w \<noteq> []" by (simp add: strcmp_eq_0_iff cw) (simp add: str_def cstr_def)
    ultimately show ?thesis using e by (simp add: f)
  qed
  ultimately show ?thesis by (simp add: line_def)
qed

lemma shell_dispatches_witness:
  "shell_execute recorder_unit (\<lambda>_ _ _. None) (str ''cd'' @ [0x20, 0x20] @ str ''d'') dir_shell = cmd_cd recorder_unit (str ''d'') dir_shell"
proof -
  have "0 \<notin> set (str ''cd'')" "0x20 \<notin> set (str ''cd'')" "0 \<notin> set (str ''d'')" "str ''d'' \<noteq> [] \<longrightarrow> hd (str ''d'') \<noteq> 0x20"
    "(str ''cd'', Cd) \<in> set commands"
    by (simp_all add: str_def commands_def)
  moreover have "\<not> uart_output_mode (con dir_shell)" by (simp add: dir_shell_def demo_kernel_def)
  moreover have "replicate 2 (0x20 :: u8) = [0x20, 0x20]" by (simp add: numeral_2_eq_2)
  ultimately show ?thesis
    using shell_dispatches [of "str ''cd''" "str ''d''" 2 dir_shell Cd recorder_unit "\<lambda>_ _ _. None"] by simp
qed

end
