(* ===== verification/Ata.thy ===== *)
theory Ata
  imports Fat16_Disk Io
begin

text \<open>
  The disk driver \<^verbatim>\<open>drivers/ata.c\<close>: 28-bit PIO transfers over the ports of the primary bus.
  The ports are a parameter: how reading and writing a port acts on the hardware. What the
  driver relies on is that the hardware behaves like the task file of \<open>pio\<close>.
\<close>

section \<open>Registers\<close>

definition ATA_DATA :: u16 where "ATA_DATA = 0x1F0"
definition ATA_FEATURES :: u16 where "ATA_FEATURES = 0x1F1"
definition ATA_SECTOR_CNT :: u16 where "ATA_SECTOR_CNT = 0x1F2"
definition ATA_LBA_LO :: u16 where "ATA_LBA_LO = 0x1F3"
definition ATA_LBA_MID :: u16 where "ATA_LBA_MID = 0x1F4"
definition ATA_LBA_HI :: u16 where "ATA_LBA_HI = 0x1F5"
definition ATA_DRIVE_HEAD :: u16 where "ATA_DRIVE_HEAD = 0x1F6"
definition ATA_STATUS :: u16 where "ATA_STATUS = 0x1F7"
definition ATA_COMMAND :: u16 where "ATA_COMMAND = 0x1F7"
definition ATA_ALT_STATUS :: u16 where "ATA_ALT_STATUS = 0x3F6"
definition ATA_SR_BSY :: u8 where "ATA_SR_BSY = 0x80"
definition ATA_SR_DRQ :: u8 where "ATA_SR_DRQ = 0x08"
definition ATA_SR_ERR :: u8 where "ATA_SR_ERR = 0x01"
definition ATA_CMD_READ_PIO :: u8 where "ATA_CMD_READ_PIO = 0x20"
definition ATA_CMD_WRITE_PIO :: u8 where "ATA_CMD_WRITE_PIO = 0x30"

lemmas ata_ports = ATA_DATA_def ATA_FEATURES_def ATA_SECTOR_CNT_def ATA_LBA_LO_def ATA_LBA_MID_def
  ATA_LBA_HI_def ATA_DRIVE_HEAD_def ATA_STATUS_def ATA_COMMAND_def ATA_ALT_STATUS_def ATA_SR_BSY_def
  ATA_SR_DRQ_def ATA_SR_ERR_def ATA_CMD_READ_PIO_def ATA_CMD_WRITE_PIO_def

section \<open>The driver\<close>

record 's ata =
  current_drive :: u8
  bus :: 's

definition ata_delay400ns :: "'s ports \<Rightarrow> 's \<Rightarrow> 's" where
  "ata_delay400ns io s = (((\<lambda>s. snd (inb io ATA_ALT_STATUS s)) ^^ 4) s)"

text \<open>Spinning on a drive that stays busy has the value \<open>None\<close>.\<close>

partial_function (option) ata_wait_bsy :: "'s ports \<Rightarrow> 's \<Rightarrow> 's option" where
  "ata_wait_bsy io s =
     (let (v, s) = inb io ATA_STATUS s in
      if v AND ATA_SR_BSY \<noteq> 0 then ata_wait_bsy io s else Some s)"

text \<open>At most \<open>n\<close> polls; the flag is true for success.\<close>

fun wait_drq_from :: "'s ports \<Rightarrow> nat \<Rightarrow> 's \<Rightarrow> bool \<times> 's" where
  "wait_drq_from io 0 s = (False, s)"
| "wait_drq_from io (Suc n) s =
     (let (v, s) = inb io ATA_STATUS s in
      if v AND ATA_SR_ERR \<noteq> 0 then (False, s)
      else if v AND ATA_SR_DRQ \<noteq> 0 then (True, s)
      else wait_drq_from io n s)"

definition ata_wait_drq :: "'s ports \<Rightarrow> 's \<Rightarrow> bool \<times> 's" where
  "ata_wait_drq io s = wait_drq_from io 1000000 s"

text \<open>The registers written before the data phase of either transfer.\<close>

definition ata_command :: "'s ports \<Rightarrow> u8 \<Rightarrow> u32 \<Rightarrow> u8 \<Rightarrow> 's \<Rightarrow> 's" where
  "ata_command io drv lba cmd s =
     (let s = outb io ATA_DRIVE_HEAD ((if drv = 0 then 0xE0 else 0xF0) OR (ucast (drop_bit 24 lba) AND 0x0F)) s;
          s = outb io ATA_FEATURES 0 s;
          s = outb io ATA_SECTOR_CNT 1 s;
          s = outb io ATA_LBA_LO (ucast lba) s;
          s = outb io ATA_LBA_MID (ucast (drop_bit 8 lba)) s;
          s = outb io ATA_LBA_HI (ucast (drop_bit 16 lba)) s
      in outb io ATA_COMMAND cmd s)"

fun read_words :: "'s ports \<Rightarrow> nat \<Rightarrow> nat \<Rightarrow> sector \<Rightarrow> 's \<Rightarrow> sector \<times> 's" where
  "read_words io i 0 buf s = (buf, s)"
| "read_words io i (Suc n) buf s =
     (let (w, s) = inw io ATA_DATA s in read_words io (i + 1) n (set_le16 (2 * i) w buf) s)"

fun write_words :: "'s ports \<Rightarrow> nat \<Rightarrow> nat \<Rightarrow> sector \<Rightarrow> 's \<Rightarrow> 's" where
  "write_words io i 0 buf s = s"
| "write_words io i (Suc n) buf s = write_words io (i + 1) n buf (outw io ATA_DATA (le16 buf (2 * i)) s)"

definition ata_read_sector :: "'s ports \<Rightarrow> u32 \<Rightarrow> sector \<Rightarrow> 's ata \<Rightarrow> (sector \<times> 's ata) option" where
  "ata_read_sector io lba buf a = do {
     s \<leftarrow> ata_wait_bsy io (bus a);
     let s = ata_delay400ns io (ata_command io (current_drive a) lba ATA_CMD_READ_PIO s);
     let (ok, s) = ata_wait_drq io s;
     if \<not> ok then Some (\<lambda>k. if k < 512 then 0 else buf k, a\<lparr>bus := s\<rparr>)
     else (let (buf, s) = read_words io 0 256 buf s in Some (buf, a\<lparr>bus := s\<rparr>)) }"

definition ata_write_sector :: "'s ports \<Rightarrow> u32 \<Rightarrow> sector \<Rightarrow> 's ata \<Rightarrow> 's ata option" where
  "ata_write_sector io lba buf a = do {
     s \<leftarrow> ata_wait_bsy io (bus a);
     let s = ata_delay400ns io (ata_command io (current_drive a) lba ATA_CMD_WRITE_PIO s);
     let (ok, s) = ata_wait_drq io s;
     if \<not> ok then Some (a\<lparr>bus := s\<rparr>)
     else do {
       s \<leftarrow> ata_wait_bsy io (write_words io 0 256 buf s);
       Some (a\<lparr>bus := s\<rparr>) } }"

text \<open>The message it prints, and the drive it settles on. The buffer is on the stack.\<close>

definition ata_init :: "'s ports \<Rightarrow> sector \<Rightarrow> 's ata \<Rightarrow> (bytes \<times> 's ata) option" where
  "ata_init io stale a = do {
     (buf, a) \<leftarrow> ata_read_sector io 0 stale (a\<lparr>current_drive := 1\<rparr>);
     if buf 510 = 0x55 \<and> buf 511 = 0xAA then Some (str ''[ATA] Disk found on primary slave'' @ [0x0A], a)
     else do {
       (buf, a) \<leftarrow> ata_read_sector io 0 buf (a\<lparr>current_drive := 0\<rparr>);
       if buf 510 = 0x55 \<and> buf 511 = 0xAA then Some (str ''[ATA] Disk found on primary master'' @ [0x0A], a)
       else Some (str ''[ATA] No disk found (checked slave + master)'' @ [0x0A], a) } }"

section \<open>The task file\<close>

text \<open>
  What the driver relies on: the registers of the selected drive, a transfer in progress, and the time, counted in reads of a
  status register, of which each takes at least 100 nanoseconds. For \<open>unsettled\<close> reads after a command
  the status is still the old one, \<open>stale_status\<close>; for \<open>busy\<close> reads it has BSY set and \<open>busy_bits\<close>, whatever they are, besides. Registers written
  and data moved in that time are lost, and \<open>floating\<close> is what the data port then reads. Each of the two drives is a map from sector
  numbers to contents; a sector written is there once BSY has cleared. \<open>latency\<close> is the number of busy reads after a command and after a written
  sector.
\<close>

datatype transfer = Idle | Reading nat | Writing "u16 list" | Storing "u16 list"

record pio =
  regs :: "u16 \<Rightarrow> u8"
  unsettled :: nat
  busy :: nat
  transfer :: transfer
  disks :: "bool \<Rightarrow> u32 \<Rightarrow> sector"
  latency :: nat
  stale_status :: u8
  busy_bits :: u8
  floating :: u16

definition pio_lba :: "pio \<Rightarrow> u32" where
  "pio_lba d = ucast (regs d ATA_LBA_LO) OR push_bit 8 (ucast (regs d ATA_LBA_MID))
     OR push_bit 16 (ucast (regs d ATA_LBA_HI)) OR push_bit 24 (ucast (regs d ATA_DRIVE_HEAD AND 0x0F))"

definition pio_slave :: "pio \<Rightarrow> bool" where
  "pio_slave d \<longleftrightarrow> bit (regs d ATA_DRIVE_HEAD) 4"

definition pio_status :: "pio \<Rightarrow> u8" where
  "pio_status d = (if unsettled d > 0 then stale_status d else if busy d > 0 then ATA_SR_BSY OR busy_bits d
     else if transfer d = Idle then 0x50 else 0x58)"

definition bytes_of_words :: "u16 list \<Rightarrow> sector" where
  "bytes_of_words ws = (\<lambda>k. if k < 2 * length ws
     then ucast (if even k then ws ! (k div 2) else drop_bit 8 (ws ! (k div 2))) else 0)"

text \<open>A sector whose time has come is on the disk.\<close>

definition stored :: "pio \<Rightarrow> pio" where
  "stored d = (case transfer d of
     Storing ws \<Rightarrow> d\<lparr>transfer := Idle,
       disks := (disks d)(pio_slave d := (disks d (pio_slave d))(pio_lba d := bytes_of_words ws))\<rparr>
   | _ \<Rightarrow> d)"

definition tick :: "pio \<Rightarrow> pio" where
  "tick d = (if unsettled d > 0 then d\<lparr>unsettled := unsettled d - 1\<rparr>
     else if busy d > 1 then d\<lparr>busy := busy d - 1\<rparr>
     else if busy d = 1 then stored (d\<lparr>busy := 0\<rparr>) else d)"

definition accepting :: "pio \<Rightarrow> bool" where
  "accepting d \<longleftrightarrow> unsettled d = 0 \<and> busy d = 0"

definition pio_inb :: "u16 \<Rightarrow> pio \<Rightarrow> u8 \<times> pio" where
  "pio_inb p d = (if p = ATA_STATUS \<or> p = ATA_ALT_STATUS then (pio_status d, tick d) else (regs d p, d))"

definition pio_outb :: "u16 \<Rightarrow> u8 \<Rightarrow> pio \<Rightarrow> pio" where
  "pio_outb p v d =
     (if \<not> accepting d then d
      else if p \<noteq> ATA_COMMAND then d\<lparr>regs := (regs d)(p := v)\<rparr>
      else if v = ATA_CMD_READ_PIO then d\<lparr>transfer := Reading 0, unsettled := 4, busy := latency d\<rparr>
      else if v = ATA_CMD_WRITE_PIO then d\<lparr>transfer := Writing [], unsettled := 4, busy := latency d\<rparr>
      else d)"

definition pio_inw :: "u16 \<Rightarrow> pio \<Rightarrow> u16 \<times> pio" where
  "pio_inw p d = (if p \<noteq> ATA_DATA \<or> \<not> accepting d then (floating d, d)
     else case transfer d of
       Reading i \<Rightarrow> (le16 (disks d (pio_slave d) (pio_lba d)) (2 * i),
         d\<lparr>transfer := (if i < 255 then Reading (i + 1) else Idle)\<rparr>)
     | _ \<Rightarrow> (floating d, d))"

definition pio_outw :: "u16 \<Rightarrow> u16 \<Rightarrow> pio \<Rightarrow> pio" where
  "pio_outw p w d = (if p \<noteq> ATA_DATA \<or> \<not> accepting d then d
     else case transfer d of
       Writing ws \<Rightarrow> (if length ws < 255 then d\<lparr>transfer := Writing (ws @ [w])\<rparr>
         else if latency d = 0 then stored (d\<lparr>transfer := Storing (ws @ [w])\<rparr>)
         else d\<lparr>transfer := Storing (ws @ [w]), busy := latency d\<rparr>)
     | _ \<Rightarrow> d)"

text \<open>The hypothesis on the hardware: through \<open>view\<close>, its ports act as those of the task file.\<close>

definition pio_bus :: "'s ports \<Rightarrow> ('s \<Rightarrow> pio) \<Rightarrow> bool" where
  "pio_bus io view \<longleftrightarrow>
     (\<forall>p s. fst (inb io p s) = fst (pio_inb p (view s)) \<and> view (snd (inb io p s)) = snd (pio_inb p (view s)))
     \<and> (\<forall>p v s. view (outb io p v s) = pio_outb p v (view s))
     \<and> (\<forall>p s. fst (inw io p s) = fst (pio_inw p (view s)) \<and> view (snd (inw io p s)) = snd (pio_inw p (view s)))
     \<and> (\<forall>p w s. view (outw io p w s) = pio_outw p w (view s))"

definition pio_ports :: "pio ports" where
  "pio_ports = \<lparr>inb = pio_inb, outb = pio_outb, inw = pio_inw, outw = pio_outw\<rparr>"

lemma pio_ports_bus: "pio_bus pio_ports id"
  by (simp add: pio_bus_def pio_ports_def)

section \<open>Transfers\<close>

lemma bus_in: "pio_bus io view \<Longrightarrow> \<exists>s'. inb io p s = (fst (pio_inb p (view s)), s') \<and> view s' = snd (pio_inb p (view s))"
  by (simp add: pio_bus_def prod_eq_iff)

lemma bus_inw: "pio_bus io view \<Longrightarrow> \<exists>s'. inw io p s = (fst (pio_inw p (view s)), s') \<and> view s' = snd (pio_inw p (view s))"
  by (simp add: pio_bus_def prod_eq_iff)

lemma bus_out: "pio_bus io view \<Longrightarrow> view (outb io p v s) = pio_outb p v (view s)"
  "pio_bus io view \<Longrightarrow> view (outw io p w s) = pio_outw p w (view s)"
  by (simp_all add: pio_bus_def)

lemma poll:
  assumes "pio_bus io view"
  obtains s' where "inb io ATA_STATUS s = (pio_status (view s), s')" "view s' = tick (view s)"
  using bus_in [OF assms, of ATA_STATUS s] by (auto simp: pio_inb_def)

text \<open>The drive once it is no longer busy.\<close>

definition finished :: "pio \<Rightarrow> pio" where
  "finished d = (if busy d = 0 then d else stored (d\<lparr>busy := 0\<rparr>))"

lemma finished_parts:
  "unsettled d = 0 \<Longrightarrow> accepting (finished d)" "regs (finished d) = regs d" "latency (finished d) = latency d"
  "stale_status (finished d) = stale_status d" "busy_bits (finished d) = busy_bits d" "floating (finished d) = floating d"
  by (simp_all add: finished_def stored_def accepting_def split: transfer.split)

lemma finished_quiet: "(\<And>ws. transfer d \<noteq> Storing ws) \<Longrightarrow> finished d = d\<lparr>busy := 0\<rparr>"
  by (cases "transfer d") (auto simp: finished_def stored_def)

lemma tick_busy:
  assumes "unsettled d = 0" "busy d > 0"
  shows "finished (tick d) = finished d" "busy (tick d) = busy d - 1" "unsettled (tick d) = 0"
    "busy d \<noteq> 1 \<Longrightarrow> transfer (tick d) = transfer d" "busy_bits (tick d) = busy_bits d"
    "(\<And>ws. transfer d \<noteq> Storing ws) \<Longrightarrow> transfer (tick d) = transfer d"
  using assms by (auto simp: tick_def finished_def stored_def split: transfer.split)

lemma wait_bsy:
  assumes "pio_bus io view"
  shows "unsettled (view s) = 0 \<Longrightarrow> \<exists>s'. ata_wait_bsy io s = Some s' \<and> view s' = finished (view s)"
proof (induction "busy (view s)" arbitrary: s)
  case 0
  obtain s' where s': "inb io ATA_STATUS s = (pio_status (view s), s')" "view s' = tick (view s)"
    by (rule poll [OF assms])
  have "pio_status (view s) AND ATA_SR_BSY = 0" using 0 by (simp add: pio_status_def ATA_SR_BSY_def)
  moreover have "tick (view s) = view s" "finished (view s) = view s" using 0 by (simp_all add: tick_def finished_def)
  ultimately show ?case using s' by (subst ata_wait_bsy.simps) simp
next
  case (Suc n)
  obtain s' where s': "inb io ATA_STATUS s = (pio_status (view s), s')" "view s' = tick (view s)"
    by (rule poll [OF assms])
  have b: "0 < busy (view s)" using Suc(2) by simp
  note t = tick_busy [OF Suc.prems b]
  have "n = busy (view s')" "unsettled (view s') = 0" using Suc(2) s'(2) t by simp_all
  from Suc(1) [OF this] obtain s'' where "ata_wait_bsy io s' = Some s''" "view s'' = finished (view s)"
    using s'(2) t(1) by auto
  moreover have "pio_status (view s) AND ATA_SR_BSY \<noteq> 0" using b Suc.prems
    by (simp add: pio_status_def ATA_SR_BSY_def bit.conj_disj_distrib2)
  ultimately show ?case using s' by (subst ata_wait_bsy.simps) simp
qed

text \<open>Neither DRQ nor ERR shows while the drive is busy.\<close>

definition quiet :: "pio \<Rightarrow> bool" where
  "quiet d \<longleftrightarrow> busy_bits d AND ATA_SR_ERR = 0 \<and> busy_bits d AND ATA_SR_DRQ = 0"

lemma wait_drq:
  assumes "pio_bus io view"
  shows "transfer (view s) = Reading i \<or> transfer (view s) = Writing ws \<Longrightarrow> unsettled (view s) = 0 \<Longrightarrow> quiet (view s) \<Longrightarrow>
    busy (view s) < n \<Longrightarrow> \<exists>s'. wait_drq_from io n s = (True, s') \<and> view s' = (view s)\<lparr>busy := 0\<rparr>"
proof (induction n arbitrary: s)
  case (Suc n)
  obtain s' where s': "inb io ATA_STATUS s = (pio_status (view s), s')" "view s' = tick (view s)"
    by (rule poll [OF assms])
  have ns: "transfer (view s) \<noteq> Storing xs" for xs using Suc.prems(1) by auto
  show ?case
  proof (cases "busy (view s) = 0")
    case True
    then have "tick (view s) = (view s)\<lparr>busy := 0\<rparr>" using Suc.prems(2) by (simp add: tick_def)
    then show ?thesis using s' Suc.prems True by (auto simp: pio_status_def ATA_SR_ERR_def ATA_SR_DRQ_def)
  next
    case False
    then have b: "0 < busy (view s)" by simp
    note t = tick_busy [OF Suc.prems(2) b]
    have v: "(tick (view s))\<lparr>busy := 0\<rparr> = (view s)\<lparr>busy := 0\<rparr>"
      using ns Suc.prems(2) by (auto simp: tick_def stored_def split: transfer.split)
    have "\<exists>s''. wait_drq_from io n s' = (True, s'') \<and> view s'' = (view s')\<lparr>busy := 0\<rparr>"
      using Suc.prems s'(2) t(2,3,5) t(6) [OF ns] b by (intro Suc.IH) (auto simp: quiet_def)
    moreover have "pio_status (view s) AND ATA_SR_ERR = 0" "pio_status (view s) AND ATA_SR_DRQ = 0"
      using b Suc.prems(2,3) by (simp_all add: pio_status_def quiet_def bit.conj_disj_distrib2 ATA_SR_BSY_def ATA_SR_ERR_def ATA_SR_DRQ_def)
    ultimately show ?thesis using s' v by simp
  qed
qed simp

lemma delay_view:
  assumes "pio_bus io view" "unsettled (view s) = 4"
  shows "view (ata_delay400ns io s) = (view s)\<lparr>unsettled := 0\<rparr>"
proof -
  have "view (snd (inb io ATA_ALT_STATUS t)) = tick (view t)" for t
    using bus_in [OF assms(1), of ATA_ALT_STATUS t] by (auto simp: pio_inb_def ata_ports)
  then show ?thesis using assms(2) by (simp add: ata_delay400ns_def tick_def numeral_eq_Suc)
qed

text \<open>The command registers as the driver leaves them.\<close>

definition commanded :: "u8 \<Rightarrow> u32 \<Rightarrow> pio \<Rightarrow> u16 \<Rightarrow> u8" where
  "commanded drv lba d = (regs d)(ATA_DRIVE_HEAD := (if drv = 0 then 0xE0 else 0xF0) OR (ucast (drop_bit 24 lba) AND 0x0F),
     ATA_FEATURES := 0, ATA_SECTOR_CNT := 1, ATA_LBA_LO := ucast lba, ATA_LBA_MID := ucast (drop_bit 8 lba),
     ATA_LBA_HI := ucast (drop_bit 16 lba))"

lemma command_view:
  assumes "pio_bus io view" "accepting (view s)"
    "cmd = ATA_CMD_READ_PIO \<and> tr = Reading 0 \<or> cmd = ATA_CMD_WRITE_PIO \<and> tr = Writing []"
  shows "view (ata_command io drv lba cmd s) =
    (view s)\<lparr>regs := commanded drv lba (view s), transfer := tr, unsettled := 4, busy := latency (view s)\<rparr>"
  using assms(2,3)
  by (auto simp: ata_command_def Let_def bus_out [OF assms(1)] commanded_def)
    (simp_all add: pio_outb_def accepting_def ata_ports)

lemma commanded_lba:
  assumes "regs d = commanded drv lba d'"
  shows "pio_lba d = lba28 lba" "pio_slave d \<longleftrightarrow> drv \<noteq> 0"
proof -
  have m: "0x0FFFFFFF = (mask 28 :: u32)" "0x0F = (mask 4 :: u8)" by (simp_all add: mask_eq_exp_minus_1)
  have c: "(if drv = 0 then 0xE0 else 0xF0 :: u8) AND 0x0F = 0" by simp
  have h: "((if drv = 0 then 0xE0 else 0xF0 :: u8) OR (x AND 0x0F)) AND 0x0F = x AND 0x0F" for x
    by (simp add: bit.conj_disj_distrib2 and.assoc)
  show "pio_lba d = lba28 lba"
    unfolding pio_lba_def assms commanded_def lba28_def
    by (simp add: ata_ports h) (rule bit_word_eqI, auto simp: m bit_simps)
  show "pio_slave d \<longleftrightarrow> drv \<noteq> 0"
    unfolding pio_slave_def assms commanded_def by (simp add: ata_ports bit_simps m)
qed

lemma word_bytes_16: "(ucast (le16 b i) :: u8) = b i" "(ucast (drop_bit 8 (le16 b i)) :: u8) = b (i + 1)"
  unfolding le16_def by (rule bit_word_eqI, auto simp: bit_simps dest: bit_imp_le_length)+

lemma set_le16_byte: "set_le16 i v b k = (if k = i then ucast v else if k = i + 1 then ucast (drop_bit 8 v) else b k)"
  by (simp add: set_le16_def)

lemma read_words_view:
  assumes "pio_bus io view"
  shows "i + Suc n = 256 \<Longrightarrow> transfer (view s) = Reading i \<Longrightarrow> accepting (view s) \<Longrightarrow> pio_lba (view s) = l \<Longrightarrow> pio_slave (view s) = b \<Longrightarrow>
    \<exists>buf' s'. read_words io i (Suc n) buf s = (buf', s') \<and> view s' = (view s)\<lparr>transfer := Idle\<rparr>
      \<and> (\<forall>k. buf' k = (if 2 * i \<le> k \<and> k < 512 then disks (view s) b l k else buf k))"
proof (induction n arbitrary: i s buf)
  case 0
  obtain s' where s': "inw io ATA_DATA s = (fst (pio_inw ATA_DATA (view s)), s')" "view s' = snd (pio_inw ATA_DATA (view s))"
    using bus_inw [OF assms] by blast
  have i: "i = 255" using 0 by simp
  show ?case using s' 0 by (auto simp: pio_inw_def accepting_def i word_bytes_16 set_le16_byte)
next
  case (Suc n)
  obtain s' where s': "inw io ATA_DATA s = (fst (pio_inw ATA_DATA (view s)), s')" "view s' = snd (pio_inw ATA_DATA (view s))"
    using bus_inw [OF assms] by blast
  have v: "view s' = (view s)\<lparr>transfer := Reading (i + 1)\<rparr>" using s'(2) Suc.prems by (simp add: pio_inw_def accepting_def)
  have w: "fst (pio_inw ATA_DATA (view s)) = le16 (disks (view s) b l) (2 * i)" using Suc.prems by (simp add: pio_inw_def accepting_def)
  have "\<exists>buf' s''. read_words io (i + 1) (Suc n) (set_le16 (2 * i) (le16 (disks (view s) b l) (2 * i)) buf) s' = (buf', s'')
      \<and> view s'' = (view s')\<lparr>transfer := Idle\<rparr> \<and> (\<forall>k. buf' k = (if 2 * (i + 1) \<le> k \<and> k < 512 then disks (view s') b l k
        else set_le16 (2 * i) (le16 (disks (view s) b l) (2 * i)) buf k))"
    using Suc.prems v by (intro Suc.IH) (simp_all add: pio_lba_def pio_slave_def accepting_def)
  then obtain buf' s'' where r: "read_words io (i + 1) (Suc n) (set_le16 (2 * i) (le16 (disks (view s) b l) (2 * i)) buf) s' = (buf', s'')"
    "view s'' = (view s')\<lparr>transfer := Idle\<rparr>" "\<And>k. buf' k = (if 2 * (i + 1) \<le> k \<and> k < 512 then disks (view s') b l k
        else set_le16 (2 * i) (le16 (disks (view s) b l) (2 * i)) buf k)" by blast
  have "buf' k = (if 2 * i \<le> k \<and> k < 512 then disks (view s) b l k else buf k)" for k
    using r(3) [of k] v Suc.prems(1) by (auto simp: set_le16_byte word_bytes_16)
  then show ?case using r(1,2) s'(1) w v by (subst read_words.simps) simp
qed

lemma write_words_view:
  assumes "pio_bus io view"
  shows "i + Suc n = 256 \<Longrightarrow> transfer (view s) = Writing (map (\<lambda>j. le16 buf (2 * j)) [0..<i]) \<Longrightarrow> accepting (view s) \<Longrightarrow>
    finished (view (write_words io i (Suc n) buf s)) = (view s)\<lparr>transfer := Idle,
      disks := (disks (view s))(pio_slave (view s) := (disks (view s) (pio_slave (view s)))
        (pio_lba (view s) := bytes_of_words (map (\<lambda>j. le16 buf (2 * j)) [0..<256])))\<rparr>
    \<and> unsettled (view (write_words io i (Suc n) buf s)) = 0"
proof (induction n arbitrary: i s)
  case 0
  have i: "[0..<256] = [0..<255] @ [255]" using upt_Suc_append [of 0 255] by simp
  show ?case using 0
    by (auto simp: bus_out [OF assms] pio_outw_def i finished_def stored_def accepting_def pio_slave_def pio_lba_def fun_upd_def
      intro!: pio.equality)
next
  case (Suc n)
  have v: "view (outw io ATA_DATA (le16 buf (2 * i)) s) = (view s)\<lparr>transfer := Writing (map (\<lambda>j. le16 buf (2 * j)) [0..<i + 1])\<rparr>"
    using Suc.prems by (simp add: bus_out [OF assms] pio_outw_def)
  define s1 where "s1 = outw io ATA_DATA (le16 buf (2 * i)) s"
  have "finished (view (write_words io (i + 1) (Suc n) buf s1)) = (view s1)\<lparr>transfer := Idle,
      disks := (disks (view s1))(pio_slave (view s1) := (disks (view s1) (pio_slave (view s1)))
        (pio_lba (view s1) := bytes_of_words (map (\<lambda>j. le16 buf (2 * j)) [0..<256])))\<rparr>
    \<and> unsettled (view (write_words io (i + 1) (Suc n) buf s1)) = 0"
    using Suc.prems v unfolding s1_def [symmetric] by (intro Suc.IH) (simp_all add: accepting_def)
  then show ?case using v unfolding s1_def [symmetric] write_words.simps(2) [of io i "Suc n"]
    by (simp add: s1_def [symmetric] pio_lba_def pio_slave_def) (simp add: fun_upd_def)
qed

lemma bytes_of_words_sector: "bytes_of_words (map (\<lambda>j. le16 buf (2 * j)) [0..<256]) k = (if k < 512 then buf k else 0)"
proof -
  have "2 * (k div 2) + 1 = k" if "odd k" using that by simp
  then show ?thesis by (auto simp: bytes_of_words_def word_bytes_16 simp del: One_nat_def elim: evenE)
qed

text \<open>A drive that is not in the middle of a transfer, answers within the polls the driver makes, and is quiet.\<close>

definition ready :: "pio \<Rightarrow> bool" where
  "ready d \<longleftrightarrow> transfer d = Idle \<and> unsettled d = 0 \<and> latency d < 1000000 \<and> quiet d"

text \<open>Up to the wait for data both transfers are alike.\<close>

lemma command_phase:
  assumes "pio_bus io view" "ready (view s)"
    "cmd = ATA_CMD_READ_PIO \<and> tr = Reading 0 \<or> cmd = ATA_CMD_WRITE_PIO \<and> tr = Writing []"
  obtains s1 s3 where "ata_wait_bsy io s = Some s1"
    "ata_wait_drq io (ata_delay400ns io (ata_command io drv lba cmd s1)) = (True, s3)"
    "view s3 = (view s)\<lparr>regs := commanded drv lba (view s), transfer := tr, busy := 0\<rparr>" "accepting (view s3)"
proof -
  have r: "transfer (view s) = Idle" "unsettled (view s) = 0" "latency (view s) < 1000000" "quiet (view s)"
    using assms(2) by (simp_all add: ready_def)
  obtain s1 where s1: "ata_wait_bsy io s = Some s1" "view s1 = (view s)\<lparr>busy := 0\<rparr>"
    using wait_bsy [OF assms(1) r(2)] finished_quiet [of "view s"] r(1) by auto
  define s2 where "s2 = ata_delay400ns io (ata_command io drv lba cmd s1)"
  have a: "accepting (view s1)" using s1(2) r(2) by (simp add: accepting_def)
  have "view (ata_command io drv lba cmd s1) =
      (view s)\<lparr>regs := commanded drv lba (view s), transfer := tr, unsettled := 4, busy := latency (view s)\<rparr>"
    using command_view [OF assms(1) a assms(3), of drv lba] s1(2) by (simp add: commanded_def)
  then have s2: "view s2 = (view s)\<lparr>regs := commanded drv lba (view s), transfer := tr, unsettled := 0, busy := latency (view s)\<rparr>"
    using delay_view [OF assms(1), of "ata_command io drv lba cmd s1"] by (simp add: s2_def)
  obtain s3 where s3: "ata_wait_drq io s2 = (True, s3)" "view s3 = (view s2)\<lparr>busy := 0\<rparr>"
    using wait_drq [OF assms(1), of s2 0 "[]" 1000000] s2 r(3,4) assms(3) by (auto simp: ata_wait_drq_def quiet_def)
  have "view s3 = (view s)\<lparr>regs := commanded drv lba (view s), transfer := tr, busy := 0\<rparr>" using s3(2) s2 r(2) by simp
  then show ?thesis using s1(1) s3(1) r(2) by (intro that [of s1 s3]) (simp_all add: s2_def accepting_def)
qed

lemma read_sector_view:
  assumes "pio_bus io view" "ready (view (bus a))"
  obtains buf' a' where "ata_read_sector io lba buf a = Some (buf', a')" "current_drive a' = current_drive a"
    "ready (view (bus a'))" "disks (view (bus a')) = disks (view (bus a))"
    "\<And>k. buf' k = (if k < 512 then disks (view (bus a)) (current_drive a \<noteq> 0) (lba28 lba) k else buf k)"
proof (rule command_phase [OF assms, of ATA_CMD_READ_PIO "Reading 0" "current_drive a" lba])
  fix s1 s3
  assume s: "ata_wait_bsy io (bus a) = Some s1"
      "ata_wait_drq io (ata_delay400ns io (ata_command io (current_drive a) lba ATA_CMD_READ_PIO s1)) = (True, s3)"
      "view s3 = (view (bus a))\<lparr>regs := commanded (current_drive a) lba (view (bus a)), transfer := Reading 0, busy := 0\<rparr>"
      "accepting (view s3)"
  have r: "regs (view s3) = commanded (current_drive a) lba (view (bus a))" using s(3) by simp
  obtain buf' s4 where s4: "read_words io 0 256 buf s3 = (buf', s4)" "view s4 = (view s3)\<lparr>transfer := Idle\<rparr>"
    "\<And>k. buf' k = (if k < 512 then disks (view s3) (current_drive a \<noteq> 0) (lba28 lba) k else buf k)"
    using read_words_view [OF assms(1), of 0 255 s3 "lba28 lba" "current_drive a \<noteq> 0" buf] commanded_lba [OF r] s(3,4)
    by auto
  show ?thesis
  proof (rule that [of buf' "a\<lparr>bus := s4\<rparr>"])
    show "ata_read_sector io lba buf a = Some (buf', a\<lparr>bus := s4\<rparr>)"
      using s(1,2) s4(1) by (simp add: ata_read_sector_def)
  qed (use s(3) s4 assms(2) in \<open>simp_all add: ready_def quiet_def\<close>)
qed simp

lemma write_sector_view:
  assumes "pio_bus io view" "ready (view (bus a))"
  obtains a' where "ata_write_sector io lba buf a = Some a'" "current_drive a' = current_drive a"
    "ready (view (bus a'))" "busy (view (bus a')) = 0"
    "\<And>b l k. disks (view (bus a')) b l k = (if b = (current_drive a \<noteq> 0) \<and> l = lba28 lba
       then if k < 512 then buf k else 0 else disks (view (bus a)) b l k)"
proof (rule command_phase [OF assms, of ATA_CMD_WRITE_PIO "Writing []" "current_drive a" lba])
  fix s1 s3
  assume s: "ata_wait_bsy io (bus a) = Some s1"
      "ata_wait_drq io (ata_delay400ns io (ata_command io (current_drive a) lba ATA_CMD_WRITE_PIO s1)) = (True, s3)"
      "view s3 = (view (bus a))\<lparr>regs := commanded (current_drive a) lba (view (bus a)), transfer := Writing [], busy := 0\<rparr>"
      "accepting (view s3)"
  have r: "regs (view s3) = commanded (current_drive a) lba (view (bus a))" using s(3) by simp
  have w: "finished (view (write_words io 0 256 buf s3)) = (view s3)\<lparr>transfer := Idle,
      disks := (disks (view s3))(pio_slave (view s3) := (disks (view s3) (pio_slave (view s3)))
        (pio_lba (view s3) := bytes_of_words (map (\<lambda>j. le16 buf (2 * j)) [0..<256])))\<rparr>"
      "unsettled (view (write_words io 0 256 buf s3)) = 0"
    using write_words_view [OF assms(1), of 0 255 s3 buf] s(3,4) by auto
  obtain s4 where s4: "ata_wait_bsy io (write_words io 0 256 buf s3) = Some s4"
    "view s4 = finished (view (write_words io 0 256 buf s3))" using wait_bsy [OF assms(1) w(2)] by blast
  show ?thesis
  proof (rule that [of "a\<lparr>bus := s4\<rparr>"])
    show "ata_write_sector io lba buf a = Some (a\<lparr>bus := s4\<rparr>)"
      using s(1,2) s4(1) by (simp add: ata_write_sector_def)
  qed (use s(3,4) s4(2) w assms(2) commanded_lba [OF r] in \<open>auto simp: ready_def quiet_def bytes_of_words_sector\<close>)
qed simp

section \<open>Properties\<close>

text \<open>The volume the file system sees is what the selected drive holds.\<close>

definition serves :: "('s \<Rightarrow> pio) \<Rightarrow> 's ata \<Rightarrow> fat \<Rightarrow> bool" where
  "serves view a st \<longleftrightarrow> ready (view (bus a))
     \<and> (\<forall>l. \<forall>k < 512. disks (view (bus a)) (current_drive a \<noteq> 0) l k = drive st l k)"

text \<open>
  C24. On a drive that behaves like the task file, answers within a million polls and shows neither DRQ nor ERR while it is busy, the driver's two
  transfers return and implement the sector operations the file system is built on, for every
  sector number: a read fills the buffer with the sector and leaves the
  disk alone, a write stores the buffer and changes no other sector. The drive may be busy at first, and what is sent to it or
  read from it before its status has settled and BSY has cleared is lost, so each of the driver's waits is needed.
\<close>

theorem ata_implements_sectors:
  assumes "pio_bus io view" "serves view a st"
  shows "(\<exists>buf' a'. ata_read_sector io lba buf a = Some (buf', a') \<and> serves view a' st
      \<and> (\<forall>k. buf' k = (if k < 512 then read_sector lba st k else buf k)))
    \<and> (\<exists>a'. ata_write_sector io lba buf a = Some a' \<and> serves view a' (write_sector lba buf st))"
proof
  have r: "ready (view (bus a))" and d: "\<forall>l. \<forall>k < 512. disks (view (bus a)) (current_drive a \<noteq> 0) l k = drive st l k"
    using assms(2) by (simp_all add: serves_def)
  show "\<exists>buf' a'. ata_read_sector io lba buf a = Some (buf', a') \<and> serves view a' st
      \<and> (\<forall>k. buf' k = (if k < 512 then read_sector lba st k else buf k))"
    by (rule read_sector_view [OF assms(1) r, of lba buf]) (use d in \<open>auto simp: serves_def read_sector_def\<close>)
  show "\<exists>a'. ata_write_sector io lba buf a = Some a' \<and> serves view a' (write_sector lba buf st)"
    by (rule write_sector_view [OF assms(1) r, of lba buf]) (use d in \<open>auto simp: serves_def write_sector_def\<close>)
qed

definition demo_pio :: pio where
  "demo_pio = \<lparr>regs = (\<lambda>_. 0), unsettled = 0, busy = 3, transfer = Idle,
     disks = (\<lambda>b l k. if b \<and> l = 0 then (if k = 510 then 0x55 else if k = 511 then 0xAA else 1) else 0), latency = 2,
     stale_status = 0x58, busy_bits = 0x40, floating = 0xFFFF\<rparr>"

definition demo_ata_disk :: fat where
  "demo_ata_disk = \<lparr>drive = disks demo_pio True, bpb = bpb_of (\<lambda>_. 0), fat_lba = 0, root_dir_lba = 0,
     root_dir_sectors = 0, data_lba = 0, mounted = False\<rparr>"

lemma ata_implements_sectors_witness:
  "\<exists>buf' a'. ata_read_sector pio_ports 0 (\<lambda>_. 7) \<lparr>current_drive = 1, bus = demo_pio\<rparr> = Some (buf', a') \<and> buf' 510 = 0x55"
proof -
  have "serves id \<lparr>current_drive = 1, bus = demo_pio\<rparr> demo_ata_disk"
    by (simp add: serves_def demo_ata_disk_def ready_def quiet_def ATA_SR_ERR_def ATA_SR_DRQ_def) (simp add: demo_pio_def)
  from ata_implements_sectors [OF pio_ports_bus this, of 0 "\<lambda>_. 7"] show ?thesis
    by (auto simp: read_sector_def demo_ata_disk_def lba28_def) (auto simp: demo_pio_def)
qed

text \<open>
  \<open>ata_init\<close> selects the slave if its first sector carries the boot signature and the master
  otherwise, with or without a signature there, and changes neither disk.
\<close>

theorem ata_init_selects:
  assumes "pio_bus io view" "ready (view (bus a))"
  shows "\<exists>msg a'. ata_init io stale a = Some (msg, a') \<and> ready (view (bus a')) \<and> disks (view (bus a')) = disks (view (bus a))
    \<and> current_drive a' = (if disks (view (bus a)) True 0 510 = 0x55 \<and> disks (view (bus a)) True 0 511 = 0xAA then 1 else 0)"
proof -
  have z: "lba28 0 = 0" by (simp add: lba28_def)
  have r1: "ready (view (bus (a\<lparr>current_drive := 1\<rparr>)))" using assms(2) by simp
  obtain buf a1 where a1: "ata_read_sector io 0 stale (a\<lparr>current_drive := 1\<rparr>) = Some (buf, a1)" "current_drive a1 = 1"
    "ready (view (bus a1))" "disks (view (bus a1)) = disks (view (bus a))"
    "\<And>k. buf k = (if k < 512 then disks (view (bus a)) True 0 k else stale k)"
    by (rule read_sector_view [OF assms(1) r1, of 0 stale]) (auto simp: z)
  have r2: "ready (view (bus (a1\<lparr>current_drive := 0\<rparr>)))" using a1(3) by simp
  obtain buf2 a2 where a2: "ata_read_sector io 0 buf (a1\<lparr>current_drive := 0\<rparr>) = Some (buf2, a2)" "current_drive a2 = 0"
    "ready (view (bus a2))" "disks (view (bus a2)) = disks (view (bus a))"
    by (rule read_sector_view [OF assms(1) r2, of 0 buf]) (auto simp: a1(4))
  show ?thesis using a1 a2 by (simp add: ata_init_def)
qed

lemma ata_init_selects_witness:
  "\<exists>msg a'. ata_init pio_ports (\<lambda>_. 0) \<lparr>current_drive = 0, bus = demo_pio\<rparr> = Some (msg, a') \<and> current_drive a' = 1"
proof -
  have "ready (id (bus \<lparr>current_drive = 0, bus = demo_pio\<rparr>))" by (simp add: ready_def quiet_def ATA_SR_ERR_def ATA_SR_DRQ_def) (simp add: demo_pio_def)
  from ata_init_selects [OF pio_ports_bus this, of "\<lambda>_. 0"] show ?thesis by (simp add: demo_pio_def) blast
qed

text \<open>
  That a busy drive shows no DRQ is needed: one that does is taken for ready at the first look, and what \<open>ata_read_sector\<close> then returns
  is what floats on the data port.
\<close>

theorem ata_busy_drq_misread:
  assumes "pio_bus io view" "transfer (view (bus a)) = Idle" "unsettled (view (bus a)) = 0" "2 \<le> latency (view (bus a))"
    "busy_bits (view (bus a)) AND ATA_SR_ERR = 0" "busy_bits (view (bus a)) AND ATA_SR_DRQ \<noteq> 0"
  shows "\<exists>buf' a'. ata_read_sector io lba buf a = Some (buf', a')
    \<and> (\<forall>k < 512. buf' k = ucast (if even k then floating (view (bus a)) else drop_bit 8 (floating (view (bus a)))))"
proof -
  obtain s1 where s1: "ata_wait_bsy io (bus a) = Some s1" "view s1 = (view (bus a))\<lparr>busy := 0\<rparr>"
    using wait_bsy [OF assms(1,3)] finished_quiet [of "view (bus a)"] assms(2) by auto
  define s2 where "s2 = ata_delay400ns io (ata_command io (current_drive a) lba ATA_CMD_READ_PIO s1)"
  have "accepting (view s1)" using s1(2) assms(3) by (simp add: accepting_def)
  note c = command_view [OF assms(1) this, of ATA_CMD_READ_PIO "Reading 0" "current_drive a" lba]
  have s2: "transfer (view s2) = Reading 0" "unsettled (view s2) = 0" "busy (view s2) = latency (view (bus a))"
    "busy_bits (view s2) = busy_bits (view (bus a))" "floating (view s2) = floating (view (bus a))"
    using delay_view [OF assms(1), of "ata_command io (current_drive a) lba ATA_CMD_READ_PIO s1"] c s1(2)
    by (simp_all add: s2_def)
  obtain s3 where s3: "inb io ATA_STATUS s2 = (pio_status (view s2), s3)" "view s3 = tick (view s2)" by (rule poll [OF assms(1)])
  have st: "pio_status (view s2) AND ATA_SR_ERR = 0" "pio_status (view s2) AND ATA_SR_DRQ \<noteq> 0"
    using s2 assms(4-6) by (simp_all add: pio_status_def bit.conj_disj_distrib2 ATA_SR_BSY_def ATA_SR_ERR_def ATA_SR_DRQ_def)
  have "wait_drq_from io (Suc 999999) s2 = (True, s3)" using s3(1) st by (simp only: wait_drq_from.simps) simp
  then have wd: "ata_wait_drq io s2 = (True, s3)" by (simp add: ata_wait_drq_def)
  have b3: "busy (view s3) > 0" "floating (view s3) = floating (view (bus a))" using s3(2) s2 assms(4) by (simp_all add: tick_def)
  obtain buf' s4 where s4: "read_words io 0 256 buf s3 = (buf', s4)" by fastforce
  have "read_words io i n buf s = (buf', s') \<Longrightarrow> view s = view s3 \<Longrightarrow> i + n = 256 \<Longrightarrow>
      (\<forall>k. 2 * i \<le> k \<longrightarrow> k < 512 \<longrightarrow> buf' k = ucast (if even k then floating (view s3) else drop_bit 8 (floating (view s3))))
      \<and> (\<forall>k < 2 * i. buf' k = buf k)" for i n buf s s' buf'
  proof (induction n arbitrary: i buf s)
    case (Suc n)
    obtain t where t: "inw io ATA_DATA s = (floating (view s3), t)" "view t = view s3"
      using bus_inw [OF assms(1), of ATA_DATA s] b3(1) Suc.prems(2) by (auto simp: pio_inw_def accepting_def)
    have "read_words io (i + 1) n (set_le16 (2 * i) (floating (view s3)) buf) t = (buf', s')" using Suc.prems(1) t(1) by simp
    from Suc.IH [OF this t(2)] Suc.prems(3)
    have ih: "\<And>k. 2 * (i + 1) \<le> k \<Longrightarrow> k < 512 \<Longrightarrow> buf' k = ucast (if even k then floating (view s3) else drop_bit 8 (floating (view s3)))"
      "\<And>k. k < 2 * (i + 1) \<Longrightarrow> buf' k = set_le16 (2 * i) (floating (view s3)) buf k" by auto
    show ?case
    proof (intro conjI allI impI)
      fix k assume k: "2 * i \<le> k" "k < 512"
      then have "k = 2 * i \<or> k = 2 * i + 1 \<or> 2 * (i + 1) \<le> k" by presburger
      then consider "k = 2 * i" | "k = 2 * i + 1" | "2 * (i + 1) \<le> k" by blast
      then show "buf' k = ucast (if even k then floating (view s3) else drop_bit 8 (floating (view s3)))"
        by cases (use ih k in \<open>simp_all add: set_le16_byte\<close>)
    qed (use ih(2) in \<open>simp add: set_le16_byte\<close>)
  qed auto
  from this [OF s4 refl] have "\<forall>k < 512. buf' k = ucast (if even k then floating (view s3) else drop_bit 8 (floating (view s3)))" by simp
  then show ?thesis using s1(1) wd s4 b3(2) by (simp add: ata_read_sector_def s2_def [symmetric])
qed

lemma ata_busy_drq_misread_witness:
  "\<exists>buf' a'. ata_read_sector pio_ports 0 (\<lambda>_. 7) \<lparr>current_drive = 1, bus = demo_pio\<lparr>busy_bits := 0x08\<rparr>\<rparr> = Some (buf', a') \<and> buf' 510 = 0xFF"
proof -
  have d: "transfer demo_pio = Idle" "unsettled demo_pio = 0" "latency demo_pio = 2" "floating demo_pio = 0xFFFF" by (simp_all add: demo_pio_def)
  obtain buf' a' where r: "ata_read_sector pio_ports 0 (\<lambda>_. 7) \<lparr>current_drive = 1, bus = demo_pio\<lparr>busy_bits := 0x08\<rparr>\<rparr> = Some (buf', a')"
    "\<forall>k < 512. buf' k = ucast (if even k then 0xFFFF else drop_bit 8 (0xFFFF :: u16))"
    using ata_busy_drq_misread [OF pio_ports_bus, of "\<lparr>current_drive = 1, bus = demo_pio\<lparr>busy_bits := 0x08\<rparr>\<rparr>" 0 "\<lambda>_. 7"]
    by (auto simp: d ATA_SR_ERR_def ATA_SR_DRQ_def)
  have "buf' 510 = 0xFF" using r(2) [rule_format, of 510] by simp
  then show ?thesis using r(1) by blast
qed

lemma wait_bsy_floating:
  assumes "ata_wait_bsy io s = Some s'"
  shows "\<not> (\<forall>t. fst (inb io ATA_STATUS t) = 0xFF)"
proof (rule ata_wait_bsy.raw_induct [OF _ assms, where P = "\<lambda>io _ _. \<not> (\<forall>t. fst (inb io ATA_STATUS t) = 0xFF)"])
  fix g and io :: "'b ports" and t y
  assume IH: "\<And>i u z. g i u = Some z \<Longrightarrow> \<not> (\<forall>t. fst (inb i ATA_STATUS t) = (0xFF :: u8))"
    and eq: "(let (v, s) = inb io ATA_STATUS t in if v AND ATA_SR_BSY \<noteq> 0 then g io s else Some s) = Some y"
  show "\<not> (\<forall>t. fst (inb io ATA_STATUS t) = 0xFF)"
  proof
    assume f: "\<forall>t. fst (inb io ATA_STATUS t) = 0xFF"
    then obtain u where "inb io ATA_STATUS t = (0xFF, u)" by (metis prod.collapse)
    then have "g io u = Some y" using eq by (simp add: ATA_SR_BSY_def)
    then show False using IH f by blast
  qed
qed

text \<open>
  Where no controller drives the bus and every port reads 0xFF, the wait for BSY never ends: neither a
  transfer nor \<open>ata_init\<close> returns.
\<close>

theorem ata_floating_bus_hangs:
  assumes "\<forall>t. fst (inb io ATA_STATUS t) = 0xFF"
  shows "ata_read_sector io lba buf a = None \<and> ata_write_sector io lba buf a = None \<and> ata_init io buf a = None"
proof -
  have "ata_wait_bsy io s = None" for s using wait_bsy_floating [of io s] assms by (cases "ata_wait_bsy io s") auto
  then show ?thesis by (simp add: ata_read_sector_def ata_write_sector_def ata_init_def)
qed

lemma ata_floating_bus_hangs_witness:
  "ata_init \<lparr>inb = \<lambda>_ s. (0xFF, s), outb = \<lambda>_ _ s. s, inw = \<lambda>_ s. (0xFFFF, s), outw = \<lambda>_ _ s. s\<rparr> (\<lambda>_. 0)
     \<lparr>current_drive = 1, bus = ()\<rparr> = None"
  using ata_floating_bus_hangs [of "\<lparr>inb = \<lambda>_ s. (0xFF, s), outb = \<lambda>_ _ s. s, inw = \<lambda>_ s. (0xFFFF, s), outw = \<lambda>_ _ s. s\<rparr>"
    0 "\<lambda>_. 0" "\<lparr>current_drive = 1, bus = ()\<rparr>"] by simp

end
