(* ===== verification/Boot.thy ===== *)
theory Boot
  imports Shell Ata
begin

text \<open>
  Starting up: \<^verbatim>\<open>kheap_init\<close> of \<^verbatim>\<open>kernel/kheap.c\<close> on virtual memory, and \<^verbatim>\<open>kmain\<close> of \<^verbatim>\<open>kernel/kernel.c\<close>, which brings up the parts
  in order and enters the shell. The record \<open>image\<close> holds the addresses the linker fixes and what the boot
  loader passes.
\<close>

record image =
  kernel_end :: u32
  boot_stack_top :: u32
  gdt_addr :: u32
  tss_addr :: u32
  idt_addr :: u32
  isr_stub_table :: "nat \<Rightarrow> u32"
  irq_stub_table :: "nat \<Rightarrow> u32"
  syscall_stub :: u32
  root_node_addr :: u32
  boot_mem :: mem
  mem_upper :: u32
  mmap_addr :: u32
  mmap_length :: u32

text \<open>The tables of the processor beside the state of the kernel.\<close>

record 's machine =
  gdt_part :: gdt_state
  tss_part :: tss_structure
  idt_part :: idt_state
  kern :: "'s kernel"

section \<open>The heap\<close>

text \<open>The pages of the heap from \<open>addr\<close> on, \<open>n\<close> of them. A page that cannot be had is left out.\<close>

fun kheap_pages :: "nat \<Rightarrow> u32 \<Rightarrow> vm \<Rightarrow> vm option" where
  "kheap_pages 0 addr st = Some st"
| "kheap_pages (Suc n) addr st = do {
     (_, st) \<leftarrow> vmm_alloc_page addr (PAGE_PRESENT OR PAGE_WRITABLE) st;
     kheap_pages n (addr + PAGE_SIZE) st }"

definition kheap_init :: "u32 \<Rightarrow> 's kernel \<Rightarrow> 's kernel option" where
  "kheap_init kend k = do {
     let heap_start = align_up (kend + pmmngr_get_bitmap_size (vpmm (vmem k))) PAGE_SIZE;
     let n = (if heap_start < heap_start + KHEAP_FIXED_SIZE then unat (KHEAP_FIXED_SIZE div PAGE_SIZE) else 0);
     k \<leftarrow> on_vmem (kheap_pages n heap_start) k;
     Some (k\<lparr>files := (files k)\<lparr>heap := \<lparr>heap_start_ptr = heap_start,
       kmem = kheap_first_block heap_start (kmem (heap (files k)))\<rparr>\<rparr>\<rparr>) }"

section \<open>Memory reports\<close>

text \<open>The printing routines of \<^verbatim>\<open>kernel/pmm.c\<close>, for use while debugging; nothing calls them.\<close>

partial_function (option) print_mmap_from :: "'s ports \<Rightarrow> mem \<Rightarrow> u32 \<Rightarrow> u32 \<Rightarrow> 's kernel \<Rightarrow> 's kernel option" where
  "print_mmap_from io m stop e k =
     (if e < stop then do {
        k \<leftarrow> kprintf io (str ''base: %x  length: %x  type: %d'' @ [0x0A])
               [Va_int (ucast (mmap_entry_addr m e)), Va_int (ucast (mmap_entry_len m e)), Va_int (mmap_entry_type m e)] k;
        print_mmap_from io m stop (e + mmap_entry_size m e + 4) k }
      else Some k)"

definition pmm_print_mmap :: "'s ports \<Rightarrow> mem \<Rightarrow> u32 \<Rightarrow> u32 \<Rightarrow> 's kernel \<Rightarrow> 's kernel option" where
  "pmm_print_mmap io m a n k = print_mmap_from io m (a + n) a k"

definition pmm_print_state :: "'s ports \<Rightarrow> 's kernel \<Rightarrow> 's kernel option" where
  "pmm_print_state io k = do {
     k \<leftarrow> kprintf io (str ''total blocks: %d'' @ [0x0A]) [Va_int (pmmngr_get_max_blocks (vpmm (vmem k)))] k;
     k \<leftarrow> kprintf io (str ''used blocks:  %d'' @ [0x0A]) [Va_int (pmmngr_get_used_blocks (vpmm (vmem k)))] k;
     kprintf io (str ''free blocks:  %d'' @ [0x0A]) [Va_int (pmmngr_get_free_block_count (vpmm (vmem k)))] k }"

section \<open>\<open>kmain\<close>\<close>

definition boot_tables :: "image \<Rightarrow> 's machine \<Rightarrow> 's machine" where
  "boot_tables im m =
     (let (t, g) = install_tss (tss_addr im) (boot_stack_top im) (install_gdt (gdt_addr im) (gdt_part m))
      in m\<lparr>gdt_part := g, tss_part := t,
           idt_part := syscall_install (syscall_stub im) (install_idt (idt_addr im) (isr_stub_table im) (irq_stub_table im) (idt_part m))\<rparr>)"

definition boot_memory :: "image \<Rightarrow> 's kernel \<Rightarrow> 's kernel option" where
  "boot_memory im k = do {
     let p = pmmngr_init (mem_upper im + 1024) (mmngr_memory_map (vpmm (vmem k))) (vpmm (vmem k));
     p \<leftarrow> pmm_init_available_regions (boot_mem im) (mmap_addr im) (mmap_length im) p;
     let k = k\<lparr>vmem := (vmem k)\<lparr>vpmm := deinit_special_regions p\<rparr>\<rparr>;
     k \<leftarrow> on_vmem vmm_init k;
     k \<leftarrow> on_vmem (vmm_map_page 0xB8000 0xB8000 (PAGE_PRESENT OR PAGE_WRITABLE OR PAGE_USER)) k;
     kheap_init (kernel_end im) k }"

definition boot_devices :: "'s ports \<Rightarrow> 's kernel \<Rightarrow> 's kernel" where
  "boot_devices io k =
     (let k = timer_install io 100 k;
          k = keyboard_install io k;
          k = on_wire (uart_init io) k
      in on_vga terminal_initialize k)"

text \<open>
  The messages of \<^verbatim>\<open>fat16_init\<close> and \<^verbatim>\<open>vfs_mount\<close>, which are modelled below the console: format and arguments of the one call of
  \<^verbatim>\<open>printf\<close> each of them makes. The volume label is at 0x2B of the boot sector.
\<close>

definition fat16_init_message :: "fat \<Rightarrow> bytes \<times> va list" where
  "fat16_init_message st =
     (let sec = read_sector 0 st; st = snd (fat16_init st) in
      if sec 510 \<noteq> 0x55 \<or> sec 511 \<noteq> 0xAA then (str ''[FAT16] Bad boot sector signature'' @ [0x0A], [])
      else if bytes_per_sector (bpb st) \<noteq> 512
      then (str ''[FAT16] Unsupported sector size: %d'' @ [0x0A], [Va_int (ucast (bytes_per_sector (bpb st)))])
      else if fat_size_16 (bpb st) = 0 then (str ''[FAT16] FAT32 not supported'' @ [0x0A], [])
      else (str ''[FAT16] Mounted: %s  fat@%d root@%d data@%d'' @ [0x0A],
            [Va_str (map sec [0x2B..<0x36]), Va_int (fat_lba st), Va_int (root_dir_lba st), Va_int (data_lba st)]))"

definition vfs_mount_message :: "bytes \<Rightarrow> vfs_node \<Rightarrow> mounts \<Rightarrow> bytes \<times> va list" where
  "vfs_mount_message path root ms =
     (if length ms \<ge> VFS_MAX_MOUNTS then (str ''[VFS] Mount table full'' @ [0x0A], [])
      else (str ''[VFS] Mounted %s at %s'' @ [0x0A], [Va_str (vn_name root), Va_str path]))"

text \<open>\<open>stale\<close> is what the buffer of \<open>ata_init\<close> holds at first; the value has the drive it settled on.\<close>

definition boot_disk :: "'s ports \<Rightarrow> image \<Rightarrow> sector \<Rightarrow> 's kernel \<Rightarrow> (u8 \<times> 's kernel) option" where
  "boot_disk io im stale k = do {
     (msg, a) \<leftarrow> ata_init io stale \<lparr>current_drive = 0, bus = wire (con k)\<rparr>;
     k \<leftarrow> kprintf io msg [] (on_wire (\<lambda>_. bus a) k);
     let (r, v) = fat16_init (vol (files k));
     let (fmt, args) = fat16_init_message (vol (files k));
     k \<leftarrow> kprintf io fmt args (k\<lparr>files := (files k)\<lparr>vol := v\<rparr>\<rparr>);
     if r = 0
     then do {
       let (fmt, args) = vfs_mount_message (str ''/'') fat16_root_node (mount_table k);
       k \<leftarrow> kprintf io fmt args
              (k\<lparr>files := (files k)\<lparr>nodes := (nodes (files k))(root_node_addr im := fat16_root_node)\<rparr>,
                mount_table := vfs_mount (str ''/'') (root_node_addr im) (mount_table k)\<rparr>);
       Some (current_drive a, k) }
     else Some (current_drive a, k) }"

definition kmain :: "'s ports \<Rightarrow> image \<Rightarrow> 's user \<Rightarrow> sector \<Rightarrow> bytes \<Rightarrow> u32 list list \<Rightarrow> 's machine \<Rightarrow> (shell \<times> 's machine) option" where
  "kmain io im user stale uninit arrivals m = do {
     let m = boot_tables im (m\<lparr>kern := on_wire (PIC_remap io 0x20 0x28) (kern m)\<rparr>);
     k \<leftarrow> boot_memory im (kern m);
     (_, k) \<leftarrow> boot_disk io im stale (boot_devices io k);
     (f, arrivals) \<leftarrow> sleep io 2000 arrivals k;
     (case f of
        Unwinds k \<Rightarrow> None
      | Returns k \<Rightarrow> do {
          (sh, k) \<leftarrow> shell_run io user uninit arrivals k;
          Some (sh, m\<lparr>kern := k\<rparr>) }) }"

section \<open>The devices\<close>

lemma boot_devices_effect:
  assumes "irq_handlers k = replicate 16 None" "boot_devices io k = k'"
  shows "irq_handlers k' = boot_handlers \<and> timer_frequency k' = 100 \<and> timer_ticks k' = 0 \<and> current_process k' = current_process k
    \<and> vga (con k') = terminal_initialize (vga (con k))
    \<and> wire (con k') = uart_init io (IRQ_clear_mask io 1 (IRQ_clear_mask io 0
        (outs io [(0x43, 0x36), (0x40, 0x9B), (0x40, 0x2E)] (wire (con k)))))"
proof -
  have d: "PIT_BASE_FREQUENCY div 100 = 11931" by (simp add: PIT_BASE_FREQUENCY_def)
  have h: "(replicate 16 None)[0 := Some timer_irq, Suc 0 := Some keyboard_irq] = boot_handlers"
    by (simp add: boot_handlers_def numeral_eq_Suc)
  have n: "\<not> (16 :: u8) \<le> 1" by (simp add: word_le_nat_alt)
  show ?thesis using assms h n
    by (auto simp: boot_devices_def timer_install_def timer_set_frequency_def keyboard_install_def install_handler_def irq_install_handler_def
        on_wire_def on_vga_def Let_def d PIT_COMMAND_def PIT_CHANNEL0_DATA_def)
qed

section \<open>Properties\<close>

text \<open>
  The boot delay is two seconds. Once the devices are set up from an empty table, the two handlers are in place and the timer chip has been
  given the divisor of 100 Hz, low byte first; sleeping for 2000 ms from there ends at the first look that sees 200
  ticks, whatever other interrupts come, and not before.
\<close>

theorem boot_waits_two_seconds:
  assumes "irq_handlers k = replicate 16 None" "current_process k = 0" "boot_devices io k = k'"
    "ticks_in pre < 2 ^ 32" "pre \<noteq> [] \<longrightarrow> ticks_in (butlast pre) < 200"
  shows "irq_handlers k' = boot_handlers
    \<and> wire (con k') = uart_init io (IRQ_clear_mask io 1 (IRQ_clear_mask io 0 (outs io [(0x43, 0x36), (0x40, 0x9B), (0x40, 0x2E)] (wire (con k)))))
    \<and> (200 \<le> ticks_in pre \<longrightarrow> (\<exists>k2. sleep io 2000 (pre @ post) k' = Some (Returns k2, post) \<and> timer_ticks k2 = of_nat (ticks_in pre)))
    \<and> (ticks_in pre < 200 \<longrightarrow> sleep io 2000 pre k' = None)"
proof -
  note b = boot_devices_effect [OF assms(1,3)]
  have u: "unat (2000 :: u32) = 2000" "unat (100 :: u32) = 100" "(2000 :: u32) \<noteq> 0" "unat (0 :: u32) = 0" by simp_all
  have "irq_handlers k' = boot_handlers" "current_process k' = 0" using b assms(2) by simp_all
  moreover have "unat (2000 :: u32) * unat (timer_frequency k') < 2 ^ 32" using b by simp
  moreover have "200 = max (unat (2000 :: u32) * unat (timer_frequency k') div 1000) (if (2000 :: u32) = 0 then 0 else 1)" using b u by simp
  moreover have "unat (timer_ticks k') + 200 < 2 ^ 32" "unat (timer_ticks k') + ticks_in pre < 2 ^ 32" using b assms(4) by simp_all
  ultimately have "(200 \<le> ticks_in pre \<longrightarrow> (\<exists>k2. sleep io 2000 (pre @ post) k' = Some (Returns k2, post)
        \<and> timer_ticks k2 = timer_ticks k' + of_nat (ticks_in pre)))
    \<and> (ticks_in pre < 200 \<longrightarrow> sleep io 2000 pre k' = None)"
    using assms(5) by (rule sleep_ticks)
  then show ?thesis using b by simp
qed

lemma boot_waits_two_seconds_witness:
  "\<exists>k2. sleep recorder_unit 2000 (replicate 200 [0] @ [[1]]) (boot_devices recorder_unit demo_kernel) = Some (Returns k2, [[1]])
    \<and> timer_ticks k2 = 200"
proof -
  have d: "irq_handlers demo_kernel = replicate 16 None" "current_process demo_kernel = 0" by (simp_all add: demo_kernel_def)
  have t: "ticks_in (replicate n [0]) = n" for n by (induction n) (simp_all add: ticks_in_def is_tick_def)
  have b: "butlast (replicate 200 [0]) = replicate 199 ([0] :: u32 list)" by (simp add: butlast_conv_take)
  have "ticks_in (replicate 200 [0]) < 2 ^ 32" "replicate 200 [0] \<noteq> [] \<longrightarrow> ticks_in (butlast (replicate 200 [0])) < 200"
    unfolding b t by simp_all
  from boot_waits_two_seconds [OF d refl this, of recorder_unit "[[1]]"] show ?thesis unfolding t by simp
qed

end
