(* ===== verification/Boot_Correct.thy ===== *)
theory Boot_Correct
  imports Boot
begin

text \<open>
  What start-up leaves behind: the frame allocator, paging and the heap, brought up one on the other, and the
  contracts under which the rest of the kernel uses them.
\<close>

section \<open>The frames\<close>

text \<open>The frames above 4 MiB that the boot loader's map makes available.\<close>

definition usable :: "(u32 \<times> u64 \<times> u64 \<times> u32) list \<Rightarrow> nat \<Rightarrow> nat set" where
  "usable es blocks = {f. 1024 \<le> f \<and> f < blocks
     \<and> (\<exists>(sz, ad, ln, ty) \<in> set es. ty = 1 \<and> f \<in> region_frames (ucast ad) (ucast ln))}"

text \<open>The available regions lie in memory.\<close>

definition within :: "(u32 \<times> u64 \<times> u64 \<times> u32) list \<Rightarrow> nat \<Rightarrow> bool" where
  "within es blocks \<longleftrightarrow> (\<forall>(sz, ad, ln, ty) \<in> set es. ty = 1 \<longrightarrow>
     unat (ucast ad :: u32) div 4096 + unat (ucast ln :: u32) div 4096 \<le> blocks)"

lemma init_entries_frame: "mmngr_max_blocks (fold init_entry es s) = mmngr_max_blocks s"
  by (induction es arbitrary: s) (auto simp: frame_simps)

lemma init_entries_test:
  "mmap_test n (fold init_entry es s) \<longleftrightarrow> mmap_test n s
     \<and> \<not> (\<exists>(sz, ad, ln, ty) \<in> set es. ty = 1 \<and> n \<in> region_frames (ucast ad) (ucast ln))"
  by (induction es arbitrary: s) (auto simp: init_region_test split: if_splits)

lemma init_entries_accounting:
  "pmm_accounting s \<Longrightarrow> within es (unat (mmngr_max_blocks s)) \<Longrightarrow> pmm_accounting (fold init_entry es s)"
proof (induction es arbitrary: s)
  case (Cons e es)
  obtain sz ad ln ty where e: "e = (sz, ad, ln, ty)" by (cases e)
  have "pmm_accounting (init_entry e s)"
    using Cons.prems by (simp add: e within_def init_region_accounting)
  moreover have "mmngr_max_blocks (init_entry e s) = mmngr_max_blocks s" by (simp add: e frame_simps)
  ultimately show ?case using Cons.IH [of "init_entry e s"] Cons.prems(2) by (simp add: within_def)
qed simp

lemma boot_pmm:
  assumes p: "p = deinit_special_regions (fold init_entry es (pmmngr_init sz bm s))"
    and b: "blocks = unat (sz div 4)" "32 dvd blocks" "blocks \<le> 2 ^ 20" "1024 \<le> blocks" and w: "within es blocks"
  shows "pmm_accounting p" "addressable p" "low_reserved p" "free_frames p = usable es blocks" "mmngr_max_blocks p = sz div 4"
proof -
  show m: "mmngr_max_blocks p = sz div 4"
    by (simp add: p deinit_special_regions_def frame_simps init_entries_frame)
  have "8 dvd blocks" using b(2) by (rule dvd_trans [rotated]) simp
  then have "pmm_accounting (fold init_entry es (pmmngr_init sz bm s))"
    using w b(1) by (intro init_entries_accounting pmm_init_accounting) (simp_all add: frame_simps)
  then show "pmm_accounting p"
    unfolding p deinit_special_regions_def by (rule deinit_region_accounting) (use b(1,4) in \<open>simp add: frame_simps init_entries_frame\<close>)
  show "addressable p" using b(1,3) by (simp add: addressable_def m)
  show "low_reserved p" by (simp add: p deinit_special_low_reserved)
  have sc: "scanned_frames p = blocks" using b(1,2) by (simp add: scanned_frames_def m)
  have d8: "8 * (blocks div 8) = blocks" using \<open>8 dvd blocks\<close> by simp
  have "mmap_test f p \<longleftrightarrow> f < 1024 \<or> (f < blocks \<or> bit (bm (f div 32)) (f mod 32))
      \<and> \<not> (\<exists>(sz, ad, ln, ty) \<in> set es. ty = 1 \<and> f \<in> region_frames (ucast ad) (ucast ln))" for f
    by (auto simp: p deinit_special_regions_def deinit_region_test init_entries_test pmm_init_test b(1) [symmetric] d8)
      (simp_all add: region_frames_def)
  then show "free_frames p = usable es blocks" by (auto simp: free_frames_def usable_def sc)
qed

section \<open>The heap's pages\<close>

definition heap_pages :: "nat \<Rightarrow> u32 \<Rightarrow> u32 set" where
  "heap_pages n hs = (\<lambda>i. hs + 4096 * of_nat i) ` {..<n}"

lemma heap_pages_Suc: "heap_pages (Suc n) hs = insert hs (heap_pages n (hs + PAGE_SIZE))"
  by (simp add: heap_pages_def lessThan_Suc_eq_insert_0 image_image PAGE_SIZE_def algebra_simps)

lemma unat_heap_page:
  fixes hs :: u32
  shows "unat hs + 4096 * n \<le> 0x400000 \<Longrightarrow> i < n \<Longrightarrow> unat (hs + 4096 * of_nat i) = unat hs + 4096 * i"
  by (simp add: unat_word_ariths unat_of_nat)

lemma heap_page_low:
  assumes "v \<in> heap_pages n hs" "unat hs + 4096 * n \<le> 0x400000"
  shows "unat hs \<le> unat v" "unat v + 4096 \<le> unat hs + 4096 * n"
proof -
  obtain i where i: "i < n" "v = hs + 4096 * of_nat i" using assms(1) by (auto simp: heap_pages_def)
  have "unat v = unat hs + 4096 * i" using unat_heap_page [OF assms(2) i(1)] i(2) by simp
  moreover have "4096 * i + 4096 \<le> 4096 * n" using i(1) by simp
  ultimately show "unat hs \<le> unat v" "unat v + 4096 \<le> unat hs + 4096 * n" by simp_all
qed

lemma user_same_page: "vm_inv st \<Longrightarrow> same_page w v \<Longrightarrow> mmu_user st w = mmu_user st v"
  by (simp add: user_walk same_page_def pte_at_def)

lemma kheap_pages_spec:
  assumes "uspace st V" "frames_left (n + m) (vpmm st)" "has_table st 0" "PAGE_OFFSET hs = 0"
    "0x1000 \<le> unat hs" "unat hs + 4096 * n \<le> 0x400000" "V \<inter> heap_pages n hs = {}"
  shows "\<exists>st'. kheap_pages n hs st = Some st' \<and> uspace st' (V \<union> heap_pages n hs) \<and> frames_left m (vpmm st')
    \<and> (pmm_accounting (vpmm st) \<longrightarrow> pmm_accounting (vpmm st'))
    \<and> (\<forall>w < 0xFFC00000. ENTRY_GET_FRAME w \<notin> heap_pages n hs \<longrightarrow> mmu_translate st' w = mmu_translate st w)
    \<and> (\<forall>w < 0xFFC00000. mmu_user st' w \<longleftrightarrow> mmu_user st w \<and> ENTRY_GET_FRAME w \<notin> heap_pages n hs)"
  using assms
proof (induction n arbitrary: hs st V)
  case 0
  then show ?case by (simp add: heap_pages_def)
next
  case (Suc n)
  define fl where "fl = PAGE_PRESENT OR PAGE_WRITABLE"
  have fl: "ENTRY_GET_FRAME fl = 0" "\<not> ENTRY_HAS_FLAG fl PAGE_USER"
    by (simp_all add: fl_def frame_or flag_bits bit_or_iff)
  obtain p s0 where p: "pmmngr_alloc_block (vpmm st) = (p, s0)" by fastforce
  have r: "p \<noteq> 0" "frames_left (n + m) s0" using Suc.prems(2) p by simp_all
  have up: "user_page hs" using Suc.prems(4-6) by (auto simp: user_page_def word_less_nat_alt)
  have nv: "hs \<notin> V" using Suc.prems(7) by (simp add: heap_pages_Suc)
  have pd: "PD_INDEX hs = 0" using Suc.prems(6) by (simp add: u32_eq_iff unat_PD_INDEX)
  have tb: "has_table st (PD_INDEX hs)" using Suc.prems(3) pd by simp
  then have room: "has_table st (PD_INDEX hs) \<or> fst (pmmngr_alloc_block s0) \<noteq> 0" ..
  obtain st1 where 1: "vmm_alloc_page hs fl st = Some (hs, st1)" "uspace st1 (insert hs V)" "has_table st1 0" "vpmm st1 = s0"
      "\<forall>w < 0xFFC00000. \<not> same_page w hs \<longrightarrow> mmu_translate st1 w = mmu_translate st w" "\<not> mmu_user st1 hs"
      "\<forall>w < 0xFFC00000. \<not> same_page w hs \<longrightarrow> mmu_user st1 w = mmu_user st w"
    using alloc_page_at [OF Suc.prems(1) up nv fl(1) p r(1) room] fl(2) tb pd by auto
  have u: "unat (hs + PAGE_SIZE) = unat hs + 4096" using Suc.prems(6) by (simp add: PAGE_SIZE_def unat_word_ariths)
  have off: "PAGE_OFFSET (hs + PAGE_SIZE) = 0" using Suc.prems(4) u by (simp add: u32_eq_iff unat_PAGE_OFFSET)
  have lo: "unat (hs + PAGE_SIZE) + 4096 * n \<le> 0x400000" using Suc.prems(6) u by simp
  have "hs \<notin> heap_pages n (hs + PAGE_SIZE)" using heap_page_low(1) [OF _ lo] u by force
  then have dis: "insert hs V \<inter> heap_pages n (hs + PAGE_SIZE) = {}" using Suc.prems(7) by (auto simp: heap_pages_Suc)
  have fr: "frames_left (n + m) (vpmm st1)" using r(2) 1(4) by simp
  from Suc.IH [OF 1(2) fr 1(3) off _ lo dis] Suc.prems(5) u
  obtain st2 where 2: "kheap_pages n (hs + PAGE_SIZE) st1 = Some st2"
      "uspace st2 (insert hs V \<union> heap_pages n (hs + PAGE_SIZE))" "frames_left m (vpmm st2)"
      "pmm_accounting (vpmm st1) \<longrightarrow> pmm_accounting (vpmm st2)"
      "\<forall>w < 0xFFC00000. ENTRY_GET_FRAME w \<notin> heap_pages n (hs + PAGE_SIZE) \<longrightarrow> mmu_translate st2 w = mmu_translate st1 w"
      "\<forall>w < 0xFFC00000. mmu_user st2 w \<longleftrightarrow> mmu_user st1 w \<and> ENTRY_GET_FRAME w \<notin> heap_pages n (hs + PAGE_SIZE)" by auto
  have sp: "same_page w hs \<longleftrightarrow> ENTRY_GET_FRAME w = hs" for w
    using aligned_frame [OF Suc.prems(4)] by (simp add: same_page_alt)
  have i1: "vm_inv st1" using 1(2) by (simp add: uspace_def)
  have us1: "mmu_user st1 w \<longleftrightarrow> mmu_user st w \<and> ENTRY_GET_FRAME w \<noteq> hs" if "w < 0xFFC00000" for w
    using 1(6,7) that user_same_page [OF i1, of w hs] sp [of w] by auto
  have "pmm_accounting (vpmm st) \<longrightarrow> pmm_accounting (vpmm st1)"
    using alloc_block_accounting [of "vpmm st"] p 1(4) by simp
  moreover have "kheap_pages (Suc n) hs st = Some st2" using 1(1) 2(1) by (simp add: fl_def)
  ultimately show ?case using 2(2-6) 1(5) us1 sp by (auto simp: heap_pages_Suc)
qed

section \<open>Paging and the screen\<close>

lemma boot_paging:
  assumes np: "\<not> paging st" and a: "addressable (vpmm st)" "low_reserved (vpmm st)" "frames_left (2 + m) (vpmm st)"
  shows "\<exists>st0 st'. vmm_init st = Some st0
    \<and> vmm_map_page 0xB8000 0xB8000 (PAGE_PRESENT OR PAGE_WRITABLE OR PAGE_USER) st0 = Some st'
    \<and> vm_inv st' \<and> has_table st' 0 \<and> frames_left m (vpmm st') \<and> mmngr_max_blocks (vpmm st') = mmngr_max_blocks (vpmm st)
    \<and> (pmm_accounting (vpmm st) \<longrightarrow> pmm_accounting (vpmm st'))
    \<and> (\<forall>v. 0x1000 \<le> v \<and> v < 0x400000 \<longrightarrow> mmu_translate st' v = Some v)
    \<and> (\<forall>v. 0x1000 \<le> v \<and> v < 0xFFC00000 \<longrightarrow> (mmu_user st' v \<longleftrightarrow> ENTRY_GET_FRAME v = 0xB8000))"
proof -
  define fl where "fl = PAGE_PRESENT OR PAGE_WRITABLE OR PAGE_USER"
  have fl: "ENTRY_GET_FRAME fl = 0" "ENTRY_HAS_FLAG fl PAGE_USER" by (simp_all add: fl_def frame_or flag_bits bit_or_iff)
  obtain d p0 where d: "pmmngr_alloc_block (vpmm st) = (d, p0)" by fastforce
  obtain t p1 where t: "pmmngr_alloc_block p0 = (t, p1)" by fastforce
  have r: "d \<noteq> 0" "t \<noteq> 0" "frames_left m p1" using a(3) d t by (simp_all add: numeral_2_eq_2)
  have vd: "vm_alloc_block st = (d, st\<lparr>vpmm := p0\<rparr>)" "vm_alloc_block (st\<lparr>vpmm := p0\<rparr>) = (t, st\<lparr>vpmm := p1\<rparr>)"
    using d t by (simp_all add: vm_alloc_block_def)
  obtain st0 where s0: "vmm_init st = Some st0" "vm_inv st0" "vpmm st0 = p1" "has_table st0 0"
      "\<And>v. 0x1000 \<le> v \<Longrightarrow> v < 0x400000 \<Longrightarrow> mmu_translate st0 v = Some v"
      "\<And>v. 0x400000 \<le> v \<Longrightarrow> v < 0xFFC00000 \<Longrightarrow> mmu_translate st0 v = None"
      "\<And>v. 0x1000 \<le> v \<Longrightarrow> v < 0x400000 \<Longrightarrow> \<not> ENTRY_HAS_FLAG (pte_at st0 v) PAGE_USER"
    by (rule init_spec [OF np a(1,2) vd(1) r(1) vd(2) r(2)]) simp
  have pd: "PD_INDEX 0xB8000 = 0" by (simp add: u32_eq_iff unat_PD_INDEX)
  have room: "has_table st0 (PD_INDEX 0xB8000) \<or> fst (pmmngr_alloc_block (vpmm st0)) \<noteq> 0" using s0(4) pd by simp
  obtain st' where s': "vmm_map_page 0xB8000 0xB8000 fl st0 = Some st'" "vm_inv st'" "has_table st' 0" "mmu_user st' 0xB8000" "vpmm st' = p1"
      "\<And>w. w < 0xFFC00000 \<Longrightarrow> mmu_translate st' w =
         (if same_page w 0xB8000 then Some (ENTRY_GET_FRAME 0xB8000 + PAGE_OFFSET w) else mmu_translate st0 w)"
      "\<And>w. w < 0xFFC00000 \<Longrightarrow> \<not> same_page w 0xB8000 \<Longrightarrow> mmu_user st' w \<Longrightarrow> ENTRY_HAS_FLAG (pte_at st0 w) PAGE_USER"
    by (rule map_page_spec [OF s0(2) _ fl(1) room, of "0xB8000"]) (use s0(3,4) fl(2) pd in \<open>simp_all\<close>)
  have vf: "ENTRY_GET_FRAME 0xB8000 = 0xB8000" by (simp add: ENTRY_GET_FRAME_def)
  have sp: "same_page w 0xB8000 \<longleftrightarrow> ENTRY_GET_FRAME w = 0xB8000" for w by (simp add: same_page_alt vf)
  have "mmu_translate st' v = Some v" if "0x1000 \<le> v" "v < 0x400000" for v
  proof -
    have "v < 0xFFC00000" using that(2) by (simp add: word_less_nat_alt)
    then show ?thesis using s'(6) [of v] s0(5) [OF that] frame_offset [of v] by (auto simp: sp vf)
  qed
  moreover have "mmu_user st' v \<longleftrightarrow> ENTRY_GET_FRAME v = 0xB8000" if v: "0x1000 \<le> v" "v < 0xFFC00000" for v
  proof (cases "same_page v 0xB8000")
    case True
    then show ?thesis using user_same_page [OF s'(2) True] s'(4) sp by simp
  next
    case False
    have "\<not> mmu_user st' v"
    proof (cases "v < 0x400000")
      case True
      then show ?thesis using s'(7) [OF v(2) False] s0(7) [OF v(1)] by blast
    next
      case ge: False
      then have "mmu_translate st' v = None" using s'(6) [OF v(2)] s0(6) [of v] False v(2) by (simp add: not_less)
      then show ?thesis by (simp add: mmu_user_def)
    qed
    then show ?thesis using False sp by simp
  qed
  moreover have "mmngr_max_blocks p1 = mmngr_max_blocks (vpmm st)" "pmm_accounting (vpmm st) \<longrightarrow> pmm_accounting p1"
    using alloc_block_frame [of "vpmm st"] alloc_block_frame [of p0] alloc_block_accounting [of "vpmm st"] alloc_block_accounting [of p0] d t
    by simp_all
  ultimately show ?thesis using s0(1) s'(1-3,5) r(3) unfolding fl_def by (intro exI [of _ st0] exI [of _ st']) simp
qed

section \<open>Memory at start-up\<close>

lemma bitmap_size:
  assumes "mmngr_max_blocks s = b" "8 dvd unat b" "unat b \<le> 2 ^ 20"
  shows "pmmngr_get_bitmap_size s = of_nat (unat b div 8)"
proof -
  have "unat (b + 8 - 1) = unat b + 7" using assms(3) by (simp add: unat_word_ariths add.commute [of b])
  then have "unat (pmmngr_get_bitmap_size s) = (unat b + 7) div 8"
    by (simp add: pmmngr_get_bitmap_size_def PMMNGR_BLOCKS_PER_BYTE_def assms(1) unat_div)
  also have "\<dots> = unat b div 8" using assms(2) by (auto elim!: dvdE)
  finally have "unat (pmmngr_get_bitmap_size s) = unat b div 8" .
  moreover have "unat b div 8 < 4294967296" using assms(3) by simp
  ultimately show ?thesis by (simp add: word_unat_eq_iff unat_of_nat take_bit_nat_eq_self)
qed

lemma align_up_page: "PAGE_OFFSET (align_up v PAGE_SIZE) = 0"
proof -
  have m: "PAGE_SIZE - 1 = mask 12" "(0xFFF :: u32) = mask 12" by (simp_all add: PAGE_SIZE_def mask_eq_exp_minus_1)
  show ?thesis unfolding align_up_def PAGE_OFFSET_def m by (rule bit_eqI) (auto simp: bit_simps)
qed

text \<open>
  C8. Start-up leaves memory in the state the rest of the kernel relies on. Given a well formed memory map whose available
  regions lie in memory and hold 258 frames above 4 MiB, \<open>boot_memory\<close> returns with the frame counter right, paging
  on, and an empty heap on 256 pages of its own, each in a frame of its own; the rest of the low 4 MiB is mapped to itself;
  beyond the null page the text screen is all that user mode may touch, and the frames not needed are still free.
\<close>

theorem boot_memory_ready:
  assumes "mmap_table (boot_mem im) (mmap_addr im + mmap_length im) (mmap_addr im) es"
    "blocks = unat ((mem_upper im + 1024) div 4)" "32 dvd blocks" "1024 \<le> blocks" "blocks \<le> 2 ^ 20" "within es blocks"
    "258 + m \<le> card (usable es blocks)" "\<not> paging (vmem k)"
    "hs = align_up (kernel_end im + of_nat (blocks div 8)) PAGE_SIZE" "0xB9000 \<le> unat hs" "unat hs + 0x100000 \<le> 0x400000"
  shows "\<exists>k'. boot_memory im k = Some k' \<and> owned (heap (files k')) {} \<and> uspace (vmem k') (heap_pages 256 hs)
    \<and> pmm_accounting (vpmm (vmem k')) \<and> frames_left m (vpmm (vmem k'))
    \<and> (\<forall>v. 0x1000 \<le> v \<and> v < 0x400000 \<and> ENTRY_GET_FRAME v \<notin> heap_pages 256 hs \<longrightarrow> mmu_translate (vmem k') v = Some v)
    \<and> (\<forall>v. 0x1000 \<le> v \<and> v < 0xFFC00000 \<longrightarrow> (mmu_user (vmem k') v \<longleftrightarrow> ENTRY_GET_FRAME v = 0xB8000))"
proof -
  define b where "b = pmmngr_init (mem_upper im + 1024) (mmngr_memory_map (vpmm (vmem k))) (vpmm (vmem k))"
  define p where "p = deinit_special_regions (fold init_entry es b)"
  note p = boot_pmm [OF p_def [unfolded b_def] assms(2,3,5,4,6)]
  have reg: "pmm_init_available_regions (boot_mem im) (mmap_addr im) (mmap_length im) b = Some (fold init_entry es b)"
    using assms(1) by (simp add: pmm_init_available_regions_def init_regions_table)
  define st where "st = (vmem k)\<lparr>vpmm := p\<rparr>"
  have st: "vpmm st = p" "\<not> paging st" using assms(8) by (simp_all add: st_def)
  have fr: "frames_left (2 + (256 + m)) (vpmm st)"
    using frames_left_free [OF p(1-3)] assms(7) by (simp add: st(1) p(4))
  have al: "addressable (vpmm st)" "low_reserved (vpmm st)" using p(2,3) by (simp_all add: st(1))
  obtain st0 st1 where 1: "vmm_init st = Some st0"
      "vmm_map_page 0xB8000 0xB8000 (PAGE_PRESENT OR PAGE_WRITABLE OR PAGE_USER) st0 = Some st1"
      "vm_inv st1" "has_table st1 0" "frames_left (256 + m) (vpmm st1)" "mmngr_max_blocks (vpmm st1) = mmngr_max_blocks p"
      "pmm_accounting p \<longrightarrow> pmm_accounting (vpmm st1)"
      "\<forall>v. 0x1000 \<le> v \<and> v < 0x400000 \<longrightarrow> mmu_translate st1 v = Some v"
      "\<forall>v. 0x1000 \<le> v \<and> v < 0xFFC00000 \<longrightarrow> (mmu_user st1 v \<longleftrightarrow> ENTRY_GET_FRAME v = 0xB8000)"
    using boot_paging [OF st(2) al fr] unfolding st(1) by blast
  have d8: "8 dvd blocks" using assms(3) by (rule dvd_trans [rotated]) simp
  have hs: "align_up (kernel_end im + pmmngr_get_bitmap_size (vpmm st1)) PAGE_SIZE = hs"
    using bitmap_size [of "vpmm st1"] 1(6) p(5) assms(2,5,9) d8 by simp
  have u0: "uspace st1 {}" using 1(3) by (simp add: uspace_def)
  have off: "PAGE_OFFSET hs = 0" by (simp add: assms(9) align_up_page)
  have bound: "unat hs + 4096 * 256 \<le> 0x400000" "0x1000 \<le> unat hs" using assms(10,11) by simp_all
  from kheap_pages_spec [OF u0 1(5,4) off bound(2,1)] obtain st2 where 2: "kheap_pages 256 hs st1 = Some st2"
      "uspace st2 (heap_pages 256 hs)" "frames_left m (vpmm st2)" "pmm_accounting (vpmm st1) \<longrightarrow> pmm_accounting (vpmm st2)"
      "\<forall>w < 0xFFC00000. ENTRY_GET_FRAME w \<notin> heap_pages 256 hs \<longrightarrow> mmu_translate st2 w = mmu_translate st1 w"
      "\<forall>w < 0xFFC00000. mmu_user st2 w \<longleftrightarrow> mmu_user st1 w \<and> ENTRY_GET_FRAME w \<notin> heap_pages 256 hs" by auto
  define h where "h = \<lparr>heap_start_ptr = hs, kmem = kheap_first_block hs (kmem (heap (files k)))\<rparr>"
  define k' where "k' = k\<lparr>vmem := st2, files := (files k)\<lparr>heap := h\<rparr>\<rparr>"
  have lt: "hs < hs + KHEAP_FIXED_SIZE" using assms(11) by (simp add: word_less_nat_alt KHEAP_FIXED_SIZE_def unat_word_ariths)
  have n: "unat (KHEAP_FIXED_SIZE div PAGE_SIZE) = 256" by (simp add: KHEAP_FIXED_SIZE_def PAGE_SIZE_def)
  have kh: "kheap_init (kernel_end im) (k\<lparr>vmem := st1\<rparr>) = Some k'"
    using 2(1) lt by (simp add: kheap_init_def hs n on_vmem_def k'_def h_def Let_def)
  have run: "boot_memory im k = Some k'"
    using reg 1(1,2) kh by (simp add: boot_memory_def on_vmem_def b_def [symmetric] p_def [symmetric] st_def [symmetric] Let_def)
  have "hs \<noteq> 0" using assms(10) by auto
  then have "heap_has h [(0xFFFF0, True)]"
    using first_block_heap [of hs] assms(11) by (simp add: heap_has_def h_def)
  then have "owned h {}" using heap_has_owned [of h "[(0xFFFF0, True)]"] by simp
  moreover have "mmu_translate st2 v = Some v" if "0x1000 \<le> v \<and> v < 0x400000 \<and> ENTRY_GET_FRAME v \<notin> heap_pages 256 hs" for v
  proof -
    have "v < 0xFFC00000" using that by (simp add: word_less_nat_alt)
    then show ?thesis using 2(5) 1(8) that by simp
  qed
  moreover have "0xB8000 \<notin> heap_pages 256 hs" using heap_page_low(1) [OF _ bound(1), of "0xB8000"] assms(10) by force
  then have "mmu_user st2 v \<longleftrightarrow> ENTRY_GET_FRAME v = 0xB8000" if "0x1000 \<le> v \<and> v < 0xFFC00000" for v
    using 2(6) 1(9) that by auto
  ultimately show ?thesis using run 2(2,3,4) 1(7) p(1) by (intro exI [of _ k']) (simp add: k'_def)
qed

text \<open>A machine of 32 MiB with one available region above the first.\<close>

definition boot_image :: image where
  "boot_image = \<lparr>kernel_end = 0x120000, boot_stack_top = 0x110000, gdt_addr = 0x104000, tss_addr = 0x105000, idt_addr = 0x106000,
     isr_stub_table = (\<lambda>_. 0x101000), irq_stub_table = (\<lambda>_. 0x102000), syscall_stub = 0x103000, root_node_addr = 0x107000,
     boot_mem = (\<lambda>_. 0)(0x9000 := 20, 0x9006 := 0x10, 0x900E := 0xF0, 0x900F := 0x01, 0x9014 := 1),
     mem_upper = 31744, mmap_addr = 0x9000, mmap_length = 24\<rparr>"

lemma boot_image_map: "mmap_table (boot_mem boot_image) (0x9000 + 24) 0x9000 [(20, 0x100000, 0x1F00000, 1)]"
  by (simp add: mmap_entry_size_def mmap_entry_addr_def mmap_entry_len_def mmap_entry_type_def rd64_def rd32_def boot_image_def)

lemma boot_image_usable: "usable [(20, 0x100000, 0x1F00000, 1)] 8192 = {1024..<8192}"
  by (auto simp: usable_def region_frames_def)

lemma boot_memory_ready_witness:
  "\<exists>k'. boot_memory boot_image (demo_kernel\<lparr>vmem := vm_demo\<lparr>paging := False\<rparr>\<rparr>) = Some k' \<and> owned (heap (files k')) {}
    \<and> uspace (vmem k') (heap_pages 256 0x121000) \<and> frames_left 6910 (vpmm (vmem k'))
    \<and> mmu_user (vmem k') 0xB8F9E \<and> \<not> mmu_user (vmem k') 0x100000"
proof -
  have t: "mmap_table (boot_mem boot_image) (mmap_addr boot_image + mmap_length boot_image) (mmap_addr boot_image) [(20, 0x100000, 0x1F00000, 1)]"
    using boot_image_map by (simp add: boot_image_def)
  have b: "8192 = unat ((mem_upper boot_image + 1024) div 4)" by (simp add: boot_image_def)
  have w: "within [(20, 0x100000, 0x1F00000, 1)] 8192" by (simp add: within_def)
  have c: "258 + 6910 \<le> card (usable [(20, 0x100000, 0x1F00000, 1)] 8192)" unfolding boot_image_usable by simp
  have h: "0x121000 = align_up (kernel_end boot_image + of_nat (8192 div 8)) PAGE_SIZE"
    by (simp add: boot_image_def align_up_def PAGE_SIZE_def)
  have f: "ENTRY_GET_FRAME 0xB8F9E = 0xB8000" "ENTRY_GET_FRAME 0x100000 \<noteq> 0xB8000" by (simp_all add: ENTRY_GET_FRAME_def)
  have "\<exists>k'. boot_memory boot_image (demo_kernel\<lparr>vmem := vm_demo\<lparr>paging := False\<rparr>\<rparr>) = Some k' \<and> owned (heap (files k')) {}
      \<and> uspace (vmem k') (heap_pages 256 0x121000) \<and> pmm_accounting (vpmm (vmem k')) \<and> frames_left 6910 (vpmm (vmem k'))
      \<and> (\<forall>v. 0x1000 \<le> v \<and> v < 0x400000 \<and> ENTRY_GET_FRAME v \<notin> heap_pages 256 0x121000 \<longrightarrow> mmu_translate (vmem k') v = Some v)
      \<and> (\<forall>v. 0x1000 \<le> v \<and> v < 0xFFC00000 \<longrightarrow> (mmu_user (vmem k') v \<longleftrightarrow> ENTRY_GET_FRAME v = 0xB8000))"
    by (rule boot_memory_ready [OF t b _ _ _ w c _ h]) simp_all
  then show ?thesis using f by auto
qed

end
