(* ===== verification/Cpu.thy ===== *)
theory Cpu
  imports Syscall
begin

text \<open>
  The processor as far as the assembly of the kernel needs it: registers, segment selectors with the checks on loading them, the
  stack in memory, interrupt entry through a gate and \<open>iret\<close>. Segments are flat, so an address is an offset. A fault has the value
  \<open>None\<close>. Instructions of a routine run one after the other; \<open>eip_reg\<close> is set where control leaves the routine.
  The arithmetic flags are not tracked: no routine reads them.
\<close>

section \<open>State\<close>

datatype reg32 = EAX | ECX | EDX | EBX | ESP | EBP | ESI | EDI

datatype sreg = DS | ES | FS | GS | SS

text \<open>The variables of \<^verbatim>\<open>kernel/process.c\<close> the routines share with it.\<close>

datatype saved_var = process_saved_esp | process_saved_ebp | process_saved_ebx | process_saved_esi | process_saved_edi

record cpu =
  rg :: "reg32 \<Rightarrow> u32"
  sg :: "sreg \<Rightarrow> u16"
  cs_reg :: u16
  eip_reg :: u32
  eflags_reg :: u32
  cr0_reg :: u32
  cr3_reg :: u32
  tr_reg :: u16
  gdt_used :: bytes
  idt_used :: "idt_entry list"
  ram :: mem
  saved :: "saved_var \<Rightarrow> u32"

definition FLAG_TF :: nat where "FLAG_TF = 8"
definition FLAG_IF :: nat where "FLAG_IF = 9"
definition FLAG_NT :: nat where "FLAG_NT = 14"
definition FLAG_RF :: nat where "FLAG_RF = 16"
definition FLAG_VM :: nat where "FLAG_VM = 17"

text \<open>The current privilege level, and the privilege a selector asks for.\<close>

definition rpl :: "u16 \<Rightarrow> u8" where
  "rpl sel = ucast (sel AND 3)"

definition cpl :: "cpu \<Rightarrow> u8" where
  "cpl c = rpl (cs_reg c)"

section \<open>Selectors\<close>

definition null_sel :: "u16 \<Rightarrow> bool" where
  "null_sel sel \<longleftrightarrow> sel AND NOT 3 = 0"

definition sel_index :: "u16 \<Rightarrow> nat" where
  "sel_index sel = unat (drop_bit 3 sel)"

definition sel_access :: "bytes \<Rightarrow> u16 \<Rightarrow> u8" where
  "sel_access g sel = access_byte (segment_at g (sel_index sel))"

text \<open>The selector picks a present code or data segment of the global table.\<close>

definition in_gdt :: "bytes \<Rightarrow> u16 \<Rightarrow> bool" where
  "in_gdt g sel \<longleftrightarrow> \<not> null_sel sel \<and> \<not> bit sel 2 \<and> sel_index sel * 8 + 8 \<le> length g
     \<and> present (sel_access g sel) \<and> bit (sel_access g sel) 4"

definition is_code :: "u8 \<Rightarrow> bool" where
  "is_code a \<longleftrightarrow> bit a 3"

definition conforming :: "u8 \<Rightarrow> bool" where
  "conforming a \<longleftrightarrow> bit a 3 \<and> bit a 2"

definition code_ok :: "bytes \<Rightarrow> u16 \<Rightarrow> bool" where
  "code_ok g sel \<longleftrightarrow> in_gdt g sel \<and> is_code (sel_access g sel)
     \<and> (if conforming (sel_access g sel) then dpl (sel_access g sel) \<le> rpl sel else dpl (sel_access g sel) = rpl sel)"

text \<open>What may be loaded into the stack segment at privilege \<open>pl\<close>, and into the data segments.\<close>

definition stack_ok :: "bytes \<Rightarrow> u8 \<Rightarrow> u16 \<Rightarrow> bool" where
  "stack_ok g pl sel \<longleftrightarrow> in_gdt g sel \<and> \<not> is_code (sel_access g sel) \<and> bit (sel_access g sel) 1
     \<and> dpl (sel_access g sel) = pl \<and> rpl sel = pl"

definition data_ok :: "bytes \<Rightarrow> u8 \<Rightarrow> u16 \<Rightarrow> bool" where
  "data_ok g pl sel \<longleftrightarrow> null_sel sel \<or>
     in_gdt g sel \<and> (is_code (sel_access g sel) \<longrightarrow> bit (sel_access g sel) 1)
     \<and> (conforming (sel_access g sel) \<or> max pl (rpl sel) \<le> dpl (sel_access g sel))"

text \<open>What the task register takes: a present 32-bit task state segment that is not in use. That loading it marks it busy is left out.\<close>

definition tss_ok :: "bytes \<Rightarrow> u16 \<Rightarrow> bool" where
  "tss_ok g sel \<longleftrightarrow> \<not> null_sel sel \<and> \<not> bit sel 2 \<and> sel_index sel * 8 + 8 \<le> length g
     \<and> present (sel_access g sel) \<and> sel_access g sel AND 0x1F = 0x09"

text \<open>On a return to privilege \<open>pl\<close> a data selector with more privilege than that becomes null.\<close>

definition dropped :: "bytes \<Rightarrow> u8 \<Rightarrow> u16 \<Rightarrow> u16" where
  "dropped g pl sel =
     (if \<not> null_sel sel \<and> \<not> conforming (sel_access g sel) \<and> dpl (sel_access g sel) < pl then 0 else sel)"

section \<open>The stack\<close>

definition set_reg :: "reg32 \<Rightarrow> u32 \<Rightarrow> cpu \<Rightarrow> cpu" where
  "set_reg r v c = c\<lparr>rg := (rg c)(r := v)\<rparr>"

definition push :: "u32 \<Rightarrow> cpu \<Rightarrow> cpu" where
  "push w c = c\<lparr>rg := (rg c)(ESP := rg c ESP - 4), ram := wr32 (ram c) (rg c ESP - 4) w\<rparr>"

text \<open>The \<open>i\<close>-th word from the top.\<close>

definition peek :: "nat \<Rightarrow> cpu \<Rightarrow> u32" where
  "peek i c = rd32 (ram c) (rg c ESP + of_nat (4 * i))"

definition discard :: "nat \<Rightarrow> cpu \<Rightarrow> cpu" where
  "discard n c = set_reg ESP (rg c ESP + of_nat (4 * n)) c"

definition load_seg :: "sreg \<Rightarrow> u16 \<Rightarrow> cpu \<Rightarrow> cpu option" where
  "load_seg s sel c =
     (if (if s = SS then stack_ok (gdt_used c) (cpl c) sel else data_ok (gdt_used c) (cpl c) sel)
      then Some (c\<lparr>sg := (sg c)(s := sel)\<rparr>) else None)"

section \<open>Entering and leaving an interrupt\<close>

definition trap_gate :: "idt_entry \<Rightarrow> bool" where
  "trap_gate d \<longleftrightarrow> bit (attributes d) 0"

definition clear_flags :: "nat list \<Rightarrow> u32 \<Rightarrow> u32" where
  "clear_flags bs fl = fold unset_bit bs fl"

text \<open>
  Interrupt entry through a gate to kernel code. From user mode the stack is the one the task state segment \<open>t\<close> names, and
  the old one is pushed there; some exceptions push an error code.
\<close>

definition enter_gate :: "tss_structure \<Rightarrow> idt_entry \<Rightarrow> u32 option \<Rightarrow> cpu \<Rightarrow> cpu" where
  "enter_gate t d err c =
     (let c1 = (if cpl c = 0 then c
                else push (rg c ESP) (push (ucast (sg c SS))
                  (c\<lparr>rg := (rg c)(ESP := t_esp0 t), sg := (sg c)(SS := ucast (t_ss0 t))\<rparr>)));
          c2 = push (eip_reg c) (push (ucast (cs_reg c)) (push (eflags_reg c) c1));
          c3 = (case err of None \<Rightarrow> c2 | Some e \<Rightarrow> push e c2)
      in c3\<lparr>cs_reg := kernel_cs d AND NOT 3, eip_reg := gate_target d,
            eflags_reg := clear_flags ((if trap_gate d then [] else [FLAG_IF]) @ [FLAG_TF, FLAG_NT, FLAG_RF, FLAG_VM]) (eflags_reg c)\<rparr>)"

text \<open>\<open>iret\<close> at privilege 0. A return to another task or to virtual mode is left out.\<close>

definition iret :: "cpu \<Rightarrow> cpu option" where
  "iret c =
     (let new_eip = peek 0 c; new_cs = ucast (peek 1 c); fl = peek 2 c; g = gdt_used c
      in if bit (eflags_reg c) FLAG_NT \<or> bit fl FLAG_VM \<or> cpl c \<noteq> 0 \<or> \<not> code_ok g new_cs then None
         else if rpl new_cs = 0
         then Some ((discard 3 c)\<lparr>eip_reg := new_eip, cs_reg := new_cs, eflags_reg := fl\<rparr>)
         else (let new_esp = peek 3 c; new_ss = ucast (peek 4 c)
               in if \<not> stack_ok g (rpl new_cs) new_ss then None
                  else Some ((set_reg ESP new_esp c)\<lparr>eip_reg := new_eip, cs_reg := new_cs, eflags_reg := fl,
                         sg := (\<lambda>s. dropped g (rpl new_cs) (sg c s))(SS := new_ss)\<rparr>)))"

section \<open>Instructions\<close>

datatype (plugins only: code size) insn =
    Push_imm u32 | Push reg32 | Push_seg sreg | Pushf | Pusha
  | Pop reg32 | Pop_seg sreg | Popa
  | Mov_ax u16 | Mov_seg sreg | Load reg32 reg32 u32 | Load_var reg32 saved_var | Store_var saved_var reg32 | Mov_imm reg32 u32
  | Add_imm reg32 u32 | Or_imm reg32 u32
  | Mov_from_cr0 reg32 | Mov_to_cr0 reg32 | Mov_to_cr3 reg32 | Invlpg reg32
  | Cli | Sti | Lgdt bytes | Lidt "idt_entry list" | Ltr
  | Jmp_far u16 u32 | Call u32 | Ret | Iret

text \<open>
  A selector is pushed as a word with a zero upper half, which nothing reads. \<^verbatim>\<open>invlpg\<close> drops a cached translation, and there is no cache here.
  \<open>Call\<close>, the only instruction that runs \<^verbatim>\<open>C\<close> code, is in \<open>run\<close>.
\<close>

primrec exec :: "insn \<Rightarrow> cpu \<Rightarrow> cpu option" where
  "exec (Push_imm w) c = Some (push w c)"
| "exec (Push r) c = Some (push (rg c r) c)"
| "exec (Push_seg s) c = Some (push (ucast (sg c s)) c)"
| "exec Pushf c = Some (push (eflags_reg c) c)"
| "exec Pusha c = Some (fold (\<lambda>r. push (rg c r)) [EAX, ECX, EDX, EBX, ESP, EBP, ESI, EDI] c)"
| "exec (Pop r) c = Some (set_reg r (peek 0 c) (discard 1 c))"
| "exec (Pop_seg s) c = load_seg s (ucast (peek 0 c)) (discard 1 c)"
| "exec Popa c = Some (discard 8 (c\<lparr>rg := (rg c)(EDI := peek 0 c, ESI := peek 1 c, EBP := peek 2 c,
     EBX := peek 4 c, EDX := peek 5 c, ECX := peek 6 c, EAX := peek 7 c)\<rparr>))"
| "exec (Mov_ax w) c = Some (set_reg EAX ((rg c EAX AND 0xFFFF0000) OR ucast w) c)"
| "exec (Mov_seg s) c = load_seg s (ucast (rg c EAX)) c"
| "exec (Load r b off) c = Some (set_reg r (rd32 (ram c) (rg c b + off)) c)"
| "exec (Load_var r v) c = Some (set_reg r (saved c v) c)"
| "exec (Store_var v r) c = Some (c\<lparr>saved := (saved c)(v := rg c r)\<rparr>)"
| "exec (Mov_imm r w) c = Some (set_reg r w c)"
| "exec (Add_imm r w) c = Some (set_reg r (rg c r + w) c)"
| "exec (Or_imm r w) c = Some (set_reg r (rg c r OR w) c)"
| "exec (Mov_from_cr0 r) c = Some (set_reg r (cr0_reg c) c)"
| "exec (Mov_to_cr0 r) c = Some (c\<lparr>cr0_reg := rg c r\<rparr>)"
| "exec (Mov_to_cr3 r) c = Some (c\<lparr>cr3_reg := rg c r\<rparr>)"
| "exec (Invlpg r) c = Some c"
| "exec Cli c = Some (c\<lparr>eflags_reg := unset_bit FLAG_IF (eflags_reg c)\<rparr>)"
| "exec Sti c = Some (c\<lparr>eflags_reg := set_bit FLAG_IF (eflags_reg c)\<rparr>)"
| "exec (Lgdt g) c = Some (c\<lparr>gdt_used := g\<rparr>)"
| "exec (Lidt i) c = Some (c\<lparr>idt_used := i\<rparr>)"
| "exec Ltr c = (let sel = ucast (rg c EAX) in
     if cpl c = 0 \<and> tss_ok (gdt_used c) sel then Some (c\<lparr>tr_reg := sel\<rparr>) else None)"
| "exec (Jmp_far sel a) c =
     (if in_gdt (gdt_used c) sel \<and> is_code (sel_access (gdt_used c) sel) \<and> \<not> conforming (sel_access (gdt_used c) sel)
         \<and> dpl (sel_access (gdt_used c) sel) = cpl c \<and> rpl sel \<le> cpl c
      then Some (c\<lparr>cs_reg := (sel AND NOT 3) OR ucast (cpl c), eip_reg := a\<rparr>) else None)"
| "exec (Call ra) c = None"
| "exec Ret c = Some ((discard 1 c)\<lparr>eip_reg := peek 0 c\<rparr>)"
| "exec Iret c = iret c"

text \<open>
  A \<^verbatim>\<open>C\<close> function acts on the processor and on the kernel \<open>'k\<close>; it starts with its return address on top
  of the stack. It returns, or abandons its caller.
\<close>

type_synonym 'k cfun = "cpu \<Rightarrow> 'k \<Rightarrow> (cpu \<times> 'k) flow option"

fun call_target :: "insn \<Rightarrow> u32 option" where
  "call_target (Call ra) = Some ra"
| "call_target i = None"

fun run :: "'k cfun \<Rightarrow> insn list \<Rightarrow> cpu \<Rightarrow> 'k \<Rightarrow> (cpu \<times> 'k) flow option" where
  "run f [] c k = Some (Returns (c, k))"
| "run f (i # code) c k =
     (case call_target i of
        Some ra \<Rightarrow> (case f (push ra c) k of Some (Returns (c, k)) \<Rightarrow> run f code c k | r \<Rightarrow> r)
      | None \<Rightarrow> (case exec i c of Some c \<Rightarrow> run f code c k | None \<Rightarrow> None))"

lemma run_step: "exec i c = Some c' \<Longrightarrow> run f (i # code) c k = run f code c' k"
  by (cases i) simp_all

end
