(* ===== verification/Cpu_Asm.thy ===== *)
theory Cpu_Asm
  imports Cpu
begin

text \<open>
  The routines of \<^verbatim>\<open>kernel/cpu.asm\<close>, \<^verbatim>\<open>kernel/kernel_entry.asm\<close> and \<^verbatim>\<open>boot/boot.asm\<close>, instruction by instruction. A jump to a
  common routine continues with its instructions. Addresses the linker fixes are arguments: \<open>ra\<close> is the address of the instruction after a call.
\<close>

section \<open>Tables\<close>

definition load_gdt :: "gdt_state \<Rightarrow> u32 \<Rightarrow> insn list" where
  "load_gdt gdtr flush =
     [Lgdt (gdt gdtr), Mov_ax 0x10, Mov_seg DS, Mov_seg ES, Mov_seg FS, Mov_seg GS, Mov_seg SS, Jmp_far 0x08 flush, Ret]"

definition load_tss :: "insn list" where
  "load_tss = [Cli, Mov_ax 0x28, Ltr, Ret]"

definition load_idt :: "idt_state \<Rightarrow> insn list" where
  "load_idt idtr = [Lidt (idt idtr), Sti, Ret]"

section \<open>Exceptions\<close>

definition isr_global_action :: "u32 \<Rightarrow> insn list" where
  "isr_global_action ra =
     [Pusha, Push_seg DS, Push_seg ES, Push_seg FS, Push_seg GS,
      Mov_ax 0x10, Mov_seg DS, Mov_seg ES, Mov_seg FS, Mov_seg GS,
      Push ESP, Call ra, Add_imm ESP 4,
      Pop_seg GS, Pop_seg FS, Pop_seg ES, Pop_seg DS, Popa,
      Add_imm ESP 8, Iret]"

definition isr_no_err_stub :: "nat \<Rightarrow> u32 \<Rightarrow> insn list" where
  "isr_no_err_stub n ra = [Push_imm 0, Push_imm (of_nat n)] @ isr_global_action ra"

definition isr_err_stub :: "nat \<Rightarrow> u32 \<Rightarrow> insn list" where
  "isr_err_stub n ra = [Push_imm (of_nat n)] @ isr_global_action ra"

definition isr_stubs :: "u32 \<Rightarrow> insn list list" where
  "isr_stubs ra =
     [isr_no_err_stub 0 ra, isr_no_err_stub 1 ra, isr_no_err_stub 2 ra, isr_no_err_stub 3 ra, isr_no_err_stub 4 ra,
      isr_no_err_stub 5 ra, isr_no_err_stub 6 ra, isr_no_err_stub 7 ra, isr_err_stub 8 ra, isr_no_err_stub 9 ra,
      isr_err_stub 10 ra, isr_err_stub 11 ra, isr_err_stub 12 ra, isr_err_stub 13 ra, isr_err_stub 14 ra,
      isr_no_err_stub 15 ra, isr_no_err_stub 16 ra, isr_err_stub 17 ra, isr_no_err_stub 18 ra, isr_no_err_stub 19 ra,
      isr_no_err_stub 20 ra, isr_no_err_stub 21 ra, isr_no_err_stub 22 ra, isr_no_err_stub 23 ra, isr_no_err_stub 24 ra,
      isr_no_err_stub 25 ra, isr_no_err_stub 26 ra, isr_no_err_stub 27 ra, isr_no_err_stub 28 ra, isr_no_err_stub 29 ra,
      isr_err_stub 30 ra, isr_no_err_stub 31 ra]"

section \<open>Interrupts and system calls\<close>

definition irq_global_action :: "u32 \<Rightarrow> insn list" where
  "irq_global_action ra =
     [Pusha, Push_seg DS, Push_seg ES, Push_seg FS, Push_seg GS,
      Mov_ax 0x10, Mov_seg DS, Mov_seg ES, Mov_seg FS, Mov_seg GS,
      Push ESP, Call ra, Add_imm ESP 4,
      Pop_seg GS, Pop_seg FS, Pop_seg ES, Pop_seg DS, Popa,
      Add_imm ESP 8, Iret]"

definition irq_stub :: "nat \<Rightarrow> u32 \<Rightarrow> insn list" where
  "irq_stub n ra = [Push_imm 0, Push_imm (of_nat n)] @ irq_global_action ra"

definition irq_stubs :: "u32 \<Rightarrow> insn list list" where
  "irq_stubs ra =
     [irq_stub 0 ra, irq_stub 1 ra, irq_stub 2 ra, irq_stub 3 ra, irq_stub 4 ra, irq_stub 5 ra, irq_stub 6 ra, irq_stub 7 ra,
      irq_stub 8 ra, irq_stub 9 ra, irq_stub 10 ra, irq_stub 11 ra, irq_stub 12 ra, irq_stub 13 ra, irq_stub 14 ra, irq_stub 15 ra]"

definition syscall_stub :: "u32 \<Rightarrow> insn list" where
  "syscall_stub ra =
     [Push_imm 0, Push_imm 0x80, Pusha, Push_seg DS, Push_seg ES, Push_seg FS, Push_seg GS,
      Mov_ax 0x10, Mov_seg DS, Mov_seg ES, Mov_seg FS, Mov_seg GS,
      Push ESP, Call ra, Add_imm ESP 4,
      Pop_seg GS, Pop_seg FS, Pop_seg ES, Pop_seg DS, Popa,
      Add_imm ESP 8, Iret]"

section \<open>User mode and back\<close>

definition kernel_resume_after_exit :: "insn list" where
  "kernel_resume_after_exit =
     [Load_var ESP process_saved_esp, Load_var EBP process_saved_ebp, Load_var EBX process_saved_ebx,
      Load_var ESI process_saved_esi, Load_var EDI process_saved_edi, Ret]"

definition enter_user_mode :: "insn list" where
  "enter_user_mode =
     [Load EAX ESP 4, Load ECX ESP 8,
      Store_var process_saved_esp ESP, Store_var process_saved_ebp EBP, Store_var process_saved_ebx EBX,
      Store_var process_saved_esi ESI, Store_var process_saved_edi EDI,
      Pushf, Pop EDX, Or_imm EDX 0x200,
      Push_imm 0x23, Push ECX, Push EDX, Push_imm 0x1B, Push EAX, Iret]"

section \<open>Paging\<close>

definition enable_paging :: "insn list" where
  "enable_paging = [Mov_from_cr0 EAX, Or_imm EAX 0x80000000, Mov_to_cr0 EAX, Ret]"

definition load_cr3 :: "insn list" where
  "load_cr3 = [Load EAX ESP 4, Mov_to_cr3 EAX, Ret]"

definition invlpg_addr :: "insn list" where
  "invlpg_addr = [Load EAX ESP 4, Invlpg EAX, Ret]"

section \<open>Start\<close>

text \<open>\<^verbatim>\<open>_start\<close>, up to the loop around \<^verbatim>\<open>hlt\<close> that follows when \<^verbatim>\<open>kmain\<close> returns.\<close>

definition kernel_start :: "u32 \<Rightarrow> u32 \<Rightarrow> insn list" where
  "kernel_start stack_end ra = [Mov_imm ESP stack_end, Push EBX, Call ra, Cli]"

definition MALIGN :: u32 where "MALIGN = push_bit 0 1"
definition MEMINFO :: u32 where "MEMINFO = push_bit 1 1"
definition MB_FLAGS :: u32 where "MB_FLAGS = MALIGN OR MEMINFO"
definition MAGIC :: u32 where "MAGIC = 0x1BADB002"
definition CHECKSUM :: u32 where "CHECKSUM = - (MAGIC + MB_FLAGS)"

definition multiboot_header :: "u32 list" where
  "multiboot_header = [MAGIC, MB_FLAGS, CHECKSUM]"

end
