(* ===== verification/Cpu_Stack.thy ===== *)
theory Cpu_Stack
  imports Cpu_Asm
begin

text \<open>
  Words on the stack, the way routines that push and pop see them, and the frame the stubs build: how it is
  put there, and how the interrupted context comes back from it.
\<close>

section \<open>Words in memory\<close>

definition stack_at :: "mem \<Rightarrow> u32 \<Rightarrow> u32 list \<Rightarrow> bool" where
  "stack_at m a ws \<longleftrightarrow> unat a + 4 * length ws < 4294967296 \<and> (\<forall>i < length ws. rd32 m (a + of_nat (4 * i)) = ws ! i)"

abbreviation on_stack :: "cpu \<Rightarrow> u32 list \<Rightarrow> bool" where
  "on_stack c ws \<equiv> stack_at (ram c) (rg c ESP) ws"

lemma stack_at_Nil [simp]: "stack_at m a []"
  by (simp add: stack_at_def)

lemma unat_minus_le: "n \<le> unat a \<Longrightarrow> unat (a - of_nat n) = unat a - n" for a :: u32
proof -
  assume n: "n \<le> unat a"
  then have u: "unat (of_nat n :: u32) = n" using unat_lt_2p32 [of a] by (simp add: unat_of_nat take_bit_nat_eq_self del: unat_lt_2p32)
  then have "(of_nat n :: u32) \<le> a" using n by (simp add: word_le_nat_alt)
  then show ?thesis by (simp add: unat_sub u)
qed

lemma stack_at_peek: "stack_at m a ws \<Longrightarrow> i < length ws \<Longrightarrow> rd32 m (a + of_nat (4 * i)) = ws ! i"
  by (simp add: stack_at_def)

lemma on_stack_peek: "on_stack c ws \<Longrightarrow> i < length ws \<Longrightarrow> peek i c = ws ! i"
  unfolding peek_def by (rule stack_at_peek)

lemma stack_at_drop:
  assumes "stack_at m a ws" "n \<le> length ws"
  shows "stack_at m (a + of_nat (4 * n)) (drop n ws)"
proof -
  have "unat (a + of_nat (4 * n)) = unat a + 4 * n"
    using assms unat_plus_le [of a "4 * n"] by (simp add: stack_at_def)
  moreover have "rd32 m (a + of_nat (4 * n) + of_nat (4 * i)) = ws ! (n + i)" if "i < length ws - n" for i
    using stack_at_peek [OF assms(1), of "n + i"] that assms(2) by (simp add: algebra_simps)
  moreover have "4 * n + 4 * (length ws - n) = 4 * length ws" using assms(2) by simp
  ultimately show ?thesis using assms(1) unfolding stack_at_def by simp
qed

lemma stack_at_push:
  assumes "stack_at m a ws" "4 \<le> unat a"
  shows "stack_at (wr32 m (a - 4) w) (a - 4) (w # ws)"
proof -
  have u: "unat (a - 4) = unat a - 4" using unat_minus_le [OF assms(2)] by simp
  have "rd32 (wr32 m (a - 4) w) (a - 4 + of_nat (4 * i)) = (w # ws) ! i" if "i < Suc (length ws)" for i
  proof (cases i)
    case 0
    then show ?thesis by (simp add: rd32_wr32_same)
  next
    case (Suc j)
    have e: "a - 4 + of_nat (4 * i) = a + of_nat (4 * j)" by (simp add: Suc)
    have "unat (a + of_nat (4 * j)) = unat a + 4 * j"
      using assms(1) that Suc unat_plus_le [of a "4 * j"] by (simp add: stack_at_def)
    then have "apart32 (a - 4) (a + of_nat (4 * j))"
      using u assms that Suc by (simp add: apart32_def stack_at_def)
    then show ?thesis using stack_at_peek [OF assms(1), of j] that unfolding e by (simp add: rd32_wr32_apart Suc)
  qed
  then show ?thesis using assms u by (simp add: stack_at_def)
qed

section \<open>Pushing and popping\<close>

lemma push_parts [simp]:
  "rg (push w c) = (rg c)(ESP := rg c ESP - 4)" "sg (push w c) = sg c" "cs_reg (push w c) = cs_reg c"
  "eip_reg (push w c) = eip_reg c" "eflags_reg (push w c) = eflags_reg c" "gdt_used (push w c) = gdt_used c"
  "saved (push w c) = saved c" "cpl (push w c) = cpl c" "idt_used (push w c) = idt_used c"
  by (simp_all add: push_def cpl_def)

lemma pushes_parts [simp]:
  "rg (fold push xs c) = (rg c)(ESP := rg c ESP - of_nat (4 * length xs))" "sg (fold push xs c) = sg c"
  "cs_reg (fold push xs c) = cs_reg c" "eip_reg (fold push xs c) = eip_reg c" "eflags_reg (fold push xs c) = eflags_reg c"
  "gdt_used (fold push xs c) = gdt_used c" "saved (fold push xs c) = saved c" "cpl (fold push xs c) = cpl c"
  "idt_used (fold push xs c) = idt_used c"
  by (induction xs arbitrary: c) (simp_all add: algebra_simps)

lemma on_stack_pushes:
  "on_stack c ws \<Longrightarrow> 4 * length xs \<le> unat (rg c ESP) \<Longrightarrow> on_stack (fold push xs c) (rev xs @ ws)"
proof (induction xs arbitrary: c ws)
  case (Cons x xs)
  have u: "unat (rg c ESP - 4) = unat (rg c ESP) - 4" using unat_minus_le [of 4 "rg c ESP"] Cons.prems(2) by simp
  have "on_stack (push x c) (x # ws)" using stack_at_push [OF Cons.prems(1)] Cons.prems(2) by (simp add: push_def)
  then have "on_stack (fold push xs (push x c)) (rev xs @ x # ws)" using Cons.IH [of "push x c" "x # ws"] Cons.prems(2) u by simp
  then show ?case by simp
qed simp

text \<open>The bytes pushes leave alone.\<close>

lemma push_ram:
  assumes "4 \<le> unat (rg c ESP)" "a \<notin> range32 (rg c ESP - 4) 4"
  shows "ram (push w c) a = ram c a"
proof -
  have "unat (rg c ESP - 4) + 4 \<le> 4294967296" using unat_minus_le [of 4 "rg c ESP"] assms(1) less_imp_le [OF unat_lt_2p32 [of "rg c ESP"]] by simp
  then show ?thesis using wr32_outside [OF assms(2)] by (simp add: push_def)
qed

lemma pushes_ram:
  "4 * length xs \<le> n \<Longrightarrow> n \<le> unat (rg c ESP) \<Longrightarrow> a \<notin> range32 (rg c ESP - of_nat n) n \<Longrightarrow> ram (fold push xs c) a = ram c a"
proof (induction xs arbitrary: c n)
  case (Cons x xs)
  have u: "unat (rg c ESP - 4) = unat (rg c ESP) - 4" "unat (rg c ESP - of_nat n) = unat (rg c ESP) - n"
    using unat_minus_le [of 4 "rg c ESP"] unat_minus_le [of n "rg c ESP"] Cons.prems by simp_all
  have n: "n = 4 + (n - 4)" using Cons.prems(1) by simp
  have e: "rg c ESP - 4 - of_nat (n - 4) = rg c ESP - of_nat n" by (subst (2) n) (simp only: of_nat_add diff_diff_eq of_nat_numeral)
  have "a \<notin> range32 (rg c ESP - 4) 4" using Cons.prems u by (auto simp: range32_iff)
  then have 1: "ram (push x c) a = ram c a" using push_ram Cons.prems by simp
  have "a \<notin> range32 (rg c ESP - 4 - of_nat (n - 4)) (n - 4)" using Cons.prems unfolding e range32_iff u by auto
  then have "ram (fold push xs (push x c)) a = ram (push x c) a"
    using Cons.IH [of "n - 4" "push x c"] Cons.prems u by simp
  then show ?case using 1 by simp
qed simp

lemma set_reg_parts [simp]:
  "rg (set_reg r v c) = (rg c)(r := v)" "sg (set_reg r v c) = sg c" "cs_reg (set_reg r v c) = cs_reg c" "ram (set_reg r v c) = ram c"
  "eflags_reg (set_reg r v c) = eflags_reg c" "gdt_used (set_reg r v c) = gdt_used c" "saved (set_reg r v c) = saved c"
  "cpl (set_reg r v c) = cpl c" "eip_reg (set_reg r v c) = eip_reg c"
  by (simp_all add: set_reg_def cpl_def)

lemma discard_parts [simp]:
  "rg (discard n c) = (rg c)(ESP := rg c ESP + of_nat (4 * n))" "sg (discard n c) = sg c" "cs_reg (discard n c) = cs_reg c"
  "ram (discard n c) = ram c" "eflags_reg (discard n c) = eflags_reg c" "gdt_used (discard n c) = gdt_used c"
  "saved (discard n c) = saved c" "cpl (discard n c) = cpl c" "eip_reg (discard n c) = eip_reg c"
  by (simp_all add: discard_def)

lemma peek_moved [simp]:
  "peek i (discard n c) = peek (n + i) c" "peek i (c\<lparr>sg := s\<rparr>) = peek i c" "r \<noteq> ESP \<Longrightarrow> peek i (set_reg r v c) = peek i c"
  by (simp_all add: peek_def algebra_simps)

end
