(* ===== verification/Cpu_Frame.thy ===== *)
theory Cpu_Frame
  imports Cpu_Stack
begin

text \<open>
  The frame the stubs of \<^verbatim>\<open>cpu.asm\<close> build on the kernel stack, \<^verbatim>\<open>struct regs\<close> of \<^verbatim>\<open>include/regs.h\<close>: how gate and stub put it there, and how the
  interrupted context comes back from it.
\<close>

record trap_frame =
  f_gs :: u32
  f_fs :: u32
  f_es :: u32
  f_ds :: u32
  f_edi :: u32
  f_esi :: u32
  f_ebp :: u32
  f_esp :: u32
  f_ebx :: u32
  f_edx :: u32
  f_ecx :: u32
  f_eax :: u32
  f_vector :: u32
  f_error_code :: u32
  f_eip :: u32
  f_cs :: u32
  f_eflags :: u32

definition frame_words :: "trap_frame \<Rightarrow> u32 list" where
  "frame_words f = [f_gs f, f_fs f, f_es f, f_ds f, f_edi f, f_esi f, f_ebp f, f_esp f, f_ebx f, f_edx f, f_ecx f, f_eax f,
     f_vector f, f_error_code f, f_eip f, f_cs f, f_eflags f]"

lemma frame_words_length [simp]: "length (frame_words f) = 17"
  by (simp add: frame_words_def)

text \<open>The registers the handlers look at.\<close>

definition regs_of :: "trap_frame \<Rightarrow> regs" where
  "regs_of f = \<lparr>r_ebx = f_ebx f, r_ecx = f_ecx f, r_eax = f_eax f, r_vector = f_vector f, r_error_code = f_error_code f,
     r_eip = f_eip f, r_cs = f_cs f\<rparr>"

section \<open>Into the handler\<close>

text \<open>The kernel stack an interrupt uses, and what the gate pushes on it.\<close>

definition kernel_sp :: "tss_structure \<Rightarrow> cpu \<Rightarrow> u32" where
  "kernel_sp t c = (if cpl c = 0 then rg c ESP else t_esp0 t)"

definition on_kernel_stack :: "tss_structure \<Rightarrow> cpu \<Rightarrow> cpu" where
  "on_kernel_stack t c =
     (if cpl c = 0 then c else c\<lparr>rg := (rg c)(ESP := t_esp0 t), sg := (sg c)(SS := ucast (t_ss0 t))\<rparr>)"

definition outer_words :: "cpu \<Rightarrow> u32 list" where
  "outer_words c = (if cpl c = 0 then [] else [rg c ESP, ucast (sg c SS)])"

definition gate_flags :: "idt_entry \<Rightarrow> u32 \<Rightarrow> u32" where
  "gate_flags d fl = clear_flags ((if trap_gate d then [] else [FLAG_IF]) @ [FLAG_TF, FLAG_NT, FLAG_RF, FLAG_VM]) fl"

lemma enter_gate_pushes:
  "enter_gate t d err c = (fold push (rev (outer_words c) @ [eflags_reg c, ucast (cs_reg c), eip_reg c] @ (case err of None \<Rightarrow> [] | Some e \<Rightarrow> [e]))
     (on_kernel_stack t c))\<lparr>cs_reg := kernel_cs d AND NOT 3, eip_reg := gate_target d, eflags_reg := gate_flags d (eflags_reg c)\<rparr>"
  by (simp add: enter_gate_def outer_words_def on_kernel_stack_def gate_flags_def Let_def split: option.split)

lemma on_kernel_stack_parts [simp]:
  "rg (on_kernel_stack t c) = (rg c)(ESP := kernel_sp t c)" "ram (on_kernel_stack t c) = ram c"
  "sg (on_kernel_stack t c) = (sg c)(SS := if cpl c = 0 then sg c SS else ucast (t_ss0 t))"
  "cs_reg (on_kernel_stack t c) = cs_reg c" "eflags_reg (on_kernel_stack t c) = eflags_reg c" "gdt_used (on_kernel_stack t c) = gdt_used c"
  "saved (on_kernel_stack t c) = saved c"
  by (simp_all add: on_kernel_stack_def kernel_sp_def)

lemma cpu_updates [simp]:
  "fold push xs (c\<lparr>cs_reg := a, eip_reg := b, eflags_reg := e\<rparr>) = (fold push xs c)\<lparr>cs_reg := a, eip_reg := b, eflags_reg := e\<rparr>"
proof (induction xs arbitrary: c)
  case (Cons x xs)
  have "push x (c\<lparr>cs_reg := a, eip_reg := b, eflags_reg := e\<rparr>) = (push x c)\<lparr>cs_reg := a, eip_reg := b, eflags_reg := e\<rparr>"
    by (cases c) (simp add: push_def)
  then show ?case using Cons by simp
qed simp

lemma cpl_updates [simp]:
  "cpl (c\<lparr>sg := g\<rparr>) = cpl c" "cpl (c\<lparr>rg := r\<rparr>) = cpl c" "cpl (c\<lparr>eip_reg := a\<rparr>) = cpl c" "cpl (c\<lparr>eflags_reg := e\<rparr>) = cpl c"
  by (simp_all add: cpl_def)

text \<open>What the common part of the stubs pushes, and the processor at the start of the handler.\<close>

definition context_pushes :: "cpu \<Rightarrow> u32 list" where
  "context_pushes c = map (rg c) [EAX, ECX, EDX, EBX, ESP, EBP, ESI, EDI] @ map (\<lambda>s. ucast (sg c s)) [DS, ES, FS, GS]"

definition handler_segs :: "cpu \<Rightarrow> cpu" where
  "handler_segs c = (set_reg EAX ((rg c EAX AND 0xFFFF0000) OR 0x10) c)\<lparr>sg := (\<lambda>s. if s = SS then sg c SS else 0x10)\<rparr>"

definition in_handler :: "u32 \<Rightarrow> cpu \<Rightarrow> cpu" where
  "in_handler ra c = (let c1 = handler_segs (fold push (context_pushes c) c) in push ra (push (rg c1 ESP) c1))"

definition stub_save :: "u32 \<Rightarrow> insn list" where
  "stub_save ra = [Pusha, Push_seg DS, Push_seg ES, Push_seg FS, Push_seg GS,
      Mov_ax 0x10, Mov_seg DS, Mov_seg ES, Mov_seg FS, Mov_seg GS, Push ESP, Call ra]"

definition stub_restore :: "insn list" where
  "stub_restore = [Add_imm ESP 4, Pop_seg GS, Pop_seg FS, Pop_seg ES, Pop_seg DS, Popa, Add_imm ESP 8, Iret]"

lemma low_half: "(ucast ((x AND 0xFFFF0000) OR 0x10 :: u32) :: u16) = 0x10"
proof -
  have "(ucast (x AND 0xFFFF0000 :: u32) :: u16) = 0"
  proof (rule bit_word_eqI)
    fix n assume n: "n < LENGTH(16)"
    have m: "(0xFFFF0000 :: u32) = NOT (mask 16)" by (simp add: mask_eq_exp_minus_1)
    show "bit (ucast (x AND 0xFFFF0000 :: u32) :: u16) n = bit (0 :: u16) n" unfolding m using n by (simp add: bit_simps)
  qed
  then show ?thesis by (simp add: unsigned_or_eq)
qed

lemma mov_seg_ok:
  assumes "s \<noteq> SS" "(ucast (rg c EAX) :: u16) = 0x10" "data_ok (gdt_used c) 0 0x10" "cpl c = 0"
  shows "exec (Mov_seg s) c = Some (c\<lparr>sg := (sg c)(s := 0x10)\<rparr>)"
  using assms by (simp add: load_seg_def)

lemma run_push_segs:
  "run f (map Push_seg ss @ code) c k = run f code (fold push (map (\<lambda>s. ucast (sg c s)) ss) c) k"
  by (induction ss arbitrary: c) simp_all

lemma run_pushes:
  "run f ([Pusha, Push_seg DS, Push_seg ES, Push_seg FS, Push_seg GS] @ code) c k = run f code (fold push (context_pushes c) c) k"
proof -
  define p where "p = fold push (map (rg c) [EAX, ECX, EDX, EBX, ESP, EBP, ESI, EDI]) c"
  have "exec Pusha c = Some p" by (simp add: p_def)
  moreover have "sg p = sg c" unfolding p_def by (rule pushes_parts)
  ultimately have "run f (Pusha # map Push_seg [DS, ES, FS, GS] @ code) c k
      = run f code (fold push (map (\<lambda>s. ucast (sg c s)) [DS, ES, FS, GS]) p) k"
    by (simp only: run_step run_push_segs)
  moreover have "fold push (context_pushes c) c = fold push (map (\<lambda>s. ucast (sg c s)) [DS, ES, FS, GS]) p"
    by (simp only: context_pushes_def fold_append o_apply p_def)
  ultimately show ?thesis by (simp only: list.map append.simps)
qed

lemma run_save:
  assumes "data_ok (gdt_used c) 0 0x10" "cpl c = 0"
  shows "run f (stub_save ra @ code) c k = (case f (in_handler ra c) k of Some (Returns (c, k)) \<Rightarrow> run f code c k | r \<Rightarrow> r)"
proof -
  define c0 where "c0 = fold push (context_pushes c) c"
  define c1 where "c1 = set_reg EAX ((rg c0 EAX AND 0xFFFF0000) OR 0x10) c0"
  define c2 where "c2 = c1\<lparr>sg := (sg c1)(DS := 0x10)\<rparr>"
  define c3 where "c3 = c2\<lparr>sg := (sg c2)(ES := 0x10)\<rparr>"
  define c4 where "c4 = c3\<lparr>sg := (sg c3)(FS := 0x10)\<rparr>"
  define c5 where "c5 = c4\<lparr>sg := (sg c4)(GS := 0x10)\<rparr>"
  have g: "data_ok (gdt_used d) 0 0x10 \<and> cpl d = 0 \<and> (ucast (rg d EAX) :: u16) = 0x10" if "d \<in> {c1, c2, c3, c4}" for d
    using assms that by (auto simp: c4_def c3_def c2_def c1_def c0_def low_half)
  have "exec (Mov_seg DS) c1 = Some c2" "exec (Mov_seg ES) c2 = Some c3" "exec (Mov_seg FS) c3 = Some c4" "exec (Mov_seg GS) c4 = Some c5"
    using g mov_seg_ok by (simp_all add: c5_def c4_def c3_def c2_def del: exec.simps)
  moreover have "exec (Mov_ax 0x10) c0 = Some c1" by (simp add: c1_def)
  ultimately have "run f ([Mov_ax 0x10, Mov_seg DS, Mov_seg ES, Mov_seg FS, Mov_seg GS, Push ESP, Call ra] @ code) c0 k
      = run f ([Push ESP, Call ra] @ code) c5 k"
    by (simp add: run_step del: run.simps exec.simps)
  moreover have "run f (stub_save ra @ code) c k
      = run f ([Mov_ax 0x10, Mov_seg DS, Mov_seg ES, Mov_seg FS, Mov_seg GS, Push ESP, Call ra] @ code) c0 k"
    using run_pushes [of f "[Mov_ax 0x10, Mov_seg DS, Mov_seg ES, Mov_seg FS, Mov_seg GS, Push ESP, Call ra] @ code" c k]
    by (simp only: stub_save_def c0_def append.simps)
  ultimately have r: "run f (stub_save ra @ code) c k = run f ([Push ESP, Call ra] @ code) c5 k" by (simp only:)
  have "(sg c0)(DS := 0x10, ES := 0x10, FS := 0x10, GS := 0x10) = (\<lambda>s. if s = SS then sg c0 SS else 0x10)"
  proof
    fix s show "((sg c0)(DS := 0x10, ES := 0x10, FS := 0x10, GS := 0x10)) s = (if s = SS then sg c0 SS else 0x10)" by (cases s) simp_all
  qed
  then have "c5 = handler_segs c0" by (simp add: c5_def c4_def c3_def c2_def c1_def handler_segs_def)
  then show ?thesis unfolding r by (simp add: in_handler_def c0_def [symmetric] Let_def)
qed

section \<open>Out of the handler\<close>

text \<open>The processor before \<^verbatim>\<open>iret\<close>.\<close>

definition restored :: "trap_frame \<Rightarrow> cpu \<Rightarrow> cpu" where
  "restored fr c = c\<lparr>rg := (\<lambda>r. case r of EAX \<Rightarrow> f_eax fr | ECX \<Rightarrow> f_ecx fr | EDX \<Rightarrow> f_edx fr | EBX \<Rightarrow> f_ebx fr
       | ESP \<Rightarrow> rg c ESP + 60 | EBP \<Rightarrow> f_ebp fr | ESI \<Rightarrow> f_esi fr | EDI \<Rightarrow> f_edi fr),
     sg := (\<lambda>s. case s of DS \<Rightarrow> ucast (f_ds fr) | ES \<Rightarrow> ucast (f_es fr) | FS \<Rightarrow> ucast (f_fs fr) | GS \<Rightarrow> ucast (f_gs fr) | SS \<Rightarrow> sg c SS)\<rparr>"

lemma pop_seg_ok:
  assumes "s \<noteq> SS" "peek 0 c = w" "data_ok (gdt_used c) 0 (ucast w)" "cpl c = 0"
  shows "exec (Pop_seg s) c = Some ((discard 1 c)\<lparr>sg := (sg c)(s := ucast w)\<rparr>)"
  using assms by (simp add: load_seg_def)

lemma run_restore:
  assumes w: "on_stack c (x # frame_words fr @ rest)" and p: "cpl c = 0"
    and s: "data_ok (gdt_used c) 0 (ucast (f_gs fr))" "data_ok (gdt_used c) 0 (ucast (f_fs fr))"
      "data_ok (gdt_used c) 0 (ucast (f_es fr))" "data_ok (gdt_used c) 0 (ucast (f_ds fr))"
  shows "run f stub_restore c k = map_option (\<lambda>c. Returns (c, k)) (iret (restored fr c))"
proof -
  have pk: "peek i c = (x # frame_words fr @ rest) ! i" if "i < 18" for i
    using on_stack_peek [OF w, of i] that by simp
  define c1 where "c1 = discard 1 c"
  define c2 where "c2 = (discard 1 c1)\<lparr>sg := (sg c)(GS := ucast (f_gs fr))\<rparr>"
  define c3 where "c3 = (discard 1 c2)\<lparr>sg := (sg c2)(FS := ucast (f_fs fr))\<rparr>"
  define c4 where "c4 = (discard 1 c3)\<lparr>sg := (sg c3)(ES := ucast (f_es fr))\<rparr>"
  define c5 where "c5 = (discard 1 c4)\<lparr>sg := (sg c4)(DS := ucast (f_ds fr))\<rparr>"
  have q: "peek 0 c1 = f_gs fr" "peek 0 c2 = f_fs fr" "peek 0 c3 = f_es fr" "peek 0 c4 = f_ds fr"
    using pk [of 1] pk [of 2] pk [of 3] pk [of 4]
    by (simp_all add: c1_def c2_def c3_def c4_def numeral_eq_Suc frame_words_def)
  have q5: "peek i c5 = peek (5 + i) c" for i by (simp add: c1_def c2_def c3_def c4_def c5_def numeral_eq_Suc)
  have g: "gdt_used c1 = gdt_used c" "gdt_used c2 = gdt_used c" "gdt_used c3 = gdt_used c" "gdt_used c4 = gdt_used c"
      "cpl c1 = 0" "cpl c2 = 0" "cpl c3 = 0" "cpl c4 = 0"
    using p by (simp_all add: c1_def c2_def c3_def c4_def)
  have "exec (Add_imm ESP 4) c = Some c1" by (simp add: c1_def discard_def)
  moreover have "exec (Pop_seg GS) c1 = Some c2"
    using pop_seg_ok [of GS c1 "f_gs fr"] g s q by (simp add: c2_def c1_def)
  moreover have "exec (Pop_seg FS) c2 = Some c3"
    using pop_seg_ok [of FS c2 "f_fs fr"] g s q by (simp add: c3_def)
  moreover have "exec (Pop_seg ES) c3 = Some c4"
    using pop_seg_ok [of ES c3 "f_es fr"] g s q by (simp add: c4_def)
  moreover have "exec (Pop_seg DS) c4 = Some c5"
    using pop_seg_ok [of DS c4 "f_ds fr"] g s q by (simp add: c5_def)
  ultimately have r: "run f stub_restore c k = run f [Popa, Add_imm ESP 8, Iret] c5 k"
    by (simp add: stub_restore_def run_step del: exec.simps run.simps)
  define c6 where "c6 = discard 8 (c5\<lparr>rg := (rg c5)(EDI := f_edi fr, ESI := f_esi fr, EBP := f_ebp fr,
     EBX := f_ebx fr, EDX := f_edx fr, ECX := f_ecx fr, EAX := f_eax fr)\<rparr>)"
  have "exec Popa c5 = Some c6"
    using pk [of 5] pk [of 6] pk [of 7] pk [of 9] pk [of 10] pk [of 11] pk [of 12]
    by (simp add: c6_def q5 frame_words_def)
  moreover have "set_reg ESP (rg c6 ESP + 8) c6 = restored fr c"
  proof (rule cpu.equality)
    have e: "rg c5 ESP = rg c ESP + 20" by (simp add: c5_def c4_def c3_def c2_def c1_def)
    show "rg (set_reg ESP (rg c6 ESP + 8) c6) = rg (restored fr c)"
    proof
      fix r show "rg (set_reg ESP (rg c6 ESP + 8) c6) r = rg (restored fr c) r"
        by (cases r) (simp_all add: c6_def restored_def e)
    qed
    show "sg (set_reg ESP (rg c6 ESP + 8) c6) = sg (restored fr c)"
    proof
      fix s show "sg (set_reg ESP (rg c6 ESP + 8) c6) s = sg (restored fr c) s"
        by (cases s) (simp_all add: c6_def c5_def c4_def c3_def c2_def c1_def restored_def)
    qed
  qed (simp_all add: c6_def c5_def c4_def c3_def c2_def c1_def restored_def set_reg_def discard_def)
  ultimately have "run f stub_restore c k = run f [Iret] (restored fr c) k" unfolding r by (simp add: run_step del: run.simps)
  then show ?thesis by (cases "iret (restored fr c)") (simp_all)
qed

lemma restored_stack:
  assumes "on_stack c (x # frame_words fr @ rest)"
  shows "on_stack (restored fr c) ([f_eip fr, f_cs fr, f_eflags fr] @ rest)"
  using stack_at_drop [OF assms, of 15] by (simp add: restored_def frame_words_def)

end
