(* ===== verification/Cpu_Correct.thy ===== *)
theory Cpu_Correct
  imports Cpu_Frame
begin

text \<open>
  What the assembly is for: an interrupt leaves no trace in the code it interrupts, a system call changes one register, a program starts
  in user mode, and \<^verbatim>\<open>process_exit\<close> comes back to the caller of \<^verbatim>\<open>enter_user_mode\<close>.
\<close>

section \<open>The frame\<close>

definition frame_of :: "u32 \<Rightarrow> u32 \<Rightarrow> u32 \<Rightarrow> cpu \<Rightarrow> trap_frame" where
  "frame_of v e sp c = \<lparr>f_gs = ucast (sg c GS), f_fs = ucast (sg c FS), f_es = ucast (sg c ES), f_ds = ucast (sg c DS),
     f_edi = rg c EDI, f_esi = rg c ESI, f_ebp = rg c EBP, f_esp = sp, f_ebx = rg c EBX, f_edx = rg c EDX, f_ecx = rg c ECX,
     f_eax = rg c EAX, f_vector = v, f_error_code = e, f_eip = eip_reg c, f_cs = ucast (cs_reg c), f_eflags = eflags_reg c\<rparr>"

lemma in_handler_stack:
  assumes "on_stack c ws" "56 \<le> unat (rg c ESP)"
  shows "on_stack (in_handler ra c) (ra # (rg c ESP - 48) # rev (context_pushes c) @ ws)"
    "rg (in_handler ra c) = (rg c)(ESP := rg c ESP - 56, EAX := (rg c EAX AND 0xFFFF0000) OR 0x10)"
    "a \<notin> range32 (rg c ESP - 56) 56 \<Longrightarrow> ram (in_handler ra c) a = ram c a"
proof -
  define c1 where "c1 = fold push (context_pushes c) c"
  have l: "length (context_pushes c) = 12" by (simp add: context_pushes_def)
  have e: "rg c1 ESP = rg c ESP - 48" by (simp add: c1_def l)
  have h: "rg (handler_segs d) ESP = rg d ESP" "ram (handler_segs d) = ram d" for d by (simp_all add: handler_segs_def)
  have i: "in_handler ra c = fold push [rg c ESP - 48, ra] (handler_segs c1)"
    by (simp add: in_handler_def c1_def [symmetric] h e Let_def)
  have u: "unat (rg c ESP - 48) = unat (rg c ESP) - 48" "unat (rg c ESP - 56) = unat (rg c ESP) - 56"
    using unat_minus_le [of 48 "rg c ESP"] unat_minus_le [of 56 "rg c ESP"] assms(2) by simp_all
  have "on_stack c1 (rev (context_pushes c) @ ws)" unfolding c1_def using assms l by (intro on_stack_pushes) simp_all
  then have "on_stack (handler_segs c1) (rev (context_pushes c) @ ws)" by (simp add: h)
  then have "on_stack (in_handler ra c) (rev [rg c ESP - 48, ra] @ rev (context_pushes c) @ ws)"
    unfolding i by (rule on_stack_pushes) (simp add: h e u, use assms(2) in simp)
  then show "on_stack (in_handler ra c) (ra # (rg c ESP - 48) # rev (context_pushes c) @ ws)" by simp
  show "rg (in_handler ra c) = (rg c)(ESP := rg c ESP - 56, EAX := (rg c EAX AND 0xFFFF0000) OR 0x10)"
    unfolding i by (simp add: handler_segs_def e) (simp add: c1_def l fun_upd_twist)
  assume a: "a \<notin> range32 (rg c ESP - 56) 56"
  have "ram c1 a = ram c a" unfolding c1_def
    using a assms(2) u by (intro pushes_ram [where n = 56]) (simp_all add: l)
  moreover have "ram (in_handler ra c) a = ram (handler_segs c1) a" unfolding i
  proof (rule pushes_ram [where n = 8])
    show "a \<notin> range32 (rg (handler_segs c1) ESP - of_nat 8) 8" using a u assms(2) by (auto simp: h e range32_iff)
  qed (use u assms(2) in \<open>simp_all add: h e\<close>)
  ultimately show "ram (in_handler ra c) a = ram c a" by (simp add: h)
qed

lemma in_handler_parts [simp]:
  "sg (in_handler ra c) = (\<lambda>s. if s = SS then sg c SS else 0x10)" "cs_reg (in_handler ra c) = cs_reg c"
  "eflags_reg (in_handler ra c) = eflags_reg c" "gdt_used (in_handler ra c) = gdt_used c" "saved (in_handler ra c) = saved c"
  "cpl (in_handler ra c) = cpl c"
  by (simp_all add: in_handler_def handler_segs_def Let_def cpl_def cong: if_cong)

text \<open>The processor when a stub that pushes \<open>ws\<close> has reached the common part.\<close>

definition at_action :: "tss_structure \<Rightarrow> idt_entry \<Rightarrow> u32 option \<Rightarrow> u32 list \<Rightarrow> cpu \<Rightarrow> cpu" where
  "at_action t d err ws c = fold push ws (enter_gate t d err c)"

definition gate_words :: "u32 option \<Rightarrow> u32 list \<Rightarrow> cpu \<Rightarrow> u32 list" where
  "gate_words err ws c = rev ws @ (case err of None \<Rightarrow> [] | Some e \<Rightarrow> [e]) @ [eip_reg c, ucast (cs_reg c), eflags_reg c] @ outer_words c"

lemma at_action_parts [simp]:
  "sg (at_action t d err ws c) = (sg c)(SS := if cpl c = 0 then sg c SS else ucast (t_ss0 t))"
  "cs_reg (at_action t d err ws c) = kernel_cs d AND NOT 3" "gdt_used (at_action t d err ws c) = gdt_used c"
  "eflags_reg (at_action t d err ws c) = gate_flags d (eflags_reg c)" "saved (at_action t d err ws c) = saved c"
  by (simp_all add: at_action_def enter_gate_pushes)

lemma at_action_stack:
  assumes "stack_at (ram c) (kernel_sp t c) rest" "4 * length (gate_words err ws c) \<le> n" "n \<le> unat (kernel_sp t c)"
  shows "on_stack (at_action t d err ws c) (gate_words err ws c @ rest)"
    "rg (at_action t d err ws c) = (rg c)(ESP := kernel_sp t c - of_nat (4 * length (gate_words err ws c)))"
    "a \<notin> range32 (kernel_sp t c - of_nat n) n \<Longrightarrow> ram (at_action t d err ws c) a = ram c a"
proof -
  define xs where "xs = rev (gate_words err ws c)"
  have l: "length xs = length (gate_words err ws c)" by (simp add: xs_def)
  have e: "at_action t d err ws c = (fold push xs (on_kernel_stack t c))
      \<lparr>cs_reg := kernel_cs d AND NOT 3, eip_reg := gate_target d, eflags_reg := gate_flags d (eflags_reg c)\<rparr>"
    by (simp add: at_action_def enter_gate_pushes xs_def gate_words_def split: option.split)
  have "on_stack (fold push xs (on_kernel_stack t c)) (rev xs @ rest)"
    using assms by (intro on_stack_pushes) (simp_all add: l)
  then show "on_stack (at_action t d err ws c) (gate_words err ws c @ rest)" by (simp add: e xs_def)
  show "rg (at_action t d err ws c) = (rg c)(ESP := kernel_sp t c - of_nat (4 * length (gate_words err ws c)))"
    by (simp add: e l)
  assume a: "a \<notin> range32 (kernel_sp t c - of_nat n) n"
  have "ram (fold push xs (on_kernel_stack t c)) a = ram (on_kernel_stack t c) a"
    using assms a by (intro pushes_ram [where n = n]) (simp_all add: l)
  then show "ram (at_action t d err ws c) a = ram c a" by (simp add: e)
qed

section \<open>What the handlers promise\<close>

text \<open>The parts of the processor no handler changes.\<close>

definition others :: "cpu \<Rightarrow> u32 \<times> u32 \<times> u16 \<times> idt_entry list \<times> bytes \<times> (saved_var \<Rightarrow> u32)" where
  "others c = (cr0_reg c, cr3_reg c, tr_reg c, idt_used c, gdt_used c, saved c)"

lemma others_push [simp]: "others (push w c) = others c"
  by (simp add: others_def push_def)

lemma others_pushes [simp]: "others (fold push xs c) = others c"
  by (induction xs arbitrary: c) simp_all

lemma others_updates [simp]:
  "others (c\<lparr>cs_reg := a, eip_reg := b, eflags_reg := e\<rparr>) = others c" "others (on_kernel_stack t c) = others c"
  by (simp_all add: others_def on_kernel_stack_def)

lemma others_at_action [simp]: "others (at_action t d err ws c) = others c"
  by (simp only: at_action_def enter_gate_pushes others_pushes others_updates)

lemma others_in_handler [simp]: "others (in_handler ra c) = others c"
proof -
  have "others (handler_segs d) = others d" for d by (simp add: others_def handler_segs_def set_reg_def)
  then show ?thesis by (simp add: in_handler_def Let_def)
qed

lemma others_eq_parts: "others c = others c' \<Longrightarrow> gdt_used c = gdt_used c' \<and> saved c = saved c'"
  by (simp add: others_def)

text \<open>The same mode of the processor: segments, tables, interrupt flag.\<close>

definition same_mode :: "cpu \<Rightarrow> cpu \<Rightarrow> bool" where
  "same_mode c c' \<longleftrightarrow> sg c' = sg c \<and> cs_reg c' = cs_reg c \<and> others c' = others c
     \<and> (\<forall>n \<in> {FLAG_IF, FLAG_NT}. bit (eflags_reg c') n = bit (eflags_reg c) n)"

text \<open>
  A \<^verbatim>\<open>C\<close> handler, called with the address of the frame: by the calling convention it comes back with the registers of its
  caller and the stack above its argument, the frame changed as \<open>h\<close> says; or it ends in \<^verbatim>\<open>kernel_resume_after_exit\<close>. It needs at most \<open>dp\<close> bytes
  of stack and leaves the bytes of \<open>R\<close> alone where these are clear of its stack.
\<close>

definition implements :: "u32 set \<Rightarrow> nat \<Rightarrow> 'k cfun \<Rightarrow> (trap_frame \<Rightarrow> 'k \<Rightarrow> (trap_frame \<times> 'k) flow option) \<Rightarrow> bool" where
  "implements R dp f h \<longleftrightarrow> (\<forall>c k fr ra rest.
     on_stack c (ra # (rg c ESP + 8) # frame_words fr @ rest) \<and> dp \<le> unat (rg c ESP)
       \<and> R \<inter> range32 (rg c ESP - of_nat dp) (dp + 4 * (19 + length rest)) = {} \<longrightarrow>
     (case h fr k of
        Some (Returns (fr', k')) \<Rightarrow> \<exists>c' x. f c k = Some (Returns (c', k')) \<and> same_mode c c'
          \<and> rg c' ESP = rg c ESP + 4 \<and> (\<forall>r \<in> {EBX, EBP, ESI, EDI}. rg c' r = rg c r)
          \<and> on_stack c' (x # frame_words fr' @ rest) \<and> (\<forall>a \<in> R. ram c' a = ram c a)
      | Some (Unwinds (fr', k')) \<Rightarrow> \<exists>c'. same_mode c c' \<and> (\<forall>a \<in> R. ram c' a = ram c a)
          \<and> f c k = (case run f kernel_resume_after_exit c' k' of Some (Returns s) \<Rightarrow> Some (Unwinds s) | _ \<Rightarrow> None)
      | None \<Rightarrow> True))"

text \<open>The handlers of the kernel, on the frame.\<close>

definition on_irq :: "'s ports \<Rightarrow> trap_frame \<Rightarrow> 's kernel \<Rightarrow> (trap_frame \<times> 's kernel) flow option" where
  "on_irq io fr k = Some (case interrupt io (f_vector fr) k of Returns k \<Rightarrow> Returns (fr, k) | Unwinds k \<Rightarrow> Unwinds (fr, k))"

definition on_syscall :: "'s ports \<Rightarrow> u32 list list \<Rightarrow> trap_frame \<Rightarrow> 's kernel \<Rightarrow> (trap_frame \<times> 's kernel) flow option" where
  "on_syscall io arrivals fr k = map_option (\<lambda>(r, fl, _). case fl of
       Returns k \<Rightarrow> Returns (fr\<lparr>f_eax := r_eax r\<rparr>, k) | Unwinds k \<Rightarrow> Unwinds (fr, k)) (syscall_handler io arrivals (regs_of fr) k)"

section \<open>There and back\<close>

text \<open>A context the kernel can be interrupted in and come back to: kernel code, or user mode with the segments of user mode.\<close>

definition context_ok :: "cpu \<Rightarrow> bool" where
  "context_ok c \<longleftrightarrow> cpl c \<in> {0, 3} \<and> code_ok (gdt_used c) (cs_reg c) \<and> (\<forall>s \<in> {DS, ES, FS, GS}. data_ok (gdt_used c) (cpl c) (sg c s))
     \<and> (cpl c = 3 \<longrightarrow> stack_ok (gdt_used c) 3 (sg c SS)) \<and> data_ok (gdt_used c) 0 0x10 \<and> \<not> bit (eflags_reg c) FLAG_VM"

lemma bit_clear_flags: "bit (clear_flags bs fl) n \<longleftrightarrow> bit fl n \<and> n \<notin> set bs" for fl :: u32
  unfolding clear_flags_def by (induction bs arbitrary: fl) (auto simp: bit_unset_bit_iff)

lemma gate_flags_bits:
  "\<not> bit (gate_flags d fl) FLAG_NT" "bit (gate_flags d fl) FLAG_IF \<longleftrightarrow> trap_gate d \<and> bit fl FLAG_IF"
  by (simp_all add: gate_flags_def bit_clear_flags FLAG_IF_def FLAG_TF_def FLAG_NT_def FLAG_RF_def FLAG_VM_def)

lemma data_ok_lower: "data_ok g pl sel \<Longrightarrow> data_ok g 0 sel"
  by (auto simp: data_ok_def)

lemma dropped_id: "data_ok g pl sel \<Longrightarrow> dropped g pl sel = sel"
  by (auto simp: data_ok_def dropped_def)

definition frame_sp :: "tss_structure \<Rightarrow> u32 \<Rightarrow> cpu \<Rightarrow> u32" where
  "frame_sp t v c = kernel_sp t c - of_nat (4 * length (gate_words None [0, v] c))"

lemma stub_handler:
  fixes ra :: u32
  assumes d: "kernel_cs d = 0x08" and c: "context_ok c" and room: "4 * length (gate_words err ws c) + 56 \<le> unat (kernel_sp t c)"
  defines "c0 \<equiv> at_action t d err ws c"
  defines "c1 \<equiv> in_handler ra c0"
  shows "run f (stub_save ra @ code) c0 k = (case f c1 k of Some (Returns (c, k)) \<Rightarrow> run f code c k | r \<Rightarrow> r)"
    "on_stack c1 (ra # (rg c1 ESP + 8) # rev (context_pushes c0) @ gate_words err ws c)"
    "rg c1 ESP = kernel_sp t c - of_nat (4 * length (gate_words err ws c)) - 56"
    "unat (rg c1 ESP) + 56 + 4 * length (gate_words err ws c) = unat (kernel_sp t c)"
    "cpl c1 = 0" "others c1 = others c" "sg c1 SS = (if cpl c = 0 then sg c SS else ucast (t_ss0 t))"
    "eflags_reg c1 = gate_flags d (eflags_reg c)"
    "a \<notin> range32 (rg c1 ESP) (56 + 4 * length (gate_words err ws c)) \<Longrightarrow> ram c1 a = ram c a"
proof -
  define n where "n = 4 * length (gate_words err ws c)"
  have st: "stack_at (ram c) (kernel_sp t c) []" by simp
  have b: "4 * length (gate_words err ws c) \<le> n" "n \<le> unat (kernel_sp t c)" using room by (simp_all add: n_def)
  have c0: "on_stack c0 (gate_words err ws c)" "rg c0 = (rg c)(ESP := kernel_sp t c - of_nat n)"
    using at_action_stack(1,2) [OF st b] by (simp_all only: c0_def n_def append_Nil2)
  have u: "unat (kernel_sp t c - of_nat n) = unat (kernel_sp t c) - n" by (rule unat_minus_le [OF b(2)])
  have r: "56 \<le> unat (rg c0 ESP)" using room by (simp add: c0(2) u) (simp add: n_def)
  have z: "cpl c0 = 0" using d by (simp add: c0_def cpl_def rpl_def)
  have g: "data_ok (gdt_used c0) 0 0x10" using c by (simp add: c0_def context_ok_def)
  show "run f (stub_save ra @ code) c0 k = (case f c1 k of Some (Returns (c, k)) \<Rightarrow> run f code c k | r \<Rightarrow> r)"
    using run_save [OF g z] by (simp only: c1_def)
  note ih = in_handler_stack [OF c0(1) r, of ra, folded c1_def]
  have e: "rg c1 ESP = rg c0 ESP - 56" by (simp add: ih(2))
  then show "rg c1 ESP = kernel_sp t c - of_nat (4 * length (gate_words err ws c)) - 56" by (simp only: c0(2) n_def) simp
  have w: "rg c0 ESP - 48 = rg c1 ESP + 8" by (simp add: e)
  show "on_stack c1 (ra # (rg c1 ESP + 8) # rev (context_pushes c0) @ gate_words err ws c)" using ih(1) unfolding w .
  have v: "unat (rg c1 ESP) = unat (kernel_sp t c) - n - 56" using unat_minus_le [of 56 "rg c0 ESP"] r by (simp add: e c0(2) u)
  show "unat (rg c1 ESP) + 56 + 4 * length (gate_words err ws c) = unat (kernel_sp t c)" using v room by (simp add: n_def)
  show "cpl c1 = 0" "others c1 = others c" "sg c1 SS = (if cpl c = 0 then sg c SS else ucast (t_ss0 t))"
    "eflags_reg c1 = gate_flags d (eflags_reg c)"
    using z by (simp_all add: c1_def) (simp_all add: c0_def)
  assume a: "a \<notin> range32 (rg c1 ESP) (56 + 4 * length (gate_words err ws c))"
  have "ram c0 a = ram c a" unfolding c0_def
    by (rule at_action_stack(3) [OF st b]) (use a v u room in \<open>auto simp: range32_iff n_def\<close>)
  moreover have "ram c1 a = ram c0 a" unfolding c1_def
    by (rule in_handler_stack(3) [OF c0(1) r]) (use a e in \<open>auto simp: range32_iff\<close>)
  ultimately show "ram c1 a = ram c a" by simp
qed

lemma stub_called:
  fixes v ra :: u32
  assumes d: "kernel_cs d = 0x08" and c: "context_ok c" and room: "84 \<le> unat (kernel_sp t c)"
  defines "c1 \<equiv> in_handler ra (at_action t d None [0, v] c)"
  shows "run f (stub_save ra @ code) (at_action t d None [0, v] c) k
      = (case f c1 k of Some (Returns (c, k)) \<Rightarrow> run f code c k | r \<Rightarrow> r)"
    "on_stack c1 (ra # (rg c1 ESP + 8) # frame_words (frame_of v 0 (frame_sp t v c) c) @ outer_words c)"
    "rg c1 ESP = frame_sp t v c - 56" "unat (rg c1 ESP) + 76 + 4 * length (outer_words c) = unat (kernel_sp t c)"
    "cpl c1 = 0" "others c1 = others c" "sg c1 SS = (if cpl c = 0 then sg c SS else ucast (t_ss0 t))"
    "eflags_reg c1 = gate_flags d (eflags_reg c)"
    "a \<notin> range32 (kernel_sp t c - 84) 84 \<Longrightarrow> ram c1 a = ram c a"
proof -
  have n: "length (gate_words None [0, v] c) = 5 + length (outer_words c)" "length (outer_words c) \<le> 2"
    by (simp_all add: gate_words_def outer_words_def)
  have rm: "4 * length (gate_words None [0, v] c) + 56 \<le> unat (kernel_sp t c)" using n room by simp
  note sh = stub_handler [OF d c rm, where ra = ra, folded c1_def]
  show "run f (stub_save ra @ code) (at_action t d None [0, v] c) k
      = (case f c1 k of Some (Returns (c, k)) \<Rightarrow> run f code c k | r \<Rightarrow> r)"
    "cpl c1 = 0" "others c1 = others c" "sg c1 SS = (if cpl c = 0 then sg c SS else ucast (t_ss0 t))"
    "eflags_reg c1 = gate_flags d (eflags_reg c)"
    by (fact sh)+
  show "rg c1 ESP = frame_sp t v c - 56" using sh(3) by (simp only: frame_sp_def)
  have "4 * length (gate_words None [0, v] c) \<le> unat (kernel_sp t c)" using rm by simp
  note st = at_action_stack(2) [OF stack_at_Nil order_refl this, where d = d]
  have x: "rev (context_pushes (at_action t d None [0, v] c)) @ gate_words None [0, v] c
      = frame_words (frame_of v 0 (frame_sp t v c) c) @ outer_words c"
    by (simp add: context_pushes_def st frame_words_def frame_of_def frame_sp_def) (simp add: gate_words_def)
  show "on_stack c1 (ra # (rg c1 ESP + 8) # frame_words (frame_of v 0 (frame_sp t v c) c) @ outer_words c)"
    using sh(2) unfolding x .
  show u: "unat (rg c1 ESP) + 76 + 4 * length (outer_words c) = unat (kernel_sp t c)" using sh(4) n by simp
  assume a: "a \<notin> range32 (kernel_sp t c - 84) 84"
  have "unat (kernel_sp t c - 84) = unat (kernel_sp t c) - 84" using unat_minus_le [of 84 "kernel_sp t c"] room by simp
  then show "ram c1 a = ram c a" by (intro sh(9)) (use a u n room in \<open>auto simp: range32_iff\<close>)
qed

lemma iret_back:
  assumes c: "context_ok c" and w: "on_stack c3 ([eip_reg c, ucast (cs_reg c), eflags_reg c] @ outer_words c)"
    and m: "\<not> bit (eflags_reg c3) FLAG_NT" "cpl c3 = 0" "others c3 = others c" "\<forall>s \<in> {DS, ES, FS, GS}. sg c3 s = sg c s"
      "cpl c = 0 \<longrightarrow> sg c3 SS = sg c SS \<and> rg c3 ESP + 12 = rg c ESP"
    and r: "\<forall>r. r \<noteq> ESP \<longrightarrow> rg c3 r = ((rg c)(EAX := x)) r"
  shows "iret c3 = Some (set_reg EAX x (c\<lparr>ram := ram c3\<rparr>))"
proof -
  have pk: "peek 0 c3 = eip_reg c" "peek 1 c3 = ucast (cs_reg c)" "peek 2 c3 = eflags_reg c"
    using on_stack_peek [OF w, of 0] on_stack_peek [OF w, of 1] on_stack_peek [OF w, of 2] by simp_all
  have g: "gdt_used c3 = gdt_used c" using m(3) by (simp add: others_def)
  have vm: "\<not> bit (eflags_reg c) FLAG_VM" "code_ok (gdt_used c) (cs_reg c)" using c by (simp_all add: context_ok_def)
  show ?thesis
  proof (cases "cpl c = 0")
    case True
    then have "iret c3 = Some ((discard 3 c3)\<lparr>eip_reg := eip_reg c, cs_reg := cs_reg c, eflags_reg := eflags_reg c\<rparr>)"
      using pk m(1,2) g vm by (simp add: iret_def Let_def) (simp add: cpl_def)
    moreover have "rg (discard 3 c3) = (rg c)(EAX := x)"
    proof
      fix q show "rg (discard 3 c3) q = ((rg c)(EAX := x)) q" using r m(5) True by (cases "q = ESP") simp_all
    qed
    moreover have "sg c3 = sg c"
    proof
      fix q show "sg c3 q = sg c q" using m(4,5) True by (cases q) simp_all
    qed
    ultimately show ?thesis using m(3) by (simp add: others_def set_reg_def discard_def)
  next
    case False
    then have three: "cpl c = 3" using c by (simp add: context_ok_def)
    have o: "outer_words c = [rg c ESP, ucast (sg c SS)]" using False by (simp add: outer_words_def)
    have pk2: "peek 3 c3 = rg c ESP" "peek 4 c3 = ucast (sg c SS)"
      using on_stack_peek [OF w, of 3] on_stack_peek [OF w, of 4] by (simp_all add: o)
    have so: "stack_ok (gdt_used c) 3 (sg c SS)" "\<forall>s \<in> {DS, ES, FS, GS}. data_ok (gdt_used c) 3 (sg c s)"
      using c three by (simp_all add: context_ok_def)
    have rp: "rpl (cs_reg c) = 3" using three by (simp add: cpl_def)
    have "iret c3 = Some ((set_reg ESP (rg c ESP) c3)\<lparr>eip_reg := eip_reg c, cs_reg := cs_reg c, eflags_reg := eflags_reg c,
        sg := (\<lambda>s. dropped (gdt_used c) 3 (sg c3 s))(SS := sg c SS)\<rparr>)"
      using pk pk2 m(1,2) g vm so(1) rp by (simp add: iret_def Let_def)
    moreover have "rg (set_reg ESP (rg c ESP) c3) = (rg c)(EAX := x)"
    proof
      fix q show "rg (set_reg ESP (rg c ESP) c3) q = ((rg c)(EAX := x)) q" using r by (cases "q = ESP") simp_all
    qed
    moreover have "(\<lambda>s. dropped (gdt_used c) 3 (sg c3 s))(SS := sg c SS) = sg c"
    proof
      fix q show "((\<lambda>s. dropped (gdt_used c) 3 (sg c3 s))(SS := sg c SS)) q = sg c q"
        using so(2) m(4) dropped_id by (cases q) simp_all
    qed
    ultimately show ?thesis using m(3) by (simp add: others_def set_reg_def)
  qed
qed

text \<open>The stack a stub and its handler need, and the bytes they leave alone.\<close>

definition clear_of :: "u32 set \<Rightarrow> nat \<Rightarrow> tss_structure \<Rightarrow> cpu \<Rightarrow> bool" where
  "clear_of R dp t c \<longleftrightarrow> dp + 84 \<le> unat (kernel_sp t c) \<and> R \<inter> range32 (kernel_sp t c - of_nat (dp + 84)) (dp + 84) = {}"

lemma clear_of_range:
  assumes "clear_of R dp t c" "unat sp + n = unat (kernel_sp t c)" "n \<le> 84"
  shows "R \<inter> range32 (sp - of_nat dp) (dp + n) = {}" "dp \<le> unat sp"
proof -
  have k: "dp + 84 \<le> unat (kernel_sp t c)" "R \<inter> range32 (kernel_sp t c - of_nat (dp + 84)) (dp + 84) = {}"
    using assms(1) by (simp_all add: clear_of_def)
  show d: "dp \<le> unat sp" using k assms(2,3) by linarith
  have u: "unat (sp - of_nat dp) = unat sp - dp" "unat (kernel_sp t c - of_nat (dp + 84)) = unat (kernel_sp t c) - (dp + 84)"
    using unat_minus_le [OF d] unat_minus_le [OF k(1)] by simp_all
  have "range32 (sp - of_nat dp) (dp + n) \<subseteq> range32 (kernel_sp t c - of_nat (dp + 84)) (dp + 84)"
    using k(1) d assms(2,3) by (auto simp: range32_def u simp del: of_nat_add)
  then show "R \<inter> range32 (sp - of_nat dp) (dp + n) = {}" using k(2) by blast
qed

lemma clear_of_stub:
  assumes "clear_of R dp t c" "a \<in> R"
  shows "a \<notin> range32 (kernel_sp t c - 84) 84"
proof -
  have k: "dp + 84 \<le> unat (kernel_sp t c)" using assms(1) by (simp add: clear_of_def)
  have "unat (kernel_sp t c - 84) = unat (kernel_sp t c) - 84" using unat_minus_le [of 84 "kernel_sp t c"] k by simp
  then have "R \<inter> range32 (kernel_sp t c - 84 - of_nat dp) (dp + 84) = {}"
    using clear_of_range(1) [OF assms(1), of "kernel_sp t c - 84" 84] k by simp
  moreover have "unat (kernel_sp t c - 84 - of_nat dp) = unat (kernel_sp t c) - 84 - dp"
    using unat_minus_le [of dp "kernel_sp t c - 84"] unat_minus_le [of 84 "kernel_sp t c"] k by simp
  ultimately show ?thesis using assms(2) k \<open>unat (kernel_sp t c - 84) = _\<close> by (fastforce simp: range32_def)
qed

text \<open>The interface between the stubs and the \<^verbatim>\<open>C\<close> functions they call.\<close>

locale c_handler =
  fixes R :: "u32 set" and dp :: nat and f :: "'k cfun" and h :: "trap_frame \<Rightarrow> 'k \<Rightarrow> (trap_frame \<times> 'k) flow option"
  assumes keeps_promise: "implements R dp f h"

context c_handler
begin

lemma stub_round:
  fixes v ra :: u32
  assumes d: "kernel_cs d = 0x08" and c: "context_ok c" and room: "clear_of R dp t c"
    and h: "h (frame_of v 0 (frame_sp t v c) c) k = Some (Returns ((frame_of v 0 (frame_sp t v c) c)\<lparr>f_eax := x\<rparr>, k'))"
  shows "\<exists>m. run f (stub_save ra @ stub_restore) (at_action t d None [0, v] c) k = Some (Returns (set_reg EAX x (c\<lparr>ram := m\<rparr>), k'))
    \<and> (\<forall>a \<in> R. m a = ram c a)"
proof -
  have r84: "84 \<le> unat (kernel_sp t c)" using room by (simp add: clear_of_def)
  define fr where "fr = frame_of v 0 (frame_sp t v c) c"
  define c1 where "c1 = in_handler ra (at_action t d None [0, v] c)"
  note sc = stub_called [OF d c r84, where v = v and ra = ra, folded c1_def fr_def]
  have ol: "length (outer_words c) \<le> 2" by (simp add: outer_words_def)
  note cl = clear_of_range [OF room, of "rg c1 ESP" "76 + 4 * length (outer_words c)"]
  have "R \<inter> range32 (rg c1 ESP - of_nat dp) (dp + 4 * (19 + length (outer_words c))) = {}" "dp \<le> unat (rg c1 ESP)"
    using cl sc(4) ol by (simp_all add: add.assoc)
  then obtain c2 y where c2: "f c1 k = Some (Returns (c2, k'))" "same_mode c1 c2" "rg c2 ESP = rg c1 ESP + 4"
      "\<forall>r \<in> {EBX, EBP, ESI, EDI}. rg c2 r = rg c1 r" "on_stack c2 (y # frame_words (fr\<lparr>f_eax := x\<rparr>) @ outer_words c)"
      "\<forall>a \<in> R. ram c2 a = ram c1 a"
    using keeps_promise [unfolded implements_def, rule_format, of c1 ra fr "outer_words c" k] sc(2) h by (auto simp: fr_def)
  define c3 where "c3 = restored (fr\<lparr>f_eax := x\<rparr>) c2"
  have p2: "cpl c2 = 0" "gdt_used c2 = gdt_used c" "others c2 = others c" "sg c2 = sg c1" "eflags_reg c2 = eflags_reg c2"
      "\<not> bit (eflags_reg c2) FLAG_NT"
    using c2(2) sc(5,6,8) gate_flags_bits(1) [of d "eflags_reg c"]
    by (simp_all add: same_mode_def cpl_def) (simp add: others_def)
  have s: "\<forall>s \<in> {DS, ES, FS, GS}. data_ok (gdt_used c2) 0 (sg c s)"
    using c data_ok_lower p2(2) by (auto simp: context_ok_def)
  have "run f stub_restore c2 k' = map_option (\<lambda>c. Returns (c, k')) (iret c3)"
    unfolding c3_def using s by (intro run_restore [OF c2(5) p2(1)]) (simp_all add: fr_def frame_of_def)
  moreover have "iret c3 = Some (set_reg EAX x (c\<lparr>ram := ram c3\<rparr>))"
  proof (rule iret_back [OF c])
    show "on_stack c3 ([eip_reg c, ucast (cs_reg c), eflags_reg c] @ outer_words c)"
      unfolding c3_def using restored_stack [OF c2(5)] by (simp add: fr_def frame_of_def)
    show "\<not> bit (eflags_reg c3) FLAG_NT" "cpl c3 = 0" "others c3 = others c"
      using p2 by (simp_all add: c3_def restored_def cpl_def) (simp add: others_def)
    show "\<forall>s \<in> {DS, ES, FS, GS}. sg c3 s = sg c s" by (simp add: c3_def restored_def fr_def frame_of_def)
    show "\<forall>r. r \<noteq> ESP \<longrightarrow> rg c3 r = ((rg c)(EAX := x)) r"
      by (auto simp: c3_def restored_def fr_def frame_of_def split: reg32.split)
    show "cpl c = 0 \<longrightarrow> sg c3 SS = sg c SS \<and> rg c3 ESP + 12 = rg c ESP"
    proof
      assume z: "cpl c = 0"
      have "frame_sp t v c = rg c ESP - 20" using z by (simp add: frame_sp_def gate_words_def outer_words_def kernel_sp_def)
      then show "sg c3 SS = sg c SS \<and> rg c3 ESP + 12 = rg c ESP"
        using z sc(3,7) p2(4) c2(3) by (simp add: c3_def restored_def)
    qed
  qed
  ultimately have "run f (stub_save ra @ stub_restore) (at_action t d None [0, v] c) k
      = Some (Returns (set_reg EAX x (c\<lparr>ram := ram c3\<rparr>), k'))"
    using sc(1) [of f stub_restore k] c2(1) by simp
  moreover have "ram c3 a = ram c a" if "a \<in> R" for a
    using c2(6) that sc(9) clear_of_stub [OF room that] by (simp add: c3_def restored_def)
  ultimately show ?thesis by blast
qed

end

end
