(* ===== verification/Cpu_Calls.thy ===== *)
theory Cpu_Calls
  imports Cpu_Correct
begin

text \<open>
  The stubs with the handlers of the kernel: interrupts, system calls and exceptions as the interrupted code and the handler see them.
\<close>

section \<open>A handler\<close>

text \<open>The plainest machine code that keeps the promise for a handler that changes no word of the frame but \<open>eax\<close>.\<close>

definition frame_at :: "mem \<Rightarrow> u32 \<Rightarrow> trap_frame" where
  "frame_at m p = \<lparr>f_gs = rd32 m p, f_fs = rd32 m (p + 4), f_es = rd32 m (p + 8), f_ds = rd32 m (p + 12),
     f_edi = rd32 m (p + 16), f_esi = rd32 m (p + 20), f_ebp = rd32 m (p + 24), f_esp = rd32 m (p + 28), f_ebx = rd32 m (p + 32),
     f_edx = rd32 m (p + 36), f_ecx = rd32 m (p + 40), f_eax = rd32 m (p + 44), f_vector = rd32 m (p + 48),
     f_error_code = rd32 m (p + 52), f_eip = rd32 m (p + 56), f_cs = rd32 m (p + 60), f_eflags = rd32 m (p + 64)\<rparr>"

definition plain_handler :: "(trap_frame \<Rightarrow> 'k \<Rightarrow> (trap_frame \<times> 'k) flow option) \<Rightarrow> 'k cfun" where
  "plain_handler h c k =
     (let p = peek 1 c in
      case h (frame_at (ram c) p) k of
        Some (Returns (fr, k)) \<Rightarrow> Some (Returns (discard 1 (c\<lparr>eip_reg := peek 0 c, ram := wr32 (ram c) (p + 44) (f_eax fr)\<rparr>), k))
      | Some (Unwinds (fr, k)) \<Rightarrow> (case run (\<lambda>_ _. None) kernel_resume_after_exit c k of Some (Returns s) \<Rightarrow> Some (Unwinds s) | _ \<Rightarrow> None)
      | None \<Rightarrow> None)"

definition eax_only :: "(trap_frame \<Rightarrow> 'k \<Rightarrow> (trap_frame \<times> 'k) flow option) \<Rightarrow> bool" where
  "eax_only h \<longleftrightarrow> (\<forall>fr k fr' k'. h fr k = Some (Returns (fr', k')) \<longrightarrow> (\<exists>x. fr' = fr\<lparr>f_eax := x\<rparr>))"

lemma on_irq_eax_only: "eax_only (on_irq io)"
proof -
  have "fr = fr\<lparr>f_eax := f_eax fr\<rparr>" for fr :: trap_frame by simp
  then have "\<exists>x. fr = fr\<lparr>f_eax := x\<rparr>" for fr :: trap_frame by blast
  then show ?thesis by (auto simp: eax_only_def on_irq_def split: flow.splits)
qed

lemma on_syscall_eax_only: "eax_only (on_syscall io arrivals)"
  unfolding eax_only_def
proof (intro allI impI)
  fix fr k fr' k' assume "on_syscall io arrivals fr k = Some (Returns (fr', k'))"
  then obtain r fl l where "syscall_handler io arrivals (regs_of fr) k = Some (r, fl, l)"
      "(case fl of Returns k \<Rightarrow> Returns (fr\<lparr>f_eax := r_eax r\<rparr>, k) | Unwinds k \<Rightarrow> Unwinds (fr, k)) = Returns (fr', k')"
    by (auto simp: on_syscall_def)
  then show "\<exists>x. fr' = fr\<lparr>f_eax := x\<rparr>" by (cases fl) auto
qed

lemma resume_no_calls: "run f kernel_resume_after_exit c k = run g kernel_resume_after_exit c k"
  by (simp add: kernel_resume_after_exit_def)

lemma stack_at_update:
  assumes "stack_at m a ws" "i < length ws"
  shows "stack_at (wr32 m (a + of_nat (4 * i)) w) a (ws[i := w])"
proof -
  have u: "unat (a + of_nat (4 * j)) = unat a + 4 * j" if "j < length ws" for j
    using assms(1) that unat_plus_le [of a "4 * j"] by (simp add: stack_at_def)
  have "rd32 (wr32 m (a + of_nat (4 * i)) w) (a + of_nat (4 * j)) = ws[i := w] ! j" if j: "j < length ws" for j
  proof (cases "j = i")
    case True
    then show ?thesis using j by (simp add: rd32_wr32_same)
  next
    case False
    then have "apart32 (a + of_nat (4 * i)) (a + of_nat (4 * j))"
      unfolding apart32_def u [OF j] u [OF assms(2)] using assms j by (auto simp: stack_at_def)
    then show ?thesis using stack_at_peek [OF assms(1) j] False by (simp add: rd32_wr32_apart del: of_nat_mult)
  qed
  then show ?thesis using assms(1) by (simp add: stack_at_def)
qed

lemma frame_at_stack:
  assumes "stack_at m p (frame_words fr @ rest)"
  shows "frame_at m p = fr"
proof -
  have w: "rd32 m (p + of_nat (4 * i)) = frame_words fr ! i" if "i < 17" for i
    using stack_at_peek [OF assms, of i] that by (simp add: nth_append del: of_nat_mult)
  show ?thesis
    using w [of 0] w [of 1] w [of 2] w [of 3] w [of 4] w [of 5] w [of 6] w [of 7] w [of 8] w [of 9] w [of 10] w [of 11]
      w [of 12] w [of 13] w [of 14] w [of 15] w [of 16]
    by (simp add: frame_at_def frame_words_def)
qed

lemma plain_handler_implements:
  assumes "eax_only h"
  shows "implements R 0 (plain_handler h) h"
  unfolding implements_def
proof (intro allI impI, elim conjE)
  fix c :: cpu and k fr ra and rest :: "u32 list"
  assume w: "on_stack c (ra # (rg c ESP + 8) # frame_words fr @ rest)"
    and R: "R \<inter> range32 (rg c ESP - of_nat 0) (0 + 4 * (19 + length rest)) = {}"
  have pk: "peek (Suc 0) c = rg c ESP + 8" using on_stack_peek [OF w, of 1] by simp
  have p: "stack_at (ram c) (rg c ESP + 8) (frame_words fr @ rest)" using stack_at_drop [OF w, of 2] by simp
  note fr = frame_at_stack [OF p]
  show "case h fr k of
        Some (Returns (fr', k')) \<Rightarrow> \<exists>c' x. plain_handler h c k = Some (Returns (c', k')) \<and> same_mode c c'
          \<and> rg c' ESP = rg c ESP + 4 \<and> (\<forall>r \<in> {EBX, EBP, ESI, EDI}. rg c' r = rg c r)
          \<and> on_stack c' (x # frame_words fr' @ rest) \<and> (\<forall>a \<in> R. ram c' a = ram c a)
      | Some (Unwinds (fr', k')) \<Rightarrow> \<exists>c'. same_mode c c' \<and> (\<forall>a \<in> R. ram c' a = ram c a)
          \<and> plain_handler h c k = (case run (plain_handler h) kernel_resume_after_exit c' k' of Some (Returns s) \<Rightarrow> Some (Unwinds s) | _ \<Rightarrow> None)
      | None \<Rightarrow> True"
  proof (cases "h fr k")
    case (Some fl)
    show ?thesis
    proof (cases fl)
      case (Returns s)
      obtain fr' k' where s: "s = (fr', k')" by fastforce
      define c' where "c' = discard 1 (c\<lparr>eip_reg := peek 0 c, ram := wr32 (ram c) (rg c ESP + 52) (f_eax fr')\<rparr>)"
      have h: "h fr k = Some (Returns (fr', k'))" using Some Returns s by simp
      then have e: "plain_handler h c k = Some (Returns (c', k'))" by (simp add: plain_handler_def pk fr c'_def add.assoc Let_def)
      have f': "frame_words fr' = (frame_words fr)[11 := f_eax fr']"
      proof -
        obtain x where "fr' = fr\<lparr>f_eax := x\<rparr>" using assms [unfolded eax_only_def, rule_format, OF h] by blast
        then have "frame_words fr' = frame_words (fr\<lparr>f_eax := f_eax fr'\<rparr>)" by simp
        then show ?thesis by (simp add: frame_words_def numeral_eq_Suc)
      qed
      have "on_stack c' ((rg c ESP + 8) # frame_words fr' @ rest)"
        using stack_at_drop [OF stack_at_update [OF w, of 13 "f_eax fr'"], of 1]
        by (simp add: c'_def f' list_update_append1 numeral_eq_Suc)
      moreover have "ram c' a = ram c a" if a: "a \<in> R" for a
      proof -
        have "unat (rg c ESP + 52) = unat (rg c ESP) + 52" using w unat_plus_le [of "rg c ESP" 52] by (simp add: stack_at_def)
        moreover have "a \<notin> range32 (rg c ESP) 76" using R a by (auto simp: range32_iff)
        ultimately show ?thesis using w unfolding c'_def
          by (simp, intro wr32_outside) (auto simp: range32_iff stack_at_def)
      qed
      moreover have "same_mode c c'" by (simp add: same_mode_def others_def c'_def discard_def set_reg_def)
      ultimately show ?thesis using h e by (auto simp: c'_def)
    next
      case (Unwinds s)
      obtain fr' k' where s: "s = (fr', k')" by fastforce
      have "plain_handler h c k = (case run (plain_handler h) kernel_resume_after_exit c k' of Some (Returns s) \<Rightarrow> Some (Unwinds s) | _ \<Rightarrow> None)"
        using Some Unwinds s resume_no_calls [of "\<lambda>_ _. None" c k' "plain_handler h"] by (simp add: plain_handler_def pk fr Let_def)
      then show ?thesis using Some Unwinds s by (auto simp: same_mode_def intro!: exI [of _ c])
    qed
  qed simp
qed

interpretation irq_entry: c_handler R 0 "plain_handler (on_irq io)" "on_irq io" for R io
  by unfold_locales (rule plain_handler_implements [OF on_irq_eax_only])

interpretation syscall_entry: c_handler R 0 "plain_handler (on_syscall io arrivals)" "on_syscall io arrivals" for R io arrivals
  by unfold_locales (rule plain_handler_implements [OF on_syscall_eax_only])

section \<open>Interrupts\<close>

lemma irq_stub_parts: "n < 16 \<Longrightarrow> irq_stubs ra ! n = [Push_imm 0, Push_imm (of_nat n)] @ stub_save ra @ stub_restore"
proof -
  assume "n < 16"
  then have "irq_stubs ra ! n = irq_stub n ra"
    by (simp add: irq_stubs_def less_Suc_eq numeral_eq_Suc) (elim disjE, simp_all)
  then show ?thesis by (simp add: irq_stub_def irq_global_action_def stub_save_def stub_restore_def)
qed

lemma run_two_pushes:
  "run f ([Push_imm a, Push_imm b] @ code) (enter_gate t d err c) k = run f code (at_action t d err [a, b] c) k"
  by (simp add: at_action_def)

text \<open>
  C4. An interrupt leaves no trace. Whatever code is interrupted, in the kernel or in user mode, the handler sees the number of the
  line, and once it has returned the processor is as it was: every register, segment, flag and the
  place in the code; in memory only the kernel stack below the interrupted code has changed.
\<close>

theorem interrupt_transparent:
  assumes "implements R dp f (on_irq io)" "kernel_cs d = 0x08" "context_ok c" "clear_of R dp t c" "n < 16"
    "interrupt io (of_nat n) k = Returns k'"
  shows "\<exists>m. run f (irq_stubs ra ! n) (enter_gate t d None c) k = Some (Returns (c\<lparr>ram := m\<rparr>, k')) \<and> (\<forall>a \<in> R. m a = ram c a)"
proof -
  define fr where "fr = frame_of (of_nat n) 0 (frame_sp t (of_nat n) c) c"
  have "fr = fr\<lparr>f_eax := rg c EAX\<rparr>" by (simp add: fr_def frame_of_def)
  moreover have "f_vector fr = of_nat n" by (simp add: fr_def frame_of_def)
  ultimately have h: "on_irq io fr k = Some (Returns (fr\<lparr>f_eax := rg c EAX\<rparr>, k'))" using assms(6) by (simp add: on_irq_def)
  obtain m where "run f (stub_save ra @ stub_restore) (at_action t d None [0, of_nat n] c) k
      = Some (Returns (set_reg EAX (rg c EAX) (c\<lparr>ram := m\<rparr>), k'))" "\<forall>a \<in> R. m a = ram c a"
    using c_handler.stub_round [OF c_handler.intro, OF assms(1-4) h [unfolded fr_def], of ra] by blast
  moreover have "set_reg EAX (rg c EAX) (c\<lparr>ram := m\<rparr>) = c\<lparr>ram := m\<rparr>" by (simp add: set_reg_def)
  ultimately show ?thesis unfolding irq_stub_parts [OF assms(5)] run_two_pushes by auto
qed

section \<open>System calls\<close>

text \<open>The registers of a system call, as the handler finds them.\<close>

definition call_of :: "cpu \<Rightarrow> regs" where
  "call_of c = \<lparr>r_ebx = rg c EBX, r_ecx = rg c ECX, r_eax = rg c EAX, r_vector = 0x80, r_error_code = 0,
     r_eip = eip_reg c, r_cs = ucast (cs_reg c)\<rparr>"

text \<open>
  C6. A system call is a function call of the program: the handler finds the number and the arguments in the registers, and afterwards
  the program goes on behind its call with the result in \<open>eax\<close> and all else as it was.
\<close>

theorem syscall_returns_result:
  assumes "implements R dp f (on_syscall io arrivals)" "kernel_cs d = 0x08" "context_ok c" "clear_of R dp t c"
    "syscall_handler io arrivals (call_of c) k = Some (r, Returns k', arrivals')"
  shows "\<exists>m. run f (syscall_stub ra) (enter_gate t d None c) k = Some (Returns (set_reg EAX (r_eax r) (c\<lparr>ram := m\<rparr>), k'))
    \<and> (\<forall>a \<in> R. m a = ram c a)"
proof -
  define fr where "fr = frame_of 0x80 0 (frame_sp t 0x80 c) c"
  have "regs_of fr = call_of c" by (simp add: fr_def frame_of_def regs_of_def call_of_def)
  then have h: "on_syscall io arrivals fr k = Some (Returns (fr\<lparr>f_eax := r_eax r\<rparr>, k'))" using assms(5) by (simp add: on_syscall_def)
  have "syscall_stub ra = [Push_imm 0, Push_imm 0x80] @ stub_save ra @ stub_restore"
    by (simp add: syscall_stub_def stub_save_def stub_restore_def)
  then show ?thesis using c_handler.stub_round [OF c_handler.intro, OF assms(1-4) h [unfolded fr_def], of ra] by (simp only: run_two_pushes)
qed

section \<open>Exceptions\<close>

text \<open>The exceptions for which the processor pushes an error code.\<close>

definition pushes_error :: "nat \<Rightarrow> bool" where
  "pushes_error v \<longleftrightarrow> v \<in> {8, 10, 11, 12, 13, 14, 17, 21, 29, 30}"

definition has_err_stub :: "nat \<Rightarrow> bool" where
  "has_err_stub v \<longleftrightarrow> v \<in> {8, 10, 11, 12, 13, 14, 17, 30}"

definition stub_words :: "nat \<Rightarrow> u32 list" where
  "stub_words v = (if has_err_stub v then [of_nat v] else [0, of_nat v])"

lemma error_stubs: "pushes_error v \<longleftrightarrow> has_err_stub v \<or> v \<in> {21, 29}" "has_err_stub v \<Longrightarrow> v \<notin> {21, 29}"
  by (auto simp: has_err_stub_def pushes_error_def)

lemma isr_stub_runs:
  assumes "v < 32"
  shows "run f (isr_stubs ra ! v) (enter_gate t d err c) k = run f (stub_save ra @ stub_restore) (at_action t d err (stub_words v) c) k"
proof -
  have "isr_stubs ra ! v = (if has_err_stub v then isr_err_stub v ra else isr_no_err_stub v ra)"
    using assms by (simp add: isr_stubs_def less_Suc_eq numeral_eq_Suc has_err_stub_def) (elim disjE, simp_all)
  moreover have "isr_global_action ra = stub_save ra @ stub_restore" by (simp add: isr_global_action_def stub_save_def stub_restore_def)
  ultimately show ?thesis by (simp add: isr_err_stub_def isr_no_err_stub_def at_action_def stub_words_def)
qed

text \<open>The frame as words: what the gate and the stub have pushed stands behind the twelve registers.\<close>

definition frame_of_words :: "cpu \<Rightarrow> u32 \<Rightarrow> u32 list \<Rightarrow> trap_frame" where
  "frame_of_words c sp ws = (frame_of (ws ! 0) (ws ! 1) sp c)\<lparr>f_eip := ws ! 2, f_cs := ws ! 3, f_eflags := ws ! 4\<rparr>"

lemma five_words: "5 \<le> length ws \<Longrightarrow> ws = [ws ! 0, ws ! 1, ws ! 2, ws ! 3, ws ! 4] @ drop 5 ws"
  by (cases ws; cases "tl ws"; cases "tl (tl ws)"; cases "tl (tl (tl ws))"; cases "tl (tl (tl (tl ws)))") (auto simp: numeral_eq_Suc)

text \<open>
  C27. What the handler of exceptions is shown. For every vector it is called with a frame that names it, with the registers of the code that
  failed; the error code and the place are right, or the error code is 0 where the processor gives none. For vectors 21
  and 29 the stub pushes a second error code: the handler takes the processor's for the place, and the place for the code segment.
\<close>

theorem exception_frames:
  fixes ra :: u32
  assumes "kernel_cs d = 0x08" "context_ok c" "96 \<le> unat (kernel_sp t c)" "v < 32"
    "err = (if pushes_error v then Some e else None)"
  shows "\<exists>c1 fr rest. (\<forall>f (k :: 'k). (\<forall>s. f c1 k \<noteq> Some (Returns s)) \<longrightarrow> run f (isr_stubs ra ! v) (enter_gate t d err c) k = f c1 k)
    \<and> on_stack c1 (ra # (rg c1 ESP + 8) # frame_words fr @ rest) \<and> f_vector fr = of_nat v
    \<and> [f_eax fr, f_ecx fr, f_edx fr, f_ebx fr, f_ebp fr, f_esi fr, f_edi fr] = map (rg c) [EAX, ECX, EDX, EBX, EBP, ESI, EDI]
    \<and> (v \<notin> {21, 29} \<longrightarrow> f_error_code fr = (if pushes_error v then e else 0) \<and> f_eip fr = eip_reg c
        \<and> f_cs fr = ucast (cs_reg c) \<and> f_eflags fr = eflags_reg c)
    \<and> (v \<in> {21, 29} \<longrightarrow> f_error_code fr = 0 \<and> f_eip fr = e \<and> f_cs fr = eip_reg c)"
proof -
  define ws where "ws = gate_words err (stub_words v) c"
  define c0 where "c0 = at_action t d err (stub_words v) c"
  define c1 where "c1 = in_handler ra c0"
  have ol: "length (outer_words c) \<le> 2" by (simp add: outer_words_def)
  then have n: "5 \<le> length ws" "4 * length ws + 56 \<le> unat (kernel_sp t c)"
    using assms(3,5) by (auto simp: ws_def gate_words_def stub_words_def has_err_stub_def pushes_error_def split: option.split)
  note sh = stub_handler [OF assms(1,2) n(2) [unfolded ws_def], where ra = ra, folded c0_def c1_def ws_def]
  have b: "4 * length (gate_words err (stub_words v) c) \<le> unat (kernel_sp t c)" using n(2) by (simp add: ws_def)
  have r: "rg c0 = (rg c)(ESP := kernel_sp t c - of_nat (4 * length ws))" "\<forall>s \<in> {DS, ES, FS, GS}. sg c0 s = sg c s"
    using at_action_stack(2) [OF stack_at_Nil order_refl b, where d = d] by (simp_all add: c0_def ws_def)
  define fr where "fr = frame_of_words c (rg c0 ESP) ws"
  have "rev (context_pushes c0) @ ws = frame_words fr @ drop 5 ws"
    by (subst (1) five_words [OF n(1)]) (simp add: context_pushes_def frame_words_def fr_def frame_of_words_def frame_of_def r)
  then have st: "on_stack c1 (ra # (rg c1 ESP + 8) # frame_words fr @ drop 5 ws)" using sh(2) by simp
  have run: "run f (isr_stubs ra ! v) (enter_gate t d err c) k = f c1 k" if "\<forall>s. f c1 k \<noteq> Some (Returns s)" for f and k :: 'k
    using that sh(1) [of f stub_restore k] unfolding isr_stub_runs [OF assms(4)] c0_def [symmetric]
    by (cases "f c1 k") (auto split: flow.split)
  have w: "ws = (if has_err_stub v then [of_nat v, e] else if pushes_error v then [of_nat v, 0, e] else [of_nat v, 0])
      @ [eip_reg c, ucast (cs_reg c), eflags_reg c] @ outer_words c"
    using assms(5) by (auto simp: ws_def gate_words_def stub_words_def has_err_stub_def pushes_error_def)
  have regs: "[f_eax fr, f_ecx fr, f_edx fr, f_ebx fr, f_ebp fr, f_esi fr, f_edi fr] = map (rg c) [EAX, ECX, EDX, EBX, EBP, ESI, EDI]"
    by (simp add: fr_def frame_of_words_def frame_of_def)
  consider "has_err_stub v" "pushes_error v" "v \<notin> {21, 29}" | "\<not> has_err_stub v" "pushes_error v" "v \<in> {21, 29}"
    | "\<not> has_err_stub v" "\<not> pushes_error v" "v \<notin> {21, 29}"
    using error_stubs by blast
  then have "ws ! 0 = of_nat v \<and> ws ! 1 = (if has_err_stub v then e else 0) \<and> ws ! 2 = (if v \<in> {21, 29} then e else eip_reg c)
      \<and> ws ! 3 = (if v \<in> {21, 29} then eip_reg c else ucast (cs_reg c)) \<and> (v \<notin> {21, 29} \<longrightarrow> ws ! 4 = eflags_reg c)"
    by cases (simp_all only: w if_True if_False append.simps nth_Cons_0 nth_Cons_numeral nth_Cons_Suc One_nat_def, simp_all)
  moreover have "f_vector fr = ws ! 0" "f_error_code fr = ws ! 1" "f_eip fr = ws ! 2" "f_cs fr = ws ! 3" "f_eflags fr = ws ! 4"
    by (simp_all add: fr_def frame_of_words_def frame_of_def)
  ultimately have "f_vector fr = of_nat v
    \<and> (v \<notin> {21, 29} \<longrightarrow> f_error_code fr = (if pushes_error v then e else 0) \<and> f_eip fr = eip_reg c
        \<and> f_cs fr = ucast (cs_reg c) \<and> f_eflags fr = eflags_reg c)
    \<and> (v \<in> {21, 29} \<longrightarrow> f_error_code fr = 0 \<and> f_eip fr = e \<and> f_cs fr = eip_reg c)"
    using error_stubs [of v] by auto
  moreover have "\<forall>f (k :: 'k). (\<forall>s. f c1 k \<noteq> Some (Returns s)) \<longrightarrow> run f (isr_stubs ra ! v) (enter_gate t d err c) k = f c1 k"
    using run by simp
  ultimately show ?thesis using st regs
    by (intro exI [of _ c1] exI [of _ fr] exI [of _ "drop 5 ws"]) (elim conjE, intro conjI, assumption+)
qed

end
