(* ===== verification/Cpu_User.thy ===== *)
theory Cpu_User
  imports Cpu_Calls
begin

text \<open>
  User mode: how a program is entered, and how the kernel is back in \<^verbatim>\<open>process_run\<close> when it has ended. The tables are those the kernel
  sets up at boot.
\<close>

section \<open>The segments of the kernel\<close>

definition boot_gdt :: "bytes \<Rightarrow> bool" where
  "boot_gdt g \<longleftrightarrow> length g = 48 \<and> segment_at g 1 = segment 0xFFFFF 0x9A 0xC \<and> segment_at g 2 = segment 0xFFFFF 0x92 0xC
     \<and> segment_at g 3 = segment 0xFFFFF 0xFA 0xC \<and> segment_at g 4 = segment 0xFFFFF 0xF2 0xC"

lemma boot_gdt_installed:
  assumes "gdt_i s = 0"
  shows "boot_gdt (gdt (install_gdt addr s))" "boot_gdt (gdt (snd (install_tss tss_addr stack (install_gdt addr s))))"
proof -
  define s5 where "s5 = install_gdt addr s"
  obtain t s' where e: "install_tss tss_addr stack s5 = (t, s')" by fastforce
  note b = boot_segments [OF assms e [unfolded s5_def]]
  then show "boot_gdt (gdt (snd (install_tss tss_addr stack (install_gdt addr s))))"
    using e by (simp add: boot_gdt_def s5_def)
  define s0 where "s0 = s\<lparr>gdtr_limit := of_nat (GDT_MAX_ENTRIES * 8 - 1), gdtr_base := addr, gdt := replicate (GDT_MAX_ENTRIES * 8) 0\<rparr>"
  have "length (gdt s0) = 48" "unat (gdt_i s0) = 0" using assms by (simp_all add: s0_def GDT_MAX_ENTRIES_def)
  then have 1: "length (gdt (gdt_set_descriptor d s0)) = 48 \<and> unat (gdt_i (gdt_set_descriptor d s0)) = 1" for d
    using gdt_step [of s0 0] by simp
  have 2: "length (gdt s) = 48 \<and> unat (gdt_i s) = n \<Longrightarrow> n < 6 \<Longrightarrow>
      length (gdt (gdt_set_descriptor d s)) = 48 \<and> unat (gdt_i (gdt_set_descriptor d s)) = Suc n" for d s n
    using gdt_step [of s n d] by simp
  have "length (gdt s5) = 48 \<and> unat (gdt_i s5) = Suc (Suc (Suc (Suc 1)))"
    unfolding s5_def install_gdt_def Let_def s0_def [symmetric] by (intro 2 1) simp_all
  then have g: "gdt_i s5 = 5" "length (gdt s5) = 48" by (simp_all add: word_unat_eq_iff)
  have s': "s' = gdt_set_descriptor \<lparr>limit = sizeof_tss - 1, base = tss_addr, access_byte = 0x89, flags = 0\<rparr> s5"
    using e by (simp add: install_tss_def)
  have "segment_at (gdt s') i = segment_at (gdt s5) i" if "i < 5" for i
    using gdt_roundtrip [OF g(2)] g(1) that unfolding s' by simp
  then show "boot_gdt (gdt (install_gdt addr s))" using b g by (simp add: boot_gdt_def s5_def [symmetric])
qed

lemma boot_selectors:
  assumes "boot_gdt g"
  shows "code_ok g 0x08" "data_ok g 0 0x10" "stack_ok g 0 0x10" "code_ok g 0x1B" "stack_ok g 3 0x23" "data_ok g 3 0x23"
    "dropped g 3 0x10 = 0" "in_gdt g 0x08" "sel_access g 0x08 = 0x9A"
proof -
  have i: "sel_index 0x08 = 1" "sel_index 0x10 = 2" "sel_index 0x1B = 3" "sel_index 0x23 = 4" by (simp_all add: sel_index_def)
  have a: "sel_access g 0x08 = 0x9A" "sel_access g 0x10 = 0x92" "sel_access g 0x1B = 0xFA" "sel_access g 0x23 = 0xF2"
    using assms by (simp_all add: sel_access_def i boot_gdt_def segment_def)
  have n: "\<not> null_sel 0x08" "\<not> null_sel 0x10" "\<not> null_sel 0x1B" "\<not> null_sel 0x23" by (simp_all add: null_sel_def)
  have l: "length g = 48" using assms by (simp add: boot_gdt_def)
  have r: "rpl 0x08 = 0" "rpl 0x10 = 0" "rpl 0x1B = 3" "rpl 0x23 = 3" by (simp_all add: rpl_def)
  have d: "dpl 0x9A = 0" "dpl 0x92 = 0" "dpl 0xFA = 3" "dpl 0xF2 = 3" by (simp_all add: dpl_def)
  have g: "in_gdt g 0x08" "in_gdt g 0x10" "in_gdt g 0x1B" "in_gdt g 0x23"
    by (simp_all add: in_gdt_def n l i a present_def)
  show "code_ok g 0x08" "data_ok g 0 0x10" "stack_ok g 0 0x10" "code_ok g 0x1B" "stack_ok g 3 0x23" "data_ok g 3 0x23"
    "dropped g 3 0x10 = 0" "in_gdt g 0x08" "sel_access g 0x08 = 0x9A"
    by (simp_all add: code_ok_def data_ok_def stack_ok_def dropped_def g a d r n is_code_def conforming_def)
qed

text \<open>
  The processor after \<^verbatim>\<open>install_gdt\<close>, \<^verbatim>\<open>install_tss\<close> and \<^verbatim>\<open>install_idt\<close>: kernel code and data segments, the task register on the sixth entry,
  the gates, and interrupts on.
\<close>

lemma load_gdt_runs:
  assumes "gdt_i s = 0" "cpl c = 0"
  shows "run f (load_gdt (install_gdt addr s) flush) c k
    = Some (Returns ((discard 1 (set_reg EAX ((rg c EAX AND 0xFFFF0000) OR 0x10) c))\<lparr>gdt_used := gdt (install_gdt addr s),
        sg := (\<lambda>_. 0x10), cs_reg := 0x08, eip_reg := peek 0 c\<rparr>, k))"
proof -
  define g where "g = gdt (install_gdt addr s)"
  note b = boot_selectors [OF boot_gdt_installed(1) [OF assms(1), of addr, folded g_def]]
  define c1 where "c1 = set_reg EAX ((rg c EAX AND 0xFFFF0000) OR 0x10) (c\<lparr>gdt_used := g\<rparr>)"
  have s: "exec (Mov_seg q) (c1\<lparr>sg := h\<rparr>) = Some (c1\<lparr>sg := h(q := 0x10)\<rparr>)" for q h
    using b(2,3) assms(2) by (simp add: c1_def load_seg_def low_half) (simp add: cpl_def set_reg_def)
  define h where "h = (sg c)(DS := 0x10, ES := 0x10, FS := 0x10, GS := 0x10, SS := 0x10)"
  have h: "h = (\<lambda>_. 0x10)"
  proof
    fix q show "h q = 0x10" by (cases q) (simp_all add: h_def)
  qed
  have c1: "c1 = c1\<lparr>sg := sg c\<rparr>" by (simp add: c1_def set_reg_def)
  have "run f (load_gdt (install_gdt addr s) flush) c k
      = run f [Mov_seg DS, Mov_seg ES, Mov_seg FS, Mov_seg GS, Mov_seg SS, Jmp_far 0x08 flush, Ret] (c1\<lparr>sg := sg c\<rparr>) k"
    unfolding c1 [symmetric] by (simp add: load_gdt_def c1_def g_def)
  also have "\<dots> = run f [Jmp_far 0x08 flush, Ret] (c1\<lparr>sg := h\<rparr>) k"
    by (simp add: run_step [OF s] h_def del: exec.simps run.simps)
  also have "exec (Jmp_far 0x08 flush) (c1\<lparr>sg := h\<rparr>) = Some (c1\<lparr>sg := h, cs_reg := 0x08, eip_reg := flush\<rparr>)"
  proof -
    have "cpl c1 = 0" "gdt_used c1 = g" using assms(2) by (simp_all add: c1_def) (simp add: cpl_def)
    then show ?thesis using b(8,9) by (simp add: is_code_def conforming_def dpl_def rpl_def)
  qed
  then have "run f [Jmp_far 0x08 flush, Ret] (c1\<lparr>sg := h\<rparr>) k = run f [Ret] (c1\<lparr>sg := h, cs_reg := 0x08, eip_reg := flush\<rparr>) k"
    by (simp only: run_step)
  finally show ?thesis by (simp add: h c1_def g_def set_reg_def discard_def peek_def)
qed

section \<open>Entering a program\<close>

lemma peek_push [simp]: "peek 0 (push w c) = w"
  by (simp add: peek_def push_def rd32_wr32_same)

lemma discard_push: "discard 1 (push w c) = c\<lparr>ram := ram (push w c)\<rparr>"
  by (simp add: discard_def set_reg_def push_def)

text \<open>What \<^verbatim>\<open>enter_user_mode\<close> keeps of its caller.\<close>

definition saved_of :: "cpu \<Rightarrow> saved_var \<Rightarrow> u32" where
  "saved_of c = (\<lambda>v. case v of process_saved_esp \<Rightarrow> rg c ESP | process_saved_ebp \<Rightarrow> rg c EBP | process_saved_ebx \<Rightarrow> rg c EBX
     | process_saved_esi \<Rightarrow> rg c ESI | process_saved_edi \<Rightarrow> rg c EDI)"

lemma enter_user_mode_runs:
  assumes g: "boot_gdt (gdt_used c)" "cpl c = 0" "\<not> bit (eflags_reg c) FLAG_NT" "\<not> bit (eflags_reg c) FLAG_VM"
    and w: "on_stack c (ret # entry_point # ustack # ws)" "20 \<le> unat (rg c ESP)"
  obtains u where "run f enter_user_mode c k = Some (Returns (u, k))" "eip_reg u = entry_point" "rg u ESP = ustack" "cs_reg u = 0x1B"
    "sg u = (\<lambda>s. if s = SS then 0x23 else dropped (gdt_used c) 3 (sg c s))" "eflags_reg u = eflags_reg c OR 0x200"
    "saved u = saved_of c" "gdt_used u = gdt_used c" "\<And>a. a \<notin> range32 (rg c ESP - 20) 20 \<Longrightarrow> ram u a = ram c a"
proof -
  note b = boot_selectors [OF g(1)]
  have e: "rd32 (ram c) (rg c ESP + 4) = entry_point" "rd32 (ram c) (rg c ESP + 8) = ustack"
    using stack_at_peek [OF w(1), of 1] stack_at_peek [OF w(1), of 2] by simp_all
  define c2 where "c2 = c\<lparr>rg := (rg c)(EAX := entry_point, ECX := ustack), saved := saved_of c\<rparr>"
  have sv: "(saved c)(process_saved_esp := rg c ESP, process_saved_ebp := rg c EBP, process_saved_ebx := rg c EBX,
      process_saved_esi := rg c ESI, process_saved_edi := rg c EDI) = saved_of c"
  proof
    fix v show "((saved c)(process_saved_esp := rg c ESP, process_saved_ebp := rg c EBP, process_saved_ebx := rg c EBX,
      process_saved_esi := rg c ESI, process_saved_edi := rg c EDI)) v = saved_of c v" by (cases v) (simp_all add: saved_of_def)
  qed
  have r1: "run f enter_user_mode c k = run f [Pushf, Pop EDX, Or_imm EDX 0x200,
      Push_imm 0x23, Push ECX, Push EDX, Push_imm 0x1B, Push EAX, Iret] c2 k"
    by (simp add: enter_user_mode_def e set_reg_def sv c2_def)
  define c3 where "c3 = c2\<lparr>ram := ram (push (eflags_reg c) c2)\<rparr>"
  define c4 where "c4 = set_reg EDX (eflags_reg c OR 0x200) c3"
  have fl: "eflags_reg c2 = eflags_reg c" by (simp add: c2_def)
  have "exec Pushf c2 = Some (push (eflags_reg c) c2)" by (simp add: fl)
  moreover have "exec (Pop EDX) (push (eflags_reg c) c2) = Some (set_reg EDX (eflags_reg c) c3)"
    by (simp add: c3_def discard_push [simplified])
  moreover have "exec (Or_imm EDX 0x200) (set_reg EDX (eflags_reg c) c3) = Some c4" by (simp add: c4_def set_reg_def)
  ultimately have r2: "run f enter_user_mode c k = run f [Push_imm 0x23, Push ECX, Push EDX, Push_imm 0x1B, Push EAX, Iret] c4 k"
    unfolding r1 by (simp only: run_step)
  define xs where "xs = [0x23, ustack, eflags_reg c OR 0x200, 0x1B, entry_point]"
  define c5 where "c5 = fold push xs c4"
  have rg4: "rg c4 = (rg c)(EAX := entry_point, ECX := ustack, EDX := eflags_reg c OR 0x200)" by (simp add: c4_def c3_def c2_def)
  have r3: "run f enter_user_mode c k = run f [Iret] c5 k" unfolding r2 by (simp add: rg4 c5_def xs_def)
  have s5: "on_stack c5 [entry_point, 0x1B, eflags_reg c OR 0x200, ustack, 0x23]"
    using on_stack_pushes [of c4 "[]" xs] w(2) rg4 by (simp add: c5_def xs_def)
  have pk: "peek 0 c5 = entry_point" "peek 1 c5 = 0x1B" "peek 2 c5 = eflags_reg c OR 0x200" "peek 3 c5 = ustack" "peek 4 c5 = 0x23"
    using on_stack_peek [OF s5, of 0] on_stack_peek [OF s5, of 1] on_stack_peek [OF s5, of 2] on_stack_peek [OF s5, of 3]
      on_stack_peek [OF s5, of 4] by simp_all
  have p5: "eflags_reg c5 = eflags_reg c" "gdt_used c5 = gdt_used c" "sg c5 = sg c" "saved c5 = saved_of c" "cpl c5 = 0"
    using g(2) by (simp_all add: c5_def c4_def c3_def c2_def) (simp add: cpl_def)
  have vm: "\<not> bit (eflags_reg c OR 0x200) FLAG_VM" using g(4) by (simp add: bit_or_iff FLAG_VM_def)
  define u where "u = (set_reg ESP ustack c5)\<lparr>eip_reg := entry_point, cs_reg := 0x1B, eflags_reg := eflags_reg c OR 0x200,
      sg := (\<lambda>s. dropped (gdt_used c) 3 (sg c s))(SS := 0x23)\<rparr>"
  have "rpl 0x1B = 3" by (simp add: rpl_def)
  then have "iret c5 = Some u" using pk p5 vm g(3) b(4,5) by (simp add: iret_def Let_def u_def)
  then have "run f enter_user_mode c k = Some (Returns (u, k))" unfolding r3 by simp
  moreover have "ram u a = ram c a" if a: "a \<notin> range32 (rg c ESP - 20) 20" for a
  proof -
    have "ram c5 a = ram c4 a" unfolding c5_def using a w(2) rg4 by (intro pushes_ram [where n = 20]) (simp_all add: xs_def)
    moreover have "ram (fold push [eflags_reg c] c2) a = ram c2 a"
      using a w(2) by (intro pushes_ram [where n = 20]) (simp_all add: c2_def)
    ultimately show ?thesis by (simp add: u_def c4_def c3_def) (simp add: c2_def)
  qed
  ultimately show thesis using p5 by (intro that [of u]) (auto simp: u_def)
qed

section \<open>Coming back\<close>

text \<open>The bytes of the caller's stack from \<^verbatim>\<open>process_saved_esp\<close> on, where \<open>ws\<close> lie.\<close>

definition resumed :: "cpu \<Rightarrow> cpu \<Rightarrow> u32 \<Rightarrow> bool" where
  "resumed c c2 ret \<longleftrightarrow> eip_reg c2 = ret \<and> rg c2 ESP = saved c process_saved_esp + 4 \<and> rg c2 EBP = saved c process_saved_ebp
     \<and> rg c2 EBX = saved c process_saved_ebx \<and> rg c2 ESI = saved c process_saved_esi \<and> rg c2 EDI = saved c process_saved_edi"

lemma resume_runs:
  assumes "rd32 (ram c) (saved c process_saved_esp) = ret"
  obtains c2 where "run f kernel_resume_after_exit c k = Some (Returns (c2, k))" "resumed c c2 ret" "same_mode c c2" "ram c2 = ram c"
proof -
  define c2 where "c2 = c\<lparr>rg := (rg c)(ESP := saved c process_saved_esp + 4, EBP := saved c process_saved_ebp,
      EBX := saved c process_saved_ebx, ESI := saved c process_saved_esi, EDI := saved c process_saved_edi), eip_reg := ret\<rparr>"
  have "run f kernel_resume_after_exit c k = Some (Returns (c2, k))"
    using assms by (simp add: kernel_resume_after_exit_def c2_def set_reg_def discard_def peek_def fun_upd_twist)
  then show thesis by (rule that) (simp_all add: resumed_def same_mode_def others_def c2_def)
qed

lemma rd32_kept: "\<forall>a \<in> range32 p 4. m a = m' a \<Longrightarrow> unat p + 4 \<le> 4294967296 \<Longrightarrow> rd32 m p = rd32 m' p"
  by (intro rd32_outside) auto

lemma stack_at_kept:
  assumes "stack_at m p ws" "\<forall>a \<in> range32 p (4 * length ws). m' a = m a"
  shows "stack_at m' p ws"
proof -
  have "rd32 m' (p + of_nat (4 * i)) = rd32 m (p + of_nat (4 * i))" if i: "i < length ws" for i
  proof (rule rd32_kept)
    have u: "unat (p + of_nat (4 * i)) = unat p + 4 * i"
      using assms(1) i unat_plus_le [of p "4 * i"] by (simp add: stack_at_def)
    then show "unat (p + of_nat (4 * i)) + 4 \<le> 4294967296" using assms(1) i by (simp add: stack_at_def)
    show "\<forall>a \<in> range32 (p + of_nat (4 * i)) 4. m' a = m a"
      using assms(2) i by (auto simp: range32_def u simp del: of_nat_mult)
  qed
  then show ?thesis using assms(1) by (simp add: stack_at_def)
qed

context c_handler
begin

text \<open>A handler that does not return ends in \<^verbatim>\<open>process_run\<close>, behind the call of \<^verbatim>\<open>enter_user_mode\<close>.\<close>

lemma stub_unwinds:
  fixes v ra :: u32
  assumes d: "kernel_cs d = 0x08" and c: "context_ok c" and room: "clear_of R dp t c"
    and h: "h (frame_of v 0 (frame_sp t v c) c) k = Some (Unwinds (fr', k'))"
    and st: "rd32 (ram c) (saved c process_saved_esp) = ret" "unat (saved c process_saved_esp) + 4 \<le> 4294967296"
      "range32 (saved c process_saved_esp) 4 \<subseteq> R"
  shows "\<exists>c2. run f (stub_save ra @ stub_restore) (at_action t d None [0, v] c) k = Some (Unwinds (c2, k'))
    \<and> resumed c c2 ret \<and> cs_reg c2 = 0x08 \<and> bit (eflags_reg c2) FLAG_IF = (trap_gate d \<and> bit (eflags_reg c) FLAG_IF)
    \<and> (\<forall>s \<in> {DS, ES, FS, GS}. sg c2 s = 0x10) \<and> others c2 = others c \<and> (\<forall>a \<in> R. ram c2 a = ram c a)"
proof -
  have r84: "84 \<le> unat (kernel_sp t c)" using room by (simp add: clear_of_def)
  define fr where "fr = frame_of v 0 (frame_sp t v c) c"
  define c1 where "c1 = in_handler ra (at_action t d None [0, v] c)"
  note sc = stub_called [OF d c r84, where v = v and ra = ra, folded c1_def fr_def]
  have ol: "length (outer_words c) \<le> 2" by (simp add: outer_words_def)
  note cl = clear_of_range [OF room, of "rg c1 ESP" "76 + 4 * length (outer_words c)"]
  have "R \<inter> range32 (rg c1 ESP - of_nat dp) (dp + 4 * (19 + length (outer_words c))) = {}" "dp \<le> unat (rg c1 ESP)"
    using cl sc(4) ol by (simp_all add: add.assoc)
  then obtain c' where c': "same_mode c1 c'" "\<forall>a \<in> R. ram c' a = ram c1 a"
      "f c1 k = (case run f kernel_resume_after_exit c' k' of Some (Returns s) \<Rightarrow> Some (Unwinds s) | _ \<Rightarrow> None)"
    using keeps_promise [unfolded implements_def, rule_format, of c1 ra fr "outer_words c" k] sc(2) h by (auto simp: fr_def)
  have R: "ram c' a = ram c a" if "a \<in> R" for a using c'(2) sc(9) clear_of_stub [OF room that] that by simp
  have sv: "saved c' = saved c" using c'(1) sc(6) by (simp add: same_mode_def others_def)
  have "rd32 (ram c') (saved c process_saved_esp) = rd32 (ram c) (saved c process_saved_esp)"
    using st(2,3) R by (intro rd32_kept) auto
  then have x: "rd32 (ram c') (saved c' process_saved_esp) = ret" using st(1) sv by simp
  obtain c2 where c2: "run f kernel_resume_after_exit c' k' = Some (Returns (c2, k'))" "resumed c' c2 ret" "same_mode c' c2" "ram c2 = ram c'"
    by (rule resume_runs [OF x])
  have "run f (stub_save ra @ stub_restore) (at_action t d None [0, v] c) k = Some (Unwinds (c2, k'))"
    using sc(1) [of f stub_restore k] c'(3) c2(1) by simp
  moreover have "resumed c c2 ret" using c2(2) sv by (simp add: resumed_def)
  moreover have "sg c1 s = 0x10" if "s \<in> {DS, ES, FS, GS}" for s using that by (auto simp: c1_def)
  moreover have "cs_reg c1 = 0x08" using d by (simp add: c1_def)
  ultimately show ?thesis using c'(1) c2(3,4) sc(6,8) R gate_flags_bits(2) [of d "eflags_reg c"]
    by (intro exI [of _ c2]) (simp add: same_mode_def)
qed

end

section \<open>Properties\<close>

text \<open>
  C7. A program starts in user mode. \<^verbatim>\<open>enter_user_mode\<close>, called by the kernel with its tables, reaches the entry point
  with privilege 3, the user's code and stack segments, the stack it was given and interrupts on, and has kept what it needs to come back; but the
  data segments are null: \<^verbatim>\<open>iret\<close> drops the kernel's, and the user's are never loaded.
\<close>

theorem program_starts_in_user_mode:
  assumes "boot_gdt (gdt_used c)" "cpl c = 0" "\<not> bit (eflags_reg c) FLAG_NT" "\<not> bit (eflags_reg c) FLAG_VM"
    "\<forall>s \<in> {DS, ES, FS, GS}. sg c s = 0x10" "on_stack c (ret # entry_point # ustack # ws)" "20 \<le> unat (rg c ESP)"
  shows "\<exists>u. run f enter_user_mode c k = Some (Returns (u, k)) \<and> cpl u = 3 \<and> eip_reg u = entry_point \<and> rg u ESP = ustack
    \<and> code_ok (gdt_used u) (cs_reg u) \<and> stack_ok (gdt_used u) 3 (sg u SS) \<and> bit (eflags_reg u) FLAG_IF
    \<and> saved u = saved_of c \<and> on_stack (u\<lparr>rg := rg c\<rparr>) (ret # entry_point # ustack # ws)
    \<and> (\<forall>s \<in> {DS, ES, FS, GS}. null_sel (sg u s))"
proof -
  obtain u where u: "run f enter_user_mode c k = Some (Returns (u, k))" "eip_reg u = entry_point" "rg u ESP = ustack" "cs_reg u = 0x1B"
    "sg u = (\<lambda>s. if s = SS then 0x23 else dropped (gdt_used c) 3 (sg c s))" "eflags_reg u = eflags_reg c OR 0x200"
    "saved u = saved_of c" "gdt_used u = gdt_used c" "\<And>a. a \<notin> range32 (rg c ESP - 20) 20 \<Longrightarrow> ram u a = ram c a"
    using enter_user_mode_runs [where f = f and k = k, OF assms(1-4,6,7)] by blast
  note b = boot_selectors [OF assms(1)]
  have "unat (rg c ESP - 20) = unat (rg c ESP) - 20" using unat_minus_le [of 20 "rg c ESP"] assms(7) by simp
  then have "stack_at (ram u) (rg c ESP) (ret # entry_point # ustack # ws)"
    using assms(7) by (intro stack_at_kept [OF assms(6)]) (auto simp: range32_def intro!: u(9))
  moreover have "bit (eflags_reg u) FLAG_IF" by (simp add: u(6) bit_or_iff FLAG_IF_def)
  moreover have "\<forall>s \<in> {DS, ES, FS, GS}. null_sel (sg u s)" using assms(5) b(7) by (simp add: u(5) null_sel_def)
  ultimately show ?thesis using u b by (intro exI [of _ u]) (simp add: cpl_def rpl_def)
qed

text \<open>
  C5. A program that exits lands in \<^verbatim>\<open>process_run\<close>. Whatever it has done since it was entered, as long as the bytes \<open>R\<close>, the caller's
  stack among them, and the saved registers are as they were, the system call to exit comes out behind the call of
  \<^verbatim>\<open>enter_user_mode\<close>, with the stack and the registers the calling convention asks for, and interrupts as the program had them.
\<close>

theorem exit_returns_to_process_run:
  assumes "run f0 enter_user_mode c k0 = Some (Returns (u, k0))" "boot_gdt (gdt_used c)" "cpl c = 0"
    "\<not> bit (eflags_reg c) FLAG_NT" "\<not> bit (eflags_reg c) FLAG_VM" "on_stack c (ret # entry_point # ustack # ws)" "20 \<le> unat (rg c ESP)"
    and "saved cu = saved u" "\<forall>a \<in> R. ram cu a = ram u a" "range32 (rg c ESP) 4 \<subseteq> R"
    and "implements R dp f (on_syscall io arrivals)" "kernel_cs d = 0x08" "attributes d = 0xEF" "context_ok cu" "clear_of R dp t cu"
      "syscall_handler io arrivals (call_of cu) k = Some (r, Unwinds k', arrivals')"
  shows "\<exists>c2. run f (syscall_stub ra) (enter_gate t d None cu) k = Some (Unwinds (c2, k')) \<and> eip_reg c2 = ret
    \<and> rg c2 ESP = rg c ESP + 4 \<and> (\<forall>q \<in> {EBP, EBX, ESI, EDI}. rg c2 q = rg c q) \<and> cpl c2 = 0 \<and> gdt_used c2 = gdt_used cu
    \<and> bit (eflags_reg c2) FLAG_IF = bit (eflags_reg cu) FLAG_IF \<and> (\<forall>a \<in> R. ram c2 a = ram u a)"
proof -
  obtain u' where u': "run f0 enter_user_mode c k0 = Some (Returns (u', k0))" "saved u' = saved_of c"
      "\<And>a. a \<notin> range32 (rg c ESP - 20) 20 \<Longrightarrow> ram u' a = ram c a"
    using enter_user_mode_runs [where f = f0 and k = k0, OF assms(2-7)] by blast
  then have u: "saved u = saved_of c" "\<And>a. a \<notin> range32 (rg c ESP - 20) 20 \<Longrightarrow> ram u a = ram c a" using assms(1) by simp_all
  have sp: "saved cu process_saved_esp = rg c ESP" using u(1) assms(8) by (simp add: saved_of_def)
  have top: "unat (rg c ESP) + 4 \<le> 4294967296" using assms(6) by (simp add: stack_at_def)
  have "unat (rg c ESP - 20) = unat (rg c ESP) - 20" using unat_minus_le [of 20 "rg c ESP"] assms(7) by simp
  then have "\<forall>a \<in> range32 (rg c ESP) 4. ram cu a = ram c a"
    using assms(7,9,10) u(2) by (force simp: range32_def)
  then have ret: "rd32 (ram cu) (rg c ESP) = ret"
    using rd32_kept [OF _ top, of "ram cu" "ram c"] stack_at_peek [OF assms(6), of 0] by simp
  define fr where "fr = frame_of 0x80 0 (frame_sp t 0x80 cu) cu"
  have "regs_of fr = call_of cu" by (simp add: fr_def frame_of_def regs_of_def call_of_def)
  then have h: "on_syscall io arrivals fr k = Some (Unwinds (fr, k'))" using assms(16) by (simp add: on_syscall_def)
  have "syscall_stub ra = [Push_imm 0, Push_imm 0x80] @ stub_save ra @ stub_restore"
    by (simp add: syscall_stub_def stub_save_def stub_restore_def)
  then have rn: "run f (syscall_stub ra) (enter_gate t d None cu) k = run f (stub_save ra @ stub_restore) (at_action t d None [0, 0x80] cu) k"
    by (simp only: run_two_pushes)
  have st: "rd32 (ram cu) (saved cu process_saved_esp) = ret" "unat (saved cu process_saved_esp) + 4 \<le> 4294967296"
    "range32 (saved cu process_saved_esp) 4 \<subseteq> R" using ret top assms(10) sp by simp_all
  obtain c2 where c2: "run f (syscall_stub ra) (enter_gate t d None cu) k = Some (Unwinds (c2, k'))" "resumed cu c2 ret" "cs_reg c2 = 0x08"
      "bit (eflags_reg c2) FLAG_IF = (trap_gate d \<and> bit (eflags_reg cu) FLAG_IF)" "others c2 = others cu" "\<forall>a \<in> R. ram c2 a = ram cu a"
    using c_handler.stub_unwinds [OF c_handler.intro, OF assms(11,12,14,15) h [unfolded fr_def] st, of ra] unfolding rn by blast
  have "trap_gate d" using assms(13) by (simp add: trap_gate_def)
  then show ?thesis using c2 assms(8,9) u(1) sp
    by (intro exI [of _ c2]) (auto simp: resumed_def saved_of_def cpl_def rpl_def others_def)
qed

text \<open>
  C26. A program that is killed leaves the kernel deaf. When the timer interrupt ends it, after Ctrl+C, the kernel also comes back
  to \<^verbatim>\<open>process_run\<close>, but with interrupts off: the gate has cleared the flag, and nothing sets it again.
\<close>

theorem kill_disables_interrupts:
  assumes "implements R dp f (on_irq io)" "kernel_cs d = 0x08" "attributes d = 0x8E" "context_ok cu" "clear_of R dp t cu"
    "interrupt io 0 k = Unwinds k'"
    "rd32 (ram cu) (saved cu process_saved_esp) = ret" "unat (saved cu process_saved_esp) + 4 \<le> 2 ^ 32"
    "range32 (saved cu process_saved_esp) 4 \<subseteq> R"
  shows "\<exists>c2. run f (irq_stubs ra ! 0) (enter_gate t d None cu) k = Some (Unwinds (c2, k')) \<and> resumed cu c2 ret \<and> cpl c2 = 0
    \<and> \<not> bit (eflags_reg c2) FLAG_IF"
proof -
  define fr where "fr = frame_of 0 0 (frame_sp t 0 cu) cu"
  have "f_vector fr = 0" by (simp add: fr_def frame_of_def)
  then have h: "on_irq io fr k = Some (Unwinds (fr, k'))" using assms(6) by (simp add: on_irq_def)
  have r: "run f (irq_stubs ra ! 0) (enter_gate t d None cu) k = run f (stub_save ra @ stub_restore) (at_action t d None [0, 0] cu) k"
    using irq_stub_parts [of 0 ra] run_two_pushes [of f 0 0 "stub_save ra @ stub_restore" t d None cu k] by (simp only: of_nat_0) simp
  have "\<not> trap_gate d" using assms(3) by (simp add: trap_gate_def)
  then obtain c2 where "run f (irq_stubs ra ! 0) (enter_gate t d None cu) k = Some (Unwinds (c2, k'))" "resumed cu c2 ret" "cs_reg c2 = 0x08"
      "\<not> bit (eflags_reg c2) FLAG_IF"
    using c_handler.stub_unwinds [OF c_handler.intro, OF assms(1,2,4,5) h [unfolded fr_def] assms(7), of ra] assms(8,9) r by auto
  then show ?thesis by (intro exI [of _ c2]) (simp add: cpl_def rpl_def)
qed

section \<open>Instances\<close>

text \<open>Kernel code about to call \<^verbatim>\<open>enter_user_mode\<close>, and a program that runs.\<close>

definition bare_cpu :: cpu where
  "bare_cpu = \<lparr>rg = (\<lambda>r. if r = ESP then 0x200000 else 0), sg = (\<lambda>_. 0x10), cs_reg = 0x08, eip_reg = 0x100200, eflags_reg = 0x202,
     cr0_reg = 0, cr3_reg = 0, tr_reg = 0x28, gdt_used = gdt (install_gdt 0x104000 gdt_fresh), idt_used = [], ram = (\<lambda>_. 0), saved = (\<lambda>_. 0)\<rparr>"

definition caller_cpu :: cpu where
  "caller_cpu = fold push [0xBFFFFFFC, 0x400000, 0x100123] bare_cpu"

definition user_cpu :: cpu where
  "user_cpu = bare_cpu\<lparr>cs_reg := 0x1B, sg := (\<lambda>s. if s = SS then 0x23 else 0), rg := (\<lambda>r. if r = ESP then 0xBFFFFF00 else 3), saved := (\<lambda>_. 0x1FFFF4)\<rparr>"

definition demo_tss :: tss_structure where
  "demo_tss = tss_zero\<lparr>t_esp0 := 0x302000, t_ss0 := 0x10\<rparr>"

definition demo_gate :: "u8 \<Rightarrow> idt_entry" where
  "demo_gate a = \<lparr>isr_low = 0x0200, kernel_cs = 0x08, reserved = 0, attributes = a, isr_high = 0x10\<rparr>"

lemma bare_gdt: "boot_gdt (gdt_used bare_cpu)"
  using boot_gdt_installed(1) [of gdt_fresh] by (simp add: bare_cpu_def gdt_fresh_def)

lemma user_context:
  assumes "gdt_used c = gdt_used bare_cpu" "cs_reg c = 0x1B" "sg c SS = 0x23" "\<forall>s \<in> {DS, ES, FS, GS}. null_sel (sg c s)"
    "eflags_reg c = 0x202"
  shows "context_ok c" "cpl c = 3"
proof -
  note b = boot_selectors [OF bare_gdt]
  show p: "cpl c = 3" by (simp add: cpl_def rpl_def assms(2))
  show "context_ok c" using b assms p by (simp add: context_ok_def FLAG_VM_def) (simp add: data_ok_def)
qed

lemma demo_clear:
  assumes "cpl c = 3"
  shows "clear_of (range32 0x1FFFF4 4) 0 demo_tss c"
proof -
  have "kernel_sp demo_tss c = 0x302000" using assms by (simp add: kernel_sp_def demo_tss_def)
  then show ?thesis by (auto simp: clear_of_def range32_def)
qed

lemma user_cpu_facts: "context_ok user_cpu" "cpl user_cpu = 3"
  by (rule user_context; simp add: user_cpu_def null_sel_def; simp add: bare_cpu_def)+

lemma interrupt_transparent_witness:
  "\<exists>m k'. interrupt recorder_unit 3 (demo_kernel\<lparr>irq_handlers := boot_handlers\<rparr>) = Returns k'
    \<and> run (plain_handler (on_irq recorder_unit)) (irq_stubs 0x100300 ! 3) (enter_gate demo_tss (demo_gate 0x8E) None user_cpu)
        (demo_kernel\<lparr>irq_handlers := boot_handlers\<rparr>) = Some (Returns (user_cpu\<lparr>ram := m\<rparr>, k'))"
proof -
  let ?k = "demo_kernel\<lparr>irq_handlers := boot_handlers\<rparr>"
  obtain k' where k': "interrupt recorder_unit (of_nat 3) ?k = Returns k'"
    using interrupt_other [of ?k 3 recorder_unit] by (auto simp: is_tick_def)
  have "kernel_cs (demo_gate 0x8E) = 0x08" by (simp add: demo_gate_def)
  from interrupt_transparent [OF irq_entry.keeps_promise this user_cpu_facts(1) demo_clear [OF user_cpu_facts(2)] _ k', of "0x100300"]
  show ?thesis using k' by auto
qed

lemma syscall_returns_result_witness:
  "\<exists>m. run (plain_handler (on_syscall recorder_unit [])) (syscall_stub 0x100300) (enter_gate demo_tss (demo_gate 0xEF) None user_cpu)
      (demo_kernel\<lparr>kbd := (kbd demo_kernel)\<lparr>key_buffer := replicate 256 0x61, buf_tail := 1\<rparr>\<rparr>)
    = Some (Returns (set_reg EAX 0x61 (user_cpu\<lparr>ram := m\<rparr>),
        demo_kernel\<lparr>kbd := (kbd demo_kernel)\<lparr>key_buffer := replicate 256 0x61, buf_tail := 1, buf_head := 1\<rparr>\<rparr>))"
proof -
  let ?k = "demo_kernel\<lparr>kbd := (kbd demo_kernel)\<lparr>key_buffer := replicate 256 0x61, buf_tail := 1\<rparr>\<rparr>"
  have "syscall_handler recorder_unit [] (call_of user_cpu) ?k
      = Some ((call_of user_cpu)\<lparr>r_eax := 0x61\<rparr>, Returns (demo_kernel\<lparr>kbd := (kbd demo_kernel)\<lparr>key_buffer := replicate 256 0x61, buf_tail := 1, buf_head := 1\<rparr>\<rparr>), [])"
    by (simp add: syscall_handler_def call_of_def user_cpu_def SYS_EXIT_def SYS_WRITE_def SYS_READKEY_def keyboard_getchar_def demo_kernel_def Let_def)
  note h = this
  have d: "kernel_cs (demo_gate 0xEF) = 0x08" by (simp add: demo_gate_def)
  show ?thesis
    using syscall_returns_result [OF syscall_entry.keeps_promise d user_cpu_facts(1) demo_clear [OF user_cpu_facts(2)] h,
      where ra = "0x100300"] by auto
qed

lemma exception_frames_witness:
  "\<exists>c1 fr rest. on_stack c1 (0x100300 # (rg c1 ESP + 8) # frame_words fr @ rest) \<and> f_vector fr = 14 \<and> f_error_code fr = 5
    \<and> f_eip fr = 0x100200"
proof -
  have "kernel_cs (demo_gate 0x8E) = 0x08" "96 \<le> unat (kernel_sp demo_tss user_cpu)"
    using user_cpu_facts(2) by (simp_all add: demo_gate_def kernel_sp_def demo_tss_def)
  moreover have "pushes_error 14" by (simp add: pushes_error_def)
  moreover have "eip_reg user_cpu = 0x100200" by (simp add: user_cpu_def bare_cpu_def)
  ultimately show ?thesis
    using exception_frames [where d = "demo_gate 0x8E" and t = demo_tss and v = 14 and e = 5 and ra = "0x100300", OF _ user_cpu_facts(1) _ _ refl]
    by auto
qed

lemma caller_facts:
  "boot_gdt (gdt_used caller_cpu)" "cpl caller_cpu = 0" "eflags_reg caller_cpu = 0x202" "sg caller_cpu = (\<lambda>_. 0x10)"
  "rg caller_cpu ESP = 0x1FFFF4" "on_stack caller_cpu [0x100123, 0x400000, 0xBFFFFFFC]"
proof -
  show "boot_gdt (gdt_used caller_cpu)" using bare_gdt by (simp only: caller_cpu_def pushes_parts)
  show "cpl caller_cpu = 0" "eflags_reg caller_cpu = 0x202" "sg caller_cpu = (\<lambda>_. 0x10)" "rg caller_cpu ESP = 0x1FFFF4"
    unfolding caller_cpu_def pushes_parts by (simp_all add: bare_cpu_def cpl_def rpl_def)
  have "on_stack bare_cpu []" "4 * length [0xBFFFFFFC, 0x400000, 0x100123 :: u32] \<le> unat (rg bare_cpu ESP)" by (simp_all add: bare_cpu_def)
  from on_stack_pushes [OF this] show "on_stack caller_cpu [0x100123, 0x400000, 0xBFFFFFFC]" by (simp only: caller_cpu_def) simp
qed

lemma program_starts_in_user_mode_witness:
  "\<exists>u. run (\<lambda>_ _. None) enter_user_mode caller_cpu () = Some (Returns (u, ())) \<and> cpl u = 3 \<and> eip_reg u = 0x400000 \<and> null_sel (sg u DS)"
  using program_starts_in_user_mode [OF caller_facts(1,2) _ _ _ caller_facts(6), of "\<lambda>_ _. None" "()"]
  by (auto simp: caller_facts FLAG_NT_def FLAG_VM_def)

lemma exit_returns_to_process_run_witness:
  "\<exists>u c2. run (\<lambda>_ _. None) enter_user_mode caller_cpu () = Some (Returns (u, ()))
    \<and> run (plain_handler (on_syscall recorder_unit [])) (syscall_stub 0x100300)
        (enter_gate demo_tss (demo_gate 0xEF) None (u\<lparr>rg := (rg u)(EAX := 1, EBX := 5)\<rparr>)) demo_kernel
      = Some (Unwinds (c2, process_exit 5 demo_kernel)) \<and> eip_reg c2 = 0x100123 \<and> bit (eflags_reg c2) FLAG_IF"
proof -
  have fl: "\<not> bit (eflags_reg caller_cpu) FLAG_NT" "\<not> bit (eflags_reg caller_cpu) FLAG_VM" "20 \<le> unat (rg caller_cpu ESP)"
    by (simp_all add: caller_facts FLAG_NT_def FLAG_VM_def)
  obtain u where u: "run (\<lambda>_ _. None) enter_user_mode caller_cpu () = Some (Returns (u, ()))" "cs_reg u = 0x1B"
    "sg u = (\<lambda>s. if s = SS then 0x23 else dropped (gdt_used caller_cpu) 3 (sg caller_cpu s))" "eflags_reg u = eflags_reg caller_cpu OR 0x200"
    "gdt_used u = gdt_used caller_cpu"
    using enter_user_mode_runs [OF caller_facts(1,2) fl(1,2) caller_facts(6) fl(3), where f = "\<lambda>_ _. None" and k = "()"] by blast
  define cu where "cu = u\<lparr>rg := (rg u)(EAX := 1, EBX := 5)\<rparr>"
  have g: "gdt_used caller_cpu = gdt_used bare_cpu" by (simp only: caller_cpu_def pushes_parts)
  have cu: "context_ok cu" "cpl cu = 3"
    by (rule user_context; simp add: cu_def u g caller_facts boot_selectors [OF bare_gdt] null_sel_def)+
  have h: "syscall_handler recorder_unit [] (call_of cu) demo_kernel = Some (call_of cu, Unwinds (process_exit 5 demo_kernel), [])"
    by (simp add: syscall_handler_def call_of_def cu_def SYS_EXIT_def)
  have d: "kernel_cs (demo_gate 0xEF) = 0x08" "attributes (demo_gate 0xEF) = 0xEF" by (simp_all add: demo_gate_def)
  have R: "saved cu = saved u" "\<forall>a \<in> range32 0x1FFFF4 4. ram cu a = ram u a" "range32 (rg caller_cpu ESP) 4 \<subseteq> range32 0x1FFFF4 4"
    by (simp_all add: cu_def caller_facts)
  have "bit (eflags_reg cu) FLAG_IF" by (simp add: cu_def u caller_facts FLAG_IF_def)
  then show ?thesis
    using exit_returns_to_process_run [OF u(1) caller_facts(1,2) fl(1,2) caller_facts(6) fl(3) R
      syscall_entry.keeps_promise d cu(1) demo_clear [OF cu(2)] h, of "0x100300"] u(1)
    unfolding cu_def by blast
qed

lemma kill_disables_interrupts_witness:
  "\<exists>c2 k'. run (plain_handler (on_irq recorder_unit)) (irq_stubs 0x100300 ! 0) (enter_gate demo_tss (demo_gate 0x8E) None user_cpu)
      (ctrl_demo\<lparr>kill_pending := True\<rparr>) = Some (Unwinds (c2, k')) \<and> bit (eflags_reg user_cpu) FLAG_IF \<and> \<not> bit (eflags_reg c2) FLAG_IF"
proof -
  let ?k = "ctrl_demo\<lparr>kill_pending := True\<rparr>"
  have "irq_handlers ?k = boot_handlers" "kill_pending ?k" "current_process ?k \<noteq> 0" by (simp_all add: ctrl_demo_def)
  then obtain k' where k': "interrupt recorder_unit 0 ?k = Unwinds k'"
    using interrupt_tick [of ?k 0 recorder_unit] by (auto simp: is_tick_def timer_handler_def process_check_kill_def)
  have d: "kernel_cs (demo_gate 0x8E) = 0x08" "attributes (demo_gate 0x8E) = 0x8E" by (simp_all add: demo_gate_def)
  have s: "unat (saved user_cpu process_saved_esp) + 4 \<le> 2 ^ 32" "range32 (saved user_cpu process_saved_esp) 4 \<subseteq> range32 0x1FFFF4 4"
    by (simp_all add: user_cpu_def)
  have "bit (eflags_reg user_cpu) FLAG_IF" by (simp add: user_cpu_def bare_cpu_def FLAG_IF_def)
  then show ?thesis
    using kill_disables_interrupts [OF irq_entry.keeps_promise d user_cpu_facts(1) demo_clear [OF user_cpu_facts(2)]
      k' refl s, of "0x100300"] by blast
qed

end
