(* ===== verification/Cpu_Boot.thy ===== *)
theory Cpu_Boot
  imports Cpu_User
begin

text \<open>
  The assembly of start-up: the header the boot loader looks for, the entry, the loading of the tables and of paging.
\<close>

section \<open>Entry\<close>

text \<open>The rule of the boot loader for the first words of a kernel.\<close>

definition multiboot_accepts :: "u32 list \<Rightarrow> bool" where
  "multiboot_accepts h \<longleftrightarrow> length h = 3 \<and> h ! 0 = 0x1BADB002 \<and> sum_list h = 0"

text \<open>
  The boot loader takes the kernel and hands it what it knows. The header is valid and asks for the memory map; the entry calls
  \<^verbatim>\<open>kmain\<close> on the kernel's own stack with the address of the information, which the loader leaves in \<open>ebx\<close>, as argument.
\<close>

theorem loader_starts_kernel:
  assumes "8 \<le> unat stack_end"
  shows "multiboot_accepts multiboot_header \<and> bit (multiboot_header ! 1) 1
    \<and> (\<exists>c1. on_stack c1 [ra, rg c EBX] \<and> rg c1 ESP = stack_end - 8
      \<and> run f (kernel_start stack_end ra) c k = (case f c1 k of
           Some (Returns (c2, k2)) \<Rightarrow> Some (Returns (c2\<lparr>eflags_reg := unset_bit FLAG_IF (eflags_reg c2)\<rparr>, k2)) | r \<Rightarrow> r))"
proof -
  define c0 where "c0 = set_reg ESP stack_end c"
  have st: "on_stack c0 []" "4 * length [rg c EBX, ra] \<le> unat (rg c0 ESP)" using assms by (simp_all add: c0_def)
  have "on_stack (fold push [rg c EBX, ra] c0) (rev [rg c EBX, ra] @ [])" by (rule on_stack_pushes [OF st])
  moreover have "rg (fold push [rg c EBX, ra] c0) ESP = stack_end - 8" unfolding pushes_parts by (simp add: c0_def)
  moreover have "run f (kernel_start stack_end ra) c k = (case f (fold push [rg c EBX, ra] c0) k of
      Some (Returns (c2, k2)) \<Rightarrow> Some (Returns (c2\<lparr>eflags_reg := unset_bit FLAG_IF (eflags_reg c2)\<rparr>, k2)) | r \<Rightarrow> r)"
    by (simp add: kernel_start_def c0_def split: option.split flow.split)
  moreover have "multiboot_accepts multiboot_header"
    by (simp add: multiboot_accepts_def multiboot_header_def MAGIC_def CHECKSUM_def)
  moreover have "bit (multiboot_header ! 1) 1"
    by (simp add: multiboot_header_def MB_FLAGS_def MEMINFO_def MALIGN_def bit_or_iff)
  ultimately show ?thesis by (intro conjI exI [of _ "fold push [rg c EBX, ra] c0"]) simp_all
qed

lemma loader_starts_kernel_witness:
  "\<exists>c1. on_stack c1 [0x100300, rg (bare_cpu\<lparr>rg := (\<lambda>_. 0x9500)\<rparr>) EBX] \<and> rg c1 ESP = 0x110000 - 8"
  using loader_starts_kernel [where stack_end = "0x110000" and ra = "0x100300" and c = "bare_cpu\<lparr>rg := (\<lambda>_. 0x9500)\<rparr>"
    and f = "\<lambda>_ _. None" and k = "()"] by auto

section \<open>Tables\<close>

text \<open>
  C28. The processor is set up for the kernel. The three routines, called one after the other with the tables the kernel has
  built, find every selector they load valid, that of the task state segment included, whatever selectors the boot loader left: afterwards all segments are the kernel's, the task
  register picks the task state segment, the gates are the kernel's, and interrupts are on.
\<close>

theorem processor_set_up:
  assumes "gdt_i s = 0" "cpl c = 0" "s1 = install_gdt addr s" "install_tss tss_addr stack s1 = (t, s2)"
  shows "\<exists>c1 c2 c3. run f (load_gdt s1 flush) (push ra1 c) k = Some (Returns (c1, k)) \<and> eip_reg c1 = ra1
    \<and> run f load_tss (push ra2 (c1\<lparr>gdt_used := gdt s2\<rparr>)) k = Some (Returns (c2, k)) \<and> eip_reg c2 = ra2
    \<and> run f (load_idt i) (push ra3 c2) k = Some (Returns (c3, k)) \<and> eip_reg c3 = ra3
    \<and> rg c3 ESP = rg c ESP \<and> (\<forall>q. q \<notin> {ESP, EAX} \<longrightarrow> rg c3 q = rg c q)
    \<and> boot_gdt (gdt_used c3) \<and> code_ok (gdt_used c3) (cs_reg c3) \<and> cpl c3 = 0 \<and> stack_ok (gdt_used c3) 0 (sg c3 SS)
    \<and> (\<forall>q \<in> {DS, ES, FS, GS}. \<not> null_sel (sg c3 q) \<and> data_ok (gdt_used c3) 0 (sg c3 q))
    \<and> segment_at (gdt_used c3) (sel_index (tr_reg c3)) = \<lparr>limit = 103, base = tss_addr, access_byte = 0x89, flags = 0\<rparr>
    \<and> idt_used c3 = idt i \<and> bit (eflags_reg c3) FLAG_IF"
proof -
  have p: "cpl (push ra1 c) = 0" using assms(2) by simp
  note l = load_gdt_runs [OF assms(1) p, of f addr flush k, folded assms(3)]
  define c1 where "c1 = (discard 1 (set_reg EAX ((rg (push ra1 c) EAX AND 0xFFFF0000) OR 0x10) (push ra1 c)))
    \<lparr>gdt_used := gdt s1, sg := (\<lambda>_. 0x10), cs_reg := 0x08, eip_reg := ra1\<rparr>"
  have r1: "run f (load_gdt s1 flush) (push ra1 c) k = Some (Returns (c1, k))" using l by (simp add: c1_def)
  define d1 where "d1 = push ra2 (c1\<lparr>gdt_used := gdt s2\<rparr>)"
  define a where "a = ((rg d1 EAX AND 0xFFFF0000) OR 0x28)"
  define c2 where "c2 = (discard 1 (set_reg EAX a (d1\<lparr>eflags_reg := unset_bit FLAG_IF (eflags_reg d1)\<rparr>)))\<lparr>tr_reg := ucast a, eip_reg := ra2\<rparr>"
  have pk: "peek 0 (d1\<lparr>eflags_reg := x, tr_reg := y\<rparr>) = ra2" for x y
    by (simp add: peek_def d1_def push_def rd32_wr32_same)
  have tr: "(ucast a :: u16) = 0x28"
  proof (rule bit_word_eqI)
    fix n assume n: "n < LENGTH(16)"
    have m: "(0xFFFF0000 :: u32) = NOT (mask 16)" by (simp add: mask_eq_exp_minus_1)
    have "bit (0x28 :: u32) n = bit (0x28 :: u16) n"
    proof -
      have "(0x28 :: u16) = ucast (0x28 :: u32)" by simp
      then show ?thesis using n by (simp only: bit_ucast_iff) simp
    qed
    then show "bit (ucast a :: u16) n = bit (0x28 :: u16) n" unfolding a_def m using n by (simp add: bit_simps)
  qed
  note b = boot_segments [OF assms(1) assms(4) [unfolded assms(3)]]
  have g: "boot_gdt (gdt s2)" using b by (simp add: boot_gdt_def)
  have i5: "sel_index 0x28 = 5" by (simp add: sel_index_def)
  have "tss_ok (gdt s2) 0x28"
    using g b(6) by (simp add: tss_ok_def null_sel_def sel_access_def i5 present_def boot_gdt_def)
  then have "exec Ltr (set_reg EAX a (d1\<lparr>eflags_reg := x\<rparr>)) = Some ((set_reg EAX a (d1\<lparr>eflags_reg := x\<rparr>))\<lparr>tr_reg := ucast a\<rparr>)" for x
    by (simp add: set_reg_def tr) (simp add: d1_def c1_def push_def discard_def set_reg_def cpl_def rpl_def)
  then have r2: "run f load_tss d1 k = Some (Returns (c2, k))"
    using pk by (simp add: load_tss_def c2_def a_def set_reg_def discard_def peek_def)
  define c3 where "c3 = (discard 1 (push ra3 c2))\<lparr>idt_used := idt i, eflags_reg := set_bit FLAG_IF (eflags_reg c2), eip_reg := ra3\<rparr>"
  have r3: "run f (load_idt i) (push ra3 c2) k = Some (Returns (c3, k))"
    by (simp add: load_idt_def c3_def discard_def set_reg_def peek_def push_def rd32_wr32_same)
  have e3: "rg c3 ESP = rg c ESP" "\<forall>q. q \<notin> {ESP, EAX} \<longrightarrow> rg c3 q = rg c q" "gdt_used c3 = gdt s2" "cs_reg c3 = 0x08" "sg c3 = (\<lambda>_. 0x10)"
      "tr_reg c3 = 0x28" "idt_used c3 = idt i"
    by (simp_all add: c3_def c2_def d1_def c1_def discard_def set_reg_def push_def tr)
  have fl: "bit (eflags_reg c3) FLAG_IF" by (simp add: c3_def bit_set_bit_iff FLAG_IF_def)
  have "eip_reg c1 = ra1" "eip_reg c2 = ra2" "eip_reg c3 = ra3" by (simp_all add: c1_def c2_def c3_def)
  then show ?thesis using r1 r2 r3 e3 fl g boot_selectors [OF g] b(6) i5
    by (intro exI [of _ c1] exI [of _ c2] exI [of _ c3]) (simp add: d1_def cpl_def rpl_def null_sel_def)
qed

lemma processor_set_up_witness:
  "\<exists>c1. run (\<lambda>_ _. None) (load_gdt (install_gdt 0x104000 gdt_fresh) 0x100400) (push 0x100500 (bare_cpu\<lparr>sg := (\<lambda>_. 0x18), gdt_used := []\<rparr>)) ()
    = Some (Returns (c1, ())) \<and> eip_reg c1 = 0x100500"
proof -
  have c: "gdt_i gdt_fresh = 0" "cpl (bare_cpu\<lparr>sg := (\<lambda>_. 0x18), gdt_used := []\<rparr>) = 0"
    by (simp_all add: gdt_fresh_def bare_cpu_def cpl_def rpl_def)
  obtain t s2 where "install_tss 0x105000 0x110000 (install_gdt 0x104000 gdt_fresh) = (t, s2)" by fastforce
  from processor_set_up [OF c refl this, of "\<lambda>_ _. None" "0x100400" "0x100500" "()" 0 idt_fresh 0] show ?thesis by blast
qed

section \<open>Paging\<close>

text \<open>\<^verbatim>\<open>load_cr3\<close> and \<^verbatim>\<open>enable_paging\<close> do what the memory manager has them do: the directory given is the one in use, and paging is on.\<close>

lemma paging_runs:
  assumes "on_stack c [ra, dir]"
  shows "run f load_cr3 c k = Some (Returns ((discard 1 (set_reg EAX dir c))\<lparr>cr3_reg := dir, eip_reg := ra\<rparr>, k))"
    "run f enable_paging c k = Some (Returns ((discard 1 (set_reg EAX (cr0_reg c OR 0x80000000) c))\<lparr>cr0_reg := cr0_reg c OR 0x80000000, eip_reg := ra\<rparr>, k))"
    "bit (cr0_reg c OR 0x80000000) 31"
proof -
  have e: "rd32 (ram c) (rg c ESP) = ra" "rd32 (ram c) (rg c ESP + 4) = dir"
    using stack_at_peek [OF assms, of 0] stack_at_peek [OF assms, of 1] by simp_all
  show "run f load_cr3 c k = Some (Returns ((discard 1 (set_reg EAX dir c))\<lparr>cr3_reg := dir, eip_reg := ra\<rparr>, k))"
    by (simp add: load_cr3_def e set_reg_def discard_def peek_def)
  show "run f enable_paging c k = Some (Returns ((discard 1 (set_reg EAX (cr0_reg c OR 0x80000000) c))\<lparr>cr0_reg := cr0_reg c OR 0x80000000, eip_reg := ra\<rparr>, k))"
    by (simp add: enable_paging_def e set_reg_def discard_def peek_def)
  show "bit (cr0_reg c OR 0x80000000) 31" by (simp add: bit_or_iff)
qed

end
