(* ===== verification/Echo.thy ===== *)
theory Echo
  imports Builtins_Correct
begin

text \<open>
  The command \<^verbatim>\<open>echo\<close> into a file: what a write through the virtual file system does to the contents of a file, and the
  two writes of the command.
\<close>

section \<open>Writing a file\<close>

text \<open>A cluster of the volume is free.\<close>

definition room_left :: "fat \<Rightarrow> bool" where
  "room_left st \<longleftrightarrow> (\<exists>d. in_table st d \<and> 2 \<le> d \<and> fat_entry d st = 0)"

text \<open>As \<open>is_file\<close>, with the node's directory entry in a place of its own and a cluster to start with.\<close>

definition open_file :: "u32 set \<Rightarrow> fs \<Rightarrow> u32 \<Rightarrow> bytes \<Rightarrow> bool" where
  "open_file ps s f data \<longleftrightarrow> f \<noteq> 0 \<and> vn_flags (nodes s f) AND VFS_FILE \<noteq> 0 \<and> has_read_write (vn_ops (nodes s f))
     \<and> (\<exists>cs bs. writable s (nodes s f) cs bs
          \<and> ps = used_ptrs (heap_start_ptr (heap s)) bs \<and> data = take (unat (vn_size (nodes s f))) (file_data (vol s) cs))"

lemma open_file_is_file: "open_file ps s f data \<Longrightarrow> is_file ps s f data"
  by (auto simp: open_file_def is_file_def writable_def)

text \<open>The contents after \<open>n\<close> bytes of \<open>buf\<close> were stored at \<open>off\<close>.\<close>

definition overwrite :: "nat \<Rightarrow> bytes \<Rightarrow> bytes \<Rightarrow> bytes" where
  "overwrite off new old = take off old @ new @ drop (off + length new) old"

lemma overwrite_file:
  assumes old: "n0 \<le> length (file_data st cs)" "off \<le> n0" and w: "off + length new \<le> length (file_data st' cs')" "n0 \<le> length (file_data st' cs')"
    and new: "\<And>k. off \<le> k \<Longrightarrow> k < off + length new \<Longrightarrow> file_byte st' cs' k = new ! (k - off)"
    and keep: "\<And>k. k < cbytes st * length cs \<Longrightarrow> k < off \<or> off + length new \<le> k \<Longrightarrow> file_byte st' cs' k = file_byte st cs k"
  shows "take (max n0 (off + length new)) (file_data st' cs') = overwrite off new (take n0 (file_data st cs))"
proof (rule nth_equalityI)
  show l: "length (take (max n0 (off + length new)) (file_data st' cs')) = length (overwrite off new (take n0 (file_data st cs)))"
    using old w by (auto simp: overwrite_def)
  fix k assume k: "k < length (take (max n0 (off + length new)) (file_data st' cs'))"
  then have kc: "k < cbytes st' * length cs'" by (simp add: file_data_length)
  then have b: "take (max n0 (off + length new)) (file_data st' cs') ! k = file_byte st' cs' k"
    using k by (simp add: file_data_def)
  consider "k < off" | "off \<le> k" "k < off + length new" | "off + length new \<le> k" by linarith
  then show "take (max n0 (off + length new)) (file_data st' cs') ! k = overwrite off new (take n0 (file_data st cs)) ! k"
  proof cases
    case 1
    then have "k < cbytes st * length cs" using old by (simp add: file_data_length)
    then show ?thesis using 1 old keep b by (simp add: overwrite_def nth_append file_data_def)
  next
    case 2
    then have "k - off < length new" by linarith
    then show ?thesis using 2 new b old by (simp add: overwrite_def nth_append)
  next
    case 3
    then have "k < n0" using k by auto
    then have "k < cbytes st * length cs" "\<not> k - off < length new" using old 3 by (simp_all add: file_data_length)
    then show ?thesis using 3 old keep b \<open>k < n0\<close> by (simp add: overwrite_def nth_append file_data_def)
  qed
qed

lemma vfs_write_file:
  assumes f: "open_file ps s f data" and sz: "length buf = unat sz" "unat off + unat sz + 130560 < 4294967296"
  shows "\<exists>n s'. vfs_write f off sz buf s = Some (sint n, s') \<and> n \<le> sz \<and> owned (heap s') ps
    \<and> has_close (vn_ops (nodes s' f))
    \<and> (\<forall>d. in_table (vol s) d \<longrightarrow> fat_entry d (vol s') = 0 \<longrightarrow> fat_entry d (vol s) = 0)
    \<and> (\<forall>d. in_table (vol s') d = in_table (vol s) d)
    \<and> (n < sz \<longrightarrow> \<not> room_left (vol s'))
    \<and> (unat off \<le> length data \<longrightarrow> open_file ps s' f (overwrite (unat off) (take (unat n) buf) data))"
proof -
  define node where "node = nodes s f"
  obtain cs bs where c: "writable s node cs bs" "ps = used_ptrs (heap_start_ptr (heap s)) bs"
      "data = take (unat (vn_size node)) (file_data (vol s) cs)"
    using f by (auto simp: open_file_def node_def)
  have g: "f \<noteq> 0" "vn_flags node AND VFS_FILE \<noteq> 0" "has_read_write (vn_ops node)" using f by (simp_all add: open_file_def node_def)
  have hc: "has_close (vn_ops node)" using g(3) by (cases "vn_ops node") auto
  have fn: "file_node (vol s) node cs" "cluster_buffer s bs" using c(1) by (simp_all add: writable_def)
  show ?thesis
  proof (cases "sz = 0")
    case True
    have "vfs_write f off sz buf s = Some (0, s)"
      using g True by (simp add: vfs_write_def fat16_vfs_write_def node_def [symmetric] fun_upd_idem_iff)
    moreover have "owned (heap s) ps" using is_file_owned [OF open_file_is_file [OF f]] .
    ultimately show ?thesis using f hc True by (intro exI [of _ 0] exI [of _ s]) (simp add: overwrite_def node_def)
  next
    case False
    then have "write_fits off sz buf" using sz by (simp add: write_fits_def word_neq_0_conv)
    then show ?thesis
    proof (rule write_result [OF c(1)])
      fix n node' s' cs'
      assume run: "fat16_vfs_write node off sz buf s = Some (sint n, node', s')" "n \<le> sz" "cs' \<noteq> []"
          "file_chain (vol s') (ucast (vn_inode node')) cs'" "2 \<le> (ucast (vn_inode node') :: u16)"
        and size': "vn_size node' = max (vn_size node) (off + n)" and k: "same_consts (vol s) (vol s')" "layout (vol s')"
        and hi: "0 < n \<longrightarrow> unat off + unat n \<le> cbytes (vol s) * length cs'" and len: "length cs \<le> length cs'"
        and new: "\<And>k. unat off \<le> k \<Longrightarrow> k < unat off + unat n \<Longrightarrow> file_byte (vol s') cs' k = buf ! (k - unat off)"
        and keep: "\<And>k. k < cbytes (vol s) * length cs \<Longrightarrow> k < unat off \<or> unat off + unat n \<le> k \<Longrightarrow>
            file_byte (vol s') cs' k = file_byte (vol s) cs k"
        and h: "heap_has (heap s') bs" "heap_start_ptr (heap s') = heap_start_ptr (heap s)"
        and full: "n < sz \<longrightarrow> (\<forall>d. in_table (vol s') d \<longrightarrow> 2 \<le> d \<longrightarrow> fat_entry d (vol s') \<noteq> 0)"
        and n': "dir_sector (vol s') cs' (vn_dir_lba node)" "vn_dir_lba node' = vn_dir_lba node" "vn_dir_index node' = vn_dir_index node"
          "vn_flags node' = vn_flags node" "vn_ops node' = vn_ops node" "small_table (vol s')"
        and mono: "\<And>d. in_table (vol s) d \<Longrightarrow> fat_entry d (vol s') = 0 \<Longrightarrow> fat_entry d (vol s) = 0"
      define s2 where "s2 = s'\<lparr>nodes := (nodes s')(f := node')\<rparr>"
      have s2: "vol s2 = vol s'" "heap s2 = heap s'" "nodes s2 f = node'" by (simp_all add: s2_def)
      have w: "vfs_write f off sz buf s = Some (sint n, s2)" using g run(1) by (simp add: vfs_write_def node_def [symmetric] s2_def)
      have sp: "spc (vol s') = spc (vol s)" "bpb (vol s') = bpb (vol s)" using k(1) by (simp_all add: same_consts_def)
      have nsz: "unat n \<le> unat sz" using run(2) by (simp add: word_le_nat_alt)
      have on: "unat (off + n) = unat off + unat n" using nsz sz(2) by (intro unat_add_u32) linarith
      have us: "unat (vn_size node') = max (unat (vn_size node)) (unat off + unat n)"
        using on by (auto simp: size' max_def word_le_nat_alt)
      have dl: "length data = unat (vn_size node)" using fn(1) by (simp add: c(3) file_node_def file_data_length)
      have op: "open_file ps s2 f (overwrite (unat off) (take (unat n) buf) data)" if off: "unat off \<le> length data"
      proof -
        have le: "cbytes (vol s) * length cs \<le> cbytes (vol s) * length cs'" using len by (intro mult_le_mono2)
        have o1: "unat (vn_size node) \<le> cbytes (vol s) * length cs'" by (rule order_trans [OF _ le]) (use fn(1) in \<open>simp add: file_node_def\<close>)
        have o2: "unat off + unat n \<le> cbytes (vol s) * length cs'"
        proof (cases "n = 0")
          case True
          then show ?thesis using off dl o1 by simp
        next
          case False
          then show ?thesis using hi by (simp add: word_neq_0_conv)
        qed
        have lt: "length (take (unat n) buf) = unat n" using nsz sz(1) by simp
        have "take (max (unat (vn_size node)) (unat off + length (take (unat n) buf))) (file_data (vol s') cs')
            = overwrite (unat off) (take (unat n) buf) (take (unat (vn_size node)) (file_data (vol s) cs))"
        proof (rule overwrite_file)
          show "unat (vn_size node) \<le> length (file_data (vol s) cs)" using fn(1) by (simp add: file_node_def file_data_length)
          show "unat off \<le> unat (vn_size node)" using off dl by simp
          show "unat off + length (take (unat n) buf) \<le> length (file_data (vol s') cs')"
            "unat (vn_size node) \<le> length (file_data (vol s') cs')"
            using o1 o2 lt by (simp_all add: file_data_length sp)
        qed (use new keep lt in auto)
        then have d: "take (unat (vn_size node')) (file_data (vol s') cs') = overwrite (unat off) (take (unat n) buf) data"
          by (simp only: us lt c(3))
        have "writable s2 node' cs' bs"
        proof -
          have "unat (vn_size node') \<le> cbytes (vol s') * length cs'" using o1 o2 us by (simp add: sp)
          moreover have "unat (vn_size node') + 130560 < 4294967296"
            using us nsz sz(2) fn(1) by (auto simp: file_node_def max_def)
          moreover have "\<not> (ucast (vn_inode node') :: u16) < 2" using run(5) by (simp add: not_less)
          ultimately have "file_node (vol s') node' cs'"
            using k(2) fn(1) run(3,4) by (simp add: file_node_def node_chain_def sp)
          moreover have "cluster_buffer s2 bs" using cluster_buffer_kept [OF fn(2), of s2] h(1) sp(2) by (simp add: s2)
          ultimately show ?thesis using c(1) n' run(3) by (simp add: writable_def s2)
        qed
        then show ?thesis unfolding open_file_def
          by (intro conjI exI [of _ cs'] exI [of _ bs]) (use g n' c(2) h(2) d in \<open>simp_all add: s2\<close>)
      qed
      have "owned (heap s2) ps" using heap_has_owned [OF h(1)] c(2) h(2) by (simp add: s2)
      moreover have "n < sz \<longrightarrow> \<not> room_left (vol s2)" using full by (auto simp: room_left_def s2)
      moreover have "has_close (vn_ops (nodes s2 f))" using hc n' by (simp add: s2)
      ultimately show ?thesis using w run(2) op mono same_consts_in_table [OF k(1)] by (intro exI [of _ n] exI [of _ s2]) (simp add: s2)
    qed
  qed
qed

section \<open>The command\<close>

text \<open>
  C32. \<^verbatim>\<open>echo\<close> with a redirection stores its text. When the path after the sign leads to a file, the command
  returns and gives the node back; unless the volume has run full, the file then begins with the text, without the spaces before the sign, and a newline. What the file
  held beyond that is still there: nothing is truncated.
\<close>

theorem echo_writes_file:
  assumes "takeWhile (\<lambda>c. c \<noteq> 0x3E) (cstr arg) = before" "before \<noteq> cstr arg"
    "name = skip_spaces (drop (length before + 1) (cstr arg))" "name \<noteq> []" "txt = strip_spaces before" "length txt < 2 ^ 30"
    "kopen (resolve_arg name k) k = Some (f, k1)" "open_file ps (files k1) f data"
  shows "\<exists>s. cmd_echo io arg k = Some (k\<lparr>files := vfs_close f s\<rparr>) \<and> (f \<in> ps \<longrightarrow> owned (heap (vfs_close f s)) (ps - {f}))
    \<and> (room_left (vol s) \<longrightarrow> open_file ps s f (txt @ 0x0A # drop (length txt + 1) data))"
proof -
  obtain s0 where k1: "k1 = k\<lparr>files := s0\<rparr>" using kopen_parts [OF assms(7)] by blast
  define len :: u32 where "len = of_nat (length txt)"
  have ul: "unat len = length txt" using assms(6) by (simp add: len_def unat_of_nat take_bit_nat_eq_self)
  have one: "length txt = unat len" "unat 0 + unat len + 130560 < 4294967296"
    "length [0x0A :: u8] = unat (1 :: u32)" "unat len + unat (1 :: u32) + 130560 < 4294967296"
    using assms(6) by (simp_all add: ul)
  obtain n1 s1 where 1: "vfs_write f 0 len txt s0 = Some (sint n1, s1)" "n1 \<le> len"
      "\<forall>d. in_table (vol s0) d \<longrightarrow> fat_entry d (vol s1) = 0 \<longrightarrow> fat_entry d (vol s0) = 0" "\<forall>d. in_table (vol s1) d = in_table (vol s0) d"
      "n1 < len \<longrightarrow> \<not> room_left (vol s1)" "open_file ps s1 f (overwrite 0 (take (unat n1) txt) data)"
    using vfs_write_file [OF assms(8) one(1,2)] by (auto simp: k1)
  obtain n2 :: u32 and s2 where 2: "vfs_write f len 1 [0x0A] s1 = Some (sint n2, s2)" "n2 \<le> 1" "owned (heap s2) ps" "has_close (vn_ops (nodes s2 f))"
      "\<forall>d. in_table (vol s1) d \<longrightarrow> fat_entry d (vol s2) = 0 \<longrightarrow> fat_entry d (vol s1) = 0" "\<forall>d. in_table (vol s2) d = in_table (vol s1) d"
      "n2 < 1 \<longrightarrow> \<not> room_left (vol s2)"
      "unat len \<le> length (overwrite 0 (take (unat n1) txt) data) \<longrightarrow>
        open_file ps s2 f (overwrite (unat len) (take (unat n2) [0x0A]) (overwrite 0 (take (unat n1) txt) data))"
    using vfs_write_file [OF 1(6) one(3,4)] by (elim exE conjE) (rule that; assumption)
  have res: "open_file ps s2 f (txt @ 0x0A # drop (length txt + 1) data)" if r: "room_left (vol s2)"
  proof -
    have "room_left (vol s1)" using r 2(5,6) by (auto simp: room_left_def)
    then have g: "\<not> n1 < len" "\<not> n2 < 1" using 1(5) 2(7) r by blast+
    have n: "n1 = len" by (rule order.antisym [OF 1(2) g(1) [unfolded not_less]])
    moreover have "n2 = 1" by (rule order.antisym [OF 2(2) g(2) [unfolded not_less]])
    ultimately have n: "n1 = len" "n2 = 1" by blast+
    have t: "take (unat n1) txt = txt" "take (unat n2) [0x0A] = [0x0A :: u8]" using n ul by simp_all
    have "overwrite (unat len) [0x0A] (overwrite 0 txt data) = txt @ 0x0A # drop (length txt + 1) data"
      by (simp add: overwrite_def ul)
    moreover have "unat len \<le> length (overwrite 0 txt data)" by (simp add: overwrite_def ul)
    ultimately show ?thesis using 2(8) unfolding t by simp
  qed
  have f: "f \<noteq> 0" "is_kind VFS_FILE f k1" using assms(8) by (simp_all add: open_file_def is_kind_def)
  have open_it: "echo_open io name k = Some (f, k1)" using assms(7) f(1) by (simp add: echo_open_def)
  have nm: "skip_spaces (drop (Suc (length before)) (cstr arg)) = name" using assms(3) by simp
  have ne: "cstr arg \<noteq> []" using assms(1,2) by auto
  have "cmd_echo io arg k = Some (k\<lparr>files := vfs_close f s2\<rparr>)"
    using assms(2,4) ne open_it f 1(1) 2(1)
    by (simp add: cmd_echo_def assms(1) nm assms(5) [symmetric] len_def [symmetric] on_files_def k1 kclose_def)
  moreover have "f \<in> ps \<longrightarrow> owned (heap (vfs_close f s2)) (ps - {f})"
    using ka.free_own [OF 2(3), of f] 2(4) f(1) by (simp add: vfs_close_def fat16_vfs_close_def fs_kfree_def)
  ultimately show ?thesis using res by blast
qed

text \<open>A shell whose root is a file of three bytes.\<close>

definition echo_shell :: "unit kernel" where
  "echo_shell = file_shell\<lparr>files := demo_fs\<lparr>nodes := \<lambda>_. demo_node\<rparr>\<rparr>"

lemma echo_writes_file_witness:
  "\<exists>s. cmd_echo recorder_unit (str ''x > /'') echo_shell = Some (echo_shell\<lparr>files := vfs_close 1 s\<rparr>)
    \<and> (room_left (vol s) \<longrightarrow> open_file {} s 1 (str ''x'' @ [0x0A, 0]))"
proof -
  have c: "cstr (str ''x > /'') = str ''x > /''" by (simp add: str_def cstr_def)
  have p: "takeWhile (\<lambda>c. c \<noteq> 0x3E) (cstr (str ''x > /'')) = str ''x ''" "str ''x '' \<noteq> cstr (str ''x > /'')"
    "str ''/'' = skip_spaces (drop (length (str ''x '') + 1) (cstr (str ''x > /'')))" "str ''/'' \<noteq> []" "str ''x'' = strip_spaces (str ''x '')"
    "length (str ''x'') < 2 ^ 30"
    unfolding c by (simp_all add: str_def skip_spaces_def strip_spaces_def)
  have o: "kopen (resolve_arg (str ''/'') echo_shell) echo_shell = Some (1, echo_shell)"
    by (rule root_file_open) (simp_all add: echo_shell_def file_shell_def)
  have "take 3 (file_data demo_one [2]) = map (\<lambda>_. 0) [0..<3]"
    using demo_file_data by (intro nth_equalityI) (simp_all add: file_data_def demo_one_facts)
  then have d: "take (unat (vn_size demo_node)) (file_data demo_one [2]) = [0, 0, 0]"
    by (simp add: demo_node_def) (simp add: numeral_eq_Suc)
  have "writable (files echo_shell) demo_node [2] [(0xFFFF0, True)]"
    using demo_writable by (simp add: echo_shell_def writable_def cluster_buffer_def)
  then have "open_file {} (files echo_shell) 1 [0, 0, 0]"
    unfolding open_file_def using d
    by (intro conjI exI [of _ "[2]"] exI [of _ "[(0xFFFF0, True)]"])
      (simp_all add: echo_shell_def demo_fs_facts, simp_all add: demo_node_def VFS_FILE_def)
  from echo_writes_file [OF p o this, of recorder_unit] show ?thesis by (simp add: str_def)
qed

end
