(* ===== verification/Listing.thy ===== *)
theory Listing
  imports Builtins_Correct
begin

text \<open>
  The command \<^verbatim>\<open>ls\<close>: the loop over the entries of a directory, and what it prints.
\<close>

definition ls_line :: "fat16_direntry \<Rightarrow> bytes" where
  "ls_line e = (if de_attributes e AND FAT16_ATTR_DIRECTORY \<noteq> 0 then str ''[DIR]  '' else str ''[FILE] '') @ cstr (format_83 e) @ [0x0A]"

text \<open>The kernel with something printed and another entry in the buffer of \<^verbatim>\<open>readdir\<close>.\<close>

definition listing :: "bytes \<Rightarrow> vfs_dirent \<Rightarrow> 's kernel \<Rightarrow> 's kernel" where
  "listing out d k = on_vga (terminal_write out) (k\<lparr>files := (files k)\<lparr>fat16_dirent_buf := d\<rparr>\<rparr>)"

lemma listing_parts [simp]:
  "files (listing out d k) = (files k)\<lparr>fat16_dirent_buf := d\<rparr>"
  "uart_output_mode (con (listing out d k)) = uart_output_mode (con k)"
  by (simp_all add: listing_def on_vga_def)

lemma listing_listing: "listing out2 d2 (listing out1 d1 k) = listing (out1 @ out2) d2 k"
  by (simp add: listing_def on_vga_files on_vga_on_vga o_def terminal_write_append)

lemma listing_nothing: "listing [] (fat16_dirent_buf (files k)) k = k"
  by (simp add: listing_def on_vga_def terminal_write_def)

text \<open>A node of a directory on the volume.\<close>

definition dir_node :: "fs \<Rightarrow> u32 \<Rightarrow> u32 list \<Rightarrow> bool" where
  "dir_node s f lbas \<longleftrightarrow> f \<noteq> 0 \<and> vn_flags (nodes s f) AND VFS_DIR \<noteq> 0 \<and> has_dir_ops (vn_ops (nodes s f))
     \<and> layout (vol s) \<and> 0 < spc (vol s) \<and> directory (vol s) (vn_inode (nodes s f)) lbas"

definition dirent_of :: "fat16_direntry \<Rightarrow> vfs_dirent" where
  "dirent_of e = \<lparr>vd_name = format_83 e, vd_inode = ucast (de_first_cluster e),
     vd_flags = (if de_attributes e AND FAT16_ATTR_DIRECTORY \<noteq> 0 then VFS_DIR else VFS_FILE)\<rparr>"

lemma dir_node_readdir:
  assumes "dir_node s f lbas" "es = listed (slots (vol s) lbas)"
  shows "vfs_readdir f index s =
    Some (if unat index < length es then (Some (dirent_of (es ! unat index)), s\<lparr>fat16_dirent_buf := dirent_of (es ! unat index)\<rparr>)
          else (None, s))"
proof -
  have d: "layout (vol s)" "0 < spc (vol s)" "directory (vol s) (vn_inode (nodes s f)) lbas" "mounted (vol s)"
    using assms(1) by (simp_all add: dir_node_def layout_def)
  show ?thesis
    using readdir_slots [OF directory_sectors(1) [OF d(1-3)] directory_length [OF d(3,1)], of index] assms d(4)
    by (simp add: vfs_readdir_def dir_node_def fat16_vfs_readdir_def dirent_of_def Let_def)
qed

lemma listed_length: "length (listed xs) \<le> length xs"
  unfolding listed_def live_def
  by (rule order_trans [OF length_filter_le]) (simp, rule order_trans [OF length_filter_le length_takeWhile_le])

lemma dir_node_few:
  assumes "dir_node s f lbas"
  shows "length (listed (slots (vol s) lbas)) < 4294967296"
proof -
  have "length (slots (vol s) lbas) = 16 * length lbas" by (induction lbas) (simp_all add: slots_def sector_slots_def)
  then show ?thesis
    using listed_length [of "slots (vol s) lbas"] directory_length [of "vol s" "vn_inode (nodes s f)" lbas] assms
    by (simp add: dir_node_def)
qed

lemma ls_entry_line:
  assumes "\<not> uart_output_mode (con k)"
  shows "kprintf io (if vd_flags (dirent_of e) AND VFS_DIR \<noteq> 0 then str ''[DIR]  %s'' @ [0x0A] else str ''[FILE] %s'' @ [0x0A])
    [Va_str (vd_name (dirent_of e))] k = Some (on_vga (terminal_write (ls_line e)) k)"
  using assms by (intro kprintf_render) (simp_all add: dirent_of_def ls_line_def VFS_DIR_def VFS_FILE_def str_def cstr_def)

lemma ls_entries_prints:
  assumes "dir_node (files k) f lbas" "\<not> uart_output_mode (con k)"
    and "es = listed (slots (vol (files k)) lbas)" "unat i \<le> length es"
  shows "\<exists>d. ls_entries io f i k = Some (listing (concat (map ls_line (drop (unat i) es))) d k)"
  using assms
proof (induction "length es - unat i" arbitrary: i k rule: less_induct)
  case less
  note r = dir_node_readdir [OF less.prems(1,3), of i]
  show ?case
  proof (cases "unat i < length es")
    case False
    then have "ls_entries io f i k = Some k" using r by (subst ls_entries.simps) (simp add: on_files_def)
    then show ?thesis using False by (intro exI [of _ "fat16_dirent_buf (files k)"]) (simp add: listing_nothing)
  next
    case True
    define e k1 where "e = es ! unat i" and "k1 = listing (ls_line e) (dirent_of e) k"
    have u: "unat (i + 1) = unat i + 1" using True dir_node_few [OF less.prems(1)] less.prems(3) unat_plus_le [of i 1] by simp
    have step: "ls_entries io f i k = ls_entries io f (i + 1) k1"
      using r True ls_entry_line [of "k\<lparr>files := (files k)\<lparr>fat16_dirent_buf := dirent_of e\<rparr>\<rparr>" io e] less.prems(2)
      by (subst ls_entries.simps) (simp add: on_files_def e_def [symmetric] k1_def listing_def)
    have "dir_node (files k1) f lbas" using less.prems(1) by (simp add: k1_def dir_node_def)
    moreover have "length es - unat (i + 1) < length es - unat i" using True u by linarith
    moreover have "\<not> uart_output_mode (con k1)" "es = listed (slots (vol (files k1)) lbas)" "unat (i + 1) \<le> length es"
      using less.prems(2,3) True u by (simp_all add: k1_def)
    ultimately obtain d where "ls_entries io f (i + 1) k1 = Some (listing (concat (map ls_line (drop (unat (i + 1)) es))) d k1)"
      using less.hyps [of "i + 1" k1] by blast
    moreover have "drop (unat i) es = e # drop (unat (i + 1)) es" using True u by (simp add: e_def Cons_nth_drop_Suc)
    ultimately show ?thesis using step by (intro exI [of _ d]) (simp add: k1_def listing_listing)
  qed
qed

text \<open>
  C33. \<^verbatim>\<open>ls\<close> shows the directory. When the path leads to a directory and output goes to the screen, the command returns,
  and what it has written to the screen is one line for each entry that is in use and no dot entry, in the order
  of the disk and once, with its kind and its name; nothing else but the buffer of \<^verbatim>\<open>readdir\<close> changes, and the node is given back.
\<close>

theorem ls_lists_directory:
  assumes "kopen (resolve_arg arg k) k = Some (f, k\<lparr>files := s\<rparr>)" "dir_node s f lbas" "\<not> uart_output_mode (con k)"
  shows "\<exists>d. cmd_ls io arg k = Some (on_vga (terminal_write (concat (map ls_line (listed (slots (vol s) lbas)))))
    (k\<lparr>files := vfs_close f (s\<lparr>fat16_dirent_buf := d\<rparr>)\<rparr>))"
proof -
  obtain d where "ls_entries io f 0 (k\<lparr>files := s\<rparr>)
      = Some (listing (concat (map ls_line (listed (slots (vol s) lbas)))) d (k\<lparr>files := s\<rparr>))"
    using ls_entries_prints [of "k\<lparr>files := s\<rparr>" f lbas _ 0 io] assms(2,3) by auto
  moreover have "f \<noteq> 0" "is_kind VFS_DIR f (k\<lparr>files := s\<rparr>)" using assms(2) by (simp_all add: dir_node_def is_kind_def)
  ultimately show ?thesis using assms(1)
    by (intro exI [of _ d]) (simp add: cmd_ls_def Let_def kclose_def listing_def on_vga_def)
qed

definition ls_shell :: "unit kernel" where
  "ls_shell = demo_kernel\<lparr>files := demo_vfs\<lparr>vol := demo_dirs\<rparr>, mount_table := [(str ''/'', 1)], current_path := root_path\<rparr>"

lemma ls_lists_directory_witness:
  "\<exists>k. cmd_ls recorder_unit (str ''/'') ls_shell = Some k \<and> con k = con (on_vga (terminal_write (str ''[DIR]  D'' @ [0x0A])) ls_shell)"
proof -
  have o: "kopen (resolve_arg (str ''/'') ls_shell) ls_shell = Some (1, ls_shell\<lparr>files := files ls_shell\<rparr>)"
    using root_file_open [of ls_shell] by (simp add: ls_shell_def)
  have "dir_node (files ls_shell) 1 [3]"
    using demo_dirs_facts by (simp add: dir_node_def ls_shell_def demo_vfs_def fat16_root_node_def VFS_DIR_def)
  moreover have "\<not> uart_output_mode (con ls_shell)" by (simp add: ls_shell_def demo_kernel_def)
  moreover have "concat (map ls_line (listed (slots (vol (files ls_shell)) [3]))) = str ''[DIR]  D'' @ [0x0A]"
    using demo_dirs_facts(4,5) by (simp add: ls_shell_def listed_def ls_line_def)
      (simp add: demo_entry_d_def FAT16_ATTR_DIRECTORY_def str_def cstr_def)
  ultimately show ?thesis using ls_lists_directory [OF o, of "[3]" recorder_unit] by (auto simp: on_vga_def)
qed

end
