(* ===== verification/Mkdir.thy ===== *)
theory Mkdir
  imports Listing
begin

text \<open>
  Making a directory: the branch of \<open>fat16_vfs_create\<close> for directories takes a free cluster, clears it,
  writes the dot entries and links the cluster into the parent.
\<close>

section \<open>A fresh cluster\<close>

lemma zero_sectors_write: "zero_sectors lba i n st = write_sectors lba i n (\<lambda>_. 0) st"
  by (induction n arbitrary: i st) simp_all

definition fresh_directory :: "u16 \<Rightarrow> u16 \<Rightarrow> fat \<Rightarrow> fat" where
  "fresh_directory c parent st = (let st = fat_set_entry c 0xFFFF st in
     write_sector (cluster_lba c st) (dot_sector c parent) (zero_sectors (cluster_lba c st) 0 (spc st) st))"

lemma fresh_consts: "same_consts st (fresh_directory c parent st)"
  by (simp add: fresh_directory_def Let_def zero_sectors_write same_consts_def frame_simps)

lemma write_sectors_entry:
  assumes "layout st" "in_table st d" "unat (root_dir_lba st) \<le> unat lba" "unat lba + (i + n) \<le> 2 ^ 28"
  shows "fat_entry d (write_sectors lba i n buf st) = fat_entry d st"
proof -
  have "unat (fat_sector d st) < unat (root_dir_lba st)"
    using layout_bounds(5) [OF assms(1)] in_table_div [OF assms(2)] unat_fat_sector(1) [OF assms(1), of d] by simp
  then have "drive (write_sectors lba i n buf st) (fat_sector d st) = drive st (fat_sector d st)"
    using write_sectors_drive [OF assms(4)] assms(3) by simp
  then show ?thesis using assms(1) write_sectors_layout [OF assms(1)]
    by (simp add: fat_entry_alt) (simp add: fat_sector_def frame_simps)
qed

text \<open>What the fresh directory holds, and what it leaves alone.\<close>

lemma fresh_directory_state:
  fixes parent :: u16
  assumes st: "layout st" "0 < spc st" and c: "in_table st c" "2 \<le> c"
  defines "st' \<equiv> fresh_directory c parent st"
  shows "layout st'"
    "in_table st d \<Longrightarrow> fat_entry d st' = (if d = c then 0xFFFF else fat_entry d st)"
    "j < spc st \<Longrightarrow> read_sector (cluster_lba c st + of_nat j) st' = (if j = 0 then dot_sector c parent else (\<lambda>_. 0))"
    "unat (root_dir_lba st) \<le> unat (lba28 l) \<Longrightarrow> lba28 l \<notin> set (cluster_sectors st c) \<Longrightarrow>
      read_sector l st' = read_sector l st"
proof -
  define st1 where "st1 = fat_set_entry c 0xFFFF st"
  define st2 where "st2 = write_sectors (cluster_lba c st1) 0 (spc st1) (\<lambda>_. 0) st1"
  have e: "st' = write_sector (cluster_lba c st1) (dot_sector c parent) st2"
    by (simp add: st'_def fresh_directory_def st1_def st2_def zero_sectors_write Let_def)
  have sc: "same_consts st st1" "same_consts st st2" by (simp_all add: st1_def st2_def same_consts_def frame_simps)
  have lay: "layout st1" "layout st2" using same_consts_layout [OF sc(1)] same_consts_layout [OF sc(2)] st(1) by simp_all
  have cl: "cluster_lba c st1 = cluster_lba c st" and sp: "spc st1 = spc st" "spc st2 = spc st" and rd: "root_dir_lba st1 = root_dir_lba st"
      "root_dir_lba st2 = root_dir_lba st"
    using sc same_consts_cluster [OF sc(1)] by (simp_all add: same_consts_def)
  have z: "lba28 (cluster_lba c st) = cluster_lba c st" "unat (root_dir_lba st) \<le> unat (cluster_lba c st)"
    using cluster_sector [OF st(1) c(2) st(2)] st(1) by (simp_all add: layout_def)
  show "layout st'" using lay(2) by (simp add: e write_sector_layout)
  show "fat_entry d st' = (if d = c then 0xFFFF else fat_entry d st)" if d: "in_table st d"
  proof -
    have "fat_entry d st' = fat_entry d st2" unfolding e cl
      using d same_consts_in_table [OF sc(2)] z by (intro write_entry_other [OF lay(2)]) (simp_all add: rd)
    also have "\<dots> = fat_entry d st1" unfolding st2_def cl
      using d same_consts_in_table [OF sc(1)] z unat_cluster_lba(2) [OF st(1) c(2)]
      by (intro write_sectors_entry [OF lay(1)]) (simp_all add: rd sp)
    finally show ?thesis by (simp add: st1_def fat_entry_set [OF st(1) c(1) d])
  qed
  show "read_sector (cluster_lba c st + of_nat j) st' = (if j = 0 then dot_sector c parent else (\<lambda>_. 0))" if j: "j < spc st"
  proof -
    have l: "lba28 (cluster_lba c st + of_nat j) = cluster_lba c st + of_nat j" by (rule cluster_sector(2) [OF st(1) c(2) j])
    have "cluster_lba c st + of_nat j = cluster_lba c st \<longleftrightarrow> j = 0"
      using cluster_sector_inj [OF st(1) c(2) j c(2) st(2)] by simp
    then show ?thesis
      using cluster_write_sector [OF lay(1) c(2) c(2), of j "\<lambda>_. 0"] j
      by (simp add: e read_sector_def write_sector_def l z cl) (simp add: st2_def sp cl)
  qed
  show "read_sector l st' = read_sector l st" if l: "unat (root_dir_lba st) \<le> unat (lba28 l)" "lba28 l \<notin> set (cluster_sectors st c)"
  proof -
    have f: "foreign st1 [c] l" using l sc(1) cl by (auto simp: foreign_def cluster_sectors_def same_consts_def)
    have "lba28 l \<noteq> cluster_lba c st" using l(2) st(2) by (force simp: cluster_sectors_def image_iff)
    then have "read_sector l st' = read_sector l st2" by (simp add: e read_sector_def write_sector_def z cl)
    also have "\<dots> = read_sector l st1" unfolding st2_def by (rule cluster_write_foreign [OF lay(1) c(2) _ f]) simp
    also have "\<dots> = read_sector l st" unfolding st1_def using l(1) by (intro set_entry_read [OF st(1) c(1)]) simp
    finally show ?thesis .
  qed
qed

lemma in_sectors: "j < spc st \<Longrightarrow> cluster_lba c st + of_nat j \<in> set (cluster_sectors st c)"
  by (simp add: cluster_sectors_def)

lemma sectors_apart:
  assumes "layout st" "2 \<le> d" "2 \<le> c" "d \<noteq> c"
  shows "set (cluster_sectors st d) \<inter> set (cluster_sectors st c) = {}"
  using cluster_sector_inj [OF assms(1,2) _ assms(3)] assms(4) by (auto simp: cluster_sectors_def)

text \<open>A free cluster shares no sector with a directory.\<close>

lemma directory_apart:
  assumes st: "layout st" "directory st inode lbas" and c: "2 \<le> c" "fat_entry c st = 0"
  shows "set lbas \<inter> set (cluster_sectors st c) = {}"
proof (cases "inode = 0")
  case True
  have "unat l < unat (data_lba st)" if "l \<in> set lbas" for l
  proof -
    have "l \<in> (\<lambda>k. root_dir_lba st + of_nat k) ` {0..<unat (root_dir_sectors st)}"
      using that st(2) True by (simp add: directory_def)
    then obtain k where k: "l = root_dir_lba st + of_nat k" "k < unat (root_dir_sectors st)" by auto
    have "unat (of_nat k :: u32) = k" using k(2) by (intro unat_of_nat_u32) (use layout_bounds(3) [OF st(1)] in simp)
    moreover have "unat (root_dir_lba st) + unat (root_dir_sectors st) = unat (data_lba st)" using st(1) by (simp add: layout_def)
    ultimately show ?thesis using layout_bounds(4) [OF st(1)] k by (simp add: unat_add_u32)
  qed
  moreover have "unat (data_lba st) \<le> unat l" if "l \<in> set (cluster_sectors st c)" for l
    using that cluster_sector(1) [OF st(1) c(1)] by (auto simp: cluster_sectors_def)
  ultimately show ?thesis by fastforce
next
  case False
  then obtain cs where cs: "chain (\<lambda>c. fat_entry c st) (ucast inode) cs" "lbas = concat (map (cluster_sectors st) cs)"
    using st(2) by (auto simp: directory_def)
  have "2 \<le> d \<and> d \<noteq> c" if "d \<in> set cs" for d
    using chain_member [OF cs(1) that] chain_entry_used [OF cs(1) that] c(2) by auto
  then show ?thesis using sectors_apart [OF st(1) _ c(1)] by (fastforce simp: cs(2))
qed

lemma same_consts_sectors: "same_consts st st' \<Longrightarrow> cluster_sectors st' c = cluster_sectors st c"
  by (simp add: cluster_sectors_def same_consts_cluster) (simp add: same_consts_def)

lemma fresh_directory_parent:
  assumes st: "layout st" "0 < spc st" "directory st inode lbas" and c: "in_table st c" "2 \<le> c" "fat_entry c st = 0"
  shows "directory (fresh_directory c parent st) inode lbas" "slots (fresh_directory c parent st) lbas = slots st lbas"
proof -
  note f = fresh_directory_state [OF st(1,2) c(1,2), where parent = parent]
  note sc = fresh_consts [of st c parent]
  have "chain (\<lambda>d. fat_entry d (fresh_directory c parent st)) i cs \<longleftrightarrow> chain (\<lambda>d. fat_entry d st) i cs"
    if "\<forall>d \<in> set cs. in_table st d \<and> d \<noteq> c" for i cs
    using that f(2) by (intro chain_cong) auto
  moreover have "\<forall>d \<in> set cs. d \<noteq> c" if "chain (\<lambda>d. fat_entry d st) i cs" for i cs
    using chain_entry_used [OF that] c(3) by auto
  moreover have "cluster_sectors (fresh_directory c parent st) = cluster_sectors st"
    using same_consts_sectors [OF sc] by auto
  ultimately show "directory (fresh_directory c parent st) inode lbas"
    using st(3) sc same_consts_in_table [OF sc] by (auto simp: directory_def same_consts_def split: if_splits)
  have "read_sector l (fresh_directory c parent st) = read_sector l st" if "l \<in> set lbas" for l
    using directory_sectors [OF st] that directory_apart [OF st(1,3) c(2,3)] by (intro f(4)) (auto simp: lbas_ok_def)
  then show "slots (fresh_directory c parent st) lbas = slots st lbas" by (auto simp: slots_map)
qed

text \<open>The new directory is one cluster with two dot entries and an end mark behind them.\<close>

lemma dot_sector_entries:
  "direntry_at (dot_sector c parent) 0 = dot_entry (0x2E # replicate 7 0x20) c"
  "direntry_at (dot_sector c parent) 1 = dot_entry (0x2E # 0x2E # replicate 6 0x20) parent"
  by (simp_all add: dot_sector_def direntry_put_other direntry_put_same dot_entry_def)

lemma dot_sector_end: "de_name (direntry_at (dot_sector c parent) 2) ! 0 = 0"
  by (simp add: direntry_first dot_sector_def put_direntry_byte)

definition empty_directory :: "u16 \<Rightarrow> u16 \<Rightarrow> fat \<Rightarrow> bool" where
  "empty_directory c parent st \<longleftrightarrow> fat_entry c st = 0xFFFF
     \<and> (\<forall>j < spc st. read_sector (cluster_lba c st + of_nat j) st = (if j = 0 then dot_sector c parent else (\<lambda>_. 0)))"

lemma empty_directory_listed:
  assumes "0 < spc st" "empty_directory c parent st"
  shows "listed (slots st (cluster_sectors st c)) = []"
proof -
  obtain ls where ls: "cluster_sectors st c = cluster_lba c st # ls" using assms(1) by (cases "spc st") (simp_all add: cluster_sectors_def upt_conv_Cons del: upt_Suc)
  have r: "read_sector (cluster_lba c st) st = dot_sector c parent" using assms by (auto simp: empty_directory_def)
  obtain js :: "nat list" where "[0..<16] = 0 # 1 # 2 # js" by (simp add: upt_conv_Cons)
  then have "slots st (cluster_sectors st c) = (cluster_lba c st, 0, dot_entry (0x2E # replicate 7 0x20) c)
      # (cluster_lba c st, 1, dot_entry (0x2E # 0x2E # replicate 6 0x20) parent)
      # (cluster_lba c st, 2, direntry_at (dot_sector c parent) 2)
      # map (\<lambda>i. (cluster_lba c st, i, direntry_at (dot_sector c parent) i)) js @ slots st ls"
    unfolding ls slots_def by (simp add: sector_slots_def r dot_sector_entries(1) dot_sector_entries(2) [unfolded One_nat_def])
  then show ?thesis by (simp add: listed_Cons skip_entry_def dot_sector_end) (simp add: dot_entry_def)
qed

lemma empty_directory_directory:
  assumes "small_table st" "in_table st c" "2 \<le> c" "empty_directory c parent st"
  shows "directory st (ucast c) (cluster_sectors st c)"
proof -
  have "c < FAT16_CLUSTER_EOF_LO" by (rule small_table_lt [OF assms(1,2)])
  moreover have "FAT16_CLUSTER_EOF_LO \<le> 0xFFFF" by (simp add: FAT16_CLUSTER_EOF_LO_def)
  ultimately have "chain (\<lambda>d. fat_entry d st) c [c]" using assms(3,4) by (simp add: empty_directory_def)
  moreover have "(ucast c :: u32) \<noteq> 0" using assms(3) by (auto simp: u32_eq_iff word_le_nat_alt)
  ultimately show ?thesis using assms(2)
    by (auto simp: directory_def intro!: exI [of _ "[c]"])
qed

lemma create_directory_entry:
  assumes "fat_alloc_cluster st = (c, fat_set_entry c 0xFFFF st)" "c \<noteq> 0" "kind AND VFS_DIR \<noteq> 0"
    and "fat16_write_dir_entry (vn_inode node) name c 0 FAT16_ATTR_DIRECTORY
      (fresh_directory c (ucast (vn_inode node)) st) = Some (True, st')"
  shows "create_entry node name kind st = Some (True, st')"
  using assms by (simp add: create_entry_def fresh_directory_def Let_def)

lemma empty_directory_write:
  assumes "layout st" "2 \<le> c" "in_table st c" "unat (root_dir_lba st) \<le> unat (lba28 l)" "lba28 l \<notin> set (cluster_sectors st c)"
    and "empty_directory c parent st"
  shows "empty_directory c parent (write_sector l b st)"
proof -
  have "read_sector (cluster_lba c st + of_nat j) (write_sector l b st) = read_sector (cluster_lba c st + of_nat j) st"
    if "j < spc st" for j
  proof -
    have "cluster_lba c st + of_nat j \<noteq> lba28 l" using in_sectors [OF that, of c] assms(5) by metis
    then show ?thesis using cluster_sector(2) [OF assms(1,2) that] by (simp add: read_sector_def write_sector_def)
  qed
  moreover have "cluster_lba c (write_sector l b st) = cluster_lba c st" by (simp add: cluster_lba_def frame_simps)
  ultimately show ?thesis
    using assms(6) write_entry_other [OF assms(1,3,4)] by (simp add: empty_directory_def frame_simps)
qed

lemma fresh_directory_file:
  assumes st: "layout st" "0 < spc st" and c: "in_table st c" "2 \<le> c" "fat_entry c st = 0" and f: "file_chain st d ds"
  shows "file_chain (fresh_directory c parent st) d ds" "file_data (fresh_directory c parent st) ds = file_data st ds"
proof -
  note fr = fresh_directory_state [OF st c(1,2), where parent = parent]
  note sc = fresh_consts [of st c parent]
  have ds: "d \<noteq> c \<and> 2 \<le> d \<and> in_table st d" if "d \<in> set ds" for d
    using file_chain_cut [OF f that] chain_entry_used [of "\<lambda>x. fat_entry x st" _ ds d] f that c(3)
    by (auto simp: file_chain_def)
  have "chain (\<lambda>x. fat_entry x (fresh_directory c parent st)) d ds \<longleftrightarrow> chain (\<lambda>x. fat_entry x st) d ds"
    using ds fr(2) by (intro chain_cong) auto
  then show "file_chain (fresh_directory c parent st) d ds"
    using f same_consts_in_table [OF sc] by (auto simp: file_chain_def)
  have sp: "spc (fresh_directory c parent st) = spc st" using sc by (simp add: same_consts_def)
  have "file_byte (fresh_directory c parent st) ds k = file_byte st ds k" if k: "k < cbytes st * length ds" for k
  proof -
    define a j where "a = ds ! (k div cbytes st)" and "j = k mod cbytes st div 512"
    have "k div cbytes st < length ds" using k by (intro less_mult_imp_div_less) (simp add: mult.commute)
    then have a: "a \<noteq> c" "2 \<le> a" using ds by (auto simp: a_def)
    have j: "j < spc st" unfolding j_def using st(2) by (intro less_mult_imp_div_less) (simp add: mult.commute)
    note l = cluster_sector [OF st(1) a(2) j]
    have "unat (root_dir_lba st) \<le> unat (cluster_lba a st + of_nat j)" using l(1) st(1) by (simp add: layout_def)
    moreover have "cluster_lba a st + of_nat j \<notin> set (cluster_sectors st c)"
      using sectors_apart [OF st(1) a(2) c(2) a(1)] in_sectors [OF j, of a] by blast
    ultimately have "read_sector (cluster_lba a st + of_nat j) (fresh_directory c parent st) = read_sector (cluster_lba a st + of_nat j) st"
      using l(2) by (intro fr(4)) simp_all
    then show ?thesis using same_consts_cluster [OF sc] sp by (simp add: file_byte_def a_def j_def)
  qed
  then show "file_data (fresh_directory c parent st) ds = file_data st ds" using sp by (simp add: file_data_def)
qed

section \<open>The new directory\<close>

text \<open>What the volume holds after a directory has been made in \<open>inode\<close>.\<close>

definition made_directory :: "fat \<Rightarrow> u32 \<Rightarrow> u32 \<Rightarrow> u16 \<Rightarrow> fat \<Rightarrow> bool" where
  "made_directory st inode lba c st' \<longleftrightarrow> same_consts st st' \<and> layout st'
     \<and> directory st' (ucast c) (cluster_sectors st c) \<and> empty_directory c (ucast inode) st'
     \<and> listed (slots st' (cluster_sectors st c)) = []
     \<and> (\<forall>f fs. file_chain st f fs \<longrightarrow> foreign st fs lba \<longrightarrow> file_chain st' f fs \<and> file_data st' fs = file_data st fs)"

lemma made_directory_parts:
  assumes "made_directory st inode lba c st'"
  shows "same_consts st st'" "layout st'" "spc st' = spc st" "directory st' (ucast c) (cluster_sectors st c)"
    "empty_directory c (ucast inode) st'" "listed (slots st' (cluster_sectors st c)) = []"
    "file_chain st f fs \<Longrightarrow> foreign st fs lba \<Longrightarrow> file_chain st' f fs \<and> file_data st' fs = file_data st fs"
  using assms by (auto simp: made_directory_def same_consts_def)

lemma made_directory_write:
  assumes st: "layout st" "small_table st" "0 < spc st" "directory st inode lbas"
    and c: "in_table st c" "2 \<le> c" "fat_entry c st = 0" and lba: "lba \<in> set lbas"
  shows "made_directory st inode lba c (write_sector lba b (fresh_directory c (ucast inode) st))"
proof -
  define st3 st' where "st3 = fresh_directory c (ucast inode) st" and "st' = write_sector lba b st3"
  note sc = fresh_consts [of st c "ucast inode", folded st3_def]
  note fr = fresh_directory_state [OF st(1,3) c(1,2), where parent = "ucast inode", folded st3_def]
  have sp: "spc st3 = spc st" "root_dir_lba st3 = root_dir_lba st" using sc by (simp_all add: same_consts_def)
  have sc': "same_consts st st'" using sc by (simp add: st'_def same_consts_def frame_simps)
  have e3: "empty_directory c (ucast inode) st3"
    using fr(2) [OF c(1)] fr(3) same_consts_cluster [OF sc] sp by (simp add: empty_directory_def)
  have l: "lba28 lba = lba" "unat (root_dir_lba st) \<le> unat lba" "lba \<notin> set (cluster_sectors st c)"
    using directory_sectors [OF st(1,3,4)] directory_apart [OF st(1,4) c(2,3)] lba by (auto simp: lbas_ok_def)
  have e': "empty_directory c (ucast inode) st'" unfolding st'_def
    using c(1,2) l same_consts_in_table [OF sc] same_consts_sectors [OF sc] sp e3
    by (intro empty_directory_write fr(1)) auto
  have c': "in_table st' c" "small_table st'" "0 < spc st'" "cluster_sectors st' c = cluster_sectors st c"
    using c(1) st(2,3) sc' same_consts_in_table [OF sc'] same_consts_sectors [OF sc']
    by (simp_all add: small_table_def same_consts_def)
  have "file_chain st' f fs \<and> file_data st' fs = file_data st fs"
    if g: "file_chain st f fs" "foreign st fs lba" for f fs
  proof -
    note g3 = fresh_directory_file [OF st(1,3) c g(1), of "ucast inode", folded st3_def]
    have "foreign st3 fs lba" using g(2) foreign_consts [OF sc] by simp
    note fw = foreign_write [OF fr(1) _ g3(1) this, where b = b]
    have "file_data st' fs = file_data st3 fs" using fw(2) st(3) sp by (simp add: file_data_def st'_def frame_simps)
    then show ?thesis using fw(1) st(3) sp g3(2) by (simp add: st'_def)
  qed
  moreover have "layout st'" using fr(1) by (simp add: st'_def write_sector_layout)
  ultimately show ?thesis
    using sc' e' empty_directory_directory [OF c'(2,1) c(2) e'] empty_directory_listed [OF c'(3) e'] c'(4)
    unfolding st'_def st3_def by (simp add: made_directory_def)
qed

text \<open>The steps of the code on the volume: a cluster, its contents, the parent's entry.\<close>

lemma create_entry_directory:
  assumes st: "layout st" "small_table st" "0 < spc st" "directory st (vn_inode node) lbas"
    and nm: "plain_83 b x" "hd b \<noteq> 0xE5" "kind AND VFS_DIR \<noteq> 0"
    and slot: "find (\<lambda>(lba, i, d). free_entry_slot d) (slots st lbas) = Some (lba, i, d)"
    and new: "find_from (vn_inode node) (join_83 b x) 0 st = Some None"
    and room: "in_table st c0" "2 \<le> c0" "fat_entry c0 st = 0"
  obtains c e st' where "create_entry node (join_83 b x) kind st = Some (True, st')"
    "in_table st c" "2 \<le> c" "fat_entry c st = 0" "made_directory st (vn_inode node) lba c st'"
    "de_attributes e = FAT16_ATTR_DIRECTORY" "de_first_cluster e = c" "format_83 e = map upper_83 (join_83 b x)"
    "directory st' (vn_inode node) lbas" "find_from (vn_inode node) (join_83 b x) 0 st' = Some (Some (lba, i, e))"
    "\<And>m. ended (slots st lbas) \<Longrightarrow> \<not> name_match e m \<Longrightarrow>
      find_from (vn_inode node) m 0 st' = find_from (vn_inode node) m 0 st"
proof (rule alloc_cluster_cases [OF st(1)])
  show "unat (fat_size_16 (bpb st)) \<le> 256" using st(2) by (simp add: small_table_def)
next
  assume "\<And>c. in_table st c \<Longrightarrow> 2 \<le> c \<Longrightarrow> fat_entry c st \<noteq> 0"
  then show ?thesis using room by blast
next
  fix c assume al: "fat_alloc_cluster st = (c, fat_set_entry c 0xFFFF st)" and c: "in_table st c" "2 \<le> c" "fat_entry c st = 0"
  define st3 where "st3 = fresh_directory c (ucast (vn_inode node)) st"
  note fr = fresh_directory_state(1) [OF st(1,3) c(1,2), where parent = "ucast (vn_inode node)", folded st3_def]
  note pa = fresh_directory_parent [OF st(1,3,4) c, of "ucast (vn_inode node)", folded st3_def]
  have sp: "0 < spc st3" using fresh_consts [of st c] st(3) by (simp add: same_consts_def st3_def)
  have find3: "find_from (vn_inode node) m 0 st3 = find_from (vn_inode node) m 0 st" for m
    using find_slots [OF directory_sectors(1) [OF fr sp pa(1)]] find_slots [OF directory_sectors(1) [OF st(1,3,4)]] pa(2)
    by simp
  have "c \<noteq> 0" using c(2) by (auto simp: word_le_nat_alt)
  note ce = create_directory_entry [OF al this nm(3), where node = node and name = "join_83 b x", folded st3_def]
  show ?thesis
    by (rule write_dir_entry_find [OF fr sp pa(1) nm(1,2), of FAT16_ATTR_DIRECTORY lba i d c 0])
      (use slot pa(2) new find3 that [OF ce c] made_directory_write [OF st c, folded st3_def] in
        \<open>simp_all add: FAT16_ATTR_DIRECTORY_def FAT16_ATTR_LFN_def FAT16_ATTR_VOLUME_ID_def\<close>)
qed

text \<open>
  C12. Making a directory in a directory with a free slot, on a volume with a free cluster: the node returned has
  the name in capitals and leads to a cluster that was free; that cluster is a directory of its own, with \<open>.\<close> and
  \<open>..\<close> and, whatever the cluster held before, no other entry; the parent's other names are found
  as before and every file keeps its chain and contents.
\<close>

theorem fat16_mkdir_empty:
  assumes "layout (vol s)" "small_table (vol s)" "0 < spc (vol s)" "directory (vol s) (vn_inode node) lbas"
    and "plain_83 b x" "hd b \<noteq> 0xE5" "kind AND VFS_DIR \<noteq> 0"
    and "find (\<lambda>(lba, i, d). free_entry_slot d) (slots (vol s) lbas) = Some (lba, i, d)"
    and "find_from (vn_inode node) (join_83 b x) 0 (vol s) = Some None"
    and "in_table (vol s) c0" "2 \<le> c0" "fat_entry c0 (vol s) = 0"
    and heap: "heap_has (heap s) bs" "(t, True) \<in> set bs" "sizeof_vfs_node \<le> t"
  shows "\<exists>c p s'. fat16_vfs_create node (join_83 b x) kind s = Some (p, s') \<and> p \<noteq> 0
    \<and> in_table (vol s) c \<and> 2 \<le> c \<and> fat_entry c (vol s) = 0
    \<and> nodes s' p = \<lparr>vn_name = map upper_83 (join_83 b x), vn_flags = VFS_DIR, vn_size = 0, vn_inode = ucast c,
         vn_ops = fat16_dir_ops, vn_dir_lba = lba, vn_dir_index = of_nat i\<rparr>
    \<and> dir_node s' p (cluster_sectors (vol s) c) \<and> empty_directory c (ucast (vn_inode node)) (vol s')
    \<and> listed (slots (vol s') (cluster_sectors (vol s) c)) = []
    \<and> directory (vol s') (vn_inode node) lbas
    \<and> (\<forall>m. ended (slots (vol s) lbas) \<longrightarrow> strcasecmp (map upper_83 (join_83 b x)) m \<noteq> 0 \<longrightarrow>
         find_from (vn_inode node) m 0 (vol s') = find_from (vn_inode node) m 0 (vol s))
    \<and> (\<forall>f fs. file_chain (vol s) f fs \<longrightarrow> foreign (vol s) fs lba \<longrightarrow>
         file_chain (vol s') f fs \<and> file_data (vol s') fs = file_data (vol s) fs)"
proof (rule create_entry_directory [OF assms(1-12)])
  fix c e st'
  assume w: "create_entry node (join_83 b x) kind (vol s) = Some (True, st')"
    and c: "in_table (vol s) c" "2 \<le> c" "fat_entry c (vol s) = 0" and md: "made_directory (vol s) (vn_inode node) lba c st'"
    and e: "de_attributes e = FAT16_ATTR_DIRECTORY" "de_first_cluster e = c" "format_83 e = map upper_83 (join_83 b x)"
    and d: "directory st' (vn_inode node) lbas"
    and f: "find_from (vn_inode node) (join_83 b x) 0 st' = Some (Some (lba, i, e))"
    and o: "\<And>m. ended (slots (vol s) lbas) \<Longrightarrow> \<not> name_match e m \<Longrightarrow>
      find_from (vn_inode node) m 0 st' = find_from (vn_inode node) m 0 (vol s)"
  note mp = made_directory_parts [OF md]
  have nd: "node_of lba i e = \<lparr>vn_name = map upper_83 (join_83 b x), vn_flags = VFS_DIR, vn_size = 0, vn_inode = ucast c,
      vn_ops = fat16_dir_ops, vn_dir_lba = lba, vn_dir_index = of_nat i\<rparr>"
    using e by (simp add: node_of_def FAT16_ATTR_DIRECTORY_def)
  obtain p k where k: "kmalloc sizeof_vfs_node (heap s) = Some (p, k)" "p \<noteq> 0" by (rule heap_has_buffer [OF heap])
  define s' where "s' = s\<lparr>vol := st', heap := k, nodes := (nodes s)(p := node_of lba i e)\<rparr>"
  have s': "nodes s' p = node_of lba i e" "vol s' = st'" by (simp_all add: s'_def)
  have run: "fat16_vfs_create node (join_83 b x) kind s = Some (p, s')"
    using w f k assms(1) mp(2) by (simp add: fat16_vfs_create_def fat16_vfs_finddir_def fs_kmalloc_def s'_def layout_def)
  have dn: "dir_node s' p (cluster_sectors (vol s) c)"
    using k(2) nd s' mp assms(3) by (simp add: dir_node_def VFS_DIR_def)
  show ?thesis using run k(2) c s' nd dn mp(5-) d o e(3) by (auto simp: name_match_def)
qed

lemma fat16_mkdir_empty_witness:
  "\<exists>c p s'. fat16_vfs_create fat16_root_node (join_83 (str ''kernel'') (str ''elf'')) VFS_DIR demo_fs = Some (p, s')
    \<and> p \<noteq> 0 \<and> vn_inode (nodes s' p) = ucast c \<and> listed (slots (vol s') (cluster_sectors demo_one c)) = []"
proof -
  have "[0..<16] = 0 # [Suc 0..<16]" by (simp add: upt_conv_Cons)
  then have fr: "find (\<lambda>(lba, i, d). free_entry_slot d) (slots (vol demo_fs) [3]) = Some (3, 0, direntry_at (\<lambda>_. 0) 0)"
    by (simp add: demo_fs_facts demo_slots free_entry_slot_def direntry_first)
  have nf: "find_from (vn_inode fat16_root_node) (join_83 (str ''kernel'') (str ''elf'')) 0 (vol demo_fs) = Some None"
    using find_slots [OF directory_sectors(1) [OF demo_one_facts(1) _ demo_root]] demo_live
    by (simp add: demo_fs_facts demo_one_facts fat16_root_node_def)
  have st: "layout (vol demo_fs)" "small_table (vol demo_fs)" "0 < spc (vol demo_fs)" "directory (vol demo_fs) (vn_inode fat16_root_node) [3]"
    using demo_one_facts(1,2,5) demo_root by (simp_all add: demo_fs_facts fat16_root_node_def)
  have room: "in_table (vol demo_fs) 3" "fat_entry 3 (vol demo_fs) = 0" by (simp_all add: demo_fs_facts demo_one_facts)
  from fat16_mkdir_empty [OF st plain_demo _ _ fr nf room(1) _ room(2), of VFS_DIR "[(0xFFFF0, True)]" "0xFFFF0"] show ?thesis
    using demo_heap by (auto simp: demo_fs_facts VFS_DIR_def sizeof_vfs_node_def str_def)
qed

end
