(* ===== verification/Snake.thy ===== *)
theory Snake
  imports Yotos_Base "HOL-Library.Monad_Syntax"
begin

text \<open>
  The game \<^verbatim>\<open>user/snake.c\<close>, a ring 3 program. What it asks of the kernel, a key and a pause, is a
  parameter; \<open>cells\<close> is the VGA text memory it writes to, indexed as the C array. Coordinates are
  integers: those the program computes stay in the play area or one step beside it. A loop that never
  ends has the value \<open>None\<close>.
\<close>

record 'e sys =
  sys_readkey :: "'e \<Rightarrow> u8 \<times> 'e"
  sys_sleep :: "u32 \<Rightarrow> 'e \<Rightarrow> 'e"

definition VGA_W :: int where "VGA_W = 80"
definition VGA_H :: int where "VGA_H = 25"
definition PX :: int where "PX = 1"
definition PY :: int where "PY = 2"
definition PW :: int where "PW = 78"
definition PH :: int where "PH = 21"
definition MAX_LEN :: nat where "MAX_LEN = 512"

definition BLACK :: u8 where "BLACK = 0x00"
definition WHITE :: u8 where "WHITE = 0x0F"
definition GRAY :: u8 where "GRAY = 0x07"
definition YELLOW :: u8 where "YELLOW = 0x0E"
definition GREEN :: u8 where "GREEN = 0x0A"
definition RED :: u8 where "RED = 0x0C"
definition CYAN :: u8 where "CYAN = 0x0B"

record pt =
  pt_x :: int
  pt_y :: int

text \<open>The static variables of the program, and the local \<open>speed\<close> of its main loop.\<close>

record game =
  cells :: "int \<Rightarrow> u16"
  snake :: "pt list"
  slen :: nat
  dx :: int
  dy :: int
  food :: pt
  score :: u32
  seed :: u32
  speed :: u32

section \<open>Drawing\<close>

definition vput :: "int \<Rightarrow> int \<Rightarrow> u8 \<Rightarrow> u8 \<Rightarrow> game \<Rightarrow> game" where
  "vput x y c col g =
     g\<lparr>cells := (cells g)(y * VGA_W + x := push_bit 8 (ucast col) OR ucast c)\<rparr>"

definition vclear :: "game \<Rightarrow> game" where
  "vclear g = g\<lparr>cells := (\<lambda>i. if 0 \<le> i \<and> i < VGA_W * VGA_H then push_bit 8 (ucast WHITE) OR 0x20 else cells g i)\<rparr>"

fun vstr :: "int \<Rightarrow> int \<Rightarrow> bytes \<Rightarrow> u8 \<Rightarrow> game \<Rightarrow> game" where
  "vstr x y [] col g = g"
| "vstr x y (c # s) col g = vstr (x + 1) y s col (vput x y c col g)"

text \<open>The digits stored in the last \<open>i\<close> places of the buffer of five.\<close>

fun vnum_digits :: "nat \<Rightarrow> u32 \<Rightarrow> bytes \<Rightarrow> bytes" where
  "vnum_digits 0 n buf = buf"
| "vnum_digits (Suc i) n buf = (if n \<noteq> 0 then vnum_digits i (n div 10) ((0x30 + ucast (n mod 10)) # buf) else buf)"

definition vnum :: "int \<Rightarrow> int \<Rightarrow> u32 \<Rightarrow> u8 \<Rightarrow> game \<Rightarrow> game" where
  "vnum x y n col g =
     (let buf = (if n = 0 then [0x30] else vnum_digits 5 n [])
      in vstr x y (buf @ replicate (5 - length buf) 0x20) col g)"

definition draw_border :: "game \<Rightarrow> game" where
  "draw_border g =
     (let g = fold (\<lambda>x g. vput x (PY + PH) 0x2D CYAN (vput x (PY - 1) 0x2D CYAN g)) [PX - 1..PX + PW] g;
          g = fold (\<lambda>y g. vput (PX + PW) y 0x7C CYAN (vput (PX - 1) y 0x7C CYAN g)) [PY..PY + PH - 1] g;
          g = vput (PX - 1) (PY - 1) 0x2B CYAN g;
          g = vput (PX + PW) (PY - 1) 0x2B CYAN g;
          g = vput (PX - 1) (PY + PH) 0x2B CYAN g
      in vput (PX + PW) (PY + PH) 0x2B CYAN g)"

section \<open>Random numbers and food\<close>

definition xorshift :: "u32 \<Rightarrow> u32" where
  "xorshift s = (let s = s XOR push_bit 13 s; s = s XOR drop_bit 17 s in s XOR push_bit 5 s)"

definition rng :: "game \<Rightarrow> u32 \<times> game" where
  "rng g = (let s = xorshift (seed g) in (s, g\<lparr>seed := s\<rparr>))"

text \<open>Whether one of the first \<open>n\<close> segments is at \<open>p\<close>.\<close>

definition hits :: "pt list \<Rightarrow> nat \<Rightarrow> pt \<Rightarrow> bool" where
  "hits xs n p = list_ex (\<lambda>i. pt_x (xs ! i) = pt_x p \<and> pt_y (xs ! i) = pt_y p) [0..<n]"

partial_function (option) place_food :: "game \<Rightarrow> game option" where
  "place_food g =
     (let (r, g) = rng g; fx = PX + int (unat (r mod 78));
          (r, g) = rng g; fy = PY + int (unat (r mod 21));
          p = \<lparr>pt_x = fx, pt_y = fy\<rparr>
      in if hits (snake g) (slen g) p then place_food g else Some (g\<lparr>food := p\<rparr>))"

section \<open>The game\<close>

fun draw_snake :: "pt list \<Rightarrow> game \<Rightarrow> game" where
  "draw_snake [] g = g"
| "draw_snake (p # ps) g = draw_snake ps (vput (pt_x p) (pt_y p) 0x23 GREEN g)"

definition start :: "game \<Rightarrow> game option" where
  "start g =
     (let g = vclear g;
          g = vstr 36 0 (str ''SNAKE'') YELLOW g;
          g = vstr 2 1 (str ''Score:'') WHITE g;
          g = vstr 30 1 (str ''WASD: move  Q: quit'') GRAY g;
          g = draw_border g;
          cx = PX + PW div 2;
          cy = PY + PH div 2;
          g = g\<lparr>snake := (snake g)[0 := \<lparr>pt_x = cx, pt_y = cy\<rparr>, 1 := \<lparr>pt_x = cx - 1, pt_y = cy\<rparr>,
                  2 := \<lparr>pt_x = cx - 2, pt_y = cy\<rparr>], slen := 3, dx := 1, dy := 0, score := 0\<rparr>;
          g = draw_snake (take 3 (snake g)) g
      in do {
        g \<leftarrow> place_food g;
        let g = vput (pt_x (food g)) (pt_y (food g)) 0x2A RED g;
        let g = vnum 9 1 0 WHITE g;
        Some (g\<lparr>speed := 130\<rparr>) })"

definition turn :: "u8 \<Rightarrow> game \<Rightarrow> game" where
  "turn key g =
     (let g = (if (key = 0x77 \<or> key = 0x57) \<and> dy g = 0 then g\<lparr>dx := 0, dy := -1\<rparr> else g);
          g = (if (key = 0x73 \<or> key = 0x53) \<and> dy g = 0 then g\<lparr>dx := 0, dy := 1\<rparr> else g);
          g = (if (key = 0x61 \<or> key = 0x41) \<and> dx g = 0 then g\<lparr>dx := -1, dy := 0\<rparr> else g)
      in if (key = 0x64 \<or> key = 0x44) \<and> dx g = 0 then g\<lparr>dx := 1, dy := 0\<rparr> else g)"

text \<open>The keys waiting are read one by one; \<open>None\<close> inside the result is \<open>sys_exit(0)\<close>.\<close>

partial_function (option) drain :: "'e sys \<Rightarrow> game \<Rightarrow> 'e \<Rightarrow> (game option \<times> 'e) option" where
  "drain k g e =
     (let (key, e) = sys_readkey k e in
      if key = 0 then Some (Some g, e)
      else if key = 0x71 \<or> key = 0x51 then Some (None, e)
      else drain k (turn key g) e)"

fun shift :: "nat \<Rightarrow> pt list \<Rightarrow> pt list" where
  "shift 0 xs = xs"
| "shift (Suc i) xs = shift i (xs[Suc i := xs ! i])"

text \<open>One tick after the keys: whether the game goes on, and the game.\<close>

definition move :: "game \<Rightarrow> (bool \<times> game) option" where
  "move g =
     (let nh = \<lparr>pt_x = pt_x (snake g ! 0) + dx g, pt_y = pt_y (snake g ! 0) + dy g\<rparr> in
      if pt_x nh < PX \<or> pt_x nh \<ge> PX + PW \<or> pt_y nh < PY \<or> pt_y nh \<ge> PY + PH then Some (False, g)
      else if hits (snake g) (slen g - 1) nh then Some (False, g)
      else
        (let ate = (pt_x nh = pt_x (food g) \<and> pt_y nh = pt_y (food g));
             old_tail = snake g ! (slen g - 1);
             g = (if ate \<and> slen g < MAX_LEN then g\<lparr>slen := slen g + 1\<rparr> else g);
             g = g\<lparr>snake := (shift (slen g - 1) (snake g))[0 := nh]\<rparr>;
             g = (if \<not> ate then vput (pt_x old_tail) (pt_y old_tail) 0x20 BLACK g else g);
             g = vput (pt_x nh) (pt_y nh) 0x23 GREEN g
         in if ate
            then (let g = g\<lparr>score := score g + 1\<rparr>;
                      g = (if speed g > 60 then g\<lparr>speed := speed g - 4\<rparr> else g);
                      g = vnum 9 1 (score g) WHITE g
                  in do { g \<leftarrow> place_food g; Some (True, vput (pt_x (food g)) (pt_y (food g)) 0x2A RED g) })
            else Some (True, g)))"

partial_function (option) play :: "'e sys \<Rightarrow> game \<Rightarrow> 'e \<Rightarrow> (game option \<times> 'e) option" where
  "play k g e = do {
     let e = sys_sleep k (speed g) e;
     (r, e) \<leftarrow> drain k g e;
     case r of
       None \<Rightarrow> Some (None, e)
     | Some g \<Rightarrow> do {
         (go, g) \<leftarrow> move g;
         if go then play k g e else Some (Some g, e) } }"

partial_function (option) wait_quit :: "'e sys \<Rightarrow> 'e \<Rightarrow> 'e option" where
  "wait_quit k e =
     (let (key, e) = sys_readkey k e in
      if key = 0x71 \<or> key = 0x51 then Some e else wait_quit k (sys_sleep k 50 e))"

definition game_over :: "game \<Rightarrow> game" where
  "game_over g = vstr 27 13 (str ''Press Q to exit...'') WHITE (vstr 32 11 (str ''GAME OVER!'') RED g)"

text \<open>\<open>_start\<close>: the screen it leaves when it exits with code 0.\<close>

definition snake_main :: "'e sys \<Rightarrow> game \<Rightarrow> 'e \<Rightarrow> (game option \<times> 'e) option" where
  "snake_main k g e = do {
     g \<leftarrow> start g;
     (r, e) \<leftarrow> play k g e;
     case r of
       None \<Rightarrow> Some (None, e)
     | Some g \<Rightarrow> do { e \<leftarrow> wait_quit k e; Some (Some (game_over g), e) } }"

section \<open>Frames\<close>

definition rest :: "game \<Rightarrow> _" where
  "rest g = (snake g, slen g, dx g, dy g, food g, score g, seed g, speed g)"

lemma rest_eqD: "rest g = rest h \<Longrightarrow> snake g = snake h \<and> slen g = slen h \<and> dx g = dx h \<and> dy g = dy h
    \<and> food g = food h \<and> score g = score h \<and> seed g = seed h \<and> speed g = speed h"
  by (simp add: rest_def)

lemma fold_same: "(\<And>x g. x \<in> set xs \<Longrightarrow> h (f x g) = h g) \<Longrightarrow> h (fold f xs g) = h g"
  by (induction xs arbitrary: g) auto

lemma rest_vput: "rest (vput x y c col g) = rest g"
  by (simp add: rest_def vput_def)

lemma rest_vclear: "rest (vclear g) = rest g"
  by (simp add: rest_def vclear_def)

lemma rest_vstr: "rest (vstr x y s col g) = rest g"
  by (induction x y s col g rule: vstr.induct) (simp_all add: rest_vput)

lemma rest_vnum: "rest (vnum x y n col g) = rest g"
  by (simp add: vnum_def rest_vstr Let_def)

lemma rest_border: "rest (draw_border g) = rest g"
  unfolding draw_border_def Let_def by (simp only: rest_vput fold_same)

lemma rest_draw_snake: "rest (draw_snake ps g) = rest g"
  by (induction ps g rule: draw_snake.induct) (simp_all add: rest_vput)

lemmas drawing_frame [simp] = rest_eqD [OF rest_vput] rest_eqD [OF rest_vclear] rest_eqD [OF rest_vstr]
  rest_eqD [OF rest_vnum] rest_eqD [OF rest_border] rest_eqD [OF rest_draw_snake]

lemma cells_update [simp]:
  "cells (g\<lparr>snake := a\<rparr>) = cells g" "cells (g\<lparr>slen := b\<rparr>) = cells g" "cells (g\<lparr>dx := c\<rparr>) = cells g"
  "cells (g\<lparr>dy := c\<rparr>) = cells g" "cells (g\<lparr>food := d\<rparr>) = cells g" "cells (g\<lparr>score := e\<rparr>) = cells g"
  "cells (g\<lparr>seed := e\<rparr>) = cells g" "cells (g\<lparr>speed := e\<rparr>) = cells g"
  by simp_all

section \<open>The screen\<close>

definition on_area :: "pt \<Rightarrow> bool" where
  "on_area p \<longleftrightarrow> PX \<le> pt_x p \<and> pt_x p < PX + PW \<and> PY \<le> pt_y p \<and> pt_y p < PY + PH"

lemmas area_defs = on_area_def PX_def PY_def PW_def PH_def

text \<open>The character shown at a point, and the cells that are not text memory.\<close>

definition shown_at :: "game \<Rightarrow> pt \<Rightarrow> u8" where
  "shown_at g p = ucast (cells g (pt_y p * VGA_W + pt_x p))"

definition outside_same :: "game \<Rightarrow> game \<Rightarrow> bool" where
  "outside_same g h \<longleftrightarrow> (\<forall>i. i < 0 \<or> VGA_W * VGA_H \<le> i \<longrightarrow> cells h i = cells g i)"

lemma cell_char: "ucast (push_bit 8 (ucast col) OR ucast c :: u16) = c" for c col :: u8
  by (rule bit_word_eqI) (auto simp: bit_simps)

lemma cell_index: "0 \<le> x \<Longrightarrow> x < 80 \<Longrightarrow> 0 \<le> a \<Longrightarrow> a < 80 \<Longrightarrow> b * 80 + a = y * 80 + x \<longleftrightarrow> a = x \<and> b = y" for a x :: int
  by (cases b y rule: linorder_cases) linarith+

lemma shown_vput:
  "0 \<le> x \<Longrightarrow> x < 80 \<Longrightarrow> 0 \<le> pt_x p \<Longrightarrow> pt_x p < 80 \<Longrightarrow>
    shown_at (vput x y c col g) p = (if pt_x p = x \<and> pt_y p = y then c else shown_at g p)"
  by (simp add: shown_at_def vput_def VGA_W_def cell_index cell_char)

lemma area_columns: "on_area p \<Longrightarrow> 0 \<le> pt_x p" "on_area p \<Longrightarrow> pt_x p < 80"
  by (simp_all add: area_defs)

lemma shown_vput_area:
  "on_area p \<Longrightarrow> 0 \<le> x \<Longrightarrow> x < 80 \<Longrightarrow> \<not> on_area \<lparr>pt_x = x, pt_y = y\<rparr> \<Longrightarrow>
    shown_at (vput x y c col g) p = shown_at g p"
  by (subst shown_vput) (auto simp: on_area_def area_columns)

lemma outside_vput:
  "0 \<le> x \<Longrightarrow> x < 80 \<Longrightarrow> 0 \<le> y \<Longrightarrow> y < 25 \<Longrightarrow> outside_same h (vput x y c col g) \<longleftrightarrow> outside_same h g"
  by (auto simp: outside_same_def vput_def VGA_W_def VGA_H_def)

lemma vstr_screen:
  "0 \<le> x \<Longrightarrow> x + int (length s) \<le> 80 \<Longrightarrow> 0 \<le> y \<Longrightarrow> y < 25 \<Longrightarrow>
    (outside_same h (vstr x y s col g) \<longleftrightarrow> outside_same h g)
    \<and> (on_area p \<longrightarrow> y < PY \<longrightarrow> shown_at (vstr x y s col g) p = shown_at g p)"
proof (induction x y s col g rule: vstr.induct)
  case (2 x y c s col g)
  have "on_area p \<Longrightarrow> y < PY \<Longrightarrow> shown_at (vput x y c col g) p = shown_at g p"
    using 2 by (intro shown_vput_area) (auto simp: on_area_def)
  then show ?case using 2 outside_vput [of x y h c col g] by simp
qed simp

lemma vnum_digits_length: "length (vnum_digits i n buf) \<le> i + length buf"
  by (induction i arbitrary: n buf) (auto, smt (verit) add_Suc_right length_Cons)

lemma vnum_screen:
  "0 \<le> x \<Longrightarrow> x \<le> 75 \<Longrightarrow> 0 \<le> y \<Longrightarrow> y < 25 \<Longrightarrow>
    (outside_same h (vnum x y n col g) \<longleftrightarrow> outside_same h g)
    \<and> (on_area p \<longrightarrow> y < PY \<longrightarrow> shown_at (vnum x y n col g) p = shown_at g p)"
  unfolding vnum_def Let_def
  by (rule vstr_screen) (use vnum_digits_length [of 5 n "[]"] in auto)

lemma border_screen:
  "outside_same h (draw_border g) \<longleftrightarrow> outside_same h g"
  "on_area p \<Longrightarrow> shown_at (draw_border g) p = shown_at g p"
proof -
  note n = PX_def PY_def PW_def PH_def
  have v: "outside_same h (vput x y c CYAN g) \<longleftrightarrow> outside_same h g"
    if "x \<in> {0..79}" "y \<in> {1..23}" for x y c g
    using that by (intro outside_vput) auto
  have f1: "outside_same h (fold (\<lambda>x g. vput x (PY + PH) 0x2D CYAN (vput x (PY - 1) 0x2D CYAN g)) [PX - 1..PX + PW] g)
      \<longleftrightarrow> outside_same h g" for g
    by (rule fold_same) (simp add: v n)
  have f2: "outside_same h (fold (\<lambda>y g. vput (PX + PW) y 0x7C CYAN (vput (PX - 1) y 0x7C CYAN g)) [PY..PY + PH - 1] g)
      \<longleftrightarrow> outside_same h g" for g
  proof (rule fold_same)
    fix y g assume "y \<in> set [PY..PY + PH - 1]"
    then have "y \<in> {1..23}" by (simp only: set_upto) (simp add: n)
    then show "outside_same h (vput (PX + PW) y 0x7C CYAN (vput (PX - 1) y 0x7C CYAN g)) \<longleftrightarrow> outside_same h g"
      using v [of 79 y] v [of 0 y] by (simp add: PX_def PW_def)
  qed
  have c: "outside_same h (vput (PX - 1) (PY - 1) 0x2B CYAN g) \<longleftrightarrow> outside_same h g"
    "outside_same h (vput (PX + PW) (PY - 1) 0x2B CYAN g) \<longleftrightarrow> outside_same h g"
    "outside_same h (vput (PX - 1) (PY + PH) 0x2B CYAN g) \<longleftrightarrow> outside_same h g"
    "outside_same h (vput (PX + PW) (PY + PH) 0x2B CYAN g) \<longleftrightarrow> outside_same h g" for g
    by (simp_all add: v n)
  show "outside_same h (draw_border g) \<longleftrightarrow> outside_same h g"
    unfolding draw_border_def Let_def c f2 f1 ..
  show "shown_at (draw_border g) p = shown_at g p" if p: "on_area p"
  proof -
    have s: "shown_at (vput x y c CYAN g) p = shown_at g p"
      if "x \<in> {0..79}" "x = 0 \<or> x = 79 \<or> y = 1 \<or> y = 23" for x y c g
      using that p by (intro shown_vput_area) (auto simp: area_defs)
    have f1: "shown_at (fold (\<lambda>x g. vput x (PY + PH) 0x2D CYAN (vput x (PY - 1) 0x2D CYAN g)) [PX - 1..PX + PW] g) p
        = shown_at g p" for g
      by (rule fold_same [where h = "\<lambda>g. shown_at g p"]) (simp add: s n)
    have f2: "shown_at (fold (\<lambda>y g. vput (PX + PW) y 0x7C CYAN (vput (PX - 1) y 0x7C CYAN g)) [PY..PY + PH - 1] g) p
        = shown_at g p" for g
      by (rule fold_same [where h = "\<lambda>g. shown_at g p"]) (simp add: s n)
    have c: "shown_at (vput (PX - 1) (PY - 1) 0x2B CYAN g) p = shown_at g p"
      "shown_at (vput (PX + PW) (PY - 1) 0x2B CYAN g) p = shown_at g p"
      "shown_at (vput (PX - 1) (PY + PH) 0x2B CYAN g) p = shown_at g p"
      "shown_at (vput (PX + PW) (PY + PH) 0x2B CYAN g) p = shown_at g p" for g
      by (simp_all add: s n)
    show ?thesis unfolding draw_border_def Let_def c f2 f1 ..
  qed
qed

section \<open>Arrays, random numbers, food\<close>

lemma shift_list: "i < length xs \<Longrightarrow> (shift i xs)[0 := p] = p # take i xs @ drop (Suc i) xs"
proof (induction i arbitrary: xs)
  case 0
  then show ?case by (cases xs) auto
next
  case (Suc i)
  let ?ys = "xs[Suc i := xs ! i]"
  have "drop (Suc i) ?ys = xs ! i # drop (Suc (Suc i)) xs"
    using Suc.prems by (metis Cons_nth_drop_Suc drop_update_cancel length_list_update lessI nth_list_update_eq)
  moreover have "take (Suc i) xs = take i xs @ [xs ! i]" using Suc.prems by (simp add: take_Suc_conv_app_nth)
  ultimately show ?case using Suc by simp
qed

lemma hits_iff: "n \<le> length xs \<Longrightarrow> hits xs n p \<longleftrightarrow> p \<in> set (take n xs)"
proof -
  assume "n \<le> length xs"
  moreover have "pt_x q = pt_x p \<and> pt_y q = pt_y p \<longleftrightarrow> q = p" for q :: pt by auto
  ultimately show ?thesis by (auto simp: hits_def list_ex_iff in_set_conv_nth)
qed

text \<open>A xorshift step is injective, so it never reaches zero from a seed that is not zero.\<close>

lemma xor_push_zero: "x XOR push_bit n x = 0 \<Longrightarrow> 0 < n \<Longrightarrow> x = 0" for x :: u32
proof (rule bit_word_eqI)
  fix k assume a: "x XOR push_bit n x = 0" "0 < n" "k < LENGTH(32)"
  have "\<not> bit x k" if "k < 32" for k
    using that
  proof (induction k rule: less_induct)
    case (less k)
    have "\<not> bit (push_bit n x) k" using less a(2) by (auto simp: bit_simps)
    moreover have "\<not> bit (x XOR push_bit n x) k" by (simp add: a(1))
    ultimately show ?case by (simp add: bit_xor_iff)
  qed
  then show "bit x k \<longleftrightarrow> bit 0 k" using a(3) by simp
qed

lemma xor_drop_zero: "x XOR drop_bit n x = 0 \<Longrightarrow> 0 < n \<Longrightarrow> x = 0" for x :: u32
proof (rule bit_word_eqI)
  fix k assume a: "x XOR drop_bit n x = 0" "0 < n" "k < LENGTH(32)"
  have "\<not> bit x k" for k
  proof (induction "32 - k" arbitrary: k rule: less_induct)
    case less
    have "\<not> bit (drop_bit n x) k"
    proof (cases "k < 32")
      case True
      then have "\<not> bit x (n + k)" using less a(2) by simp
      then show ?thesis by (simp add: bit_simps add.commute)
    qed (auto simp: bit_simps dest: bit_imp_le_length)
    moreover have "\<not> bit (x XOR drop_bit n x) k" by (simp add: a(1))
    ultimately show ?case by (simp add: bit_xor_iff)
  qed
  then show "bit x k \<longleftrightarrow> bit 0 k" by simp
qed

lemma xorshift_nonzero: "s \<noteq> 0 \<Longrightarrow> xorshift s \<noteq> 0"
  using xor_push_zero [of s 13] xor_drop_zero [of "s XOR push_bit 13 s" 17]
    xor_push_zero [of "(s XOR push_bit 13 s) XOR drop_bit 17 (s XOR push_bit 13 s)" 5]
  by (auto simp: xorshift_def Let_def)

text \<open>Food is put on a free point of the play area; nothing else changes but the seed.\<close>

lemma place_food_result:
  "place_food g = Some g' \<Longrightarrow> slen g \<le> length (snake g) \<Longrightarrow>
    g' = g\<lparr>food := food g', seed := seed g'\<rparr> \<and> on_area (food g') \<and> food g' \<notin> set (take (slen g) (snake g))
    \<and> (seed g \<noteq> 0 \<longrightarrow> seed g' \<noteq> 0)"
proof (rule place_food.raw_induct
    [where P = "\<lambda>g g'. slen g \<le> length (snake g) \<longrightarrow>
       g' = g\<lparr>food := food g', seed := seed g'\<rparr> \<and> on_area (food g') \<and> food g' \<notin> set (take (slen g) (snake g))
       \<and> (seed g \<noteq> 0 \<longrightarrow> seed g' \<noteq> 0)", THEN mp])
  fix pf g g'
  assume IH: "\<And>g g'. pf g = Some g' \<Longrightarrow> slen g \<le> length (snake g) \<longrightarrow>
       g' = g\<lparr>food := food g', seed := seed g'\<rparr> \<and> on_area (food g') \<and> food g' \<notin> set (take (slen g) (snake g))
       \<and> (seed g \<noteq> 0 \<longrightarrow> seed g' \<noteq> 0)"
    and e: "(let (r, g) = rng g; fx = PX + int (unat (r mod 78)); (r, g) = rng g; fy = PY + int (unat (r mod 21));
               p = \<lparr>pt_x = fx, pt_y = fy\<rparr>
             in if hits (snake g) (slen g) p then pf g else Some (g\<lparr>food := p\<rparr>)) = Some g'"
  define s where "s = xorshift (seed g)"
  define h where "h = g\<lparr>seed := xorshift s\<rparr>"
  define p where "p = \<lparr>pt_x = PX + int (unat (s mod 78)), pt_y = PY + int (unat (xorshift s mod 21))\<rparr>"
  have r: "rng g = (s, g\<lparr>seed := s\<rparr>)" "rng (g\<lparr>seed := s\<rparr>) = (xorshift s, h)"
    by (simp_all add: rng_def s_def h_def Let_def)
  have e': "(if hits (snake h) (slen h) p then pf h else Some (h\<lparr>food := p\<rparr>)) = Some g'"
    using e unfolding r Let_def prod.case p_def .
  have nz: "seed g \<noteq> 0 \<longrightarrow> seed h \<noteq> 0" by (simp add: h_def s_def xorshift_nonzero)
  have ar: "on_area p"
    by (simp add: area_defs p_def unat_mod)
  have hf: "snake h = snake g" "slen h = slen g" by (simp_all add: h_def)
  show "slen g \<le> length (snake g) \<longrightarrow>
       g' = g\<lparr>food := food g', seed := seed g'\<rparr> \<and> on_area (food g') \<and> food g' \<notin> set (take (slen g) (snake g))
       \<and> (seed g \<noteq> 0 \<longrightarrow> seed g' \<noteq> 0)"
  proof (cases "hits (snake h) (slen h) p")
    case True
    then have "pf h = Some g'" using e' by simp
    from IH [OF this] show ?thesis using nz by (auto simp: h_def)
  next
    case False
    then have "g' = h\<lparr>food := p\<rparr>" using e' by simp
    then show ?thesis using False nz ar by (auto simp: h_def hits_iff)
  qed
qed

section \<open>One move\<close>

definition body :: "game \<Rightarrow> pt list" where
  "body g = take (slen g) (snake g)"

definition new_head :: "game \<Rightarrow> pt" where
  "new_head g = \<lparr>pt_x = pt_x (hd (body g)) + dx g, pt_y = pt_y (hd (body g)) + dy g\<rparr>"

text \<open>The game a player expects: the body moves one step, and grows when it eats, up to the longest snake.\<close>

definition moved :: "game \<Rightarrow> pt list" where
  "moved g = new_head g # (if new_head g = food g \<and> slen g < MAX_LEN then body g else butlast (body g))"

definition sized :: "game \<Rightarrow> bool" where
  "sized g \<longleftrightarrow> length (snake g) = MAX_LEN \<and> 3 \<le> slen g \<and> slen g \<le> MAX_LEN"

lemma body_hd: "sized g \<Longrightarrow> hd (body g) = snake g ! 0"
  by (cases "snake g") (auto simp: body_def sized_def MAX_LEN_def hd_conv_nth)

lemma body_last: "sized g \<Longrightarrow> snake g ! (slen g - 1) = last (body g)"
  by (subst last_conv_nth) (auto simp: body_def sized_def MAX_LEN_def)

lemma body_length: "sized g \<Longrightarrow> length (body g) = slen g"
  by (simp add: body_def sized_def)

lemma body_butlast: "sized g \<Longrightarrow> butlast (body g) = take (slen g - 1) (snake g)"
  by (simp add: body_def sized_def butlast_take)

text \<open>The state after the body has moved and before the food is replaced.\<close>

definition eat_draw :: "game \<Rightarrow> game" where
  "eat_draw g =
     (let g' = vput (pt_x (new_head g)) (pt_y (new_head g)) 0x23 GREEN
                 (g\<lparr>snake := moved g @ drop (length (moved g)) (snake g), slen := length (moved g), score := score g + 1\<rparr>)
      in vnum 9 1 (score g + 1) WHITE (if speed g > 60 then g'\<lparr>speed := speed g - 4\<rparr> else g'))"

definition plain_draw :: "game \<Rightarrow> game" where
  "plain_draw g =
     vput (pt_x (new_head g)) (pt_y (new_head g)) 0x23 GREEN (vput (pt_x (last (body g))) (pt_y (last (body g))) 0x20 BLACK
       (g\<lparr>snake := moved g @ drop (length (moved g)) (snake g)\<rparr>))"

lemma shifted_moved:
  assumes s: "sized g" and n: "n = (if new_head g = food g \<and> slen g < MAX_LEN then slen g + 1 else slen g)"
  shows "(shift (n - 1) (snake g))[0 := new_head g] = moved g @ drop (length (moved g)) (snake g)" "n = length (moved g)"
proof -
  have "n - 1 < length (snake g)" "0 < n" using s n by (auto simp: sized_def MAX_LEN_def split: if_splits)
  moreover have "moved g = new_head g # take (n - 1) (snake g)"
    using s n by (auto simp: moved_def body_butlast) (simp add: body_def)
  ultimately show "(shift (n - 1) (snake g))[0 := new_head g] = moved g @ drop (length (moved g)) (snake g)" "n = length (moved g)"
    by (simp_all add: shift_list)
qed

lemma update_order:
  "g\<lparr>slen := a, snake := b\<rparr> = g\<lparr>snake := b, slen := a\<rparr>"
  "g\<lparr>cells := c, score := d\<rparr> = g\<lparr>score := d, cells := c\<rparr>"
  "g\<lparr>snake := b, slen := slen g\<rparr> = g\<lparr>snake := b\<rparr>"
  by simp_all

lemma move_eq:
  assumes s: "sized g"
  shows "move g =
    (if \<not> on_area (new_head g) \<or> new_head g \<in> set (butlast (body g)) then Some (False, g)
     else if new_head g = food g
     then do { g' \<leftarrow> place_food (eat_draw g); Some (True, vput (pt_x (food g')) (pt_y (food g')) 0x2A RED g') }
     else Some (True, plain_draw g))"
proof -
  have nh: "\<lparr>pt_x = pt_x (snake g ! 0) + dx g, pt_y = pt_y (snake g ! 0) + dy g\<rparr> = new_head g"
    using s by (simp add: new_head_def body_hd)
  have wall: "pt_x (new_head g) < PX \<or> pt_x (new_head g) \<ge> PX + PW \<or> pt_y (new_head g) < PY \<or> pt_y (new_head g) \<ge> PY + PH
      \<longleftrightarrow> \<not> on_area (new_head g)"
    by (auto simp: on_area_def)
  have dead: "hits (snake g) (slen g - 1) (new_head g) \<longleftrightarrow> new_head g \<in> set (butlast (body g))"
    using s by (subst hits_iff) (auto simp: sized_def body_butlast)
  have ate: "pt_x (new_head g) = pt_x (food g) \<and> pt_y (new_head g) = pt_y (food g) \<longleftrightarrow> new_head g = food g"
    by auto
  note sh = shifted_moved(1) [OF s refl] shifted_moved(2) [OF s refl, symmetric]
  show ?thesis
  proof (cases "new_head g = food g")
    case True
    then show ?thesis
      unfolding move_def Let_def nh wall dead ate eat_draw_def
      using sh by (cases "slen g < MAX_LEN"; cases "60 < speed g") (simp_all add: body_last [OF s] vput_def update_order)
  next
    case False
    then show ?thesis
      unfolding move_def Let_def nh wall dead ate plain_draw_def
      using sh body_last [OF s] by auto
  qed
qed

section \<open>The invariant\<close>

definition linked :: "pt list \<Rightarrow> bool" where
  "linked = successively (\<lambda>p q. \<bar>pt_x p - pt_x q\<bar> + \<bar>pt_y p - pt_y q\<bar> = 1)"

definition shown :: "game \<Rightarrow> bool" where
  "shown g \<longleftrightarrow> (\<forall>p. on_area p \<longrightarrow> shown_at g p =
     (if p \<in> set (body g) then 0x23 else if p = food g then 0x2A else 0x20))"

definition steering :: "game \<Rightarrow> bool" where
  "steering g \<longleftrightarrow> (dx g, dy g) \<in> {(1, 0), (-1, 0), (0, 1), (0, -1)}"

definition game_inv :: "game \<Rightarrow> bool" where
  "game_inv g \<longleftrightarrow> sized g \<and> (\<forall>p \<in> set (body g). on_area p) \<and> distinct (body g) \<and> linked (body g)
     \<and> on_area (food g) \<and> food g \<notin> set (body g) \<and> seed g \<noteq> 0 \<and> steering g
     \<and> (slen g = MAX_LEN \<or> slen g = 3 + unat (score g)) \<and> (slen g < MAX_LEN \<longrightarrow> shown g)
     \<and> unat (speed g) mod 4 = 2 \<and> 58 \<le> unat (speed g) \<and> unat (speed g) \<le> 130"

lemma steering_turn: "steering g \<Longrightarrow> steering (turn key g)"
  unfolding turn_def Let_def by (auto simp: steering_def)

lemma turn_frame: "turn key g = g\<lparr>dx := dx (turn key g), dy := dy (turn key g)\<rparr>"
  by (simp add: turn_def Let_def)

lemma shown_at_cells: "cells g = cells h \<Longrightarrow> shown_at g p = shown_at h p"
  by (simp add: shown_at_def)

lemma body_snake: "snake g = snake h \<Longrightarrow> slen g = slen h \<Longrightarrow> body g = body h"
  by (simp add: body_def)

lemma game_inv_turn: "game_inv g \<Longrightarrow> game_inv (turn key g)"
proof -
  assume i: "game_inv g"
  obtain a b where t: "turn key g = g\<lparr>dx := a, dy := b\<rparr>" using turn_frame by metis
  have "steering (g\<lparr>dx := a, dy := b\<rparr>)" using steering_turn [of g key] i by (simp add: t game_inv_def)
  moreover have "shown (g\<lparr>dx := a, dy := b\<rparr>) \<longleftrightarrow> shown g" "body (g\<lparr>dx := a, dy := b\<rparr>) = body g"
    "sized (g\<lparr>dx := a, dy := b\<rparr>) \<longleftrightarrow> sized g"
    by (simp_all add: shown_def shown_at_def body_def sized_def)
  ultimately show ?thesis using i by (simp add: t game_inv_def)
qed

lemma new_head_linked:
  assumes "game_inv g"
  shows "linked (new_head g # body g)"
proof -
  obtain p ps where "body g = p # ps" using assms by (cases "body g") (auto simp: game_inv_def sized_def body_def MAX_LEN_def)
  moreover have "linked (body g)" "steering g" using assms by (simp_all add: game_inv_def)
  ultimately show ?thesis by (auto simp: linked_def steering_def new_head_def)
qed

lemma linked_butlast: "linked (p # xs) \<Longrightarrow> linked (p # butlast xs)"
proof (cases "xs = []")
  case False
  assume "linked (p # xs)"
  moreover have "p # xs = (p # butlast xs) @ [last xs]" using False by simp
  ultimately have "linked ((p # butlast xs) @ [last xs])" by simp
  then show ?thesis unfolding linked_def successively_append_iff by blast
qed simp

lemma linked_moved: "game_inv g \<Longrightarrow> linked (moved g)"
  using new_head_linked [of g] linked_butlast [of "new_head g" "body g"] unfolding moved_def
  by (simp only: split: if_split) blast

text \<open>The last of a body without repetition is not in the rest.\<close>

lemma last_not_butlast: "distinct xs \<Longrightarrow> xs \<noteq> [] \<Longrightarrow> last xs \<notin> set (butlast xs)"
  by (metis append_butlast_last_id distinct_append list.set_intros(1) disjoint_iff)

lemma set_butlast_last: "xs \<noteq> [] \<Longrightarrow> set xs = insert (last xs) (set (butlast xs))"
  by (metis append_butlast_last_id list.set(1) list.set(2) set_append Un_insert_right sup_bot_right)

lemma moved_body:
  assumes "sized g" "snake h = moved g @ drop (length (moved g)) (snake g)" "slen h = length (moved g)"
  shows "body h = moved g" "sized h"
  using assms body_length [OF assms(1)] by (auto simp: body_def sized_def moved_def)

lemma point_eq: "pt_x p = pt_x q \<and> pt_y p = pt_y q \<longleftrightarrow> p = q" for p q :: pt
  by auto

lemma plain_draw_inv:
  assumes i: "game_inv g" and a: "on_area (new_head g)" "new_head g \<notin> set (butlast (body g))" "new_head g \<noteq> food g"
  shows "game_inv (plain_draw g)" "body (plain_draw g) = moved g" "outside_same h (plain_draw g) \<longleftrightarrow> outside_same h g"
proof -
  let ?h = "plain_draw g" and ?t = "last (body g)"
  have s: "sized g" and d: "distinct (body g)" and ba: "\<forall>p \<in> set (body g). on_area p"
    using i by (simp_all add: game_inv_def)
  have ne: "body g \<noteq> []" using s by (auto simp: body_def sized_def MAX_LEN_def)
  have m: "moved g = new_head g # butlast (body g)" using a(3) by (simp add: moved_def)
  have lm: "length (moved g) = slen g" using s ne by (simp add: m body_length) (simp add: sized_def)
  have fr: "snake ?h = moved g @ drop (length (moved g)) (snake g)" "slen ?h = length (moved g)" "food ?h = food g"
    "score ?h = score g" "seed ?h = seed g" "speed ?h = speed g" "dx ?h = dx g" "dy ?h = dy g"
    by (simp_all add: plain_draw_def lm)
  show b: "body ?h = moved g" using moved_body [OF s fr(1,2)] by simp
  have ta: "on_area ?t" using ba ne by simp
  have "?t \<notin> set (butlast (body g))" by (rule last_not_butlast [OF d ne])
  moreover have "shown_at ?h p = (if p = new_head g then 0x23 else if p = ?t then 0x20 else shown_at g p)"
    if "on_area p" for p
    using that shown_at_cells [of "g\<lparr>snake := moved g @ drop (length (moved g)) (snake g)\<rparr>" g p]
    unfolding plain_draw_def by (simp add: shown_vput area_columns a(1) ta point_eq)
  moreover have "?t \<noteq> food g" using i last_in_set [OF ne] by (auto simp: game_inv_def)
  ultimately have "shown ?h" if "shown g"
    using that a(3) unfolding shown_def b m fr set_butlast_last [OF ne] by simp
  moreover have "\<forall>p \<in> set (moved g). on_area p" "distinct (moved g)" "food g \<notin> set (moved g)"
    using ba a d i unfolding m by (auto simp: distinct_butlast game_inv_def dest: in_set_butlastD)
  moreover have "sized ?h" "steering ?h \<longleftrightarrow> steering g" using moved_body [OF s fr(1,2)] by (simp_all add: steering_def fr)
  moreover have "slen ?h = slen g" by (simp only: fr lm)
  ultimately show "game_inv ?h"
    using i linked_moved [OF i] unfolding game_inv_def b fr(3-8) by (simp only: simp_thms) fast
  have col: "0 \<le> pt_y p \<and> pt_y p < 25" if "on_area p" for p using that by (simp add: area_defs)
  show "outside_same h ?h \<longleftrightarrow> outside_same h g"
    using col [OF ta] col [OF a(1)]
    by (simp add: plain_draw_def outside_vput area_columns ta a(1)) (simp add: outside_same_def)
qed

lemma speed_step: "60 < n \<Longrightarrow> n mod 4 = 2 \<Longrightarrow> (n - 4) mod 4 = 2 \<and> 58 \<le> n - 4" for n :: nat
proof -
  assume a: "60 < n" "n mod 4 = 2"
  have n: "n = 4 * (n div 4) + 2" using div_mult_mod_eq [of n 4] a(2) by linarith
  then have k: "15 \<le> n div 4" using a(1) by linarith
  have m: "n - 4 = 4 * (n div 4 - 1) + 2" using n k by linarith
  have "(4 * (n div 4 - 1) + 2) mod 4 = 2" by (subst mod_mult_self4) simp
  then have "(n - 4) mod 4 = 2" using m by metis
  then show ?thesis using k m by linarith
qed

lemma eat_draw_inv:
  assumes i: "game_inv g" and a: "on_area (new_head g)" "new_head g \<notin> set (butlast (body g))" "new_head g = food g"
    and p: "place_food (eat_draw g) = Some h0"
    and h: "h = vput (pt_x (food h0)) (pt_y (food h0)) 0x2A RED h0"
  shows "game_inv h" "body h = moved g" "outside_same k h \<longleftrightarrow> outside_same k g"
proof -
  let ?e = "eat_draw g"
  have s: "sized g" and d: "distinct (body g)" and ba: "\<forall>p \<in> set (body g). on_area p"
    using i by (simp_all add: game_inv_def)
  have fe: "snake ?e = moved g @ drop (length (moved g)) (snake g)" "slen ?e = length (moved g)"
    "score ?e = score g + 1" "seed ?e = seed g" "speed ?e = (if speed g > 60 then speed g - 4 else speed g)"
    "dx ?e = dx g" "dy ?e = dy g"
    by (simp_all add: eat_draw_def Let_def)
  note be = moved_body [OF s fe(1,2)]
  have "slen ?e \<le> length (snake ?e)" using be(2) by (simp add: sized_def)
  note pf = place_food_result [OF p this]
  obtain q z where h0: "h0 = ?e\<lparr>food := q, seed := z\<rparr>" using pf by metis
  have f: "food h = food h0" "snake h = snake ?e" "slen h = slen ?e" "score h = score g + 1" "seed h = seed h0"
    "speed h = speed ?e" "dx h = dx g" "dy h = dy g"
    by (simp_all add: h h0 fe)
  show b: "body h = moved g" using be(1) body_snake [OF f(2,3)] by simp
  have sz: "sized h" using be(2) by (simp add: sized_def f)
  have qa: "on_area (food h)" "food h \<notin> set (moved g)" "seed h \<noteq> 0"
    using pf be(1) i by (simp_all add: f body_def fe game_inv_def)
  have nb: "new_head g \<notin> set (body g)" using i a(3) by (simp add: game_inv_def)
  have mv: "distinct (moved g)" "\<forall>p \<in> set (moved g). on_area p"
    using nb d ba a by (auto simp: moved_def distinct_butlast dest: in_set_butlastD)
  have len: "slen h = MAX_LEN \<or> slen h = 3 + unat (score h)" "slen h < MAX_LEN \<Longrightarrow> slen g < MAX_LEN"
  proof -
    have "slen h = (if slen g < MAX_LEN then slen g + 1 else slen g)"
      using s a(3) body_length [OF s] by (simp add: f fe moved_def) (simp add: sized_def)
    moreover have "unat (score g + 1) = unat (score g) + 1" if "slen g < MAX_LEN"
      using that i by (intro unat_plus_one) (auto simp: game_inv_def MAX_LEN_def)
    ultimately show "slen h = MAX_LEN \<or> slen h = 3 + unat (score h)" "slen h < MAX_LEN \<Longrightarrow> slen g < MAX_LEN"
      using i s by (auto simp: game_inv_def sized_def f split: if_splits)
  qed
  have se: "shown_at ?e p = (if p = new_head g then 0x23 else shown_at g p)" if "on_area p" for p
  proof -
    have speed_shown: "shown_at (g'\<lparr>speed := z\<rparr>) p = shown_at g' p" for g' z by (simp add: shown_at_def)
    have v: "shown_at (vnum 9 1 n WHITE g') p = shown_at g' p" for n g'
      using vnum_screen [of 9 1 _ n WHITE g' p] that by (simp add: PY_def)
    have "shown_at (g\<lparr>snake := moved g @ drop (length (moved g)) (snake g), slen := length (moved g), score := score g + 1\<rparr>) p
        = shown_at g p" by (simp add: shown_at_def)
    then show ?thesis unfolding eat_draw_def Let_def v
      using that by (cases "60 < speed g") (simp_all add: speed_shown shown_vput area_columns a(1) point_eq)
  qed
  have sh: "shown h" if "slen h < MAX_LEN"
  proof -
    have "shown g" "moved g = new_head g # body g" using len(2) [OF that] i a(3) by (auto simp: game_inv_def moved_def)
    moreover have "shown_at h p = (if p = food h then 0x2A else shown_at ?e p)" if "on_area p" for p
      using that qa(1) shown_at_cells [of h0 ?e p] unfolding h by (simp add: shown_vput area_columns point_eq f h0)
    ultimately show ?thesis using qa(2) se a(3) unfolding shown_def b by auto
  qed
  have sp: "unat (speed h) mod 4 = 2 \<and> 58 \<le> unat (speed h) \<and> unat (speed h) \<le> 130"
  proof (cases "speed g > 60")
    case True
    then have "60 < unat (speed g)" by (simp add: word_less_nat_alt)
    moreover have "unat (speed g) mod 4 = 2" "unat (speed g) \<le> 130" using i by (simp_all add: game_inv_def)
    moreover have "unat (speed g - 4) = unat (speed g) - 4"
      using \<open>60 < unat (speed g)\<close> by (subst unat_sub) (simp_all add: word_le_nat_alt)
    ultimately show ?thesis using True unfolding f fe by (simp add: speed_step)
  next
    case False
    then show ?thesis using i by (simp add: f fe game_inv_def)
  qed
  show "game_inv h"
    using i sz mv qa len(1) sh sp linked_moved [OF i] unfolding game_inv_def b by (auto simp: f steering_def)
  have o: "outside_same k ?e \<longleftrightarrow> outside_same k g"
  proof -
    have v: "outside_same k (vnum 9 1 n WHITE g') \<longleftrightarrow> outside_same k g'" for n g'
      using vnum_screen [of 9 1 k n WHITE g' "food g"] by simp
    have spd: "outside_same k (g'\<lparr>speed := z\<rparr>) \<longleftrightarrow> outside_same k g'" for g' z by (simp add: outside_same_def)
    have "0 \<le> pt_y (new_head g)" "pt_y (new_head g) < 25" using a(1) by (simp_all add: area_defs)
    then show ?thesis unfolding eat_draw_def Let_def v
      using outside_vput [of "pt_x (new_head g)" "pt_y (new_head g)" k "0x23" GREEN
          "g\<lparr>snake := moved g @ drop (length (moved g)) (snake g), slen := length (moved g), score := score g + 1\<rparr>"]
      by (cases "60 < speed g") (simp_all add: area_columns a(1) spd, simp_all add: outside_same_def)
  qed
  have "0 \<le> pt_y (food h0)" "pt_y (food h0) < 25" "0 \<le> pt_x (food h0)" "pt_x (food h0) < 80"
    using qa(1) by (simp_all add: area_defs f)
  then show "outside_same k h \<longleftrightarrow> outside_same k g"
    using o unfolding h by (simp add: outside_vput) (simp add: outside_same_def h0)
qed

section \<open>Reachable games\<close>

lemma move_inv:
  assumes i: "game_inv g" and m: "move g = Some (go, g')"
  shows "game_inv g'" "outside_same h g' \<longleftrightarrow> outside_same h g"
    "if go then on_area (new_head g) \<and> new_head g \<notin> set (butlast (body g)) \<and> body g' = moved g
     else g' = g \<and> (on_area (new_head g) \<longrightarrow> new_head g \<in> set (butlast (body g)))"
proof -
  have "sized g" using i by (simp add: game_inv_def)
  note m = m [unfolded move_eq [OF this]]
  have "game_inv g' \<and> (outside_same h g' \<longleftrightarrow> outside_same h g) \<and>
    (if go then on_area (new_head g) \<and> new_head g \<notin> set (butlast (body g)) \<and> body g' = moved g
     else g' = g \<and> (on_area (new_head g) \<longrightarrow> new_head g \<in> set (butlast (body g))))"
  proof (cases "\<not> on_area (new_head g) \<or> new_head g \<in> set (butlast (body g))")
    case True
    then show ?thesis using m i by auto
  next
    case go: False
    show ?thesis
    proof (cases "new_head g = food g")
      case True
      then obtain h0 where "place_food (eat_draw g) = Some h0" "g' = vput (pt_x (food h0)) (pt_y (food h0)) 0x2A RED h0" "go"
        using m go by (auto split: bind_splits)
      then show ?thesis using eat_draw_inv [OF i _ _ True] go by simp
    next
      case False
      then have "g' = plain_draw g" "go" using m go by auto
      then show ?thesis using plain_draw_inv [OF i _ _ False] go by simp
    qed
  qed
  then show "game_inv g'" "outside_same h g' \<longleftrightarrow> outside_same h g"
    "if go then on_area (new_head g) \<and> new_head g \<notin> set (butlast (body g)) \<and> body g' = moved g
     else g' = g \<and> (on_area (new_head g) \<longrightarrow> new_head g \<in> set (butlast (body g)))"
    by blast+
qed

text \<open>The games that follow one another from the text memory of \<open>g0\<close>: a start, then keys and ticks.\<close>

inductive reach :: "game \<Rightarrow> game \<Rightarrow> bool" for g0 where
  reach_start: "start g0 = Some g \<Longrightarrow> reach g0 g"
| reach_turn: "reach g0 g \<Longrightarrow> reach g0 (turn key g)"
| reach_move: "reach g0 g \<Longrightarrow> move g = Some (go, g') \<Longrightarrow> reach g0 g'"

text \<open>The static variables as the program is loaded.\<close>

definition loaded :: "game \<Rightarrow> bool" where
  "loaded g \<longleftrightarrow> length (snake g) = MAX_LEN \<and> seed g = 0xDEADBEEF"

lemma start_inv:
  assumes l: "loaded g0" and st: "start g0 = Some g"
  shows "game_inv g" "outside_same g0 g" "dx g = 1 \<and> dy g = 0"
    "body g = [\<lparr>pt_x = 40, pt_y = 12\<rparr>, \<lparr>pt_x = 39, pt_y = 12\<rparr>, \<lparr>pt_x = 38, pt_y = 12\<rparr>]"
proof -
  define c where "c = draw_border (vstr 30 1 (str ''WASD: move  Q: quit'') GRAY
     (vstr 2 1 (str ''Score:'') WHITE (vstr 36 0 (str ''SNAKE'') YELLOW (vclear g0))))"
  define ps where "ps = [\<lparr>pt_x = 40, pt_y = 12\<rparr>, \<lparr>pt_x = 39, pt_y = 12\<rparr>, \<lparr>pt_x = 38, pt_y = 12\<rparr>]"
  define f where "f = c\<lparr>snake := ps @ drop 3 (snake g0), slen := 3, dx := 1, dy := 0, score := 0\<rparr>"
  define d where "d = draw_snake ps f"
  obtain a b r where "snake g0 = a # b # r # drop 3 (snake g0)" and ln: "length (drop 3 (snake g0)) = 509"
  proof -
    have "3 \<le> length (snake g0)" using l by (simp add: loaded_def MAX_LEN_def)
    then obtain a b r xs where "snake g0 = a # b # r # xs"
      by (metis One_nat_def Suc_1 Suc_le_length_iff numeral_3_eq_3)
    then show thesis using l that by (simp add: loaded_def MAX_LEN_def)
  qed
  then have "(snake g0)[0 := \<lparr>pt_x = 40, pt_y = 12\<rparr>, 1 := \<lparr>pt_x = 39, pt_y = 12\<rparr>, 2 := \<lparr>pt_x = 38, pt_y = 12\<rparr>] = ps @ drop 3 (snake g0)"
    by (metis append_Cons append_Nil list_update_code(2,3) One_nat_def Suc_1 ps_def)
  then have f': "c\<lparr>snake := (snake c)[0 := \<lparr>pt_x = 40, pt_y = 12\<rparr>, 1 := \<lparr>pt_x = 40 - 1, pt_y = 12\<rparr>, 2 := \<lparr>pt_x = 40 - 2, pt_y = 12\<rparr>],
      slen := 3, dx := 1, dy := 0, score := 0\<rparr> = f"
    by (simp add: f_def c_def)
  have cx: "PX + PW div 2 = 40" "PY + PH div 2 = 12" by (simp_all add: PX_def PW_def PY_def PH_def)
  have tk: "take 3 (snake f) = ps" by (simp add: f_def ps_def)
  obtain h where pf: "place_food d = Some h"
    and g: "g = (vnum 9 1 0 WHITE (vput (pt_x (food h)) (pt_y (food h)) 0x2A RED h))\<lparr>speed := 130\<rparr>"
    using st unfolding start_def Let_def cx c_def [symmetric] f' tk d_def [symmetric]
    by (auto split: bind_splits)
  have fd: "snake d = ps @ drop 3 (snake g0)" "slen d = 3" "dx d = 1" "dy d = 0" "score d = 0" "seed d = 0xDEADBEEF"
    using l by (simp_all add: d_def f_def c_def loaded_def)
  have "slen d \<le> length (snake d)" by (simp add: fd ps_def)
  note pr = place_food_result [OF pf this]
  obtain q z where h: "h = d\<lparr>food := q, seed := z\<rparr>" using pr by metis
  have fg: "snake g = ps @ drop 3 (snake g0)" "slen g = 3" "dx g = 1" "dy g = 0" "score g = 0" "seed g = seed h"
    "food g = food h" "speed g = 130"
    by (simp_all add: g h fd)
  then show "dx g = 1 \<and> dy g = 0" by simp
  have bg: "body g = ps" by (simp add: body_def fg ps_def)
  then show "body g = [\<lparr>pt_x = 40, pt_y = 12\<rparr>, \<lparr>pt_x = 39, pt_y = 12\<rparr>, \<lparr>pt_x = 38, pt_y = 12\<rparr>]" by (simp add: ps_def)
  have pa: "\<forall>p \<in> set ps. on_area p" by (simp add: ps_def area_defs)
  have fo: "on_area (food h)" "food h \<notin> set ps" "seed h \<noteq> 0" using pr by (simp_all add: fd ps_def)
  have sc: "shown_at c p = 0x20" if "on_area p" for p
  proof -
    have "0 \<le> pt_y p * VGA_W + pt_x p \<and> pt_y p * VGA_W + pt_x p < VGA_W * VGA_H"
      using that by (simp add: area_defs VGA_W_def VGA_H_def)
    then have "shown_at (vclear g0) p = 0x20" by (simp add: shown_at_def vclear_def cell_char WHITE_def)
    then show ?thesis
      using vstr_screen [of 36 "str ''SNAKE''" 0 g0 YELLOW "vclear g0" p] that
        vstr_screen [of 2 "str ''Score:''" 1 g0 WHITE _ p]
        vstr_screen [of 30 "str ''WASD: move  Q: quit''" 1 g0 GRAY _ p]
      by (simp add: c_def border_screen PY_def str_def)
  qed
  have sd: "shown_at d p = (if p \<in> set ps then 0x23 else 0x20)" if "on_area p" for p
    using sc [OF that] shown_at_cells [of f c p] that pa point_eq [of p]
    by (auto simp: d_def ps_def shown_vput area_columns f_def)
  have "shown_at g p = (if p = food g then 0x2A else shown_at d p)" if "on_area p" for p
  proof -
    have "shown_at g p = shown_at (vput (pt_x (food h)) (pt_y (food h)) 0x2A RED h) p"
      using vnum_screen [where x = 9 and y = 1 and h = g0 and n = 0 and col = WHITE and p = p and g = "vput (pt_x (food h)) (pt_y (food h)) 0x2A RED h"] that
      by (simp add: PY_def g shown_at_def)
    then show ?thesis using that fo(1) shown_at_cells [of h d p]
      by (simp add: shown_vput area_columns point_eq fg) (simp add: h)
  qed
  then have "shown g" using sd fo(2) by (auto simp: shown_def bg fg)
  moreover have "linked ps" "distinct ps" by (simp_all add: ps_def linked_def)
  ultimately show "game_inv g"
    using fo pa ln by (simp add: game_inv_def sized_def fg bg steering_def MAX_LEN_def) (simp add: ps_def)
  have "0 \<le> pt_y (food h)" "pt_y (food h) < 25" using fo(1) by (simp_all add: area_defs)
  then have "outside_same g0 g \<longleftrightarrow> outside_same g0 d"
    using vnum_screen [where x = 9 and y = 1 and h = g0 and n = 0 and col = WHITE and p = q and g = "vput (pt_x (food h)) (pt_y (food h)) 0x2A RED h"] fo(1)
      outside_vput [of "pt_x (food h)" "pt_y (food h)" g0 "0x2A" RED h]
    by (simp add: area_columns) (simp add: outside_same_def g h)
  also have "\<dots> \<longleftrightarrow> outside_same g0 f"
    using outside_vput [of 40 12 g0] outside_vput [of 39 12 g0] outside_vput [of 38 12 g0] by (simp add: d_def ps_def)
  also have "\<dots> \<longleftrightarrow> outside_same g0 c" by (simp add: f_def outside_same_def)
  also have "\<dots> \<longleftrightarrow> outside_same g0 (vclear g0)"
    using vstr_screen [of 36 "str ''SNAKE''" 0 g0 YELLOW "vclear g0" q]
        vstr_screen [of 2 "str ''Score:''" 1 g0 WHITE _ q]
        vstr_screen [of 30 "str ''WASD: move  Q: quit''" 1 g0 GRAY _ q]
    by (simp add: c_def border_screen str_def)
  finally show "outside_same g0 g" by (simp add: outside_same_def vclear_def)
qed

lemma reach_inv:
  assumes "loaded g0" "reach g0 g"
  shows "game_inv g \<and> outside_same g0 g"
  using assms(2)
proof induction
  case (reach_turn g key)
  have "outside_same g0 (turn key g) \<longleftrightarrow> outside_same g0 g" by (simp add: outside_same_def turn_def Let_def)
  then show ?case using reach_turn game_inv_turn by blast
next
  case (reach_move g go g')
  then show ?case using move_inv(1,2) by blast
qed (use start_inv [OF assms(1)] in auto)

lemma drain_reach: "drain k g e = Some (r, e') \<Longrightarrow> reach g0 g \<Longrightarrow> case r of None \<Rightarrow> True | Some g' \<Rightarrow> reach g0 g'"
proof (rule drain.raw_induct [where P = "\<lambda>k g e (r, e'). reach g0 g \<longrightarrow> (case r of None \<Rightarrow> True | Some g' \<Rightarrow> reach g0 g')",
      THEN case_prodD, THEN mp])
  fix dr and k :: "'a sys" and g e y
  assume IH: "\<And>k g e y. dr k g e = Some y \<Longrightarrow> case y of (r, e') \<Rightarrow> reach g0 g \<longrightarrow> (case r of None \<Rightarrow> True | Some g' \<Rightarrow> reach g0 g')"
    and e: "(let (key, e) = sys_readkey k e in if key = 0 then Some (Some g, e)
      else if key = 0x71 \<or> key = 0x51 then Some (None, e) else dr k (turn key g) e) = Some y"
  obtain key e1 where k: "sys_readkey k e = (key, e1)" by force
  show "case y of (r, e') \<Rightarrow> reach g0 g \<longrightarrow> (case r of None \<Rightarrow> True | Some g' \<Rightarrow> reach g0 g')"
    using e IH [of k "turn key g" e1 y] reach_turn [of g0 g key] by (auto simp: k split: if_splits)
qed assumption+

lemma play_reach:
  "play k g e = Some (r, e') \<Longrightarrow> reach g0 g \<Longrightarrow>
    case r of None \<Rightarrow> True | Some g' \<Rightarrow> reach g0 g' \<and> (\<exists>h. reach g0 h \<and> move h = Some (False, g'))"
proof (rule play.raw_induct [where P = "\<lambda>k g e (r, e'). reach g0 g \<longrightarrow>
        (case r of None \<Rightarrow> True | Some g' \<Rightarrow> reach g0 g' \<and> (\<exists>h. reach g0 h \<and> move h = Some (False, g')))",
      THEN case_prodD, THEN mp])
  fix pl and k :: "'a sys" and g e y
  assume IH: "\<And>k g e y. pl k g e = Some y \<Longrightarrow> case y of (r, e') \<Rightarrow> reach g0 g \<longrightarrow>
        (case r of None \<Rightarrow> True | Some g' \<Rightarrow> reach g0 g' \<and> (\<exists>h. reach g0 h \<and> move h = Some (False, g')))"
    and e: "(let e = sys_sleep k (speed g) e in do { (r, e) \<leftarrow> drain k g e;
        case r of None \<Rightarrow> Some (None, e)
        | Some g \<Rightarrow> do { (go, g) \<leftarrow> move g; if go then pl k g e else Some (Some g, e) } }) = Some y"
  show "case y of (r, e') \<Rightarrow> reach g0 g \<longrightarrow>
        (case r of None \<Rightarrow> True | Some g' \<Rightarrow> reach g0 g' \<and> (\<exists>h. reach g0 h \<and> move h = Some (False, g')))"
  proof (cases y, clarify)
    fix r e' assume y: "y = (r, e')" and re: "reach g0 g"
    obtain r1 e1 where d: "drain k g (sys_sleep k (speed g) e) = Some (r1, e1)" using e by (auto split: bind_splits)
    show "case r of None \<Rightarrow> True | Some g' \<Rightarrow> reach g0 g' \<and> (\<exists>h. reach g0 h \<and> move h = Some (False, g'))"
    proof (cases r1)
      case None
      then show ?thesis using e d y by auto
    next
      case (Some g1)
      then have r1: "reach g0 g1" using drain_reach [OF d re] by simp
      obtain go g2 where m: "move g1 = Some (go, g2)" using e d Some by (auto split: bind_splits)
      have r2: "reach g0 g2" using reach_move [OF r1 m] .
      show ?thesis
      proof (cases go)
        case True
        then have "pl k g2 e1 = Some y" using e d Some m by simp
        then show ?thesis using IH r2 y by auto
      next
        case False
        then show ?thesis using e d Some m r1 r2 y by auto
      qed
    qed
  qed
qed assumption+

section \<open>Properties\<close>

text \<open>
  C30. However it is steered, the game keeps its invariant: the snake is a chain of neighbouring points of
  the play area that never crosses itself, of length 3 plus the score up to 512; the food lies on a free
  point; the seed never gets stuck at zero; the pause stays between 58 and 130 milliseconds; and, until
  the snake has its full length, the screen shows exactly the snake and the food. No cell outside
  the 80 by 25 of the text memory is ever written.
\<close>

theorem snake_invariant:
  assumes "loaded g0" "reach g0 g"
  shows "game_inv g \<and> outside_same g0 g"
  using reach_inv [OF assms] .

definition snake_demo :: game where
  "snake_demo = \<lparr>cells = (\<lambda>_. 0), snake = replicate 512 \<lparr>pt_x = 0, pt_y = 0\<rparr>, slen = 0, dx = 0, dy = 0,
     food = \<lparr>pt_x = 0, pt_y = 0\<rparr>, score = 0, seed = 0xDEADBEEF, speed = 0\<rparr>"

lemma demo_random: "xorshift 0xDEADBEEF = 0x477D20B7" "xorshift 0x477D20B7 = 0x8E1D9142"
  by (simp_all add: xorshift_def Let_def)


lemma demo_start: "\<exists>g. start snake_demo = Some g \<and> pt_y (food g) = 15"
proof -
  define c where "c = draw_border (vstr 30 1 (str ''WASD: move  Q: quit'') GRAY
     (vstr 2 1 (str ''Score:'') WHITE (vstr 36 0 (str ''SNAKE'') YELLOW (vclear snake_demo))))"
  have sc: "snake c = replicate 512 \<lparr>pt_x = 0, pt_y = 0\<rparr>" "seed c = 0xDEADBEEF" by (simp_all add: c_def snake_demo_def)
  define d where "d = draw_snake (take 3 (snake (c\<lparr>snake := (snake c)[0 := \<lparr>pt_x = PX + PW div 2, pt_y = PY + PH div 2\<rparr>,
      1 := \<lparr>pt_x = PX + PW div 2 - 1, pt_y = PY + PH div 2\<rparr>, 2 := \<lparr>pt_x = PX + PW div 2 - 2, pt_y = PY + PH div 2\<rparr>],
      slen := 3, dx := 1, dy := 0, score := 0\<rparr>))) (c\<lparr>snake := (snake c)[0 := \<lparr>pt_x = PX + PW div 2, pt_y = PY + PH div 2\<rparr>,
      1 := \<lparr>pt_x = PX + PW div 2 - 1, pt_y = PY + PH div 2\<rparr>, 2 := \<lparr>pt_x = PX + PW div 2 - 2, pt_y = PY + PH div 2\<rparr>],
      slen := 3, dx := 1, dy := 0, score := 0\<rparr>)"
  have fd: "seed d = 0xDEADBEEF" "slen d = 3" by (simp_all add: d_def sc)
  have "pt_y (snake d ! i) = 12" if "i < 3" for i
  proof -
    have "i = 0 \<or> i = 1 \<or> i = 2" using that by auto
    then show ?thesis by (auto simp: d_def sc PY_def PH_def nth_list_update)
  qed
  then have "\<not> hits (snake d) 3 \<lparr>pt_x = x, pt_y = 15\<rparr>" for x by (auto simp: hits_def list_ex_iff)
  moreover have "unat (0x8E1D9142 mod 21 :: u32) = 13" "0x8E1D9142 mod 21 = (13 :: u32)" by simp_all
  ultimately have "\<exists>g. place_food d = Some g \<and> pt_y (food g) = 15"
    by (subst place_food.simps) (simp add: rng_def Let_def demo_random fd PY_def)
  then show ?thesis unfolding start_def Let_def c_def [symmetric] d_def [symmetric] by auto
qed

lemma snake_invariant_witness:
  "\<exists>g. reach snake_demo (turn 0x77 g) \<and> game_inv (turn 0x77 g) \<and> dy (turn 0x77 g) = -1"
proof -
  obtain g where g: "start snake_demo = Some g" using demo_start by blast
  then have r: "reach snake_demo g" by (rule reach_start)
  have l: "loaded snake_demo" by (simp add: loaded_def snake_demo_def MAX_LEN_def)
  have "dy g = 0" using start_inv(3) [OF l g] by simp
  then show ?thesis using snake_invariant [OF l reach_turn [OF r, of "0x77"]] reach_turn [OF r, of "0x77"]
    by (auto simp: turn_def Let_def intro!: exI [of _ g])
qed


text \<open>
  Each tick plays the game a player expects. It ends exactly when the next point is off the play area or
  on the body, its last segment apart; otherwise the body moves to the next point, growing by one
  segment when it eats and is not at its full length, and it ends with the game as it was.
\<close>

theorem snake_tick:
  assumes "loaded g0" "reach g0 g" "move g = Some (go, g')"
  shows "(go \<longleftrightarrow> on_area (new_head g) \<and> new_head g \<notin> set (butlast (body g)))
    \<and> body g' = (if go then moved g else body g)
    \<and> (go \<longrightarrow> score g' = (if new_head g = food g then score g + 1 else score g))"
proof -
  have i: "game_inv g" using reach_inv [OF assms(1,2)] by simp
  then have s: "sized g" by (simp add: game_inv_def)
  have "score g' = (if new_head g = food g then score g + 1 else score g)" if go: go
  proof (cases "new_head g = food g")
    case True
    then obtain h0 where p: "place_food (eat_draw g) = Some h0" and g': "g' = vput (pt_x (food h0)) (pt_y (food h0)) 0x2A RED h0"
      using assms(3) go unfolding move_eq [OF s] by (auto split: if_splits bind_splits)
    have e: "slen (eat_draw g) = length (moved g)" "snake (eat_draw g) = moved g @ drop (length (moved g)) (snake g)"
      "score (eat_draw g) = score g + 1"
      by (simp_all add: eat_draw_def Let_def)
    have "slen (eat_draw g) \<le> length (snake (eat_draw g))" by (simp add: e)
    from place_food_result [OF p this] obtain q z where "h0 = (eat_draw g)\<lparr>food := q, seed := z\<rparr>" by metis
    then show ?thesis using True by (simp add: g' e)
  next
    case False
    then have "g' = plain_draw g" using assms(3) go unfolding move_eq [OF s] by (auto split: if_splits)
    then show ?thesis using False by (simp add: plain_draw_def)
  qed
  then show ?thesis using move_inv(3) [OF i assms(3)] by (cases go) auto
qed

lemma snake_tick_witness:
  "\<exists>g g'. reach snake_demo g \<and> move g = Some (True, g') \<and> body g' = moved g"
proof -
  obtain g where g: "start snake_demo = Some g" and f: "pt_y (food g) = 15" using demo_start by blast
  then have r: "reach snake_demo g" by (intro reach_start)
  have l: "loaded snake_demo" by (simp add: loaded_def snake_demo_def MAX_LEN_def)
  have s: "sized g" using start_inv(1) [OF l g] by (simp add: game_inv_def)
  note b = start_inv(4) [OF l g]
  have n: "new_head g = \<lparr>pt_x = 41, pt_y = 12\<rparr>" using start_inv(3) [OF l g] by (simp add: new_head_def b)
  have "pt_y (new_head g) = 12" by (simp add: n)
  then have "new_head g \<noteq> food g" using f by auto
  then have "move g = Some (True, plain_draw g)"
    unfolding move_eq [OF s] by (simp add: n b area_defs)
  then show ?thesis using snake_tick [OF l r, of True "plain_draw g"] r by auto
qed

text \<open>
  The program leaves its main loop for the end of game screen only from a reachable game in which the
  next tick was a crash; the screen it leaves is that game with the two messages on it.
\<close>

theorem snake_main_over:
  assumes "loaded g0" "snake_main k g0 e = Some (Some scr, e')"
  shows "\<exists>g. reach g0 g \<and> scr = game_over g \<and> \<not> (on_area (new_head g) \<and> new_head g \<notin> set (butlast (body g)))"
proof -
  obtain g r e1 where st: "start g0 = Some g" and pl: "play k g e = Some (r, e1)"
    using assms(2) by (auto simp: snake_main_def split: bind_splits)
  obtain g1 where r: "r = Some g1" and s: "scr = game_over g1"
    using assms(2) st pl by (cases r) (auto simp: snake_main_def split: bind_splits)
  obtain h where h: "reach g0 h" "move h = Some (False, g1)" and g1: "reach g0 g1"
    using play_reach [OF pl reach_start [OF st]] r by auto
  have i: "game_inv h" using reach_inv [OF assms(1) h(1)] by simp
  then show ?thesis using move_inv(3) [OF i h(2)] g1 s by auto
qed


text \<open>A player who turns twice within a tick runs into the own neck: up, then left, while heading right.\<close>

definition typed :: "bytes sys" where
  "typed = \<lparr>sys_readkey = (\<lambda>ks. (hd ks, tl ks)), sys_sleep = (\<lambda>_ ks. ks)\<rparr>"

lemma snake_main_over_witness:
  "\<exists>scr g. snake_main typed snake_demo [0x77, 0x61, 0, 0x71] = Some (Some scr, []) \<and> reach snake_demo g \<and> scr = game_over g"
proof -
  obtain g where g: "start snake_demo = Some g" using demo_start by blast
  have l: "loaded snake_demo" by (simp add: loaded_def snake_demo_def MAX_LEN_def)
  note b = start_inv(4) [OF l g] and d = start_inv(3) [OF l g]
  let ?h = "g\<lparr>dx := -1, dy := 0\<rparr>"
  have "turn 0x61 (turn 0x77 g) = ?h" using d by (simp add: turn_def Let_def)
  moreover have "drain typed g [0x77, 0x61, 0, 0x71] = Some (Some (turn 0x61 (turn 0x77 g)), [0x71])"
    by (simp add: typed_def drain.simps [of _ _ "_ # _"] Let_def)
  moreover have "move ?h = Some (False, ?h)"
  proof -
    have "sized ?h" using start_inv(1) [OF l g] by (simp add: game_inv_def sized_def)
    moreover have bh: "body ?h = body g" by (simp add: body_def)
    moreover have "new_head ?h \<in> set (butlast (body ?h))" unfolding new_head_def bh b by simp
    ultimately show ?thesis by (simp add: move_eq)
  qed
  ultimately have "play typed g [0x77, 0x61, 0, 0x71] = Some (Some ?h, [0x71])"
    by (subst play.simps) (simp add: typed_def)
  moreover have "wait_quit typed [0x71] = Some []" by (subst wait_quit.simps) (simp add: typed_def)
  ultimately have m: "snake_main typed snake_demo [0x77, 0x61, 0, 0x71] = Some (Some (game_over ?h), [])"
    by (simp add: snake_main_def g)
  then show ?thesis using snake_main_over [OF l m] m by blast
qed

end
