(* ===== verification/Spec2Isabelle.thy ===== *)
theory Spec2Isabelle
  imports Boot_Correct Cpu_Boot Echo Mkdir Snake
begin

text \<open>
  YOTOS, a small operating system for 32-bit x86: the kernel, its drivers, the FAT16 file system, the shell and
  the two user programs, as Isabelle definitions, with the theorems that make them correct.

  \<^bold>\<open>The program.\<close> \<^verbatim>\<open>kmain\<close> sets up the tables of the processor, the frame allocator, paging, the heap, the devices and the
  disk, and enters the shell. The shell reads lines from the keyboard or the serial port and runs commands on the
  file system; \<^verbatim>\<open>exec\<close> loads an ELF file into user pages and runs it in user mode, where it comes back to the kernel through
  \<^verbatim>\<open>int 0x80\<close> and the interrupts of timer and keyboard. One process runs at a time.

  \<^bold>\<open>The theories\<close>, from the ground up, with the files they model.
    \<^item> \<open>Yotos_Base\<close>: machine words, byte memory with its little-endian accesses, C strings; \<^verbatim>\<open>include/utils.h\<close>, \<^verbatim>\<open>memset\<close>.
    \<^item> \<open>Klibc_String\<close>: \<^verbatim>\<open>klibc/string.c\<close>.
    \<^item> \<open>Pmm\<close>: the bitmap of frames, \<^verbatim>\<open>kernel/pmm.c\<close>; the counter, the lowest free frame, the walk over the multiboot map. Locale
      \<open>bitmap\<close>.
    \<^item> \<open>Kheap\<close>, \<open>Kheap_Spec\<close>: the heap of \<^verbatim>\<open>kernel/kheap.c\<close> on bytes; refinement of a list of blocks, and the contract for clients, the
      set of pointers in use and the room each has. Locales \<open>header_store\<close>, \<open>allocator\<close>, \<open>sized_allocator\<close>.
    \<^item> \<open>Vmm\<close>, \<open>Uspace\<close>: \<^verbatim>\<open>kernel/vmm.c\<close> on physical memory and the two-level page walk through the recursive window; bytes of virtual
      memory and the contract of a set of mapped pages. Locales \<open>page_store\<close>, \<open>address_space\<close>.
    \<^item> \<open>Fat16_Disk\<close>, \<open>Fat16_Dir\<close>, \<open>Fat16\<close>, \<open>Fat16_Correct\<close>: \<^verbatim>\<open>fs/fat16.c\<close> in layers: sectors, layout and table; names, entries and
      directories; the callbacks; what they promise. Locale \<open>fat_table\<close>.
    \<^item> \<open>Vfs\<close>, \<open>Vfs_Correct\<close>: \<^verbatim>\<open>fs/vfs.c\<close>: mount table, dispatch, path resolution against the tree on the volume.
    \<^item> \<open>Io\<close>, \<open>Ata\<close>, \<open>Vga\<close>, \<open>Stdio\<close>, \<open>Irq\<close>: \<^verbatim>\<open>include/io.h\<close> and what is built on it, \<^verbatim>\<open>drivers/ata.c\<close>, \<^verbatim>\<open>drivers/vga.c\<close>, \<^verbatim>\<open>drivers/uart.c\<close>,
      \<^verbatim>\<open>klibc/stdio.c\<close>, \<^verbatim>\<open>kernel/irq.c\<close>.
    \<^item> \<open>Machine\<close>: the state of the running kernel, the record \<open>kernel\<close>: one field for the state of each part, so that parts which call one
      another share it. The operations of a part are lifted to it (\<open>on_files\<close>, \<open>on_vmem\<close>, \<open>on_wire\<close>, \<open>on_vga\<close>).
    \<^item> \<open>Elf\<close>, \<open>Elf_Correct\<close>, \<open>Process\<close>: \<^verbatim>\<open>kernel/elf.c\<close>, \<^verbatim>\<open>kernel/process.c\<close>: loading, stack, running, ending, freeing. Locale \<open>readable\<close>.
    \<^item> \<open>Keyboard\<close>, \<open>Timer\<close>: \<^verbatim>\<open>drivers/keyboard.c\<close> with its ring (locale \<open>fifo\<close>), \<^verbatim>\<open>drivers/timer.c\<close>, and an interrupt from vector to
      handler to end of interrupt.
    \<^item> \<open>Descriptors\<close>: \<^verbatim>\<open>kernel/gdt.c\<close>, \<^verbatim>\<open>kernel/tss.c\<close>, \<^verbatim>\<open>kernel/idt.c\<close>, read back the way the processor reads them.
    \<^item> \<open>Syscall\<close>: \<^verbatim>\<open>kernel/syscall.c\<close>, \<^verbatim>\<open>kernel/isrs.c\<close>, \<^verbatim>\<open>user/hello.c\<close>.
    \<^item> \<open>Path\<close>, \<open>Builtins\<close>, \<open>Builtins_Correct\<close>, \<open>Echo\<close>, \<open>Listing\<close>, \<open>Mkdir\<close>, \<open>Exec\<close>, \<open>Shell\<close>: \<^verbatim>\<open>shell/builtins.c\<close>, \<^verbatim>\<open>shell/shell.c\<close>; \<open>Echo\<close> proves what
      the writes of \<^verbatim>\<open>echo\<close> leave in a file, \<open>Listing\<close> what \<^verbatim>\<open>ls\<close> shows, \<open>Mkdir\<close> that a directory just made is empty, and \<open>Exec\<close> a program's life from the command line to the
      last page given back.
    \<^item> \<open>Boot\<close>, \<open>Boot_Correct\<close>: \<^verbatim>\<open>kernel/kernel.c\<close> and \<^verbatim>\<open>kheap_init\<close>; start-up brings memory into the state the contracts above ask for.
    \<^item> \<open>Snake\<close>: \<^verbatim>\<open>user/snake.c\<close>, with the invariant of the game over its steps.
    \<^item> \<open>Cpu\<close>, \<open>Cpu_Asm\<close>: the processor, with its checks on selectors, its gates and \<^verbatim>\<open>iret\<close>, and every routine of \<^verbatim>\<open>kernel/cpu.asm\<close>,
      \<^verbatim>\<open>kernel/kernel_entry.asm\<close> and \<^verbatim>\<open>boot/boot.asm\<close> as a list of instructions. \<open>Cpu_Stack\<close>, \<open>Cpu_Frame\<close>, \<open>Cpu_Correct\<close>: words on the stack, the frame of
      \<^verbatim>\<open>include/regs.h\<close>, the way into a handler and back (locale \<open>c_handler\<close>). \<open>Cpu_Calls\<close>: interrupts, system calls, exceptions. \<open>Cpu_User\<close>: user mode and the
      return to \<^verbatim>\<open>process_run\<close>. \<open>Cpu_Boot\<close>: entry and tables.

  \<^bold>\<open>Conventions.\<close> Definitions carry the names of the source. Machine integers are words of their width; \<open>int\<close> and indices that cannot
  wrap are integers and naturals. A value \<open>None\<close> of an operation means that the code does not return from it or has no meaning:
  a fault of the kernel, a division by 0, an endless loop, a missing argument of \<^verbatim>\<open>printf\<close>. Errors the code reports are values, 0 or -1
  as in the source. Loops that may not end are \<open>partial_function\<close>s; a theorem about one says that it returns. There is
  no fuel but in \<open>map_kernel_from\<close> and \<open>kheap_pages\<close>, where it is the number of pages, and
  the counters of \<open>wait_drq_from\<close> and of copying loops, which are the code's own bounds.

  Hardware is a parameter: \<open>ports\<close> is how reading and writing a port acts on the state of the devices, and the theorems on the disk
  and the interrupt controllers name the documented behaviour they rely on (\<open>pio\<close>, \<open>mask_regs\<close>). The drive of \<open>pio\<close> loses what is sent or read too early, so that the driver's
  waits matter; \<open>quiet\<close> is the hypothesis that it shows neither DRQ nor ERR while busy, without which the driver reads garbage (\<open>ata_busy_drq_misread\<close>). A loop that waits
  for interrupts is given a list of those that arrive, one entry for each time round. What a program does in user mode
  is a parameter of \<open>process_run\<close>. A routine in assembly calls a \<^verbatim>\<open>C\<close> function as a parameter of type \<open>cfun\<close>; \<open>implements\<close> is the calling
  convention for one that does what the model of a handler says. Kernel objects made with \<^verbatim>\<open>kmalloc\<close> are kept by address (\<open>nodes\<close>, \<open>procs\<close>), and the heap's own bytes
  record which addresses are in use.

  \<^bold>\<open>What is shown.\<close> For each part its functional behaviour with every error branch, its invariant, and where a client
  relies on it a contract, proved once and used through an interpretation. Across parts: a file written is read back; a path is
  resolved as the directories say, without losing a node; \<^verbatim>\<open>printf\<close> writes what its conversions mean, by a meaning of their own (\<open>piece_text\<close>);
  a program is in memory as its headers say, with no other page touched, runs, and gives back its heap blocks and its pages; an
  interrupt restores what it interrupted, a system call changes one register, an exit comes out in \<^verbatim>\<open>process_run\<close>; keys
  become lines and lines commands; the commands show and change the files they name; Ctrl+C ends a program; memory after start-up satisfies the contracts. A number of
  theorems state where the code does something else than one would wish (double free, stale kill, interrupts off after a kill, shifted frames, ports open to user mode and
  others).

  \<^bold>\<open>Not modelled.\<close> The arithmetic flags and the loop around \<^verbatim>\<open>hlt\<close>. The interrupt flag outside the assembly: in the models of \<^verbatim>\<open>C\<close> code
  interrupts arrive wherever a model lets them. The TLB and the accessed and dirty bits. The kernel's own data is kept apart from virtual memory, so
  the models are true while programs and page tables stay clear of it; the loader of the source does not see to that. \<^verbatim>\<open>ltr\<close> checks the
  descriptor but does not mark it busy. The file system reads and writes a map of sectors, which
  \<open>Ata\<close> shows the driver to implement; its messages, and those of \<^verbatim>\<open>vfs_mount\<close>, are printed where the kernel calls it
  (\<open>kcreate\<close>, \<open>boot_disk\<close>), since the console is modelled above it. The build files and the Python terminal are no part of the running system.
\<close>

end
